(* ===== verification/Prelude.thy ===== *)
theory Prelude
  imports Main "HOL-Library.Word"
begin

text \<open>
  Shared vocabulary of the development: the machine integers of the C++ code, the status
  values of \<^verbatim>\<open>lib/jxl/base/status.h\<close>, bit strings (least significant bit first, the order of
  every JPEG XL field) and the small integer helpers of \<^verbatim>\<open>lib/jxl/base/common.h\<close> and
  \<^verbatim>\<open>lib/jxl/base/bits.h\<close>.  Every component imports this theory.
\<close>

unbundle bit_operations_syntax

section \<open>Types and collections\<close>

type_synonym u8 = "8 word"
type_synonym u16 = "16 word"
type_synonym u32 = "32 word"
type_synonym u64 = "64 word"
type_synonym i32 = "32 word"  \<comment> \<open>two's complement, read by \<open>sint\<close>\<close>

text \<open>
  \<open>jxl_bit_simps\<close> collects the facts that read one bit of a composed value, \<open>jxl_nat_simps\<close> the
  passages from words to natural numbers.
\<close>

named_theorems jxl_bit_simps
named_theorems jxl_nat_simps

text \<open>
  The \<^verbatim>\<open>StatusCode\<close> enumeration.  \<open>kNotEnoughBytes\<close> asks for more input, the other two errors
  are fatal.
\<close>

datatype StatusCode = kNotEnoughBytes | kOk | kGenericError | kUnsupported

text \<open>
  A fallible computation returns \<open>Inl\<close> of the status code, or \<open>Inr\<close> of its value; this is
  the exit taken by \<^verbatim>\<open>JXL_RETURN_IF_ERROR\<close>.
\<close>

type_synonym 'a outcome = "StatusCode + 'a"

definition and_then :: "'a outcome \<Rightarrow> ('a \<Rightarrow> 'b outcome) \<Rightarrow> 'b outcome" where
  "and_then m f = (case m of Inl e \<Rightarrow> Inl e | Inr x \<Rightarrow> f x)"

lemma and_then_simps [simp]:
  "and_then (Inl e) f = Inl e"
  "and_then (Inr x) f = f x"
  by (simp_all add: and_then_def)

lemma and_then_eq_Inr: "and_then m f = Inr y \<longleftrightarrow> (\<exists>x. m = Inr x \<and> f x = Inr y)"
  by (cases m) auto

section \<open>Bit strings\<close>

definition bits_of :: "nat \<Rightarrow> 'a::len word \<Rightarrow> bool list" where
  "bits_of n v = map (bit v) [0..<n]"

definition word_of_bits :: "bool list \<Rightarrow> 'a::len word" where
  "word_of_bits bs = horner_sum of_bool 2 bs"

lemma length_bits_of [simp]: "length (bits_of n v) = n"
  by (simp add: bits_of_def)

lemma nth_bits_of [simp]: "i < n \<Longrightarrow> bits_of n v ! i = bit v i"
  by (simp add: bits_of_def)

lemma bit_word_of_bits [jxl_bit_simps]:
  "bit (word_of_bits bs :: 'a::len word) i \<longleftrightarrow> i < LENGTH('a) \<and> i < length bs \<and> bs ! i"
  by (auto simp: word_of_bits_def bit_horner_sum_bit_word_iff)

lemma word_of_bits_bits_of: "word_of_bits (bits_of n v) = take_bit n v"
  by (simp add: word_of_bits_def bits_of_def horner_sum_bit_eq_take_bit)

lemma word_of_bits_bits_of_id:
  "drop_bit n v = 0 \<Longrightarrow> word_of_bits (bits_of n v) = v"
  by (simp add: word_of_bits_bits_of take_bit_eq_self_iff_drop_bit_eq_0)

lemma drop_bit_0_bit: "drop_bit n (v::'a::len word) = 0 \<Longrightarrow> bit v i \<Longrightarrow> i < n"
  by (metis bit_take_bit_iff take_bit_eq_self_iff_drop_bit_eq_0)

lemma drop_bit_0_unat: "drop_bit n (v::'a::len word) = 0 \<longleftrightarrow> unat v < 2 ^ n"
proof -
  have "drop_bit n v = 0 \<longleftrightarrow> unat (drop_bit n v) = 0" by (simp add: unat_eq_zero)
  also have "\<dots> \<longleftrightarrow> unat v div 2 ^ n = 0"
    by (simp only: unat_drop_bit_eq) (simp only: drop_bit_eq_div)
  also have "\<dots> \<longleftrightarrow> unat v < 2 ^ n" by (simp add: div_eq_0_iff)
  finally show ?thesis .
qed

lemma unat_word_of_bits_less:
  "unat (word_of_bits bs :: 'a::len word) < 2 ^ length bs"
proof -
  have "drop_bit (length bs) (word_of_bits bs :: 'a word) = 0"
    by (rule bit_eqI) (simp add: bit_drop_bit_eq bit_word_of_bits)
  then show ?thesis by (simp add: drop_bit_0_unat)
qed

lemma word_of_bits_eq_0_iff:
  "word_of_bits bs = (0 :: 'a::len word) \<longleftrightarrow> (\<forall>i < length bs. i < LENGTH('a) \<longrightarrow> \<not> bs ! i)"
  by (auto simp: bit_eq_iff bit_word_of_bits)

lemma word_of_bits_Nil [simp]: "word_of_bits [] = 0"
  by (simp add: word_of_bits_def)

text \<open>Widening a 32-bit value changes nothing, and narrowing it again gives it back.\<close>

lemma unat_ucast_u32 [simp, jxl_nat_simps]: "unat (ucast (v :: u32) :: u64) = unat v"
proof -
  have "unat v < 2 ^ 32" using unsigned_less [of v, where 'a = nat] by simp
  then show ?thesis by (simp add: unsigned_ucast_eq take_bit_nat_eq_self)
qed

lemma ucast_ucast_u32 [simp]: "ucast (ucast (v :: u32) :: u64) = v"
  by (rule bit_eqI) (auto simp: bit_ucast_iff)

text \<open>The signed reading of a 32-bit word.\<close>

lemma sint_i32: "sint (v :: i32) = (if bit v 31 then int (unat v) - 2 ^ 32 else int (unat v))"
proof -
  have u: "take_bit 32 (uint v) = uint v"
    using unsigned_less [of v, where 'a = int] by (intro take_bit_int_eq_self) simp_all
  have b: "bit (uint v) 31 = bit v 31" by (simp add: bit_uint_iff)
  have "sint v = signed_take_bit 31 (uint v)" by (simp add: sint_uint)
  also have "\<dots> = take_bit (Suc 31) (uint v) - 2 ^ Suc 31 * of_bool (bit (uint v) 31)"
    by (rule signed_take_bit_eq_take_bit_minus)
  finally show ?thesis using u b by simp
qed

lemma bit_31_iff: "bit (v :: u32) 31 \<longleftrightarrow> 2 ^ 31 \<le> unat v"
proof -
  have "bit v (31 + n) \<longleftrightarrow> n = 0 \<and> bit v 31" for n
    by (cases n) (auto dest: bit_imp_le_length)
  then have "drop_bit 31 v = of_bool (bit v 31)"
    by (intro bit_eqI) (simp add: bit_drop_bit_eq bit_1_iff of_bool_def)
  then have "\<not> bit v 31 \<longleftrightarrow> drop_bit 31 v = 0" by simp
  then show ?thesis by (simp only: drop_bit_0_unat) linarith
qed

lemma bits_of_0 [simp]: "bits_of 0 v = []"
  by (simp add: bits_of_def)

section \<open>Small integer helpers\<close>

lemma div_mod_byte:
  fixes i n :: nat
  assumes "8 * n \<le> i" and "i < 8 * n + 8"
  shows "i div 8 = n" and "i mod 8 = i - 8 * n"
proof -
  obtain k where "i = 8 * n + k" using assms(1) by (auto simp: le_iff_add)
  then show "i div 8 = n" and "i mod 8 = i - 8 * n" using assms(2) by simp_all
qed

text \<open>\<^verbatim>\<open>kBitsPerByte\<close>, \<^verbatim>\<open>DivCeil\<close>, \<^verbatim>\<open>RoundUpBitsToByteMultiple\<close>, \<^verbatim>\<open>SafeAdd\<close>.\<close>

abbreviation (input) kBitsPerByte :: nat where "kBitsPerByte \<equiv> 8"

definition DivCeil :: "nat \<Rightarrow> nat \<Rightarrow> nat" where
  "DivCeil a b = (a + b - 1) div b"

definition RoundUpBitsToByteMultiple :: "nat \<Rightarrow> nat" where
  "RoundUpBitsToByteMultiple bits = 8 * ((bits + 7) div 8)"

lemma RoundUpBitsToByteMultiple_aligned:
  "b mod 8 = 0 \<Longrightarrow> RoundUpBitsToByteMultiple b = b"
  unfolding RoundUpBitsToByteMultiple_def by auto

lemma RoundUpBitsToByteMultiple_unaligned:
  assumes "b mod 8 \<noteq> 0"
  shows "RoundUpBitsToByteMultiple b = b + (8 - b mod 8)"
proof -
  have b: "b = 8 * (b div 8) + b mod 8" by simp
  have "b mod 8 < 8" by simp
  then have "(b + 7) div 8 = b div 8 + 1" using assms b by linarith
  then show ?thesis using b \<open>b mod 8 < 8\<close> unfolding RoundUpBitsToByteMultiple_def by linarith
qed

definition SafeAdd :: "u64 \<Rightarrow> u64 \<Rightarrow> bool \<times> u64" where
  "SafeAdd a b = (let sum = a + b in (a \<le> sum, sum))"

lemma SafeAdd_no_wrap:
  "SafeAdd a b = (True, s) \<Longrightarrow> unat s = unat a + unat b"
  by (auto simp: SafeAdd_def Let_def no_olen_add_nat [symmetric] unat_plus_simple [symmetric])

lemma DivCeil_bounds: "0 < b \<Longrightarrow> a \<le> b * DivCeil a b \<and> b * DivCeil a b < a + b"
proof -
  assume b: "0 < b"
  have "(a + b - 1) mod b < b" using b by simp
  moreover have "b * ((a + b - 1) div b) + (a + b - 1) mod b = a + b - 1" by simp
  ultimately show ?thesis using b unfolding DivCeil_def by linarith
qed

text \<open>
  \<^verbatim>\<open>FloorLog2Nonzero\<close> and \<^verbatim>\<open>CeilLog2Nonzero\<close>: the index of the most significant set bit,
  which the C++ code takes from a count-leading-zeros instruction, and the same rounded up.
\<close>

fun FloorLog2Nonzero :: "nat \<Rightarrow> nat" where
  "FloorLog2Nonzero x = (if x \<le> 1 then 0 else Suc (FloorLog2Nonzero (x div 2)))"

declare FloorLog2Nonzero.simps [simp del]

definition CeilLog2Nonzero :: "nat \<Rightarrow> nat" where
  "CeilLog2Nonzero x =
     (let floor_log2 = FloorLog2Nonzero x
      in if x AND (x - 1) = 0 then floor_log2 else floor_log2 + 1)"

lemma FloorLog2Nonzero_bounds:
  "0 < x \<Longrightarrow> 2 ^ FloorLog2Nonzero x \<le> x \<and> x < 2 ^ Suc (FloorLog2Nonzero x)"
proof (induction x rule: FloorLog2Nonzero.induct)
  case (1 x)
  show ?case
  proof (cases "x \<le> 1")
    case True
    with "1.prems" show ?thesis by (simp add: FloorLog2Nonzero.simps)
  next
    case False
    then have "0 < x div 2" by simp
    with "1.IH" False have
      "2 ^ FloorLog2Nonzero (x div 2) \<le> x div 2 \<and> x div 2 < 2 ^ Suc (FloorLog2Nonzero (x div 2))"
      by simp
    with False show ?thesis by (auto simp: FloorLog2Nonzero.simps [of x])
  qed
qed

lemma FloorLog2Nonzero_unique:
  assumes "2 ^ n \<le> x" and "x < 2 ^ Suc n"
  shows "FloorLog2Nonzero x = n"
proof -
  have x: "0 < x" using assms(1) by (cases x) auto
  let ?m = "FloorLog2Nonzero x"
  have "(2::nat) ^ ?m < 2 ^ Suc n" "(2::nat) ^ n < 2 ^ Suc ?m"
    using FloorLog2Nonzero_bounds [OF x] assms by linarith+
  then have "?m < Suc n" "n < Suc ?m"
    by (meson one_less_numeral_iff power_less_imp_less_exp semiring_norm(76))+
  then show ?thesis by simp
qed

lemma and_pred_eq_0:
  assumes "0 < x" and "x AND (x - 1) = (0 :: nat)"
  shows "x = 2 ^ FloorLog2Nonzero x"
proof (rule ccontr)
  define f where "f = FloorLog2Nonzero x"
  have b: "2 ^ f \<le> x" "x < 2 * 2 ^ f"
    using FloorLog2Nonzero_bounds [OF assms(1)] by (simp_all add: f_def)
  assume "x \<noteq> 2 ^ FloorLog2Nonzero x"
  then have "2 ^ f \<le> x - 1" using b(1) by (simp add: f_def)
  then have "x div 2 ^ f = 1" "(x - 1) div 2 ^ f = 1"
    using b by (auto intro!: div_nat_eqI)
  then have "bit x f" "bit (x - 1) f" by (simp_all add: bit_iff_odd)
  then have "bit (x AND (x - 1)) f" by (simp only: bit_and_iff simp_thms)
  with assms(2) show False by simp
qed

lemma CeilLog2Nonzero_bounds:
  assumes "0 < x"
  shows "x \<le> 2 ^ CeilLog2Nonzero x" and "CeilLog2Nonzero x \<le> Suc (FloorLog2Nonzero x)"
  using FloorLog2Nonzero_bounds [OF assms] and_pred_eq_0 [OF assms]
  by (auto simp: CeilLog2Nonzero_def Let_def)

lemma FloorLog2Nonzero_less: "0 < x \<Longrightarrow> x < 2 ^ n \<Longrightarrow> FloorLog2Nonzero x < n"
  using FloorLog2Nonzero_bounds [of x] power_less_imp_less_exp [of "2 :: nat" "FloorLog2Nonzero x" n]
  by linarith

text \<open>Word operations that do not wrap.\<close>

lemma unat_ucast_id:
  fixes v :: "'a::len word"
  assumes "unat v < 2 ^ LENGTH('b)"
  shows "unat (ucast v :: 'b::len word) = unat v"
  using assms by (simp add: unsigned_ucast_eq take_bit_nat_eq_self)

lemma unat_mult_id:
  fixes v w :: "'a::len word"
  assumes "unat v * unat w < 2 ^ LENGTH('a)"
  shows "unat (v * w) = unat v * unat w"
  using assms by (simp add: unat_word_ariths(2))

lemma unat_add_id:
  fixes v w :: "'a::len word"
  assumes "unat v + unat w < 2 ^ LENGTH('a)"
  shows "unat (v + w) = unat v + unat w"
  using assms by (simp add: unat_word_ariths(1))

lemma unat_of_nat_id: "n < 2 ^ LENGTH('a) \<Longrightarrow> unat (of_nat n :: 'a::len word) = n"
  by (simp add: unsigned_of_nat take_bit_nat_eq_self)

text \<open>\<^verbatim>\<open>std::vector::resize\<close>.\<close>

definition vector_resize :: "nat \<Rightarrow> 'a \<Rightarrow> 'a list \<Rightarrow> 'a list" where
  "vector_resize n x xs = take n xs @ replicate (n - length xs) x"

lemma length_vector_resize [simp]: "length (vector_resize n d xs) = n"
  by (simp add: vector_resize_def)

lemma list_update_numeral [simp]: "(x # xs)[numeral k := v] = x # xs[pred_numeral k := v]"
  by (simp add: numeral_eq_Suc)

lemma replicate_numeral_Cons: "replicate (numeral k) x = x # replicate (pred_numeral k) x"
  by (simp add: numeral_eq_Suc)

lemma nat_and_mask: "(v :: nat) AND (2 ^ k - 1) = v mod 2 ^ k"
  by (simp only: take_bit_eq_mod [symmetric] take_bit_eq_mask mask_eq_exp_minus_1)

end
