(* ===== verification/Bit_Reader.thy ===== *)
theory Bit_Reader
  imports Prelude
begin

text \<open>
  The bounds-checked bit reader of \<^verbatim>\<open>lib/jxl/dec_bit_reader.h\<close> and \<^verbatim>\<open>dec_bit_reader.cc\<close>: a
  64-bit buffer refilled by unaligned little-endian loads, with zero bytes assumed past the end
  of the input.  The model keeps the buffer as a 64-bit word and the pointers \<^verbatim>\<open>next_byte_\<close>
  and \<^verbatim>\<open>end_minus_8_\<close> as offsets into the input.  The theory then states what a reader promises
  to its clients (the locale \<open>bit_source\<close>) and proves that the buffered reader refines it.
\<close>

section \<open>State\<close>

text \<open>
  \<open>br_data\<close> is the input span (\<^verbatim>\<open>first_byte_\<close> to \<^verbatim>\<open>end_minus_8_ + 8\<close>), \<open>next_byte\<close> is
  \<^verbatim>\<open>next_byte_ - first_byte_\<close>.  Sizes and positions are natural numbers: an input held in memory
  has fewer than $2^{61}$ bytes, so its bit positions fit the 64-bit \<^verbatim>\<open>size_t\<close>.
\<close>

record BitReader =
  br_data :: "u8 list"
  buf :: u64
  bits_in_buf :: nat
  next_byte :: nat
  overread_bytes :: nat
  close_called :: bool
  checked_out_of_bounds_bits :: nat

text \<open>\<^verbatim>\<open>LoadLE64\<close> (\<^verbatim>\<open>lib/jxl/base/byte_order.h\<close>): eight bytes, the first one lowest.\<close>

definition LoadLE64 :: "u8 list \<Rightarrow> nat \<Rightarrow> u64" where
  "LoadLE64 d p = fold (\<lambda>k w. w OR push_bit (8 * k) (ucast (d ! (p + k)))) [0..<8] 0"

section \<open>Operations\<close>

definition BitReader_TotalBytes :: "BitReader \<Rightarrow> nat" where
  "BitReader_TotalBytes br = length (br_data br)"

definition TotalBitsConsumed :: "BitReader \<Rightarrow> nat" where
  "TotalBitsConsumed br =
     (next_byte br + overread_bytes br) * kBitsPerByte - bits_in_buf br"

text \<open>The byte loop of \<^verbatim>\<open>BoundsCheckedRefill\<close>: whole bytes until the buffer holds 56 bits or
  the input ends.\<close>

function refill_bytes :: "BitReader \<Rightarrow> BitReader" where
  "refill_bytes br =
     (if bits_in_buf br < 64 - kBitsPerByte then
        if next_byte br \<ge> length (br_data br) then br
        else refill_bytes (br\<lparr>
          buf := buf br OR push_bit (bits_in_buf br) (ucast (br_data br ! next_byte br)),
          next_byte := next_byte br + 1,
          bits_in_buf := bits_in_buf br + kBitsPerByte\<rparr>)
      else br)"
  by pat_completeness auto
termination
  by (relation "measure (\<lambda>br. 64 - bits_in_buf br)") auto

declare refill_bytes.simps [simp del]

definition BoundsCheckedRefill :: "BitReader \<Rightarrow> BitReader" where
  "BoundsCheckedRefill br0 =
     (let br = refill_bytes br0;
          extra_bytes = (63 - bits_in_buf br) div kBitsPerByte
      in br\<lparr>overread_bytes := overread_bytes br + extra_bytes,
            bits_in_buf := bits_in_buf br + extra_bytes * kBitsPerByte\<rparr>)"

text \<open>The guard \<^verbatim>\<open>next_byte_ > end_minus_8_\<close> compares pointers, so it is written without the
  subtraction.\<close>

definition Refill :: "BitReader \<Rightarrow> BitReader" where
  "Refill br =
     (if next_byte br + 8 > length (br_data br) then BoundsCheckedRefill br
      else br\<lparr>buf := buf br OR push_bit (bits_in_buf br) (LoadLE64 (br_data br) (next_byte br)),
              next_byte := next_byte br + drop_bit 3 (63 - bits_in_buf br),
              bits_in_buf := bits_in_buf br OR 56\<rparr>)"

definition BitReader_new :: "u8 list \<Rightarrow> BitReader" where
  "BitReader_new bytes = Refill \<lparr>br_data = bytes, buf = 0, bits_in_buf = 0, next_byte = 0,
     overread_bytes = 0, close_called = False, checked_out_of_bounds_bits = 0\<rparr>"

definition PeekBits :: "nat \<Rightarrow> BitReader \<Rightarrow> u64" where
  "PeekBits nbits br = buf br AND (push_bit nbits 1 - 1)"

definition Consume :: "nat \<Rightarrow> BitReader \<Rightarrow> BitReader" where
  "Consume num_bits br =
     br\<lparr>bits_in_buf := bits_in_buf br - num_bits, buf := drop_bit num_bits (buf br)\<rparr>"

text \<open>\<^verbatim>\<open>ReadBits\<close> and \<^verbatim>\<open>ReadFixedBits<N>\<close> do the same steps; the second one only fixes the width
  at compile time.\<close>

definition ReadBits :: "nat \<Rightarrow> BitReader \<Rightarrow> u64 \<times> BitReader" where
  "ReadBits nbits br0 = (let br = Refill br0 in (PeekBits nbits br, Consume nbits br))"

definition SkipBits :: "nat \<Rightarrow> BitReader \<Rightarrow> BitReader" where
  "SkipBits skip br =
     (if skip \<le> bits_in_buf br then Consume skip br
      else
        let skip = skip - bits_in_buf br;
            br = br\<lparr>bits_in_buf := 0, buf := 0\<rparr>;
            whole_bytes = skip div kBitsPerByte;
            skip = skip mod kBitsPerByte
        in if whole_bytes > length (br_data br) - next_byte br then
             Consume (skip + kBitsPerByte) (Refill (br\<lparr>next_byte := length (br_data br)\<rparr>))
           else Consume skip (Refill (br\<lparr>next_byte := next_byte br + whole_bytes\<rparr>)))"

definition JumpToByteBoundary :: "BitReader \<Rightarrow> StatusCode \<times> BitReader" where
  "JumpToByteBoundary br =
     (let remainder = TotalBitsConsumed br mod kBitsPerByte
      in if remainder = 0 then (kOk, br)
         else let (padding, br) = ReadBits (kBitsPerByte - remainder) br
              in if padding \<noteq> 0 then (kGenericError, br) else (kOk, br))"

definition AllReadsWithinBounds :: "BitReader \<Rightarrow> bool \<times> BitReader" where
  "AllReadsWithinBounds br0 =
     (let br = br0\<lparr>checked_out_of_bounds_bits := TotalBitsConsumed br0\<rparr>
      in if TotalBitsConsumed br > BitReader_TotalBytes br * kBitsPerByte then (False, br)
         else (True, br))"

definition BitReader_Close :: "BitReader \<Rightarrow> StatusCode \<times> BitReader" where
  "BitReader_Close br0 =
     (let br = br0\<lparr>close_called := True\<rparr>
      in if TotalBitsConsumed br > checked_out_of_bounds_bits br \<and>
            TotalBitsConsumed br > BitReader_TotalBytes br * kBitsPerByte
         then (kGenericError, br) else (kOk, br))"

section \<open>The abstract bit stream\<close>

text \<open>
  A reader stands for an infinite bit stream: the bits of the input, least significant first in
  each byte, followed by zeros.  \<open>stream_bit d i\<close> is its bit number \<open>i\<close>; \<open>upcoming br\<close> is the
  stream from the reader's position on.
\<close>

definition stream_bit :: "u8 list \<Rightarrow> nat \<Rightarrow> bool" where
  "stream_bit d i \<longleftrightarrow> i < 8 * length d \<and> bit (d ! (i div 8)) (i mod 8)"

definition upcoming :: "BitReader \<Rightarrow> nat \<Rightarrow> bool" where
  "upcoming br i = stream_bit (br_data br) (TotalBitsConsumed br + i)"

text \<open>
  The invariant.  The bits above \<open>bits_in_buf\<close> are not garbage: the fast refill ORs eight bytes in
  and absorbs only some of them, so the rest are bits of the stream that the next refill ORs in
  again.
\<close>

definition br_ok :: "BitReader \<Rightarrow> bool" where
  "br_ok br \<longleftrightarrow>
     bits_in_buf br < 64 \<and>
     next_byte br \<le> length (br_data br) \<and>
     (overread_bytes br \<noteq> 0 \<longrightarrow> next_byte br = length (br_data br)) \<and>
     bits_in_buf br \<le> 8 * (next_byte br + overread_bytes br) \<and>
     (\<forall>i. bit (buf br) i \<longrightarrow> upcoming br i) \<and>
     (\<forall>i < bits_in_buf br. upcoming br i \<longrightarrow> bit (buf br) i)"

lemmas br_defs = br_ok_def upcoming_def TotalBitsConsumed_def

lemma br_ok_buf:
  assumes "br_ok br"
  shows "bit (buf br) i \<Longrightarrow> upcoming br i"
    and "i < bits_in_buf br \<Longrightarrow> upcoming br i \<Longrightarrow> bit (buf br) i"
    and "bits_in_buf br < 64"
  using assms by (auto simp: br_ok_def)

lemma bit_LoadLE64_upto:
  "n \<le> 8 \<Longrightarrow>
   bit (fold (\<lambda>k w. w OR push_bit (8 * k) (ucast (d ! (p + k)))) [0..<n] (0::u64)) i
   \<longleftrightarrow> i < 8 * n \<and> bit ((d :: u8 list) ! (p + i div 8)) (i mod 8)"
proof (induction n)
  case 0
  show ?case by simp
next
  case (Suc n)
  let ?w = "fold (\<lambda>k w. w OR push_bit (8 * k) (ucast (d ! (p + k)))) [0..<n] (0::u64)"
  have IH: "bit ?w i \<longleftrightarrow> i < 8 * n \<and> bit (d ! (p + i div 8)) (i mod 8)"
    using Suc by simp
  have "bit (?w OR push_bit (8 * n) (ucast (d ! (p + n)))) i \<longleftrightarrow>
      bit ?w i \<or> (8 * n \<le> i \<and> i < 64 \<and> i - 8 * n < 8 \<and> bit (d ! (p + n)) (i - 8 * n))"
    by (auto simp: bit_or_iff bit_push_bit_iff bit_ucast_iff dest: bit_imp_le_length)
  also have "\<dots> \<longleftrightarrow> i < 8 * Suc n \<and> bit (d ! (p + i div 8)) (i mod 8)"
  proof (cases "8 * n \<le> i \<and> i < 8 * Suc n")
    case True
    then have "i div 8 = n" "i mod 8 = i - 8 * n" using div_mod_byte [of n i] by simp_all
    moreover have "i < 64" using True Suc.prems by simp
    ultimately show ?thesis using True unfolding IH by auto
  next
    case False
    then show ?thesis unfolding IH by auto
  qed
  finally show ?case by simp
qed

lemma bit_LoadLE64 [jxl_bit_simps]:
  "bit (LoadLE64 d p) i \<longleftrightarrow> i < 64 \<and> bit (d ! (p + i div 8)) (i mod 8)"
  using bit_LoadLE64_upto [of 8 d p i] by (simp add: LoadLE64_def)

lemma or_56: "b < 64 \<Longrightarrow> (b::nat) OR 56 = 56 + b mod 8"
proof -
  have "list_all (\<lambda>b::nat. b OR 56 = 56 + b mod 8) [0..<64]" by code_simp
  then show "b < 64 \<Longrightarrow> b OR 56 = 56 + b mod 8" by (auto simp: list_all_iff)
qed

lemma byte_shift: "b < 64 \<Longrightarrow> (b::nat) + 8 * ((63 - b) div 8) = 56 + b mod 8"
proof -
  have "list_all (\<lambda>b::nat. b + 8 * ((63 - b) div 8) = 56 + b mod 8) [0..<64]" by code_simp
  then show "b < 64 \<Longrightarrow> b + 8 * ((63 - b) div 8) = 56 + b mod 8" by (auto simp: list_all_iff)
qed

text \<open>One byte absorbed: the position does not move, the invariant stays.\<close>

lemma refill_byte_step:
  assumes "br_ok br" "bits_in_buf br < 56" "next_byte br < length (br_data br)"
  defines "br' \<equiv> br\<lparr>buf := buf br OR push_bit (bits_in_buf br) (ucast (br_data br ! next_byte br)),
                    next_byte := next_byte br + 1, bits_in_buf := bits_in_buf br + 8\<rparr>"
  shows "br_ok br' \<and> TotalBitsConsumed br' = TotalBitsConsumed br"
proof -
  let ?b = "bits_in_buf br" and ?n = "next_byte br" and ?d = "br_data br"
  have "overread_bytes br = 0" using assms(1,3) by (auto simp: br_ok_def)
  have pos: "TotalBitsConsumed br' = TotalBitsConsumed br"
    by (simp add: br'_def TotalBitsConsumed_def)
  have up: "upcoming br' i = upcoming br i" for i
    by (simp add: upcoming_def pos) (simp add: br'_def)
  have start: "TotalBitsConsumed br + ?b = 8 * ?n"
    using assms \<open>overread_bytes br = 0\<close> by (simp add: br_defs)
  have byte: "bit (push_bit ?b (ucast (?d ! ?n) :: u64)) i \<longleftrightarrow>
      ?b \<le> i \<and> i < ?b + 8 \<and> bit (?d ! ?n) (i - ?b)" for i
    using assms(2)
    by (auto simp: bit_push_bit_iff bit_ucast_iff dest: bit_imp_le_length)
  have new: "upcoming br i \<longleftrightarrow> bit (?d ! ?n) (i - ?b)" if "?b \<le> i" "i < ?b + 8" for i
  proof -
    have e: "TotalBitsConsumed br + i = 8 * ?n + (i - ?b)" using start that by simp
    then have "(TotalBitsConsumed br + i) div 8 = ?n" "(TotalBitsConsumed br + i) mod 8 = i - ?b"
      using that div_mod_byte [of ?n "TotalBitsConsumed br + i"] by simp_all
    moreover have "8 * ?n + (i - ?b) < 8 * length ?d" using assms(3) that by linarith
    ultimately show ?thesis using e by (simp add: upcoming_def stream_bit_def)
  qed
  have buf': "bit (buf br') i \<longleftrightarrow> bit (buf br) i \<or> (?b \<le> i \<and> i < ?b + 8 \<and> bit (?d ! ?n) (i - ?b))" for i
    by (simp add: br'_def bit_or_iff byte)
  have "\<forall>i. bit (buf br') i \<longrightarrow> upcoming br' i"
    using br_ok_buf(1) [OF assms(1)] new unfolding buf' up by blast
  moreover have "\<forall>i < ?b + 8. upcoming br' i \<longrightarrow> bit (buf br') i"
    using br_ok_buf(2) [OF assms(1)] new unfolding buf' up by (meson not_le)
  ultimately show ?thesis
    using assms(1-3) pos \<open>overread_bytes br = 0\<close> by (simp add: br_ok_def br'_def)
qed

lemma refill_bytes_ok:
  "br_ok br \<Longrightarrow> br_ok (refill_bytes br) \<and>
     TotalBitsConsumed (refill_bytes br) = TotalBitsConsumed br \<and>
     br_data (refill_bytes br) = br_data br \<and>
     (bits_in_buf (refill_bytes br) < 56 \<longrightarrow>
        next_byte (refill_bytes br) = length (br_data br))"
proof (induction br rule: refill_bytes.induct)
  case (1 br)
  show ?case
  proof (cases "bits_in_buf br < 56 \<and> next_byte br < length (br_data br)")
    case True
    with "1.prems" refill_byte_step [of br] "1.IH" show ?thesis
      by (simp add: refill_bytes.simps [of br])
  next
    case False
    with "1.prems" show ?thesis
      by (auto simp: refill_bytes.simps [of br] br_ok_def)
  qed
qed

lemma stream_bit_past_end: "8 * length d \<le> i \<Longrightarrow> \<not> stream_bit d i"
  by (simp add: stream_bit_def)

lemma BoundsCheckedRefill_ok:
  assumes "br_ok br"
  shows "br_ok (BoundsCheckedRefill br) \<and> 56 \<le> bits_in_buf (BoundsCheckedRefill br) \<and>
    TotalBitsConsumed (BoundsCheckedRefill br) = TotalBitsConsumed br \<and>
    br_data (BoundsCheckedRefill br) = br_data br"
proof -
  let ?r = "refill_bytes br"
  define e where "e = (63 - bits_in_buf ?r) div 8"
  have r: "br_ok ?r" "TotalBitsConsumed ?r = TotalBitsConsumed br" "br_data ?r = br_data br"
    "bits_in_buf ?r < 56 \<Longrightarrow> next_byte ?r = length (br_data br)"
    using refill_bytes_ok [OF assms] by auto
  have b: "bits_in_buf ?r < 64" using r(1) by (simp add: br_ok_def)
  have e: "bits_in_buf ?r + 8 * e < 64" "56 \<le> bits_in_buf ?r + 8 * e"
    using b unfolding e_def by linarith+
  have B: "BoundsCheckedRefill br = ?r\<lparr>overread_bytes := overread_bytes ?r + e,
      bits_in_buf := bits_in_buf ?r + e * 8\<rparr>"
    by (simp add: BoundsCheckedRefill_def Let_def e_def)
  have pos: "TotalBitsConsumed (BoundsCheckedRefill br) = TotalBitsConsumed ?r"
    by (simp add: B TotalBitsConsumed_def)
  have up: "upcoming (BoundsCheckedRefill br) i = upcoming ?r i" for i
    unfolding upcoming_def pos by (simp add: B)
  have zeros: "\<not> upcoming ?r i" if "e \<noteq> 0" "bits_in_buf ?r \<le> i" for i
  proof -
    have "next_byte ?r = length (br_data br)" using that(1) e_def r(4) by fastforce
    then show ?thesis using r(1) that(2)
      by (intro notI) (auto simp: br_defs stream_bit_def r(3))
  qed
  have "\<forall>i < bits_in_buf ?r + e * 8. upcoming ?r i \<longrightarrow> bit (buf ?r) i"
  proof (intro allI impI)
    fix i assume "i < bits_in_buf ?r + e * 8" "upcoming ?r i"
    moreover have "i < bits_in_buf ?r"
    proof (rule ccontr)
      assume "\<not> i < bits_in_buf ?r"
      with zeros [of i] \<open>upcoming ?r i\<close> have "e = 0" by (meson not_le)
      with \<open>i < bits_in_buf ?r + e * 8\<close> \<open>\<not> i < bits_in_buf ?r\<close> show False by simp
    qed
    ultimately show "bit (buf ?r) i" using br_ok_buf(2) [OF r(1)] by blast
  qed
  moreover have "e \<noteq> 0 \<longrightarrow> next_byte ?r = length (br_data br)"
    using e_def r(4) by fastforce
  moreover have "bits_in_buf ?r + e * 8 \<le> 8 * (next_byte ?r + (overread_bytes ?r + e))"
  proof -
    have "bits_in_buf ?r \<le> 8 * (next_byte ?r + overread_bytes ?r)" using r(1) by (simp add: br_ok_def)
    then show ?thesis by simp
  qed
  moreover have "overread_bytes ?r \<noteq> 0 \<longrightarrow> next_byte ?r = length (br_data br)"
    "next_byte ?r \<le> length (br_data br)" "\<forall>i. bit (buf ?r) i \<longrightarrow> upcoming ?r i"
    using r(1,3) by (simp_all add: br_ok_def)
  ultimately have "br_ok (BoundsCheckedRefill br)"
    using e(1) unfolding br_ok_def up by (simp add: B r(3) mult.commute)
  then show ?thesis using e r pos by (simp add: B)
qed

lemma Refill_fast_ok:
  assumes "br_ok br" and fits: "next_byte br + 8 \<le> length (br_data br)"
  shows "br_ok (Refill br) \<and> 56 \<le> bits_in_buf (Refill br) \<and>
    TotalBitsConsumed (Refill br) = TotalBitsConsumed br \<and> br_data (Refill br) = br_data br"
proof -
  let ?b = "bits_in_buf br" and ?n = "next_byte br" and ?d = "br_data br"
  have b: "?b < 64" and ov: "overread_bytes br = 0" and le: "?b \<le> 8 * ?n"
    using assms by (auto simp: br_ok_def)
  have R: "Refill br = br\<lparr>buf := buf br OR push_bit ?b (LoadLE64 ?d ?n),
      next_byte := ?n + (63 - ?b) div 8, bits_in_buf := 56 + ?b mod 8\<rparr>"
    using fits b by (simp add: Refill_def or_56 drop_bit_eq_div)
  have shift: "?b + 8 * ((63 - ?b) div 8) = 56 + ?b mod 8"
    using b byte_shift by blast
  have pos: "TotalBitsConsumed (Refill br) = TotalBitsConsumed br"
    using shift le ov by (simp add: R TotalBitsConsumed_def)
  have up: "upcoming (Refill br) i = upcoming br i" for i
    unfolding upcoming_def pos by (simp add: R)
  have new: "upcoming br i \<longleftrightarrow> bit (?d ! (?n + (i - ?b) div 8)) ((i - ?b) mod 8)"
    if "?b \<le> i" "i < 64" for i
  proof -
    have e: "TotalBitsConsumed br + i = 8 * ?n + (i - ?b)"
      using le ov that by (simp add: TotalBitsConsumed_def)
    have "8 * ?n + (i - ?b) < 8 * length ?d" using fits that by linarith
    then show ?thesis unfolding upcoming_def stream_bit_def e by simp
  qed
  have buf': "bit (buf (Refill br)) i \<longleftrightarrow> bit (buf br) i \<or>
      (?b \<le> i \<and> i < 64 \<and> bit (?d ! (?n + (i - ?b) div 8)) ((i - ?b) mod 8))" for i
    by (auto simp: R bit_or_iff bit_push_bit_iff bit_LoadLE64 dest: bit_imp_le_length)
  have "\<forall>i. bit (buf (Refill br)) i \<longrightarrow> upcoming (Refill br) i"
    using br_ok_buf(1) [OF assms(1)] new unfolding buf' up by blast
  moreover have "\<forall>i < 64. upcoming (Refill br) i \<longrightarrow> bit (buf (Refill br)) i"
  proof (intro allI impI)
    fix i :: nat assume "i < 64" "upcoming (Refill br) i"
    then show "bit (buf (Refill br)) i"
      using br_ok_buf(2) [OF assms(1)] new [of i] unfolding buf' up by (meson not_le)
  qed
  moreover have "56 + ?b mod 8 < 64" by simp
  moreover have "?n + (63 - ?b) div 8 \<le> length ?d" using fits by simp
  moreover have "56 + ?b mod 8 \<le> 8 * (?n + (63 - ?b) div 8)"     unfolding shift [symmetric] distrib_left by (rule add_right_mono [OF le])
  ultimately have "br_ok (Refill br)"
    unfolding br_ok_def by (simp add: R ov)
  then show ?thesis using pos by (simp add: R)
qed

lemma Refill_ok:
  assumes "br_ok br"
  shows "br_ok (Refill br)" "56 \<le> bits_in_buf (Refill br)"
    "TotalBitsConsumed (Refill br) = TotalBitsConsumed br" "br_data (Refill br) = br_data br"
proof -
  have "br_ok (Refill br) \<and> 56 \<le> bits_in_buf (Refill br) \<and>
    TotalBitsConsumed (Refill br) = TotalBitsConsumed br \<and> br_data (Refill br) = br_data br"
  proof (cases "next_byte br + 8 > length (br_data br)")
    case True
    then show ?thesis using BoundsCheckedRefill_ok [OF assms] by (simp add: Refill_def)
  next
    case False
    then show ?thesis by (intro Refill_fast_ok [OF assms]) simp
  qed
  then show "br_ok (Refill br)" "56 \<le> bits_in_buf (Refill br)"
    "TotalBitsConsumed (Refill br) = TotalBitsConsumed br" "br_data (Refill br) = br_data br"
    by blast+
qed

section \<open>What the operations do to the stream\<close>

lemma Consume_ok:
  assumes "br_ok br" "n \<le> bits_in_buf br"
  shows "br_ok (Consume n br)" "TotalBitsConsumed (Consume n br) = TotalBitsConsumed br + n"
    "upcoming (Consume n br) i = upcoming br (n + i)" "br_data (Consume n br) = br_data br"
proof -
  show pos: "TotalBitsConsumed (Consume n br) = TotalBitsConsumed br + n"
    using assms by (simp add: br_defs Consume_def)
  show up: "upcoming (Consume n br) i = upcoming br (n + i)" for i
    unfolding upcoming_def pos by (simp add: Consume_def add.assoc)
  show "br_data (Consume n br) = br_data br" by (simp add: Consume_def)
  have buf': "bit (buf (Consume n br)) i = bit (buf br) (n + i)" for i
    by (simp add: Consume_def bit_drop_bit_eq)
  have "\<forall>i. bit (buf (Consume n br)) i \<longrightarrow> upcoming (Consume n br) i"
    using br_ok_buf(1) [OF assms(1)] unfolding buf' up by blast
  moreover have "\<forall>i < bits_in_buf br - n. upcoming (Consume n br) i \<longrightarrow> bit (buf (Consume n br)) i"
    using br_ok_buf(2) [OF assms(1)] unfolding buf' up by (simp add: less_diff_conv2 assms(2) add.commute)
  moreover have "bits_in_buf br - n < 64"
    "bits_in_buf br - n \<le> 8 * (next_byte br + overread_bytes br)"
    "next_byte br \<le> length (br_data br)"
    "overread_bytes br \<noteq> 0 \<longrightarrow> next_byte br = length (br_data br)"
    using assms(1) unfolding br_ok_def by linarith+
  ultimately show "br_ok (Consume n br)"
    unfolding br_ok_def by (simp add: Consume_def)
qed

text \<open>Whatever the reader holds, a read of \<open>n\<close> bits is below \<open>2 ^ n\<close>.\<close>

lemma PeekBits_less: "n \<le> 63 \<Longrightarrow> unat (PeekBits n br) < 2 ^ n"
proof -
  assume "n \<le> 63"
  have "PeekBits n br = take_bit n (buf br)"
    by (simp add: PeekBits_def take_bit_eq_mask mask_eq_exp_minus_1)
  then show ?thesis by (simp add: unsigned_take_bit_eq)
qed

lemma ReadBits_less: "n \<le> 56 \<Longrightarrow> ReadBits n br = (v, br') \<Longrightarrow> unat v < 2 ^ n"
proof -
  assume n: "n \<le> 56" and r: "ReadBits n br = (v, br')"
  then have "v = PeekBits n (Refill br)" by (simp add: ReadBits_def Let_def)
  then have "v = take_bit n (buf (Refill br))"
    by (simp add: PeekBits_def take_bit_eq_mask mask_eq_exp_minus_1)
  then show ?thesis by (simp add: unsigned_take_bit_eq)
qed

lemma PeekBits_value:
  assumes "br_ok br" "n \<le> bits_in_buf br"
  shows "PeekBits n br = word_of_bits (map (upcoming br) [0..<n])"
proof (rule bit_eqI)
  fix i assume "possible_bit TYPE(64 word) i"
  then have i: "i < 64" by simp
  have "bit (PeekBits n br) i \<longleftrightarrow> i < n \<and> bit (buf br) i"
    using i by (simp add: PeekBits_def bit_and_iff flip: mask_eq_exp_minus_1)
      (auto simp: bit_mask_iff push_bit_eq_mult mask_eq_exp_minus_1 [symmetric])
  also have "\<dots> \<longleftrightarrow> i < n \<and> upcoming br i"
    using br_ok_buf(1,2) [OF assms(1)] assms(2) by (meson order_less_le_trans)
  also have "\<dots> \<longleftrightarrow> bit (word_of_bits (map (upcoming br) [0..<n]) :: u64) i"
    using i by (auto simp: bit_word_of_bits)
  finally show "bit (PeekBits n br) i \<longleftrightarrow> bit (word_of_bits (map (upcoming br) [0..<n]) :: u64) i" .
qed

lemma upcoming_Refill [simp]: "br_ok br \<Longrightarrow> upcoming (Refill br) = upcoming br"
  by (rule ext) (simp add: upcoming_def Refill_ok)

lemma ReadBits_ok:
  assumes "br_ok br" "n \<le> 56"
  shows "fst (ReadBits n br) = word_of_bits (map (upcoming br) [0..<n])"
    "br_ok (snd (ReadBits n br))"
    "TotalBitsConsumed (snd (ReadBits n br)) = TotalBitsConsumed br + n"
    "upcoming (snd (ReadBits n br)) i = upcoming br (n + i)"
    "br_data (snd (ReadBits n br)) = br_data br"
proof -
  note R = Refill_ok [OF assms(1)]
  have n: "n \<le> bits_in_buf (Refill br)" using R(2) assms(2) by simp
  show "fst (ReadBits n br) = word_of_bits (map (upcoming br) [0..<n])"
    using PeekBits_value [OF R(1) n] assms(1) by (simp add: ReadBits_def Let_def)
  show "br_ok (snd (ReadBits n br))"
    "TotalBitsConsumed (snd (ReadBits n br)) = TotalBitsConsumed br + n"
    "upcoming (snd (ReadBits n br)) i = upcoming br (n + i)"
    "br_data (snd (ReadBits n br)) = br_data br"
    using Consume_ok [OF R(1) n] R assms(1) by (simp_all add: ReadBits_def Let_def)
qed

lemma br_ok_empty_buffer:
  assumes "bits_in_buf br = 0" "buf br = 0" "next_byte br \<le> length (br_data br)"
    "overread_bytes br \<noteq> 0 \<longrightarrow> next_byte br = length (br_data br)"
  shows "br_ok br" and "TotalBitsConsumed br = 8 * (next_byte br + overread_bytes br)"
  using assms by (simp_all add: br_ok_def TotalBitsConsumed_def)

lemma BitReader_new_ok:
  "br_ok (BitReader_new d)" "TotalBitsConsumed (BitReader_new d) = 0"
  "br_data (BitReader_new d) = d" "upcoming (BitReader_new d) = stream_bit d"
proof -
  let ?b = "\<lparr>br_data = d, buf = 0, bits_in_buf = 0, next_byte = 0, overread_bytes = 0,
    close_called = False, checked_out_of_bounds_bits = 0\<rparr>"
  have ok: "br_ok ?b" and pos: "TotalBitsConsumed ?b = 0"
    using br_ok_empty_buffer [of ?b] by simp_all
  show "br_ok (BitReader_new d)" "TotalBitsConsumed (BitReader_new d) = 0"
    "br_data (BitReader_new d) = d"
    using Refill_ok [OF ok] pos by (simp_all add: BitReader_new_def)
  then show "upcoming (BitReader_new d) = stream_bit d"
    by (intro ext) (simp add: upcoming_def)
qed

text \<open>Skipping past the buffer: the buffer is dropped, whole bytes are skipped by moving the
  pointer, and the rest is consumed after a refill.\<close>

lemma skip_tail_ok:
  assumes "br_ok br" "bits_in_buf br = 0" "k \<le> 56"
  shows "br_ok (Consume k (Refill br))"
    "TotalBitsConsumed (Consume k (Refill br)) = 8 * (next_byte br + overread_bytes br) + k"
    "br_data (Consume k (Refill br)) = br_data br"
proof -
  note R = Refill_ok [OF assms(1)]
  have k: "k \<le> bits_in_buf (Refill br)" using R(2) assms(3) by simp
  have "TotalBitsConsumed br = 8 * (next_byte br + overread_bytes br)"
    using assms(2) by (simp add: TotalBitsConsumed_def)
  then show "br_ok (Consume k (Refill br))"
    "TotalBitsConsumed (Consume k (Refill br)) = 8 * (next_byte br + overread_bytes br) + k"
    "br_data (Consume k (Refill br)) = br_data br"
    using Consume_ok [OF R(1) k] R by simp_all
qed

lemma SkipBits_cases:
  assumes "br_ok br"
  shows "br_ok (SkipBits n br) \<and> br_data (SkipBits n br) = br_data br \<and>
    (TotalBitsConsumed (SkipBits n br) = TotalBitsConsumed br + n \<or>
     8 * length (br_data br) < TotalBitsConsumed br + n \<and>
     8 * length (br_data br) < TotalBitsConsumed (SkipBits n br))"
proof (cases "n \<le> bits_in_buf br")
  case True
  then show ?thesis using Consume_ok [OF assms True] by (simp add: SkipBits_def)
next
  case False
  let ?len = "length (br_data br)"
  define m where "m = n - bits_in_buf br"
  have next_le: "next_byte br \<le> ?len"
    and ov: "overread_bytes br \<noteq> 0 \<longrightarrow> next_byte br = ?len"
    and le: "bits_in_buf br \<le> 8 * (next_byte br + overread_bytes br)"
    using assms by (auto simp: br_ok_def)
  have pos: "TotalBitsConsumed br + n = 8 * (next_byte br + overread_bytes br) + m"
    using le False unfolding m_def TotalBitsConsumed_def by linarith
  show ?thesis
  proof (cases "m div 8 > ?len - next_byte br")
    case True
    let ?b = "br\<lparr>bits_in_buf := 0, buf := 0, next_byte := ?len\<rparr>"
    have S: "SkipBits n br = Consume (m mod 8 + 8) (Refill ?b)"
      using False True by (simp add: SkipBits_def Let_def m_def)
    have "br_ok ?b" by (rule br_ok_empty_buffer) simp_all
    moreover have "m mod 8 + 8 \<le> 56" using mod_less_divisor [of 8 m] by linarith
    moreover have "8 * ?len < 8 * (next_byte br + overread_bytes br) + m"
    proof -
      have "?len < next_byte br + m div 8" using True next_le by linarith
      then have "8 * ?len < 8 * next_byte br + 8 * (m div 8)" by simp
      moreover have "8 * (m div 8) \<le> m" by simp
      ultimately show ?thesis unfolding distrib_left by linarith
    qed
    ultimately show ?thesis using skip_tail_ok [of ?b "m mod 8 + 8"] pos by (simp add: S)
  next
    case fits: False
    let ?b = "br\<lparr>bits_in_buf := 0, buf := 0, next_byte := next_byte br + m div 8\<rparr>"
    have S: "SkipBits n br = Consume (m mod 8) (Refill ?b)"
      using False fits by (simp add: SkipBits_def Let_def m_def)
    have "br_ok ?b" by (rule br_ok_empty_buffer) (use fits next_le ov in auto)
    moreover have "m mod 8 \<le> 56" using mod_less_divisor [of 8 m] by linarith
    moreover have "8 * (next_byte br + m div 8 + overread_bytes br) + m mod 8 =
        TotalBitsConsumed br + n"
      unfolding pos using div_mult_mod_eq [of m 8] by (simp add: distrib_left)
    ultimately show ?thesis using skip_tail_ok [of ?b "m mod 8"] by (simp add: S)
  qed
qed

lemma SkipBits_ok:
  assumes "br_ok br"
  shows "br_ok (SkipBits n br)" "br_data (SkipBits n br) = br_data br"
    "upcoming (SkipBits n br) i = upcoming br (n + i)"
    "TotalBitsConsumed br + n \<le> 8 * length (br_data br) \<Longrightarrow>
       TotalBitsConsumed (SkipBits n br) = TotalBitsConsumed br + n"
  using SkipBits_cases [OF assms, of n]
  by (auto simp: upcoming_def add.assoc stream_bit_def)

section \<open>The interface of a bit source\<close>

text \<open>
  What the decoders rely on: a state stands for an infinite bit stream and a number of bits
  consumed, and reading \<open>n \<le> 56\<close> bits (\<^verbatim>\<open>kMaxBitsPerCall\<close>) returns the next \<open>n\<close> bits and advances
  by \<open>n\<close>.
\<close>

definition begins :: "(nat \<Rightarrow> bool) \<Rightarrow> bool list \<Rightarrow> bool" where
  "begins f bs \<longleftrightarrow> (\<forall>i < length bs. f i = bs ! i)"

lemma begins_append:
  "begins f (bs @ cs) \<longleftrightarrow> begins f bs \<and> begins (\<lambda>i. f (length bs + i)) cs"
proof
  assume L: "begins f (bs @ cs)"
  have "f i = bs ! i" if "i < length bs" for i
    using L that by (simp add: begins_def nth_append)
  moreover have "f (length bs + i) = cs ! i" if "i < length cs" for i
    using L that by (simp add: begins_def nth_append)
  ultimately show "begins f bs \<and> begins (\<lambda>i. f (length bs + i)) cs"
    by (simp add: begins_def)
next
  assume R: "begins f bs \<and> begins (\<lambda>i. f (length bs + i)) cs"
  have "f i = (bs @ cs) ! i" if "i < length (bs @ cs)" for i
  proof (cases "i < length bs")
    case True
    then show ?thesis using R by (simp add: begins_def nth_append)
  next
    case False
    then have "i = length bs + (i - length bs)" "i - length bs < length cs" using that by auto
    then show ?thesis using R False by (metis begins_def nth_append)
  qed
  then show "begins f (bs @ cs)" by (simp add: begins_def)
qed

lemma begins_map_upt: "begins f bs \<Longrightarrow> map f [0..<length bs] = bs"
  by (rule nth_equalityI) (auto simp: begins_def)

locale bit_source =
  fixes ok :: "'s \<Rightarrow> bool"
    and ahead :: "'s \<Rightarrow> nat \<Rightarrow> bool"
    and consumed :: "'s \<Rightarrow> nat"
    and rd :: "nat \<Rightarrow> 's \<Rightarrow> u64 \<times> 's"
  assumes rd_value: "ok s \<Longrightarrow> n \<le> 56 \<Longrightarrow> fst (rd n s) = word_of_bits (map (ahead s) [0..<n])"
    and rd_ok: "ok s \<Longrightarrow> n \<le> 56 \<Longrightarrow> ok (snd (rd n s))"
    and rd_ahead: "ok s \<Longrightarrow> n \<le> 56 \<Longrightarrow> ahead (snd (rd n s)) i = ahead s (n + i)"
    and rd_consumed: "ok s \<Longrightarrow> n \<le> 56 \<Longrightarrow> consumed (snd (rd n s)) = consumed s + n"
begin

text \<open>\<open>advanced s t n\<close>: from \<open>s\<close> to \<open>t\<close>, \<open>n\<close> bits were consumed and nothing else changed.\<close>

definition advanced :: "'s \<Rightarrow> 's \<Rightarrow> nat \<Rightarrow> bool" where
  "advanced s t n \<longleftrightarrow>
     ok t \<and> (\<forall>i. ahead t i = ahead s (n + i)) \<and> consumed t = consumed s + n"

text \<open>\<open>parses p bs v\<close>: wherever the stream begins with \<open>bs\<close>, the decoder \<open>p\<close> returns \<open>v\<close> and
  consumes exactly \<open>bs\<close>.\<close>

definition parses :: "('s \<Rightarrow> 'v \<times> 's) \<Rightarrow> bool list \<Rightarrow> 'v \<Rightarrow> bool" where
  "parses p bs v \<longleftrightarrow>
     (\<forall>s. ok s \<longrightarrow> begins (ahead s) bs \<longrightarrow> (\<exists>t. p s = (v, t) \<and> advanced s t (length bs)))"

lemma advanced_0: "ok s \<Longrightarrow> advanced s s 0"
  by (simp add: advanced_def)

lemma advanced_trans:
  "advanced s t m \<Longrightarrow> advanced t u n \<Longrightarrow> advanced s u (m + n)"
  by (simp add: advanced_def add.assoc)

lemma advanced_rd: "ok s \<Longrightarrow> n \<le> 56 \<Longrightarrow> advanced s (snd (rd n s)) n"
  by (simp add: advanced_def rd_ok rd_ahead rd_consumed)

lemma advanced_begins:
  "advanced s t (length bs) \<Longrightarrow> begins (ahead s) (bs @ cs) \<Longrightarrow> begins (ahead t) cs"
  by (auto simp: advanced_def begins_append begins_def)

lemma parsesD:
  assumes "parses p bs v" "ok s" "begins (ahead s) bs"
  obtains t where "p s = (v, t)" "advanced s t (length bs)"
  using assms by (auto simp: parses_def)

lemma parses_return: "parses (\<lambda>s. (v, s)) [] v"
  by (simp add: parses_def advanced_0)

lemma parses_bind:
  assumes "parses p bs v" and "parses (q v) cs w"
  shows "parses (\<lambda>s. case p s of (x, t) \<Rightarrow> q x t) (bs @ cs) w"
  unfolding parses_def
proof (intro allI impI)
  fix s assume s: "ok s" "begins (ahead s) (bs @ cs)"
  then have "begins (ahead s) bs" by (simp add: begins_append)
  with assms(1) s(1) obtain t where t: "p s = (v, t)" "advanced s t (length bs)"
    by (rule parsesD)
  have "ok t" "begins (ahead t) cs"
    using t(2) s(2) advanced_begins by (auto simp: advanced_def)
  with assms(2) obtain u where "q v t = (w, u)" "advanced t u (length cs)"
    by (rule parsesD)
  with t show "\<exists>u. (case p s of (x, t) \<Rightarrow> q x t) = (w, u) \<and> advanced s u (length (bs @ cs))"
    by (auto intro: advanced_trans)
qed

lemma parses_bind_return:
  assumes "parses p bs v"
  shows "parses (\<lambda>s. case p s of (x, t) \<Rightarrow> (f x, t)) bs (f v)"
  using parses_bind [where q = "\<lambda>x t. (f x, t)" and cs = "[]", OF assms parses_return]
  by simp

lemma parses_rd:
  assumes "n \<le> 56" and v: "drop_bit n v = 0"
  shows "parses (rd n) (bits_of n v) v"
  unfolding parses_def
proof (intro allI impI)
  fix s assume s: "ok s" "begins (ahead s) (bits_of n v)"
  have "map (ahead s) [0..<n] = bits_of n v" using begins_map_upt [OF s(2)] by simp
  then have "fst (rd n s) = v"
    using rd_value [OF s(1) assms(1)] v by (simp add: word_of_bits_bits_of_id)
  then show "\<exists>t. rd n s = (v, t) \<and> advanced s t (length (bits_of n v))"
    using advanced_rd [OF s(1) assms(1)] by (metis length_bits_of prod.collapse)
qed

lemma parses_rd_then:
  assumes "n \<le> 56" "drop_bit n v = 0" "parses (q v) cs w"
  shows "parses (\<lambda>s. case rd n s of (x, t) \<Rightarrow> q x t) (bits_of n v @ cs) w"
  by (rule parses_bind [where q = q, OF parses_rd [OF assms(1,2)] assms(3)])

end

text \<open>The buffered reader is a bit source.\<close>

interpretation reader: bit_source br_ok upcoming TotalBitsConsumed ReadBits
  by unfold_locales (simp_all add: ReadBits_ok)

section \<open>Properties of the reader\<close>

text \<open>A run of reads, and what the stream says it must return.\<close>

fun read_fields :: "nat list \<Rightarrow> BitReader \<Rightarrow> u64 list \<times> BitReader" where
  "read_fields [] br = ([], br)"
| "read_fields (n # ns) br =
     (let (v, br) = ReadBits n br; (vs, br) = read_fields ns br in (v # vs, br))"

fun stream_fields :: "(nat \<Rightarrow> bool) \<Rightarrow> nat \<Rightarrow> nat list \<Rightarrow> u64 list" where
  "stream_fields f p [] = []"
| "stream_fields f p (n # ns) =
     word_of_bits (map f [p..<p + n]) # stream_fields f (p + n) ns"

lemma stream_fields_shift:
  "stream_fields (\<lambda>i. f (k + i)) p ns = stream_fields f (k + p) ns"
proof (induction ns arbitrary: p)
  case (Cons n ns)
  have "map (\<lambda>i. f (k + i)) [p..<p + n] = map f [k + p..<k + p + n]"
    by (rule nth_equalityI) (simp_all add: add.assoc)
  with Cons show ?case by (simp add: add.assoc)
qed simp

lemma read_fields_ok:
  "br_ok br \<Longrightarrow> \<forall>n \<in> set ns. n \<le> 56 \<Longrightarrow>
     fst (read_fields ns br) = stream_fields (upcoming br) 0 ns \<and>
     br_ok (snd (read_fields ns br)) \<and>
     br_data (snd (read_fields ns br)) = br_data br \<and>
     TotalBitsConsumed (snd (read_fields ns br)) = TotalBitsConsumed br + sum_list ns"
proof (induction ns arbitrary: br)
  case (Cons n ns)
  let ?t = "snd (ReadBits n br)"
  have n: "n \<le> 56" using Cons.prems by simp
  note R = ReadBits_ok [OF Cons.prems(1) n]
  have "upcoming ?t = (\<lambda>i. upcoming br (n + i))" using R(4) by (intro ext)
  then have "stream_fields (upcoming ?t) 0 ns = stream_fields (upcoming br) n ns"
    using stream_fields_shift [of "upcoming br" n 0 ns] by simp
  moreover note Cons.IH [OF R(2)]
  ultimately show ?case
    using R(1,3,5) Cons.prems(2) by (auto simp: split_beta Let_def)
qed simp

declare read_fields.simps [simp del] stream_fields.simps [simp del]

lemma AllReadsWithinBounds_iff:
  "fst (AllReadsWithinBounds br) \<longleftrightarrow> TotalBitsConsumed br \<le> 8 * length (br_data br)"
  by (auto simp: AllReadsWithinBounds_def Let_def TotalBitsConsumed_def BitReader_TotalBytes_def)

text \<open>C4: A reader opened on any byte string returns, for any run of field widths up to 56 bits
  (\<open>kMaxBitsPerCall\<close>), exactly the consecutive little-endian bit fields of the input followed by
  zeros, whichever refill path is taken; it then reports the sum of the widths as consumed, and
  \<open>AllReadsWithinBounds\<close> holds exactly when that sum does not exceed the input.\<close>

theorem BitReader_refines_stream:
  assumes "\<forall>n \<in> set ns. n \<le> 56"
  shows "fst (read_fields ns (BitReader_new d)) = stream_fields (stream_bit d) 0 ns \<and>
    TotalBitsConsumed (snd (read_fields ns (BitReader_new d))) = sum_list ns \<and>
    (fst (AllReadsWithinBounds (snd (read_fields ns (BitReader_new d)))) \<longleftrightarrow>
       sum_list ns \<le> 8 * length d)"
  using read_fields_ok [OF BitReader_new_ok(1) assms, of d]
  by (auto simp: BitReader_new_ok AllReadsWithinBounds_iff)

theorem BitReader_refines_stream_witness:
  "fst (read_fields [3, 0, 7, 20] (BitReader_new [0xA5, 0x3C, 0xFF])) = [5, 0, 0x14, 0x3FCF] \<and>
   fst (AllReadsWithinBounds (snd (read_fields [3, 0, 7, 20] (BitReader_new [0xA5, 0x3C, 0xFF]))))
     = False"
proof -
  have "stream_fields (stream_bit [0xA5, 0x3C, 0xFF]) 0 [3, 0, 7, 20] = [5, 0, 0x14, 0x3FCF]"
    by (simp add: stream_fields.simps stream_bit_def word_of_bits_def upt_rec)
  then show ?thesis
    using BitReader_refines_stream [of "[3, 0, 7, 20]" "[0xA5, 0x3C, 0xFF]"] by simp
qed

text \<open>\<open>SkipBits\<close> advances the stream by the requested number of bits, whether they are in the
  buffer, in the rest of the input or past its end: what is read afterwards is what the stream
  holds at that distance, and the bounds check then succeeds exactly if the skip stayed within the
  input.\<close>

theorem SkipBits_then_read:
  assumes "br_ok br" and "\<forall>n \<in> set ns. n \<le> 56"
  shows "fst (read_fields ns (SkipBits k br)) = stream_fields (upcoming br) k ns \<and>
    (fst (AllReadsWithinBounds (SkipBits k br)) \<longleftrightarrow>
       TotalBitsConsumed br + k \<le> 8 * length (br_data br))"
proof -
  have up: "upcoming (SkipBits k br) = (\<lambda>i. upcoming br (k + i))"
    using SkipBits_ok(3) [OF assms(1)] by (intro ext)
  have "fst (read_fields ns (SkipBits k br)) = stream_fields (upcoming (SkipBits k br)) 0 ns"
    using read_fields_ok [OF SkipBits_ok(1) [OF assms(1)] assms(2)] by blast
  also have "\<dots> = stream_fields (upcoming br) k ns"
    using stream_fields_shift [of "upcoming br" k 0 ns] by (simp add: up)
  finally have "fst (read_fields ns (SkipBits k br)) = stream_fields (upcoming br) k ns" .
  then show ?thesis using SkipBits_cases [OF assms(1), of k] by (auto simp: AllReadsWithinBounds_iff)
qed

theorem SkipBits_then_read_witness:
  "fst (read_fields [5] (SkipBits 66 (BitReader_new [1, 2, 3, 4, 5, 6, 7, 8, 0xFF, 9]))) = [31] \<and>
   \<not> fst (AllReadsWithinBounds (SkipBits 81 (BitReader_new [1, 2, 3, 4, 5, 6, 7, 8, 0xFF, 9])))"
proof -
  have "stream_fields (stream_bit [1, 2, 3, 4, 5, 6, 7, 8, 0xFF, 9]) 66 [5] = [31]"
    by (simp add: stream_fields.simps stream_bit_def word_of_bits_def upt_rec)
  then show ?thesis
    using SkipBits_then_read [OF BitReader_new_ok(1), of "[5]"] by (simp add: BitReader_new_ok)
qed

text \<open>\<open>JumpToByteBoundary\<close> lands on the next multiple of eight bits and accepts exactly when
  every padding bit it passed over is zero.\<close>

theorem JumpToByteBoundary_correct:
  assumes "br_ok br"
  shows "TotalBitsConsumed (snd (JumpToByteBoundary br)) =
      RoundUpBitsToByteMultiple (TotalBitsConsumed br) \<and>
    br_ok (snd (JumpToByteBoundary br)) \<and>
    fst (JumpToByteBoundary br) =
      (if \<exists>i < RoundUpBitsToByteMultiple (TotalBitsConsumed br) - TotalBitsConsumed br. upcoming br i
       then kGenericError else kOk)"
proof (cases "TotalBitsConsumed br mod 8 = 0")
  case True
  then have "RoundUpBitsToByteMultiple (TotalBitsConsumed br) = TotalBitsConsumed br"
    by (rule RoundUpBitsToByteMultiple_aligned)
  with True assms show ?thesis by (simp add: JumpToByteBoundary_def Let_def)
next
  case False
  let ?n = "8 - TotalBitsConsumed br mod 8"
  have n: "?n \<le> 56" "?n \<le> 8" by simp_all
  note R = ReadBits_ok [OF assms n(1)]
  have up: "RoundUpBitsToByteMultiple (TotalBitsConsumed br) = TotalBitsConsumed br + ?n"
    by (rule RoundUpBitsToByteMultiple_unaligned [OF False])
  have "fst (ReadBits ?n br) = 0 \<longleftrightarrow> (\<forall>i < ?n. \<not> upcoming br i)"
    unfolding R(1) word_of_bits_eq_0_iff using n(2) by auto
  with False R(2,3) show ?thesis
    by (auto simp: JumpToByteBoundary_def Let_def split_beta up)
qed

theorem JumpToByteBoundary_correct_witness:
  "fst (JumpToByteBoundary (SkipBits 3 (BitReader_new [0x07, 0xFF]))) = kOk \<and>
   fst (JumpToByteBoundary (SkipBits 3 (BitReader_new [0x47, 0xFF]))) = kGenericError"
proof -
  have "list_all (\<lambda>i. \<not> stream_bit [0x07, 0xFF] (3 + i)) [0..<5]"
    "\<not> list_all (\<lambda>i. \<not> stream_bit [0x47, 0xFF] (3 + i)) [0..<5]" by code_simp+
  moreover have "TotalBitsConsumed (SkipBits 3 (BitReader_new d)) = 3" if "length d = 2" for d
    using SkipBits_ok(4) [OF BitReader_new_ok(1), of d 3] that by (simp add: BitReader_new_ok)
  ultimately show ?thesis
    using JumpToByteBoundary_correct [OF SkipBits_ok(1) [OF BitReader_new_ok(1)], of 3 "[0x07, 0xFF]"]
      JumpToByteBoundary_correct [OF SkipBits_ok(1) [OF BitReader_new_ok(1)], of 3 "[0x47, 0xFF]"]
    by (auto simp: SkipBits_ok BitReader_new_ok RoundUpBitsToByteMultiple_def list_all_iff)
qed

end
