(* ===== verification/Bit_Writer.thy ===== *)
theory Bit_Writer
  imports Bit_Reader
begin

text \<open>
  The bit writer of \<^verbatim>\<open>lib/jxl/enc_bit_writer.h\<close> and \<^verbatim>\<open>enc_bit_writer.cc\<close> on top of the growable
  buffer \<^verbatim>\<open>lib/jxl/padded_bytes.h\<close>.  The buffer does not initialise new memory: the model's memory
  manager returns blocks of arbitrary content, and the theorems hold for every such content.
  Memory grows in nested allotments that give back what was not used and charge the written bits
  to layers.
\<close>

section \<open>PaddedBytes\<close>

text \<open>
  \<open>memory_manager k n\<close> is the block the client's allocator hands out for the \<open>k\<close>-th request, of
  \<open>n\<close> bytes: \<open>None\<close> if it fails, otherwise a block with whatever bytes it held before.
  \<open>pb_data\<close> is \<open>None\<close> for the null pointer of a buffer that never allocated.  The block holds
  \<^verbatim>\<open>capacity_ + 8\<close> bytes.
\<close>

record PaddedBytes =
  memory_manager :: "nat \<Rightarrow> nat \<Rightarrow> u8 list option"
  pb_requests :: nat
  pb_size :: nat
  pb_capacity :: nat
  pb_data :: "u8 list option"

definition PaddedBytes_new :: "(nat \<Rightarrow> nat \<Rightarrow> u8 list option) \<Rightarrow> PaddedBytes" where
  "PaddedBytes_new mm =
     \<lparr>memory_manager = mm, pb_requests = 0, pb_size = 0, pb_capacity = 0, pb_data = None\<rparr>"

definition change_capacity :: "nat \<Rightarrow> PaddedBytes \<Rightarrow> StatusCode \<times> PaddedBytes" where
  "change_capacity new_capacity0 pb =
     (let new_capacity = max 64 new_capacity0;
          pb' = pb\<lparr>pb_requests := pb_requests pb + 1\<rparr>
      in case memory_manager pb (pb_requests pb) (new_capacity + 8) of
           None \<Rightarrow> (kGenericError, pb')
         | Some new_data \<Rightarrow>
             let new_data =
               (case pb_data pb of
                  None \<Rightarrow> new_data[0 := 0]
                | Some data \<Rightarrow>
                    (take (pb_size pb) data @ drop (pb_size pb) new_data)[pb_size pb := 0])
             in (kOk, pb'\<lparr>pb_capacity := new_capacity, pb_data := Some new_data\<rparr>))"

definition reserve :: "nat \<Rightarrow> PaddedBytes \<Rightarrow> StatusCode \<times> PaddedBytes" where
  "reserve capacity pb =
     (if capacity \<le> pb_capacity pb then (kOk, pb)
      else change_capacity (max capacity (3 * pb_capacity pb div 2)) pb)"

definition shrink_to_fit :: "PaddedBytes \<Rightarrow> StatusCode \<times> PaddedBytes" where
  "shrink_to_fit pb = change_capacity (pb_size pb) pb"

definition resize :: "nat \<Rightarrow> PaddedBytes \<Rightarrow> StatusCode \<times> PaddedBytes" where
  "resize size' pb =
     (case reserve size' pb of
        (s, pb) \<Rightarrow> if s \<noteq> kOk then (s, pb) else (kOk, pb\<lparr>pb_size := size'\<rparr>))"

text \<open>The bytes behind the data pointer, and a \<^verbatim>\<open>memcpy\<close> into them.  A copy that would leave the
  block is undefined behaviour in C++; here it has no effect, and the theorems about \<open>Write\<close> and
  the append operations show that the copies they make lie inside the block.\<close>

definition pb_bytes :: "PaddedBytes \<Rightarrow> u8 list" where
  "pb_bytes pb = (case pb_data pb of None \<Rightarrow> [] | Some d \<Rightarrow> d)"

definition copy_in :: "nat \<Rightarrow> u8 list \<Rightarrow> PaddedBytes \<Rightarrow> PaddedBytes" where
  "copy_in p bs pb =
     (let d = pb_bytes pb in
      if p + length bs \<le> length d
      then pb\<lparr>pb_data := Some (take p d @ bs @ drop (p + length bs) d)\<rparr> else pb)"

section \<open>BitWriter\<close>

text \<open>
  An allotment, and the writer with the chain \<^verbatim>\<open>current_allotment_ \<rightarrow> parent_ \<rightarrow> \<dots>\<close> as a list,
  innermost first.  Allotments live on the C++ stack and are only created by \<open>WithMaxBits\<close>, so the
  head of the list is the allotment that operations call \<^verbatim>\<open>this\<close>.
\<close>

record Allotment =
  prev_bits_written :: nat
  max_bits :: nat
  histogram_bits :: nat

record BitWriter =
  bits_written :: nat
  storage :: PaddedBytes
  allotments :: "Allotment list"

definition BitWriter_new :: "(nat \<Rightarrow> nat \<Rightarrow> u8 list option) \<Rightarrow> BitWriter" where
  "BitWriter_new mm = \<lparr>bits_written = 0, storage = PaddedBytes_new mm, allotments = []\<rparr>"

text \<open>The little-endian branch of \<^verbatim>\<open>Write\<close>: the bits are shifted behind the valid bits of the
  first byte and eight bytes are stored.\<close>

definition StoreLE64 :: "u64 \<Rightarrow> u8 list" where
  "StoreLE64 v = map (\<lambda>k. ucast (drop_bit (8 * k) v)) [0..<8]"

definition Write :: "nat \<Rightarrow> u64 \<Rightarrow> BitWriter \<Rightarrow> BitWriter" where
  "Write n_bits bits w =
     (let bytes_written = bits_written w div kBitsPerByte;
          bits_in_first_byte = bits_written w mod kBitsPerByte;
          bits = push_bit bits_in_first_byte bits;
          v = ucast (pb_bytes (storage w) ! bytes_written) OR bits
      in w\<lparr>storage := copy_in bytes_written (StoreLE64 v) (storage w),
           bits_written := bits_written w + n_bits\<rparr>)"

definition ZeroPadToByte :: "BitWriter \<Rightarrow> BitWriter" where
  "ZeroPadToByte w =
     (let remainder_bits = RoundUpBitsToByteMultiple (bits_written w) - bits_written w
      in if remainder_bits = 0 then w else Write remainder_bits 0 w)"

definition GetSpan :: "BitWriter \<Rightarrow> u8 list" where
  "GetSpan w = take (DivCeil (bits_written w) kBitsPerByte) (pb_bytes (storage w))"

definition TakeBytes :: "BitWriter \<Rightarrow> u8 list" where
  "TakeBytes w =
     (let pb = snd (resize (DivCeil (bits_written w) kBitsPerByte) (storage w))
      in take (pb_size pb) (pb_bytes pb))"

subsection \<open>Allotments\<close>

definition Allotment_Init :: "nat \<Rightarrow> BitWriter \<Rightarrow> StatusCode \<times> BitWriter" where
  "Allotment_Init maxbits w =
     (let prev_bytes = pb_size (storage w);
          next_bytes = DivCeil maxbits kBitsPerByte
      in case resize (prev_bytes + next_bytes) (storage w) of
           (s, pb) \<Rightarrow>
             if s \<noteq> kOk then (kGenericError, w\<lparr>storage := pb\<rparr>)
             else (kOk, w\<lparr>storage := pb,
                    allotments := \<lparr>prev_bits_written = bits_written w, max_bits = maxbits,
                      histogram_bits = 0\<rparr> # allotments w\<rparr>))"

definition FinishedHistogram :: "BitWriter \<Rightarrow> StatusCode \<times> BitWriter" where
  "FinishedHistogram w =
     (case allotments w of
        [] \<Rightarrow> (kGenericError, w)
      | a # as \<Rightarrow>
          if histogram_bits a \<noteq> 0 then (kGenericError, w)
          else if \<not> (prev_bits_written a \<le> bits_written w) then (kGenericError, w)
          else (kOk, w\<lparr>allotments :=
                 a\<lparr>histogram_bits := bits_written w - prev_bits_written a\<rparr> # as\<rparr>))"

text \<open>\<^verbatim>\<open>PrivateReclaim\<close> returns \<^verbatim>\<open>used_bits\<close> too, and every enclosing allotment has its start moved
  forward so that the same bits are not charged to it.\<close>

definition PrivateReclaim :: "BitWriter \<Rightarrow> (StatusCode \<times> nat) \<times> BitWriter" where
  "PrivateReclaim w =
     (case allotments w of
        [] \<Rightarrow> ((kGenericError, 0), w)
      | a # parents \<Rightarrow>
          let used_bits = bits_written w - prev_bits_written a;
              unused_bits = max_bits a - used_bits;
              unused_bytes = unused_bits div kBitsPerByte
          in if \<not> (unused_bytes \<le> pb_size (storage w)) then ((kGenericError, used_bits), w)
             else case resize (pb_size (storage w) - unused_bytes) (storage w) of
               (s, pb) \<Rightarrow>
                 if s \<noteq> kOk then ((s, used_bits), w\<lparr>storage := pb\<rparr>)
                 else ((kOk, used_bits), w\<lparr>storage := pb,
                   allotments := map (\<lambda>p. p\<lparr>prev_bits_written := prev_bits_written p + used_bits\<rparr>)
                     parents\<rparr>))"

text \<open>\<^verbatim>\<open>AuxOut\<close> is represented by the two counters that are charged here, per layer.\<close>

record LayerTotals =
  layer_total_bits :: nat
  layer_histogram_bits :: nat

type_synonym 'l AuxOut = "'l \<Rightarrow> LayerTotals"

definition ReclaimAndCharge ::
    "'l \<Rightarrow> bool \<Rightarrow> BitWriter \<times> 'l AuxOut \<Rightarrow> StatusCode \<times> BitWriter \<times> 'l AuxOut" where
  "ReclaimAndCharge layer has_aux_out = (\<lambda>(w, aux).
     let hist = (case allotments w of [] \<Rightarrow> 0 | a # _ \<Rightarrow> histogram_bits a)
     in case PrivateReclaim w of
       ((s, used_bits), w) \<Rightarrow>
         if s \<noteq> kOk then (s, w, aux)
         else (kOk, w,
           if has_aux_out
           then aux(layer := \<lparr>layer_total_bits = layer_total_bits (aux layer) + used_bits,
                              layer_histogram_bits = layer_histogram_bits (aux layer) + hist\<rparr>)
           else aux))"

definition WithMaxBits :: "nat \<Rightarrow> 'l \<Rightarrow> bool \<Rightarrow>
    (BitWriter \<times> 'l AuxOut \<Rightarrow> StatusCode \<times> BitWriter \<times> 'l AuxOut) \<Rightarrow> bool \<Rightarrow>
    BitWriter \<times> 'l AuxOut \<Rightarrow> StatusCode \<times> BitWriter \<times> 'l AuxOut" where
  "WithMaxBits maxbits layer has_aux_out func finished_histogram = (\<lambda>(w, aux).
     case Allotment_Init maxbits w of
       (s, w) \<Rightarrow>
         if s \<noteq> kOk then (s, w, aux)
         else case func (w, aux) of
           (result, w, aux) \<Rightarrow>
             case (if result = kOk \<and> finished_histogram then FinishedHistogram w else (kOk, w)) of
               (s, w) \<Rightarrow>
                 if s \<noteq> kOk then (s, w, aux)
                 else case ReclaimAndCharge layer has_aux_out (w, aux) of
                   (s, w, aux) \<Rightarrow> if s \<noteq> kOk then (s, w, aux) else (result, w, aux))"

subsection \<open>Appending\<close>

definition AppendByteAligned :: "u8 list \<Rightarrow> BitWriter \<Rightarrow> StatusCode \<times> BitWriter" where
  "AppendByteAligned span w0 =
     (if span = [] then (kOk, w0)
      else case resize (pb_size (storage w0) + length span + 1) (storage w0) of
        (s, pb) \<Rightarrow>
          let w = w0\<lparr>storage := pb\<rparr> in
          if s \<noteq> kOk then (s, w)
          else if bits_written w mod kBitsPerByte \<noteq> 0 then (kGenericError, w)
          else
            let pos = bits_written w div kBitsPerByte;
                w = w\<lparr>storage := copy_in pos span (storage w)\<rparr>;
                pos = pos + length span
            in if \<not> (pos < pb_size (storage w)) then (kGenericError, w)
               else (kOk, w\<lparr>storage := copy_in pos [0] (storage w),
                            bits_written := bits_written w + length span * kBitsPerByte\<rparr>))"

definition AppendByteAligned_writers :: "BitWriter list \<Rightarrow> BitWriter \<Rightarrow> StatusCode \<times> BitWriter" where
  "AppendByteAligned_writers others w0 =
     (if \<not> list_all (\<lambda>x. bits_written x mod kBitsPerByte = 0) others then (kGenericError, w0)
      else
        let other_bytes = sum_list (map (\<lambda>x. DivCeil (bits_written x) kBitsPerByte) others)
        in if other_bytes = 0 then (kOk, w0)
           else case resize (pb_size (storage w0) + other_bytes + 1) (storage w0) of
             (s, pb) \<Rightarrow>
               let w = w0\<lparr>storage := pb\<rparr> in
               if s \<noteq> kOk then (s, w)
               else if bits_written w mod kBitsPerByte \<noteq> 0 then (kGenericError, w)
               else
                 case fold (\<lambda>x (pos, pb). (pos + length (GetSpan x), copy_in pos (GetSpan x) pb))
                        others (DivCeil (bits_written w) kBitsPerByte, storage w) of
                   (pos, pb) \<Rightarrow>
                     if \<not> (pos < pb_size pb) then (kGenericError, w\<lparr>storage := pb\<rparr>)
                     else (kOk, w\<lparr>storage := copy_in pos [0] pb,
                                  bits_written := bits_written w + other_bytes * kBitsPerByte\<rparr>))"

definition AppendUnaligned :: "'l \<Rightarrow> BitWriter \<Rightarrow> BitWriter \<times> 'l AuxOut \<Rightarrow>
    StatusCode \<times> BitWriter \<times> 'l AuxOut" where
  "AppendUnaligned header_layer other =
     WithMaxBits (bits_written other) header_layer False (\<lambda>(w, aux).
       let full_bytes = bits_written other div kBitsPerByte;
           remaining_bits = bits_written other mod kBitsPerByte;
           w = fold (\<lambda>i. Write 8 (ucast (pb_bytes (storage other) ! i))) [0..<full_bytes] w;
           w = (if remaining_bits > 0
                then Write remaining_bits
                  (ucast (pb_bytes (storage other) ! full_bytes) AND (push_bit remaining_bits 1 - 1)) w
                else w)
       in (kOk, w, aux)) False"

section \<open>Invariant and content\<close>

text \<open>\<open>byte_bit d i\<close> is bit \<open>i\<close> of a byte string, least significant bit of each byte first.\<close>

definition byte_bit :: "u8 list \<Rightarrow> nat \<Rightarrow> bool" where
  "byte_bit d i = bit (d ! (i div 8)) (i mod 8)"

definition content :: "BitWriter \<Rightarrow> bool list" where
  "content w = map (byte_bit (pb_bytes (storage w))) [0..<bits_written w]"

text \<open>The block has the eight bytes of padding, and the byte that the next \<open>Write\<close> ORs into has no
  bits set above the write position (the comment in \<open>Write\<close>: the next byte must be
  zero-initialised).\<close>

definition pb_ok :: "PaddedBytes \<Rightarrow> bool" where
  "pb_ok pb \<longleftrightarrow>
     (\<forall>k n m. memory_manager pb k n = Some m \<longrightarrow> length m = n) \<and>
     pb_size pb \<le> pb_capacity pb \<and>
     (case pb_data pb of None \<Rightarrow> pb_capacity pb = 0 | Some d \<Rightarrow> length d = pb_capacity pb + 8)"

definition bw_ok :: "BitWriter \<Rightarrow> bool" where
  "bw_ok w \<longleftrightarrow>
     pb_ok (storage w) \<and> bits_written w \<le> 8 * pb_size (storage w) \<and>
     (pb_data (storage w) \<noteq> None \<longrightarrow>
       (\<forall>i. bits_written w \<le> i \<longrightarrow> i div 8 = bits_written w div 8 \<longrightarrow>
          \<not> byte_bit (pb_bytes (storage w)) i))"

text \<open>The bits that can still be written before the storage must grow.\<close>

definition room :: "BitWriter \<Rightarrow> nat" where
  "room w = 8 * pb_size (storage w) - bits_written w"

section \<open>Memory operations keep the content\<close>

lemma BitWriter_new_ok:
  "(\<forall>k n m. mm k n = Some m \<longrightarrow> length m = n) \<Longrightarrow> bw_ok (BitWriter_new mm)"
  "content (BitWriter_new mm) = []"
  by (simp_all add: BitWriter_new_def PaddedBytes_new_def bw_ok_def pb_ok_def content_def)

text \<open>What growing or shrinking the buffer keeps: the bytes below the smaller size, and a zero byte
  right after them if the block moved.\<close>

definition kept :: "PaddedBytes \<Rightarrow> PaddedBytes \<Rightarrow> bool" where
  "kept pb pb' \<longleftrightarrow>
     memory_manager pb' = memory_manager pb \<and> (pb_data pb \<noteq> None \<longrightarrow> pb_data pb' \<noteq> None) \<and>
     (pb_bytes pb' = pb_bytes pb \<and> pb_data pb' = pb_data pb \<or>
      (\<forall>i < pb_size pb. pb_bytes pb' ! i = pb_bytes pb ! i) \<and> pb_bytes pb' ! pb_size pb = 0)"

lemma change_capacity_ok:
  assumes "pb_ok pb" and "pb_size pb \<le> c" and "change_capacity c pb = (s, pb')"
  shows "kept pb pb' \<and> pb_size pb' = pb_size pb \<and> pb_ok pb' \<and>
    (s = kOk \<longrightarrow> c \<le> pb_capacity pb')"
proof (cases "memory_manager pb (pb_requests pb) (max 64 c + 8)")
  case None
  with assms(3) have "s = kGenericError" "pb' = pb\<lparr>pb_requests := pb_requests pb + 1\<rparr>"
    by (auto simp: change_capacity_def Let_def)
  then show ?thesis using assms(1) by (auto simp: kept_def pb_bytes_def pb_ok_def split: option.splits)
next
  case (Some m)
  have m: "length m = max 64 c + 8" using assms(1) Some by (auto simp: pb_ok_def)
  define d where "d = (case pb_data pb of None \<Rightarrow> m[0 := 0]
    | Some data \<Rightarrow> (take (pb_size pb) data @ drop (pb_size pb) m)[pb_size pb := 0])"
  have e: "s = kOk" "pb' = pb\<lparr>pb_requests := pb_requests pb + 1, pb_capacity := max 64 c,
      pb_data := Some d\<rparr>"
    using assms(3) Some by (auto simp: change_capacity_def Let_def d_def split: option.splits)
  have "length d = max 64 c + 8 \<and> d ! pb_size pb = 0 \<and>
    (\<forall>i < pb_size pb. d ! i = pb_bytes pb ! i)"
  proof (cases "pb_data pb")
    case None
    then have "pb_size pb = 0" using assms(1) by (simp add: pb_ok_def)
    with None m show ?thesis by (auto simp: d_def)
  next
    case (Some data)
    then have "length data = pb_capacity pb + 8" "pb_size pb \<le> pb_capacity pb"
      using assms(1) by (simp_all add: pb_ok_def)
    with Some m assms(2) show ?thesis
      by (auto simp: d_def pb_bytes_def nth_append nth_list_update)
  qed
  then show ?thesis using assms(1,2) e by (auto simp: kept_def pb_bytes_def pb_ok_def)
qed

lemma resize_ok:
  assumes "pb_ok pb" and "resize n pb = (s, pb')"
  shows "kept pb pb' \<and> pb_ok pb' \<and> pb_size pb' = (if s = kOk then n else pb_size pb) \<and>
    (n \<le> pb_capacity pb \<longrightarrow> s = kOk)"
proof (cases "n \<le> pb_capacity pb")
  case True
  with assms have "s = kOk" "pb' = pb\<lparr>pb_size := n\<rparr>" by (auto simp: resize_def reserve_def)
  with True assms(1) show ?thesis
    by (auto simp: kept_def pb_bytes_def pb_ok_def split: option.splits)
next
  case False
  let ?c = "max n (3 * pb_capacity pb div 2)"
  obtain t q where t: "change_capacity ?c pb = (t, q)" by fastforce
  have "pb_size pb \<le> ?c" using assms(1) False by (auto simp: pb_ok_def)
  note C = change_capacity_ok [OF assms(1) this t]
  have "s = t" "pb' = (if t = kOk then q\<lparr>pb_size := n\<rparr> else q)"
    using assms(2) False t by (auto simp: resize_def reserve_def split: if_splits)
  with C False show ?thesis
    by (auto simp: kept_def pb_bytes_def pb_ok_def split: option.splits if_splits)
qed


text \<open>Resizing keeps the writer's content and invariant as long as the written bits still fit.\<close>

lemma byte_bit_cong: "d ! (i div 8) = e ! (i div 8) \<Longrightarrow> byte_bit d i = byte_bit e i"
  by (simp add: byte_bit_def)

lemma storage_resize_ok:
  assumes w: "bw_ok w" and r: "resize n (storage w) = (s, pb)"
    and fits: "s = kOk \<longrightarrow> bits_written w \<le> 8 * n"
    and w': "w' = w\<lparr>storage := pb, allotments := as\<rparr>"
  shows "bw_ok w' \<and> content w' = content w \<and> memory_manager pb = memory_manager (storage w) \<and>
    pb_size pb = (if s = kOk then n else pb_size (storage w)) \<and>
    (n \<le> pb_capacity (storage w) \<longrightarrow> s = kOk) \<and>
    (pb_data (storage w) \<noteq> None \<longrightarrow> pb_data pb \<noteq> None)"
proof -
  let ?pb = "storage w" and ?bw = "bits_written w"
  have ok: "pb_ok ?pb" and le: "?bw \<le> 8 * pb_size ?pb"
    and zero: "\<And>i. pb_data ?pb \<noteq> None \<Longrightarrow> ?bw \<le> i \<Longrightarrow> i div 8 = ?bw div 8 \<Longrightarrow>
      \<not> byte_bit (pb_bytes ?pb) i"
    using w by (auto simp: bw_ok_def)
  note R = resize_ok [OF ok r]
  have null: "pb_size ?pb = 0" if "pb_data ?pb = None"
    using ok that by (simp add: pb_ok_def)
  have same: "byte_bit (pb_bytes pb) i = byte_bit (pb_bytes ?pb) i" if "i < ?bw" for i
  proof -
    have "i div 8 < pb_size ?pb" using that le by auto
    then show ?thesis using R by (intro byte_bit_cong) (auto simp: kept_def)
  qed
  have "\<not> byte_bit (pb_bytes pb) i"
    if d: "pb_data pb \<noteq> None" and i: "?bw \<le> i" "i div 8 = ?bw div 8" for i
  proof -
    consider (same) "pb_bytes pb = pb_bytes ?pb" "pb_data pb = pb_data ?pb"
      | (moved) "\<forall>i < pb_size ?pb. pb_bytes pb ! i = pb_bytes ?pb ! i" "pb_bytes pb ! pb_size ?pb = 0"
      using R by (auto simp: kept_def)
    then show ?thesis
    proof cases
      case same
      then show ?thesis using zero [OF _ i] d by simp
    next
      case moved
      show ?thesis
      proof (cases "i div 8 < pb_size ?pb")
        case True
        then have "pb_data ?pb \<noteq> None" using null by auto
        with zero [OF _ i] moved True byte_bit_cong show ?thesis by metis
      next
        case False
        have "?bw div 8 \<le> pb_size ?pb" using le by simp
        with False i have "i div 8 = pb_size ?pb" by simp
        with moved(2) show ?thesis by (simp add: byte_bit_def)
      qed
    qed
  qed
  moreover have "memory_manager pb = memory_manager ?pb"
    "pb_data ?pb \<noteq> None \<longrightarrow> pb_data pb \<noteq> None" using R by (simp_all add: kept_def)
  ultimately show ?thesis
    using R fits le same by (auto simp: bw_ok_def content_def w')
qed

section \<open>Write\<close>

lemma bit_StoreLE64:
  assumes "i < 64"
  shows "byte_bit (StoreLE64 v) i = bit v i"
proof -
  have "i div 8 < 8" using assms by simp
  then have "[0..<8] ! (i div 8) = i div 8" by simp
  then show ?thesis
    using \<open>i div 8 < 8\<close> by (simp add: byte_bit_def StoreLE64_def bit_ucast_iff bit_drop_bit_eq)
qed

lemma length_StoreLE64 [simp]: "length (StoreLE64 v) = 8"
  by (simp add: StoreLE64_def)

lemma byte_bit_splice:
  assumes "p + length bs \<le> length d"
  shows "byte_bit (take p d @ bs @ drop (p + length bs) d) i =
    (if 8 * p \<le> i \<and> i < 8 * (p + length bs) then byte_bit bs (i - 8 * p) else byte_bit d i)"
proof -
  have "(i - 8 * p) div 8 = i div 8 - p" "(i - 8 * p) mod 8 = i mod 8" if "8 * p \<le> i"
    using that by (auto simp: le_iff_add)
  moreover have "8 * p \<le> i \<longleftrightarrow> p \<le> i div 8" "i < 8 * (p + length bs) \<longleftrightarrow> i div 8 < p + length bs"
    by (simp_all add: less_eq_div_iff_mult_less_eq div_less_iff_less_mult mult.commute)
  ultimately show ?thesis using assms by (auto simp: byte_bit_def nth_append)
qed

lemma copy_in_ok:
  assumes "pb_ok pb" and "p + length bs \<le> length (pb_bytes pb)" and "pb_data pb \<noteq> None"
  shows "pb_ok (copy_in p bs pb)"
    "pb_bytes (copy_in p bs pb) = take p (pb_bytes pb) @ bs @ drop (p + length bs) (pb_bytes pb)"
    "pb_data (copy_in p bs pb) \<noteq> None" "pb_size (copy_in p bs pb) = pb_size pb"
    "pb_capacity (copy_in p bs pb) = pb_capacity pb"
    "memory_manager (copy_in p bs pb) = memory_manager pb"
  using assms by (auto simp: copy_in_def pb_ok_def pb_bytes_def Let_def split: option.splits)

lemma copy_in_bits:
  assumes "pb_ok pb" and "p + length bs \<le> length (pb_bytes pb)" and "pb_data pb \<noteq> None"
  shows "byte_bit (pb_bytes (copy_in p bs pb)) i =
    (if 8 * p \<le> i \<and> i < 8 * (p + length bs) then byte_bit bs (i - 8 * p)
     else byte_bit (pb_bytes pb) i)"
  unfolding copy_in_ok(2) [OF assms] by (rule byte_bit_splice [OF assms(2)])

text \<open>An allocated writer has room for the eight bytes of a \<open>Write\<close>.\<close>

lemma write_in_block:
  assumes "bw_ok w" "pb_data (storage w) \<noteq> None"
  shows "bits_written w div 8 + 8 \<le> length (pb_bytes (storage w))"
proof -
  have "bits_written w \<le> 8 * pb_size (storage w)" using assms(1) by (simp add: bw_ok_def)
  then have "bits_written w div 8 \<le> pb_size (storage w)" by simp
  then show ?thesis using assms by (auto simp: bw_ok_def pb_ok_def pb_bytes_def)
qed

lemma same_byte_window:
  fixes i b n :: nat
  assumes "i div 8 = (b + n) div 8" and "n \<le> 56"
  shows "i < 8 * (b div 8) + 64"
proof -
  have "(b + n) div 8 \<le> (b + 56) div 8" using assms(2) by (intro div_le_mono) simp
  also have "\<dots> = b div 8 + 7" using div_add [of 8 56 b] by simp
  finally have "8 * (i div 8) \<le> 8 * (b div 8) + 56" using assms(1) by simp
  moreover have "i < 8 * (i div 8) + 8" by (metis add.commute mod_less_divisor mult_div_mod_eq nat_add_left_cancel_less zero_less_numeral)
  ultimately show ?thesis by linarith
qed

lemma Write_bits:
  assumes w: "bw_ok w" "pb_data (storage w) \<noteq> None"
    and n: "n \<le> 56" and v: "drop_bit n v = 0"
  shows "i < bits_written w + n \<Longrightarrow> byte_bit (pb_bytes (storage (Write n v w))) i =
      (if i < bits_written w then byte_bit (pb_bytes (storage w)) i else bit v (i - bits_written w))"
    and "bits_written w + n \<le> i \<Longrightarrow> i < 8 * (bits_written w div 8) + 64 \<Longrightarrow>
      \<not> byte_bit (pb_bytes (storage (Write n v w))) i"
proof -
  let ?d = "pb_bytes (storage w)" and ?bw = "bits_written w"
  define p where "p = ?bw div 8"
  define k where "k = ?bw mod 8"
  define x where "x = ucast (?d ! p) OR push_bit k v"
  have bw: "?bw = 8 * p + k" and k: "k < 8" by (simp_all add: p_def k_def)
  have "storage (Write n v w) = copy_in p (StoreLE64 x) (storage w)"
    by (simp add: Write_def Let_def p_def k_def x_def)
  moreover have in_block: "p + length (StoreLE64 x) \<le> length ?d"
    using write_in_block [OF w] by (simp add: p_def)
  ultimately have D: "byte_bit (pb_bytes (storage (Write n v w))) i =
      (if 8 * p \<le> i \<and> i < 8 * p + 64 then bit x (i - 8 * p) else byte_bit ?d i)" for i
    using copy_in_ok(2) [OF _ in_block w(2)] w(1) byte_bit_splice [OF in_block, of i]
    by (auto simp: bw_ok_def bit_StoreLE64)
  have first: "bit (?d ! p) j \<longleftrightarrow> j < k \<and> byte_bit ?d (8 * p + j)" for j
  proof (cases "j < 8")
    case True
    have "byte_bit ?d (8 * p + j) = bit (?d ! p) j" using True by (simp add: byte_bit_def)
    moreover have "\<not> byte_bit ?d (8 * p + j)" if "k \<le> j"
      using w that True bw k unfolding bw_ok_def by (simp add: p_def [symmetric])
    ultimately show ?thesis by (meson not_le)
  next
    case False
    then show ?thesis using k by (auto dest: bit_imp_le_length)
  qed
  have X: "bit x j \<longleftrightarrow> j < k \<and> byte_bit ?d (8 * p + j) \<or> k \<le> j \<and> bit v (j - k)" if "j < 64" for j
    using that first [of j] by (auto simp: x_def bit_or_iff bit_ucast_iff bit_push_bit_iff)
  show "byte_bit (pb_bytes (storage (Write n v w))) i =
      (if i < ?bw then byte_bit ?d i else bit v (i - ?bw))" if "i < ?bw + n"
  proof (cases "8 * p \<le> i")
    case True
    then obtain j where j: "i = 8 * p + j" by (auto simp: le_iff_add)
    then have "j < 64" using that bw k n by simp
    then show ?thesis using D [of i] X [of j] j bw by auto
  next
    case False
    then show ?thesis using D [of i] bw by simp
  qed
  show "\<not> byte_bit (pb_bytes (storage (Write n v w))) i"
    if i: "?bw + n \<le> i" "i < 8 * (?bw div 8) + 64"
  proof -
    obtain j where j: "i = 8 * p + j" using i(1) bw by (auto simp: le_iff_add)
    have "j < 64" "k + n \<le> j" using i bw j k by (simp_all add: p_def [symmetric])
    then have "\<not> bit v (j - k)" using drop_bit_0_bit [OF v, of "j - k"] by auto
    then show ?thesis using D [of i] X [of j] j \<open>j < 64\<close> \<open>k + n \<le> j\<close> by simp
  qed
qed

lemma Write_ok:
  assumes w: "bw_ok w" "pb_data (storage w) \<noteq> None"
    and n: "n \<le> 56" "n \<le> room w" and v: "drop_bit n v = 0"
  shows "bw_ok (Write n v w)" "pb_data (storage (Write n v w)) \<noteq> None"
    "content (Write n v w) = content w @ bits_of n v"
    "room (Write n v w) = room w - n" "bits_written (Write n v w) = bits_written w + n"
    "allotments (Write n v w) = allotments w"
    "pb_size (storage (Write n v w)) = pb_size (storage w)"
    "pb_capacity (storage (Write n v w)) = pb_capacity (storage w)"
    "memory_manager (storage (Write n v w)) = memory_manager (storage w)"
proof -
  note B = Write_bits [OF w n(1) v]
  have in_block: "bits_written w div 8 + length (StoreLE64 x) \<le> length (pb_bytes (storage w))" for x
    using write_in_block [OF w] by simp
  have "pb_ok (storage w)" using w(1) by (simp add: bw_ok_def)
  note C = copy_in_ok [OF this in_block w(2)]
  have le: "bits_written w \<le> 8 * pb_size (storage w)" using w(1) by (simp add: bw_ok_def)
  show bw: "bits_written (Write n v w) = bits_written w + n"
    and "allotments (Write n v w) = allotments w"
    and cap: "pb_size (storage (Write n v w)) = pb_size (storage w)"
    and "pb_capacity (storage (Write n v w)) = pb_capacity (storage w)"
    and "memory_manager (storage (Write n v w)) = memory_manager (storage w)"
    and data: "pb_data (storage (Write n v w)) \<noteq> None"
    and ok: "bw_ok (Write n v w)"
  proof -
    show 1: "bits_written (Write n v w) = bits_written w + n"
      "allotments (Write n v w) = allotments w"
      by (simp_all add: Write_def Let_def)
    show 2: "pb_size (storage (Write n v w)) = pb_size (storage w)"
      "pb_capacity (storage (Write n v w)) = pb_capacity (storage w)"
      "memory_manager (storage (Write n v w)) = memory_manager (storage w)"
      "pb_data (storage (Write n v w)) \<noteq> None"
      using C by (simp_all add: Write_def Let_def)
    have "i < 8 * (bits_written w div 8) + 64"
      if "i div 8 = (bits_written w + n) div 8" for i
      using same_byte_window [OF that n(1)] .
    then show "bw_ok (Write n v w)"
      using 1 2 B(2) C(1) n(2) le
      by (auto simp: bw_ok_def room_def Write_def [of n v w] Let_def)
  qed
  show "room (Write n v w) = room w - n" using n le by (simp add: room_def bw cap)
  show "content (Write n v w) = content w @ bits_of n v"
    by (rule nth_equalityI) (auto simp: content_def bw B(1) nth_append)
qed

section \<open>Allotments\<close>

definition mm_total :: "BitWriter \<Rightarrow> bool" where
  "mm_total w \<longleftrightarrow> (\<forall>k n. memory_manager (storage w) k n \<noteq> None)"

lemma resize_total:
  assumes "\<forall>k n. memory_manager pb k n \<noteq> None"
  shows "fst (resize n pb) = kOk"
proof -
  have "\<exists>m. memory_manager pb k n = Some m" for k n using assms by (meson not_None_eq)
  then show ?thesis
    by (auto simp: resize_def reserve_def change_capacity_def Let_def split: option.splits prod.splits)
      (metis not_None_eq assms)+
qed

lemma room_pos_allocated:
  "bw_ok w \<Longrightarrow> 0 < pb_size (storage w) \<Longrightarrow> pb_data (storage w) \<noteq> None"
  by (auto simp: bw_ok_def pb_ok_def split: option.splits)

lemma Init_ok:
  assumes w: "bw_ok w" and i: "Allotment_Init m w = (kOk, w')"
  shows "bw_ok w'" "content w' = content w" "bits_written w' = bits_written w"
    "pb_size (storage w') = pb_size (storage w) + DivCeil m 8" "room w + m \<le> room w'"
    "memory_manager (storage w') = memory_manager (storage w)"
    "allotments w' =
       \<lparr>prev_bits_written = bits_written w, max_bits = m, histogram_bits = 0\<rparr> # allotments w"
    "0 < m \<Longrightarrow> pb_data (storage w') \<noteq> None"
proof -
  obtain s pb where r: "resize (pb_size (storage w) + DivCeil m 8) (storage w) = (s, pb)"
    by fastforce
  let ?as = "\<lparr>prev_bits_written = bits_written w, max_bits = m, histogram_bits = 0\<rparr> # allotments w"
  have s: "s = kOk" and w': "w' = w\<lparr>storage := pb, allotments := ?as\<rparr>"
    using i r by (auto simp: Allotment_Init_def Let_def split: if_splits)
  have le: "bits_written w \<le> 8 * pb_size (storage w)" using w by (simp add: bw_ok_def)
  then have "s = kOk \<longrightarrow> bits_written w \<le> 8 * (pb_size (storage w) + DivCeil m 8)" by simp
  note R = storage_resize_ok [OF w r this w']
  show ok: "bw_ok w'" and "content w' = content w" "bits_written w' = bits_written w"
    "memory_manager (storage w') = memory_manager (storage w)" "allotments w' = ?as"
    and size: "pb_size (storage w') = pb_size (storage w) + DivCeil m 8"
    using R s by (simp_all add: w')
  have D: "m \<le> 8 * DivCeil m 8" using DivCeil_bounds [of 8 m] by simp
  then show "room w + m \<le> room w'" using size le by (simp add: room_def w' distrib_left)
  show "pb_data (storage w') \<noteq> None" if "0 < m"
    using room_pos_allocated [OF ok] size D that by simp
qed

lemma Init_total: "mm_total w \<Longrightarrow> fst (Allotment_Init m w) = kOk"
  using resize_total [of "storage w"]
  by (auto simp: Allotment_Init_def Let_def mm_total_def split: prod.splits) (metis fst_conv)+

lemma Reclaim_ok:
  assumes w: "bw_ok w" and a: "allotments w = a # parents"
    and u: "bits_written w = prev_bits_written a + used" "used \<le> max_bits a"
    and fits: "bits_written w + 8 * ((max_bits a - used) div 8) \<le> 8 * pb_size (storage w)"
  obtains w' where "PrivateReclaim w = ((kOk, used), w')" "bw_ok w'" "content w' = content w"
    "bits_written w' = bits_written w"
    "pb_size (storage w') = pb_size (storage w) - (max_bits a - used) div 8"
    "memory_manager (storage w') = memory_manager (storage w)"
    "allotments w' = map (\<lambda>p. p\<lparr>prev_bits_written := prev_bits_written p + used\<rparr>) parents"
    "pb_data (storage w) \<noteq> None \<longrightarrow> pb_data (storage w') \<noteq> None"
proof -
  let ?n = "pb_size (storage w) - (max_bits a - used) div 8"
  let ?as = "map (\<lambda>p. p\<lparr>prev_bits_written := prev_bits_written p + used\<rparr>) parents"
  obtain s pb where r: "resize ?n (storage w) = (s, pb)" by fastforce
  define w' where "w' = w\<lparr>storage := pb, allotments := ?as\<rparr>"
  have le: "(max_bits a - used) div 8 \<le> pb_size (storage w)" using fits by linarith
  have "bits_written w \<le> 8 * ?n" using fits le by (simp add: right_diff_distrib')
  then have "s = kOk \<longrightarrow> bits_written w \<le> 8 * ?n" by simp
  note R = storage_resize_ok [OF w r this w'_def]
  have "pb_size (storage w) \<le> pb_capacity (storage w)" using w by (simp add: bw_ok_def pb_ok_def)
  then have s: "s = kOk" using R by simp
  have "PrivateReclaim w = ((kOk, used), w')"
    using a u r s le by (simp add: PrivateReclaim_def Let_def w'_def)
  then show ?thesis using that R s by (simp add: w'_def)
qed

section \<open>Nested scripts of writes\<close>

text \<open>
  A script: writes and nested \<open>WithMaxBits\<close> calls, each with its bound, the layer it is charged to
  and whether it reports its bits as a histogram.  \<open>run_cmds\<close> runs it on the code's operations.
\<close>

datatype 'l cmd = CWrite nat u64 | CAllot nat 'l bool "'l cmd list"

fun run_cmd :: "'l cmd \<Rightarrow> BitWriter \<times> 'l AuxOut \<Rightarrow> StatusCode \<times> BitWriter \<times> 'l AuxOut"
  and run_cmds :: "'l cmd list \<Rightarrow> BitWriter \<times> 'l AuxOut \<Rightarrow> StatusCode \<times> BitWriter \<times> 'l AuxOut"
where
  "run_cmd (CWrite n v) = (\<lambda>(w, aux). (kOk, Write n v w, aux))"
| "run_cmd (CAllot m l h cs) = WithMaxBits m l True (run_cmds cs) h"
| "run_cmds [] = (\<lambda>s. (kOk, s))"
| "run_cmds (c # cs) = (\<lambda>s. case run_cmd c s of (st, s) \<Rightarrow> if st \<noteq> kOk then (st, s) else run_cmds cs s)"

text \<open>What a script means: its bits, the bits it writes outside its nested allotments, the totals
  it charges, and the caller's obligation that no allotment is exceeded.\<close>

fun cmd_bits :: "'l cmd \<Rightarrow> bool list" and cmds_bits :: "'l cmd list \<Rightarrow> bool list" where
  "cmd_bits (CWrite n v) = bits_of n v"
| "cmd_bits (CAllot m l h cs) = cmds_bits cs"
| "cmds_bits [] = []"
| "cmds_bits (c # cs) = cmd_bits c @ cmds_bits cs"

fun own_bits :: "'l cmd list \<Rightarrow> nat" where
  "own_bits [] = 0"
| "own_bits (CWrite n v # cs) = n + own_bits cs"
| "own_bits (CAllot m l h ds # cs) = own_bits cs"

definition add_totals :: "'l \<Rightarrow> nat \<Rightarrow> nat \<Rightarrow> 'l AuxOut \<Rightarrow> 'l AuxOut" where
  "add_totals l n h aux = aux(l := \<lparr>layer_total_bits = layer_total_bits (aux l) + n,
     layer_histogram_bits = layer_histogram_bits (aux l) + h\<rparr>)"

fun cmd_charge :: "'l cmd \<Rightarrow> 'l AuxOut \<Rightarrow> 'l AuxOut"
  and cmds_charge :: "'l cmd list \<Rightarrow> 'l AuxOut \<Rightarrow> 'l AuxOut" where
  "cmd_charge (CWrite n v) aux = aux"
| "cmd_charge (CAllot m l h cs) aux =
     add_totals l (own_bits cs) (if h then own_bits cs else 0) (cmds_charge cs aux)"
| "cmds_charge [] aux = aux"
| "cmds_charge (c # cs) aux = cmds_charge cs (cmd_charge c aux)"

fun cmd_valid :: "'l cmd \<Rightarrow> bool" and cmds_valid :: "'l cmd list \<Rightarrow> bool" where
  "cmd_valid (CWrite n v) = (n \<le> 56 \<and> drop_bit n v = 0)"
| "cmd_valid (CAllot m l h cs) = (0 < m \<and> own_bits cs \<le> m \<and> cmds_valid cs)"
| "cmds_valid [] = True"
| "cmds_valid (c # cs) = (cmd_valid c \<and> cmds_valid cs)"

definition bump :: "nat \<Rightarrow> Allotment \<Rightarrow> Allotment" where
  "bump n a = a\<lparr>prev_bits_written := prev_bits_written a + n\<rparr>"

lemma bump_bump: "bump n \<circ> bump m = bump (m + n)"
  by (rule ext) (simp add: bump_def add.assoc)

lemma bump_0 [simp]: "bump 0 = id"
  by (rule ext) (simp add: bump_def)

text \<open>The contract of a run: if it succeeds it appended \<open>bs\<close>, used at most \<open>own\<close> bits of the space
  that was free before, moved the open allotments forward by the bits that nested allotments
  accounted for, and charged the layers; it succeeds if memory does not run out.\<close>

definition ran :: "bool list \<Rightarrow> nat \<Rightarrow> ('l AuxOut \<Rightarrow> 'l AuxOut) \<Rightarrow>
    (BitWriter \<times> 'l AuxOut \<Rightarrow> StatusCode \<times> BitWriter \<times> 'l AuxOut) \<Rightarrow> BitWriter \<Rightarrow> 'l AuxOut \<Rightarrow> bool"
where
  "ran bs own ch f w aux \<longleftrightarrow>
     (\<forall>w' aux'. f (w, aux) = (kOk, w', aux') \<longrightarrow>
        bw_ok w' \<and> pb_data (storage w') \<noteq> None \<and>
        memory_manager (storage w') = memory_manager (storage w) \<and>
        content w' = content w @ bs \<and> room w \<le> room w' + own \<and>
        allotments w' = map (bump (length bs - own)) (allotments w) \<and> aux' = ch aux) \<and>
     (mm_total w \<longrightarrow> fst (f (w, aux)) = kOk)"

lemma own_le_bits: "own_bits cs \<le> length (cmds_bits cs)"
  by (induction cs rule: own_bits.induct) auto

lemma length_content: "length (content w) = bits_written w"
  by (simp add: content_def)

lemma allotments_irrelevant [simp]:
  "bw_ok (w\<lparr>allotments := as\<rparr>) = bw_ok w" "content (w\<lparr>allotments := as\<rparr>) = content w"
  "room (w\<lparr>allotments := as\<rparr>) = room w" "mm_total (w\<lparr>allotments := as\<rparr>) = mm_total w"
  by (simp_all add: bw_ok_def content_def room_def mm_total_def)

lemma ran_Nil:
  "bw_ok w \<Longrightarrow> pb_data (storage w) \<noteq> None \<Longrightarrow> ran [] 0 id (\<lambda>s. (kOk, s)) w aux"
  by (simp add: ran_def)

lemma ran_Write:
  assumes "bw_ok w" "pb_data (storage w) \<noteq> None" "n \<le> 56" "drop_bit n v = 0" "n \<le> room w"
  shows "ran (bits_of n v) n id (\<lambda>(w, aux). (kOk, Write n v w, aux)) w aux"
  using Write_ok [OF assms(1,2,3,5,4)] by (simp add: ran_def)

lemma ran_seq:
  assumes f: "ran bs own ch f w aux"
    and g: "\<And>w' aux'. bw_ok w' \<Longrightarrow> pb_data (storage w') \<noteq> None \<Longrightarrow> room w \<le> room w' + own \<Longrightarrow>
      ran bs' own' ch' g w' aux'"
    and le: "own \<le> length bs" "own' \<le> length bs'"
  shows "ran (bs @ bs') (own + own') (ch' \<circ> ch)
    (\<lambda>s. case f s of (st, s) \<Rightarrow> if st \<noteq> kOk then (st, s) else g s) w aux"
proof -
  obtain st w1 aux1 where 1: "f (w, aux) = (st, w1, aux1)" by (metis prod.exhaust)
  show ?thesis
  proof (cases "st = kOk")
    case False
    with f 1 show ?thesis by (auto simp: ran_def)
  next
    case True
    with f 1 have F: "bw_ok w1" "pb_data (storage w1) \<noteq> None"
      "memory_manager (storage w1) = memory_manager (storage w)"
      "content w1 = content w @ bs" "room w \<le> room w1 + own"
      "allotments w1 = map (bump (length bs - own)) (allotments w)" "aux1 = ch aux"
      by (auto simp: ran_def)
    have "mm_total w1 = mm_total w" using F(3) by (simp add: mm_total_def)
    with g [OF F(1,2,5), of aux1] 1 True F le show ?thesis
      by (fastforce simp: ran_def bump_bump)
  qed
qed

lemma ran_Allot_at:
  assumes w: "bw_ok w" and m: "0 < m" "own \<le> m" and le: "own \<le> length bs"
    and f: "\<And>w1. bw_ok w1 \<Longrightarrow> pb_data (storage w1) \<noteq> None \<Longrightarrow> own \<le> room w1 \<Longrightarrow> content w1 = content w \<Longrightarrow>
      ran bs own ch f w1 aux"
  shows "ran bs 0 (if b then add_totals l own (if h then own else 0) \<circ> ch else ch)
    (WithMaxBits m l b f h) w aux"
proof -
  obtain s0 w1 where i: "Allotment_Init m w = (s0, w1)" by fastforce
  show ?thesis
  proof (cases "s0 = kOk")
    case False
    then show ?thesis using i Init_total [of w m] by (auto simp: ran_def WithMaxBits_def)
  next
    case True
    with i have "Allotment_Init m w = (kOk, w1)" by simp
    note I = Init_ok [OF w this]
    have mt: "mm_total w1 = mm_total w" using I(6) by (simp add: mm_total_def)
    have "own \<le> room w1" using I(5) m(2) by linarith
    note R = f [OF I(1) I(8) [OF m(1)] this I(2)]
    obtain st w2 aux2 where body: "f (w1, aux) = (st, w2, aux2)" by (metis prod.exhaust)
    show ?thesis
    proof (cases "st = kOk")
      case False
      with R body mt have "\<not> mm_total w" by (auto simp: ran_def)
      moreover have "fst (WithMaxBits m l b f h (w, aux)) \<noteq> kOk"
        using i \<open>s0 = kOk\<close> body False
        by (auto simp: WithMaxBits_def split: prod.splits)
      ultimately show ?thesis by (auto simp: ran_def)
    next
      case True
      let ?a = "\<lparr>prev_bits_written = bits_written w + (length bs - own), max_bits = m,
        histogram_bits = 0\<rparr>"
      let ?ps = "map (bump (length bs - own)) (allotments w)"
      have B: "bw_ok w2" "pb_data (storage w2) \<noteq> None" "content w2 = content w @ bs"
        "memory_manager (storage w2) = memory_manager (storage w)"
        "room w1 \<le> room w2 + own" "allotments w2 = ?a # ?ps" "aux2 = ch aux"
        using R body True I by (auto simp: ran_def bump_def)
      have bits: "bits_written w2 = bits_written w + length bs"
        using B(3) length_content by (metis length_append)
      define a where "a = (if h then ?a\<lparr>histogram_bits := own\<rparr> else ?a)"
      define w3 where "w3 = w2\<lparr>allotments := a # ?ps\<rparr>"
      have fh: "(if True \<and> h then FinishedHistogram w2 else (kOk, w2)) = (kOk, w3)"
        using B(6) bits le by (simp add: FinishedHistogram_def a_def w3_def)
      have w2_le: "bits_written w2 \<le> 8 * pb_size (storage w2)" using B(1) by (simp add: bw_ok_def)
      have d8: "8 * ((m - own) div 8) \<le> m - own" by simp
      have free: "room w + (m - own) \<le> room w2" using B(5) I(5) m(2) by linarith
      have "bw_ok w3" "allotments w3 = a # ?ps" using B(1) by (simp_all add: w3_def)
      moreover have "bits_written w3 = prev_bits_written a + own" "own \<le> max_bits a"
        using bits le m by (simp_all add: w3_def a_def)
      moreover have "bits_written w3 + 8 * ((max_bits a - own) div 8) \<le> 8 * pb_size (storage w3)"
        using w2_le d8 free by (simp add: w3_def a_def room_def)
      ultimately obtain w4 where r: "PrivateReclaim w3 = ((kOk, own), w4)" "bw_ok w4"
        "content w4 = content w3" "bits_written w4 = bits_written w3"
        "pb_size (storage w4) = pb_size (storage w3) - (max_bits a - own) div 8"
        "memory_manager (storage w4) = memory_manager (storage w3)"
        "allotments w4 = map (\<lambda>p. p\<lparr>prev_bits_written := prev_bits_written p + own\<rparr>) ?ps"
        "pb_data (storage w3) \<noteq> None \<longrightarrow> pb_data (storage w4) \<noteq> None"
        by (rule Reclaim_ok)
      have "bits_written w4 = bits_written w2" "max_bits a = m" "storage w3 = storage w2"
        using r(4) by (simp_all add: w3_def a_def)
      moreover have "room w + (m - own) + bits_written w2 \<le> 8 * pb_size (storage w2)"
        using free w2_le by (simp add: room_def)
      ultimately have "room w + bits_written w4 \<le> 8 * pb_size (storage w4)"
        using d8 r(5) by (simp add: right_diff_distrib')
      then have "room w \<le> room w4" by (simp add: room_def [of w4])
      moreover have "pb_data (storage w4) \<noteq> None" using r(8) B(2) by (simp add: w3_def)
      moreover have "allotments w4 = map (bump (length bs)) (allotments w)"
        using r(7) le by (simp add: bump_def)
      moreover have "WithMaxBits m l b f h (w, aux) = (kOk, w4,
          (if b then add_totals l own (if h then own else 0) \<circ> ch else ch) aux)"
        using i \<open>s0 = kOk\<close> body True fh r(1) B(7)
        by (simp add: WithMaxBits_def ReclaimAndCharge_def w3_def a_def add_totals_def)
      ultimately show ?thesis using r(2,3,6) B(3,4) by (simp add: ran_def w3_def)
    qed
  qed
qed

lemma ran_Allot:
  assumes "bw_ok w" and "0 < m" "own \<le> m" and "own \<le> length bs"
    and "\<And>w1. bw_ok w1 \<Longrightarrow> pb_data (storage w1) \<noteq> None \<Longrightarrow> own \<le> room w1 \<Longrightarrow> ran bs own ch f w1 aux"
  shows "ran bs 0 (if b then add_totals l own (if h then own else 0) \<circ> ch else ch)
    (WithMaxBits m l b f h) w aux"
  using assms by (intro ran_Allot_at) blast+

lemma run_cmds_ran:
  fixes c :: "'l cmd" and cs :: "'l cmd list"
  shows "(\<And>w aux. cmd_valid c \<Longrightarrow> bw_ok w \<Longrightarrow> pb_data (storage w) \<noteq> None \<Longrightarrow>
      own_bits [c] \<le> room w \<Longrightarrow> ran (cmd_bits c) (own_bits [c]) (cmd_charge c) (run_cmd c) w aux)"
    and "(\<And>w aux. cmds_valid cs \<Longrightarrow> bw_ok w \<Longrightarrow> pb_data (storage w) \<noteq> None \<Longrightarrow>
      own_bits cs \<le> room w \<Longrightarrow> ran (cmds_bits cs) (own_bits cs) (cmds_charge cs) (run_cmds cs) w aux)"
proof (induction c and cs rule: cmd_bits_cmds_bits.induct)
  case (1 n v)
  then show ?case using ran_Write [of w n v aux] by (simp add: id_def ran_def)
next
  case (2 m l h cs)
  have "ran (cmds_bits cs) 0 (add_totals l (own_bits cs) (if h then own_bits cs else 0) \<circ>
      cmds_charge cs) (WithMaxBits m l True (run_cmds cs) h) w aux"
    using "2.prems" by (intro ran_Allot [where b = True, simplified] "2.IH" own_le_bits) auto
  then show ?case by (simp add: comp_def)
next
  case 3
  then show ?case using ran_Nil [of w aux] by (simp add: id_def ran_def)
next
  case (4 c cs)
  have own: "own_bits (c # cs) = own_bits [c] + own_bits cs" by (cases c) simp_all
  have "ran (cmd_bits c @ cmds_bits cs) (own_bits [c] + own_bits cs) (cmds_charge cs \<circ> cmd_charge c)
      (\<lambda>s. case run_cmd c s of (st, s) \<Rightarrow> if st \<noteq> kOk then (st, s) else run_cmds cs s) w aux"
  proof (rule ran_seq)
    show "ran (cmd_bits c) (own_bits [c]) (cmd_charge c) (run_cmd c) w aux"
      using "4.prems" own by (intro "4.IH"(1)) auto
    show "ran (cmds_bits cs) (own_bits cs) (cmds_charge cs) (run_cmds cs) w' aux'"
      if "bw_ok w'" "pb_data (storage w') \<noteq> None" "room w \<le> room w' + own_bits [c]" for w' aux'
      using "4.prems" own that by (intro "4.IH"(2)) auto
    show "own_bits [c] \<le> length (cmd_bits c)" using own_le_bits [of "[c]"] by simp
  qed (rule own_le_bits)
  then show ?case by (simp add: comp_def own)
qed

lemma sum_total_add:
  fixes aux :: "'l::finite AuxOut"
  shows "(\<Sum>k\<in>UNIV. layer_total_bits (add_totals l n h aux k)) = (\<Sum>k\<in>UNIV. layer_total_bits (aux k)) + n"
proof -
  have "(\<Sum>k\<in>UNIV. layer_total_bits (add_totals l n h aux k)) =
      (\<Sum>k\<in>UNIV. layer_total_bits (aux k) + (if k = l then n else 0))"
    by (intro sum.cong) (auto simp: add_totals_def)
  then show ?thesis by (simp add: sum.distrib)
qed

lemma sum_charged:
  fixes c :: "'l::finite cmd" and cs :: "'l cmd list"
  shows "\<And>aux. (\<Sum>k\<in>UNIV. layer_total_bits (cmd_charge c aux k)) + own_bits [c] =
      (\<Sum>k\<in>UNIV. layer_total_bits (aux k)) + length (cmd_bits c)"
    and "\<And>aux. (\<Sum>k\<in>UNIV. layer_total_bits (cmds_charge cs aux k)) + own_bits cs =
      (\<Sum>k\<in>UNIV. layer_total_bits (aux k)) + length (cmds_bits cs)"
proof (induction c and cs rule: cmd_bits_cmds_bits.induct)
  case (2 m l h cs)
  then show ?case by (simp add: sum_total_add)
next
  case (4 c cs)
  have "own_bits (c # cs) = own_bits [c] + own_bits cs" by (cases c) simp_all
  with "4.IH"(1) [of aux] "4.IH"(2) [of "cmd_charge c aux"] show ?case by simp
qed simp_all

lemma run_allotment_ran:
  assumes "bw_ok w" and "cmd_valid (CAllot m l h cs)"
  shows "ran (cmds_bits cs) 0 (add_totals l (own_bits cs) (if h then own_bits cs else 0) \<circ>
    cmds_charge cs) (run_cmd (CAllot m l h cs)) w aux"
  unfolding run_cmd.simps using assms
  by (intro ran_Allot [where b = True, simplified] run_cmds_ran(2) own_le_bits) auto

lemma run_allotment:
  assumes "bw_ok w" and "cmd_valid (CAllot m l h cs)"
    and "run_cmd (CAllot m l h cs) (w, aux) = (kOk, w', aux')"
  shows "bw_ok w'" "content w' = content w @ cmds_bits cs" "aux' = cmd_charge (CAllot m l h cs) aux"
    "pb_data (storage w') \<noteq> None" "room w \<le> room w'"
proof -
  note run_allotment_ran [OF assms(1,2), of aux]
  with assms(3) show "bw_ok w'" "content w' = content w @ cmds_bits cs"
    "aux' = cmd_charge (CAllot m l h cs) aux" "pb_data (storage w') \<noteq> None" "room w \<le> room w'"
    by (auto simp: ran_def)
qed

lemma run_allotment_total:
  assumes "bw_ok w" and "cmd_valid (CAllot m l h cs)" and "mm_total w"
  obtains w' aux' where "run_cmd (CAllot m l h cs) (w, aux) = (kOk, w', aux')"
proof -
  note run_allotment_ran [OF assms(1,2), of aux]
  with assms(3) have "fst (run_cmd (CAllot m l h cs) (w, aux)) = kOk" by (auto simp: ran_def)
  then show ?thesis using that by (metis prod.collapse)
qed

section \<open>Appending other writers\<close>

lemma fold_Write_ok:
  assumes "bw_ok w" "pb_data (storage w) \<noteq> None" "8 * length vs \<le> room w"
    "\<forall>v \<in> set vs. drop_bit 8 v = 0"
  shows "bw_ok (fold (Write 8) vs w) \<and> pb_data (storage (fold (Write 8) vs w)) \<noteq> None \<and>
    content (fold (Write 8) vs w) = content w @ concat (map (bits_of 8) vs) \<and>
    room (fold (Write 8) vs w) = room w - 8 * length vs \<and>
    allotments (fold (Write 8) vs w) = allotments w \<and>
    memory_manager (storage (fold (Write 8) vs w)) = memory_manager (storage w)"
  using assms
proof (induction vs arbitrary: w)
  case (Cons v vs)
  have "drop_bit 8 v = 0" "8 \<le> room w" using Cons.prems by simp_all
  note W = Write_ok [OF Cons.prems(1,2) _ this(2,1)]
  show ?case using Cons.IH [of "Write 8 v w"] W Cons.prems by simp
qed simp

lemma byte_bits:
  "map (byte_bit d) [0..<8 * n] = concat (map (\<lambda>i. bits_of 8 (ucast (d ! i) :: u64)) [0..<n])"
proof (induction n)
  case (Suc n)
  have "map (byte_bit d) [8 * n..<8 * n + 8] = bits_of 8 (ucast (d ! n) :: u64)"
    by (rule nth_equalityI) (auto simp: byte_bit_def bit_ucast_iff)
  then show ?case using Suc upt_add_eq_append [of 0 "8 * n" 8] by (simp add: add.commute)
qed simp

lemma u8_fits: "drop_bit 8 (ucast (b :: u8) :: u64) = 0"
  by (rule bit_eqI) (auto simp: bit_drop_bit_eq bit_ucast_iff dest: bit_imp_le_length)

lemma tail_bits:
  "r < 8 \<Longrightarrow> map (byte_bit d) [8 * n..<8 * n + r] =
     bits_of r ((ucast (d ! n) :: u64) AND (push_bit r 1 - 1))"
  by (rule nth_equalityI)
    (auto simp: byte_bit_def bit_ucast_iff bit_and_iff mask_eq_exp_minus_1 [symmetric]
      push_bit_eq_mult bit_mask_iff)

lemma AppendUnaligned_ran:
  assumes w: "bw_ok w" and other: "0 < bits_written other"
  shows "ran (content other) 0 id (AppendUnaligned l other) w aux"
proof -
  let ?d = "pb_bytes (storage other)" and ?n = "bits_written other div 8"
  let ?r = "bits_written other mod 8"
  let ?vs = "map (\<lambda>i. ucast (?d ! i)) [0..<?n] :: u64 list"
  let ?t = "(ucast (?d ! ?n) :: u64) AND (push_bit ?r 1 - 1)"
  have total: "bits_written other = 8 * ?n + ?r" by simp
  have "content other = map (byte_bit ?d) [0..<8 * ?n] @ map (byte_bit ?d) [8 * ?n..<8 * ?n + ?r]"
    unfolding content_def by (metis map_append total upt_add_eq_append zero_le)
  then have bs: "content other = concat (map (bits_of 8) ?vs) @ bits_of ?r ?t"
    using byte_bits [of ?d ?n] tail_bits [of ?r ?d ?n] by (simp add: comp_def)
  have t: "drop_bit ?r ?t = 0"
    by (rule bit_eqI) (simp add: bit_drop_bit_eq bit_and_iff mask_eq_exp_minus_1 [symmetric]
        push_bit_eq_mult bit_mask_iff)
  have "ran (content other) (length (content other)) id (\<lambda>(w, aux).
       (kOk, (if ?r > 0 then Write ?r ?t (fold (Write 8) ?vs w) else fold (Write 8) ?vs w), aux)) w1 aux"
    if "bw_ok w1" "pb_data (storage w1) \<noteq> None" "length (content other) \<le> room w1" for w1
  proof -
    have len: "8 * ?n + ?r \<le> room w1" using that(3) total by (simp add: length_content)
    then have "8 * length ?vs \<le> room w1" by simp
    moreover have "\<forall>v \<in> set ?vs. drop_bit 8 v = 0" using u8_fits by auto
    ultimately have F: "bw_ok (fold (Write 8) ?vs w1)"
      "pb_data (storage (fold (Write 8) ?vs w1)) \<noteq> None"
      "content (fold (Write 8) ?vs w1) = content w1 @ concat (map (bits_of 8) ?vs)"
      "room (fold (Write 8) ?vs w1) = room w1 - 8 * length ?vs"
      "allotments (fold (Write 8) ?vs w1) = allotments w1"
      "memory_manager (storage (fold (Write 8) ?vs w1)) = memory_manager (storage w1)"
      using fold_Write_ok [OF that(1,2)] by blast+
    have room: "room (fold (Write 8) ?vs w1) = room w1 - 8 * ?n" using F(4) by simp
    then have "?r \<le> room (fold (Write 8) ?vs w1)" using len by linarith
    moreover have "?r \<le> 56" using mod_less_divisor [of 8 "bits_written other"] by linarith
    ultimately have W: "?r \<le> 56" "?r \<le> room (fold (Write 8) ?vs w1)" by simp_all
    note W = Write_ok [OF F(1,2) this t]
    have lc: "length (content other) = 8 * ?n + ?r" by (simp add: length_content)
    let ?w2 = "if ?r > 0 then Write ?r ?t (fold (Write 8) ?vs w1) else fold (Write 8) ?vs w1"
    have "bw_ok ?w2" "pb_data (storage ?w2) \<noteq> None"
      "memory_manager (storage ?w2) = memory_manager (storage w1)" "allotments ?w2 = allotments w1"
      using F(1,2,5,6) W(1,2,6,9) by simp_all
    moreover have "content ?w2 = content w1 @ content other"
    proof (cases "?r = 0")
      case True
      then show ?thesis using F(3) bs by simp
    next
      case False
      then show ?thesis using F(3) W(3) by (simp only: bs append_assoc) simp
    qed
    moreover have "room w1 \<le> room ?w2 + length (content other)"
    proof (cases "?r = 0")
      case True
      then show ?thesis using room len total by (simp only: length_content) simp
    next
      case False
      then have "room ?w2 = room w1 - 8 * ?n - ?r" using W(4) room by simp
      then show ?thesis using len total unfolding length_content by linarith
    qed
    ultimately show ?thesis by (simp add: ran_def)
  qed
  then have "ran (content other) 0 id (WithMaxBits (bits_written other) l False (\<lambda>(w, aux).
       (kOk, (if ?r > 0 then Write ?r ?t (fold (Write 8) ?vs w) else fold (Write 8) ?vs w), aux))
       False) w aux"
    using other by (intro ran_Allot [where b = False and own = "length (content other)", simplified] w)
      (auto simp: length_content)
  moreover have "fold (\<lambda>i. Write 8 (ucast (?d ! i))) [0..<?n] = fold (Write 8) ?vs"
    unfolding List.fold_map by (simp add: comp_def)
  ultimately show ?thesis
    unfolding AppendUnaligned_def Let_def by metis
qed

text \<open>Appending whole bytes: the content grows by the bits of the bytes, and the byte after them is
  zeroed for the next \<open>Write\<close>.\<close>

definition bytes_bits :: "u8 list \<Rightarrow> bool list" where
  "bytes_bits d = map (byte_bit d) [0..<8 * length d]"

lemma bytes_bits_append: "bytes_bits (d @ e) = bytes_bits d @ bytes_bits e"
proof (rule nth_equalityI)
  fix i assume "i < length (bytes_bits (d @ e))"
  then have i: "i < 8 * length d + 8 * length e" by (simp add: bytes_bits_def distrib_left)
  show "bytes_bits (d @ e) ! i = (bytes_bits d @ bytes_bits e) ! i"
  proof (cases "i < 8 * length d")
    case True
    then show ?thesis using i
      by (simp add: bytes_bits_def nth_append byte_bit_def less_mult_imp_div_less mult.commute distrib_left)
  next
    case False
    then obtain j where j: "i = 8 * length d + j" by (auto simp: le_iff_add not_less)
    then show ?thesis using i
      by (simp add: bytes_bits_def nth_append byte_bit_def distrib_left)
  qed
qed (simp add: bytes_bits_def distrib_left)

lemma append_bytes_ok:
  assumes w: "bw_ok w" and al: "bits_written w mod 8 = 0"
    and r: "resize (pb_size (storage w) + length d + 1) (storage w) = (kOk, pb)"
    and w': "w' = w\<lparr>storage := copy_in (bits_written w div 8 + length d) [0]
        (copy_in (bits_written w div 8) d pb), bits_written := bits_written w + length d * 8\<rparr>"
  shows "bw_ok w' \<and> content w' = content w @ bytes_bits d \<and>
    bits_written w div 8 + length d < pb_size pb \<and>
    bits_written w div 8 + length d < length (pb_bytes pb)"
proof -
  define p where "p = bits_written w div 8"
  define w1 where "w1 = w\<lparr>storage := pb, allotments := allotments w\<rparr>"
  have le: "bits_written w \<le> 8 * pb_size (storage w)" using w by (simp add: bw_ok_def)
  have bw: "bits_written w = 8 * p" using al by (auto simp: p_def)
  have "kOk = kOk \<longrightarrow> bits_written w \<le> 8 * (pb_size (storage w) + length d + 1)" using le by simp
  note R = storage_resize_ok [OF w r this w1_def]
  then have size: "pb_size pb = pb_size (storage w) + length d + 1" and ok1: "bw_ok w1"
    and c1: "content w1 = content w" by simp_all
  have ok: "pb_ok pb" using ok1 by (simp add: bw_ok_def w1_def)
  have "0 < pb_size (storage w1)" using size by (simp add: w1_def)
  then have nn: "pb_data pb \<noteq> None" using room_pos_allocated [OF ok1] by (simp add: w1_def)
  have less: "p + length d < pb_size pb" using le size bw by linarith
  then have len: "p + length d + 8 < length (pb_bytes pb)"
    using ok nn by (auto simp: pb_ok_def pb_bytes_def)
  have len1: "p + length d \<le> length (pb_bytes pb)" using len by simp
  note C = copy_in_ok [OF ok len1 nn]
  let ?q = "copy_in p d pb"
  have "length (pb_bytes ?q) = length (pb_bytes pb)" using C(2) len by simp
  then have len2: "p + length d + length [0 :: u8] \<le> length (pb_bytes ?q)" using len by simp
  note D = copy_in_ok [OF C(1) len2 C(3)]
  have B: "byte_bit (pb_bytes (storage w')) i =
      (if 8 * (p + length d) \<le> i \<and> i < 8 * (p + length d + 1) then False
       else if 8 * p \<le> i \<and> i < 8 * (p + length d) then byte_bit d (i - 8 * p)
       else byte_bit (pb_bytes pb) i)" for i
  proof -
    have "\<not> byte_bit [0] (i - 8 * (p + length d))"
      if "i < 8 * (p + length d + length [0 :: u8])"
    proof -
      have "(i - 8 * (p + length d)) div 8 = 0" using that by simp
      then show ?thesis by (simp add: byte_bit_def)
    qed
    then show ?thesis
      unfolding w' p_def [symmetric] using copy_in_bits [OF C(1) len2 C(3), of i] copy_in_bits [OF ok len1 nn, of i]
      by simp
  qed
  have same: "byte_bit (pb_bytes pb) i = byte_bit (pb_bytes (storage w)) i" if "i < bits_written w" for i
  proof -
    have "content w1 ! i = content w ! i" using c1 by simp
    then show ?thesis using that by (simp add: content_def w1_def)
  qed
  have bw': "bits_written w' = 8 * (p + length d)" by (simp add: w' bw)
  have "content w' = content w @ bytes_bits d"
  proof (rule nth_equalityI)
    show "length (content w') = length (content w @ bytes_bits d)"
      using bw' bw by (simp add: content_def bytes_bits_def)
    fix i assume "i < length (content w')"
    then have "i < 8 * (p + length d)" using bw' by (simp add: length_content)
    then show "content w' ! i = (content w @ bytes_bits d) ! i"
      using B [of i] same [of i] bw bw' by (auto simp: content_def bytes_bits_def nth_append)
  qed
  moreover have "bw_ok w'"
  proof -
    have "\<not> byte_bit (pb_bytes (storage w')) i"
      if "bits_written w' \<le> i" "i div 8 = bits_written w' div 8" for i
    proof -
      have "i < 8 * (p + length d + 1)" using that(2) bw' by (simp add: dividend_less_times_div)
      then show ?thesis using B [of i] that(1) bw' by simp
    qed
    then show ?thesis using D C less bw' by (simp add: bw_ok_def) (simp add: w' bw)
  qed
  ultimately show ?thesis using less len by (simp add: bw)
qed

lemma copy_in_copy_in:
  assumes "p + length a + length b \<le> length (pb_bytes pb)"
  shows "copy_in (p + length a) b (copy_in p a pb) = copy_in p (a @ b) pb"
  using assms by (simp add: copy_in_def pb_bytes_def Let_def ac_simps)

lemma fold_copy_in:
  "p + length (concat ds) \<le> length (pb_bytes pb) \<Longrightarrow> pb_data pb \<noteq> None \<Longrightarrow>
   fold (\<lambda>d (pos, pb). (pos + length d, copy_in pos d pb)) ds (p, pb) =
     (p + length (concat ds), copy_in p (concat ds) pb)"
proof (induction ds arbitrary: p pb)
  case Nil
  then show ?case by (auto simp: copy_in_def pb_bytes_def Let_def)
next
  case (Cons d ds)
  have "length (pb_bytes (copy_in p d pb)) = length (pb_bytes pb)" "pb_data (copy_in p d pb) \<noteq> None"
    using Cons.prems by (auto simp: copy_in_def pb_bytes_def Let_def)
  with Cons.IH [of "p + length d" "copy_in p d pb"] Cons.prems
  show ?case using copy_in_copy_in [of p d "concat ds" pb] by (simp add: add.assoc)
qed

lemma GetSpan_ok:
  assumes "bw_ok w" "bits_written w mod 8 = 0"
  shows "length (GetSpan w) = DivCeil (bits_written w) 8" "bytes_bits (GetSpan w) = content w"
    "8 * DivCeil (bits_written w) 8 = bits_written w"
proof -
  obtain p where p: "bits_written w = 8 * p" using assms(2) by auto
  then have D: "DivCeil (bits_written w) 8 = p" by (simp add: DivCeil_def)
  then show "8 * DivCeil (bits_written w) 8 = bits_written w" using p by simp
  have "p \<le> length (pb_bytes (storage w))"
  proof (cases "pb_data (storage w)")
    case None
    then have "pb_size (storage w) = 0" using room_pos_allocated [OF assms(1)] by auto
    then show ?thesis using assms(1) p by (simp add: bw_ok_def)
  next
    case (Some d)
    then show ?thesis using write_in_block [OF assms(1)] p by simp
  qed
  then have len: "length (GetSpan w) = p" by (simp add: GetSpan_def D)
  then show "length (GetSpan w) = DivCeil (bits_written w) 8" by (simp add: D)
  show "bytes_bits (GetSpan w) = content w"
  proof (rule nth_equalityI)
    fix i assume "i < length (bytes_bits (GetSpan w))"
    then have i: "i < 8 * p" by (simp add: bytes_bits_def len)
    then have "i div 8 < p" by simp
    then have "GetSpan w ! (i div 8) = pb_bytes (storage w) ! (i div 8)"
      by (simp add: GetSpan_def D)
    then show "bytes_bits (GetSpan w) ! i = content w ! i"
      using i by (simp add: bytes_bits_def content_def byte_bit_def p len)
  qed (simp add: bytes_bits_def content_def p len)
qed

lemma AppendByteAligned_ok:
  assumes w: "bw_ok w" "bits_written w mod 8 = 0" and mm: "mm_total w"
  obtains w' where "AppendByteAligned d w = (kOk, w')" "bw_ok w'" "content w' = content w @ bytes_bits d"
proof (cases "d = []")
  case True
  then show ?thesis using that [of w] w by (simp add: AppendByteAligned_def bytes_bits_def)
next
  case False
  obtain s pb where r: "resize (pb_size (storage w) + length d + 1) (storage w) = (s, pb)" by fastforce
  have "s = kOk" using resize_total [of "storage w"] mm r by (metis fst_conv mm_total_def)
  with r have r: "resize (pb_size (storage w) + length d + 1) (storage w) = (kOk, pb)" by simp
  let ?q = "bits_written w div 8"
  define w' where "w' = w\<lparr>storage := copy_in (?q + length d) [0] (copy_in ?q d pb),
    bits_written := bits_written w + length d * 8\<rparr>"
  note A = append_bytes_ok [OF w r w'_def]
  moreover have "pb_size (copy_in ?q d pb) = pb_size pb" by (simp add: copy_in_def Let_def)
  ultimately have "AppendByteAligned d w = (kOk, w')"
    using False r w(2) unfolding AppendByteAligned_def Let_def by (simp add: w'_def)
  then show ?thesis using that A by blast
qed

lemma AppendByteAligned_writers_ok:
  assumes w: "bw_ok w" "bits_written w mod 8 = 0" and mm: "mm_total w"
    and os: "\<forall>x \<in> set others. bw_ok x \<and> bits_written x mod 8 = 0"
  obtains w' where "AppendByteAligned_writers others w = (kOk, w')" "bw_ok w'"
    "content w' = content w @ concat (map content others)"
proof -
  define d where "d = concat (map GetSpan others)"
  have len: "sum_list (map (\<lambda>x. DivCeil (bits_written x) 8) others) = length d"
    unfolding d_def using os by (induction others) (auto simp: GetSpan_ok)
  have bits: "bytes_bits d = concat (map content others)"
    unfolding d_def using os by (induction others) (auto simp: GetSpan_ok bytes_bits_append, simp add: bytes_bits_def)
  have all: "list_all (\<lambda>x. bits_written x mod 8 = 0) others" using os by (simp add: list_all_iff)
  show ?thesis
  proof (cases "length d = 0")
    case True
    then have "bytes_bits d = []" by (simp add: bytes_bits_def)
    then show ?thesis using that [of w] w len all True bits
      by (simp add: AppendByteAligned_writers_def)
  next
    case False
    obtain s pb where r: "resize (pb_size (storage w) + length d + 1) (storage w) = (s, pb)" by fastforce
    have "s = kOk" using resize_total [of "storage w"] mm r by (metis fst_conv mm_total_def)
    with r have r: "resize (pb_size (storage w) + length d + 1) (storage w) = (kOk, pb)" by simp
    let ?q = "bits_written w div 8"
    define w' where "w' = w\<lparr>storage := copy_in (?q + length d) [0] (copy_in ?q d pb),
      bits_written := bits_written w + length d * 8\<rparr>"
    note A = append_bytes_ok [OF w r w'_def]
    have q: "DivCeil (bits_written w) 8 = ?q" using GetSpan_ok(3) [OF w] by simp
    have "pb_data pb \<noteq> None" using A by (cases "pb_data pb") (auto simp: pb_bytes_def)
    then have "fold (\<lambda>x (pos, pb). (pos + length (GetSpan x), copy_in pos (GetSpan x) pb)) others (?q, pb) =
        (?q + length d, copy_in ?q d pb)"
      using fold_copy_in [of ?q "map GetSpan others" pb] A by (simp add: List.fold_map comp_def d_def)
    moreover have "pb_size (copy_in ?q d pb) = pb_size pb" by (simp add: copy_in_def Let_def)
    moreover have "storage (w\<lparr>storage := pb\<rparr>) = pb" by simp
    ultimately have "AppendByteAligned_writers others w = (kOk, w')"
      using False r w(2) all A q unfolding AppendByteAligned_writers_def Let_def len
      by (simp add: w'_def)
    then show ?thesis using that A bits by simp
  qed
qed

section \<open>The interface of a bit sink\<close>

text \<open>
  What the encoders rely on: a state holds the bits written so far, and writing a value of \<open>n \<le> 56\<close>
  bits while there is room appends exactly its bits.  \<open>emits f bs\<close> says that the encoder step \<open>f\<close>
  succeeds and appends \<open>bs\<close>.
\<close>

locale bit_sink =
  fixes ok :: "'s \<Rightarrow> bool"
    and space :: "'s \<Rightarrow> nat"
    and written :: "'s \<Rightarrow> bool list"
    and wr :: "nat \<Rightarrow> u64 \<Rightarrow> 's \<Rightarrow> 's"
  assumes wr_ok: "ok s \<Longrightarrow> n \<le> 56 \<Longrightarrow> n \<le> space s \<Longrightarrow> drop_bit n v = 0 \<Longrightarrow> ok (wr n v s)"
    and wr_written: "ok s \<Longrightarrow> n \<le> 56 \<Longrightarrow> n \<le> space s \<Longrightarrow> drop_bit n v = 0 \<Longrightarrow>
      written (wr n v s) = written s @ bits_of n v"
    and wr_space: "ok s \<Longrightarrow> n \<le> 56 \<Longrightarrow> n \<le> space s \<Longrightarrow> drop_bit n v = 0 \<Longrightarrow>
      space (wr n v s) = space s - n"
begin

definition emits :: "('s \<Rightarrow> bool \<times> 's) \<Rightarrow> bool list \<Rightarrow> bool" where
  "emits f bs \<longleftrightarrow> (\<forall>s. ok s \<longrightarrow> length bs \<le> space s \<longrightarrow>
     (\<exists>t. f s = (True, t) \<and> ok t \<and> written t = written s @ bs \<and> space t = space s - length bs))"

lemma emits_return: "emits (\<lambda>s. (True, s)) []"
  by (simp add: emits_def)

lemma emits_wr: "n \<le> 56 \<Longrightarrow> drop_bit n v = 0 \<Longrightarrow> emits (\<lambda>s. (True, wr n v s)) (bits_of n v)"
  by (simp add: emits_def wr_ok wr_written wr_space)

lemma emits_wr_then:
  assumes "n \<le> 56" "drop_bit n v = 0" "emits f bs"
  shows "emits (\<lambda>s. f (wr n v s)) (bits_of n v @ bs)"
  unfolding emits_def
proof (intro allI impI)
  fix s assume s: "ok s" "length (bits_of n v @ bs) \<le> space s"
  then have n: "n \<le> space s" "length bs \<le> space s - n" by simp_all
  note W = wr_ok [OF s(1) assms(1) n(1) assms(2)] wr_written [OF s(1) assms(1) n(1) assms(2)]
    wr_space [OF s(1) assms(1) n(1) assms(2)]
  then have "length bs \<le> space (wr n v s)" using n by simp
  with assms(3) W(1) obtain t where "f (wr n v s) = (True, t)" "ok t"
    "written t = written (wr n v s) @ bs" "space t = space (wr n v s) - length bs"
    unfolding emits_def by blast
  with W show "\<exists>t. f (wr n v s) = (True, t) \<and> ok t \<and> written t = written s @ bits_of n v @ bs \<and>
      space t = space s - length (bits_of n v @ bs)" by simp
qed

lemma emits_seq:
  assumes "emits f bs" and "emits g cs"
  shows "emits (\<lambda>s. case f s of (b, t) \<Rightarrow> case g t of (c, u) \<Rightarrow> (b \<and> c, u)) (bs @ cs)"
  unfolding emits_def
proof (intro allI impI)
  fix s assume s: "ok s" "length (bs @ cs) \<le> space s"
  then have "length bs \<le> space s" by simp
  with assms(1) s(1) obtain t where t: "f s = (True, t)" "ok t" "written t = written s @ bs"
    "space t = space s - length bs" unfolding emits_def by blast
  then have "length cs \<le> space t" using s(2) by simp
  with assms(2) t(2) obtain u where "g t = (True, u)" "ok u" "written u = written t @ cs"
    "space u = space t - length cs" unfolding emits_def by blast
  with t show "\<exists>u. (case f s of (b, t) \<Rightarrow> case g t of (c, u) \<Rightarrow> (b \<and> c, u)) = (True, u) \<and> ok u \<and>
      written u = written s @ bs @ cs \<and> space u = space s - length (bs @ cs)"
    by simp
qed

end

definition writable :: "BitWriter \<Rightarrow> bool" where
  "writable w \<longleftrightarrow> bw_ok w \<and> pb_data (storage w) \<noteq> None"

interpretation writer: bit_sink writable room content Write
  by unfold_locales (simp_all add: writable_def Write_ok del: not_None_eq)

section \<open>Properties of the writer\<close>

text \<open>C3: Running any nested script of writes and \<open>WithMaxBits\<close> calls that respects its bounds on a new
  writer, with a memory manager that hands out blocks of arbitrary content, succeeds and yields
  exactly the bits of the script in order; each layer is charged the bits its own allotments wrote
  and no bit is charged twice: over all layers the charges add up to the bits written.\<close>

theorem WithMaxBits_scripts_correct:
  fixes aux :: "'l::finite AuxOut"
  assumes mm: "\<And>k n. \<exists>m. mm k n = Some m \<and> length m = n"
    and v: "cmd_valid (CAllot m l h cs)"
  shows "\<exists>w' aux'. run_cmd (CAllot m l h cs) (BitWriter_new mm, aux) = (kOk, w', aux') \<and>
    content w' = cmds_bits cs \<and> bw_ok w' \<and>
    aux' = cmd_charge (CAllot m l h cs) aux \<and>
    (\<Sum>k\<in>UNIV. layer_total_bits (aux' k)) = (\<Sum>k\<in>UNIV. layer_total_bits (aux k)) + length (cmds_bits cs)"
proof -
  have ok: "bw_ok (BitWriter_new mm)"
    using mm by (intro BitWriter_new_ok(1)) (metis option.inject)
  have "mm_total (BitWriter_new mm)"
    unfolding mm_total_def by (simp add: BitWriter_new_def PaddedBytes_new_def) (metis mm option.distinct(1))
  then obtain w' aux' where r: "run_cmd (CAllot m l h cs) (BitWriter_new mm, aux) = (kOk, w', aux')"
    using run_allotment_total [OF ok v] by metis
  note R = run_allotment [OF ok v r]
  have "(\<Sum>k\<in>UNIV. layer_total_bits (aux' k)) + own_bits [CAllot m l h cs] =
      (\<Sum>k\<in>UNIV. layer_total_bits (aux k)) + length (cmd_bits (CAllot m l h cs))"
    unfolding R(3) by (rule sum_charged(1))
  then show ?thesis using r R BitWriter_new_ok(2) [of mm] by simp
qed

definition junk_memory :: "nat \<Rightarrow> nat \<Rightarrow> u8 list option" where
  "junk_memory k n = Some (replicate n 0xFF)"

theorem WithMaxBits_scripts_correct_witness:
  "\<exists>w' aux'. run_cmd (CAllot 20 False True [CWrite 3 5, CAllot 40 True False [CWrite 9 0x1FF], CWrite 8 0])
      (BitWriter_new junk_memory, \<lambda>_. \<lparr>layer_total_bits = 0, layer_histogram_bits = 0\<rparr>) = (kOk, w', aux') \<and>
    content w' = [True, False, True] @ replicate 9 True @ replicate 8 False \<and>
    layer_total_bits (aux' True) = 9 \<and> layer_total_bits (aux' False) = 11"
proof -
  let ?cs = "[CWrite 3 5, CAllot 40 True False [CWrite 9 0x1FF], CWrite 8 0]"
  have "cmds_bits ?cs = [True, False, True] @ replicate 9 True @ replicate 8 False"
    by (simp add: bits_of_def upt_rec) (simp add: numeral_eq_Suc)
  moreover have "cmd_valid (CAllot 20 False True ?cs)" by simp
  moreover have "\<exists>m. junk_memory k n = Some m \<and> length m = n" for k n by (simp add: junk_memory_def)
  ultimately show ?thesis
    using WithMaxBits_scripts_correct [of junk_memory 20 False True ?cs
        "\<lambda>_. \<lparr>layer_total_bits = 0, layer_histogram_bits = 0\<rparr>"]
    by (fastforce simp: add_totals_def)
qed

text \<open>C8: A \<open>Write\<close> of at most 56 bits with room left appends exactly those bits, whatever bytes the
  buffer held after the write position, keeps the next byte's upper bits zero for the following
  write, and its eight-byte store stays inside the block.\<close>

theorem Write_correct:
  assumes "bw_ok w" and "pb_data (storage w) \<noteq> None" and "n \<le> 56" and "n \<le> room w"
    and "unat v < 2 ^ n"
  shows "content (Write n v w) = content w @ bits_of n v \<and> bw_ok (Write n v w) \<and>
    bits_written w div 8 + 8 \<le> length (pb_bytes (storage w))"
  using Write_ok [OF assms(1-4)] write_in_block [OF assms(1,2)] assms(5) by (simp add: drop_bit_0_unat)

definition small_writer :: BitWriter where
  "small_writer = \<lparr>bits_written = 3, storage = \<lparr>memory_manager = junk_memory, pb_requests = 1,
     pb_size = 2, pb_capacity = 64, pb_data = Some (5 # replicate 71 0xFF)\<rparr>, allotments = []\<rparr>"

lemma small_writer_ok:
  "bw_ok small_writer" "pb_data (storage small_writer) \<noteq> None" "room small_writer = 13"
  "content small_writer = [True, False, True]"
proof -
  have "\<not> bit (5 :: u8) i" if "3 \<le> i" for i
  proof -
    have "drop_bit 3 (5 :: u8) = 0" by simp
    then show ?thesis using drop_bit_0_bit [of 3 "5 :: u8" i] that by linarith
  qed
  then show "bw_ok small_writer" "pb_data (storage small_writer) \<noteq> None" "room small_writer = 13"
    "content small_writer = [True, False, True]"
    by (auto simp: small_writer_def bw_ok_def pb_ok_def junk_memory_def room_def content_def
        byte_bit_def pb_bytes_def upt_rec)
qed

theorem Write_correct_witness:
  "content (Write 7 0x55 small_writer) =
     [True, False, True, True, False, True, False, True, False, True]"
proof -
  have "bits_of 7 (0x55 :: u64) = [True, False, True, False, True, False, True]"
    by (simp add: bits_of_def upt_rec)
  then show ?thesis
    using Write_correct [OF small_writer_ok(1,2), of 7 "0x55"] small_writer_ok(3,4) by simp
qed

text \<open>Appending other writers: byte-aligned (bytes copied, a zero byte after them) or bit by bit
  inside a fresh allotment, the content becomes the concatenation of the contents.\<close>

theorem append_writers_correct:
  assumes "bw_ok w" and "mm_total w" and "\<forall>x \<in> set others. bw_ok x" and "bits_written w mod 8 = 0"
    and "\<forall>x \<in> set others. bits_written x mod 8 = 0" and "bw_ok y" and "0 < bits_written y"
  shows "(\<exists>w'. AppendByteAligned_writers others w = (kOk, w') \<and> bw_ok w' \<and>
      content w' = content w @ concat (map content others)) \<and>
    (\<exists>w'. AppendByteAligned d w = (kOk, w') \<and> bw_ok w' \<and> content w' = content w @ bytes_bits d) \<and>
    (\<exists>w'. AppendUnaligned l y (w, aux) = (kOk, w', aux) \<and> bw_ok w' \<and>
      content w' = content w @ content y)"
proof -
  have os: "\<forall>x \<in> set others. bw_ok x \<and> bits_written x mod 8 = 0" using assms(3,5) by blast
  have "\<exists>w'. AppendByteAligned_writers others w = (kOk, w') \<and> bw_ok w' \<and>
      content w' = content w @ concat (map content others)"
    using AppendByteAligned_writers_ok [OF assms(1,4,2) os] by metis
  moreover have "\<exists>w'. AppendByteAligned d w = (kOk, w') \<and> bw_ok w' \<and>
      content w' = content w @ bytes_bits d"
    using AppendByteAligned_ok [OF assms(1,4,2)] by metis
  moreover obtain s w' aux' where a: "AppendUnaligned l y (w, aux) = (s, w', aux')"
    by (metis prod.exhaust)
  moreover have "ran (content y) 0 id (AppendUnaligned l y) w aux"
    by (rule AppendUnaligned_ran [OF assms(1,7)])
  ultimately show ?thesis using assms(2) by (auto simp: ran_def)
qed

theorem append_writers_correct_witness:
  "\<exists>w'. AppendUnaligned () small_writer (BitWriter_new junk_memory, \<lambda>_. \<lparr>layer_total_bits = 0,
      layer_histogram_bits = 0\<rparr>) = (kOk, w', \<lambda>_. \<lparr>layer_total_bits = 0, layer_histogram_bits = 0\<rparr>) \<and>
    content w' = [True, False, True]"
proof -
  have "bw_ok (BitWriter_new junk_memory)" "content (BitWriter_new junk_memory) = []"
    by (rule BitWriter_new_ok, simp add: junk_memory_def, rule BitWriter_new_ok)
  moreover have "mm_total (BitWriter_new junk_memory)"
    by (simp add: mm_total_def BitWriter_new_def PaddedBytes_new_def junk_memory_def)
  moreover have "bits_written (BitWriter_new junk_memory) mod 8 = 0" by (simp add: BitWriter_new_def)
  moreover have "0 < bits_written small_writer" by (simp add: small_writer_def)
  ultimately show ?thesis
    using append_writers_correct [of "BitWriter_new junk_memory" "[]" small_writer _ "()"
        "\<lambda>_. \<lparr>layer_total_bits = 0, layer_histogram_bits = 0\<rparr>"] small_writer_ok by auto
qed

text \<open>Bits written are bits read: what a byte-aligned writer holds is the stream of its bytes.\<close>

lemma TakeBytes_stream:
  assumes "bw_ok w" "bits_written w mod 8 = 0"
  shows "length (TakeBytes w) = bits_written w div 8"
    "i < bits_written w \<Longrightarrow> stream_bit (TakeBytes w) i = content w ! i"
proof -
  let ?n = "DivCeil (bits_written w) 8"
  have n: "?n = bits_written w div 8" using GetSpan_ok(3) [OF assms] by simp
  have "?n \<le> pb_capacity (storage w)" using assms(1) n by (auto simp: bw_ok_def pb_ok_def)
  then have T: "TakeBytes w = GetSpan w"
    by (simp add: TakeBytes_def Let_def resize_def reserve_def GetSpan_def pb_bytes_def)
  then show len: "length (TakeBytes w) = bits_written w div 8" using GetSpan_ok(1) [OF assms] n by simp
  show "stream_bit (TakeBytes w) i = content w ! i" if "i < bits_written w"
  proof -
    have "i < 8 * length (TakeBytes w)"
      unfolding len using that assms(2) by (metis dvd_mult_div_cancel mod_0_imp_dvd)
    moreover have "bytes_bits (TakeBytes w) ! i = content w ! i"
      using GetSpan_ok(2) [OF assms] T by simp
    ultimately show ?thesis by (simp add: stream_bit_def bytes_bits_def byte_bit_def)
  qed
qed

fun field_bits :: "(nat \<times> u64) list \<Rightarrow> bool list" where
  "field_bits [] = []"
| "field_bits ((n, v) # fs) = bits_of n v @ field_bits fs"

lemma length_field_bits: "length (field_bits fs) = sum_list (map fst fs)"
  by (induction fs rule: field_bits.induct) simp_all

lemma stream_fields_field_bits:
  "\<forall>(n, v) \<in> set fs. drop_bit n v = 0 \<Longrightarrow>
   \<forall>i < length (field_bits fs). f (p + i) = field_bits fs ! i \<Longrightarrow>
   stream_fields f p (map fst fs) = map snd fs"
proof (induction fs arbitrary: p rule: field_bits.induct)
  case (2 n v fs)
  have hd: "map f [p..<p + n] = bits_of n v"
  proof (rule nth_equalityI)
    fix i assume "i < length (map f [p..<p + n])"
    then have "i < n" by simp
    then show "map f [p..<p + n] ! i = bits_of n v ! i"
      using "2.prems"(2) by (auto simp: nth_append)
  qed simp
  have "f (p + n + i) = field_bits fs ! i" if "i < length (field_bits fs)" for i
    using "2.prems"(2) that by (auto simp: nth_append add.assoc dest: spec [of _ "n + i"])
  then show ?case
    using "2.prems"(1) "2.IH" [of "p + n"] by (simp add: hd word_of_bits_bits_of_id stream_fields.simps)
qed (simp add: stream_fields.simps)

text \<open>C2: Fields written in one allotment of a new writer and taken as bytes are read back by a
  reader over those bytes, value by value, with the whole input consumed and all reads in
  bounds.\<close>

theorem writer_reader_roundtrip:
  fixes aux :: "'l AuxOut"
  assumes mm: "\<And>k n. \<exists>m. mm k n = Some m \<and> length m = n"
    and fs: "\<forall>(n, v) \<in> set fs. n \<le> 56 \<and> unat v < 2 ^ n"
    and total: "0 < sum_list (map fst fs)" "sum_list (map fst fs) mod 8 = 0"
    and run: "run_cmd (CAllot (sum_list (map fst fs)) l h (map (\<lambda>(n, v). CWrite n v) fs))
      (BitWriter_new mm, aux) = (st, w, aux')"
  shows "st = kOk \<and> fst (read_fields (map fst fs) (BitReader_new (TakeBytes w))) = map snd fs \<and>
    TotalBitsConsumed (snd (read_fields (map fst fs) (BitReader_new (TakeBytes w)))) =
      8 * length (TakeBytes w) \<and>
    fst (AllReadsWithinBounds (snd (read_fields (map fst fs) (BitReader_new (TakeBytes w)))))"
proof -
  let ?cs = "map (\<lambda>(n, v). CWrite n v) fs :: 'l cmd list"
  have d: "\<forall>(n, v) \<in> set fs. drop_bit n v = 0" using fs by (auto simp: drop_bit_0_unat)
  have own: "own_bits ?cs = sum_list (map fst fs)" by (induction fs) auto
  have "cmds_valid ?cs" using fs d by (induction fs) auto
  then have v: "cmd_valid (CAllot (sum_list (map fst fs)) l h ?cs)" using total own by simp
  have ok: "bw_ok (BitWriter_new mm)"
    using mm by (intro BitWriter_new_ok(1)) (metis option.inject)
  have "mm_total (BitWriter_new mm)"
    unfolding mm_total_def by (simp add: BitWriter_new_def PaddedBytes_new_def) (metis mm option.distinct(1))
  with run_allotment_total [OF ok v] run have st: "st = kOk" by (metis fst_conv)
  note R = run_allotment [OF ok v run [unfolded st]]
  have bits: "cmds_bits ?cs = field_bits fs" by (induction fs) auto
  then have c: "content w = field_bits fs" using R(2) BitWriter_new_ok(2) [of mm] by simp
  then have bw: "bits_written w = sum_list (map fst fs)"
    using length_content length_field_bits by metis
  note T = TakeBytes_stream [OF R(1)]
  have al: "bits_written w mod 8 = 0" using bw total by simp
  have "stream_fields (stream_bit (TakeBytes w)) 0 (map fst fs) = map snd fs"
    using T(2) [OF al] c bw length_field_bits by (intro stream_fields_field_bits [OF d]) simp
  moreover have "8 * length (TakeBytes w) = sum_list (map fst fs)"
    using T(1) [OF al] al bw by auto
  moreover have "\<forall>n \<in> set (map fst fs). n \<le> 56" using fs by auto
  note read_fields_ok [OF BitReader_new_ok(1) this, of "TakeBytes w"]
  ultimately show ?thesis using st by (simp add: AllReadsWithinBounds_iff BitReader_new_ok)
qed

theorem writer_reader_roundtrip_witness:
  "\<exists>w aux'. run_cmd (CAllot 16 () False [CWrite 3 5, CWrite 9 300, CWrite 4 0])
      (BitWriter_new junk_memory, \<lambda>_. \<lparr>layer_total_bits = 0, layer_histogram_bits = 0\<rparr>) = (kOk, w, aux') \<and>
    fst (read_fields [3, 9, 4] (BitReader_new (TakeBytes w))) = [5, 300, 0]"
proof -
  let ?fs = "[(3, 5), (9, 300), (4, 0)] :: (nat \<times> u64) list"
  obtain st w aux' where r: "run_cmd (CAllot 16 () False [CWrite 3 5, CWrite 9 300, CWrite 4 0])
      (BitWriter_new junk_memory, \<lambda>_. \<lparr>layer_total_bits = 0, layer_histogram_bits = 0\<rparr>) = (st, w, aux')"
    by (metis prod.exhaust)
  moreover have "\<exists>m. junk_memory k n = Some m \<and> length m = n" for k n by (simp add: junk_memory_def)
  ultimately have "st = kOk \<and> fst (read_fields [3, 9, 4] (BitReader_new (TakeBytes w))) = [5, 300, 0]"
    using writer_reader_roundtrip [of junk_memory ?fs "()" False
        "\<lambda>_. \<lparr>layer_total_bits = 0, layer_histogram_bits = 0\<rparr>" st w aux'] by simp
  then show ?thesis using r by blast
qed

end
