(* ===== verification/Field_Coders.thy ===== *)
theory Field_Coders
  imports Bit_Reader Bit_Writer
begin

text \<open>
  The coders of single header fields: the distributions of \<^verbatim>\<open>lib/jxl/field_encodings.h\<close>, the read
  and size half of \<^verbatim>\<open>BitsCoder\<close>, \<^verbatim>\<open>U32Coder\<close>, \<^verbatim>\<open>U64Coder\<close> and \<^verbatim>\<open>F16Coder\<close> in \<^verbatim>\<open>lib/jxl/fields.cc\<close>
  and their write half in \<^verbatim>\<open>lib/jxl/enc_fields.cc\<close>.  Each coder is shown to be a \<open>field_code\<close>: a set
  of values with one bit string each, which the writer emits, the reader parses back, and whose
  length the size function announces.
\<close>

section \<open>Distributions\<close>

text \<open>A \<^verbatim>\<open>U32Distr\<close> is one packed word: a direct value with the top bit set, or the number of
  extra bits and an offset.\<close>

type_synonym U32Distr = u32

definition kDirect :: u32 where "kDirect = 0x80000000"

definition IsDirect :: "U32Distr \<Rightarrow> bool" where
  "IsDirect d \<longleftrightarrow> d AND kDirect \<noteq> 0"

definition Direct :: "U32Distr \<Rightarrow> u32" where
  "Direct d = d AND (kDirect - 1)"

definition ExtraBits :: "U32Distr \<Rightarrow> nat" where
  "ExtraBits d = unat (d AND 0x1F) + 1"

definition Offset :: "U32Distr \<Rightarrow> u32" where
  "Offset d = drop_bit 5 d AND 0x3FFFFFF"

definition Val :: "u32 \<Rightarrow> U32Distr" where
  "Val value = value OR kDirect"

definition BitsOffset :: "u32 \<Rightarrow> u32 \<Rightarrow> U32Distr" where
  "BitsOffset bits offset = ((bits - 1) AND 0x1F) + push_bit 5 (offset AND 0x3FFFFFF)"

definition Bits :: "u32 \<Rightarrow> U32Distr" where
  "Bits bits = BitsOffset bits 0"

datatype U32Enc = U32Enc U32Distr U32Distr U32Distr U32Distr

fun GetDistr :: "U32Enc \<Rightarrow> u32 \<Rightarrow> U32Distr" where
  "GetDistr (U32Enc d0 d1 d2 d3) selector =
     (if selector = 0 then d0 else if selector = 1 then d1 else if selector = 2 then d2 else d3)"

section \<open>BitsCoder\<close>

definition BitsCoder_CanEncode :: "nat \<Rightarrow> u32 \<Rightarrow> bool \<times> nat" where
  "BitsCoder_CanEncode bits value = (\<not> (2 ^ bits \<le> unat value), bits)"

definition BitsCoder_Read :: "nat \<Rightarrow> BitReader \<Rightarrow> u32 \<times> BitReader" where
  "BitsCoder_Read bits reader = (case ReadBits bits reader of (v, reader) \<Rightarrow> (ucast v, reader))"

definition BitsCoder_Write :: "nat \<Rightarrow> u32 \<Rightarrow> BitWriter \<Rightarrow> bool \<times> BitWriter" where
  "BitsCoder_Write bits value writer =
     (if 2 ^ bits \<le> unat value then (False, writer) else (True, Write bits (ucast value) writer))"

section \<open>U32Coder\<close>

definition U32Coder_MaxEncodedBits :: "U32Enc \<Rightarrow> nat" where
  "U32Coder_MaxEncodedBits enc =
     2 + fold (\<lambda>selector extra_bits.
           let d = GetDistr enc selector
           in if IsDirect d then extra_bits else max extra_bits (ExtraBits d)) [0, 1, 2, 3] 0"

text \<open>The loop of \<^verbatim>\<open>ChooseSelector\<close> over the selectors, with the best selector and size so far; a
  direct value ends it at once.\<close>

fun ChooseSelector_loop :: "U32Enc \<Rightarrow> u32 \<Rightarrow> u32 list \<Rightarrow> u32 \<Rightarrow> nat \<Rightarrow> u32 \<times> nat" where
  "ChooseSelector_loop enc value [] selector total_bits = (selector, total_bits)"
| "ChooseSelector_loop enc value (s # ss) selector total_bits =
     (let d = GetDistr enc s in
      if IsDirect d then
        if Direct d = value then (s, 2) else ChooseSelector_loop enc value ss selector total_bits
      else
        let extra_bits = ExtraBits d;
            offset = Offset d
        in if value < offset \<or> unat offset + 2 ^ extra_bits \<le> unat value
           then ChooseSelector_loop enc value ss selector total_bits
           else if 2 + extra_bits < total_bits
           then ChooseSelector_loop enc value ss s (2 + extra_bits)
           else ChooseSelector_loop enc value ss selector total_bits)"

definition ChooseSelector :: "U32Enc \<Rightarrow> u32 \<Rightarrow> (u32 \<times> nat) outcome" where
  "ChooseSelector enc value =
     (case ChooseSelector_loop enc value [0, 1, 2, 3] 0 64 of
        (selector, total_bits) \<Rightarrow>
          if total_bits = 64 then Inl kGenericError else Inr (selector, total_bits))"

definition U32Coder_CanEncode :: "U32Enc \<Rightarrow> u32 \<Rightarrow> bool \<times> nat" where
  "U32Coder_CanEncode enc value =
     (case ChooseSelector enc value of
        Inl _ \<Rightarrow> (False, 0)
      | Inr (_, total_bits) \<Rightarrow> (True, total_bits))"

text \<open>The sum is taken in 64 bits and returned as 32.\<close>

definition U32Coder_Read :: "U32Enc \<Rightarrow> BitReader \<Rightarrow> u32 \<times> BitReader" where
  "U32Coder_Read enc reader =
     (case ReadBits 2 reader of
        (selector, reader) \<Rightarrow>
          let d = GetDistr enc (ucast selector)
          in if IsDirect d then (Direct d, reader)
             else case ReadBits (ExtraBits d) reader of
               (v, reader) \<Rightarrow> (ucast (v + ucast (Offset d)), reader))"

definition U32Coder_Write :: "U32Enc \<Rightarrow> u32 \<Rightarrow> BitWriter \<Rightarrow> bool \<times> BitWriter" where
  "U32Coder_Write enc value writer =
     (case ChooseSelector enc value of
        Inl _ \<Rightarrow> (False, writer)
      | Inr (selector, total_bits) \<Rightarrow>
          let writer = Write 2 (ucast selector) writer;
              d = GetDistr enc selector
          in if \<not> IsDirect d then
               let offset = Offset d
               in if \<not> offset \<le> value then (False, writer)
                  else (True, Write (total_bits - 2) (ucast (value - offset)) writer)
             else (True, writer))"

section \<open>U64Coder\<close>

definition U64Coder_MaxEncodedBits :: nat where
  "U64Coder_MaxEncodedBits = 2 + 12 + 6 * (8 + 1) + (4 + 1)"

text \<open>The varint loop of \<^verbatim>\<open>U64Coder::Read\<close>: it ends when a continuation bit is 0 or with the four
  bits at shift 60.  Every turn adds 8 to the shift, which starts at 12, so seven turns reach 60;
  \<open>U64Coder_Read_fuel\<close> shows that more fuel changes nothing.\<close>

fun U64Coder_Read_loop :: "nat \<Rightarrow> nat \<Rightarrow> u64 \<Rightarrow> BitReader \<Rightarrow> u64 \<times> BitReader" where
  "U64Coder_Read_loop 0 shift result reader = (result, reader)"
| "U64Coder_Read_loop (Suc fuel) shift result reader =
     (case ReadBits 1 reader of
        (go_on, reader) \<Rightarrow>
          if go_on = 0 then (result, reader)
          else if shift = 60 then
            case ReadBits 4 reader of (v, reader) \<Rightarrow> (result OR push_bit shift v, reader)
          else
            case ReadBits 8 reader of
              (v, reader) \<Rightarrow> U64Coder_Read_loop fuel (shift + 8) (result OR push_bit shift v) reader)"

definition U64Coder_Read :: "BitReader \<Rightarrow> u64 \<times> BitReader" where
  "U64Coder_Read reader =
     (case ReadBits 2 reader of
        (selector, reader) \<Rightarrow>
          if selector = 0 then (0, reader)
          else if selector = 1 then
            case ReadBits 4 reader of (v, reader) \<Rightarrow> (1 + v, reader)
          else if selector = 2 then
            case ReadBits 8 reader of (v, reader) \<Rightarrow> (17 + v, reader)
          else
            case ReadBits 12 reader of
              (result, reader) \<Rightarrow> U64Coder_Read_loop 7 12 result reader)"

function U64Coder_CanEncode_loop :: "u64 \<Rightarrow> nat \<Rightarrow> nat \<Rightarrow> u64 \<times> nat" where
  "U64Coder_CanEncode_loop value shift encoded_bits =
     (if value > 0 \<and> shift < 60
      then U64Coder_CanEncode_loop (drop_bit 8 value) (shift + 8) (encoded_bits + (1 + 8))
      else (value, encoded_bits))"
  by pat_completeness auto
termination by (relation "measure (\<lambda>(value, shift, e). 60 - shift)") auto

declare U64Coder_CanEncode_loop.simps [simp del]

definition U64Coder_CanEncode :: "u64 \<Rightarrow> bool \<times> nat" where
  "U64Coder_CanEncode value =
     (if value = 0 then (True, 2)
      else if value \<le> 16 then (True, 2 + 4)
      else if value \<le> 272 then (True, 2 + 8)
      else case U64Coder_CanEncode_loop (drop_bit 12 value) 12 (2 + 12) of
        (value, encoded_bits) \<Rightarrow>
          (True, if value > 0 then encoded_bits + (1 + 4) else encoded_bits + 1))"

function U64Coder_Write_loop :: "u64 \<Rightarrow> nat \<Rightarrow> BitWriter \<Rightarrow> u64 \<times> BitWriter" where
  "U64Coder_Write_loop value shift writer =
     (if value > 0 \<and> shift < 60
      then U64Coder_Write_loop (drop_bit 8 value) (shift + 8)
             (Write 8 (value AND 255) (Write 1 1 writer))
      else (value, writer))"
  by pat_completeness auto
termination by (relation "measure (\<lambda>(value, shift, w). 60 - shift)") auto

declare U64Coder_Write_loop.simps [simp del]

definition U64Coder_Write :: "u64 \<Rightarrow> BitWriter \<Rightarrow> bool \<times> BitWriter" where
  "U64Coder_Write value writer =
     (if value = 0 then (True, Write 2 0 writer)
      else if value \<le> 16 then (True, Write 4 (value - 1) (Write 2 1 writer))
      else if value \<le> 272 then (True, Write 8 (value - 17) (Write 2 2 writer))
      else case U64Coder_Write_loop (drop_bit 12 value) 12
                  (Write 12 (value AND 4095) (Write 2 3 writer)) of
        (value, writer) \<Rightarrow>
          if value > 0 then (True, Write 4 (value AND 15) (Write 1 1 writer))
          else (True, Write 1 0 writer))"

section \<open>F16Coder\<close>

text \<open>
  A \<^verbatim>\<open>float\<close> is its IEEE 754 binary32 bit pattern.  The only arithmetic is in the subnormal branch
  of \<open>Read\<close>, \<^verbatim>\<open>(1.0f / 16384) * (mantissa * (1.0f / 1024))\<close>: all factors but the mantissa are powers
  of two and the mantissa has at most ten bits, so both products are exact and the result is the
  float with value \<open>mantissa * 2^-24\<close>.
\<close>

definition float_scaled_24 :: "u32 \<Rightarrow> u32" where
  "float_scaled_24 mantissa =
     (if mantissa = 0 then 0
      else let k = FloorLog2Nonzero (unat mantissa)
           in push_bit 23 (of_nat (k + 127 - 24)) OR push_bit (23 - k) (mantissa - push_bit k 1))"

definition F16_decode :: "u32 \<Rightarrow> u32 outcome" where
  "F16_decode bits16 =
     (let sign = drop_bit 15 bits16;
          biased_exp = drop_bit 10 bits16 AND 0x1F;
          mantissa = bits16 AND 0x3FF
      in if biased_exp = 31 then Inl kGenericError
         else if biased_exp = 0 then
           Inr (if sign \<noteq> 0 then float_scaled_24 mantissa XOR 0x80000000
                else float_scaled_24 mantissa)
         else
           let biased_exp32 = biased_exp + (127 - 15);
               mantissa32 = push_bit (23 - 10) mantissa
           in Inr (push_bit 31 sign OR push_bit 23 biased_exp32 OR mantissa32))"

definition F16Coder_Read :: "BitReader \<Rightarrow> u32 outcome \<times> BitReader" where
  "F16Coder_Read reader =
     (case ReadBits 16 reader of (bits16, reader) \<Rightarrow> (F16_decode (ucast bits16), reader))"

text \<open>NaN and infinity have exponent 255; \<open>0x477FE000\<close> is \<open>65504.0f\<close>, and magnitudes of finite floats
  are ordered as their bit patterns.\<close>

definition F16Coder_CanEncode :: "u32 \<Rightarrow> bool \<times> nat" where
  "F16Coder_CanEncode value =
     (if drop_bit 23 value AND 0xFF = 0xFF then (False, 16)
      else (value AND 0x7FFFFFFF \<le> 0x477FE000, 16))"

definition F16_encode :: "u32 \<Rightarrow> u32 outcome" where
  "F16_encode bits32 =
     (let sign = drop_bit 31 bits32;
          biased_exp32 = drop_bit 23 bits32 AND 0xFF;
          mantissa32 = bits32 AND 0x7FFFFF;
          exp = int (unat biased_exp32) - 127
      in if exp > 15 then Inl kGenericError
         else if exp < -24 then Inr 0
         else
           let (biased_exp16, mantissa16) =
             (if exp < -14 then
                let sub_exp = nat (-14 - exp)
                in (0, push_bit (10 - sub_exp) 1 + drop_bit (13 + sub_exp) mantissa32)
              else (of_int (exp + 15), drop_bit 13 mantissa32));
             bits16 = push_bit 15 sign OR push_bit 10 biased_exp16 OR mantissa16
           in if \<not> mantissa16 < 1024 \<or> \<not> bits16 < 0x10000 then Inl kGenericError
              else Inr bits16)"

definition F16Coder_Write :: "u32 \<Rightarrow> BitWriter \<Rightarrow> bool \<times> BitWriter" where
  "F16Coder_Write value writer =
     (case F16_encode value of
        Inl _ \<Rightarrow> (False, writer)
      | Inr bits16 \<Rightarrow> (True, Write 16 (ucast bits16) writer))"

section \<open>Every bit string begins some stream\<close>

definition bytes_of_bits :: "bool list \<Rightarrow> u8 list" where
  "bytes_of_bits bs = map (\<lambda>k. word_of_bits (take 8 (drop (8 * k) bs))) [0..<DivCeil (length bs) 8]"

lemma stream_of_bits: "begins (stream_bit (bytes_of_bits bs)) bs"
  unfolding begins_def
proof (intro allI impI)
  fix i assume i: "i < length bs"
  have "length bs \<le> 8 * DivCeil (length bs) 8" using DivCeil_bounds [of 8 "length bs"] by simp
  then have "i < 8 * DivCeil (length bs) 8" using i by linarith
  moreover then have "i div 8 < DivCeil (length bs) 8" by (simp add: less_mult_imp_div_less mult.commute)
  moreover have "8 * (i div 8) + i mod 8 = i" by simp
  moreover from this have "i mod 8 < length bs - 8 * (i div 8)" using i by linarith
  ultimately show "stream_bit (bytes_of_bits bs) i = bs ! i"
    using i by (simp add: stream_bit_def bytes_of_bits_def bit_word_of_bits)
qed

lemma reader_of_bits: "br_ok (BitReader_new (bytes_of_bits bs))"
  "begins (upcoming (BitReader_new (bytes_of_bits bs))) bs"
  by (simp_all add: BitReader_new_ok stream_of_bits)

section \<open>The contract of a field coder\<close>

locale field_code =
  fixes encodable :: "'v \<Rightarrow> bool"
    and code :: "'v \<Rightarrow> bool list"
    and can_encode :: "'v \<Rightarrow> bool \<times> nat"
    and wrt :: "'v \<Rightarrow> BitWriter \<Rightarrow> bool \<times> BitWriter"
    and rdr :: "BitReader \<Rightarrow> 'v \<times> BitReader"
  assumes wrt_emits: "encodable v \<Longrightarrow> writer.emits (wrt v) (code v)"
    and rdr_parses: "encodable v \<Longrightarrow> reader.parses rdr (code v) v"
    and size_exact: "encodable v \<Longrightarrow> can_encode v = (True, length (code v))"
begin

text \<open>The code is uniquely decodable: no code word is a prefix of another one.\<close>

lemma prefix_free:
  assumes "encodable v" "encodable w" "code v @ xs = code w @ ys"
  shows "v = w"
proof -
  let ?s = "BitReader_new (bytes_of_bits (code v @ xs))"
  have s: "br_ok ?s" "begins (upcoming ?s) (code v @ xs)" by (rule reader_of_bits)+
  then have v: "begins (upcoming ?s) (code v)" and w: "begins (upcoming ?s) (code w)"
    using assms(3) begins_append by metis+
  from rdr_parses [OF assms(1)] s(1) v obtain t where "rdr ?s = (v, t)" by (rule reader.parsesD)
  moreover from rdr_parses [OF assms(2)] s(1) w obtain u where "rdr ?s = (w, u)"
    by (rule reader.parsesD)
  ultimately show ?thesis by simp
qed

text \<open>What was written is read back, and the writer used exactly the announced bits.\<close>

lemma roundtrip:
  assumes "encodable v" and "writable w" and "snd (can_encode v) \<le> room w"
    and "br_ok s" and "begins (upcoming s) (content (snd (wrt v w)))"
    and "TotalBitsConsumed s = 0"
  shows "fst (wrt v w) \<and> bits_written (snd (wrt v w)) = bits_written w + snd (can_encode v) \<and>
    fst (rdr (SkipBits (bits_written w) s)) = v"
proof -
  have len: "length (code v) \<le> room w" using assms(1,3) size_exact by simp
  with wrt_emits [OF assms(1)] assms(2) obtain t where
    t: "wrt v w = (True, t)" "content t = content w @ code v" unfolding writer.emits_def by blast
  then have "begins (upcoming s) (content w @ code v)" using assms(5) by simp
  then have "begins (\<lambda>i. upcoming s (bits_written w + i)) (code v)"
    using begins_append length_content by metis
  moreover have "upcoming (SkipBits (bits_written w) s) = (\<lambda>i. upcoming s (bits_written w + i))"
    using SkipBits_ok(3) [OF assms(4)] by (intro ext)
  ultimately obtain u where "rdr (SkipBits (bits_written w) s) = (v, u)"
    using rdr_parses [OF assms(1)] SkipBits_ok(1) [OF assms(4)] reader.parsesD by metis
  moreover have "bits_written t = bits_written w + length (code v)"
    using t(2) length_content by (metis length_append)
  ultimately show ?thesis using t(1) size_exact [OF assms(1)] by simp
qed

end

section \<open>BitsCoder is a field code\<close>

lemma u32_fits: "drop_bit n (ucast (v :: u32) :: u64) = 0 \<longleftrightarrow> unat v < 2 ^ n"
  by (simp add: drop_bit_0_unat)

lemma BitsCoder_Read_eq: "BitsCoder_Read n = (\<lambda>s. case ReadBits n s of (x, t) \<Rightarrow> (ucast x, t))"
  by (rule ext) (simp add: BitsCoder_Read_def)

interpretation bits_code: field_code "\<lambda>v. unat v < 2 ^ n \<and> n \<le> 56"
  "\<lambda>v. bits_of n (ucast v :: u64)" "BitsCoder_CanEncode n" "BitsCoder_Write n" "BitsCoder_Read n" for n
proof (unfold_locales, goal_cases)
  case (1 v)
  then have "BitsCoder_Write n v = (\<lambda>s. (True, Write n (ucast v) s))"
    by (intro ext) (simp add: BitsCoder_Write_def)
  then show ?case using 1 writer.emits_wr [of n "ucast v"] u32_fits by simp
next
  case (2 v)
  then have "reader.parses (ReadBits n) (bits_of n (ucast v :: u64)) (ucast v)"
    by (intro reader.parses_rd) (simp_all add: u32_fits)
  from reader.parses_bind_return [OF this, of "ucast :: u64 \<Rightarrow> u32"]
  show ?case by (simp add: BitsCoder_Read_eq)
next
  case (3 v)
  then show ?case by (simp add: BitsCoder_CanEncode_def)
qed

section \<open>U32Coder\<close>

text \<open>The size of a value under one selector, if the selector can represent it.\<close>

definition selector_cost :: "U32Enc \<Rightarrow> u32 \<Rightarrow> u32 \<Rightarrow> nat option" where
  "selector_cost enc value s =
     (let d = GetDistr enc s in
      if IsDirect d then (if Direct d = value then Some 2 else None)
      else if Offset d \<le> value \<and> unat value < unat (Offset d) + 2 ^ ExtraBits d
      then Some (2 + ExtraBits d) else None)"

lemma ExtraBits_bounds: "0 < ExtraBits d" "ExtraBits d \<le> 32"
proof -
  have "unat (d AND 0x1F) \<le> unat (0x1F :: u32)"
    using word_and_le1 [of d "0x1F"] word_le_nat_alt by blast
  then show "0 < ExtraBits d" "ExtraBits d \<le> 32" by (simp_all add: ExtraBits_def)
qed

lemma selector_cost_bounds: "selector_cost enc value s = Some c \<Longrightarrow> 2 \<le> c \<and> c < 64"
  using ExtraBits_bounds(2) [of "GetDistr enc s"]
  by (auto simp: selector_cost_def Let_def split: if_splits)

lemma ChooseSelector_loop_spec:
  assumes "ChooseSelector_loop enc v ss selector tot = (s', t')" and "2 \<le> tot"
  shows "(s' = selector \<and> t' = tot \<or> s' \<in> set ss \<and> selector_cost enc v s' = Some t') \<and>
    t' \<le> tot \<and> (\<forall>s \<in> set ss. \<forall>c. selector_cost enc v s = Some c \<longrightarrow> t' \<le> c)"
  using assms
proof (induction enc v ss selector tot rule: ChooseSelector_loop.induct)
  case (2 enc v s ss selector tot)
  define d where "d = GetDistr enc s"
  consider (hit) "IsDirect d" "Direct d = v"
    | (better) "\<not> IsDirect d" "Offset d \<le> v" "unat v < unat (Offset d) + 2 ^ ExtraBits d"
        "2 + ExtraBits d < tot"
    | (worse) "\<not> IsDirect d" "Offset d \<le> v" "unat v < unat (Offset d) + 2 ^ ExtraBits d"
        "tot \<le> 2 + ExtraBits d"
    | (miss) "if IsDirect d then Direct d \<noteq> v
        else v < Offset d \<or> unat (Offset d) + 2 ^ ExtraBits d \<le> unat v"
    by (metis not_le)
  then show ?case
  proof cases
    case hit
    then have "s' = s" "t' = 2" using "2.prems" by (auto simp: d_def Let_def)
    then show ?thesis using hit "2.prems"(2) selector_cost_bounds [of enc v]
      by (auto simp: selector_cost_def d_def Let_def)
  next
    case better
    then have "ChooseSelector_loop enc v ss s (2 + ExtraBits d) = (s', t')"
      using "2.prems"(1) by (auto simp: d_def Let_def split: if_splits dest: leD)
    moreover have "\<not> (v < Offset d \<or> unat (Offset d) + 2 ^ ExtraBits d \<le> unat v)"
      using better by auto
    ultimately have "(s' = s \<and> t' = 2 + ExtraBits d \<or> s' \<in> set ss \<and> selector_cost enc v s' = Some t') \<and>
      t' \<le> 2 + ExtraBits d \<and> (\<forall>s \<in> set ss. \<forall>c. selector_cost enc v s = Some c \<longrightarrow> t' \<le> c)"
      using "2.IH"(3) [OF d_def _ refl refl] better(1,4) by simp
    moreover have "selector_cost enc v s = Some (2 + ExtraBits d)"
      using better by (simp add: selector_cost_def d_def Let_def)
    ultimately show ?thesis using better(4) by auto
  next
    case worse
    then have "ChooseSelector_loop enc v ss selector tot = (s', t')"
      using "2.prems"(1) by (auto simp: d_def Let_def split: if_splits dest: leD)
    moreover have "\<not> (v < Offset d \<or> unat (Offset d) + 2 ^ ExtraBits d \<le> unat v)"
      using worse by auto
    ultimately have "(s' = selector \<and> t' = tot \<or> s' \<in> set ss \<and> selector_cost enc v s' = Some t') \<and>
      t' \<le> tot \<and> (\<forall>s \<in> set ss. \<forall>c. selector_cost enc v s = Some c \<longrightarrow> t' \<le> c)"
      using "2.IH"(4) [OF d_def _ refl refl] worse(1,4) "2.prems"(2) by simp
    moreover have "selector_cost enc v s = Some (2 + ExtraBits d)"
      using worse by (simp add: selector_cost_def d_def Let_def)
    ultimately show ?thesis using worse(4) by auto
  next
    case miss
    then have l: "ChooseSelector_loop enc v ss selector tot = (s', t')"
      using "2.prems"(1) by (auto simp: d_def Let_def split: if_splits)
    have "(s' = selector \<and> t' = tot \<or> s' \<in> set ss \<and> selector_cost enc v s' = Some t') \<and>
      t' \<le> tot \<and> (\<forall>s \<in> set ss. \<forall>c. selector_cost enc v s = Some c \<longrightarrow> t' \<le> c)"
    proof (cases "IsDirect d")
      case True
      then show ?thesis using "2.IH"(1) [OF d_def] miss l "2.prems"(2) by simp
    next
      case False
      then show ?thesis using "2.IH"(2) [OF d_def _ refl refl] miss l "2.prems"(2) by simp
    qed
    moreover have "selector_cost enc v s = None"
      using miss by (auto simp: selector_cost_def d_def Let_def split: if_splits)
    ultimately show ?thesis by auto
  qed
qed simp

lemma ChooseSelector_spec:
  "case ChooseSelector enc v of
     Inl e \<Rightarrow> e = kGenericError \<and> (\<forall>s \<in> {0, 1, 2, 3}. selector_cost enc v s = None)
   | Inr (s, n) \<Rightarrow> s \<in> {0, 1, 2, 3} \<and> selector_cost enc v s = Some n \<and>
       (\<forall>s \<in> {0, 1, 2, 3}. \<forall>c. selector_cost enc v s = Some c \<longrightarrow> n \<le> c)"
proof -
  obtain s n where l: "ChooseSelector_loop enc v [0, 1, 2, 3] 0 64 = (s, n)" by fastforce
  have spec: "(s = 0 \<and> n = 64 \<or> s \<in> {0, 1, 2, 3} \<and> selector_cost enc v s = Some n) \<and> n \<le> 64 \<and>
      (\<forall>s \<in> {0, 1, 2, 3}. \<forall>c. selector_cost enc v s = Some c \<longrightarrow> n \<le> c)"
    using ChooseSelector_loop_spec [OF l] by simp
  show ?thesis
  proof (cases "n = 64")
    case True
    have "selector_cost enc v s = None" if "s \<in> {0, 1, 2, 3}" for s
      using spec True that selector_cost_bounds [of enc v s] by (cases "selector_cost enc v s") fastforce+
    then show ?thesis using l True by (simp add: ChooseSelector_def)
  next
    case False
    then show ?thesis using l spec by (simp add: ChooseSelector_def)
  qed
qed

definition U32_code :: "U32Enc \<Rightarrow> u32 \<Rightarrow> bool list" where
  "U32_code enc v =
     (case ChooseSelector enc v of
        Inl _ \<Rightarrow> []
      | Inr (s, n) \<Rightarrow> bits_of 2 (ucast s :: u64) @
          (if IsDirect (GetDistr enc s) then []
           else bits_of (n - 2) (ucast (v - Offset (GetDistr enc s)) :: u64)))"

lemma ucast_plus_u32: "(ucast (a + b :: u64) :: u32) = ucast a + ucast b"
proof -
  have "take_bit 32 (take_bit 64 x + take_bit 64 y) = take_bit 32 (x + y)" for x y :: int
    using take_bit_add [of 32 "take_bit 64 x" "take_bit 64 y"] take_bit_add [of 32 x y] by simp
  then show ?thesis by transfer simp
qed

lemma U32_selected:
  assumes "ChooseSelector enc v = Inr (s, n)"
  shows "unat s < 2 ^ 2"
    "IsDirect (GetDistr enc s) \<Longrightarrow> Direct (GetDistr enc s) = v \<and> n = 2"
    "\<not> IsDirect (GetDistr enc s) \<Longrightarrow> Offset (GetDistr enc s) \<le> v \<and> n = 2 + ExtraBits (GetDistr enc s) \<and>
       unat (v - Offset (GetDistr enc s)) < 2 ^ ExtraBits (GetDistr enc s)"
proof -
  note C = ChooseSelector_spec [of enc v, unfolded assms, simplified]
  then show "unat s < 2 ^ 2" by auto
  show "IsDirect (GetDistr enc s) \<Longrightarrow> Direct (GetDistr enc s) = v \<and> n = 2"
    using C by (auto simp: selector_cost_def Let_def split: if_splits)
  assume d: "\<not> IsDirect (GetDistr enc s)"
  then have c: "Offset (GetDistr enc s) \<le> v"
    "unat v < unat (Offset (GetDistr enc s)) + 2 ^ ExtraBits (GetDistr enc s)"
    "n = 2 + ExtraBits (GetDistr enc s)"
    using C by (auto simp: selector_cost_def Let_def split: if_splits)
  have "unat (v - Offset (GetDistr enc s)) = unat v - unat (Offset (GetDistr enc s))"
    using c(1) by (rule unat_sub)
  moreover have "unat (Offset (GetDistr enc s)) \<le> unat v" using c(1) by (simp add: word_le_nat_alt)
  ultimately show "Offset (GetDistr enc s) \<le> v \<and> n = 2 + ExtraBits (GetDistr enc s) \<and>
       unat (v - Offset (GetDistr enc s)) < 2 ^ ExtraBits (GetDistr enc s)"
    using c by linarith
qed

lemma U32_write:
  assumes "ChooseSelector enc v = Inr (s, n)"
  shows "writer.emits (U32Coder_Write enc v) (U32_code enc v)"
proof -
  let ?d = "GetDistr enc s"
  note S = U32_selected [OF assms]
  have sel: "writer.emits (\<lambda>w. (True, Write 2 (ucast s) w)) (bits_of 2 (ucast s :: u64))"
    using S(1) by (intro writer.emits_wr) (simp_all add: u32_fits)
  show ?thesis
  proof (cases "IsDirect ?d")
    case True
    with sel assms show ?thesis by (simp add: U32Coder_Write_def [abs_def] U32_code_def Let_def)
  next
    case False
    let ?v = "ucast (v - Offset ?d) :: u64"
    have n: "n - 2 \<le> 56" "drop_bit (n - 2) ?v = 0" "Offset ?d \<le> v"
      using S(3) [OF False] ExtraBits_bounds(2) [of ?d] by (auto simp: u32_fits)
    have "writer.emits (\<lambda>w. (True, Write (n - 2) ?v w)) (bits_of (n - 2) ?v)"
      using n by (intro writer.emits_wr)
    from writer.emits_seq [OF sel this] show ?thesis
      using False assms n(3) by (simp add: U32Coder_Write_def [abs_def] U32_code_def Let_def)
  qed
qed

lemma U32_read:
  assumes "ChooseSelector enc v = Inr (s, n)"
  shows "reader.parses (U32Coder_Read enc) (U32_code enc v) v"
proof -
  let ?d = "GetDistr enc s"
  note S = U32_selected [OF assms]
  have sel: "reader.parses (ReadBits 2) (bits_of 2 (ucast s :: u64)) (ucast s)"
    using S(1) by (intro reader.parses_rd) (simp_all add: u32_fits)
  define q where "q = (\<lambda>(selector :: u64) reader.
    let d = GetDistr enc (ucast selector)
    in if IsDirect d then (Direct d, reader)
       else case ReadBits (ExtraBits d) reader of
         (v, reader) \<Rightarrow> (ucast (v + ucast (Offset d)) :: u32, reader))"
  have R: "U32Coder_Read enc = (\<lambda>s. case ReadBits 2 s of (x, t) \<Rightarrow> q x t)"
    by (rule ext) (simp add: U32Coder_Read_def q_def)
  show ?thesis
  proof (cases "IsDirect ?d")
    case True
    then have "q (ucast s) = (\<lambda>t. (v, t))" using S(2) by (simp add: q_def)
    then have "reader.parses (q (ucast s)) [] v" using reader.parses_return by simp
    from reader.parses_bind [where q = q and cs = "[]", OF sel this] True assms
    show ?thesis by (simp add: R U32_code_def)
  next
    case False
    let ?v = "ucast (v - Offset ?d) :: u64"
    have n: "n - 2 = ExtraBits ?d" "drop_bit (ExtraBits ?d) ?v = 0" "ExtraBits ?d \<le> 56"
      using S(3) [OF False] ExtraBits_bounds(2) [of ?d] by (auto simp: u32_fits)
    have "reader.parses (ReadBits (ExtraBits ?d)) (bits_of (ExtraBits ?d) ?v) ?v"
      using n by (intro reader.parses_rd)
    from reader.parses_bind_return [OF this, of "\<lambda>v. ucast (v + ucast (Offset ?d)) :: u32"]
    have "reader.parses (q (ucast s)) (bits_of (ExtraBits ?d) ?v) v"
      using False by (simp add: q_def ucast_plus_u32 Let_def)
    from reader.parses_bind [where q = q, OF sel this] show ?thesis
      using False assms n(1) by (simp add: R U32_code_def)
  qed
qed

interpretation u32_code: field_code "\<lambda>v. \<exists>r. ChooseSelector enc v = Inr r" "U32_code enc"
  "U32Coder_CanEncode enc" "U32Coder_Write enc" "U32Coder_Read enc" for enc
proof (unfold_locales, goal_cases)
  case (1 v)
  then show ?case using U32_write by auto
next
  case (2 v)
  then show ?case using U32_read by auto
next
  case (3 v)
  then obtain s n where c: "ChooseSelector enc v = Inr (s, n)" by auto
  then show ?case
    using U32_selected(2,3) [OF c] by (auto simp: U32Coder_CanEncode_def U32_code_def)
qed

section \<open>U64Coder\<close>

lemma U64Coder_Read_fuel:
  "shift + 8 * k = 60 \<Longrightarrow>
   U64Coder_Read_loop (Suc k + n) shift result r = U64Coder_Read_loop (Suc k) shift result r"
proof (induction k arbitrary: shift result r)
  case 0
  then show ?case by (auto split: prod.splits)
next
  case (Suc k)
  then show ?case by (auto split: prod.splits)
qed

declare U64Coder_Read_loop.simps [simp del]

text \<open>The bits after the first twelve of a varint.\<close>

function U64_tail :: "u64 \<Rightarrow> nat \<Rightarrow> bool list" where
  "U64_tail v shift =
     (if v > 0 then
        if shift < 60
        then bits_of 1 (1 :: u64) @ bits_of 8 (v AND 255) @ U64_tail (drop_bit 8 v) (shift + 8)
        else bits_of 1 (1 :: u64) @ bits_of 4 (v AND 15)
      else bits_of 1 (0 :: u64))"
  by pat_completeness auto
termination by (relation "measure (\<lambda>(v, shift). 60 - shift)") auto

declare U64_tail.simps [simp del]

definition U64_code :: "u64 \<Rightarrow> bool list" where
  "U64_code v =
     (if v = 0 then bits_of 2 (0 :: u64)
      else if v \<le> 16 then bits_of 2 (1 :: u64) @ bits_of 4 (v - 1)
      else if v \<le> 272 then bits_of 2 (2 :: u64) @ bits_of 8 (v - 17)
      else bits_of 2 (3 :: u64) @ bits_of 12 (v AND 4095) @ U64_tail (drop_bit 12 v) 12)"

lemma drop_bit_mask:
  "drop_bit 8 (v AND 255 :: u64) = 0" "drop_bit 4 (v AND 15 :: u64) = 0"
  "drop_bit 12 (v AND 4095 :: u64) = 0"
proof -
  have "drop_bit n (v AND mask n :: u64) = 0" for n
    by (rule bit_eqI) (simp add: bit_drop_bit_eq bit_and_iff bit_mask_iff)
  from this [of 8] this [of 4] this [of 12] show "drop_bit 8 (v AND 255 :: u64) = 0"
    "drop_bit 4 (v AND 15 :: u64) = 0" "drop_bit 12 (v AND 4095 :: u64) = 0"
    by (simp_all add: mask_eq_exp_minus_1)
qed

lemma U64_range:
  "v \<noteq> 0 \<Longrightarrow> v \<le> 16 \<Longrightarrow> drop_bit 4 (v - 1 :: u64) = 0"
  "\<not> v \<le> 16 \<Longrightarrow> v \<le> 272 \<Longrightarrow> drop_bit 8 (v - 17 :: u64) = 0"
  unfolding drop_bit_0_unat by unat_arith+

lemma U64_tail_write:
  "writer.emits (\<lambda>w. case U64Coder_Write_loop v shift w of (v, w) \<Rightarrow>
       if v > 0 then (True, Write 4 (v AND 15) (Write 1 1 w)) else (True, Write 1 0 w))
     (U64_tail v shift)"
proof (induction v shift rule: U64_tail.induct)
  case (1 v shift)
  have one: "drop_bit 1 (1 :: u64) = 0" by (simp add: drop_bit_0_unat)
  consider (more) "v > 0" "shift < 60" | (last) "v > 0" "\<not> shift < 60" | (stop) "\<not> v > 0" by blast
  then show ?case
  proof cases
    case more
    from writer.emits_wr_then [OF _ one writer.emits_wr_then [OF _ drop_bit_mask(1) "1.IH" [OF more]]]
    show ?thesis
      using more by (simp add: U64_tail.simps [of v] U64Coder_Write_loop.simps [of v])
  next
    case last
    have "writer.emits (\<lambda>w. (True, Write 4 (v AND 15) (Write 1 1 w)))
      (bits_of 1 (1 :: u64) @ bits_of 4 (v AND 15))"
      using writer.emits_wr_then [OF _ one writer.emits_wr [of 4 "v AND 15"]] by (simp add: drop_bit_mask)
    then show ?thesis using last by (simp add: U64_tail.simps [of v] U64Coder_Write_loop.simps [of v])
  next
    case stop
    then show ?thesis using writer.emits_wr [of 1 0]
      by (simp add: U64_tail.simps [of v] U64Coder_Write_loop.simps [of v])
  qed
qed

lemma U64_tail_size:
  "(case U64Coder_CanEncode_loop v shift e of (v, e) \<Rightarrow> if v > 0 then e + (1 + 4) else e + 1) =
     e + length (U64_tail v shift)"
proof (induction v shift arbitrary: e rule: U64_tail.induct)
  case (1 v shift)
  then show ?case
    by (cases "v > 0 \<and> shift < 60")
      (auto simp: U64_tail.simps [of v] U64Coder_CanEncode_loop.simps [of v])
qed

lemma and_mask_eq_take_15: "v AND 15 = take_bit 4 (v :: u64)"
  by (simp add: take_bit_eq_mask mask_eq_exp_minus_1)

lemma varint_join:
  "(result OR push_bit shift (v AND 255)) OR push_bit (shift + 8) (drop_bit 8 v) =
     result OR push_bit shift (v :: u64)"
proof -
  have mask: "v AND 255 = take_bit 8 v" by (simp add: take_bit_eq_mask mask_eq_exp_minus_1)
  show ?thesis unfolding mask
  proof (rule bit_eqI)
    fix n assume "possible_bit TYPE(64 word) n"
    then have n: "n < 64" by simp
    consider "n < shift" | "shift \<le> n" "n < shift + 8" | "shift + 8 \<le> n" by linarith
    then show "bit ((result OR push_bit shift (take_bit 8 v)) OR push_bit (shift + 8) (drop_bit 8 v)) n =
        bit (result OR push_bit shift v) n"
      by cases (use n in \<open>auto simp: bit_or_iff bit_push_bit_iff bit_drop_bit_eq bit_take_bit_iff\<close>)
  qed
qed

lemma varint_first: "(v AND 4095) OR push_bit 12 (drop_bit 12 v) = (v :: u64)"
proof -
  have "v AND 4095 = take_bit 12 v" by (simp add: take_bit_eq_mask mask_eq_exp_minus_1)
  then show ?thesis
  proof (simp, intro bit_eqI)
    fix n assume "possible_bit TYPE(64 word) n"
    then show "bit (take_bit 12 v OR push_bit 12 (drop_bit 12 v)) n = bit v n"
      by (cases "n < 12") (simp_all add: bit_or_iff bit_push_bit_iff bit_drop_bit_eq bit_take_bit_iff)
  qed
qed

lemma U64_tail_read:
  assumes "shift + 8 * k = 60" and "drop_bit (64 - shift) v = 0"
  shows "reader.parses (U64Coder_Read_loop (Suc k) shift result) (U64_tail v shift)
    (result OR push_bit shift v)"
  using assms
proof (induction k arbitrary: shift v result)
  case 0
  then have shift: "shift = 60" and v4: "drop_bit 4 v = 0" by simp_all
  have one: "drop_bit 1 (1 :: u64) = 0" by (simp add: drop_bit_0_unat)
  define q where "q = (\<lambda>(go_on :: u64) r. if go_on = 0 then (result, r)
    else case ReadBits 4 r of (v, r) \<Rightarrow> (result OR push_bit 60 v, r))"
  have L: "U64Coder_Read_loop (Suc 0) 60 result = (\<lambda>r. case ReadBits 1 r of (x, t) \<Rightarrow> q x t)"
    by (intro ext) (auto simp: q_def shift U64Coder_Read_loop.simps split: prod.splits)
  show ?case
  proof (cases "v = 0")
    case True
    have "q 0 = (\<lambda>r. (result, r))" by (simp add: q_def)
    then have "reader.parses (q 0) [] result" using reader.parses_return by simp
    from reader.parses_rd_then [where q = q, OF _ _ this, of 1] True show ?thesis
      by (simp add: L U64_tail.simps [of 0] shift)
  next
    case False
    then have pos: "v > 0" by (simp add: word_neq_0_conv)
    have and15: "v AND 15 = v"
      using v4 by (metis and_mask_eq_take_15 take_bit_eq_self_iff_drop_bit_eq_0)
    have "reader.parses (ReadBits 4) (bits_of 4 v) v" using v4 by (intro reader.parses_rd) simp_all
    from reader.parses_bind_return [OF this, of "\<lambda>v. result OR push_bit 60 v"]
    have "reader.parses (q 1) (bits_of 4 v) (result OR push_bit 60 v)" by (simp add: q_def)
    from reader.parses_rd_then [where q = q, OF _ one this] pos and15 shift show ?thesis
      by (simp add: L U64_tail.simps [of v])
  qed
next
  case (Suc k)
  then have shift: "shift < 60" "shift + 8 + 8 * k = 60" by simp_all
  have one: "drop_bit 1 (1 :: u64) = 0" by (simp add: drop_bit_0_unat)
  define q2 where "q2 = (\<lambda>v. U64Coder_Read_loop (Suc k) (shift + 8) (result OR push_bit shift v))"
  define q where "q = (\<lambda>(go_on :: u64) r. if go_on = 0 then (result, r)
    else case ReadBits 8 r of (v, r) \<Rightarrow> q2 v r)"
  have L: "U64Coder_Read_loop (Suc (Suc k)) shift result = (\<lambda>r. case ReadBits 1 r of (x, t) \<Rightarrow> q x t)"
    using shift(1) by (intro ext) (auto simp: q_def q2_def U64Coder_Read_loop.simps(2) split: prod.splits)
  show ?case
  proof (cases "v = 0")
    case True
    have "q 0 = (\<lambda>r. (result, r))" by (simp add: q_def)
    then have "reader.parses (q 0) [] result" using reader.parses_return by simp
    from reader.parses_rd_then [where q = q, OF _ _ this, of 1] True show ?thesis
      by (simp add: L U64_tail.simps [of 0])
  next
    case False
    then have pos: "v > 0" by (simp add: word_neq_0_conv)
    have "drop_bit (64 - (shift + 8)) (drop_bit 8 v) = drop_bit (64 - shift) v"
      using shift by (simp add: drop_bit_drop_bit)
    then have "drop_bit (64 - (shift + 8)) (drop_bit 8 v) = 0" using Suc.prems(2) by simp
    from Suc.IH [OF shift(2) this, of "result OR push_bit shift (v AND 255)"]
    have "reader.parses (q2 (v AND 255)) (U64_tail (drop_bit 8 v) (shift + 8))
      (result OR push_bit shift v)" unfolding q2_def varint_join .
    from reader.parses_rd_then [where q = q2, OF _ drop_bit_mask(1) this]
    have "reader.parses (q 1) (bits_of 8 (v AND 255) @ U64_tail (drop_bit 8 v) (shift + 8))
      (result OR push_bit shift v)" by (simp add: q_def)
    from reader.parses_rd_then [where q = q, OF _ one this] pos shift show ?thesis
      by (simp add: L U64_tail.simps [of v])
  qed
qed

lemma U64_write: "writer.emits (U64Coder_Write v) (U64_code v)"
proof -
  have sel: "drop_bit 2 (1 :: u64) = 0" "drop_bit 2 (2 :: u64) = 0" "drop_bit 2 (3 :: u64) = 0"
    by (simp_all add: drop_bit_0_unat)
  consider (zero) "v = 0" | (four) "v \<noteq> 0" "v \<le> 16" | (eight) "\<not> v \<le> 16" "v \<le> 272"
    | (varint) "\<not> v \<le> 16" "\<not> v \<le> 272" by blast
  then show ?thesis
  proof cases
    case zero
    then show ?thesis using writer.emits_wr [of 2 0] by (simp add: U64Coder_Write_def [abs_def] U64_code_def)
  next
    case four
    from writer.emits_wr_then [OF _ sel(1) writer.emits_wr [OF _ U64_range(1) [OF four]]] four
    show ?thesis by (simp add: U64Coder_Write_def [abs_def] U64_code_def)
  next
    case eight
    from writer.emits_wr_then [OF _ sel(2) writer.emits_wr [OF _ U64_range(2) [OF eight]]] eight
    show ?thesis by (auto simp: U64Coder_Write_def [abs_def] U64_code_def)
  next
    case varint
    from writer.emits_wr_then [OF _ sel(3) writer.emits_wr_then [OF _ drop_bit_mask(3)
        U64_tail_write [of "drop_bit 12 v" 12]]] varint
    show ?thesis
      by (auto simp: U64Coder_Write_def [abs_def] U64_code_def)
  qed
qed

lemma U64_read: "reader.parses U64Coder_Read (U64_code v) v"
proof -
  have sel: "drop_bit 2 (0 :: u64) = 0" "drop_bit 2 (1 :: u64) = 0" "drop_bit 2 (2 :: u64) = 0"
    "drop_bit 2 (3 :: u64) = 0"
    by (simp_all add: drop_bit_0_unat)
  define q3 where "q3 = U64Coder_Read_loop 7 12"
  define q where "q = (\<lambda>(selector :: u64) reader.
    if selector = 0 then (0, reader)
    else if selector = 1 then case ReadBits 4 reader of (v, reader) \<Rightarrow> (1 + v, reader)
    else if selector = 2 then case ReadBits 8 reader of (v, reader) \<Rightarrow> (17 + v, reader)
    else case ReadBits 12 reader of (result, reader) \<Rightarrow> q3 result reader)"
  have R: "U64Coder_Read = (\<lambda>s. case ReadBits 2 s of (x, t) \<Rightarrow> q x t)"
    unfolding U64Coder_Read_def q_def q3_def ..
  consider (zero) "v = 0" | (four) "v \<noteq> 0" "v \<le> 16" | (eight) "\<not> v \<le> 16" "v \<le> 272"
    | (varint) "\<not> v \<le> 16" "\<not> v \<le> 272" by blast
  then show ?thesis
  proof cases
    case zero
    have "q 0 = (\<lambda>r. (0, r))" by (simp add: q_def)
    then have "reader.parses (q 0) [] 0" using reader.parses_return by simp
    from reader.parses_rd_then [where q = q, OF _ sel(1) this] zero show ?thesis
      by (simp add: R U64_code_def)
  next
    case four
    have "reader.parses (ReadBits 4) (bits_of 4 (v - 1)) (v - 1)"
      using U64_range(1) [OF four] by (intro reader.parses_rd) simp_all
    from reader.parses_bind_return [OF this, of "\<lambda>v. 1 + v"]
    have "reader.parses (q 1) (bits_of 4 (v - 1)) v" by (simp add: q_def)
    from reader.parses_rd_then [where q = q, OF _ sel(2) this] four show ?thesis
      by (simp add: R U64_code_def)
  next
    case eight
    have "reader.parses (ReadBits 8) (bits_of 8 (v - 17)) (v - 17)"
      using U64_range(2) [OF eight] by (intro reader.parses_rd) simp_all
    from reader.parses_bind_return [OF this, of "\<lambda>v. 17 + v"]
    have "reader.parses (q 2) (bits_of 8 (v - 17)) v" by (simp add: q_def)
    from reader.parses_rd_then [where q = q, OF _ sel(3) this] eight show ?thesis
      by (auto simp: R U64_code_def)
  next
    case varint
    have "drop_bit (64 - 12) (drop_bit 12 v) = 0"
      by (rule bit_eqI) (auto simp: bit_drop_bit_eq dest: bit_imp_le_length)
    from U64_tail_read [of 12 6 "drop_bit 12 v" "v AND 4095", OF _ this]
    have "reader.parses (q3 (v AND 4095)) (U64_tail (drop_bit 12 v) 12) v"
      by (simp add: q3_def varint_first)
    from reader.parses_rd_then [where q = q3, OF _ drop_bit_mask(3) this]
    have "reader.parses (q 3) (bits_of 12 (v AND 4095) @ U64_tail (drop_bit 12 v) 12) v"
      by (simp add: q_def)
    from reader.parses_rd_then [where q = q, OF _ sel(4) this] varint show ?thesis
      by (auto simp: R U64_code_def)
  qed
qed

interpretation u64_code: field_code "\<lambda>_. True" U64_code U64Coder_CanEncode U64Coder_Write U64Coder_Read
proof (unfold_locales, goal_cases)
  case (1 v)
  then show ?case using U64_write by simp
next
  case (2 v)
  then show ?case using U64_read by simp
next
  case (3 v)
  then show ?case
    using U64_tail_size [of "drop_bit 12 v" 12 "2 + 12"]
    by (auto simp: U64Coder_CanEncode_def U64_code_def split: prod.splits)
qed

section \<open>F16Coder\<close>

text \<open>A word assembled from a sign, an exponent and a mantissa field comes apart again.\<close>

lemma fields32:
  fixes s E M :: u32
  assumes "unat s < 2 ^ 1" "unat E < 2 ^ 8" "unat M < 2 ^ 23"
  shows "drop_bit 31 (push_bit 31 s OR push_bit 23 E OR M) = s"
    "drop_bit 23 (push_bit 31 s OR push_bit 23 E OR M) AND 0xFF = E"
    "(push_bit 31 s OR push_bit 23 E OR M) AND 0x7FFFFF = M"
proof -
  have bits: "bit s i \<Longrightarrow> i < 1" "bit E i \<Longrightarrow> i < 8" "bit M i \<Longrightarrow> i < 23" for i
    using assms drop_bit_0_bit drop_bit_0_unat by blast+
  have mask: "x AND 0xFF = take_bit 8 x" "x AND 0x7FFFFF = take_bit 23 x" for x :: u32
    by (simp_all add: take_bit_eq_mask mask_eq_exp_minus_1)
  show "drop_bit 31 (push_bit 31 s OR push_bit 23 E OR M) = s"
    using bits by (intro bit_eqI) (fastforce simp: bit_drop_bit_eq bit_or_iff bit_push_bit_iff dest: bit_imp_le_length)
  show "drop_bit 23 (push_bit 31 s OR push_bit 23 E OR M) AND 0xFF = E" unfolding mask
    using bits by (intro bit_eqI) (fastforce simp: bit_drop_bit_eq bit_or_iff bit_push_bit_iff bit_take_bit_iff)
  show "(push_bit 31 s OR push_bit 23 E OR M) AND 0x7FFFFF = M" unfolding mask
    using bits by (intro bit_eqI) (fastforce simp: bit_or_iff bit_push_bit_iff bit_take_bit_iff)
qed

lemma fields16:
  fixes h :: u32
  assumes "unat h < 2 ^ 16"
  shows "h = push_bit 15 (drop_bit 15 h) OR push_bit 10 (drop_bit 10 h AND 0x1F) OR (h AND 0x3FF)"
    "unat (drop_bit 15 h) < 2 ^ 1" "unat (drop_bit 10 h AND 0x1F) < 2 ^ 5" "unat (h AND 0x3FF) < 2 ^ 10"
proof -
  have bits: "bit h i \<Longrightarrow> i < 16" for i using assms drop_bit_0_bit drop_bit_0_unat by blast
  have mask: "x AND 0x1F = take_bit 5 x" "x AND 0x3FF = take_bit 10 x" for x :: u32
    by (simp_all add: take_bit_eq_mask mask_eq_exp_minus_1)
  show "h = push_bit 15 (drop_bit 15 h) OR push_bit 10 (drop_bit 10 h AND 0x1F) OR (h AND 0x3FF)"
    unfolding mask
  proof (rule bit_eqI)
    fix n assume "possible_bit TYPE(32 word) n"
    then have n: "n < 32" by simp
    consider "n < 10" | "10 \<le> n" "n < 15" | "15 \<le> n" by linarith
    then show "bit h n = bit (push_bit 15 (drop_bit 15 h) OR push_bit 10 (take_bit 5 (drop_bit 10 h)) OR
        take_bit 10 h) n"
      using n by cases (auto simp: bit_drop_bit_eq bit_or_iff bit_push_bit_iff bit_take_bit_iff)
  qed
  show "unat (drop_bit 15 h) < 2 ^ 1" "unat (drop_bit 10 h AND 0x1F) < 2 ^ 5"
    "unat (h AND 0x3FF) < 2 ^ 10" unfolding mask drop_bit_0_unat [symmetric]
    using bits by (intro bit_eqI; force simp: bit_drop_bit_eq bit_take_bit_iff)+
qed

lemma magnitude32:
  fixes s E M :: u32
  assumes "unat s < 2 ^ 1" "unat E < 2 ^ 8" "unat M < 2 ^ 23"
  shows "unat ((push_bit 31 s OR push_bit 23 E OR M) AND 0x7FFFFFFF) = unat E * 2 ^ 23 + unat M"
proof -
  have bits: "bit s i \<Longrightarrow> i < 1" "bit E i \<Longrightarrow> i < 8" "bit M i \<Longrightarrow> i < 23" for i
    using assms drop_bit_0_bit drop_bit_0_unat by blast+
  have mask: "x AND 0x7FFFFFFF = take_bit 31 x" for x :: u32
    by (simp add: take_bit_eq_mask mask_eq_exp_minus_1)
  have "(push_bit 31 s OR push_bit 23 E OR M) AND 0x7FFFFFFF = push_bit 23 E OR M" unfolding mask
    using bits by (intro bit_eqI) (fastforce simp: bit_or_iff bit_push_bit_iff bit_take_bit_iff)
  also have "\<dots> = push_bit 23 E + M"
    using bits by (intro disjunctive_add_eq_or [symmetric] bit_eqI)
      (fastforce simp: bit_and_iff bit_push_bit_iff)
  finally show ?thesis
    using assms by (simp add: push_bit_eq_mult unat_word_ariths)
qed

lemma F16_normal:
  assumes h: "unat h < 2 ^ 16" and e: "drop_bit 10 h AND 0x1F \<noteq> 31" "drop_bit 10 h AND 0x1F \<noteq> 0"
  obtains v where "F16_decode h = Inr v" "F16_encode v = Inr h" "F16Coder_CanEncode v = (True, 16)"
proof -
  define s where "s = drop_bit 15 h"
  define e where "e = drop_bit 10 h AND 0x1F"
  define m where "m = h AND 0x3FF"
  note F = fields16 [OF h, folded s_def e_def m_def]
  have e': "unat e < 31" "0 < unat e"
    using F(3) e unfolding e_def [symmetric] by (auto simp: word_unat_eq_iff)
  let ?E = "e + (127 - 15)" and ?M = "push_bit 13 m :: u32"
  have E: "unat ?E = unat e + 112" using e'(1) by (simp add: unat_word_ariths)
  have M: "unat ?M < 2 ^ 23"
    using F(4) by (simp add: push_bit_eq_mult unat_word_ariths)
  have Mm: "drop_bit 13 ?M = m"
    using F(4) drop_bit_0_unat [of 10 m] drop_bit_0_bit [of 10 m]
    by (intro bit_eqI) (fastforce simp: bit_drop_bit_eq bit_push_bit_iff)
  define v where "v = push_bit 31 s OR push_bit 23 ?E OR ?M"
  have E8: "unat ?E < 2 ^ 8" using E e' by simp
  note V = fields32 [OF F(2) E8 M, folded v_def]
  have d: "F16_decode h = Inr v" using assms(2,3) by (simp add: F16_decode_def Let_def s_def e_def m_def v_def)
  have small: "m < 1024" "h < 0x10000" using F(4) h by (simp_all add: word_less_nat_alt)
  have exp: "int (unat (drop_bit 23 v AND 0xFF)) - 127 = int (unat e) - 15"
    unfolding V(2) E by simp
  have cond: "\<not> int (unat e) - 15 > 15" "\<not> int (unat e) - 15 < -24" "\<not> int (unat e) - 15 < -14"
    using e' by linarith+
  have oi: "of_int (int (unat e) - 15 + 15) = e" by simp
  have "F16_encode v = (if \<not> m < 1024 \<or> \<not> h < 0x10000 then Inl kGenericError else Inr h)"
    unfolding F16_encode_def Let_def exp V(1,3) Mm if_not_P [OF cond(1)] if_not_P [OF cond(2)]
      if_not_P [OF cond(3)] prod.case oi
    unfolding F(1) [symmetric] ..
  then have "F16_encode v = Inr h" using small by simp
  moreover have "unat (v AND 0x7FFFFFFF) \<le> 0x477FE000"
  proof -
    have "unat ?M \<le> 1023 * 2 ^ 13" using F(4) by (simp add: push_bit_eq_mult unat_word_ariths)
    then show ?thesis
      unfolding v_def magnitude32 [OF F(2) E8 M] E using e' by simp
  qed
  moreover have "drop_bit 23 v AND 0xFF \<noteq> 0xFF" unfolding V(2) word_unat_eq_iff E using e' by simp
  ultimately have "F16_encode v = Inr h" "F16Coder_CanEncode v = (True, 16)"
    by (simp_all add: F16Coder_CanEncode_def word_le_nat_alt)
  then show ?thesis using that d by blast
qed

lemma drop_push_bit: "drop_bit n (x :: u32) = 0 \<Longrightarrow> n + k \<le> 32 \<Longrightarrow> drop_bit k (push_bit k x) = x"
  using drop_bit_0_bit [of n x]
  by (intro bit_eqI) (fastforce simp: bit_drop_bit_eq bit_push_bit_iff)

lemma sign_xor:
  assumes "unat x < 2 ^ 31" and "unat s < 2 ^ 1"
  shows "(if s \<noteq> 0 then x XOR 0x80000000 else x) = push_bit 31 s OR (x :: u32)"
proof (cases "s = 0")
  case False
  then have "s = 1" using assms(2) by (simp add: word_unat_eq_iff)
  moreover have "x AND push_bit 31 1 = 0"
    using assms(1) drop_bit_0_bit [of 31 x] drop_bit_0_unat [of 31 x]
    by (intro bit_eqI) (fastforce simp: bit_and_iff bit_push_bit_iff bit_1_iff simp del: push_bit_of_1)
  ultimately show ?thesis using disjunctive_xor_eq_or [of x "push_bit 31 1"] by (simp add: or.commute)
qed simp

lemma F16_subnormal:
  assumes h: "unat h < 2 ^ 16" and e: "drop_bit 10 h AND 0x1F = 0" and nz: "h AND 0x3FF \<noteq> 0"
  obtains v where "F16_decode h = Inr v" "F16_encode v = Inr h" "F16Coder_CanEncode v = (True, 16)"
proof -
  define s where "s = drop_bit 15 h"
  define m where "m = h AND 0x3FF"
  define k where "k = FloorLog2Nonzero (unat m)"
  define x where "x = m - push_bit k 1"
  note F = fields16 [OF h, unfolded e, folded s_def m_def]
  have m0: "0 < unat m" using nz by (simp add: m_def word_unat_eq_iff)
  have K: "2 ^ k \<le> unat m" "unat m < 2 ^ Suc k"
    using FloorLog2Nonzero_bounds [OF m0] by (simp_all add: k_def)
  then have "(2::nat) ^ k < 2 ^ 10" using F(4) by linarith
  then have k: "k < 10" using power_less_imp_less_exp [of "2::nat" k 10] by simp
  have "(2::nat) ^ k < 2 ^ 32" using k by (intro power_strict_increasing) auto
  then have "(2::nat) ^ k mod 2 ^ 32 = 2 ^ k" by (rule mod_less)
  then have p: "unat (push_bit k (1 :: u32)) = 2 ^ k"
    by (simp add: unsigned_push_bit_eq take_bit_eq_mod del: push_bit_of_1)
  have x: "unat x < 2 ^ k" "m = push_bit k 1 + x"
    using K p by (simp_all add: x_def unat_sub word_le_nat_alt)
  let ?E = "of_nat (k + 103) :: u32" and ?M = "push_bit (23 - k) x"
  have E: "unat ?E = k + 103" unfolding unsigned_of_nat using k by (simp add: take_bit_nat_eq_self)
  then have E8: "unat ?E < 2 ^ 8" using k by simp
  have split: "(2::nat) ^ 23 = 2 ^ k * 2 ^ (23 - k)" using k by (simp flip: power_add)
  have "unat x * 2 ^ (23 - k) < 2 ^ 23" unfolding split using x(1) by simp
  moreover from this have "unat ?M = unat x * 2 ^ (23 - k)"
    unfolding unsigned_push_bit_eq
    by (simp add: push_bit_eq_mult [of _ "unat x"] take_bit_nat_eq_self)
  ultimately have M: "unat ?M < 2 ^ 23" by simp
  define v where "v = push_bit 31 s OR push_bit 23 ?E OR ?M"
  note V = fields32 [OF F(2) E8 M, folded v_def]
  note mag = magnitude32 [OF F(2) E8 M, folded v_def]
  have "unat (push_bit 23 ?E OR ?M) < 2 ^ 31"
  proof -
    have "unat ((push_bit 31 0 OR push_bit 23 ?E OR ?M) AND 0x7FFFFFFF) = unat ?E * 2 ^ 23 + unat ?M"
      by (rule magnitude32 [OF _ E8 M]) simp
    moreover have "bit (push_bit 23 ?E OR ?M) i \<Longrightarrow> i < 31" for i
      using E8 M drop_bit_0_bit [of 8 ?E "i - 23"] drop_bit_0_bit [of 23 ?M i] drop_bit_0_unat
      by (fastforce simp: bit_or_iff bit_push_bit_iff)
    then have "\<not> bit (push_bit 23 ?E OR ?M) (31 + i)" for i by (meson not_add_less1)
    then have "drop_bit 31 (push_bit 23 ?E OR ?M) = 0"
      by (intro bit_eqI) (simp add: bit_drop_bit_eq bit_or_iff)
    then show ?thesis by (simp only: drop_bit_0_unat)
  qed
  note sx = sign_xor [OF this F(2)]
  have "k + 127 - 24 = k + 103" "m \<noteq> 0" using nz by (simp_all add: m_def)
  then have fs: "float_scaled_24 m = push_bit 23 ?E OR ?M"
    unfolding float_scaled_24_def Let_def k_def [symmetric] x_def by presburger
  have "F16_decode h = Inr v"
    unfolding F16_decode_def Let_def e s_def [symmetric] m_def [symmetric] fs sx v_def by simp
  moreover have "F16_encode v = Inr h"
  proof -
    have exp: "int (unat (drop_bit 23 v AND 0xFF)) - 127 = int k - 24"
      unfolding V(2) E by simp
    have cond: "\<not> int k - 24 > 15" "\<not> int k - 24 < -24" "int k - 24 < -14" using k by linarith+
    have sub: "nat (-14 - (int k - 24)) = 10 - k" using k by linarith
    have "drop_bit k x = 0" using x(1) by (simp only: drop_bit_0_unat)
    then have "drop_bit (13 + (10 - k)) ?M = x" using k drop_push_bit [of k x "23 - k"] by simp
    moreover have "10 - (10 - k) = k" using k by simp
    ultimately have mant: "push_bit (10 - (10 - k)) 1 + drop_bit (13 + (10 - k)) ?M = m" using x(2) by simp
    have "F16_encode v = (if \<not> m < 1024 \<or> \<not> h < 0x10000 then Inl kGenericError else Inr h)"
      unfolding F16_encode_def Let_def exp V(1,3) if_not_P [OF cond(1)] if_not_P [OF cond(2)]
        if_P [OF cond(3)] prod.case sub mant
      unfolding F(1) [symmetric] ..
    moreover have "m < 1024" "h < 0x10000" using F(4) h by (simp_all add: word_less_nat_alt)
    ultimately show ?thesis by simp
  qed
  moreover have "drop_bit 23 v AND 0xFF \<noteq> 0xFF" unfolding V(2) word_unat_eq_iff E using k by simp
  moreover have "unat (v AND 0x7FFFFFFF) \<le> 0x477FE000" unfolding mag E using k M by simp
  ultimately show ?thesis using that by (simp add: F16Coder_CanEncode_def word_le_nat_alt)
qed

lemma F16_zero: "F16_decode 0 = Inr 0" "F16_encode 0 = Inr 0" "F16Coder_CanEncode 0 = (True, 16)"
  by (simp_all add: F16_decode_def F16_encode_def float_scaled_24_def F16Coder_CanEncode_def)

section \<open>Properties of the field coders\<close>

text \<open>A half float is decoded to a float that is encoded back to it.\<close>

lemma F16_half:
  assumes "unat h < 2 ^ 16" and "drop_bit 10 h AND 0x1F \<noteq> 31" and "h \<noteq> 0x8000"
  shows "\<exists>v. F16_decode h = Inr v \<and> F16Coder_CanEncode v = (True, 16) \<and>
    writer.emits (F16Coder_Write v) (bits_of 16 (ucast h :: u64)) \<and>
    reader.parses F16Coder_Read (bits_of 16 (ucast h :: u64)) (Inr v)"
proof -
  have "\<exists>v. F16_decode h = Inr v \<and> F16_encode v = Inr h \<and> F16Coder_CanEncode v = (True, 16)"
  proof (cases "drop_bit 10 h AND 0x1F = 0")
    case False
    then show ?thesis using F16_normal [OF assms(1,2)] by metis
  next
    case e: True
    show ?thesis
    proof (cases "h AND 0x3FF = 0")
      case False
      then show ?thesis using F16_subnormal [OF assms(1) e] by metis
    next
      case True
      note F = fields16 [OF assms(1), unfolded e True]
      then have "h = push_bit 15 (drop_bit 15 h)" by simp
      moreover have "drop_bit 15 h = 0 \<or> drop_bit 15 h = 1"
        using F(2) by (auto simp: word_unat_eq_iff)
      ultimately have "h = 0" using assms(3) by auto
      then show ?thesis using F16_zero by blast
    qed
  qed
  then obtain v where v: "F16_decode h = Inr v" "F16_encode v = Inr h" "F16Coder_CanEncode v = (True, 16)"
    by blast
  have d: "drop_bit 16 (ucast h :: u64) = 0" using assms(1) by (simp only: u32_fits)
  have "writer.emits (F16Coder_Write v) (bits_of 16 (ucast h :: u64))"
    using writer.emits_wr [OF _ d] v(2) by (simp add: F16Coder_Write_def [abs_def])
  moreover have "F16Coder_Read = (\<lambda>s. case ReadBits 16 s of (x, t) \<Rightarrow> (F16_decode (ucast x), t))"
    by (rule ext) (simp add: F16Coder_Read_def)
  then have "reader.parses F16Coder_Read (bits_of 16 (ucast h :: u64)) (Inr v)"
    using reader.parses_bind_return [OF reader.parses_rd [OF _ d], of "\<lambda>x. F16_decode (ucast x)"] v(1)
    by simp
  ultimately show ?thesis using v by blast
qed

text \<open>C7: Every finite half-precision pattern but minus zero survives decoding to a \<open>float\<close> and encoding
  again, the float is accepted by \<open>CanEncode\<close>, and the coders agree on 16 bits: writing the float
  emits exactly the pattern and reading the pattern yields the float.  (Minus zero is written as
  plus zero.)\<close>

theorem F16Coder_roundtrip:
  assumes "unat h < 2 ^ 16" and "drop_bit 10 h AND 0x1F \<noteq> 31" and "h \<noteq> 0x8000"
  shows "\<exists>v. F16_decode h = Inr v \<and> F16Coder_CanEncode v = (True, 16) \<and>
    writer.emits (F16Coder_Write v) (bits_of 16 (ucast h :: u64)) \<and>
    reader.parses F16Coder_Read (bits_of 16 (ucast h :: u64)) (Inr v)"
  using assms by (rule F16_half)

theorem F16Coder_roundtrip_witness:
  "\<exists>v. F16_decode 0x3C00 = Inr v \<and>
     reader.parses F16Coder_Read (bits_of 16 (0x3C00 :: u64)) (Inr v)"
  using F16Coder_roundtrip [of "0x3C00"] by auto

text \<open>C6: \<open>ChooseSelector\<close> fails exactly for the values that no selector represents; otherwise its
  selector represents the value with the fewest bits among all four, \<open>CanEncode\<close> announces them, and
  \<open>Write\<close> and \<open>Read\<close> agree on a code of exactly that many bits.\<close>

theorem U32Coder_optimal_roundtrip:
  "case ChooseSelector enc v of
     Inl e \<Rightarrow> e = kGenericError \<and> (\<forall>s \<in> {0, 1, 2, 3}. selector_cost enc v s = None) \<and>
       fst (U32Coder_CanEncode enc v) = False \<and> (\<forall>w. U32Coder_Write enc v w = (False, w))
   | Inr (s, n) \<Rightarrow> selector_cost enc v s = Some n \<and>
       (\<forall>s \<in> {0, 1, 2, 3}. \<forall>c. selector_cost enc v s = Some c \<longrightarrow> n \<le> c) \<and>
       U32Coder_CanEncode enc v = (True, n) \<and> length (U32_code enc v) = n \<and>
       n \<le> U32Coder_MaxEncodedBits enc \<and>
       writer.emits (U32Coder_Write enc v) (U32_code enc v) \<and>
       reader.parses (U32Coder_Read enc) (U32_code enc v) v"
proof (cases "ChooseSelector enc v")
  case (Inl e)
  then show ?thesis using ChooseSelector_spec [of enc v]
    by (simp add: U32Coder_CanEncode_def U32Coder_Write_def)
next
  case (Inr r)
  then obtain s n where c: "ChooseSelector enc v = Inr (s, n)" by (cases r) simp
  note S = U32_selected [OF c]
  have s: "s \<in> {0, 1, 2, 3}" using ChooseSelector_spec [of enc v] c by simp
  have "U32Coder_CanEncode enc v = (True, n)" "length (U32_code enc v) = n"
    using c S(2,3) by (auto simp: U32Coder_CanEncode_def U32_code_def)
  moreover have "n \<le> U32Coder_MaxEncodedBits enc"
    using s S(2,3) by (auto simp: U32Coder_MaxEncodedBits_def Let_def)
  ultimately show ?thesis using ChooseSelector_spec [of enc v] c U32_write [OF c] U32_read [OF c] by simp
qed

theorem U32Coder_optimal_roundtrip_witness:
  "U32Coder_CanEncode (U32Enc (Val 0) (BitsOffset 1 1) (BitsOffset 2 3) (BitsOffset 8 8)) 5 = (True, 4) \<and>
   length (U32_code (U32Enc (Val 0) (BitsOffset 1 1) (BitsOffset 2 3) (BitsOffset 8 8)) 5) = 4"
proof -
  let ?enc = "U32Enc (Val 0) (BitsOffset 1 1) (BitsOffset 2 3) (BitsOffset 8 8)"
  have "ChooseSelector ?enc 5 = Inr (2, 4)" by code_simp
  then show ?thesis using U32Coder_optimal_roundtrip [of ?enc 5] by simp
qed

lemma U64_tail_length: "shift + 8 * k = 60 \<Longrightarrow> length (U64_tail v shift) \<le> 9 * k + 5"
proof (induction k arbitrary: shift v)
  case 0
  then show ?case by (simp add: U64_tail.simps [of v])
next
  case (Suc k)
  then have "length (U64_tail (drop_bit 8 v) (shift + 8)) \<le> 9 * k + 5" by (intro Suc.IH) simp
  then show ?case by (simp add: U64_tail.simps [of v])
qed

text \<open>C5: Every 64-bit value has a code that \<open>U64Coder::Write\<close> emits, that \<open>Read\<close> parses back to
  the value, whose length is what \<open>CanEncode\<close> announces and never exceeds \<open>MaxEncodedBits\<close>; the
  seven turns of the varint loop always suffice, whatever the input holds; and no code word is a
  prefix of another.\<close>

theorem U64Coder_total_roundtrip:
  "writer.emits (U64Coder_Write v) (U64_code v) \<and>
   reader.parses U64Coder_Read (U64_code v) v \<and>
   U64Coder_CanEncode v = (True, length (U64_code v)) \<and>
   length (U64_code v) \<le> U64Coder_MaxEncodedBits \<and>
   (\<forall>n br. U64Coder_Read_loop (7 + n) 12 v br = U64Coder_Read_loop 7 12 v br) \<and>
   (\<forall>w xs ys. U64_code v @ xs = U64_code w @ ys \<longrightarrow> v = w)"
proof -
  have "length (U64_code v) \<le> U64Coder_MaxEncodedBits"
    using U64_tail_length [of 12 6 "drop_bit 12 v"] by (simp add: U64_code_def U64Coder_MaxEncodedBits_def)
  moreover have "U64Coder_Read_loop (7 + n) 12 v br = U64Coder_Read_loop 7 12 v br" for n br
    using U64Coder_Read_fuel [of 12 6 n v br] by simp
  ultimately show ?thesis
    using U64_write U64_read u64_code.size_exact [of v] u64_code.prefix_free [of v] by blast
qed

theorem U64Coder_total_roundtrip_witness:
  "reader.parses U64Coder_Read (U64_code 1000000) 1000000 \<and> length (U64_code 1000000) = 24 \<and>
   (\<forall>xs ys. U64_code 1000000 @ xs \<noteq> U64_code 5 @ ys)"
proof -
  have "length (U64_code 1000000) = 24" by code_simp
  moreover have "(1000000 :: u64) \<noteq> 5" by simp
  ultimately show ?thesis using U64Coder_total_roundtrip [of 1000000] by blast
qed

end
