(* ===== verification/Hybrid_Uint.thy ===== *)
theory Hybrid_Uint
  imports Bit_Reader Bit_Writer
begin

text \<open>
  The hybrid integer code of \<^verbatim>\<open>lib/jxl/dec_ans.h\<close> (\<^verbatim>\<open>HybridUintConfig\<close>), the coding of its
  parameters in \<^verbatim>\<open>dec_ans.cc\<close> and \<^verbatim>\<open>enc_ans.cc\<close>, and the signed-to-unsigned map of
  \<^verbatim>\<open>pack_signed.h\<close>.  Values, tokens and bit counts are natural numbers below $2^{32}$; the
  theorems show that for the configurations the constructor admits no intermediate result leaves
  that range.
\<close>

section \<open>PackSigned\<close>

definition PackSigned :: "i32 \<Rightarrow> u32" where
  "PackSigned v = push_bit 1 v XOR (drop_bit 31 (NOT v) - 1)"

definition UnpackSigned :: "u64 \<Rightarrow> i32" where
  "UnpackSigned v = ucast (drop_bit 1 v XOR ((NOT v AND 1) - 1))"

section \<open>HybridUintConfig\<close>

record HybridUintConfig =
  split_exponent :: nat
  split_token :: nat
  msb_in_token :: nat
  lsb_in_token :: nat

definition HybridUintConfig_new :: "nat \<Rightarrow> nat \<Rightarrow> nat \<Rightarrow> HybridUintConfig" where
  "HybridUintConfig_new split_exp msb lsb =
     \<lparr>split_exponent = split_exp, split_token = 2 ^ split_exp,
      msb_in_token = msb, lsb_in_token = lsb\<rparr>"

text \<open>\<open>Encode\<close> yields the token, the number of extra bits and the extra bits.\<close>

definition HybridUint_Encode :: "HybridUintConfig \<Rightarrow> nat \<Rightarrow> nat \<times> nat \<times> nat" where
  "HybridUint_Encode c v =
     (if v < split_token c then (v, 0, 0)
      else
        let n = FloorLog2Nonzero v;
            m = v - 2 ^ n;
            token = split_token c +
              (n - split_exponent c) * 2 ^ (msb_in_token c + lsb_in_token c) +
              m div 2 ^ (n - msb_in_token c) * 2 ^ lsb_in_token c +
              m mod 2 ^ lsb_in_token c;
            nbits = n - msb_in_token c - lsb_in_token c
        in (token, nbits, v div 2 ^ lsb_in_token c mod 2 ^ nbits))"

text \<open>The caller has refilled the buffer, so the bits are taken by \<open>PeekBits\<close> and \<open>Consume\<close>.\<close>

definition ReadHybridUintConfig :: "HybridUintConfig \<Rightarrow> nat \<Rightarrow> BitReader \<Rightarrow> nat \<times> BitReader" where
  "ReadHybridUintConfig c token0 br =
     (if token0 < split_token c then (token0, br)
      else
        let msb = msb_in_token c;
            lsb = lsb_in_token c;
            nbits = (split_exponent c - (msb + lsb) + (token0 - split_token c) div 2 ^ (msb + lsb))
                      mod 32;
            low = token0 mod 2 ^ lsb;
            token = token0 div 2 ^ lsb;
            bits = unat (PeekBits nbits br);
            br = Consume nbits br;
            ret = (((2 ^ msb OR token mod 2 ^ msb) * 2 ^ nbits OR bits) * 2 ^ lsb) OR low
        in (ret mod 2 ^ 32, br))"

text \<open>The condition the constructor asserts, with the range of the 32-bit shift
  \<^verbatim>\<open>1 << split_exponent\<close>.\<close>

definition config_ok :: "HybridUintConfig \<Rightarrow> bool" where
  "config_ok c \<longleftrightarrow> split_token c = 2 ^ split_exponent c \<and>
     msb_in_token c + lsb_in_token c \<le> split_exponent c \<and> split_exponent c \<le> 31"

section \<open>Coding of the parameters\<close>

definition DecodeUintConfig :: "nat \<Rightarrow> BitReader \<Rightarrow> HybridUintConfig outcome \<times> BitReader" where
  "DecodeUintConfig log_alpha_size br =
     (case ReadBits (CeilLog2Nonzero (log_alpha_size + 1)) (Refill br) of
        (v, br) \<Rightarrow>
          let split_exp = unat v in
          if split_exp \<noteq> log_alpha_size then
            (case ReadBits (CeilLog2Nonzero (split_exp + 1)) br of
               (v, br) \<Rightarrow>
                 let msb = unat v in
                 if msb > split_exp then (Inl kGenericError, br)
                 else case ReadBits (CeilLog2Nonzero (split_exp - msb + 1)) br of
                   (v, br) \<Rightarrow>
                     let lsb = unat v in
                     if lsb + msb > split_exp then (Inl kGenericError, br)
                     else (Inr (HybridUintConfig_new split_exp msb lsb), br))
          else (Inr (HybridUintConfig_new split_exp 0 0), br))"

definition EncodeUintConfig :: "HybridUintConfig \<Rightarrow> nat \<Rightarrow> BitWriter \<Rightarrow> BitWriter" where
  "EncodeUintConfig c log_alpha_size w =
     (let w = Write (CeilLog2Nonzero (log_alpha_size + 1)) (of_nat (split_exponent c)) w in
      if split_exponent c = log_alpha_size then w
      else
        let w = Write (CeilLog2Nonzero (split_exponent c + 1)) (of_nat (msb_in_token c)) w
        in Write (CeilLog2Nonzero (split_exponent c - msb_in_token c + 1))
             (of_nat (lsb_in_token c)) w)"

fun DecodeUintConfigs :: "nat \<Rightarrow> nat \<Rightarrow> BitReader \<Rightarrow> HybridUintConfig list outcome \<times> BitReader" where
  "DecodeUintConfigs log_alpha_size 0 br = (Inr [], br)"
| "DecodeUintConfigs log_alpha_size (Suc n) br =
     (case DecodeUintConfig log_alpha_size br of
        (Inl e, br) \<Rightarrow> (Inl e, br)
      | (Inr cfg, br) \<Rightarrow>
          (case DecodeUintConfigs log_alpha_size n br of
             (Inl e, br) \<Rightarrow> (Inl e, br)
           | (Inr cfgs, br) \<Rightarrow> (Inr (cfg # cfgs), br)))"

definition EncodeUintConfigs :: "HybridUintConfig list \<Rightarrow> nat \<Rightarrow> BitWriter \<Rightarrow> BitWriter" where
  "EncodeUintConfigs cfgs log_alpha_size w =
     fold (\<lambda>cfg. EncodeUintConfig cfg log_alpha_size) cfgs w"

section \<open>Properties of PackSigned\<close>

lemma xor_mask: "(x XOR (if b then - 1 else 0)) = (if b then NOT x else (x :: 'a::len word))"
  by simp

lemma PackSigned_cases:
  "PackSigned v = (if bit v 31 then NOT (push_bit 1 v) else push_bit 1 v)"
proof -
  have "drop_bit 31 (NOT v) = of_bool (\<not> bit v 31)"
    by (intro bit_eqI) (auto simp: bit_drop_bit_eq bit_not_iff bit_1_iff of_bool_def intro!: gr0I)
  then show ?thesis by (simp add: PackSigned_def)
qed

lemma bit_PackSigned:
  "bit (PackSigned v) i \<longleftrightarrow> i < 32 \<and> ((0 < i \<and> bit v (i - 1)) \<noteq> bit v 31)"
proof -
  define w where "w = push_bit 1 v"
  have "bit w i \<longleftrightarrow> i < 32 \<and> 0 < i \<and> bit v (i - 1)" for i
    unfolding w_def bit_push_bit_iff by auto
  then show ?thesis
    unfolding PackSigned_cases w_def [symmetric] by (auto simp: bit_not_iff dest: bit_imp_le_length)
qed

lemma UnpackSigned_cases:
  "UnpackSigned v = ucast (if bit v 0 then NOT (drop_bit 1 v) else drop_bit 1 v)"
proof -
  have "NOT v AND 1 = of_bool (\<not> bit v 0)"
    by (intro bit_eqI) (auto simp: bit_and_iff bit_not_iff bit_1_iff of_bool_def)
  then show ?thesis by (simp add: UnpackSigned_def)
qed

text \<open>\<open>PackSigned\<close> and \<open>UnpackSigned\<close> are inverse bijections between the 32-bit signed and
  unsigned values, and \<open>PackSigned\<close> interleaves the signs: a value \<open>x \<ge> 0\<close> becomes \<open>2 x\<close> and a
  negative one \<open>- 2 x - 1\<close>.\<close>

theorem PackSigned_bijection:
  "UnpackSigned (ucast (PackSigned v)) = v \<and> PackSigned (UnpackSigned (ucast u)) = u \<and>
   int (unat (PackSigned v)) = (if 0 \<le> sint v then 2 * sint v else - 2 * sint v - 1)"
proof -
  have "UnpackSigned (ucast (PackSigned v)) = v"
  proof (rule bit_eqI)
    fix i assume "possible_bit TYPE(32 word) i"
    then have i: "i < 32" by simp
    show "bit (UnpackSigned (ucast (PackSigned v))) i = bit v i"
      using i
      by (cases "i = 31") (auto simp: bit_PackSigned UnpackSigned_cases bit_ucast_iff bit_not_iff bit_drop_bit_eq)
  qed
  moreover have "PackSigned (UnpackSigned (ucast u)) = u"
  proof (rule bit_eqI)
    fix i assume "possible_bit TYPE(32 word) i"
    then have i: "i < 32" by simp
    have s: "j < 32 \<Longrightarrow> bit (UnpackSigned (ucast u)) j = ((j < 31 \<and> bit u (Suc j)) \<noteq> bit u 0)" for j
      by (auto simp: UnpackSigned_cases bit_ucast_iff bit_not_iff bit_drop_bit_eq
          dest: bit_imp_le_length)
    show "bit (PackSigned (UnpackSigned (ucast u))) i = bit u i"
      using i s [of 31] s [of "i - 1"]
      by (cases i) (auto simp: bit_PackSigned)
  qed
  moreover have "int (unat (PackSigned v)) = (if 0 \<le> sint v then 2 * sint v else - 2 * sint v - 1)"
  proof -
    have lt: "unat v < 2 ^ 32" using unsigned_less [of v, where 'a = nat] by simp
    have b: "bit v 31 \<longleftrightarrow> 2 ^ 31 \<le> unat v" by (rule bit_31_iff)
    have p: "unat (push_bit 1 v) = (2 * unat v) mod 2 ^ 32"
      unfolding unsigned_push_bit_eq by (simp add: take_bit_eq_mod mult.commute)
    show ?thesis
    proof (cases "bit v 31")
      case False
      then have "unat (push_bit 1 v) = 2 * unat v" using p b by simp
      then show ?thesis using False by (simp add: PackSigned_cases sint_i32)
    next
      case True
      then have "unat (push_bit 1 v) = 2 * unat v - 2 ^ 32"
        using p b lt by (simp add: le_mod_geq)
      moreover have "int (unat (NOT x)) = 2 ^ 32 - 1 - int (unat x)" for x :: u32
      proof -
        have "NOT x = - 1 - x" by (simp add: not_eq_complement)
        moreover have "unat (- 1 - x) = unat (- 1 :: u32) - unat x" by (rule unat_sub) simp
        moreover have "unat (- 1 :: u32) = 2 ^ 32 - 1"
          by (simp add: unsigned_minus_1_eq_mask mask_eq_exp_minus_1)
        ultimately have "unat (NOT x) = 2 ^ 32 - 1 - unat x" by (simp only:)
        moreover have "unat x \<le> 2 ^ 32 - 1" using unsigned_less [of x, where 'a = nat] by simp
        ultimately show ?thesis by (simp only: of_nat_diff) simp
      qed
      ultimately have "int (unat (PackSigned v)) = 2 ^ 32 - 1 - int (2 * unat v - 2 ^ 32)"
        using True by (simp only: PackSigned_cases if_True)
      moreover have "int (2 * unat v - 2 ^ 32) = 2 * int (unat v) - 2 ^ 32"
        using True b by (simp only: of_nat_diff) simp
      moreover have "sint v = int (unat v) - 2 ^ 32" using True by (simp only: sint_i32 if_True)
      moreover have "int (unat v) < 2 ^ 32" using unsigned_less [of v, where 'a = int] by simp
      ultimately have "\<not> 0 \<le> sint v" "int (unat (PackSigned v)) = - 2 * sint v - 1" by linarith+
      then show ?thesis by (simp only: if_False)
    qed
  qed
  ultimately show ?thesis by blast
qed

theorem PackSigned_bijection_witness:
  "PackSigned (- 3) = 5 \<and> UnpackSigned 5 = - 3"
proof -
  have "PackSigned (- 3) = 5" by code_simp
  then show ?thesis using PackSigned_bijection [of "- 3" 5] by simp
qed

section \<open>Properties of the hybrid code\<close>

lemma or_eq_plus: "b < 2 ^ k \<Longrightarrow> (a * 2 ^ k) OR b = a * 2 ^ k + (b :: nat)"
proof -
  assume b: "b < 2 ^ k"
  then have "take_bit k b = b" by (simp add: take_bit_nat_eq_self)
  then have "bit b i \<Longrightarrow> i < k" for i by (metis bit_take_bit_iff)
  then have "push_bit k a AND b = 0"
    by (intro bit_eqI) (fastforce simp: bit_and_iff bit_push_bit_iff)
  then show ?thesis by (simp add: disjunctive_add_eq_or push_bit_eq_mult)
qed

text \<open>The arithmetic of the code: a value \<open>v\<close> of \<open>n + 1\<close> bits is cut into its leading one, \<open>msb\<close> bits,
  the extra bits and \<open>lsb\<close> bits.\<close>

lemma hybrid_split:
  fixes v n msb lsb :: nat
  assumes v: "2 ^ n \<le> v" "v < 2 ^ Suc n" and le: "msb + lsb \<le> n"
  defines "m \<equiv> v - 2 ^ n" and "nb \<equiv> n - msb - lsb"
  shows "m div 2 ^ (n - msb) < 2 ^ msb"
    "((2 ^ msb + m div 2 ^ (n - msb)) * 2 ^ nb + v div 2 ^ lsb mod 2 ^ nb) * 2 ^ lsb + m mod 2 ^ lsb = v"
proof -
  have n: "n = msb + nb + lsb" "n - msb = nb + lsb" using le by (simp_all add: nb_def)
  have m: "m < 2 ^ msb * 2 ^ (n - msb)" "v = 2 ^ n + m" using v n by (simp_all add: m_def power_add mult_ac)
  then show "m div 2 ^ (n - msb) < 2 ^ msb" by (simp add: div_less_iff_less_mult)
  have e: "(2 :: nat) ^ n = 2 ^ msb * 2 ^ nb * 2 ^ lsb" by (simp add: n(1) power_add)
  have "v div 2 ^ lsb = 2 ^ msb * 2 ^ nb + m div 2 ^ lsb"
    unfolding m(2) e by (simp add: div_mult_self3 add.commute)
  then have x: "v div 2 ^ lsb mod 2 ^ nb = m div 2 ^ lsb mod 2 ^ nb" by simp
  have y: "m div 2 ^ (n - msb) = m div 2 ^ lsb div 2 ^ nb"
    unfolding n(2) by (simp add: power_add div_mult2_eq mult.commute)
  have "m div 2 ^ lsb div 2 ^ nb * 2 ^ nb + m div 2 ^ lsb mod 2 ^ nb = m div 2 ^ lsb"
    by (rule div_mult_mod_eq)
  then have a: "((2 ^ msb + m div 2 ^ (n - msb)) * 2 ^ nb + v div 2 ^ lsb mod 2 ^ nb) * 2 ^ lsb =
      (2 ^ msb * 2 ^ nb + m div 2 ^ lsb) * 2 ^ lsb"
    unfolding x y by (simp add: distrib_right add.assoc)
  have "(2 ^ msb * 2 ^ nb + m div 2 ^ lsb) * 2 ^ lsb + m mod 2 ^ lsb =
      2 ^ msb * 2 ^ nb * 2 ^ lsb + (m div 2 ^ lsb * 2 ^ lsb + m mod 2 ^ lsb)"
    by (simp add: distrib_right)
  then show "((2 ^ msb + m div 2 ^ (n - msb)) * 2 ^ nb + v div 2 ^ lsb mod 2 ^ nb) * 2 ^ lsb +
      m mod 2 ^ lsb = v"
    unfolding a div_mult_mod_eq using m(2) e by simp
qed

lemma HybridUint_Encode_large:
  assumes c: "config_ok c" and v: "split_token c \<le> v" "v < 2 ^ 32"
  obtains token nbits bits where "HybridUint_Encode c v = (token, nbits, bits)"
    "split_token c \<le> token" "nbits \<le> 31" "bits < 2 ^ nbits"
    "split_exponent c - (msb_in_token c + lsb_in_token c) +
       (token - split_token c) div 2 ^ (msb_in_token c + lsb_in_token c) = nbits"
    "((2 ^ msb_in_token c + token div 2 ^ lsb_in_token c mod 2 ^ msb_in_token c) * 2 ^ nbits + bits) *
       2 ^ lsb_in_token c + token mod 2 ^ lsb_in_token c = v"
    "token < split_token c + (32 - split_exponent c) * 2 ^ (msb_in_token c + lsb_in_token c)"
proof -
  define e msb lsb where "e = split_exponent c" and "msb = msb_in_token c" and "lsb = lsb_in_token c"
  have st: "split_token c = 2 ^ e" and le: "msb + lsb \<le> e" "e \<le> 31"
    using c by (simp_all add: config_ok_def e_def msb_def lsb_def)
  define n where "n = FloorLog2Nonzero v"
  have v0: "0 < v" using v(1) st by (metis gr0I le_0_eq power_eq_0_iff zero_neq_numeral)
  have n: "2 ^ n \<le> v" "v < 2 ^ Suc n" using FloorLog2Nonzero_bounds [OF v0] by (simp_all add: n_def)
  have "(2 :: nat) ^ n < 2 ^ 32" using n v(2) by linarith
  then have n31: "n < 32" using power_less_imp_less_exp [of "2 :: nat" n 32] by simp
  have "(2 :: nat) ^ e < 2 ^ Suc n" using n v(1) st by linarith
  then have en: "e \<le> n" using power_less_imp_less_exp [of "2 :: nat" e "Suc n"] by simp
  define m where "m = v - 2 ^ n"
  define nb where "nb = n - msb - lsb"
  define hi where "hi = m div 2 ^ (n - msb)"
  define token where "token = 2 ^ e + (n - e) * 2 ^ (msb + lsb) + hi * 2 ^ lsb + m mod 2 ^ lsb"
  have mn: "msb + lsb \<le> n" using le en by simp
  note H = hybrid_split [OF n mn, folded m_def nb_def hi_def]
  have enc: "HybridUint_Encode c v = (token, nb, v div 2 ^ lsb mod 2 ^ nb)"
    using v(1) by (simp add: HybridUint_Encode_def Let_def st e_def [symmetric] msb_def [symmetric]
        lsb_def [symmetric] n_def [symmetric] m_def [symmetric] hi_def [symmetric] token_def nb_def)
  have small: "hi * 2 ^ lsb + m mod 2 ^ lsb < 2 ^ (msb + lsb)"
  proof -
    have "hi * 2 ^ lsb + 2 ^ lsb \<le> 2 ^ msb * 2 ^ lsb" using H(1) by (metis Suc_leI mult_Suc add.commute mult_le_mono1)
    moreover have "m mod 2 ^ lsb < 2 ^ lsb" by simp
    ultimately show ?thesis unfolding power_add by linarith
  qed
  have "(token - 2 ^ e) div 2 ^ (msb + lsb) = n - e"
    using small by (simp add: token_def add.assoc)
  then have nbits: "e - (msb + lsb) + (token - 2 ^ e) div 2 ^ (msb + lsb) = nb"
    using le en by (simp add: nb_def)
  have e2: "(2 :: nat) ^ e = 2 ^ (e - (msb + lsb)) * 2 ^ msb * 2 ^ lsb"
    using le by (simp flip: power_add)
  have tok: "token = (2 ^ (e - (msb + lsb)) * 2 ^ msb + (n - e) * 2 ^ msb + hi) * 2 ^ lsb + m mod 2 ^ lsb"
    unfolding token_def e2 by (simp add: power_add distrib_right mult.assoc)
  have t1: "token mod 2 ^ lsb = m mod 2 ^ lsb" unfolding tok by simp
  have "token div 2 ^ lsb = 2 ^ (e - (msb + lsb)) * 2 ^ msb + (n - e) * 2 ^ msb + hi"
    unfolding tok by simp
  also have "\<dots> = (2 ^ (e - (msb + lsb)) + (n - e)) * 2 ^ msb + hi" by (simp add: distrib_right)
  finally have t2: "token div 2 ^ lsb mod 2 ^ msb = hi" using H(1) by simp
  have "token < 2 ^ e + (n - e) * 2 ^ (msb + lsb) + 2 ^ (msb + lsb)" using small by (simp add: token_def)
  also have "\<dots> = 2 ^ e + (n - e + 1) * 2 ^ (msb + lsb)" by (simp add: distrib_right)
  also have "\<dots> \<le> 2 ^ e + (32 - e) * 2 ^ (msb + lsb)" using n31 en by (intro add_left_mono mult_right_mono) auto
  finally have tb: "token < 2 ^ e + (32 - e) * 2 ^ (msb + lsb)" .
  have "2 ^ e \<le> token" by (simp add: token_def)
  then show ?thesis
    by (intro that [OF enc]) (use nbits H(2) t1 t2 tb n31 st in
        \<open>simp_all add: e_def [symmetric] msb_def [symmetric] lsb_def [symmetric] token_def [symmetric]
          nb_def le_simps\<close>)
qed

lemma HybridUint_Encode_bounds:
  assumes c: "config_ok c" and v: "v < 2 ^ 32" and enc: "HybridUint_Encode c v = (token, nbits, bits)"
  shows "nbits \<le> 31" and "bits < 2 ^ nbits"
proof -
  have "nbits \<le> 31 \<and> bits < 2 ^ nbits"
  proof (cases "v < split_token c")
    case True
    then show ?thesis using enc by (simp add: HybridUint_Encode_def)
  next
    case False
    then have "split_token c \<le> v" by simp
    from HybridUint_Encode_large [OF c this v] enc show ?thesis by (metis prod.inject)
  qed
  then show "nbits \<le> 31" "bits < 2 ^ nbits" by simp_all
qed

text \<open>C14: The hybrid integer code is lossless for every configuration the constructor admits and every
  32-bit value: with the token and the extra bits that \<open>Encode\<close> produces, a refilled reader standing
  on those bits decodes the value and consumes exactly them; there are at most 31 extra bits, and the
  token fits 32 bits.  This includes values with 30 and 31 extra bits, which \<open>Encode\<close> does produce and which the comment
  in \<^verbatim>\<open>dec_ans.h\<close> (\<^verbatim>\<open>ReadHybridUintConfig\<close>) calls an invalid code stream: the code reads them correctly.\<close>

theorem HybridUint_roundtrip:
  assumes c: "config_ok c" and v: "v < 2 ^ 32"
    and enc: "HybridUint_Encode c v = (token, nbits, bits)"
    and br: "br_ok br" "nbits \<le> bits_in_buf br"
    and ahead: "begins (upcoming br) (bits_of nbits (of_nat bits :: u64))"
  shows "nbits \<le> 31 \<and> bits < 2 ^ nbits \<and> token < 2 ^ 32 \<and>
    ReadHybridUintConfig c token br = (v, Consume nbits br) \<and>
    TotalBitsConsumed (snd (ReadHybridUintConfig c token br)) = TotalBitsConsumed br + nbits"
proof (cases "v < split_token c")
  case True
  then have e: "token = v" "nbits = 0" "bits = 0" using enc by (simp_all add: HybridUint_Encode_def)
  have "Consume 0 br = br" by (simp add: Consume_def)
  then show ?thesis using True e v by (simp add: ReadHybridUintConfig_def)
next
  case False
  define e msb lsb where "e = split_exponent c" and "msb = msb_in_token c" and "lsb = lsb_in_token c"
  have st: "split_token c = 2 ^ e" and le: "msb + lsb \<le> e" "e \<le> 31"
    using c by (simp_all add: config_ok_def e_def msb_def lsb_def)
  from False have "split_token c \<le> v" by simp
  from HybridUint_Encode_large [OF c this v] enc
  have E: "split_token c \<le> token" "nbits \<le> 31" "bits < 2 ^ nbits"
    "e - (msb + lsb) + (token - split_token c) div 2 ^ (msb + lsb) = nbits"
    "((2 ^ msb + token div 2 ^ lsb mod 2 ^ msb) * 2 ^ nbits + bits) * 2 ^ lsb + token mod 2 ^ lsb = v"
    "token < split_token c + (32 - e) * 2 ^ (msb + lsb)"
    unfolding e_def msb_def lsb_def by (metis prod.inject)+
  have "bits < 2 ^ 64"
  proof -
    have "(2 :: nat) ^ nbits \<le> 2 ^ 64" using E(2) by (intro power_increasing) auto
    then show ?thesis using E(3) by linarith
  qed
  then have u: "unat (of_nat bits :: u64) = bits" by (simp add: unsigned_of_nat take_bit_nat_eq_self)
  then have d: "drop_bit nbits (of_nat bits :: u64) = 0" using E(3) by (simp only: drop_bit_0_unat)
  have "map (upcoming br) [0..<nbits] = bits_of nbits (of_nat bits :: u64)"
    using begins_map_upt [OF ahead] by simp
  then have peek: "unat (PeekBits nbits br) = bits"
    using PeekBits_value [OF br] word_of_bits_bits_of_id [OF d] u by simp
  have or1: "(2 ^ msb OR token div 2 ^ lsb mod 2 ^ msb) = 2 ^ msb + token div 2 ^ lsb mod 2 ^ msb"
    using or_eq_plus [of "token div 2 ^ lsb mod 2 ^ msb" msb 1] by simp
  have "ReadHybridUintConfig c token br = (v mod 2 ^ 32, Consume nbits br)"
    using E(1,2,3,4,5) peek or1
    by (simp add: ReadHybridUintConfig_def Let_def e_def [symmetric] msb_def [symmetric]
        lsb_def [symmetric] or_eq_plus)
  moreover have "token < 2 ^ 32"
  proof -
    have "(2 :: nat) ^ (msb + lsb) \<le> 2 ^ e" using le by (intro power_increasing) auto
    then have "(32 - e) * 2 ^ (msb + lsb) \<le> (32 - e) * 2 ^ e" by (rule mult_le_mono2)
    moreover have "33 - e = Suc (32 - e)" using le(2) by simp
    then have "(33 - e) * 2 ^ e = 2 ^ e + (32 - e) * 2 ^ e" by (simp only: mult_Suc)
    ultimately have "token < (33 - e) * 2 ^ e" using E(6) st by linarith
    also have "\<dots> \<le> 2 ^ (32 - e) * 2 ^ e"
      using le(2) less_exp [of "32 - e"] by (intro mult_right_mono) linarith+
    also have "\<dots> = 2 ^ 32" using le(2) by (simp flip: power_add)
    finally show ?thesis .
  qed
  ultimately show ?thesis using E(2,3) v Consume_ok(2) [OF br] by simp
qed

text \<open>The configuration (4, 2, 0) of the source's worked example, on its value 65535.\<close>

theorem HybridUint_roundtrip_witness:
  "HybridUint_Encode (HybridUintConfig_new 4 2 0) 65535 = (63, 13, 8191) \<and>
   fst (ReadHybridUintConfig (HybridUintConfig_new 4 2 0) 63
     (Refill (BitReader_new [0xFF, 0x1F, 0]))) = 65535"
proof -
  have e: "HybridUint_Encode (HybridUintConfig_new 4 2 0) 65535 = (63, 13, 8191)"
  proof -
    have "FloorLog2Nonzero 65535 = 15" by (rule FloorLog2Nonzero_unique) simp_all
    then show ?thesis by (simp add: HybridUint_Encode_def HybridUintConfig_new_def Let_def)
  qed
  have c: "config_ok (HybridUintConfig_new 4 2 0)" by (simp add: config_ok_def HybridUintConfig_new_def)
  let ?br = "Refill (BitReader_new [0xFF, 0x1F, 0])"
  note R = Refill_ok [OF BitReader_new_ok(1), of "[0xFF, 0x1F, 0]"]
  have "list_all (\<lambda>i. stream_bit [0xFF, 0x1F, 0] i = bit (8191 :: u64) i) [0..<13]" by code_simp
  then have "begins (upcoming ?br) (bits_of 13 (of_nat 8191 :: u64))"
    by (simp add: BitReader_new_ok begins_def list_all_iff)
  with HybridUint_roundtrip [OF c _ e R(1)] R(2) e show ?thesis by simp
qed

section \<open>Properties of the parameter coding\<close>

text \<open>What the format can express: the exponent is at most the alphabet size, and an exponent equal to
  it leaves no room for tokens with extra bits.\<close>

definition encodable_config :: "nat \<Rightarrow> HybridUintConfig \<Rightarrow> bool" where
  "encodable_config log_alpha_size c \<longleftrightarrow>
     config_ok c \<and> split_exponent c \<le> log_alpha_size \<and>
     (split_exponent c = log_alpha_size \<longrightarrow> msb_in_token c = 0 \<and> lsb_in_token c = 0)"

definition nat_bits :: "nat \<Rightarrow> nat \<Rightarrow> bool list" where
  "nat_bits n v = bits_of n (of_nat v :: u64)"

definition UintConfig_code :: "nat \<Rightarrow> HybridUintConfig \<Rightarrow> bool list" where
  "UintConfig_code la c =
     nat_bits (CeilLog2Nonzero (la + 1)) (split_exponent c) @
     (if split_exponent c = la then []
      else nat_bits (CeilLog2Nonzero (split_exponent c + 1)) (msb_in_token c) @
           nat_bits (CeilLog2Nonzero (split_exponent c - msb_in_token c + 1)) (lsb_in_token c))"

lemma nat_field:
  assumes "v \<le> x" and "x < 2 ^ 55"
  shows "CeilLog2Nonzero (x + 1) \<le> 56" "drop_bit (CeilLog2Nonzero (x + 1)) (of_nat v :: u64) = 0"
    "unat (of_nat v :: u64) = v"
proof -
  have "FloorLog2Nonzero (x + 1) < 56" using assms(2) by (intro FloorLog2Nonzero_less) auto
  then show "CeilLog2Nonzero (x + 1) \<le> 56" using CeilLog2Nonzero_bounds(2) [of "x + 1"] by simp
  have "v < 2 ^ 64" using assms by simp
  then show u: "unat (of_nat v :: u64) = v" by (simp add: unsigned_of_nat take_bit_nat_eq_self)
  show "drop_bit (CeilLog2Nonzero (x + 1)) (of_nat v :: u64) = 0"
    unfolding drop_bit_0_unat u using CeilLog2Nonzero_bounds(1) [of "x + 1"] assms(1) by linarith
qed

lemma EncodeUintConfig_emits:
  assumes "encodable_config la c" and "la \<le> 31"
  shows "writer.emits (\<lambda>w. (True, EncodeUintConfig c la w)) (UintConfig_code la c)"
proof -
  have c: "split_exponent c \<le> la" "msb_in_token c \<le> split_exponent c"
    "lsb_in_token c \<le> split_exponent c - msb_in_token c"
    using assms(1) by (auto simp: encodable_config_def config_ok_def)
  have e: "la < 2 ^ 55" "split_exponent c < 2 ^ 55" "split_exponent c - msb_in_token c < 2 ^ 55"
    using c(1) assms(2) by simp_all
  note f1 = nat_field [OF c(1) e(1)] and f2 = nat_field [OF c(2) e(2)] and f3 = nat_field [OF c(3) e(3)]
  show ?thesis
  proof (cases "split_exponent c = la")
    case True
    then show ?thesis using writer.emits_wr [OF f1(1,2)]
      by (simp add: EncodeUintConfig_def Let_def UintConfig_code_def nat_bits_def)
  next
    case False
    from writer.emits_wr_then [OF f1(1,2) writer.emits_wr_then [OF f2(1,2) writer.emits_wr [OF f3(1,2)]]]
    show ?thesis using False by (simp add: EncodeUintConfig_def Let_def UintConfig_code_def nat_bits_def)
  qed
qed

text \<open>A refill before a read changes nothing that the read sees.\<close>

lemma parses_after_refill:
  assumes "reader.parses p bs v"
  shows "reader.parses (\<lambda>s. p (Refill s)) bs v"
  unfolding reader.parses_def
proof (intro allI impI)
  fix s assume s: "br_ok s" "begins (upcoming s) bs"
  have "br_ok (Refill s)" "begins (upcoming (Refill s)) bs" using s by (simp_all add: Refill_ok)
  with assms obtain t where "p (Refill s) = (v, t)" "reader.advanced (Refill s) t (length bs)"
    by (rule reader.parsesD)
  then show "\<exists>t. p (Refill s) = (v, t) \<and> reader.advanced s t (length bs)"
    using s by (simp add: reader.advanced_def Refill_ok)
qed

lemma DecodeUintConfig_parses:
  assumes "encodable_config la c" and "la \<le> 31"
  shows "reader.parses (DecodeUintConfig la) (UintConfig_code la c) (Inr c)"
proof -
  let ?e = "split_exponent c" and ?m = "msb_in_token c" and ?l = "lsb_in_token c"
  have c: "?e \<le> la" "?m \<le> ?e" "?l \<le> ?e - ?m" and st: "split_token c = 2 ^ ?e"
    using assms(1) by (auto simp: encodable_config_def config_ok_def)
  have e: "la < 2 ^ 55" "?e < 2 ^ 55" "?e - ?m < 2 ^ 55"
    using c(1) assms(2) by simp_all
  note f1 = nat_field [OF c(1) e(1)] and f2 = nat_field [OF c(2) e(2)] and f3 = nat_field [OF c(3) e(3)]
  define r where "r = (\<lambda>(v :: u64) br :: BitReader.
    if unat v + ?m > ?e then (Inl kGenericError, br)
    else (Inr (HybridUintConfig_new ?e ?m (unat v)), br))"
  define q2 where "q2 = (\<lambda>(v :: u64) br.
    if unat v > ?e then (Inl kGenericError, br)
    else case ReadBits (CeilLog2Nonzero (?e - unat v + 1)) br of
      (w, br) \<Rightarrow> if unat w + unat v > ?e then (Inl kGenericError, br)
                 else (Inr (HybridUintConfig_new ?e (unat v) (unat w)), br))"
  define q where "q = (\<lambda>(v :: u64) br.
    if unat v \<noteq> la then
      (case ReadBits (CeilLog2Nonzero (unat v + 1)) br of
         (w, br) \<Rightarrow>
           if unat w > unat v then (Inl kGenericError, br)
           else case ReadBits (CeilLog2Nonzero (unat v - unat w + 1)) br of
             (x, br) \<Rightarrow>
               if unat x + unat w > unat v then (Inl kGenericError, br)
               else (Inr (HybridUintConfig_new (unat v) (unat w) (unat x)), br))
    else (Inr (HybridUintConfig_new (unat v) 0 0), br))"
  have D: "DecodeUintConfig la = (\<lambda>s. case ReadBits (CeilLog2Nonzero (la + 1)) (Refill s) of (x, t) \<Rightarrow> q x t)"
    unfolding DecodeUintConfig_def [abs_def] q_def Let_def ..
  have "reader.parses (\<lambda>s. case ReadBits (CeilLog2Nonzero (la + 1)) s of (x, t) \<Rightarrow> q x t)
      (UintConfig_code la c) (Inr c)"
  proof (cases "?e = la")
    case True
    then have "c = HybridUintConfig_new ?e 0 0"
      using assms(1) st by (simp add: encodable_config_def HybridUintConfig_new_def)
    then have "q (of_nat ?e) = (\<lambda>br. (Inr c, br))" using True f1(3) by (simp add: q_def)
    then have "reader.parses (q (of_nat ?e)) [] (Inr c)" using reader.parses_return by simp
    from reader.parses_rd_then [where q = q, OF f1(1,2) this] True show ?thesis
      by (simp add: UintConfig_code_def nat_bits_def)
  next
    case False
    have cc: "HybridUintConfig_new ?e ?m ?l = c" using st by (simp add: HybridUintConfig_new_def)
    have "r (of_nat ?l) = (\<lambda>br. (Inr c, br))" using f3(3) c cc by (auto simp: r_def)
    then have "reader.parses (r (of_nat ?l)) [] (Inr c)" using reader.parses_return by simp
    from reader.parses_rd_then [where q = r, OF f3(1,2) this]
    have "reader.parses (q2 (of_nat ?m)) (nat_bits (CeilLog2Nonzero (?e - ?m + 1)) ?l) (Inr c)"
      using c unfolding q2_def r_def nat_bits_def f2(3) by simp
    from reader.parses_rd_then [where q = q2, OF f2(1,2) this]
    have "reader.parses (q (of_nat ?e)) (nat_bits (CeilLog2Nonzero (?e + 1)) ?m @
        nat_bits (CeilLog2Nonzero (?e - ?m + 1)) ?l) (Inr c)"
      using False unfolding q_def q2_def nat_bits_def f1(3) by simp
    from reader.parses_rd_then [where q = q, OF f1(1,2) this] False show ?thesis
      by (simp add: UintConfig_code_def nat_bits_def)
  qed
  from parses_after_refill [OF this] show ?thesis by (simp add: D)
qed

lemma EncodeUintConfigs_emits:
  "\<forall>c \<in> set cfgs. encodable_config la c \<Longrightarrow> la \<le> 31 \<Longrightarrow>
   writer.emits (\<lambda>w. (True, EncodeUintConfigs cfgs la w)) (concat (map (UintConfig_code la) cfgs))"
proof (induction cfgs)
  case Nil
  then show ?case using writer.emits_return by (simp add: EncodeUintConfigs_def)
next
  case (Cons c cfgs)
  then have "writer.emits (\<lambda>w. (True, EncodeUintConfig c la w)) (UintConfig_code la c)"
    by (intro EncodeUintConfig_emits) auto
  from writer.emits_seq [OF this Cons.IH] Cons.prems show ?case
    by (simp add: EncodeUintConfigs_def)
qed

lemma DecodeUintConfigs_parses:
  "\<forall>c \<in> set cfgs. encodable_config la c \<Longrightarrow> la \<le> 31 \<Longrightarrow>
   reader.parses (DecodeUintConfigs la (length cfgs)) (concat (map (UintConfig_code la) cfgs)) (Inr cfgs)"
proof (induction cfgs)
  case Nil
  have "DecodeUintConfigs la 0 = (\<lambda>br. (Inr [], br))" by (rule ext) simp
  then show ?case using reader.parses_return by simp
next
  case (Cons c cfgs)
  define q2 where "q2 = (\<lambda>cfg (r :: HybridUintConfig list outcome) br :: BitReader.
    case r of Inl e \<Rightarrow> (Inl e :: HybridUintConfig list outcome, br) | Inr cfgs \<Rightarrow> (Inr (cfg # cfgs), br))"
  define q where "q = (\<lambda>(r :: HybridUintConfig outcome) br. case r of Inl e \<Rightarrow> (Inl e, br)
    | Inr cfg \<Rightarrow> (case DecodeUintConfigs la (length cfgs) br of (x, t) \<Rightarrow> q2 cfg x t))"
  have D: "DecodeUintConfigs la (Suc (length cfgs)) =
      (\<lambda>s. case DecodeUintConfig la s of (x, t) \<Rightarrow> q x t)"
    by (rule ext) (auto simp: q_def q2_def split: prod.splits sum.splits)
  have "reader.parses (q2 c (Inr cfgs)) [] (Inr (c # cfgs))"
    using reader.parses_return by (simp add: q2_def)
  from reader.parses_bind [where q = "q2 c", OF Cons.IH this] Cons.prems
  have "reader.parses (q (Inr c)) (concat (map (UintConfig_code la) cfgs)) (Inr (c # cfgs))"
    by (simp add: q_def)
  moreover have "reader.parses (DecodeUintConfig la) (UintConfig_code la c) (Inr c)"
    using Cons.prems by (intro DecodeUintConfig_parses) auto
  ultimately have "reader.parses (\<lambda>s. case DecodeUintConfig la s of (x, t) \<Rightarrow> q x t)
      (UintConfig_code la c @ concat (map (UintConfig_code la) cfgs)) (Inr (c # cfgs))"
    by (intro reader.parses_bind [where q = q])
  then show ?case by (simp add: D)
qed

lemma DecodeUintConfig_valid:
  assumes "DecodeUintConfig la br = (Inr c, br')" and "la < 31"
  shows "split_token c = 2 ^ split_exponent c \<and> msb_in_token c + lsb_in_token c \<le> split_exponent c"
  using assms by (auto simp: DecodeUintConfig_def HybridUintConfig_new_def Let_def
      split: prod.splits if_splits)

text \<open>C15: A list of hybrid integer configurations is written and read back: for every alphabet size up
  to 31 bits and configurations within it, \<open>EncodeUintConfigs\<close> emits a bit string from which
  \<open>DecodeUintConfigs\<close> restores exactly that list, consuming exactly those bits; and whatever the
  input, a configuration it accepts satisfies the constructor's condition.\<close>

theorem UintConfigs_roundtrip:
  assumes "\<forall>c \<in> set cfgs. encodable_config la c" and "la < 31"
  shows "\<exists>bs. writer.emits (\<lambda>w. (True, EncodeUintConfigs cfgs la w)) bs \<and>
      reader.parses (DecodeUintConfigs la (length cfgs)) bs (Inr cfgs) \<and>
      (\<forall>br c br'. DecodeUintConfig la br = (Inr c, br') \<longrightarrow>
         split_token c = 2 ^ split_exponent c \<and> msb_in_token c + lsb_in_token c \<le> split_exponent c)"
  using EncodeUintConfigs_emits [OF assms(1)] DecodeUintConfigs_parses [OF assms(1)]
    DecodeUintConfig_valid [OF _ assms(2)] assms(2) by (meson less_imp_le)

theorem UintConfigs_roundtrip_witness:
  "\<exists>bs. reader.parses (DecodeUintConfigs 8 2) bs
     (Inr [HybridUintConfig_new 4 2 0, HybridUintConfig_new 8 0 0])"
proof -
  have "\<forall>c \<in> set [HybridUintConfig_new 4 2 0, HybridUintConfig_new 8 0 0]. encodable_config 8 c"
    by (simp add: encodable_config_def config_ok_def HybridUintConfig_new_def)
  from UintConfigs_roundtrip [OF this] show ?thesis by (auto simp: eval_nat_numeral)
qed

end
