(* ===== verification/Alias_Table.thy ===== *)
theory Alias_Table
  imports Prelude
begin

text \<open>
  The alias tables of the ANS coder: \<^verbatim>\<open>lib/jxl/ans_common.h\<close>, \<^verbatim>\<open>ans_common.cc\<close> and
  \<^verbatim>\<open>ans_params.h\<close>.  A table maps each of the 4096 slots to a symbol and to the rank of the slot
  among those of the symbol.  The stacks of over- and underfull positions are lists whose head is
  the back of the source's vector; \<^verbatim>\<open>uint32_t\<close> cutoffs are integers reduced modulo \<open>2 ^ 32\<close>
  where the source computes on them.
\<close>

section \<open>Definitions\<close>

definition ANS_LOG_TAB_SIZE :: nat where "ANS_LOG_TAB_SIZE = 12"

definition ANS_TAB_SIZE :: nat where "ANS_TAB_SIZE = 2 ^ ANS_LOG_TAB_SIZE"

definition ANS_SIGNATURE :: nat where "ANS_SIGNATURE = 0x13"

definition CreateFlatHistogram :: "nat \<Rightarrow> nat \<Rightarrow> int list" where
  "CreateFlatHistogram len total_count =
     (let count = int (total_count div len); rem_counts = total_count mod len
      in foldl (\<lambda>result i. result[i := result ! i + 1]) (replicate len count) [0..<rem_counts])"

record Symbol =
  sym_value :: nat
  sym_offset :: nat
  sym_freq :: nat

record Entry =
  cutoff :: u8
  right_value :: u8
  freq0 :: u16
  offsets1 :: u16
  freq1_xor_freq0 :: u16

definition Lookup :: "Entry list \<Rightarrow> nat \<Rightarrow> nat \<Rightarrow> nat \<Rightarrow> Symbol" where
  "Lookup table val log_entry_size entry_size_minus_1 =
     (let i = val div 2 ^ log_entry_size; pos = val AND entry_size_minus_1; e = table ! i;
          greater = pos \<ge> unat (cutoff e);
          offsets1_or_0 = (if greater then offsets1 e else 0);
          freq1_xor_freq0_or_0 = (if greater then freq1_xor_freq0 e else 0)
      in \<lparr> sym_value = (if greater then unat (right_value e) else i),
           sym_offset = unat offsets1_or_0 + pos,
           sym_freq = unat (freq0 e XOR freq1_xor_freq0_or_0) \<rparr>)"

text \<open>The removal of the trailing symbols that do not occur.\<close>

definition trim_zeros :: "int list \<Rightarrow> int list" where
  "trim_zeros distribution = rev (dropWhile (\<lambda>x. x = 0) (rev distribution))"

text \<open>The scan for a symbol of full weight; the sum is accumulated beside it.\<close>

fun scan_single :: "int list \<Rightarrow> nat \<Rightarrow> int \<Rightarrow> int \<Rightarrow> (int \<times> int) outcome" where
  "scan_single [] symb single_symbol s = Inr (single_symbol, s)"
| "scan_single (v # vs) symb single_symbol s =
     (if v = int ANS_TAB_SIZE then
        (if single_symbol \<noteq> - 1 then Inl kGenericError
         else scan_single vs (symb + 1) (int symb) (s + v))
      else scan_single vs (symb + 1) single_symbol (s + v))"

type_synonym alias_state = "int list \<times> Entry list \<times> nat list \<times> nat list"
  \<comment> \<open>cutoffs, table, overfull and underfull positions\<close>

definition init_cutoffs :: "int list \<Rightarrow> nat \<Rightarrow> int \<Rightarrow> int list \<times> nat list \<times> nat list" where
  "init_cutoffs distribution table_size entry_size =
     foldl (\<lambda>(cutoffs, overfull, underfull) i. (cutoffs[i := 0], overfull, i # underfull))
       (foldl (\<lambda>(cutoffs, overfull, underfull) i.
          let c = distribution ! i mod 2 ^ 32; cutoffs = cutoffs[i := c]
          in if c > entry_size then (cutoffs, i # overfull, underfull)
             else if c < entry_size then (cutoffs, overfull, i # underfull)
             else (cutoffs, overfull, underfull))
        (replicate table_size 0, [], []) [0..<length distribution])
       [length distribution..<table_size]"

function reassign :: "int \<Rightarrow> alias_state \<Rightarrow> (int list \<times> Entry list) outcome" where
  "reassign entry_size (cutoffs, a, [], underfull) = Inr (cutoffs, a)"
| "reassign entry_size (cutoffs, a, ov # overfull, []) = Inl kGenericError"
| "reassign entry_size (cutoffs, a, ov # overfull, un # underfull) =
     (let underfull_by = (entry_size - cutoffs ! un) mod 2 ^ 32;
          c = (cutoffs ! ov - underfull_by) mod 2 ^ 32;
          cutoffs = cutoffs[ov := c];
          a = a[un := (a ! un)\<lparr> right_value := of_nat ov, offsets1 := of_int c \<rparr>]
      in if c < entry_size then reassign entry_size (cutoffs, a, overfull, ov # underfull)
         else if c > entry_size then reassign entry_size (cutoffs, a, ov # overfull, underfull)
         else reassign entry_size (cutoffs, a, overfull, underfull))"
  by pat_completeness auto
termination
  by (relation "measure (\<lambda>(E, cs, a, ov, un). length ov + length un)") (auto simp: Let_def)

definition finish_entry :: "int list \<Rightarrow> int \<Rightarrow> int list \<Rightarrow> nat \<Rightarrow> Entry \<Rightarrow> Entry" where
  "finish_entry distribution entry_size cutoffs i e =
     (let e = (if cutoffs ! i = entry_size
               then e\<lparr> right_value := of_nat i, offsets1 := 0, cutoff := 0 \<rparr>
               else e\<lparr> offsets1 := offsets1 e - of_int (cutoffs ! i), cutoff := of_int (cutoffs ! i) \<rparr>);
          f0 = (if i < length distribution then distribution ! i else 0);
          i1 = unat (right_value e);
          f1 = (if i1 < length distribution then distribution ! i1 else 0)
      in e\<lparr> freq0 := of_int f0, freq1_xor_freq0 := of_int (f1 XOR f0) \<rparr>)"

definition single_entry :: "u8 \<Rightarrow> int \<Rightarrow> nat \<Rightarrow> Entry" where
  "single_entry symb entry_size i =
     \<lparr> cutoff = 0, right_value = symb, freq0 = 0, offsets1 = of_int (entry_size * int i),
       freq1_xor_freq0 = of_nat ANS_TAB_SIZE \<rparr>"

definition InitAliasTable :: "int list \<Rightarrow> nat \<Rightarrow> nat \<Rightarrow> Entry list \<Rightarrow> Entry list outcome" where
  "InitAliasTable distribution log_range log_alpha_size a =
     (let range = (2::nat) ^ log_range; table_size = (2::nat) ^ log_alpha_size in
      if \<not> table_size \<le> range then Inl kGenericError else
      let distribution = trim_zeros distribution;
          distribution = (if distribution = [] then [int range] else distribution) in
      if \<not> length distribution \<le> table_size then Inl kGenericError else
      let entry_size = int (range div 2 ^ log_alpha_size) in
      and_then (scan_single distribution 0 (- 1) 0) (\<lambda>(single_symbol, s).
      if s mod 2 ^ 32 \<noteq> int range then Inl kGenericError else
      if single_symbol \<noteq> - 1 then
        (let symb = of_int single_symbol :: u8 in
         if single_symbol \<noteq> uint symb then Inl kGenericError
         else Inr (map (single_entry symb entry_size) [0..<table_size] @ drop table_size a))
      else
      let (cutoffs, overfull, underfull) = init_cutoffs distribution table_size entry_size in
      and_then (reassign entry_size (cutoffs, a, overfull, underfull)) (\<lambda>(cutoffs, a).
        Inr (map (\<lambda>i. finish_entry distribution entry_size cutoffs i (a ! i)) [0..<table_size] @
             drop table_size a))))"

section \<open>Flat histograms\<close>

lemma foldl_incr:
  "n \<le> length xs \<Longrightarrow> foldl (\<lambda>r i. r[i := r ! i + 1]) xs [0..<n] = map (\<lambda>x. x + (1::int)) (take n xs) @ drop n xs"
proof (induction n)
  case (Suc n)
  then have "n < length xs" by simp
  with Suc show ?case
    by (simp add: nth_append list_update_append Cons_nth_drop_Suc [symmetric] take_Suc_conv_app_nth)
qed simp

lemma CreateFlatHistogram_eq:
  assumes "0 < len"
  shows "CreateFlatHistogram len total_count =
    replicate (total_count mod len) (int (total_count div len) + 1) @
    replicate (len - total_count mod len) (int (total_count div len))"
  using assms by (simp add: CreateFlatHistogram_def Let_def foldl_incr)

text \<open>A flat histogram of \<open>len\<close> symbols (at most as many as the total) adds up to the total, its
  counts are positive and never increase along the histogram, and any two of them differ by at most
  one.\<close>

theorem CreateFlatHistogram_correct:
  assumes "0 < len" and "len \<le> total_count"
  shows "length (CreateFlatHistogram len total_count) = len \<and>
    sum_list (CreateFlatHistogram len total_count) = int total_count \<and>
    (\<forall>i j. i \<le> j \<longrightarrow> j < len \<longrightarrow>
       0 < CreateFlatHistogram len total_count ! j \<and>
       CreateFlatHistogram len total_count ! j \<le> CreateFlatHistogram len total_count ! i \<and>
       CreateFlatHistogram len total_count ! i \<le> CreateFlatHistogram len total_count ! j + 1)"
proof -
  let ?q = "total_count div len" and ?r = "total_count mod len"
  let ?h = "CreateFlatHistogram len total_count"
  have r: "?r < len" using assms(1) by simp
  have q: "0 < ?q" using assms by (simp add: div_greater_zero_iff)
  have nth: "?h ! i = int ?q + of_bool (i < ?r)" if "i < len" for i
    using that r unfolding CreateFlatHistogram_eq [OF assms(1)] nth_append by auto
  have "?r * (?q + 1) + (len - ?r) * ?q = (?r + (len - ?r)) * ?q + ?r" by (simp only: algebra_simps)
  also have "\<dots> = len * ?q + ?r" using r by simp
  finally have "?r * (?q + 1) + (len - ?r) * ?q = total_count" by simp
  then have "int (?r * (?q + 1) + (len - ?r) * ?q) = int total_count" by (rule arg_cong)
  then have "int ?r * (int ?q + 1) + int (len - ?r) * int ?q = int total_count"
    by (simp only: of_nat_add of_nat_mult of_nat_1)
  then have "sum_list ?h = int total_count"
    unfolding CreateFlatHistogram_eq [OF assms(1)] sum_list_append sum_list_replicate .
  moreover have "length ?h = len" using r by (simp add: CreateFlatHistogram_eq [OF assms(1)])
  ultimately show ?thesis using nth q by (auto simp: of_bool_def)
qed

theorem CreateFlatHistogram_correct_witness:
  "sum_list (CreateFlatHistogram 5 4096) = 4096 \<and> CreateFlatHistogram 5 4096 = [820, 819, 819, 819, 819]"
proof -
  have "4096 mod 5 = (1::nat)" "4096 div 5 = (819::nat)" by simp_all
  then have "CreateFlatHistogram 5 4096 = replicate 1 820 @ replicate 4 819"
    by (subst CreateFlatHistogram_eq) simp_all
  then show ?thesis using CreateFlatHistogram_correct [of 5 4096] by (simp add: numeral_eq_Suc)
qed

section \<open>The invariant of the reassignment\<close>

text \<open>
  \<open>D\<close> is the distribution padded to the table size and \<open>E\<close> the entry size.  An entry is filled once
  it has left the underfull stack.  The part of a symbol above its current cutoff lies in the right
  parts of filled entries, and the entries not yet filled hold \<open>E\<close> slots on average.
\<close>

definition filled :: "int \<Rightarrow> int list \<Rightarrow> nat list \<Rightarrow> nat set" where
  "filled E cs un = {i. i < length cs \<and> cs ! i < E \<and> i \<notin> set un}"

abbreviation rv :: "Entry list \<Rightarrow> nat \<Rightarrow> nat" where "rv a i \<equiv> unat (right_value (a ! i))"
abbreviation offs :: "Entry list \<Rightarrow> nat \<Rightarrow> int" where "offs a i \<equiv> uint (offsets1 (a ! i))"

definition alias_inv :: "int list \<Rightarrow> int \<Rightarrow> int list \<Rightarrow> Entry list \<Rightarrow> nat list \<Rightarrow> nat list \<Rightarrow> bool" where
  "alias_inv D E cs a ov un \<longleftrightarrow>
     length cs = length D \<and> length D \<le> length a \<and>
     distinct ov \<and> set ov = {i. i < length D \<and> cs ! i > E} \<and>
     distinct un \<and> set un \<subseteq> {i. i < length D \<and> cs ! i < E} \<and>
     (\<forall>i < length D. 0 \<le> cs ! i \<and> cs ! i \<le> D ! i) \<and>
     (\<Sum>i \<in> {..<length D} - filled E cs un. cs ! i - E) = 0 \<and>
     (\<forall>i \<in> filled E cs un. rv a i < length D \<and> cs ! rv a i \<le> offs a i \<and> cs ! i \<le> offs a i \<and>
        offs a i + (E - cs ! i) \<le> D ! rv a i) \<and>
     (\<forall>s < length D. \<forall>k. cs ! s \<le> k \<longrightarrow> k < D ! s \<longrightarrow>
        (\<exists>i \<in> filled E cs un. rv a i = s \<and> offs a i \<le> k \<and> k < offs a i + (E - cs ! i)))"

text \<open>What the fields of an entry can hold.\<close>

definition table_fits :: "int list \<Rightarrow> int \<Rightarrow> bool" where
  "table_fits D E \<longleftrightarrow> length D \<le> 256 \<and> 0 < E \<and> E \<le> 256 \<and> (\<forall>i < length D. 0 \<le> D ! i \<and> D ! i \<le> 4096)"

lemma nonfilled_underfull:
  "i \<in> {..<length D} - filled E cs [] \<Longrightarrow> length cs = length D \<Longrightarrow> E \<le> cs ! i"
  by (auto simp: filled_def)

lemma alias_inv_underfull_nonempty:
  assumes "alias_inv D E cs a (x # ov) []"
  shows False
proof -
  have x: "x < length D" "cs ! x > E" and l: "length cs = length D"
    using assms by (auto simp: alias_inv_def)
  have "0 < (\<Sum>i \<in> {..<length D} - filled E cs []. cs ! i - E)"
  proof (rule sum_pos2)
    show "x \<in> {..<length D} - filled E cs []" using x by (simp add: filled_def)
    show "0 \<le> cs ! i - E" if "i \<in> {..<length D} - filled E cs []" for i
      using nonfilled_underfull [OF that l] by simp
  qed (use x in simp_all)
  then show False using assms by (simp add: alias_inv_def)
qed

lemma alias_inv_done:
  assumes "alias_inv D E cs a [] un"
  shows "un = []"
proof (rule ccontr)
  assume "un \<noteq> []"
  then obtain x where x: "x \<in> set un" by (cases un) auto
  then have x': "x < length D" "cs ! x < E" using assms by (auto simp: alias_inv_def)
  have le: "cs ! i \<le> E" if "i < length D" for i
    using assms that by (fastforce simp: alias_inv_def)
  have "0 < (\<Sum>i \<in> {..<length D} - filled E cs un. E - cs ! i)"
  proof (rule sum_pos2)
    show "x \<in> {..<length D} - filled E cs un" using x x' by (simp add: filled_def)
  qed (use x' le in auto)
  also have "\<dots> = - (\<Sum>i \<in> {..<length D} - filled E cs un. cs ! i - E)"
    by (simp add: sum_negf [symmetric])
  also have "\<dots> = 0" using assms by (simp add: alias_inv_def)
  finally show False by simp
qed

lemma alias_step:
  assumes inv: "alias_inv D E cs a (x # ov) (y # un)" and fits: "table_fits D E"
  defines "c \<equiv> cs ! x - (E - cs ! y)"
  defines "cs' \<equiv> cs[x := c]"
    and "a' \<equiv> a[y := (a ! y)\<lparr> right_value := of_nat x, offsets1 := of_int c \<rparr>]"
    and "ov' \<equiv> (if c > E then x # ov else ov)" and "un' \<equiv> (if c < E then x # un else un)"
  shows "alias_inv D E cs' a' ov' un'" and "0 \<le> c" and "c < 2 ^ 32" and "0 \<le> E - cs ! y"
    and "E - cs ! y < 2 ^ 32"
proof -
  have l: "length cs = length D" "length D \<le> length a" and dov: "x \<notin> set ov" "distinct ov"
    and sov: "insert x (set ov) = {i. i < length D \<and> cs ! i > E}"
    and dun: "y \<notin> set un" "distinct un"
    and sun: "insert y (set un) \<subseteq> {i. i < length D \<and> cs ! i < E}"
    and bnd: "\<And>i. i < length D \<Longrightarrow> 0 \<le> cs ! i \<and> cs ! i \<le> D ! i"
    and sm: "(\<Sum>i \<in> {..<length D} - filled E cs (y # un). cs ! i - E) = 0"
    and into: "\<And>i. i \<in> filled E cs (y # un) \<Longrightarrow> rv a i < length D \<and> cs ! rv a i \<le> offs a i \<and>
        cs ! i \<le> offs a i \<and> offs a i + (E - cs ! i) \<le> D ! rv a i"
    and onto: "\<And>s k. s < length D \<Longrightarrow> cs ! s \<le> k \<Longrightarrow> k < D ! s \<Longrightarrow>
        \<exists>i \<in> filled E cs (y # un). rv a i = s \<and> offs a i \<le> k \<and> k < offs a i + (E - cs ! i)"
    using inv by (auto simp: alias_inv_def)
  let ?F = "filled E cs (y # un)"
  have x: "x < length D" "cs ! x > E" using sov by auto
  have y: "y < length D" "cs ! y < E" using sun by auto
  have xy: "x \<noteq> y" using x y by auto
  have cy: "cs ! y < c" "c < cs ! x" "0 \<le> cs ! y" "c \<le> D ! x" using x y bnd [of x] bnd [of y] by (auto simp: c_def)
  have D: "D ! x \<le> 4096" "E \<le> 256" "length D \<le> 256" using fits x by (auto simp: table_fits_def)
  show "0 \<le> c" "c < 2 ^ 32" "0 \<le> E - cs ! y" "E - cs ! y < 2 ^ 32" using cy y D by auto
  have F: "filled E cs' un' = insert y ?F"
    using l x y xy dun by (auto simp: filled_def cs'_def un'_def nth_list_update)
  have nx: "x \<notin> ?F" and ny: "y \<notin> ?F" using x by (auto simp: filled_def)
  have cs': "cs' ! i = (if i = x then c else cs ! i)" if "i < length D" for i
    using that l by (simp add: cs'_def nth_list_update)
  have a'y: "rv a' y = x" "offs a' y = c"
  proof -
    have "unat (of_nat x :: u8) = x" using x D by (simp add: unsigned_of_nat take_bit_nat_eq_self)
    moreover have "uint (of_int c :: u16) = c"
      using cy D by (simp add: unsigned_of_int take_bit_int_eq_self)
    ultimately show "rv a' y = x" "offs a' y = c" using y l by (simp_all add: a'_def)
  qed
  have a': "rv a' i = rv a i" "offs a' i = offs a i" if "i \<in> ?F" for i
  proof -
    have "i \<noteq> y" using that ny by auto
    then show "rv a' i = rv a i" "offs a' i = offs a i" by (simp_all add: a'_def)
  qed
  have Fl: "i < length D" if "i \<in> ?F" for i using that l by (auto simp: filled_def)
  let ?R = "{..<length D} - ?F - {x, y}"
  have "(\<Sum>i \<in> {..<length D} - ?F. cs ! i - E) = (\<Sum>i \<in> insert x (insert y ?R). cs ! i - E)"
    using x y nx ny by (intro sum.cong) auto
  also have "\<dots> = (cs ! x - E) + (cs ! y - E) + (\<Sum>i \<in> ?R. cs ! i - E)"
    using xy by simp
  finally have s1: "(cs ! x - E) + (cs ! y - E) + (\<Sum>i \<in> ?R. cs ! i - E) = 0" using sm by simp
  have "(\<Sum>i \<in> {..<length D} - insert y ?F. cs' ! i - E) = (\<Sum>i \<in> insert x ?R. cs' ! i - E)"
    using x xy nx by (intro sum.cong) auto
  also have "\<dots> = (c - E) + (\<Sum>i \<in> ?R. cs' ! i - E)" using x cs' by simp
  also have "(\<Sum>i \<in> ?R. cs' ! i - E) = (\<Sum>i \<in> ?R. cs ! i - E)" using cs' by (intro sum.cong) auto
  finally have s2: "(\<Sum>i \<in> {..<length D} - insert y ?F. cs' ! i - E) = 0" using s1 by (simp add: c_def)
  show "alias_inv D E cs' a' ov' un'"
    unfolding alias_inv_def F
  proof (intro conjI allI impI ballI)
    show "length cs' = length D" "length D \<le> length a'" using l by (simp_all add: cs'_def a'_def)
    show "distinct ov'" using dov by (simp add: ov'_def)
    have "set ov = {i. i < length D \<and> cs ! i > E} - {x}" using sov dov by auto
    then show "set ov' = {i. i < length D \<and> E < cs' ! i}"
      using x cs' by (auto simp: ov'_def split: if_splits)
    have "x \<notin> set un" using sun x by auto
    then show "distinct un'" using dun by (simp add: un'_def)
    have "cs' ! i < E" if "i \<in> set un" for i
    proof -
      have "i < length D" "cs ! i < E" using that sun by auto
      then show ?thesis using x cs' by auto
    qed
    then show "set un' \<subseteq> {i. i < length D \<and> cs' ! i < E}"
      using sun x y cs' by (auto simp: un'_def)
    show "0 \<le> cs' ! i" "cs' ! i \<le> D ! i" if "i < length D" for i
      using that bnd [of i] cy cs' by auto
    show "(\<Sum>i \<in> {..<length D} - insert y ?F. cs' ! i - E) = 0" by (rule s2)
  next
    fix i assume i: "i \<in> insert y ?F"
    show "rv a' i < length D" "cs' ! rv a' i \<le> offs a' i" "cs' ! i \<le> offs a' i"
      "offs a' i + (E - cs' ! i) \<le> D ! rv a' i"
      using i into [of i] a' [of i] a'y cy x y xy nx bnd [of x] cs' Fl [of i] by (auto simp: c_def)
  next
    fix s k assume s: "s < length D" and k: "cs' ! s \<le> k" "k < D ! s"
    show "\<exists>i \<in> insert y ?F. rv a' i = s \<and> offs a' i \<le> k \<and> k < offs a' i + (E - cs' ! i)"
    proof (cases "s = x \<and> k < cs ! x")
      case True
      then show ?thesis using k a'y cs' x y xy by (auto simp: c_def)
    next
      case False
      then have "cs ! s \<le> k" using k cs' s by (auto split: if_splits)
      then obtain i where i: "i \<in> ?F" "rv a i = s" "offs a i \<le> k" "k < offs a i + (E - cs ! i)"
        using onto [OF s _ k(2)] by auto
      then have "i \<noteq> x" using nx by auto
      with i show ?thesis using a' [of i] cs' Fl [of i] by auto
    qed
  qed
qed

lemma reassign_ok:
  "alias_inv D E cs a ov un \<Longrightarrow> table_fits D E \<Longrightarrow>
   \<exists>cs' a'. reassign E (cs, a, ov, un) = Inr (cs', a') \<and> length a' = length a \<and> alias_inv D E cs' a' [] []"
proof (induction E "(cs, a, ov, un)" arbitrary: cs a ov un rule: reassign.induct)
  case (1 E cs a un)
  then show ?case using alias_inv_done [OF 1(1)] by auto
next
  case (2 E cs a x ov)
  then show ?case using alias_inv_underfull_nonempty by blast
next
  case (3 E cs a x ov y un)
  define by' where "by' = (E - cs ! y) mod 2 ^ 32"
  define c where "c = (cs ! x - by') mod 2 ^ 32"
  define a' where "a' = a[y := (a ! y)\<lparr> right_value := of_nat x, offsets1 := of_int c \<rparr>]"
  note st = alias_step [OF 3(4,5)]
  have b: "by' = E - cs ! y" using st(4,5) by (simp add: by'_def)
  have c: "c = cs ! x - (E - cs ! y)" using st(2,3) by (simp add: c_def b)
  note inv = st(1) [folded c, folded a'_def]
  have l: "length a' = length a" by (simp add: a'_def)
  note IH = 3(1-3) [OF by'_def c_def refl a'_def]
  have eq: "reassign E (cs, a, x # ov, y # un) =
      (if c < E then reassign E (cs[x := c], a', ov, x # un)
       else if c > E then reassign E (cs[x := c], a', x # ov, un)
       else reassign E (cs[x := c], a', ov, un))"
    by (simp add: Let_def c_def by'_def a'_def)
  consider "c < E" | "c > E" | "c = E" by linarith
  then show ?case
  proof cases
    case 1
    then show ?thesis using IH(1) inv 3(5) l unfolding eq by simp
  next
    case 2
    then show ?thesis using IH(2) inv 3(5) l unfolding eq by simp
  next
    case 3
    then show ?thesis using IH(3) inv \<open>table_fits D E\<close> l unfolding eq by simp
  qed
qed

text \<open>The old contents of the table memory do not matter: entries filled from equal states agree.\<close>

definition agree :: "nat set \<Rightarrow> Entry list \<Rightarrow> Entry list \<Rightarrow> bool" where
  "agree F a b \<longleftrightarrow> (\<forall>i \<in> F. right_value (a ! i) = right_value (b ! i) \<and> offsets1 (a ! i) = offsets1 (b ! i))"

lemma alias_inv_mem:
  assumes "alias_inv D E cs a ov un" and "agree (filled E cs un) a b" and "length D \<le> length b"
  shows "alias_inv D E cs b ov un"
  using assms unfolding alias_inv_def agree_def by simp

lemma reassign_agree:
  "alias_inv D E cs a ov un \<Longrightarrow> table_fits D E \<Longrightarrow> agree (filled E cs un) a b \<Longrightarrow> length D \<le> length b \<Longrightarrow>
   reassign E (cs, a, ov, un) = Inr (cs', a') \<Longrightarrow>
   \<exists>b'. reassign E (cs, b, ov, un) = Inr (cs', b') \<and> length b' = length b \<and> agree (filled E cs' []) a' b'"
proof (induction E "(cs, a, ov, un)" arbitrary: cs a ov un b rule: reassign.induct)
  case (1 E cs a un)
  then show ?case using alias_inv_done [OF 1(1)] by auto
next
  case (2 E cs a x ov)
  then show ?case using alias_inv_underfull_nonempty by blast
next
  case (3 E cs a x ov y un)
  define by' where "by' = (E - cs ! y) mod 2 ^ 32"
  define c where "c = (cs ! x - by') mod 2 ^ 32"
  define upd where "upd = (\<lambda>e :: Entry. e\<lparr> right_value := of_nat x, offsets1 := of_int c \<rparr>)"
  define a1 where "a1 = a[y := upd (a ! y)]"
  define b1 where "b1 = b[y := upd (b ! y)]"
  note st = alias_step [OF 3(4,5)]
  have b: "by' = E - cs ! y" using st(4,5) by (simp add: by'_def)
  have c: "c = cs ! x - (E - cs ! y)" using st(2,3) by (simp add: c_def b)
  have a1: "a1 = a[y := (a ! y)\<lparr> right_value := of_nat x, offsets1 := of_int c \<rparr>]"
    by (simp add: a1_def upd_def)
  note inv = st(1) [folded c, folded a1]
  let ?ov = "if c > E then x # ov else ov" and ?un = "if c < E then x # un else un"
  have y: "y < length D" "y < length a" "y < length b"
    using 3(4,7) by (auto simp: alias_inv_def)
  have F: "filled E (cs[x := c]) ?un \<subseteq> insert y (filled E cs (y # un))"
  proof -
    have "length cs = length D" "x < length D" "cs ! x > E" using 3(4) by (auto simp: alias_inv_def)
    then show ?thesis by (auto simp: filled_def nth_list_update split: if_splits)
  qed
  have ag: "agree (filled E (cs[x := c]) ?un) a1 b1"
    unfolding agree_def
  proof
    fix i assume "i \<in> filled E (cs[x := c]) ?un"
    with F have "i = y \<or> i \<noteq> y \<and> i \<in> filled E cs (y # un)" by auto
    then show "right_value (a1 ! i) = right_value (b1 ! i) \<and> offsets1 (a1 ! i) = offsets1 (b1 ! i)"
      using 3(6) y by (auto simp: a1_def b1_def agree_def upd_def)
  qed
  have lb: "length D \<le> length b1" "length b1 = length b" using 3(7) by (simp_all add: b1_def)
  note IH = 3(1-3) [OF by'_def c_def refl a1]
  have eq: "reassign E (cs, m, x # ov, y # un) =
      (if c < E then reassign E (cs[x := c], m[y := upd (m ! y)], ov, x # un)
       else if c > E then reassign E (cs[x := c], m[y := upd (m ! y)], x # ov, un)
       else reassign E (cs[x := c], m[y := upd (m ! y)], ov, un))" for m
    by (simp add: Let_def c_def by'_def upd_def)
  note R = 3(8) [unfolded eq, folded a1_def]
  consider "c < E" | "c > E" | "c = E" by linarith
  then show ?case
  proof cases
    case 1
    then show ?thesis using IH(1) [where b = b1] inv 3(5) ag lb R unfolding eq b1_def [symmetric] by simp
  next
    case 2
    then show ?thesis using IH(2) [where b = b1] inv 3(5) ag lb R unfolding eq b1_def [symmetric] by simp
  next
    case 3
    then show ?thesis using IH(3) [where b = b1] inv \<open>table_fits D E\<close> ag lb R unfolding eq b1_def [symmetric] by simp
  qed
qed

definition padded :: "int list \<Rightarrow> nat \<Rightarrow> int list" where
  "padded D T = D @ replicate (T - length D) 0"

lemma padded_nth: "i < T \<Longrightarrow> length D \<le> T \<Longrightarrow> padded D T ! i = (if i < length D then D ! i else 0)"
  by (auto simp: padded_def nth_append)

lemma init_cutoffs_eq:
  assumes "length D \<le> T" and "\<forall>x \<in> set D. 0 \<le> x \<and> x < 2 ^ 32" and "0 < E"
  shows "init_cutoffs D T E =
    (padded D T, rev (filter (\<lambda>i. padded D T ! i > E) [0..<T]), rev (filter (\<lambda>i. padded D T ! i < E) [0..<T]))"
proof -
  let ?P = "padded D T"
  define f where "f = (\<lambda>(cutoffs, overfull, underfull) i.
          let c = D ! i mod 2 ^ 32; cutoffs = cutoffs[i := c]
          in if c > E then (cutoffs, i # overfull, underfull)
             else if c < E then (cutoffs, overfull, i # underfull)
             else (cutoffs, overfull, underfull))"
  define g where "g = (\<lambda>(cutoffs :: int list, overfull :: nat list, underfull) i.
      (cutoffs[i := 0], overfull, i # underfull))"
  have D: "0 \<le> D ! i" "D ! i mod 2 ^ 32 = D ! i" if "i < length D" for i
    using assms(2) nth_mem [OF that] by auto
  have f: "foldl f (replicate T 0, [], []) [0..<n] =
      (take n D @ replicate (T - n) 0, rev (filter (\<lambda>i. ?P ! i > E) [0..<n]),
       rev (filter (\<lambda>i. ?P ! i < E) [0..<n]))" if "n \<le> length D" for n
    using that
  proof (induction n)
    case (Suc n)
    then have n: "n < length D" "n < T" using assms(1) by auto
    have "(take n D @ replicate (T - n) 0)[n := D ! n] = take (Suc n) D @ replicate (T - Suc n) 0"
      using n by (simp add: list_update_append take_Suc_conv_app_nth Suc_diff_Suc [symmetric])
    moreover have "?P ! n = D ! n" using n by (simp add: padded_nth assms(1))
    ultimately show ?case using Suc n D [of n] by (simp add: f_def Let_def)
  qed simp
  have g: "foldl g (?P, ov, un) [length D..<m] = (?P, ov, rev [length D..<m] @ un)"
    if "length D \<le> m" "m \<le> T" for m ov un
    using that
  proof (induction m)
    case (Suc m)
    show ?case
    proof (cases "length D = Suc m")
      case False
      then have "?P[m := 0] = ?P" using Suc.prems assms(1)
        by (intro nth_equalityI) (auto simp: nth_list_update padded_def nth_append)
      then show ?thesis using Suc False by (simp add: g_def)
    qed simp
  qed simp
  have split: "[0..<T] = [0..<length D] @ [length D..<T]"
    using assms(1) by (metis le_Suc_ex plus_nat.add_0 upt_add_eq_append zero_le)
  have hi: "filter (\<lambda>i. ?P ! i > E) [length D..<T] = []" "filter (\<lambda>i. ?P ! i < E) [length D..<T] = [length D..<T]"
    using assms by (auto simp: padded_nth filter_empty_conv filter_id_conv)
  have "init_cutoffs D T E = foldl g (foldl f (replicate T 0, [], []) [0..<length D]) [length D..<T]"
    unfolding init_cutoffs_def f_def g_def ..
  also have "\<dots> = (?P, rev (filter (\<lambda>i. ?P ! i > E) [0..<T]), rev (filter (\<lambda>i. ?P ! i < E) [0..<T]))"
    unfolding split by (simp add: f g assms(1) hi padded_def [symmetric])
  finally show ?thesis .
qed

lemma alias_inv_init:
  assumes "length D = T" and "T \<le> length a" and "\<forall>i < T. 0 \<le> D ! i" and "sum_list D = int T * E"
  shows "alias_inv D E D a (rev (filter (\<lambda>i. D ! i > E) [0..<T])) (rev (filter (\<lambda>i. D ! i < E) [0..<T]))"
proof -
  have F: "filled E D (rev (filter (\<lambda>i. D ! i < E) [0..<T])) = {}"
    using assms(1) by (auto simp: filled_def)
  have "(\<Sum>i<T. D ! i - E) = (\<Sum>i<T. D ! i) - int T * E" by (simp add: sum_subtractf)
  also have "(\<Sum>i<T. D ! i) = sum_list D" using assms(1) by (simp add: sum_list_sum_nth atLeast0LessThan)
  finally have "(\<Sum>i<T. D ! i - E) = 0" using assms(4) by simp
  then show ?thesis unfolding alias_inv_def F using assms by auto
qed

section \<open>The finished table\<close>

text \<open>The symbol and rank that position \<open>pos\<close> of entry \<open>i\<close> stands for once the stacks are empty.\<close>

definition slot :: "int \<Rightarrow> int list \<Rightarrow> Entry list \<Rightarrow> nat \<Rightarrow> nat \<Rightarrow> nat \<times> nat" where
  "slot E cs a i pos =
     (if cs ! i = E \<or> int pos < cs ! i then (i, pos)
      else (rv a i, nat (offs a i + int pos - cs ! i)))"

lemma slot_lookup:
  assumes inv: "alias_inv D E cs a [] []" and fits: "table_fits D E"
    and D: "D = padded D0 (length D)" "length D0 \<le> length D" and i: "i < length D" and pos: "int pos < E"
  defines "e \<equiv> finish_entry D0 E cs i (a ! i)"
  defines "g \<equiv> pos \<ge> unat (cutoff e)"
  shows "((if g then unat (right_value e) else i), unat (if g then offsets1 e else 0) + pos) = slot E cs a i pos"
    (is "?pair = _")
    and "int (unat (freq0 e XOR (if g then freq1_xor_freq0 e else 0))) = D ! fst (slot E cs a i pos)"
    and "fst (slot E cs a i pos) < length D"
    and "int (snd (slot E cs a i pos)) < D ! fst (slot E cs a i pos)"
proof -
  have l: "length cs = length D" and le: "cs ! i \<le> E" and b: "0 \<le> cs ! i" "cs ! i \<le> D ! i"
    using inv i by (force simp: alias_inv_def)+
  have fl: "i \<in> filled E cs []" if "cs ! i \<noteq> E" using that le i l by (auto simp: filled_def)
  have r: "rv a i < length D" "cs ! i \<le> offs a i" "offs a i + (E - cs ! i) \<le> D ! rv a i" if "cs ! i \<noteq> E"
    using inv fl [OF that] by (auto simp: alias_inv_def)
  have Dn: "(if k < length D0 then D0 ! k else 0) = D ! k" if "k < length D" for k
    using padded_nth [OF that D(2)] D(1) by simp
  have DB: "0 \<le> D ! k \<and> D ! k \<le> 4096" if "k < length D" for k
    using fits that by (auto simp: table_fits_def)
  have E: "0 < E" "E \<le> 256" and len: "length D \<le> 256" using fits by (auto simp: table_fits_def)
  have u8: "uint (of_int k :: u8) = k" if "0 \<le> k" "k < 256" for k
    using that by (simp add: unsigned_of_int take_bit_int_eq_self)
  have i8: "unat (of_nat i :: u8) = i"
    using i len by (simp add: unsigned_of_nat take_bit_nat_eq_self)
  have fx: "int (unat ((of_int x :: u16) XOR of_int (y XOR x))) = y" "int (unat (of_int y :: u16)) = y"
    if "0 \<le> y \<and> y \<le> 4096" for x y
  proof -
    have "(of_int x :: u16) XOR of_int (y XOR x) = of_int y"
      unfolding of_int_xor_eq by (rule bit_word_eqI) (auto simp: bit_xor_iff)
    then show "int (unat ((of_int x :: u16) XOR of_int (y XOR x))) = y" "int (unat (of_int y :: u16)) = y"
      using that by (simp_all add: unsigned_of_int take_bit_int_eq_self)
  qed
  have "?pair = slot E cs a i pos \<and>
      int (unat (freq0 e XOR (if g then freq1_xor_freq0 e else 0))) = D ! fst (slot E cs a i pos) \<and>
      fst (slot E cs a i pos) < length D \<and> int (snd (slot E cs a i pos)) < D ! fst (slot E cs a i pos)"
  proof (cases "cs ! i = E")
    case True
    have e: "cutoff e = 0" "unat (right_value e) = i" "offsets1 e = 0" "freq0 e = of_int (D ! i)"
      "freq1_xor_freq0 e = of_int (D ! i XOR D ! i)"
      using True i8 Dn [OF i] by (simp_all add: e_def finish_entry_def Let_def split: if_splits)
    then have g: g by (simp add: g_def)
    show ?thesis
      using e g True i b pos fx(1) [OF DB [OF i], of "D ! i"] by (simp add: slot_def)
  next
    case False
    note r = r [OF False]
    have e: "cutoff e = of_int (cs ! i)" "right_value e = right_value (a ! i)"
      "offsets1 e = offsets1 (a ! i) - of_int (cs ! i)" "freq0 e = of_int (D ! i)"
      "freq1_xor_freq0 e = of_int (D ! rv a i XOR D ! i)"
      using False Dn [OF i] Dn [OF r(1)]
      by (simp_all add: e_def finish_entry_def Let_def split: if_splits)
    have c: "int (unat (cutoff e)) = cs ! i" using u8 [of "cs ! i"] b le E False by (simp add: e)
    then have g: "g \<longleftrightarrow> cs ! i \<le> int pos" unfolding g_def by (metis of_nat_le_iff)
    have "uint (of_int (cs ! i) :: u16) = cs ! i"
      using b le E by (simp add: unsigned_of_int take_bit_int_eq_self)
    then have o1: "int (unat (offsets1 e)) = offs a i - cs ! i"
      using r(2) b by (simp add: e uint_sub_if_size)
    show ?thesis
    proof (cases g)
      case True
      have "int (unat (offsets1 e) + pos) = offs a i + int pos - cs ! i" using o1 by simp
      then have k: "nat (offs a i + int pos - cs ! i) = unat (offsets1 e) + pos"
        and lt: "int (unat (offsets1 e) + pos) < D ! rv a i" using r(3) pos by linarith+
      have sl: "slot E cs a i pos = (rv a i, unat (offsets1 e) + pos)"
        using g True False by (simp add: slot_def k)
      show ?thesis unfolding sl using True r(1) lt fx(1) [OF DB [OF r(1)], of "D ! i"] by (simp add: e)
    next
      case F: False
      then show ?thesis using g False i b fx(2) [OF DB [OF i]] by (simp add: slot_def e)
    qed
  qed
  then show "?pair = slot E cs a i pos"
    "int (unat (freq0 e XOR (if g then freq1_xor_freq0 e else 0))) = D ! fst (slot E cs a i pos)"
    "fst (slot E cs a i pos) < length D"
    "int (snd (slot E cs a i pos)) < D ! fst (slot E cs a i pos)" by simp_all
qed

lemma slot_onto:
  assumes inv: "alias_inv D E cs a [] []" and s: "s < length D" "int k < D ! s"
  shows "\<exists>i < length D. \<exists>pos. int pos < E \<and> slot E cs a i pos = (s, k)"
proof (cases "int k < cs ! s")
  case True
  have "cs ! s \<le> E" using inv s(1) by (force simp: alias_inv_def)
  with True s(1) have "s < length D \<and> int k < E \<and> slot E cs a s k = (s, k)" by (simp add: slot_def)
  then show ?thesis by blast
next
  case False
  then have "cs ! s \<le> int k" by simp
  have "\<forall>s < length D. \<forall>k. cs ! s \<le> k \<longrightarrow> k < D ! s \<longrightarrow>
      (\<exists>i \<in> filled E cs []. rv a i = s \<and> offs a i \<le> k \<and> k < offs a i + (E - cs ! i))"
    using inv unfolding alias_inv_def by (elim conjE)
  from this [rule_format, OF s(1) \<open>cs ! s \<le> int k\<close> s(2)]
  obtain i where i: "i \<in> filled E cs []" "rv a i = s" "offs a i \<le> int k" "int k < offs a i + (E - cs ! i)"
    by blast
  have l: "length cs = length D" and b: "0 \<le> cs ! i" using inv i(1) by (auto simp: alias_inv_def filled_def)
  define pos where "pos = nat (int k - offs a i + cs ! i)"
  have p: "int pos = int k - offs a i + cs ! i" using i b by (simp add: pos_def)
  have "i < length D" "cs ! i < E" using i(1) l by (auto simp: filled_def)
  moreover from this i have "int pos < E" "\<not> int pos < cs ! i" unfolding p by linarith+
  moreover from this i p have "slot E cs a i pos = (s, k)" using \<open>cs ! i < E\<close> by (simp add: slot_def)
  ultimately show ?thesis by blast
qed

section \<open>Correctness of the construction\<close>

definition lookup_at :: "Entry list \<Rightarrow> nat \<Rightarrow> nat \<Rightarrow> Symbol" where
  "lookup_at tab la v = Lookup tab v (ANS_LOG_TAB_SIZE - la) (2 ^ (ANS_LOG_TAB_SIZE - la) - 1)"

definition symbol_ranks :: "int list \<Rightarrow> (nat \<times> nat) set" where
  "symbol_ranks D = {(s, k). s < length D \<and> int k < D ! s}"

text \<open>
  What an alias table promises: every slot maps to a symbol with its frequency, and to a rank below
  it; every rank of every symbol is the image of exactly one slot; and a symbol of full weight leaves
  the slot unchanged.
\<close>

definition alias_ok :: "int list \<Rightarrow> nat \<Rightarrow> Entry list \<Rightarrow> bool" where
  "alias_ok D la tab \<longleftrightarrow>
     bij_betw (\<lambda>v. (sym_value (lookup_at tab la v), sym_offset (lookup_at tab la v)))
       {..<ANS_TAB_SIZE} (symbol_ranks D) \<and>
     (\<forall>v < ANS_TAB_SIZE. int (sym_freq (lookup_at tab la v)) = D ! sym_value (lookup_at tab la v)) \<and>
     (\<forall>v < ANS_TAB_SIZE. D ! sym_value (lookup_at tab la v) = int ANS_TAB_SIZE \<longrightarrow>
        sym_offset (lookup_at tab la v) = v)"

lemma card_symbol_ranks:
  assumes "\<forall>x \<in> set D. 0 \<le> x"
  shows "finite (symbol_ranks D)" and "int (card (symbol_ranks D)) = sum_list D"
proof -
  have eq: "symbol_ranks D = Sigma {..<length D} (\<lambda>s. {..<nat (D ! s)})"
    by (auto simp: symbol_ranks_def zless_nat_conj)
  show "finite (symbol_ranks D)" by (simp add: eq)
  have "int (card (symbol_ranks D)) = (\<Sum>s<length D. D ! s)"
    using assms by (simp add: eq)
  then show "int (card (symbol_ranks D)) = sum_list D"
    by (simp add: sum_list_sum_nth atLeast0LessThan)
qed

text \<open>By counting, it is enough that the slots reach every rank of every symbol.\<close>

lemma onto_imp_bij:
  assumes "\<forall>x \<in> set D. 0 \<le> x" and "sum_list D = int n" and "f ` {..<n} = symbol_ranks D"
  shows "bij_betw f {..<n} (symbol_ranks D)"
proof -
  have "card (f ` {..<n}) = card {..<n}"
    using card_symbol_ranks(2) [OF assms(1)] assms(2,3) by simp
  then have "inj_on f {..<n}" by (intro eq_card_imp_inj_on) simp
  then show ?thesis using assms(3) by (simp add: bij_betw_def)
qed

lemma trim_zeros_append:
  obtains n where "D = trim_zeros D @ replicate n 0"
proof -
  have "rev D = takeWhile (\<lambda>x. x = 0) (rev D) @ dropWhile (\<lambda>x. x = 0) (rev D)" by simp
  then have "D = trim_zeros D @ rev (takeWhile (\<lambda>x. x = 0) (rev D))"
    unfolding trim_zeros_def by (metis rev_append rev_rev_ident)
  moreover have "takeWhile (\<lambda>x. x = 0) (rev D) = replicate (length (takeWhile (\<lambda>x. x = 0) (rev D))) 0"
    by (rule replicate_length_same [symmetric]) (auto dest: set_takeWhileD)
  ultimately show ?thesis using that by (metis rev_replicate)
qed

lemma trim_zeros_last: "trim_zeros D \<noteq> [] \<Longrightarrow> last (trim_zeros D) \<noteq> 0"
  using hd_dropWhile [of "\<lambda>x. x = 0" "rev D"] by (simp only: trim_zeros_def last_rev rev_is_Nil_conv) simp

lemma scan_single_none: "int ANS_TAB_SIZE \<notin> set vs \<Longrightarrow> scan_single vs k b s = Inr (b, s + sum_list vs)"
  by (induction vs k b s rule: scan_single.induct) (auto simp: algebra_simps)

lemma scan_single_zeros: "scan_single (replicate j 0 @ vs) k b s = scan_single vs (k + j) b s"
  by (induction j arbitrary: k) (auto simp: ANS_TAB_SIZE_def)

text \<open>A distribution without trailing zeros and with a symbol of full weight has only that symbol.\<close>

lemma full_weight_last:
  assumes "\<forall>x \<in> set D. (0::int) \<le> x" and "sum_list D = m" and "m \<in> set D" and "last D \<noteq> 0"
  shows "D = replicate (length D - 1) 0 @ [m]"
proof -
  from assms(3) obtain xs ys where D: "D = xs @ m # ys" by (auto simp: in_set_conv_decomp)
  have "0 \<le> sum_list xs" "0 \<le> sum_list ys" using assms(1) D by (auto intro: sum_list_nonneg)
  then have "sum_list xs = 0" "sum_list ys = 0" using assms(2) D by auto
  then have z: "\<forall>x \<in> set xs. x = 0" "\<forall>x \<in> set ys. x = 0"
    using assms(1) D by (auto simp: sum_list_nonneg_eq_0_iff)
  have "ys = []" using z(2) assms(4) D by (cases ys rule: rev_cases) auto
  then show ?thesis using z(1) D by (simp add: replicate_length_same)
qed

text \<open>Two tables built from one distribution agree, whatever their memory held: the encoder and the
  decoder look up the same symbols.\<close>

definition memory_free :: "int list \<Rightarrow> nat \<Rightarrow> Entry list \<Rightarrow> bool" where
  "memory_free D la tab \<longleftrightarrow> (\<forall>b. 2 ^ la \<le> length b \<longrightarrow>
     (\<exists>t. InitAliasTable D ANS_LOG_TAB_SIZE la b = Inr t \<and> take (2 ^ la) t = take (2 ^ la) tab))"

lemma table_entries_eqI:
  assumes "\<And>i. i < n \<Longrightarrow> t ! i = t' ! i" and "n \<le> length t" and "n \<le> length t'"
  shows "take n t = take n t'"
  using assms by (intro nth_equalityI) auto

lemma finish_entry_agree:
  assumes "right_value e = right_value e'" and "offsets1 e = offsets1 e'"
  shows "finish_entry D E cs i e = finish_entry D E cs i e'"
  using assms by (simp add: finish_entry_def Let_def)

lemma finish_entry_full: "cs ! i = E \<Longrightarrow> finish_entry D E cs i e = finish_entry D E cs i e'"
  by (simp add: finish_entry_def Let_def)

lemma uint_of_int_id: "0 \<le> k \<Longrightarrow> k < 2 ^ LENGTH('a) \<Longrightarrow> uint (of_int k :: 'a::len word) = k"
  by (simp add: unsigned_of_int take_bit_int_eq_self)

lemma InitAliasTable_single:
  assumes D: "trim_zeros D = replicate j 0 @ [4096]" and la: "j < 2 ^ la" "4 \<le> la" "la \<le> 8"
    and a: "2 ^ la \<le> length a"
  obtains tab where "InitAliasTable D ANS_LOG_TAB_SIZE la a = Inr tab" "length tab = length a"
    "\<forall>v < 4096. lookup_at tab la v = \<lparr> sym_value = j, sym_offset = v, sym_freq = 4096 \<rparr>"
    "memory_free D la tab"
proof -
  let ?E = "2 ^ (12 - la) :: nat"
  have T: "(2::nat) ^ la * ?E = 4096" using la by (simp add: power_add [symmetric])
  have E: "(4096::nat) div 2 ^ la = ?E" using T by (metis nonzero_mult_div_cancel_left power_not_zero zero_neq_numeral)
  have "(2::nat) ^ la \<le> 2 ^ 8" using la by (intro power_increasing) simp_all
  then have j: "j < 256" and la': "(2::nat) ^ la \<le> 4096" using la by simp_all
  have sc: "scan_single (trim_zeros D) 0 (- 1) 0 = Inr (int j, 4096)"
    unfolding D scan_single_zeros by (simp add: ANS_TAB_SIZE_def ANS_LOG_TAB_SIZE_def)
  have u8: "uint (of_int (int j) :: u8) = int j"
    using j by (intro uint_of_int_id) simp_all
  let ?tab = "map (single_entry (of_nat j) (int ?E)) [0..<2 ^ la] @ drop (2 ^ la) a"
  have len: "length (trim_zeros D) \<le> 2 ^ la" "trim_zeros D \<noteq> []" using D la by auto
  have I: "InitAliasTable D ANS_LOG_TAB_SIZE la b =
      Inr (map (single_entry (of_nat j) (int ?E)) [0..<2 ^ la] @ drop (2 ^ la) b)" for b
    using la' len u8 sc E by (simp add: InitAliasTable_def Let_def ANS_LOG_TAB_SIZE_def)
  moreover have "memory_free D la ?tab" by (simp add: I memory_free_def)
  moreover have "lookup_at ?tab la v = \<lparr> sym_value = j, sym_offset = v, sym_freq = 4096 \<rparr>" if v: "v < 4096" for v
  proof -
    have i: "v div ?E < 2 ^ la" using v T by (metis less_mult_imp_div_less)
    have "int (v div ?E) * int ?E \<le> int v" by (metis div_times_less_eq_dividend of_nat_le_iff of_nat_mult)
    then have "int ?E * int (v div ?E) < 4096" using v by (simp add: mult.commute)
    then have "uint (of_int (int ?E * int (v div ?E)) :: u16) = int ?E * int (v div ?E)"
      by (intro uint_of_int_id) simp_all
    then have ofs: "unat (of_int (int ?E * int (v div ?E)) :: u16) = ?E * (v div ?E)"
      by (metis nat_int nat_uint_eq of_nat_mult)
    have e: "?tab ! (v div ?E) = single_entry (of_nat j) (int ?E) (v div ?E)"
      using i by (simp add: nth_append)
    have j8: "unat (of_nat j :: u8) = j" using j by (simp add: unsigned_of_nat take_bit_nat_eq_self)
    show ?thesis
      unfolding lookup_at_def Lookup_def Let_def nat_and_mask ANS_LOG_TAB_SIZE_def e
      using j8 ofs mult_div_mod_eq [of ?E v]
      by (simp add: single_entry_def ANS_TAB_SIZE_def ANS_LOG_TAB_SIZE_def)
  qed
  ultimately show ?thesis using that [of ?tab] a by simp
qed

text \<open>The general case: slots are read off the final state of the reassignment.\<close>

lemma InitAliasTable_general:
  fixes a :: "Entry list"
  assumes D: "\<forall>x \<in> set D. 0 \<le> x \<and> x < 4096" "sum_list D = 4096" "trim_zeros D = D" "length D \<le> 2 ^ la"
    and la: "4 \<le> la" "la \<le> 8" and a: "2 ^ la \<le> length a"
  obtains tab cs a' where "InitAliasTable D ANS_LOG_TAB_SIZE la a = Inr tab" "length tab = length a"
    "alias_inv (padded D (2 ^ la)) (2 ^ (12 - la)) cs a' [] []"
    "\<forall>i < 2 ^ la. tab ! i = finish_entry D (2 ^ (12 - la)) cs i (a' ! i)"
    "memory_free D la tab"
proof -
  let ?E = "2 ^ (12 - la) :: nat" and ?P = "padded D (2 ^ la)"
  have T: "(2::nat) ^ la * ?E = 4096" using la by (simp add: power_add [symmetric])
  have E: "(4096::nat) div 2 ^ la = ?E" using T by (metis nonzero_mult_div_cancel_left power_not_zero zero_neq_numeral)
  have "(2::nat) ^ la \<le> 2 ^ 8" "?E \<le> 2 ^ 8" using la by (intro power_increasing; simp)+
  then have la': "(2::nat) ^ la \<le> 256" and E': "?E \<le> 256" by simp_all
  have P: "length ?P = 2 ^ la" using D(4) by (simp add: padded_def)
  have Pn: "0 \<le> ?P ! i \<and> ?P ! i \<le> 4096" if "i < 2 ^ la" for i
  proof -
    have "i < length D \<Longrightarrow> D ! i \<in> set D" by simp
    then show ?thesis using padded_nth [OF that D(4)] D(1) by fastforce
  qed
  have iE: "int ?E = 2 ^ (12 - la)" by simp
  have "int ?E \<le> int 256" using E' by (simp only: of_nat_le_iff)
  then have fits: "table_fits ?P (2 ^ (12 - la))"
    using la' Pn P by (auto simp: table_fits_def)
  have "int (2 ^ la) * int ?E = int 4096" unfolding T [symmetric] by (simp only: of_nat_mult)
  then have sP: "sum_list ?P = int (2 ^ la) * 2 ^ (12 - la)"
    using D(2) by (simp add: padded_def sum_list_replicate)
  have inv0: "alias_inv ?P (2 ^ (12 - la)) ?P a (rev (filter (\<lambda>i. ?P ! i > 2 ^ (12 - la)) [0..<2 ^ la]))
      (rev (filter (\<lambda>i. ?P ! i < 2 ^ (12 - la)) [0..<2 ^ la]))"
    by (rule alias_inv_init [OF P a _ sP]) (use Pn in blast)
  from reassign_ok [OF inv0 fits]
  obtain cs a' where r: "reassign (2 ^ (12 - la)) (?P, a,
      rev (filter (\<lambda>i. ?P ! i > 2 ^ (12 - la)) [0..<2 ^ la]),
      rev (filter (\<lambda>i. ?P ! i < 2 ^ (12 - la)) [0..<2 ^ la])) = Inr (cs, a')"
    and len: "length a' = length a" and inv: "alias_inv ?P (2 ^ (12 - la)) cs a' [] []"
    by auto
  have ini: "init_cutoffs D (2 ^ la) (2 ^ (12 - la)) = (?P,
      rev (filter (\<lambda>i. ?P ! i > 2 ^ (12 - la)) [0..<2 ^ la]),
      rev (filter (\<lambda>i. ?P ! i < 2 ^ (12 - la)) [0..<2 ^ la]))"
    by (rule init_cutoffs_eq [OF D(4)]) (use D(1) in auto)
  have sc: "scan_single D 0 (- 1) 0 = Inr (- 1, 4096)"
    using scan_single_none [of D 0 "- 1" 0] D(1,2) by (auto simp: ANS_TAB_SIZE_def ANS_LOG_TAB_SIZE_def)
  let ?tab = "map (\<lambda>i. finish_entry D (2 ^ (12 - la)) cs i (a' ! i)) [0..<2 ^ la] @ drop (2 ^ la) a'"
  have "D \<noteq> []" using D(2) by auto
  moreover have "(2::nat) ^ la \<le> 4096" using la' by simp
  ultimately have I: "reassign (2 ^ (12 - la)) (?P, m,
      rev (filter (\<lambda>i. ?P ! i > 2 ^ (12 - la)) [0..<2 ^ la]),
      rev (filter (\<lambda>i. ?P ! i < 2 ^ (12 - la)) [0..<2 ^ la])) = Inr (cs, m') \<Longrightarrow>
    InitAliasTable D ANS_LOG_TAB_SIZE la m =
      Inr (map (\<lambda>i. finish_entry D (2 ^ (12 - la)) cs i (m' ! i)) [0..<2 ^ la] @ drop (2 ^ la) m')" for m m'
    using D(3,4) sc E ini iE by (simp add: InitAliasTable_def Let_def ANS_LOG_TAB_SIZE_def)
  have tab: "?tab ! i = finish_entry D (2 ^ (12 - la)) cs i (a' ! i)" if "i < 2 ^ la" for i
    using that by (simp add: nth_append)
  have mem: "\<exists>t. InitAliasTable D ANS_LOG_TAB_SIZE la b = Inr t \<and> take (2 ^ la) t = take (2 ^ la) ?tab"
    if b: "2 ^ la \<le> length b" for b
  proof -
    have "filled (2 ^ (12 - la)) ?P (rev (filter (\<lambda>i. ?P ! i < 2 ^ (12 - la)) [0..<2 ^ la])) = {}"
      using P by (auto simp: filled_def)
    then have "agree (filled (2 ^ (12 - la)) ?P (rev (filter (\<lambda>i. ?P ! i < 2 ^ (12 - la)) [0..<2 ^ la]))) a b"
      by (simp add: agree_def)
    from reassign_agree [OF inv0 fits this _ r] b P
    obtain b' where b': "reassign (2 ^ (12 - la)) (?P, b,
        rev (filter (\<lambda>i. ?P ! i > 2 ^ (12 - la)) [0..<2 ^ la]),
        rev (filter (\<lambda>i. ?P ! i < 2 ^ (12 - la)) [0..<2 ^ la])) = Inr (cs, b')"
      "length b' = length b" "agree (filled (2 ^ (12 - la)) cs []) a' b'" by auto
    let ?t = "map (\<lambda>i. finish_entry D (2 ^ (12 - la)) cs i (b' ! i)) [0..<2 ^ la] @ drop (2 ^ la) b'"
    have "?t ! i = ?tab ! i" if i: "i < 2 ^ la" for i
    proof (cases "cs ! i = 2 ^ (12 - la)")
      case True
      from finish_entry_full [OF this] show ?thesis using i by (simp add: nth_append)
    next
      case False
      have "length cs = 2 ^ la" "cs ! i \<le> 2 ^ (12 - la)" using inv i P by (force simp: alias_inv_def)+
      then have "i \<in> filled (2 ^ (12 - la)) cs []" using False i by (simp add: filled_def)
      then show ?thesis using b'(3) finish_entry_agree [of "a' ! i" "b' ! i"] i
        by (simp add: agree_def nth_append)
    qed
    then have "take (2 ^ la) ?t = take (2 ^ la) ?tab" using b'(2) b len a by (intro table_entries_eqI) auto
    then show ?thesis using I [OF b'(1)] by blast
  qed
  have "length ?tab = length a" using len a by simp
  moreover have "memory_free D la ?tab" unfolding memory_free_def using mem by blast
  ultimately show ?thesis using that I [OF r] inv tab by blast
qed

lemma alias_ok_general:
  assumes D: "\<forall>x \<in> set D. 0 \<le> x \<and> x < 4096" "sum_list D = 4096" "length D \<le> 2 ^ la"
    and la: "4 \<le> la" "la \<le> 8"
    and inv: "alias_inv (padded D (2 ^ la)) (2 ^ (12 - la)) cs a' [] []"
    and tab: "\<forall>i < 2 ^ la. tab ! i = finish_entry D (2 ^ (12 - la)) cs i (a' ! i)"
  shows "alias_ok D la tab"
proof -
  let ?E = "2 ^ (12 - la) :: nat" and ?P = "padded D (2 ^ la)"
  have T: "(2::nat) ^ la * ?E = 4096" using la by (simp add: power_add [symmetric])
  have P: "length ?P = 2 ^ la" and Pd: "?P = padded D (length ?P)" "length D \<le> length ?P"
    using D(3) by (simp_all add: padded_def)
  have nn: "\<forall>x \<in> set D. 0 \<le> x" using D(1) by blast
  have "(2::nat) ^ la \<le> 2 ^ 8" "?E \<le> 2 ^ 8" using la by (intro power_increasing; simp)+
  then have la': "(2::nat) ^ la \<le> 256" and E': "?E \<le> 256" by simp_all
  have "int ?E \<le> int 256" using E' by (simp only: of_nat_le_iff)
  moreover have "0 \<le> ?P ! i \<and> ?P ! i \<le> 4096" if "i < 2 ^ la" for i
  proof -
    have "i < length D \<Longrightarrow> D ! i \<in> set D" by simp
    then show ?thesis using padded_nth [OF that D(3)] D(1) by fastforce
  qed
  ultimately have fits: "table_fits ?P (2 ^ (12 - la))"
    using la' P by (auto simp: table_fits_def)
  let ?slot = "\<lambda>v. slot (2 ^ (12 - la)) cs a' (v div ?E) (v mod ?E)"
  have sl: "(sym_value (lookup_at tab la v), sym_offset (lookup_at tab la v)) = ?slot v \<and>
      int (sym_freq (lookup_at tab la v)) = D ! fst (?slot v) \<and> ?slot v \<in> symbol_ranks D"
    if v: "v < 4096" for v
  proof -
    have i: "v div ?E < 2 ^ la" using v T by (metis less_mult_imp_div_less)
    have "int (v mod ?E) < int ?E" by (simp only: of_nat_less_iff) simp
    then have pos: "int (v mod ?E) < 2 ^ (12 - la)" by simp
    note S = slot_lookup [OF inv fits Pd _ pos, of "v div ?E", unfolded P, OF i]
    have "?P ! fst (?slot v) = (if fst (?slot v) < length D then D ! fst (?slot v) else 0)"
      using S(3) D(3) by (intro padded_nth) simp_all
    then have lt: "fst (?slot v) < length D" and DP: "?P ! fst (?slot v) = D ! fst (?slot v)"
      using S(4) by (auto split: if_splits)
    have "(sym_value (lookup_at tab la v), sym_offset (lookup_at tab la v)) = ?slot v"
      using S(1) unfolding lookup_at_def Lookup_def Let_def nat_and_mask ANS_LOG_TAB_SIZE_def tab [rule_format, OF i]
      by simp
    moreover have "int (sym_freq (lookup_at tab la v)) = D ! fst (?slot v)"
      using S(2) unfolding DP lookup_at_def Lookup_def Let_def nat_and_mask ANS_LOG_TAB_SIZE_def tab [rule_format, OF i]
      by simp
    moreover have "?slot v \<in> symbol_ranks D" using S(4) lt DP by (auto simp: symbol_ranks_def split: prod.splits)
    ultimately show ?thesis by blast
  qed
  have "(\<lambda>v. ?slot v) ` {..<4096} = symbol_ranks D"
  proof (intro equalityI subsetI)
    show "x \<in> symbol_ranks D" if "x \<in> (\<lambda>v. ?slot v) ` {..<4096}" for x using that sl by auto
    fix x assume "x \<in> symbol_ranks D"
    then obtain s k where x: "x = (s, k)" "s < length D" "int k < D ! s" by (auto simp: symbol_ranks_def)
    have "s < length ?P" "int k < ?P ! s" using x D(3) P padded_nth [of s "2 ^ la" D] by auto
    from slot_onto [OF inv this] obtain i pos
      where ip: "i < 2 ^ la" "int pos < 2 ^ (12 - la)" "slot (2 ^ (12 - la)) cs a' i pos = (s, k)"
      unfolding P by blast
    have "int pos < int ?E" using ip(2) by simp
    then have pos: "pos < ?E" by (simp only: of_nat_less_iff)
    have "i * ?E + pos < 4096"
    proof -
      have "i * ?E + ?E \<le> 2 ^ la * ?E" using ip(1) by (metis Suc_leI add.commute mult_Suc mult_le_mono1)
      then show ?thesis using pos T by linarith
    qed
    moreover have "(i * ?E + pos) div ?E = i" "(i * ?E + pos) mod ?E = pos" using pos by simp_all
    ultimately show "x \<in> (\<lambda>v. ?slot v) ` {..<4096}"
      using ip(3) x(1) by (intro image_eqI [of _ _ "i * ?E + pos"]) simp_all
  qed
  moreover have "(\<lambda>v. ?slot v) ` {..<4096} =
      (\<lambda>v. (sym_value (lookup_at tab la v), sym_offset (lookup_at tab la v))) ` {..<4096}"
    using sl by (intro image_cong) auto
  ultimately have "(\<lambda>v. (sym_value (lookup_at tab la v), sym_offset (lookup_at tab la v))) ` {..<4096} = symbol_ranks D"
    by simp
  then have "bij_betw (\<lambda>v. (sym_value (lookup_at tab la v), sym_offset (lookup_at tab la v))) {..<4096} (symbol_ranks D)"
    by (intro onto_imp_bij [OF nn]) (simp_all add: D(2))
  moreover have "int (sym_freq (lookup_at tab la v)) = D ! sym_value (lookup_at tab la v)" if "v < 4096" for v
    using sl [OF that] by (metis fst_conv)
  moreover have "D ! sym_value (lookup_at tab la v) \<noteq> 4096" if "v < 4096" for v
  proof -
    have "sym_value (lookup_at tab la v) < length D" using sl [OF that] by (auto simp: symbol_ranks_def)
    then have "D ! sym_value (lookup_at tab la v) \<in> set D" by simp
    then show ?thesis using D(1) by fastforce
  qed
  ultimately show ?thesis by (auto simp: alias_ok_def ANS_TAB_SIZE_def ANS_LOG_TAB_SIZE_def)
qed

text \<open>Trailing symbols that do not occur change nothing.\<close>

lemma trim_zeros_trim_zeros: "trim_zeros (trim_zeros D) = trim_zeros D"
  by (simp add: trim_zeros_def)

lemma InitAliasTable_trim: "InitAliasTable (trim_zeros D) lr la a = InitAliasTable D lr la a"
  unfolding InitAliasTable_def trim_zeros_trim_zeros ..

lemma symbol_ranks_zeros: "symbol_ranks (D @ replicate n 0) = symbol_ranks D"
  by (auto simp: symbol_ranks_def nth_append split: if_splits)

lemma symbol_ranks_single: "symbol_ranks (replicate j 0 @ [4096]) = Pair j ` {..<4096}"
  by (auto simp: symbol_ranks_def nth_append split: if_splits)

lemma alias_ok_zeros:
  assumes "alias_ok D la tab"
  shows "alias_ok (D @ replicate n 0) la tab"
proof -
  have "sym_value (lookup_at tab la v) < length D" if "v < ANS_TAB_SIZE" for v
  proof -
    have "(sym_value (lookup_at tab la v), sym_offset (lookup_at tab la v)) \<in> symbol_ranks D"
      using assms that unfolding alias_ok_def by (auto dest!: bij_betw_imp_surj_on)
    then show ?thesis by (simp add: symbol_ranks_def)
  qed
  then show ?thesis using assms by (simp add: alias_ok_def symbol_ranks_zeros nth_append)
qed

lemma InitAliasTable_ok:
  assumes D: "\<forall>x \<in> set D. 0 \<le> x" "sum_list D = 4096" "length (trim_zeros D) \<le> 2 ^ la"
    and la: "4 \<le> la" "la \<le> 8" and a: "2 ^ la \<le> length a"
  obtains tab where "InitAliasTable D ANS_LOG_TAB_SIZE la a = Inr tab" "length tab = length a" "alias_ok D la tab"
    "memory_free D la tab"
proof -
  let ?D = "trim_zeros D"
  obtain n where n: "D = ?D @ replicate n 0" by (rule trim_zeros_append)
  have nn: "\<forall>x \<in> set ?D. 0 \<le> x" using D(1) by (subst (asm) n) auto
  have sm: "sum_list ?D = 4096" using D(2) by (subst (asm) n) (simp add: sum_list_replicate)
  have "\<exists>tab. InitAliasTable ?D ANS_LOG_TAB_SIZE la a = Inr tab \<and> length tab = length a \<and> alias_ok ?D la tab \<and>
      memory_free ?D la tab"
  proof (cases "4096 \<in> set ?D")
    case True
    let ?j = "length ?D - 1"
    have "?D \<noteq> []" using True by auto
    then have "last ?D \<noteq> 0" by (rule trim_zeros_last)
    then have eq: "?D = replicate ?j 0 @ [4096]" by (intro full_weight_last [OF nn sm True])
    from True D(3) have "?j < 2 ^ la" by (cases ?D) auto
    from InitAliasTable_single [OF eq this la a]
    obtain tab where tab: "InitAliasTable D ANS_LOG_TAB_SIZE la a = Inr tab" "length tab = length a"
      "\<forall>v < 4096. lookup_at tab la v = \<lparr> sym_value = ?j, sym_offset = v, sym_freq = 4096 \<rparr>"
      "memory_free D la tab" by blast
    have r: "symbol_ranks ?D = Pair ?j ` {..<4096}"
      using symbol_ranks_single [of ?j] by (simp only: eq [symmetric])
    have Dj: "?D ! ?j = 4096" by (subst eq) (simp add: nth_append)
    have "(\<lambda>v. (sym_value (lookup_at tab la v), sym_offset (lookup_at tab la v))) ` {..<4096} = symbol_ranks ?D"
      unfolding r by (intro image_cong) (auto simp: tab)
    then have "bij_betw (\<lambda>v. (sym_value (lookup_at tab la v), sym_offset (lookup_at tab la v))) {..<4096} (symbol_ranks ?D)"
      by (intro onto_imp_bij [OF nn]) (simp_all add: sm)
    then have "alias_ok ?D la tab" using tab(3) Dj by (simp add: alias_ok_def ANS_TAB_SIZE_def ANS_LOG_TAB_SIZE_def)
    then show ?thesis using tab(1,2,4) by (auto simp: InitAliasTable_trim memory_free_def)
  next
    case False
    have "x < 4096" if "x \<in> set ?D" for x
    proof -
      have "x \<le> sum_list ?D" using that nn by (intro member_le_sum_list) auto
      then show ?thesis using sm that False by (cases "x = 4096") auto
    qed
    with nn have b: "\<forall>x \<in> set ?D. 0 \<le> x \<and> x < 4096" by blast
    obtain tab cs a' where t: "InitAliasTable ?D ANS_LOG_TAB_SIZE la a = Inr tab" "length tab = length a"
      "alias_inv (padded ?D (2 ^ la)) (2 ^ (12 - la)) cs a' [] []"
      "\<forall>i < 2 ^ la. tab ! i = finish_entry ?D (2 ^ (12 - la)) cs i (a' ! i)"
      "memory_free ?D la tab"
      by (rule InitAliasTable_general [OF b sm trim_zeros_trim_zeros D(3) la a])
    from alias_ok_general [OF b sm D(3) la t(3,4)] t(1,2,5) show ?thesis by blast
  qed
  then obtain tab where t: "InitAliasTable D ANS_LOG_TAB_SIZE la a = Inr tab" "length tab = length a"
    "alias_ok ?D la tab" "memory_free D la tab"
    by (auto simp: InitAliasTable_trim memory_free_def)
  have "alias_ok D la tab" using alias_ok_zeros [OF t(3), of n] n by simp
  with t show ?thesis using that by blast
qed

lemma alias_table_unique:
  assumes "\<forall>x \<in> set D. 0 \<le> x" "sum_list D = 4096" "length (trim_zeros D) \<le> 2 ^ la" "4 \<le> la" "la \<le> 8"
    and "2 ^ la \<le> length a" "2 ^ la \<le> length b"
    and "InitAliasTable D ANS_LOG_TAB_SIZE la a = Inr t" "InitAliasTable D ANS_LOG_TAB_SIZE la b = Inr t'"
  shows "alias_ok D la t" and "length t = length a" and "take (2 ^ la) t' = take (2 ^ la) t"
proof -
  obtain tab where "InitAliasTable D ANS_LOG_TAB_SIZE la a = Inr tab" "length tab = length a" "alias_ok D la tab"
    "memory_free D la tab"
    by (rule InitAliasTable_ok [OF assms(1-6)])
  with assms(7-9) show "alias_ok D la t" "length t = length a" "take (2 ^ la) t' = take (2 ^ la) t"
    by (auto simp: memory_free_def)
qed

lemma lookup_at_take:
  assumes "take (2 ^ la) t = take (2 ^ la) t'" and "la \<le> 12" and "v < 4096"
  shows "lookup_at t la v = lookup_at t' la v"
proof -
  have "(2::nat) ^ la * 2 ^ (12 - la) = 4096" using assms(2) by (simp add: power_add [symmetric])
  then have "v div 2 ^ (12 - la) < 2 ^ la" using assms(3) by (metis less_mult_imp_div_less)
  then have "t ! (v div 2 ^ (12 - la)) = t' ! (v div 2 ^ (12 - la))" using assms(1) by (metis nth_take)
  then show ?thesis unfolding lookup_at_def Lookup_def ANS_LOG_TAB_SIZE_def Let_def by (simp only:)
qed

text \<open>The number of slots of one symbol.\<close>

lemma bij_betw_count:
  assumes "bij_betw (\<lambda>v. (g v, h v)) A B"
  shows "card {v \<in> A. g v = s} = card {k. (s, k) \<in> B}"
proof (rule bij_betw_same_card)
  have i: "inj_on (\<lambda>v. (g v, h v)) A" and B: "B = (\<lambda>v. (g v, h v)) ` A"
    using assms by (auto simp: bij_betw_def)
  show "bij_betw h {v \<in> A. g v = s} {k. (s, k) \<in> B}"
    using i unfolding B bij_betw_def by (auto simp: inj_on_def)
qed

text \<open>C10: For every distribution of nonnegative counts adding up to 4096 whose last occurring symbol
  fits the alphabet, and whatever the table memory held before, \<open>InitAliasTable\<close> succeeds; looking up the
  4096 slots of its table gives each symbol as often as the distribution says, with its frequency, and
  with ranks that number its slots from zero without gaps or repetitions; a symbol of full weight
  leaves the slot unchanged.\<close>

theorem InitAliasTable_correct:
  assumes "\<forall>x \<in> set D. 0 \<le> x" and "sum_list D = 4096" and "length (trim_zeros D) \<le> 2 ^ la"
    and "4 \<le> la" and "la \<le> 8" and "2 ^ la \<le> length a"
  shows "\<exists>tab. InitAliasTable D ANS_LOG_TAB_SIZE la a = Inr tab \<and> length tab = length a \<and>
    bij_betw (\<lambda>v. (sym_value (lookup_at tab la v), sym_offset (lookup_at tab la v)))
      {..<ANS_TAB_SIZE} {(s, k). s < length D \<and> int k < D ! s} \<and>
    (\<forall>v < ANS_TAB_SIZE. int (sym_freq (lookup_at tab la v)) = D ! sym_value (lookup_at tab la v)) \<and>
    (\<forall>v < ANS_TAB_SIZE. D ! sym_value (lookup_at tab la v) = int ANS_TAB_SIZE \<longrightarrow>
       sym_offset (lookup_at tab la v) = v)"
proof -
  obtain tab where "InitAliasTable D ANS_LOG_TAB_SIZE la a = Inr tab" "length tab = length a" "alias_ok D la tab"
    by (rule InitAliasTable_ok [OF assms])
  then show ?thesis unfolding alias_ok_def symbol_ranks_def by blast
qed

theorem InitAliasTable_correct_witness:
  "\<exists>tab. InitAliasTable [1000, 0, 3000, 96, 0] ANS_LOG_TAB_SIZE 5 (replicate 32 (single_entry 7 3 1)) = Inr tab \<and>
    card {v. v < ANS_TAB_SIZE \<and> sym_value (lookup_at tab 5 v) = 3} = 96"
proof -
  let ?D = "[1000, 0, 3000, 96, 0] :: int list"
  have t: "trim_zeros ?D = [1000, 0, 3000, 96]" by (simp add: trim_zeros_def)
  obtain tab where tab: "InitAliasTable ?D ANS_LOG_TAB_SIZE 5 (replicate 32 (single_entry 7 3 1)) = Inr tab"
    and bij: "bij_betw (\<lambda>v. (sym_value (lookup_at tab 5 v), sym_offset (lookup_at tab 5 v)))
      {..<ANS_TAB_SIZE} {(s, k). s < length ?D \<and> int k < ?D ! s}"
    using InitAliasTable_correct [of ?D 5 "replicate 32 (single_entry 7 3 1)"] unfolding t by auto
  from bij_betw_count [OF bij, of 3]
  have "card {v \<in> {..<ANS_TAB_SIZE}. sym_value (lookup_at tab 5 v) = 3} = card {k. int k < 96}" by simp
  also have "{k. int k < 96} = {..<96}" by auto
  finally show ?thesis using tab by auto
qed

text \<open>A table is only ever built from a distribution that adds up to the range: if the trimmed
  distribution is too long for the alphabet, or a nonempty one has another sum (modulo \<open>2 ^ 32\<close>),
  \<open>InitAliasTable\<close> reports an error instead of filling a table that would index out of bounds; an all-zero
  distribution is replaced by a valid single-symbol one.\<close>

theorem InitAliasTable_rejects:
  assumes "\<forall>x \<in> set D. 0 \<le> x"
  shows "(2 ^ la < length (trim_zeros D) \<longrightarrow> InitAliasTable D ANS_LOG_TAB_SIZE la a = Inl kGenericError) \<and>
    (trim_zeros D \<noteq> [] \<longrightarrow> sum_list D mod 2 ^ 32 \<noteq> 4096 \<longrightarrow>
       InitAliasTable D ANS_LOG_TAB_SIZE la a = Inl kGenericError) \<and>
    (trim_zeros D = [] \<longrightarrow> 4 \<le> la \<longrightarrow> la \<le> 8 \<longrightarrow> 2 ^ la \<le> length a \<longrightarrow>
       (\<exists>tab. InitAliasTable D ANS_LOG_TAB_SIZE la a = Inr tab \<and>
          (\<forall>v < ANS_TAB_SIZE. lookup_at tab la v = \<lparr> sym_value = 0, sym_offset = v, sym_freq = ANS_TAB_SIZE \<rparr>)))"
proof (intro conjI impI)
  have scan: "scan_single vs k b s = Inl kGenericError \<or> (\<exists>i. scan_single vs k b s = Inr (i, s + sum_list vs))"
    for vs k b s by (induction vs k b s rule: scan_single.induct) (auto simp: algebra_simps)
  obtain n where n: "D = trim_zeros D @ replicate n 0" by (rule trim_zeros_append)
  have sm: "sum_list (trim_zeros D) = sum_list D" by (subst (2) n) (simp add: sum_list_replicate)
  show "InitAliasTable D ANS_LOG_TAB_SIZE la a = Inl kGenericError" if "2 ^ la < length (trim_zeros D)"
    using that by (auto simp: InitAliasTable_def Let_def)
  show "InitAliasTable D ANS_LOG_TAB_SIZE la a = Inl kGenericError"
    if "trim_zeros D \<noteq> []" "sum_list D mod 2 ^ 32 \<noteq> 4096"
    using that scan [of "trim_zeros D" 0 "- 1" 0] sm
    by (auto simp: InitAliasTable_def Let_def ANS_LOG_TAB_SIZE_def)
  show "\<exists>tab. InitAliasTable D ANS_LOG_TAB_SIZE la a = Inr tab \<and>
      (\<forall>v < ANS_TAB_SIZE. lookup_at tab la v = \<lparr> sym_value = 0, sym_offset = v, sym_freq = ANS_TAB_SIZE \<rparr>)"
    if e: "trim_zeros D = []" and la: "4 \<le> la" "la \<le> 8" and a: "2 ^ la \<le> length a"
  proof -
    have "trim_zeros [4096] = replicate 0 0 @ [4096]" by (simp add: trim_zeros_def)
    from InitAliasTable_single [OF this _ la a] obtain tab where
      t: "InitAliasTable [4096] ANS_LOG_TAB_SIZE la a = Inr tab"
      "\<forall>v < 4096. lookup_at tab la v = \<lparr> sym_value = 0, sym_offset = v, sym_freq = 4096 \<rparr>" by auto
    have "InitAliasTable D ANS_LOG_TAB_SIZE la a = InitAliasTable [4096] ANS_LOG_TAB_SIZE la a"
      using e by (simp add: InitAliasTable_def Let_def ANS_LOG_TAB_SIZE_def trim_zeros_def)
    then show ?thesis using t by (simp add: ANS_TAB_SIZE_def ANS_LOG_TAB_SIZE_def)
  qed
qed

theorem InitAliasTable_rejects_witness:
  "InitAliasTable [2000, 2000] ANS_LOG_TAB_SIZE 5 [] = Inl kGenericError \<and>
   (\<exists>tab. InitAliasTable [0, 0] ANS_LOG_TAB_SIZE 5 (replicate 32 (single_entry 7 3 1)) = Inr tab \<and>
      sym_offset (lookup_at tab 5 77) = 77)"
  using InitAliasTable_rejects [of "[2000, 2000]" 5 "[]"]
    InitAliasTable_rejects [of "[0, 0]" 5 "replicate 32 (single_entry 7 3 1)"]
  by (auto simp: trim_zeros_def ANS_TAB_SIZE_def ANS_LOG_TAB_SIZE_def)

end
