(* ===== verification/Huffman.thy ===== *)
theory Huffman
  imports Prelude Bit_Reader Alias_Table
begin

text \<open>
  Prefix codes: the two-level lookup tables of \<^verbatim>\<open>lib/jxl/huffman_table.cc\<close> and their
  decoding in \<^verbatim>\<open>lib/jxl/dec_huffman.h\<close> and \<^verbatim>\<open>dec_huffman.cc\<close>.  A pointer into a table is
  its offset from the root table.  Loops whose counters are powers of two by construction carry that
  as a guard of the recursion.
\<close>

section \<open>Tables\<close>

definition kHuffmanTableBits :: nat where "kHuffmanTableBits = 8"

definition PREFIX_MAX_BITS :: nat where "PREFIX_MAX_BITS = 15"

record HuffmanCode =
  hc_bits :: u8
  hc_value :: u16

record HuffmanDecodingData =
  hd_table :: "HuffmanCode list"

definition Huffman_ReadSymbol :: "HuffmanDecodingData \<Rightarrow> BitReader \<Rightarrow> u16 \<times> BitReader" where
  "Huffman_ReadSymbol h br =
     (let t = unat (PeekBits kHuffmanTableBits br); n_bits = unat (hc_bits (hd_table h ! t));
          (t, br) = (if n_bits > kHuffmanTableBits
                     then (let br = Consume kHuffmanTableBits br; n_bits = n_bits - kHuffmanTableBits;
                               t = t + unat (hc_value (hd_table h ! t))
                           in (t + unat (PeekBits n_bits br), br))
                     else (t, br));
          br = Consume (unat (hc_bits (hd_table h ! t))) br
      in (hc_value (hd_table h ! t), br))"

function key_step :: "nat \<Rightarrow> nat \<Rightarrow> nat" where
  "key_step key step = (if step \<noteq> 0 \<and> key AND step \<noteq> 0 then key_step key (step div 2) else step)"
  by pat_completeness auto
termination by (relation "measure snd") auto

declare key_step.simps [simp del]

definition GetNextKey :: "nat \<Rightarrow> nat \<Rightarrow> nat" where
  "GetNextKey key len =
     (let step = key_step key (2 ^ (len - 1))
      in if step = 0 then key else (key AND (step - 1)) + step)"

function ReplicateValue :: "HuffmanCode list \<Rightarrow> nat \<Rightarrow> nat \<Rightarrow> nat \<Rightarrow> HuffmanCode \<Rightarrow> HuffmanCode list" where
  "ReplicateValue table base step en code =
     (let en' = en - step; table = table[base + en' := code]
      in if en' > 0 \<and> step > 0 then ReplicateValue table base step en' code else table)"
  by pat_completeness auto
termination by (relation "measure (\<lambda>(t, b, s, e, c). e)") auto

declare ReplicateValue.simps [simp del]

function NextTableBitSize_loop :: "nat list \<Rightarrow> nat \<Rightarrow> nat \<Rightarrow> nat" where
  "NextTableBitSize_loop count len left =
     (if len < PREFIX_MAX_BITS then
        (if left \<le> count ! len then len
         else NextTableBitSize_loop count (len + 1) ((left - count ! len) * 2))
      else len)"
  by pat_completeness auto
termination by (relation "measure (\<lambda>(c, len, l). PREFIX_MAX_BITS - len)") auto

declare NextTableBitSize_loop.simps [simp del]

definition NextTableBitSize :: "nat list \<Rightarrow> nat \<Rightarrow> nat \<Rightarrow> nat" where
  "NextTableBitSize count len root_bits =
     NextTableBitSize_loop count len (2 ^ (len - root_bits)) - root_bits"

text \<open>Offsets of each length in the sorted symbols, and the largest length that occurs.\<close>

definition length_offsets :: "nat list \<Rightarrow> nat list \<times> nat" where
  "length_offsets count =
     (let (offset, s, max_length) =
        foldl (\<lambda>(offset, s, max_length) len.
          (offset[len := s],
           if count ! len \<noteq> 0 then (s + count ! len) mod 2 ^ 16 else s,
           if count ! len \<noteq> 0 then len else max_length))
        (replicate (PREFIX_MAX_BITS + 1) 0, 0, 1) [1..<PREFIX_MAX_BITS + 1]
      in (offset, max_length))"

definition sort_symbols :: "nat list \<Rightarrow> nat list \<Rightarrow> nat list \<times> nat list" where
  "sort_symbols code_lengths offset =
     foldl (\<lambda>(by_len, offset) symbol.
        let l = code_lengths ! symbol in
        if l \<noteq> 0 then (by_len[offset ! l := symbol mod 2 ^ 16], offset[l := (offset ! l + 1) mod 2 ^ 16])
        else (by_len, offset))
      (replicate (length code_lengths) 0, offset) [0..<length code_lengths]"

definition fill_root_step :: "nat list \<Rightarrow> nat \<Rightarrow> nat \<Rightarrow> nat \<Rightarrow>
    HuffmanCode list \<times> nat \<times> nat \<Rightarrow> HuffmanCode list \<times> nat \<times> nat" where
  "fill_root_step by_len bits step table_size acc =
     (let (table, key, symbol) = acc;
          code = \<lparr> hc_bits = of_nat bits, hc_value = of_nat (by_len ! symbol) \<rparr>
      in (ReplicateValue table key step table_size code, GetNextKey key bits, symbol + 1))"

definition fill_root :: "nat list \<Rightarrow> nat list \<Rightarrow> nat \<Rightarrow> nat \<Rightarrow> HuffmanCode list \<Rightarrow> HuffmanCode list \<times> nat \<times> nat" where
  "fill_root count by_len table_bits table_size table =
     foldl (\<lambda>acc bits. (fill_root_step by_len bits (2 ^ bits) table_size ^^ (count ! bits)) acc)
       (table, 0, 0) [1..<table_bits + 1]"

function double_table :: "nat \<Rightarrow> nat \<Rightarrow> HuffmanCode list \<Rightarrow> HuffmanCode list" where
  "double_table total_size table_size table =
     (if 0 < table_size \<and> table_size < total_size
      then double_table total_size (table_size * 2)
             (take table_size table @ take table_size table @ drop (2 * table_size) table)
      else table)"
  by pat_completeness auto
termination by (relation "measure (\<lambda>(t, s, x). t - s)") auto

declare double_table.simps [simp del]

record second_level =
  sl_root :: "HuffmanCode list"
  sl_base :: nat
  sl_table_size :: nat
  sl_total_size :: nat
  sl_low :: int
  sl_key :: nat
  sl_symbol :: nat
  sl_count :: "nat list"

definition second_level_step :: "nat list \<Rightarrow> nat \<Rightarrow> nat \<Rightarrow> second_level \<Rightarrow> second_level" where
  "second_level_step by_len root_bits len s =
     (let mask = 2 ^ root_bits - 1; low = sl_key s AND mask;
          s = (if int low \<noteq> sl_low s then
                 (let base = sl_base s + sl_table_size s;
                      table_bits = NextTableBitSize (sl_count s) len root_bits;
                      table_size = 2 ^ table_bits
                  in s\<lparr> sl_base := base, sl_table_size := table_size, sl_total_size := sl_total_size s + table_size,
                       sl_low := int low,
                       sl_root := (sl_root s)[low := \<lparr> hc_bits = of_nat (table_bits + root_bits),
                                                       hc_value = of_int (int base - int low) \<rparr>] \<rparr>)
               else s);
          code = \<lparr> hc_bits = of_nat (len - root_bits), hc_value = of_nat (by_len ! sl_symbol s) \<rparr>
      in s\<lparr> sl_root := ReplicateValue (sl_root s) (sl_base s + sl_key s div 2 ^ root_bits)
                         (2 ^ (len - root_bits)) (sl_table_size s) code,
           sl_key := GetNextKey (sl_key s) len, sl_symbol := sl_symbol s + 1,
           sl_count := (sl_count s)[len := sl_count s ! len - 1] \<rparr>)"

text \<open>The result is the populated size (0 for an error), the table and the consumed counts.\<close>

definition BuildHuffmanTable ::
  "HuffmanCode list \<Rightarrow> nat \<Rightarrow> nat list \<Rightarrow> nat list \<Rightarrow> nat \<times> HuffmanCode list" where
  "BuildHuffmanTable root_table root_bits code_lengths count =
     (if length code_lengths > 2 ^ PREFIX_MAX_BITS then (0, root_table) else
      let (offset, max_length) = length_offsets count;
          (by_len, offset) = sort_symbols code_lengths offset;
          total_size = 2 ^ root_bits in
      if offset ! PREFIX_MAX_BITS = 1 then
        (total_size, map (\<lambda>_. \<lparr> hc_bits = 0, hc_value = of_nat (by_len ! 0) \<rparr>) [0..<total_size] @
                     drop total_size root_table)
      else
        (let table_bits = min root_bits max_length;
             table_size = 2 ^ table_bits;
             (table, key, symbol) = fill_root count by_len table_bits table_size root_table;
             table = double_table total_size table_size table;
             s = foldl (\<lambda>s len. (second_level_step by_len root_bits len ^^ (sl_count s ! len)) s)
                   \<lparr> sl_root = table, sl_base = 0, sl_table_size = total_size, sl_total_size = total_size,
                     sl_low = - 1, sl_key = key, sl_symbol = symbol,
                     sl_count = map (\<lambda>i. if 1 \<le> i \<and> i \<le> table_bits then 0 else count ! i) [0..<length count] \<rparr>
                   [root_bits + 1..<max_length + 1]
         in (sl_total_size s, sl_root s)))"

section \<open>Reading codes\<close>

definition kCodeLengthCodes :: nat where "kCodeLengthCodes = 18"

definition kCodeLengthCodeOrder :: "nat list" where
  "kCodeLengthCodeOrder = [1, 2, 3, 4, 0, 5, 17, 6, 16, 7, 8, 9, 10, 11, 12, 13, 14, 15]"

definition count_lengths :: "nat list \<Rightarrow> nat list" where
  "count_lengths ls = foldl (\<lambda>counts l. counts[l := counts ! l + 1]) (replicate 16 0) ls"

record code_length_state =
  cl_symbol :: nat
  cl_prev :: nat
  cl_repeat :: int
  cl_repeat_len :: nat
  cl_space :: int
  cl_lengths :: "nat list"

text \<open>One round of the loop; \<open>None\<close> is the early return on a repetition past the end.\<close>

definition code_length_step ::
  "HuffmanCode list \<Rightarrow> nat \<Rightarrow> code_length_state \<Rightarrow> BitReader \<Rightarrow> code_length_state option \<times> BitReader" where
  "code_length_step table num_symbols s br =
     (let br = Refill br; p = table ! unat (PeekBits 5 br);
          br = Consume (unat (hc_bits p)) br;
          code_len = unat (hc_value p) mod 256 in
      if code_len < 16 then
        (let s = s\<lparr> cl_repeat := 0, cl_lengths := (cl_lengths s)[cl_symbol s := code_len],
                    cl_symbol := cl_symbol s + 1 \<rparr>
         in (Some (if code_len \<noteq> 0
                   then s\<lparr> cl_prev := code_len, cl_space := cl_space s - 2 ^ (15 - code_len) \<rparr> else s), br))
      else
        (let extra_bits = code_len - 14;
             new_len = (if code_len = 16 then cl_prev s else 0);
             s = (if cl_repeat_len s \<noteq> new_len then s\<lparr> cl_repeat := 0, cl_repeat_len := new_len \<rparr> else s);
             old_repeat = cl_repeat s;
             rep = (if cl_repeat s > 0 then (cl_repeat s - 2) * 2 ^ extra_bits else cl_repeat s);
             (v, br) = ReadBits extra_bits br;
             rep = rep + int (unat v) + 3;
             repeat_delta = rep - old_repeat in
         if int (cl_symbol s) + repeat_delta > int num_symbols then (None, br)
         else
           (let d = nat repeat_delta;
                s = s\<lparr> cl_repeat := rep,
                       cl_lengths := take (cl_symbol s) (cl_lengths s) @ replicate d (cl_repeat_len s) @
                                     drop (cl_symbol s + d) (cl_lengths s),
                       cl_symbol := cl_symbol s + d \<rparr>
            in (Some (if cl_repeat_len s \<noteq> 0
                      then s\<lparr> cl_space := cl_space s - repeat_delta * 2 ^ (15 - cl_repeat_len s) \<rparr> else s), br))))"

text \<open>The loop, with fuel: every round sets at least one symbol.\<close>

fun code_length_loop ::
  "nat \<Rightarrow> HuffmanCode list \<Rightarrow> nat \<Rightarrow> code_length_state \<Rightarrow> BitReader \<Rightarrow> code_length_state option \<times> BitReader" where
  "code_length_loop 0 table num_symbols s br = (Some s, br)"
| "code_length_loop (Suc fuel) table num_symbols s br =
     (if cl_symbol s < num_symbols \<and> cl_space s > 0 then
        (case code_length_step table num_symbols s br of
           (None, br) \<Rightarrow> (None, br)
         | (Some s, br) \<Rightarrow> code_length_loop fuel table num_symbols s br)
      else (Some s, br))"

definition ReadHuffmanCodeLengths ::
  "HuffmanCode list \<Rightarrow> nat list \<Rightarrow> nat \<Rightarrow> nat list \<Rightarrow> BitReader \<Rightarrow> nat list option \<times> BitReader" where
  "ReadHuffmanCodeLengths memory code_length_code_lengths num_symbols code_lengths br =
     (let (ok, table) = BuildHuffmanTable memory 5 code_length_code_lengths (count_lengths code_length_code_lengths) in
      if ok = 0 then (None, br)
      else
        (case code_length_loop num_symbols table num_symbols
                \<lparr> cl_symbol = 0, cl_prev = 8, cl_repeat = 0, cl_repeat_len = 0, cl_space = 32768,
                  cl_lengths = code_lengths \<rparr> br of
           (None, br) \<Rightarrow> (None, br)
         | (Some s, br) \<Rightarrow>
             if cl_space s \<noteq> 0 then (None, br)
             else (Some (take (cl_symbol s) (cl_lengths s) @ replicate (num_symbols - cl_symbol s) 0 @
                         drop num_symbols (cl_lengths s)), br)))"

definition swap_symbols :: "nat \<Rightarrow> nat \<Rightarrow> u16 list \<Rightarrow> u16 list" where
  "swap_symbols i j symbols = symbols[j := symbols ! i, i := symbols ! j]"

fun read_simple_symbols :: "nat \<Rightarrow> nat \<Rightarrow> nat \<Rightarrow> u16 list \<Rightarrow> BitReader \<Rightarrow> u16 list option \<times> BitReader" where
  "read_simple_symbols 0 max_bits alphabet_size symbols br = (Some symbols, br)"
| "read_simple_symbols (Suc n) max_bits alphabet_size symbols br =
     (case ReadBits max_bits br of (v, br) \<Rightarrow>
        let symbol = ucast v :: u16 in
        if unat symbol \<ge> alphabet_size then (None, br)
        else read_simple_symbols n max_bits alphabet_size (symbols @ [symbol]) br)"

definition simple_table :: "nat \<Rightarrow> u16 list \<Rightarrow> HuffmanCode list" where
  "simple_table num_symbols symbols =
     (let c = (\<lambda>b s. \<lparr> hc_bits = b, hc_value = s \<rparr>) in
      if num_symbols = 1 then [c 0 (symbols ! 0)]
      else if num_symbols = 2 then
        (let s = (if symbols ! 0 > symbols ! 1 then swap_symbols 0 1 symbols else symbols)
         in [c 1 (s ! 0), c 1 (s ! 1)])
      else if num_symbols = 3 then
        (let s = (if symbols ! 1 > symbols ! 2 then swap_symbols 1 2 symbols else symbols)
         in [c 1 (s ! 0), c 2 (s ! 1), c 1 (s ! 0), c 2 (s ! 2)])
      else if num_symbols = 4 then
        (let s = foldl (\<lambda>s (i, j). if s ! i > s ! j then swap_symbols i j s else s) symbols
                   [(0, 1), (0, 2), (0, 3), (1, 2), (1, 3), (2, 3)]
         in [c 2 (s ! 0), c 2 (s ! 2), c 2 (s ! 1), c 2 (s ! 3)])
      else
        (let s = (if symbols ! 2 > symbols ! 3 then swap_symbols 2 3 symbols else symbols)
         in [c 1 (s ! 0), c 2 (s ! 1), c 1 (s ! 0), c 3 (s ! 2),
             c 1 (s ! 0), c 2 (s ! 1), c 1 (s ! 0), c 3 (s ! 3)]))"

definition ReadSimpleCode :: "nat \<Rightarrow> BitReader \<Rightarrow> HuffmanCode list option \<times> BitReader" where
  "ReadSimpleCode alphabet_size br =
     (let max_bits = (if alphabet_size > 1 then FloorLog2Nonzero (alphabet_size - 1) + 1 else 0) in
      case ReadBits 2 br of (n, br) \<Rightarrow>
      let num_symbols = unat n + 1 in
      case read_simple_symbols num_symbols max_bits alphabet_size [] br of
        (None, br) \<Rightarrow> (None, br)
      | (Some symbols, br) \<Rightarrow>
          if \<not> distinct symbols then (None, br)
          else
            (let (num_symbols, br) =
                   (if num_symbols = 4 then (case ReadBits 1 br of (b, br) \<Rightarrow> (num_symbols + unat b, br))
                    else (num_symbols, br));
                 t = simple_table num_symbols symbols
             in (Some (double_table (2 ^ kHuffmanTableBits) (length t)
                        (t @ replicate (2 ^ kHuffmanTableBits - length t) \<lparr> hc_bits = 0, hc_value = 0 \<rparr>)), br)))"

text \<open>The static code of the code length code lengths.\<close>

definition code_length_huff :: "(nat \<times> nat) list" where
  "code_length_huff = [(2, 0), (2, 4), (2, 3), (3, 2), (2, 0), (2, 4), (2, 3), (4, 1),
                       (2, 0), (2, 4), (2, 3), (3, 2), (2, 0), (2, 4), (2, 3), (4, 5)]"

fun read_code_length_codes ::
  "nat list \<Rightarrow> nat list \<Rightarrow> int \<Rightarrow> nat \<Rightarrow> BitReader \<Rightarrow> (nat list \<times> int \<times> nat) \<times> BitReader" where
  "read_code_length_codes [] lens space num_codes br = ((lens, space, num_codes), br)"
| "read_code_length_codes (idx # order) lens space num_codes br =
     (if space > 0 then
        (let br = Refill br; p = code_length_huff ! unat (PeekBits 4 br);
             br = Consume (fst p) br; v = snd p
         in read_code_length_codes order (lens[idx := v])
              (if v \<noteq> 0 then space - 32 div 2 ^ v else space) (if v \<noteq> 0 then num_codes + 1 else num_codes) br)
      else ((lens, space, num_codes), br))"

definition ReadFromBitStream ::
  "HuffmanCode list \<Rightarrow> nat \<Rightarrow> BitReader \<Rightarrow> HuffmanDecodingData option \<times> BitReader" where
  "ReadFromBitStream memory alphabet_size br =
     (if alphabet_size > 2 ^ PREFIX_MAX_BITS then (None, br)
      else
        (case ReadBits 2 br of (simple_code_or_skip, br) \<Rightarrow>
         if simple_code_or_skip = 1 then
           (case ReadSimpleCode alphabet_size br of (t, br) \<Rightarrow>
              (map_option (\<lambda>t. \<lparr> hd_table = t \<rparr>) t, br))
         else
           (case read_code_length_codes (drop (unat simple_code_or_skip) kCodeLengthCodeOrder)
                   (replicate kCodeLengthCodes 0) 32 0 br of ((lens, space, num_codes), br) \<Rightarrow>
            if \<not> (num_codes = 1 \<or> space = 0) then (None, br)
            else
              (case ReadHuffmanCodeLengths memory lens alphabet_size (replicate alphabet_size 0) br of
                 (None, br) \<Rightarrow> (None, br)
               | (Some code_lengths, br) \<Rightarrow>
                   (case BuildHuffmanTable (replicate (alphabet_size + 376) \<lparr> hc_bits = 0, hc_value = 0 \<rparr>)
                           kHuffmanTableBits code_lengths (count_lengths code_lengths) of
                      (table_size, table) \<Rightarrow>
                        if table_size > 0
                        then (Some \<lparr> hd_table = take table_size table @
                               replicate (table_size - length table) \<lparr> hc_bits = 0, hc_value = 0 \<rparr> \<rparr>, br)
                        else (None, br))))))"

section \<open>Accepted code lengths satisfy the Kraft equality\<close>

definition kraft :: "nat list \<Rightarrow> int" where
  "kraft ls = (\<Sum>l \<leftarrow> ls. if l = 0 then 0 else 2 ^ (15 - l))"

lemma kraft_simps [simp]:
  "kraft [] = 0" "kraft (l # ls) = (if l = 0 then 0 else 2 ^ (15 - l)) + kraft ls"
  "kraft (ls @ ms) = kraft ls + kraft ms"
  by (simp_all add: kraft_def)

lemma kraft_replicate [simp]: "kraft (replicate d l) = int d * (if l = 0 then 0 else 2 ^ (15 - l))"
  by (induction d) (simp_all add: algebra_simps)

definition code_length_inv :: "nat \<Rightarrow> code_length_state \<Rightarrow> bool" where
  "code_length_inv n s \<longleftrightarrow> cl_symbol s \<le> n \<and> length (cl_lengths s) = n \<and>
     (\<forall>l \<in> set (cl_lengths s). l \<le> 15) \<and> cl_prev s \<le> 15 \<and> cl_repeat_len s \<le> 15 \<and>
     (cl_repeat s = 0 \<or> 3 \<le> cl_repeat s) \<and> cl_space s = 32768 - kraft (take (cl_symbol s) (cl_lengths s))"

text \<open>Every round keeps the invariant and sets at least one more symbol.\<close>

lemma code_length_step_inv:
  assumes inv: "code_length_inv n s" and lt: "cl_symbol s < n"
    and st: "code_length_step table n s br = (Some s', br')"
  shows "code_length_inv n s' \<and> cl_symbol s < cl_symbol s'"
proof -
  define br1 where "br1 = Refill br"
  define p where "p = table ! unat (PeekBits 5 br1)"
  define br2 where "br2 = Consume (unat (hc_bits p)) br1"
  define cl where "cl = unat (hc_value p) mod 256"
  note I = inv [unfolded code_length_inv_def]
  note unf = code_length_step_def [of table n s br, unfolded Let_def, folded br1_def, folded p_def,
      folded br2_def cl_def]
  show ?thesis
  proof (cases "cl < 16")
    case True
    define s1 where "s1 = s\<lparr> cl_repeat := 0, cl_lengths := (cl_lengths s)[cl_symbol s := cl], cl_symbol := cl_symbol s + 1 \<rparr>"
    have s': "s' = (if cl \<noteq> 0 then s1\<lparr> cl_prev := cl, cl_space := cl_space s1 - 2 ^ (15 - cl) \<rparr> else s1)"
      using st True unfolding unf s1_def by (auto split: if_splits)
    have t: "take (Suc (cl_symbol s)) ((cl_lengths s)[cl_symbol s := cl]) = take (cl_symbol s) (cl_lengths s) @ [cl]"
      using I lt by (simp add: take_Suc_conv_app_nth)
    have b: "\<forall>l \<in> set ((cl_lengths s)[cl_symbol s := cl]). l \<le> 15"
      using I True set_update_subset_insert [of "cl_lengths s" "cl_symbol s" cl] by auto
    show ?thesis
      using I lt True t b by (auto simp: s' s1_def code_length_inv_def)
  next
    case False
    define nl where "nl = (if cl = 16 then cl_prev s else 0)"
    define s1 where "s1 = (if cl_repeat_len s \<noteq> nl then s\<lparr> cl_repeat := 0, cl_repeat_len := nl \<rparr> else s)"
    have s1: "cl_repeat_len s1 = nl" "cl_repeat s1 = 0 \<or> 3 \<le> cl_repeat s1" "cl_symbol s1 = cl_symbol s"
      "cl_lengths s1 = cl_lengths s" "cl_space s1 = cl_space s" "cl_prev s1 = cl_prev s" "nl \<le> 15"
      using I by (auto simp: s1_def nl_def)
    obtain v br3 where rd: "ReadBits (cl - 14) br2 = (v, br3)" by fastforce
    define rep where "rep = (if cl_repeat s1 > 0 then (cl_repeat s1 - 2) * 2 ^ (cl - 14) else cl_repeat s1) + int (unat v) + 3"
    define d where "d = rep - cl_repeat s1"
    have "3 \<le> rep \<and> 0 < d"
    proof (cases "cl_repeat s1 > 0")
      case True
      have "(2::int) ^ 2 \<le> 2 ^ (cl - 14)" using False by (intro power_increasing) simp_all
      then have "(cl_repeat s1 - 2) * 4 \<le> (cl_repeat s1 - 2) * 2 ^ (cl - 14)"
        using s1(2) True by (intro mult_left_mono) simp_all
      moreover have r3: "3 \<le> cl_repeat s1" using True s1(2) by linarith
      then have "cl_repeat s1 \<le> (cl_repeat s1 - 2) * 4" by simp
      ultimately have "cl_repeat s1 \<le> (cl_repeat s1 - 2) * 2 ^ (cl - 14)" by (rule order_trans [rotated])
      then have "cl_repeat s1 \<le> (cl_repeat s1 - 2) * 2 ^ (cl - 14) + int (unat v)"
        by (rule order_trans) simp
      then show ?thesis using True r3 by (simp add: d_def rep_def)
    next
      case F: False
      then have "cl_repeat s1 = 0" using s1(2) by linarith
      moreover have "0 \<le> int (unat v)" by simp
      ultimately show ?thesis unfolding d_def rep_def by (simp only: less_irrefl if_False) linarith
    qed
    then have rd3: "3 \<le> rep" and d0: "0 < d" by simp_all
    have st': "code_length_step table n s br =
        (if int (cl_symbol s1) + d > int n then (None, br3)
         else (let s = s1\<lparr> cl_repeat := rep,
                       cl_lengths := take (cl_symbol s1) (cl_lengths s1) @ replicate (nat d) (cl_repeat_len s1) @
                                     drop (cl_symbol s1 + nat d) (cl_lengths s1),
                       cl_symbol := cl_symbol s1 + nat d \<rparr>
               in (Some (if cl_repeat_len s \<noteq> 0
                      then s\<lparr> cl_space := cl_space s - d * 2 ^ (15 - cl_repeat_len s) \<rparr> else s), br3)))"
      using False rd unfolding unf nl_def [symmetric] s1_def [symmetric] rep_def d_def Let_def
      by (simp add: prod.case)
    have le: "cl_symbol s + nat d \<le> n" using st d0 unfolding st' s1 by (auto split: if_splits)
    define s2 where "s2 = s1\<lparr> cl_repeat := rep,
        cl_lengths := take (cl_symbol s) (cl_lengths s) @ replicate (nat d) nl @ drop (cl_symbol s + nat d) (cl_lengths s),
        cl_symbol := cl_symbol s + nat d \<rparr>"
    have s': "s' = (if nl \<noteq> 0 then s2\<lparr> cl_space := cl_space s - d * 2 ^ (15 - nl) \<rparr> else s2)"
      using st le d0 unfolding st' by (auto simp: s1 s2_def Let_def split: if_splits)
    have len: "length (cl_lengths s2) = n" using I le by (simp add: s2_def)
    have t: "take (cl_symbol s2) (cl_lengths s2) = take (cl_symbol s) (cl_lengths s) @ replicate (nat d) nl"
      using I lt by (simp add: s2_def)
    have b: "\<forall>l \<in> set (cl_lengths s2). l \<le> 15"
      using I s1(7) by (auto simp: s2_def dest: in_set_takeD in_set_dropD)
    show ?thesis
      using I len t b le d0 rd3 s1 by (auto simp: s' code_length_inv_def s2_def)
  qed
qed

lemma code_length_loop_inv:
  "code_length_inv n s \<Longrightarrow> n - cl_symbol s \<le> fuel \<Longrightarrow> code_length_loop fuel table n s br = (Some s', br') \<Longrightarrow>
   code_length_inv n s' \<and> \<not> (cl_symbol s' < n \<and> cl_space s' > 0)"
proof (induction fuel arbitrary: s br)
  case 0
  then show ?case by simp
next
  case (Suc fuel)
  show ?case
  proof (cases "cl_symbol s < n \<and> cl_space s > 0")
    case True
    then obtain s1 br1 where st: "code_length_step table n s br = (Some s1, br1)"
      "code_length_loop fuel table n s1 br1 = (Some s', br')"
      using Suc.prems(3) by (auto split: prod.splits option.splits)
    have inv: "code_length_inv n s1 \<and> cl_symbol s < cl_symbol s1"
      using code_length_step_inv [OF Suc.prems(1) _ st(1)] True by simp
    then have "n - cl_symbol s1 \<le> fuel" using Suc.prems(2) by arith
    then show ?thesis using Suc.IH [OF _ _ st(2)] inv by simp
  next
    case False
    then show ?thesis using Suc.prems by auto
  qed
qed

lemma code_length_loop_fuel:
  "code_length_inv n s \<Longrightarrow> n - cl_symbol s \<le> f1 \<Longrightarrow> f1 \<le> f2 \<Longrightarrow>
   code_length_loop f2 table n s br = code_length_loop f1 table n s br"
proof (induction f1 arbitrary: f2 s br)
  case 0
  then have "\<not> cl_symbol s < n" by simp
  then show ?case by (cases f2) simp_all
next
  case (Suc f1)
  then obtain f where f: "f2 = Suc f" "f1 \<le> f" by (cases f2) auto
  show ?case
  proof (cases "cl_symbol s < n \<and> cl_space s > 0")
    case True
    obtain r br1 where st: "code_length_step table n s br = (r, br1)" by fastforce
    show ?thesis
    proof (cases r)
      case (Some s1)
      have inv: "code_length_inv n s1 \<and> cl_symbol s < cl_symbol s1"
        using code_length_step_inv [OF Suc.prems(1) _ st [unfolded Some]] True by simp
      then have "n - cl_symbol s1 \<le> f1" using Suc.prems(2) by arith
      then have "code_length_loop f table n s1 br1 = code_length_loop f1 table n s1 br1"
        using Suc.IH [of s1 f br1] f(2) inv by simp
      then show ?thesis using True st Some by (simp add: f(1))
    qed (use True st in \<open>simp add: f(1)\<close>)
  qed (auto simp: f(1))
qed

definition code_length_start :: "nat \<Rightarrow> code_length_state" where
  "code_length_start n = \<lparr> cl_symbol = 0, cl_prev = 8, cl_repeat = 0, cl_repeat_len = 0, cl_space = 32768,
     cl_lengths = replicate n 0 \<rparr>"

lemma code_length_start_inv: "code_length_inv n (code_length_start n)"
  by (simp add: code_length_inv_def code_length_start_def)

text \<open>The code with a single code length.\<close>

lemma single_length_code:
  "BuildHuffmanTable memory 5 ((replicate 18 0)[1 := 1]) (count_lengths ((replicate 18 0)[1 := 1])) =
     (32, replicate 32 \<lparr> hc_bits = 0, hc_value = 1 \<rparr> @ drop 32 memory)"
proof -
  have upt: "[1..<16] = [1,2,3,4,5,6,7,8,9,10,11,12,13,14,15::nat]"
    "[0..<18] = [0,1,2,3,4,5,6,7,8,9,10,11,12,13,14,15,16,17::nat]" by (simp_all add: upt_rec)
  have c: "count_lengths ((replicate 18 0)[1 := 1]) = [17,1,0,0,0,0,0,0,0,0,0,0,0,0,0,0]"
    by (simp add: count_lengths_def numeral_eq_Suc)
  have o: "length_offsets [17,1,0,0,0,0,0,0,0,0,0,0,0,0,0,0] = ([0,0,1,1,1,1,1,1,1,1,1,1,1,1,1,1], 1)"
    by (simp add: length_offsets_def PREFIX_MAX_BITS_def upt(1) [unfolded One_nat_def] upt Let_def
        replicate_numeral_Cons del: upt_Suc)
  have s: "sort_symbols ((replicate 18 0)[1 := 1]) [0,0,1,1,1,1,1,1,1,1,1,1,1,1,1,1] =
      ((replicate 18 0)[0 := 1], [0,1,1,1,1,1,1,1,1,1,1,1,1,1,1,1])"
    unfolding sort_symbols_def length_list_update length_replicate upt
    by (simp add: Let_def replicate_numeral_Cons del: upt_Suc)
  have m: "map (\<lambda>_. x) [0..<32] = replicate 32 x" for x :: HuffmanCode
    by (intro nth_equalityI) simp_all
  show ?thesis
    unfolding BuildHuffmanTable_def c o Let_def prod.case s m
    by (simp add: PREFIX_MAX_BITS_def m)
qed

text \<open>C17: Only complete prefix codes are accepted: whatever the input and whatever the lookup table held,
  code lengths that \<open>ReadHuffmanCodeLengths\<close> accepts are one for every symbol, at most 15 each, and satisfy
  the Kraft equality, so that the code words fill the code space exactly.\<close>

theorem ReadHuffmanCodeLengths_kraft:
  assumes "ReadHuffmanCodeLengths memory lens n (replicate n 0) br = (Some cls, br')"
  shows "length cls = n \<and> (\<forall>l \<in> set cls. l \<le> 15) \<and> kraft cls = 2 ^ 15"
proof -
  obtain okn table where B: "BuildHuffmanTable memory 5 lens (count_lengths lens) = (okn, table)" by fastforce
  obtain s br1 where L: "code_length_loop n table n (code_length_start n) br = (Some s, br1)" and sp: "cl_space s = 0"
    and c: "cls = take (cl_symbol s) (cl_lengths s) @ replicate (n - cl_symbol s) 0 @ drop n (cl_lengths s)"
    using assms unfolding ReadHuffmanCodeLengths_def B code_length_start_def [symmetric]
    by (auto split: if_splits prod.splits option.splits)
  have inv: "code_length_inv n s"
    using code_length_loop_inv [OF code_length_start_inv _ L] by (simp add: code_length_start_def)
  then show ?thesis using sp
    by (auto simp: c code_length_inv_def dest: in_set_takeD)
qed

theorem ReadHuffmanCodeLengths_kraft_witness:
  "\<exists>cls br'. ReadHuffmanCodeLengths [] ((replicate 18 0)[1 := 1]) 2 (replicate 2 0) (BitReader_new [0]) = (Some cls, br') \<and>
     kraft cls = 2 ^ 15"
proof -
  let ?t = "replicate 32 \<lparr> hc_bits = 0, hc_value = 1 \<rparr>"
  have t: "?t ! unat (PeekBits 5 br) = \<lparr> hc_bits = 0, hc_value = 1 \<rparr>" for br
    using PeekBits_less [of 5 br] by (simp add: nth_replicate)
  have "\<exists>br'. ReadHuffmanCodeLengths [] ((replicate 18 0)[1 := 1]) 2 (replicate 2 0) (BitReader_new [0]) = (Some [1, 1], br')"
    unfolding ReadHuffmanCodeLengths_def single_length_code Let_def prod.case
    by (simp add: numeral_2_eq_2 code_length_step_def t Let_def)
  then show ?thesis using ReadHuffmanCodeLengths_kraft by blast
qed

text \<open>The loop of \<open>ReadHuffmanCodeLengths\<close> ends: each round of it sets at least one more symbol, so as
  many rounds as there are symbols are enough; more fuel changes nothing and, unless the code is
  refused on the way, its condition is false at the end.\<close>

theorem ReadHuffmanCodeLengths_terminates:
  assumes "n \<le> fuel"
  shows "code_length_loop fuel table n (code_length_start n) br = code_length_loop n table n (code_length_start n) br \<and>
    (\<forall>s' br'. code_length_loop n table n (code_length_start n) br = (Some s', br') \<longrightarrow>
       \<not> (cl_symbol s' < n \<and> cl_space s' > 0))"
  using code_length_loop_fuel [OF code_length_start_inv, of n n fuel table br] assms
    code_length_loop_inv [OF code_length_start_inv, of n n table br] by (auto simp: code_length_start_def)

theorem ReadHuffmanCodeLengths_terminates_witness:
  "code_length_loop 9 (replicate 32 \<lparr> hc_bits = 1, hc_value = 1 \<rparr>) 2 (code_length_start 2) (BitReader_new []) =
   code_length_loop 2 (replicate 32 \<lparr> hc_bits = 1, hc_value = 1 \<rparr>) 2 (code_length_start 2) (BitReader_new [])"
  using ReadHuffmanCodeLengths_terminates [of 2 9 "replicate 32 \<lparr> hc_bits = 1, hc_value = 1 \<rparr>" "BitReader_new []"] by simp

section \<open>Simple codes\<close>

text \<open>A table whose entries depend only on the bits their codes have.\<close>

definition prefix_table :: "nat \<Rightarrow> HuffmanCode list \<Rightarrow> bool" where
  "prefix_table n t \<longleftrightarrow> length t = 2 ^ n \<and>
     (\<forall>i < 2 ^ n. unat (hc_bits (t ! i)) \<le> n \<and>
        (\<forall>j < 2 ^ n. j mod 2 ^ unat (hc_bits (t ! i)) = i mod 2 ^ unat (hc_bits (t ! i)) \<longrightarrow> t ! j = t ! i))"

lemma double_table_nth:
  "length t = 2 ^ (k + m) \<Longrightarrow> length (double_table (2 ^ (k + m)) (2 ^ k) t) = 2 ^ (k + m) \<and>
     (\<forall>i < 2 ^ (k + m). double_table (2 ^ (k + m)) (2 ^ k) t ! i = t ! (i mod 2 ^ k))"
proof (induction m arbitrary: k t)
  case 0
  then show ?case by (subst (1 2) double_table.simps) simp
next
  case (Suc m)
  define u where "u = take (2 ^ k) t @ take (2 ^ k) t @ drop (2 * 2 ^ k) t"
  have le: "2 * 2 ^ k \<le> (2 ^ (k + Suc m) :: nat)" by (simp add: power_add)
  have len: "length u = 2 ^ (Suc k + m)" using Suc.prems le by (simp add: u_def)
  have lt: "(2 :: nat) ^ k < 2 ^ (k + Suc m)" by (intro power_strict_increasing) simp_all
  have eq: "double_table (2 ^ (k + Suc m)) (2 ^ k) t = double_table (2 ^ (Suc k + m)) (2 ^ Suc k) u"
    using lt by (subst double_table.simps) (simp add: u_def mult.commute)
  have l: "2 ^ k \<le> length t" using Suc.prems lt by simp
  have nth: "u ! r = t ! (r mod 2 ^ k)" if r: "r < 2 * 2 ^ k" for r
  proof (cases "r < 2 ^ k")
    case True
    then show ?thesis using l by (simp add: u_def nth_append)
  next
    case False
    then have "r mod 2 ^ k = r - 2 ^ k" "r - 2 ^ k < 2 ^ k" using r by (simp_all add: le_mod_geq)
    then show ?thesis using False l by (simp add: u_def nth_append)
  qed
  have nth: "u ! (i mod 2 ^ Suc k) = t ! (i mod 2 ^ k)" for i
  proof -
    have "i mod 2 ^ Suc k < 2 * 2 ^ k" using mod_less_divisor [of "2 ^ Suc k" i] by simp
    moreover have "(i mod 2 ^ Suc k) mod 2 ^ k = i mod 2 ^ k" by (rule mod_mod_cancel) simp
    ultimately show ?thesis using nth by simp
  qed
  show ?case using Suc.IH [OF len] unfolding eq nth by simp
qed

lemma prefix_table_length: "prefix_table n t \<Longrightarrow> length t = 2 ^ n"
  unfolding prefix_table_def by blast

lemma prefix_table_double:
  assumes t: "prefix_table k t" and n: "n = k + m" and c: "length c = 2 ^ n - 2 ^ k"
  shows "prefix_table n (double_table (2 ^ n) (2 ^ k) (t @ c)) \<and>
    set (double_table (2 ^ n) (2 ^ k) (t @ c)) = set t"
proof -
  let ?d = "double_table (2 ^ n) (2 ^ k) (t @ c)"
  have le: "(2::nat) ^ k \<le> 2 ^ n" using n by simp
  have len: "length (t @ c) = 2 ^ (k + m)" using prefix_table_length [OF t] c le n by simp
  note D = double_table_nth [OF len, folded n]
  have nth: "?d ! i = t ! (i mod 2 ^ k)" if "i < 2 ^ n" for i
  proof -
    have "i mod 2 ^ k < length t" using prefix_table_length [OF t] by simp
    then have "(t @ c) ! (i mod 2 ^ k) = t ! (i mod 2 ^ k)" by (rule nth_append_left)
    then show ?thesis using D that by simp
  qed
  have dl: "length ?d = 2 ^ n" using D by simp
  have P: "\<forall>i < 2 ^ k. unat (hc_bits (t ! i)) \<le> k \<and>
        (\<forall>j < 2 ^ k. j mod 2 ^ unat (hc_bits (t ! i)) = i mod 2 ^ unat (hc_bits (t ! i)) \<longrightarrow> t ! j = t ! i)"
    using t unfolding prefix_table_def by blast
  have "unat (hc_bits (?d ! i)) \<le> n \<and>
        (\<forall>j < 2 ^ n. j mod 2 ^ unat (hc_bits (?d ! i)) = i mod 2 ^ unat (hc_bits (?d ! i)) \<longrightarrow> ?d ! j = ?d ! i)"
    if i: "i < 2 ^ n" for i
  proof -
    define b where "b = unat (hc_bits (t ! (i mod 2 ^ k)))"
    have I: "i mod 2 ^ k < 2 ^ k" by simp
    have Pi: "b \<le> k" "\<And>j. j < 2 ^ k \<Longrightarrow> j mod 2 ^ b = (i mod 2 ^ k) mod 2 ^ b \<Longrightarrow> t ! j = t ! (i mod 2 ^ k)"
      using P [THEN spec, THEN mp, OF I, folded b_def] by blast+
    have mm: "j mod 2 ^ b = (j mod 2 ^ k) mod 2 ^ b" for j :: nat
      using Pi(1) by (simp add: mod_mod_cancel le_imp_power_dvd)
    have "?d ! j = ?d ! i" if "j < 2 ^ n" "j mod 2 ^ b = i mod 2 ^ b" for j
      using Pi(2) [of "j mod 2 ^ k"] mm [of j] mm [of i] that i by (simp add: nth)
    moreover have "unat (hc_bits (?d ! i)) = b" using nth [OF i] b_def by simp
    moreover have "b \<le> n" using Pi(1) n by simp
    ultimately show ?thesis by blast
  qed
  moreover have "set ?d = set t"
  proof -
    note lt = prefix_table_length [OF t]
    have "x \<in> set t" if x: "x \<in> set ?d" for x
    proof -
      obtain i where "i < 2 ^ n" "x = ?d ! i" using x by (auto simp: in_set_conv_nth dl)
      then show ?thesis using nth [of i] nth_mem [of "i mod 2 ^ k" t] lt by simp
    qed
    moreover have "x \<in> set ?d" if x: "x \<in> set t" for x
    proof -
      obtain i where "i < 2 ^ k" "x = t ! i" using x lt by (auto simp: in_set_conv_nth)
      then show ?thesis using nth [of i] less_le_trans [OF _ le, of i] by (auto simp: in_set_conv_nth dl intro!: exI [of _ i])
    qed
    ultimately show ?thesis by blast
  qed
  ultimately show ?thesis using dl unfolding prefix_table_def by blast
qed

lemma simple_prefix_tables:
  "prefix_table 0 [\<lparr> hc_bits = 0, hc_value = a \<rparr>]"
  "prefix_table 1 [\<lparr> hc_bits = 1, hc_value = a \<rparr>, \<lparr> hc_bits = 1, hc_value = b \<rparr>]"
  "prefix_table 2 [\<lparr> hc_bits = 1, hc_value = a \<rparr>, \<lparr> hc_bits = 2, hc_value = b \<rparr>,
     \<lparr> hc_bits = 1, hc_value = a \<rparr>, \<lparr> hc_bits = 2, hc_value = c \<rparr>]"
  "prefix_table 2 [\<lparr> hc_bits = 2, hc_value = a \<rparr>, \<lparr> hc_bits = 2, hc_value = b \<rparr>,
     \<lparr> hc_bits = 2, hc_value = c \<rparr>, \<lparr> hc_bits = 2, hc_value = d \<rparr>]"
  "prefix_table 3 [\<lparr> hc_bits = 1, hc_value = a \<rparr>, \<lparr> hc_bits = 2, hc_value = b \<rparr>,
     \<lparr> hc_bits = 1, hc_value = a \<rparr>, \<lparr> hc_bits = 3, hc_value = c \<rparr>,
     \<lparr> hc_bits = 1, hc_value = a \<rparr>, \<lparr> hc_bits = 2, hc_value = b \<rparr>,
     \<lparr> hc_bits = 1, hc_value = a \<rparr>, \<lparr> hc_bits = 3, hc_value = d \<rparr>]"
proof -
  have all: "(\<forall>i < 2 :: nat. P i) \<longleftrightarrow> P 0 \<and> P 1" "(\<forall>i < 4 :: nat. P i) \<longleftrightarrow> P 0 \<and> P 1 \<and> P 2 \<and> P 3"
    "(\<forall>i < 8 :: nat. P i) \<longleftrightarrow> P 0 \<and> P 1 \<and> P 2 \<and> P 3 \<and> P 4 \<and> P 5 \<and> P 6 \<and> P 7" for P
    by (auto simp: numeral_eq_Suc All_less_Suc)
  show "prefix_table 0 [\<lparr> hc_bits = 0, hc_value = a \<rparr>]"
    "prefix_table 1 [\<lparr> hc_bits = 1, hc_value = a \<rparr>, \<lparr> hc_bits = 1, hc_value = b \<rparr>]"
    "prefix_table 2 [\<lparr> hc_bits = 1, hc_value = a \<rparr>, \<lparr> hc_bits = 2, hc_value = b \<rparr>,
       \<lparr> hc_bits = 1, hc_value = a \<rparr>, \<lparr> hc_bits = 2, hc_value = c \<rparr>]"
    "prefix_table 2 [\<lparr> hc_bits = 2, hc_value = a \<rparr>, \<lparr> hc_bits = 2, hc_value = b \<rparr>,
       \<lparr> hc_bits = 2, hc_value = c \<rparr>, \<lparr> hc_bits = 2, hc_value = d \<rparr>]"
    "prefix_table 3 [\<lparr> hc_bits = 1, hc_value = a \<rparr>, \<lparr> hc_bits = 2, hc_value = b \<rparr>,
       \<lparr> hc_bits = 1, hc_value = a \<rparr>, \<lparr> hc_bits = 3, hc_value = c \<rparr>,
       \<lparr> hc_bits = 1, hc_value = a \<rparr>, \<lparr> hc_bits = 2, hc_value = b \<rparr>,
       \<lparr> hc_bits = 1, hc_value = a \<rparr>, \<lparr> hc_bits = 3, hc_value = d \<rparr>]"
    by (simp_all add: prefix_table_def all)
qed

lemma swap_symbols_set:
  "i < length s \<Longrightarrow> j < length s \<Longrightarrow> set (swap_symbols i j s) = set s"
  "length (swap_symbols i j s) = length s"
  by (simp_all add: swap_symbols_def set_swap list_update_swap)

lemma simple_table_correct:
  assumes "num = length s \<or> num = 5 \<and> length s = 4" and "length s \<in> {1..4}"
  shows "\<exists>k \<le> 3. prefix_table k (simple_table num s) \<and>
    (\<forall>e \<in> set (simple_table num s). hc_value e \<in> set s \<and> unat (hc_bits e) \<le> 3)"
proof -
  define A where "A = (\<lambda>(t :: HuffmanCode list) s. \<forall>e \<in> set t. hc_value e \<in> set (s :: u16 list) \<and> unat (hc_bits e) \<le> 3)"
  define so where "so = foldl (\<lambda>s (i, j). if s ! i > s ! j then swap_symbols i j s else s) s
                   [(0, 1), (0, 2), (0, 3), (1, 2), (1, 3), (2, 3)]"
  have so: "set so = set s \<and> length so = 4" if "length s = 4"
    unfolding so_def using that by (simp add: swap_symbols_set)
  consider "num = 1" "length s = 1" | "num = 2" "length s = 2" | "num = 3" "length s = 3"
    | "num = 4" "length s = 4" | "num = 5" "length s = 4"
    using assms by fastforce
  then have "\<exists>k \<le> 3. prefix_table k (simple_table num s) \<and> A (simple_table num s) s"
  proof cases
    case 1
    then show ?thesis by (intro exI [of _ 0]) (simp add: simple_table_def simple_prefix_tables A_def)
  next
    case 2
    define u where "u = (if s ! 0 > s ! 1 then swap_symbols 0 1 s else s)"
    have "set u = set s" "length u = 2" using 2 by (simp_all add: u_def swap_symbols_set)
    then show ?thesis using 2
      by (intro exI [of _ 1]) (simp add: simple_table_def Let_def u_def [symmetric] simple_prefix_tables
          A_def del: One_nat_def flip: \<open>set u = set s\<close>)
  next
    case 3
    define u where "u = (if s ! 1 > s ! 2 then swap_symbols 1 2 s else s)"
    have "set u = set s" "length u = 3" using 3 by (simp_all add: u_def swap_symbols_set)
    then show ?thesis using 3
      by (intro exI [of _ 2]) (simp add: simple_table_def Let_def u_def [symmetric] simple_prefix_tables
          A_def del: One_nat_def flip: \<open>set u = set s\<close>)
  next
    case 4
    have eq: "simple_table 4 s = [\<lparr> hc_bits = 2, hc_value = so ! 0 \<rparr>, \<lparr> hc_bits = 2, hc_value = so ! 2 \<rparr>,
        \<lparr> hc_bits = 2, hc_value = so ! 1 \<rparr>, \<lparr> hc_bits = 2, hc_value = so ! 3 \<rparr>]"
      unfolding simple_table_def so_def [symmetric] Let_def by simp
    have "set so = set s" "length so = 4" using so 4 by simp_all
    then show ?thesis using 4
      by (intro exI [of _ 2]) (simp add: eq simple_prefix_tables A_def del: One_nat_def flip: \<open>set so = set s\<close>)
  next
    case 5
    define u where "u = (if s ! 2 > s ! 3 then swap_symbols 2 3 s else s)"
    have "set u = set s" "length u = 4" using 5 by (simp_all add: u_def swap_symbols_set)
    then show ?thesis using 5
      by (intro exI [of _ 3]) (simp add: simple_table_def Let_def u_def [symmetric] simple_prefix_tables
          A_def del: One_nat_def flip: \<open>set u = set s\<close>)
  qed
  then show ?thesis by (simp add: A_def)
qed

lemma read_simple_symbols_less:
  "read_simple_symbols k max_bits n ss br = (Some ts, br') \<Longrightarrow> \<forall>s \<in> set ss. unat s < n \<Longrightarrow>
     length ts = length ss + k \<and> (\<forall>s \<in> set ts. unat s < n)"
proof (induction k arbitrary: ss br)
  case 0
  then show ?case by simp
next
  case (Suc k)
  obtain v br1 where rd: "ReadBits max_bits br = (v, br1)" by fastforce
  have lt: "unat (ucast v :: u16) < n" and nx: "read_simple_symbols k max_bits n (ss @ [ucast v]) br1 = (Some ts, br')"
    using Suc.prems(1) by (auto simp: rd Let_def split: if_splits)
  show ?case using Suc.IH [OF nx] lt Suc.prems(2) by simp
qed

text \<open>C18: \<open>ReadSimpleCode\<close> on any input: a table it accepts has 256 entries, each with a symbol of the alphabet and
  at most three bits, that depend only on the bits of their code; so \<open>ReadSymbol\<close> returns a symbol of the
  alphabet and consumes at most three bits of what follows.\<close>

theorem ReadSimpleCode_correct:
  assumes "ReadSimpleCode n br = (Some t, br')"
  shows "prefix_table kHuffmanTableBits t \<and> (\<forall>e \<in> set t. unat (hc_value e) < n \<and> unat (hc_bits e) \<le> 3) \<and>
    (\<forall>r. \<exists>k \<le> 3. \<exists>v. Huffman_ReadSymbol \<lparr> hd_table = t \<rparr> r = (v, Consume k r) \<and> unat v < n)"
proof -
  define mb where "mb = (if n > 1 then FloorLog2Nonzero (n - 1) + 1 else 0)"
  obtain b br1 where rd: "ReadBits 2 br = (b, br1)" by fastforce
  have b: "unat b < 4" using ReadBits_less [of 2 br] rd by simp
  obtain ss br2 where ss: "read_simple_symbols (unat b + 1) mb n [] br1 = (Some ss, br2)"
    using assms unfolding ReadSimpleCode_def mb_def [symmetric] Let_def rd prod.case
    by (auto split: prod.splits option.splits)
  obtain c br3 where rd1: "ReadBits 1 br2 = (c, br3)" by fastforce
  have c: "unat c < 2" using ReadBits_less [of 1 br2] rd1 by simp
  define num where "num = (if unat b = 3 then 4 + unat c else unat b + 1)"
  have num: "num = unat b + 1 \<or> unat b = 3 \<and> num = 5" using c by (auto simp: num_def)
  have t: "t = double_table (2 ^ kHuffmanTableBits) (length (simple_table num ss))
        (simple_table num ss @ replicate (2 ^ kHuffmanTableBits - length (simple_table num ss)) \<lparr> hc_bits = 0, hc_value = 0 \<rparr>)"
    using assms unfolding ReadSimpleCode_def mb_def [symmetric] Let_def rd prod.case ss option.case
    by (auto simp: rd1 [unfolded One_nat_def] num_def split: if_splits)
  have len: "length ss = unat b + 1" and lt: "\<forall>s \<in> set ss. unat s < n"
    using read_simple_symbols_less [OF ss] by simp_all
  have "num = length ss \<or> num = 5 \<and> length ss = 4" "length ss \<in> {1..4}" using num b len by auto
  then obtain k where k: "k \<le> 3" "prefix_table k (simple_table num ss)"
    and vals: "\<forall>e \<in> set (simple_table num ss). hc_value e \<in> set ss \<and> unat (hc_bits e) \<le> 3"
    using simple_table_correct by metis
  have sl: "length (simple_table num ss) = 2 ^ k" by (rule prefix_table_length [OF k(2)])
  have P: "prefix_table kHuffmanTableBits t" and st: "set t = set (simple_table num ss)"
    using prefix_table_double [OF k(2), of 8 "8 - k"] k(1) unfolding t sl kHuffmanTableBits_def by simp_all
  have V: "unat (hc_value e) < n \<and> unat (hc_bits e) \<le> 3" if "e \<in> set t" for e
    using that vals lt unfolding st by blast
  have "\<exists>k \<le> 3. \<exists>v. Huffman_ReadSymbol \<lparr> hd_table = t \<rparr> r = (v, Consume k r) \<and> unat v < n" for r
  proof -
    define e where "e = t ! unat (PeekBits kHuffmanTableBits r)"
    have "unat (PeekBits kHuffmanTableBits r) < length t"
      using PeekBits_less [of kHuffmanTableBits r] prefix_table_length [OF P] by (simp add: kHuffmanTableBits_def)
    then have e: "unat (hc_value e) < n" "unat (hc_bits e) \<le> 3" using V [of e] by (simp_all add: e_def)
    have "Huffman_ReadSymbol \<lparr> hd_table = t \<rparr> r = (hc_value e, Consume (unat (hc_bits e)) r)"
      using e(2) by (simp add: Huffman_ReadSymbol_def Let_def e_def [symmetric] kHuffmanTableBits_def [symmetric])
        (simp add: kHuffmanTableBits_def)
    then show ?thesis using e by blast
  qed
  then show ?thesis using P V by blast
qed

theorem ReadSimpleCode_correct_witness:
  "\<exists>t br'. ReadSimpleCode 3 (BitReader_new [4]) = (Some t, br') \<and> prefix_table kHuffmanTableBits t"
proof -
  have "fst (ReadSimpleCode 3 (BitReader_new [4])) \<noteq> None" by code_simp
  then obtain t br' where "ReadSimpleCode 3 (BitReader_new [4]) = (Some t, br')" by (metis option.exhaust prod.collapse)
  then show ?thesis using ReadSimpleCode_correct by blast
qed

end
