(* ===== verification/Ans_Coder.thy ===== *)
theory Ans_Coder
  imports Prelude Bit_Reader Bit_Writer Alias_Table Huffman Hybrid_Uint
begin

text \<open>
  The range asymmetric numeral system: the encoder's symbol tables and \<^verbatim>\<open>ANSCoder\<close> of
  \<^verbatim>\<open>lib/jxl/enc_ans.h\<close> and \<^verbatim>\<open>enc_ans.cc\<close>, and the symbol reader of \<^verbatim>\<open>lib/jxl/dec_ans.h\<close>.
\<close>

section \<open>Definitions\<close>

definition RECIPROCAL_PRECISION :: nat where "RECIPROCAL_PRECISION = 32 + ANS_LOG_TAB_SIZE"

record ANSEncSymbolInfo =
  freq :: u16
  reverse_map :: "u16 list"
  ifreq :: u64
  depth :: u8
  pbits :: u16

definition PutSymbol :: "ANSEncSymbolInfo \<Rightarrow> u32 \<Rightarrow> u32 \<times> nat \<times> u32" where
  "PutSymbol t st =
     (let (bits, nbits, st) =
        (if drop_bit (32 - ANS_LOG_TAB_SIZE) st \<ge> ucast (freq t)
         then (st AND 0xffff, 16, drop_bit 16 st) else (0, 0, st));
          v = ucast (drop_bit RECIPROCAL_PRECISION ((ucast st :: u64) * ifreq t)) :: u32;
          offset = ucast (reverse_map t ! unat (st - v * ucast (freq t))) :: u32
      in (bits, nbits, push_bit ANS_LOG_TAB_SIZE v + offset))"

definition resize_map :: "nat \<Rightarrow> u16 list \<Rightarrow> u16 list" where
  "resize_map n xs = take n xs @ replicate (n - length xs) 0"

definition info_entry :: "int \<Rightarrow> ANSEncSymbolInfo \<Rightarrow> ANSEncSymbolInfo" where
  "info_entry f info =
     (let fr = of_int f :: u16;
          i = (if f \<noteq> 0 then (2 ^ RECIPROCAL_PRECISION + ucast fr - 1) div ucast fr else 1)
      in info\<lparr> freq := fr, ifreq := i, reverse_map := resize_map (nat f) (reverse_map info) \<rparr>)"

definition set_reverse :: "Entry list \<Rightarrow> nat \<Rightarrow> ANSEncSymbolInfo list \<Rightarrow> nat \<Rightarrow> ANSEncSymbolInfo list" where
  "set_reverse tab log_entry_size infos i =
     (let s = Lookup tab i log_entry_size (2 ^ log_entry_size - 1)
      in infos[sym_value s := (infos ! sym_value s)
           \<lparr> reverse_map := (reverse_map (infos ! sym_value s))[sym_offset s := of_nat i] \<rparr>])"

definition ANSBuildInfoTable ::
  "int list \<Rightarrow> nat \<Rightarrow> Entry list \<Rightarrow> nat \<Rightarrow> ANSEncSymbolInfo list \<Rightarrow> ANSEncSymbolInfo list" where
  "ANSBuildInfoTable counts alphabet_size tab log_alpha_size infos =
     (let infos = map (\<lambda>s. info_entry (if s = alphabet_size then int ANS_TAB_SIZE else counts ! s) (infos ! s))
                    [0..<max 1 alphabet_size] @ drop (max 1 alphabet_size) infos
      in foldl (set_reverse tab (ANS_LOG_TAB_SIZE - log_alpha_size)) infos [0..<ANS_TAB_SIZE])"

record ANSSymbolReader =
  alias_tables :: "Entry list"
  huffman_data :: "HuffmanDecodingData list"
  use_prefix_code :: bool
  ans_state :: u32
  configs :: "HybridUintConfig list"
  log_alpha_size :: nat
  log_entry_size :: nat
  entry_size_minus_1 :: nat
  lz77_window :: "(nat \<Rightarrow> u32) option"
  num_decoded :: u32
  num_to_copy :: u32
  copy_pos :: u32
  lz77_ctx :: nat
  lz77_min_length :: u32
  lz77_threshold :: nat
  lz77_length_uint :: HybridUintConfig
  special_distances :: "u32 list"
  num_special_distances :: nat

definition ReadSymbolANSWithoutRefill ::
  "nat \<Rightarrow> ANSSymbolReader \<Rightarrow> BitReader \<Rightarrow> nat \<times> ANSSymbolReader \<times> BitReader" where
  "ReadSymbolANSWithoutRefill histo_idx r br =
     (let res = unat (ans_state r AND (of_nat ANS_TAB_SIZE - 1));
          tab = drop (histo_idx * 2 ^ log_alpha_size r) (alias_tables r);
          symbol = Lookup tab res (log_entry_size r) (entry_size_minus_1 r);
          st = of_nat (sym_freq symbol) * drop_bit ANS_LOG_TAB_SIZE (ans_state r) + of_nat (sym_offset symbol);
          new_state = push_bit 16 st OR ucast (PeekBits 16 br);
          normalize = st < push_bit 16 1
      in (sym_value symbol, r\<lparr> ans_state := (if normalize then new_state else st) \<rparr>,
          Consume (if normalize then 16 else 0) br))"

definition ReadSymbolWithoutRefill ::
  "nat \<Rightarrow> ANSSymbolReader \<Rightarrow> BitReader \<Rightarrow> nat \<times> ANSSymbolReader \<times> BitReader" where
  "ReadSymbolWithoutRefill histo_idx r br =
     (if use_prefix_code r
      then (case Huffman_ReadSymbol (huffman_data r ! histo_idx) br of (s, br) \<Rightarrow> (unat s, r, br))
      else ReadSymbolANSWithoutRefill histo_idx r br)"

definition CheckANSFinalState :: "ANSSymbolReader \<Rightarrow> bool" where
  "CheckANSFinalState r \<longleftrightarrow> ans_state r = push_bit 16 (of_nat ANS_SIGNATURE)"

section \<open>Division by reciprocal\<close>

lemma reciprocal_division:
  fixes x f :: nat
  assumes "0 < f" "f \<le> 4096" "x < f * 2 ^ 20"
  defines "I \<equiv> (2 ^ 44 + f - 1) div f"
  shows "x * I < 2 ^ 64" and "x * I div 2 ^ 44 = x div f" and "I \<le> 2 ^ 44"
proof -
  define r where "r = I * f - 2 ^ 44"
  define N where "N = (2 :: nat) ^ 44 + f - 1"
  have "I * f + N mod f = N" by (simp only: I_def N_def [symmetric] div_mult_mod_eq)
  moreover have "N mod f < f" using assms(1) by simp
  ultimately have If: "I * f = 2 ^ 44 + r" and r: "r < f" using assms(1)
    unfolding r_def N_def by linarith+
  have "x * r \<le> x * f" using r by simp
  also have "\<dots> < (f * 2 ^ 20) * f" using assms by simp
  also have "\<dots> \<le> (4096 * 2 ^ 20) * 4096" using assms by (intro mult_le_mono) auto
  finally have xr: "x * r < 2 ^ 44" by simp
  let ?q = "x div f"
  have xq: "?q * f \<le> x" "x + 1 \<le> (?q + 1) * f"
  proof -
    show "?q * f \<le> x" by simp
    have "x = ?q * f + x mod f" by simp
    moreover have "x mod f < f" using assms by simp
    ultimately show "x + 1 \<le> (?q + 1) * f" unfolding distrib_right by linarith
  qed
  have eq: "x * I * f = x * 2 ^ 44 + x * r" unfolding mult.assoc If by (simp only: distrib_left)
  have "(?q * 2 ^ 44) * f = (?q * f) * 2 ^ 44" by (simp only: mult.commute mult.left_commute)
  also have "\<dots> \<le> x * 2 ^ 44" using xq(1) by (rule mult_le_mono1)
  also have "\<dots> \<le> x * I * f" unfolding eq by simp
  finally have lo: "?q * 2 ^ 44 \<le> x * I" using assms(1) by simp
  have "x * I * f < (x + 1) * 2 ^ 44" unfolding eq using xr by simp
  also have "\<dots> \<le> (?q + 1) * 2 ^ 44 * f"
    using mult_le_mono1 [OF xq(2), of "2 ^ 44"] by (simp only: mult.commute mult.left_commute)
  finally have hi: "x * I < (?q + 1) * 2 ^ 44" using assms(1) by simp
  have "?q < 2 ^ 20" using assms(3) by (simp add: less_mult_imp_div_less mult.commute)
  then have "(?q + 1) * 2 ^ 44 \<le> 2 ^ 20 * 2 ^ 44" by (intro mult_le_mono1) simp
  with hi show "x * I < 2 ^ 64" by simp
  show "x * I div 2 ^ 44 = ?q"
  proof (rule div_nat_eqI)
    show "2 ^ 44 * ?q \<le> x * I" using lo by (simp add: mult.commute)
    show "x * I < 2 ^ 44 * Suc ?q" using hi by (simp add: mult.commute)
  qed
  show "I \<le> 2 ^ 44"
  proof -
    have "2 ^ 44 + f - 1 < (2 ^ 44 + 1) * f" using assms(1) by (cases f) simp_all
    then have "I < 2 ^ 44 + 1" unfolding I_def by (rule less_mult_imp_div_less)
    then show ?thesis by simp
  qed
qed

section \<open>Encoding one symbol\<close>

text \<open>The tables of a symbol of frequency \<open>f\<close>.\<close>

definition info_ok :: "nat \<Rightarrow> ANSEncSymbolInfo \<Rightarrow> bool" where
  "info_ok f t \<longleftrightarrow> 0 < f \<and> f \<le> 4096 \<and> freq t = of_nat f \<and> ifreq t = of_nat ((2 ^ 44 + f - 1) div f) \<and>
     length (reverse_map t) = f \<and> (\<forall>k < f. unat (reverse_map t ! k) < 4096)"

text \<open>The state before the division: the low 16 bits are moved out if the result would not fit.\<close>

definition renorm_bits :: "nat \<Rightarrow> u32 \<Rightarrow> nat" where
  "renorm_bits f st = (if f \<le> unat st div 2 ^ 20 then 16 else 0)"

lemma PutSymbol_nat:
  fixes st :: u32 and f :: nat
  assumes t: "info_ok f t"
  defines "n \<equiv> renorm_bits f st"
  defines "x \<equiv> unat st div 2 ^ n"
  obtains st' where "PutSymbol t st = (take_bit n st, n, st')" "x < f * 2 ^ 20"
    "unat st' = (x div f) * 4096 + unat (reverse_map t ! (x mod f))"
proof -
  have f: "0 < f" "f \<le> 4096" and fr: "freq t = of_nat f" "ifreq t = of_nat ((2 ^ 44 + f - 1) div f)"
    and rm: "length (reverse_map t) = f" "\<forall>k < f. unat (reverse_map t ! k) < 4096"
    using t by (auto simp: info_ok_def)
  have st: "unat st < 2 ^ 32" using unsigned_less [of st, where 'a = nat] by simp
  have f16: "unat (freq t) = f" using f by (simp add: fr unat_of_nat_id)
  then have f32: "unat (ucast (freq t) :: u32) = f" using f by (simp add: unat_ucast_id)
  have dr: "unat (drop_bit k st) = unat st div 2 ^ k" for k by (simp only: unat_drop_bit_eq) (simp only: drop_bit_eq_div)
  have xlt: "x < f * 2 ^ 20"
  proof (cases "f \<le> unat st div 2 ^ 20")
    case True
    then have "x < 2 ^ 16" using st by (simp add: x_def n_def renorm_bits_def less_mult_imp_div_less)
    then show ?thesis using f by (cases f) simp_all
  next
    case False
    then have "unat st div 2 ^ 20 < f" by simp
    then have "unat st < f * 2 ^ 20" by (simp only: div_less_iff_less_mult zero_less_power zero_less_numeral)
    then show ?thesis using False by (simp add: x_def n_def renorm_bits_def)
  qed
  define w where "w = (if n = 16 then drop_bit 16 st else st)"
  have w: "unat w = x" by (auto simp: w_def x_def n_def renorm_bits_def dr)
  note R = reciprocal_division [OF f xlt]
  let ?I = "(2 ^ 44 + f - 1) div f"
  define v where "v = (ucast (drop_bit RECIPROCAL_PRECISION ((ucast w :: u64) * ifreq t)) :: u32)"
  have "unat (ifreq t) = ?I" unfolding fr(2) using R(3) by (intro unat_of_nat_id) simp
  moreover have "unat (ucast w :: u64) = x" using w by simp
  ultimately have "unat ((ucast w :: u64) * ifreq t) = x * ?I" using R(1) by (subst unat_mult_id) simp_all
  then have "unat (drop_bit RECIPROCAL_PRECISION ((ucast w :: u64) * ifreq t)) = x div f"
    unfolding RECIPROCAL_PRECISION_def ANS_LOG_TAB_SIZE_def using R(2)
    by (simp only: unat_drop_bit_eq) (simp add: drop_bit_eq_div)
  moreover have q: "x div f < 2 ^ 20" using xlt by (simp add: less_mult_imp_div_less mult.commute)
  ultimately have v: "unat v = x div f" unfolding v_def by (subst unat_ucast_id) simp_all
  have x32: "x < 2 ^ 32" using st by (simp add: x_def) (metis div_le_dividend le_less_trans)
  have qf: "x div f * f \<le> x" by simp
  then have "x div f * f < 2 ^ 32" using x32 by (rule le_less_trans)
  then have vf: "unat (v * ucast (freq t)) = x div f * f"
    using v f32 by (subst unat_mult_id) simp_all
  have "v * ucast (freq t) \<le> w" unfolding word_le_nat_alt vf w by (rule qf)
  from unat_sub [OF this] have idx: "unat (w - v * ucast (freq t)) = x mod f"
    unfolding vf w minus_div_mult_eq_mod .
  define rv where "rv = reverse_map t ! (x mod f)"
  have rv: "unat rv < 4096" using rm(2) f(1) by (simp add: rv_def)
  have pv: "unat (push_bit ANS_LOG_TAB_SIZE v) = (x div f) * 4096"
  proof -
    have "push_bit ANS_LOG_TAB_SIZE v = v * of_nat 4096" by (simp add: push_bit_eq_mult ANS_LOG_TAB_SIZE_def)
    then have "unat (push_bit ANS_LOG_TAB_SIZE v) = unat (v * of_nat 4096)" by (rule arg_cong)
    also have "\<dots> = unat v * 4096" by (subst unat_mult_id) (use q v in simp_all)
    finally show ?thesis using v by simp
  qed
  have urv: "unat (ucast rv :: u32) = unat rv" using rv by (intro unat_ucast_id) simp
  have st': "unat (push_bit ANS_LOG_TAB_SIZE v + ucast rv) = (x div f) * 4096 + unat rv"
    using pv urv q rv by (subst unat_add_id) simp_all
  have c: "ucast (freq t) \<le> drop_bit (32 - ANS_LOG_TAB_SIZE) st \<longleftrightarrow> n = 16"
    unfolding word_le_nat_alt dr f32 by (simp add: n_def renorm_bits_def ANS_LOG_TAB_SIZE_def)
  have n: "n = 16 \<or> n = 0" by (simp add: n_def renorm_bits_def)
  have m: "st AND 0xffff = take_bit 16 st" by (simp add: take_bit_eq_mask mask_eq_exp_minus_1)
  have "PutSymbol t st = (take_bit n st, n, push_bit ANS_LOG_TAB_SIZE v + ucast rv)"
  proof (cases "n = 16")
    case True
    then have "w = drop_bit 16 st" by (simp add: w_def)
    with True idx show ?thesis unfolding v_def rv_def by (simp add: PutSymbol_def c m Let_def)
  next
    case False
    then have "w = st" by (simp add: w_def)
    with False n idx show ?thesis unfolding v_def rv_def by (simp add: PutSymbol_def c m Let_def)
  qed
  with st' xlt show ?thesis using that unfolding rv_def by blast
qed

text \<open>The division by reciprocal in \<open>PutSymbol\<close> is exact and stays inside 64 bits.\<close>

lemma PutSymbol_reciprocal:
  assumes t: "info_ok f t" and put: "PutSymbol t st = (bits, n, st')"
  shows "unat st div 2 ^ n * unat (ifreq t) < 2 ^ 64 \<and>
    unat st div 2 ^ n * unat (ifreq t) div 2 ^ RECIPROCAL_PRECISION = unat st div 2 ^ n div f"
proof -
  have x: "unat st div 2 ^ n < f * 2 ^ 20" using PutSymbol_nat [OF t, of st] put by auto
  have f: "0 < f" "f \<le> 4096" and i: "ifreq t = of_nat ((2 ^ 44 + f - 1) div f)" using t by (simp_all add: info_ok_def)
  note R = reciprocal_division [OF f x]
  have "unat (ifreq t) = (2 ^ 44 + f - 1) div f" unfolding i using R(3) by (intro unat_of_nat_id) simp
  then show ?thesis using R(1,2) by (simp add: RECIPROCAL_PRECISION_def ANS_LOG_TAB_SIZE_def)
qed

section \<open>The reverse map\<close>

lemma nth_update_frame: "g (f (xs ! i)) = g (xs ! i) \<Longrightarrow> g (xs[i := f (xs ! i)] ! s) = g (xs ! s)"
  by (cases "i < length xs"; cases "s = i") (simp_all add: list_update_beyond)

lemma set_reverse_frame:
  "length (set_reverse tab les infos i) = length infos"
  "freq (set_reverse tab les infos i ! s) = freq (infos ! s)"
  "ifreq (set_reverse tab les infos i ! s) = ifreq (infos ! s)"
  "length (reverse_map (set_reverse tab les infos i ! s)) = length (reverse_map (infos ! s))"
  unfolding set_reverse_def Let_def
  by (simp, (rule nth_update_frame [of freq] nth_update_frame [of ifreq]
      nth_update_frame [of "\<lambda>e. length (reverse_map e)"], simp)+)

lemma foldl_set_reverse_frame:
  "length (foldl (set_reverse tab les) infos js) = length infos"
  "freq (foldl (set_reverse tab les) infos js ! s) = freq (infos ! s)"
  "ifreq (foldl (set_reverse tab les) infos js ! s) = ifreq (infos ! s)"
  "length (reverse_map (foldl (set_reverse tab les) infos js ! s)) = length (reverse_map (infos ! s))"
  by (induction js arbitrary: infos) (simp_all add: set_reverse_frame)

lemma foldl_set_reverse:
  assumes look: "\<And>v. v < n \<Longrightarrow> val v < length infos \<and> off v < length (reverse_map (infos ! val v))"
    and inj: "inj_on (\<lambda>v. (val v, off v)) {..<n}"
    and Lk: "\<And>v. v < n \<Longrightarrow> sym_value (Lookup tab v les (2 ^ les - 1)) = val v \<and>
      sym_offset (Lookup tab v les (2 ^ les - 1)) = off v"
    and v: "v < m" and m: "m \<le> n" 
  shows "reverse_map (foldl (set_reverse tab les) infos [0..<m] ! val v) ! off v = of_nat v"
  using v m
proof (induction m)
  case (Suc m)
  let ?I = "foldl (set_reverse tab les) infos [0..<m]"
  from Suc.prems have m: "m < n" "v < n" by simp_all
  have st: "foldl (set_reverse tab les) infos [0..<Suc m] =
      ?I[val m := (?I ! val m)\<lparr> reverse_map := (reverse_map (?I ! val m))[off m := of_nat m] \<rparr>]"
    using Lk [OF m(1)] by (simp add: set_reverse_def Let_def)
  note fr = foldl_set_reverse_frame [of tab les infos "[0..<m]"]
  show ?case
  proof (cases "v = m")
    case True
    then show ?thesis unfolding st using look [OF m(1)] fr by simp
  next
    case False
    then have "v < m" using Suc.prems by simp
    with Suc.IH m have IH: "reverse_map (?I ! val v) ! off v = of_nat v" by simp
    have "(val v, off v) \<noteq> (val m, off m)" using inj_onD [OF inj, of v m] False m by auto
    then show ?thesis unfolding st using IH look [OF m(1)] look [OF m(2)] fr
      by (cases "val v = val m") (simp_all add: nth_list_update)
  qed
qed simp

text \<open>What the encoder relies on: a symbol's info reverses the alias table of the distribution.\<close>

definition info_table_ok :: "int list \<Rightarrow> nat \<Rightarrow> Entry list \<Rightarrow> ANSEncSymbolInfo list \<Rightarrow> bool" where
  "info_table_ok D la tab infos \<longleftrightarrow> (\<forall>s < length D. 0 < D ! s \<longrightarrow> info_ok (nat (D ! s)) (infos ! s) \<and>
     (\<forall>k < nat (D ! s). lookup_at tab la (unat (reverse_map (infos ! s) ! k)) =
        \<lparr> sym_value = s, sym_offset = k, sym_freq = nat (D ! s) \<rparr>))"

lemma ANSBuildInfoTable_ok:
  assumes ok: "alias_ok D la tab" and D: "\<forall>x \<in> set D. 0 \<le> x" "sum_list D = 4096"
    and A: "D = take A counts" "A \<le> length counts" and len: "A \<le> length infos"
  shows "info_table_ok D la tab (ANSBuildInfoTable counts A tab la infos)"
proof -
  have lD: "length D = A" using A by simp
  have A0: "0 < A" using D(2) lD by (cases D) auto
  have cs: "counts ! s = D ! s" if "s < A" for s using that A by simp
  let ?les = "ANS_LOG_TAB_SIZE - la"
  define I where "I = map (\<lambda>s. info_entry (if s = A then int ANS_TAB_SIZE else counts ! s) (infos ! s)) [0..<max 1 A]
     @ drop (max 1 A) infos"
  let ?F = "foldl (set_reverse tab ?les) I [0..<4096]"
  have R: "ANSBuildInfoTable counts A tab la infos = ?F"
    by (simp add: ANSBuildInfoTable_def Let_def I_def ANS_TAB_SIZE_def ANS_LOG_TAB_SIZE_def)
  have mx: "max 1 A = A" using A0 by simp
  have Is: "I ! s = info_entry (D ! s) (infos ! s)" if "s < A" for s
    using that cs by (simp add: I_def mx nth_append)
  have lI: "length I = length infos" unfolding I_def mx using len by simp
  have rmI: "length (reverse_map (I ! s)) = nat (D ! s)" if "s < A" for s
    using that by (simp add: Is info_entry_def Let_def resize_map_def)
  define val off where "val = (\<lambda>v. sym_value (lookup_at tab la v))" and "off = (\<lambda>v. sym_offset (lookup_at tab la v))"
  have bij: "bij_betw (\<lambda>v. (val v, off v)) {..<4096} (symbol_ranks D)"
    and frq: "\<And>v. v < 4096 \<Longrightarrow> int (sym_freq (lookup_at tab la v)) = D ! val v"
    using ok by (auto simp: alias_ok_def val_def off_def ANS_TAB_SIZE_def ANS_LOG_TAB_SIZE_def)
  have vo: "val v < A \<and> int (off v) < D ! val v" if "v < 4096" for v
    using bij_betw_apply [OF bij, of v] that lD by (simp add: symbol_ranks_def)
  have rev: "reverse_map (?F ! val v) ! off v = of_nat v" if "v < 4096" for v
  proof (rule foldl_set_reverse [where n = 4096])
    show "val u < length I \<and> off u < length (reverse_map (I ! val u))" if "u < 4096" for u
      using vo [OF that] rmI len lI by auto
    show "inj_on (\<lambda>v. (val v, off v)) {..<4096}" using bij by (rule bij_betw_imp_inj_on)
  qed (use that in \<open>simp_all add: val_def off_def lookup_at_def\<close>)
  have k: "\<exists>v < 4096. val v = s \<and> off v = k" if "s < A" "int k < D ! s" for s k
  proof -
    have "(s, k) \<in> (\<lambda>v. (val v, off v)) ` {..<4096}"
      unfolding bij_betw_imp_surj_on [OF bij] using that lD by (simp add: symbol_ranks_def)
    then show ?thesis by auto
  qed
  have le: "D ! s \<le> 4096" if "s < A" for s
  proof -
    have "D ! s \<le> sum_list D" using that lD D(1) by (intro member_le_sum_list) auto
    then show ?thesis using D(2) by simp
  qed
  show ?thesis
    unfolding info_table_ok_def R lD
  proof (intro allI impI conjI)
    fix s assume s: "s < A" "0 < D ! s"
    define f where "f = nat (D ! s)"
    have f: "int f = D ! s" "0 < f" "f \<le> 4096" using s le [of s] by (simp_all add: f_def)
    have look: "lookup_at tab la (unat (reverse_map (?F ! s) ! k)) =
        \<lparr> sym_value = s, sym_offset = k, sym_freq = f \<rparr> \<and> unat (reverse_map (?F ! s) ! k) < 4096"
      if kf: "k < f" for k
    proof -
      have "int k < D ! s" using kf f by simp
      then obtain v where v: "v < 4096" "val v = s" "off v = k" using k [OF s(1)] by blast
      have "reverse_map (?F ! s) ! k = of_nat v" using rev [OF v(1)] v by simp
      moreover have "unat (of_nat v :: u16) = v" using v(1) by (intro unat_of_nat_id) simp
      moreover have "sym_freq (lookup_at tab la v) = f" using frq [OF v(1)] v(2) f(1) by simp
      ultimately show ?thesis using v by (simp add: val_def off_def)
    qed
    have fr: "freq (?F ! s) = of_nat f" "ifreq (?F ! s) = (2 ^ RECIPROCAL_PRECISION + ucast (of_nat f :: u16) - 1) div ucast (of_nat f :: u16)"
      using s f(1) [symmetric] by (simp_all add: foldl_set_reverse_frame Is info_entry_def Let_def)
    have RP: "RECIPROCAL_PRECISION = 44" by (simp add: RECIPROCAL_PRECISION_def ANS_LOG_TAB_SIZE_def)
    have f64: "ucast (of_nat f :: u16) = (of_nat f :: u64)"
      by (rule word_unat_eq_iff [THEN iffD2]) (use f(3) in \<open>simp add: unat_ucast_id unat_of_nat_id\<close>)
    have "unat (2 ^ 44 + of_nat f - 1 :: u64) = 2 ^ 44 + f - 1"
    proof -
      have "(2 ^ 44 + of_nat f - 1 :: u64) = of_nat (2 ^ 44 + f - 1)" using f(2) by simp
      then show ?thesis by (simp only:) (rule unat_of_nat_id, use f(3) in simp)
    qed
    then have "unat (ifreq (?F ! s)) = (2 ^ 44 + f - 1) div f"
      unfolding fr f64 RP using f(3) by (simp only: unat_div_distrib) (simp add: unat_of_nat_id)
    then have "ifreq (?F ! s) = of_nat ((2 ^ 44 + f - 1) div f)" by (metis of_nat_unat ucast_id)
    then show "info_ok (nat (D ! s)) (?F ! s)"
      unfolding f_def [symmetric] info_ok_def
      using f fr(1) look rmI [OF s(1)] by (simp add: foldl_set_reverse_frame f_def)
    show "lookup_at tab la (unat (reverse_map (?F ! s) ! k)) =
        \<lparr> sym_value = s, sym_offset = k, sym_freq = nat (D ! s) \<rparr>" if "k < nat (D ! s)" for k
      using look that by (simp add: f_def)
  qed
qed

section \<open>Decoding undoes encoding\<close>

text \<open>A reader set up for a histogram of the distribution \<open>D\<close>.\<close>

definition ans_reader_ok :: "nat \<Rightarrow> ANSSymbolReader \<Rightarrow> bool" where
  "ans_reader_ok la r \<longleftrightarrow> la \<le> 12 \<and> \<not> use_prefix_code r \<and> log_alpha_size r = la \<and>
     log_entry_size r = 12 - la \<and> entry_size_minus_1 r = 2 ^ (12 - la) - 1"

lemma PutSymbol_state:
  assumes t: "info_ok f t" and st: "2 ^ 16 \<le> unat st"
    and put: "PutSymbol t st = (bits, n, st')"
  shows "2 ^ 16 \<le> unat st'" and "n = renorm_bits f st" and "bits = take_bit n st" and "n \<le> 16"
    and "unat bits < 2 ^ n"
proof -
  from PutSymbol_nat [OF t, of st] put
  have n: "n = renorm_bits f st" and b: "bits = take_bit n st"
    and s: "unat st' = (unat st div 2 ^ n div f) * 4096 + unat (reverse_map t ! (unat st div 2 ^ n mod f))"
    by force+
  show "n = renorm_bits f st" "bits = take_bit n st" by fact+
  show "n \<le> 16" by (simp add: n renorm_bits_def)
  show "unat bits < 2 ^ n" unfolding b by (simp add: unsigned_take_bit_eq)
  have f: "0 < f" "f \<le> 4096" using t by (auto simp: info_ok_def)
  have "16 * f \<le> unat st div 2 ^ n"
  proof (cases "f \<le> unat st div 2 ^ 20")
    case True
    have "f * 2 ^ 20 \<le> unat st div 2 ^ 20 * 2 ^ 20" using True by (rule mult_le_mono1)
    also have "\<dots> \<le> unat st" by simp
    finally have "f * 16 * 2 ^ 16 \<le> unat st" by simp
    then have "f * 16 \<le> unat st div 2 ^ 16" by (metis div_le_mono nonzero_mult_div_cancel_right power_not_zero zero_neq_numeral)
    then show ?thesis using True by (simp add: n renorm_bits_def mult.commute)
  next
    case False
    then show ?thesis using st f by (simp add: n renorm_bits_def)
  qed
  then have "16 \<le> unat st div 2 ^ n div f" using f(1) by (simp add: less_eq_div_iff_mult_less_eq)
  then show "2 ^ 16 \<le> unat st'" unfolding s by simp
qed

lemma ReadSymbolANS_inverse:
  assumes tab: "info_table_ok D la (drop (h * 2 ^ la) (alias_tables r)) infos" and r: "ans_reader_ok la r"
    and s: "s < length D" "0 < D ! s" and st: "2 ^ 16 \<le> unat st"
    and put: "PutSymbol (infos ! s) st = (bits, n, ans_state r)"
    and br: "br_ok br" "16 \<le> bits_in_buf br" and ahead: "begins (upcoming br) (bits_of n bits)"
  shows "ReadSymbolANSWithoutRefill h r br = (s, r\<lparr> ans_state := st \<rparr>, Consume n br)"
proof -
  define f where "f = nat (D ! s)"
  let ?t = "infos ! s" and ?st' = "ans_state r"
  define x where "x = unat st div 2 ^ n"
  have t: "info_ok f ?t" and look: "\<And>k. k < f \<Longrightarrow> lookup_at (drop (h * 2 ^ la) (alias_tables r)) la
      (unat (reverse_map ?t ! k)) = \<lparr> sym_value = s, sym_offset = k, sym_freq = f \<rparr>"
    using tab s by (auto simp: info_table_ok_def f_def)
  have f: "0 < f" "f \<le> 4096" and rm: "\<And>k. k < f \<Longrightarrow> unat (reverse_map ?t ! k) < 4096"
    using t by (auto simp: info_ok_def)
  note P = PutSymbol_state [OF t st put]
  obtain st'' where "PutSymbol ?t st = (take_bit n st, n, st'')" and "x < f * 2 ^ 20"
    and "unat st'' = (x div f) * 4096 + unat (reverse_map ?t ! (x mod f))"
    using PutSymbol_nat [OF t, of st] unfolding x_def P(2) by blast
  with put have st': "unat ?st' = (x div f) * 4096 + unat (reverse_map ?t ! (x mod f))" by simp
  have k: "x mod f < f" using f by simp
  define rv where "rv = unat (reverse_map ?t ! (x mod f))"
  have rv: "rv < 4096" using rm [OF k] by (simp add: rv_def)
  have "unat (?st' AND (of_nat ANS_TAB_SIZE - 1)) = unat (take_bit 12 ?st')"
    by (simp add: ANS_TAB_SIZE_def ANS_LOG_TAB_SIZE_def take_bit_eq_mask mask_eq_exp_minus_1)
  also have "\<dots> = unat ?st' mod 2 ^ 12" by (simp only: unsigned_take_bit_eq) (simp only: take_bit_eq_mod)
  also have "\<dots> = rv" using rv by (simp add: st' rv_def [symmetric])
  finally have res: "unat (?st' AND (of_nat ANS_TAB_SIZE - 1)) = rv" .
  have sym: "Lookup (drop (h * 2 ^ log_alpha_size r) (alias_tables r)) rv (log_entry_size r) (entry_size_minus_1 r) =
      \<lparr> sym_value = s, sym_offset = x mod f, sym_freq = f \<rparr>"
    using look [OF k] r by (simp add: ans_reader_ok_def lookup_at_def ANS_LOG_TAB_SIZE_def rv_def)
  have "unat (drop_bit ANS_LOG_TAB_SIZE ?st') = unat ?st' div 2 ^ 12"
    by (simp only: unat_drop_bit_eq ANS_LOG_TAB_SIZE_def) (simp only: drop_bit_eq_div)
  also have "\<dots> = x div f" using rv by (simp add: st' rv_def [symmetric])
  finally have q: "unat (drop_bit ANS_LOG_TAB_SIZE ?st') = x div f" .
  have "unat st < 2 ^ 32" using unsigned_less [of st, where 'a = nat] by simp
  then have x32: "x < 2 ^ 32" unfolding x_def using div_le_dividend le_less_trans by blast
  have fq: "f * (x div f) \<le> x" "f * (x div f) + x mod f = x" "x mod f < 2 ^ 32"
    using x32 by (simp_all add: mult_div_mod_eq) (metis mod_less_eq_dividend le_less_trans)
  then have lt: "f * (x div f) < 2 ^ 32" using x32 by linarith
  define w where "w = of_nat f * drop_bit ANS_LOG_TAB_SIZE ?st' + (of_nat (x mod f) :: u32)"
  have fw: "unat (of_nat f :: u32) = f" "unat (of_nat (x mod f) :: u32) = x mod f"
    using f fq(3) by (simp_all add: unat_of_nat_id)
  have m: "unat (of_nat f * drop_bit ANS_LOG_TAB_SIZE ?st' :: u32) = f * (x div f)"
    by (subst unat_mult_id) (use fw q lt in simp_all)
  have w: "unat w = x"
    unfolding w_def by (subst unat_add_id) (use fw m fq x32 in simp_all)
  have norm: "w < push_bit 16 1 \<longleftrightarrow> n = 16"
  proof -
    have "w < push_bit 16 1 \<longleftrightarrow> x < 2 ^ 16" by (simp add: word_less_nat_alt w)
    also have "\<dots> \<longleftrightarrow> n = 16"
      using st \<open>unat st < 2 ^ 32\<close> by (auto simp: x_def P(2) renorm_bits_def less_mult_imp_div_less)
    finally show ?thesis .
  qed
  have "(if w < push_bit 16 1 then push_bit 16 w OR ucast (PeekBits 16 br) else w) = st"
  proof (cases "n = 16")
    case True
    have wd: "w = drop_bit 16 st"
      by (rule word_unat_eq_iff [THEN iffD2])
        (simp only: w x_def True unat_drop_bit_eq, simp only: drop_bit_eq_div)
    have pk: "bit (PeekBits 16 br) i = bit st i" if "i < 16" for i
      using ahead that PeekBits_value [OF br]
      by (simp add: bit_word_of_bits begins_def True P(3) bit_take_bit_iff)
    have pk0: "\<not> bit (PeekBits 16 br) i" if "16 \<le> i" for i
      using that PeekBits_value [OF br] by (simp add: bit_word_of_bits)
    have "push_bit 16 w OR ucast (PeekBits 16 br) = st"
    proof (rule bit_word_eqI)
      fix i assume "i < LENGTH(32)"
      then show "bit (push_bit 16 w OR ucast (PeekBits 16 br)) i = bit st i"
        using pk [of i] pk0 [of i]
        by (cases "i < 16") (auto simp: wd bit_or_iff bit_push_bit_iff bit_drop_bit_eq bit_ucast_iff)
    qed
    then show ?thesis using True norm by simp
  next
    case False
    then have "n = 0" by (simp add: P(2) renorm_bits_def split: if_splits)
    then have "unat w = unat st" by (simp add: w x_def)
    then have "w = st" by (rule word_unat_eq_iff [THEN iffD2])
    then show ?thesis using False norm by simp
  qed
  moreover have "(if w < push_bit 16 1 then 16 else 0) = n"
    using norm P(2) by (auto simp: renorm_bits_def split: if_splits)
  ultimately show ?thesis
    unfolding ReadSymbolANSWithoutRefill_def res Let_def sym
    by (simp only: Symbol.simps w_def [symmetric])
qed

lemma info_table_ok_take:
  assumes ok: "info_table_ok D la t infos" and eq: "take (2 ^ la) t = take (2 ^ la) t'" and la: "la \<le> 12"
  shows "info_table_ok D la t' infos"
  unfolding info_table_ok_def
proof (intro allI impI conjI)
  fix s assume s: "s < length D" "0 < D ! s"
  then show i: "info_ok (nat (D ! s)) (infos ! s)" using ok by (simp add: info_table_ok_def)
  fix k assume k: "k < nat (D ! s)"
  then have "unat (reverse_map (infos ! s) ! k) < 4096" using i by (simp add: info_ok_def)
  from lookup_at_take [OF eq la this] ok s k
  show "lookup_at t' la (unat (reverse_map (infos ! s) ! k)) =
      \<lparr> sym_value = s, sym_offset = k, sym_freq = nat (D ! s) \<rparr>"
    by (simp add: info_table_ok_def)
qed

text \<open>The distributions the format allows.\<close>

definition dist_ok :: "nat \<Rightarrow> int list \<Rightarrow> bool" where
  "dist_ok la D \<longleftrightarrow> (\<forall>x \<in> set D. 0 \<le> x) \<and> sum_list D = 4096 \<and> length (trim_zeros D) \<le> 2 ^ la \<and> 4 \<le> la \<and> la \<le> 8"

lemma built_tables_ok:
  assumes D: "dist_ok la D" and mem: "2 ^ la \<le> length a" "2 ^ la \<le> length b" "length D \<le> length infos"
    and te: "InitAliasTable D ANS_LOG_TAB_SIZE la a = Inr te"
    and td: "InitAliasTable D ANS_LOG_TAB_SIZE la b = Inr td"
  shows "info_table_ok D la td (ANSBuildInfoTable D (length D) te la infos)"
proof -
  note d = D [unfolded dist_ok_def]
  have "alias_ok D la te" and eq: "take (2 ^ la) td = take (2 ^ la) te"
    by (rule alias_table_unique [OF _ _ _ _ _ mem(1,2) te td]; use d in blast)+
  then have "info_table_ok D la te (ANSBuildInfoTable D (length D) te la infos)"
    by (intro ANSBuildInfoTable_ok) (use d mem(3) in simp_all)
  from info_table_ok_take [OF this eq [symmetric]] show ?thesis using d by simp
qed

text \<open>C9: Decoding a symbol undoes its encoding: with the encoder's and the decoder's alias tables built
  from one distribution (each over its own uninitialised memory), a symbol of positive count and a
  coder state of at least \<open>2 ^ 16\<close>, \<open>PutSymbol\<close> leaves a
  state of at least \<open>2 ^ 16\<close> and at most 16 bits; its product with the stored reciprocal stays below \<open>2 ^ 64\<close> and
  its shift is the quotient by the count; the reader in that state with those bits ahead
  returns the symbol, is left in the state before encoding and consumes exactly those bits.\<close>

theorem ANS_symbol_roundtrip:
  assumes D: "dist_ok la D" and mem: "2 ^ la \<le> length a" "2 ^ la \<le> length b" "length D \<le> length infos"
    and te: "InitAliasTable D ANS_LOG_TAB_SIZE la a = Inr te"
    and td: "InitAliasTable D ANS_LOG_TAB_SIZE la b = Inr (drop (h * 2 ^ la) (alias_tables r))"
    and r: "ans_reader_ok la r" and s: "s < length D" "0 < D ! s" and st: "2 ^ 16 \<le> unat st"
    and put: "PutSymbol (ANSBuildInfoTable D (length D) te la infos ! s) st = (bits, n, ans_state r)"
    and br: "br_ok br" "16 \<le> bits_in_buf br" "begins (upcoming br) (bits_of n bits)"
  shows "2 ^ 16 \<le> unat (ans_state r) \<and> n \<le> 16 \<and> unat bits < 2 ^ n \<and>
    (let x = unat st div 2 ^ n; reciprocal = unat (ifreq (ANSBuildInfoTable D (length D) te la infos ! s))
     in x * reciprocal < 2 ^ 64 \<and> x * reciprocal div 2 ^ RECIPROCAL_PRECISION = x div nat (D ! s)) \<and>
    ReadSymbolANSWithoutRefill h r br = (s, r\<lparr> ans_state := st \<rparr>, Consume n br)"
proof -
  note ok = built_tables_ok [OF D mem te td]
  then have i: "info_ok (nat (D ! s)) (ANSBuildInfoTable D (length D) te la infos ! s)"
    using s by (simp add: info_table_ok_def)
  from PutSymbol_state [OF i st put] PutSymbol_reciprocal [OF i put] ReadSymbolANS_inverse [OF ok r s st put br] show ?thesis unfolding Let_def by blast
qed

definition blank_info :: ANSEncSymbolInfo where
  "blank_info = \<lparr> freq = 0, reverse_map = [], ifreq = 0, depth = 0, pbits = 0 \<rparr>"

definition plain_reader :: "Entry list \<Rightarrow> nat \<Rightarrow> u32 \<Rightarrow> HybridUintConfig list \<Rightarrow> ANSSymbolReader" where
  "plain_reader tab la st cfgs =
     \<lparr> alias_tables = tab, huffman_data = [], use_prefix_code = False, ans_state = st, configs = cfgs,
       log_alpha_size = la, log_entry_size = 12 - la, entry_size_minus_1 = 2 ^ (12 - la) - 1,
       lz77_window = None, num_decoded = 0, num_to_copy = 0, copy_pos = 0, lz77_ctx = 0,
       lz77_min_length = 0, lz77_threshold = 2 ^ 20, lz77_length_uint = HybridUintConfig_new 4 2 0,
       special_distances = [], num_special_distances = 0 \<rparr>"

theorem ANS_symbol_roundtrip_witness:
  "\<exists>tab st'. InitAliasTable [3000, 0, 1096] ANS_LOG_TAB_SIZE 5 (replicate 32 (single_entry 7 3 1)) = Inr tab \<and>
     snd (snd (PutSymbol (ANSBuildInfoTable [3000, 0, 1096] 3 tab 5 (replicate 3 blank_info) ! 2) 0x10000)) = st' \<and>
     (case ReadSymbolANSWithoutRefill 0 (plain_reader tab 5 st' []) (Refill (BitReader_new [])) of
        (s, r, br) \<Rightarrow> s = 2 \<and> ans_state r = 0x10000)"
proof -
  let ?D = "[3000, 0, 1096] :: int list" and ?a = "replicate 32 (single_entry 7 3 1)"
  have D: "dist_ok 5 ?D" by (simp add: dist_ok_def trim_zeros_def)
  then obtain tab where tab: "InitAliasTable ?D ANS_LOG_TAB_SIZE 5 ?a = Inr tab"
    using InitAliasTable_ok [of ?D 5 ?a] by (auto simp: dist_ok_def)
  let ?t = "ANSBuildInfoTable ?D 3 tab 5 (replicate 3 blank_info) ! 2"
  obtain bits n st' where put: "PutSymbol ?t 0x10000 = (bits, n, st')" by (metis prod_cases3)
  have len: "2 ^ 5 \<le> length ?a" "length ?D \<le> length (replicate 3 blank_info)" by simp_all
  have r: "ans_reader_ok 5 (plain_reader tab 5 st' [])" by (simp add: ans_reader_ok_def plain_reader_def)
  have tab': "InitAliasTable ?D ANS_LOG_TAB_SIZE 5 ?a = Inr (drop (0 * 2 ^ 5) (alias_tables (plain_reader tab 5 st' [])))"
    using tab by (simp add: plain_reader_def)
  have l3: "length ?D = 3" "?D ! 2 = 1096" by simp_all
  from built_tables_ok [OF D len(1,1,2) tab tab, unfolded info_table_ok_def, rule_format, of 2]
  have "info_ok 1096 ?t" unfolding l3 by simp
  with PutSymbol_state(2) [OF this _ put] have n: "n = 0" by (simp add: renorm_bits_def)
  note R = Refill_ok [OF BitReader_new_ok(1), of "[]"]
  have b: "begins (upcoming (Refill (BitReader_new []))) (bits_of n bits)" by (simp add: n begins_def)
  have put': "PutSymbol (ANSBuildInfoTable ?D (length ?D) tab 5 (replicate 3 blank_info) ! 2) 0x10000 =
      (bits, n, ans_state (plain_reader tab 5 st' []))"
    unfolding l3(1) using put by (simp only: plain_reader_def ANSSymbolReader.simps)
  have "ReadSymbolANSWithoutRefill 0 (plain_reader tab 5 st' []) (Refill (BitReader_new [])) =
      (2, (plain_reader tab 5 st' [])\<lparr> ans_state := 0x10000 \<rparr>, Consume n (Refill (BitReader_new [])))"
    using ANS_symbol_roundtrip [OF D len(1,1,2) tab tab' r _ _ _ put' R(1) _ b] R(2) by simp
  then show ?thesis using tab put by auto
qed

end
