(* ===== verification/Ans_Tokens.thy ===== *)
theory Ans_Tokens
  imports Ans_Coder
begin

text \<open>
  Streams of entropy coded integers: \<^verbatim>\<open>WriteTokens\<close> of \<^verbatim>\<open>lib/jxl/enc_ans.cc\<close> and the
  integer reader of \<^verbatim>\<open>lib/jxl/dec_ans.h\<close> and \<^verbatim>\<open>dec_ans.cc\<close>, with its LZ77 window.  The window is a
  function from its index (the source masks it to 20 bits) to the stored value; a null pointer is \<open>None\<close>.
\<close>

section \<open>Definitions\<close>

record LZ77Params =
  lz_enabled :: bool
  min_symbol :: nat
  min_length :: nat
  length_uint_config :: HybridUintConfig
  nonserialized_distance_context :: nat

record Token =
  is_lz77_length :: bool
  tok_context :: nat
  tok_value :: nat

record EntropyEncodingData =
  encoding_info :: "ANSEncSymbolInfo list list"
  enc_use_prefix_code :: bool
  enc_uint_config :: "HybridUintConfig list"
  enc_lz77 :: LZ77Params
  context_map :: "nat list"

type_synonym bit_acc = "u64 \<times> nat \<times> (nat \<times> u64) list"
  \<comment> \<open>the pending bits, their number, and the completed chunks, last one first\<close>

definition addbits :: "u64 \<Rightarrow> nat \<Rightarrow> bit_acc \<Rightarrow> bit_acc" where
  "addbits bits nbits acc =
     (if nbits \<noteq> 0 then
        (let (allbits, numallbits, out) = acc;
             (allbits, numallbits, out) =
               (if numallbits + nbits > 56 then (0, 0, (numallbits, allbits) # out)
                else (allbits, numallbits, out))
         in (push_bit nbits allbits OR bits, numallbits + nbits, out))
      else acc)"

text \<open>The token of a value, its extra bits and the histogram it is coded with.\<close>

definition token_code :: "EntropyEncodingData \<Rightarrow> nat \<Rightarrow> Token \<Rightarrow> nat \<times> nat \<times> nat" where
  "token_code codes histo t =
     (case HybridUint_Encode (if is_lz77_length t then length_uint_config (enc_lz77 codes)
                              else enc_uint_config codes ! histo) (tok_value t)
      of (tok, nbits, bits) \<Rightarrow>
        (tok + (if is_lz77_length t then min_symbol (enc_lz77 codes) else 0), nbits, bits))"

definition write_prefix_token ::
  "EntropyEncodingData \<Rightarrow> nat \<Rightarrow> nat \<times> BitWriter \<Rightarrow> Token \<Rightarrow> nat \<times> BitWriter" where
  "write_prefix_token codes context_offset acc t =
     (let (num_extra_bits, w) = acc;
          histo = context_map codes ! (context_offset + tok_context t);
          (tok, nbits, bits) = token_code codes histo t;
          info = encoding_info codes ! histo ! tok;
          d = ucast (pbits info) OR push_bit (unat (depth info)) (of_nat bits)
      in (num_extra_bits + nbits, Write (unat (depth info) + nbits) d w))"

definition put_token ::
  "EntropyEncodingData \<Rightarrow> nat \<Rightarrow> Token \<Rightarrow> nat \<times> u32 \<times> bit_acc \<Rightarrow> nat \<times> u32 \<times> bit_acc" where
  "put_token codes context_offset t acc =
     (let (num_extra_bits, ans, acc) = acc;
          (histo, tok, nbits, bits) =
            (if lz_enabled (enc_lz77 codes) \<or> length (context_map codes) > 1 then
               (let histo = context_map codes ! (context_offset + tok_context t)
                in (histo, token_code codes histo t))
             else (0, HybridUint_Encode (enc_uint_config codes ! 0) (tok_value t)));
          acc = addbits (of_nat bits) nbits acc;
          (ans_bits, ans_nbits, ans) = PutSymbol (encoding_info codes ! histo ! tok) ans
      in (num_extra_bits + nbits, ans, addbits (ucast ans_bits) ans_nbits acc))"

definition WriteTokens :: "Token list \<Rightarrow> EntropyEncodingData \<Rightarrow> nat \<Rightarrow> BitWriter \<Rightarrow> nat \<times> BitWriter" where
  "WriteTokens tokens codes context_offset w =
     (if enc_use_prefix_code codes then foldl (write_prefix_token codes context_offset) (0, w) tokens
      else
        (let (num_extra_bits, ans, allbits, numallbits, out) =
               foldr (put_token codes context_offset) tokens
                 (0, push_bit 16 (of_nat ANS_SIGNATURE), 0, 0, []);
             w = Write 32 (ucast ans) w;
             w = Write numallbits allbits w;
             w = foldl (\<lambda>w (n, b). Write n b w) w out
         in (num_extra_bits, w)))"

definition kWindowSize :: nat where "kWindowSize = 2 ^ 20"

definition kNumSpecialDistances :: nat where "kNumSpecialDistances = 120"

definition kSpecialDistances :: "(int \<times> int) list" where
  "kSpecialDistances = [
    (0, 1),  (1, 0),  (1, 1),  (-1, 1), (0, 2),  (2, 0),  (1, 2),  (-1, 2),
    (2, 1),  (-2, 1), (2, 2),  (-2, 2), (0, 3),  (3, 0),  (1, 3),  (-1, 3),
    (3, 1),  (-3, 1), (2, 3),  (-2, 3), (3, 2),  (-3, 2), (0, 4),  (4, 0),
    (1, 4),  (-1, 4), (4, 1),  (-4, 1), (3, 3),  (-3, 3), (2, 4),  (-2, 4),
    (4, 2),  (-4, 2), (0, 5),  (3, 4),  (-3, 4), (4, 3),  (-4, 3), (5, 0),
    (1, 5),  (-1, 5), (5, 1),  (-5, 1), (2, 5),  (-2, 5), (5, 2),  (-5, 2),
    (4, 4),  (-4, 4), (3, 5),  (-3, 5), (5, 3),  (-5, 3), (0, 6),  (6, 0),
    (1, 6),  (-1, 6), (6, 1),  (-6, 1), (2, 6),  (-2, 6), (6, 2),  (-6, 2),
    (4, 5),  (-4, 5), (5, 4),  (-5, 4), (3, 6),  (-3, 6), (6, 3),  (-6, 3),
    (0, 7),  (7, 0),  (1, 7),  (-1, 7), (5, 5),  (-5, 5), (7, 1),  (-7, 1),
    (4, 6),  (-4, 6), (6, 4),  (-6, 4), (2, 7),  (-2, 7), (7, 2),  (-7, 2),
    (3, 7),  (-3, 7), (7, 3),  (-7, 3), (5, 6),  (-5, 6), (6, 5),  (-6, 5),
    (8, 0),  (4, 7),  (-4, 7), (7, 4),  (-7, 4), (8, 1),  (8, 2),  (6, 6),
    (-6, 6), (8, 3),  (5, 7),  (-5, 7), (7, 5),  (-7, 5), (8, 4),  (6, 7),
    (-6, 7), (7, 6),  (-7, 6), (8, 5),  (7, 7),  (-7, 7), (8, 6),  (8, 7)]"

definition SpecialDistance :: "nat \<Rightarrow> int \<Rightarrow> int" where
  "SpecialDistance index multiplier =
     (let dist = fst (kSpecialDistances ! index) + multiplier * snd (kSpecialDistances ! index)
      in if dist > 1 then dist else 1)"

record ANSCode =
  code_alias_tables :: "Entry list"
  code_huffman_data :: "HuffmanDecodingData list"
  uint_config :: "HybridUintConfig list"
  degenerate_symbols :: "int list"
  code_use_prefix_code :: bool
  code_log_alpha_size :: nat
  lz77 :: LZ77Params
  max_num_bits :: nat

text \<open>\<open>window_mem\<close> is the content of the freshly allocated window.\<close>

definition ANSSymbolReader_new ::
  "ANSCode \<Rightarrow> (nat \<Rightarrow> u32) \<Rightarrow> nat \<Rightarrow> BitReader \<Rightarrow> ANSSymbolReader \<times> BitReader" where
  "ANSSymbolReader_new code window_mem distance_multiplier br =
     (let r = \<lparr> alias_tables = code_alias_tables code, huffman_data = code_huffman_data code,
                use_prefix_code = code_use_prefix_code code,
                ans_state = push_bit 16 (of_nat ANS_SIGNATURE), configs = uint_config code,
                log_alpha_size = 0, log_entry_size = 0, entry_size_minus_1 = 0,
                lz77_window = None, num_decoded = 0, num_to_copy = 0, copy_pos = 0, lz77_ctx = 0,
                lz77_min_length = 0, lz77_threshold = 2 ^ 20,
                lz77_length_uint = HybridUintConfig_new 4 2 0,
                special_distances = replicate kNumSpecialDistances 0, num_special_distances = 0 \<rparr>;
          (r, br) =
            (if \<not> use_prefix_code r then
               (case ReadBits 32 br of (st, br) \<Rightarrow>
                  (r\<lparr> ans_state := ucast st, log_alpha_size := code_log_alpha_size code,
                     log_entry_size := ANS_LOG_TAB_SIZE - code_log_alpha_size code,
                     entry_size_minus_1 := 2 ^ (ANS_LOG_TAB_SIZE - code_log_alpha_size code) - 1 \<rparr>, br))
             else (r, br))
      in if \<not> lz_enabled (lz77 code) then (r, br)
         else (let nsd = (if distance_multiplier = 0 then 0 else kNumSpecialDistances)
               in (r\<lparr> lz77_window := Some window_mem,
                     lz77_ctx := nonserialized_distance_context (lz77 code),
                     lz77_length_uint := length_uint_config (lz77 code),
                     lz77_threshold := min_symbol (lz77 code),
                     lz77_min_length := of_nat (min_length (lz77 code)),
                     num_special_distances := nsd,
                     special_distances :=
                       map (\<lambda>i. of_int (SpecialDistance i (int distance_multiplier))) [0..<nsd] @
                       drop nsd (special_distances r) \<rparr>, br)))"

text \<open>The index into the window of a 32-bit position, and the two elementary window steps.\<close>

definition window_index :: "u32 \<Rightarrow> nat" where
  "window_index p = unat (p AND (of_nat kWindowSize - 1))"

definition window_push :: "u32 \<Rightarrow> ANSSymbolReader \<Rightarrow> ANSSymbolReader" where
  "window_push v r =
     r\<lparr> lz77_window := map_option (\<lambda>w. w(window_index (num_decoded r) := v)) (lz77_window r),
        num_decoded := num_decoded r + 1 \<rparr>"

definition window_copy :: "ANSSymbolReader \<Rightarrow> nat \<times> ANSSymbolReader" where
  "window_copy r =
     (let ret = the (lz77_window r) (window_index (copy_pos r))
      in (unat ret, window_push ret (r\<lparr> copy_pos := copy_pos r + 1, num_to_copy := num_to_copy r - 1 \<rparr>)))"

definition lz77_distance :: "ANSSymbolReader \<Rightarrow> nat \<Rightarrow> nat" where
  "lz77_distance r distance =
     (let distance = (if distance < num_special_distances r then unat (special_distances r ! distance)
                      else distance + 1 - num_special_distances r);
          distance = (if distance > unat (num_decoded r) then unat (num_decoded r) else distance)
      in if distance > kWindowSize then kWindowSize else distance)"

definition ReadHybridUintClustered ::
  "bool \<Rightarrow> nat \<Rightarrow> ANSSymbolReader \<Rightarrow> BitReader \<Rightarrow> nat \<times> ANSSymbolReader \<times> BitReader" where
  "ReadHybridUintClustered uses_lz77 ctx r br =
     (if uses_lz77 \<and> num_to_copy r > 0
      then (case window_copy r of (ret, r) \<Rightarrow> (ret, r, br))
      else
        (let br = Refill br;
             (token, r, br) = ReadSymbolWithoutRefill ctx r br
         in if uses_lz77 \<and> token \<ge> lz77_threshold r then
              (let (len, br) = ReadHybridUintConfig (lz77_length_uint r) (token - lz77_threshold r) br;
                   r = r\<lparr> num_to_copy := of_nat len + lz77_min_length r \<rparr>;
                   br = Refill br;
                   (d_token, r, br) = ReadSymbolWithoutRefill (lz77_ctx r) r br;
                   (distance, br) = ReadHybridUintConfig (configs r ! lz77_ctx r) d_token br;
                   distance = lz77_distance r distance;
                   r = r\<lparr> copy_pos := num_decoded r - of_nat distance \<rparr>;
                   r = (if distance = 0 then
                          (let to_fill = min (unat (num_to_copy r)) kWindowSize
                           in r\<lparr> lz77_window := map_option (\<lambda>w i. if i < to_fill then 0 else w i) (lz77_window r) \<rparr>)
                        else r)
               in if num_to_copy r < lz77_min_length r then (0, r, br)
                  else (case window_copy r of (ret, r) \<Rightarrow> (ret, r, br)))
            else
              (let (ret, br) = ReadHybridUintConfig (configs r ! ctx) token br
               in (ret, if uses_lz77 \<and> lz77_window r \<noteq> None then window_push (of_nat ret) r else r, br))))"

definition ReadHybridUint ::
  "nat \<Rightarrow> ANSSymbolReader \<Rightarrow> BitReader \<Rightarrow> nat list \<Rightarrow> nat \<times> ANSSymbolReader \<times> BitReader" where
  "ReadHybridUint ctx r br cmap = ReadHybridUintClustered True (cmap ! ctx) r br"

definition IsSingleValueAndAdvance ::
  "nat \<Rightarrow> nat \<Rightarrow> ANSSymbolReader \<Rightarrow> (nat \<times> ANSSymbolReader) option" where
  "IsSingleValueAndAdvance ctx count r =
     (if use_prefix_code r then None
      else if num_to_copy r \<noteq> 0 then None
      else
        (let res = unat (ans_state r AND (of_nat ANS_TAB_SIZE - 1));
             tab = drop (ctx * 2 ^ log_alpha_size r) (alias_tables r);
             symbol = Lookup tab res (log_entry_size r) (entry_size_minus_1 r)
         in if sym_freq symbol \<noteq> ANS_TAB_SIZE then None
            else if split_token (configs r ! ctx) \<le> sym_value symbol then None
            else if sym_value symbol \<ge> lz77_threshold r then None
            else Some (sym_value symbol,
                       if lz77_window r \<noteq> None
                       then (window_push (of_nat (sym_value symbol)) ^^ count) r else r)))"

definition UpdateMaxNumBits :: "nat \<Rightarrow> nat \<Rightarrow> ANSCode \<Rightarrow> ANSCode" where
  "UpdateMaxNumBits ctx symbol code =
     (let lz = lz_enabled (lz77 code) \<and> nonserialized_distance_context (lz77 code) \<noteq> ctx \<and>
               symbol \<ge> min_symbol (lz77 code);
          cfg = (if lz then length_uint_config (lz77 code) else uint_config code ! ctx);
          symbol = (if lz then symbol - min_symbol (lz77 code) else symbol)
      in if symbol < split_token cfg
         then code\<lparr> max_num_bits := max (max_num_bits code) (split_exponent cfg) \<rparr>
         else (let n_extra_bits = split_exponent cfg - (msb_in_token cfg + lsb_in_token cfg) +
                     (symbol - split_token cfg) div 2 ^ (msb_in_token cfg + lsb_in_token cfg);
                   total_bits = msb_in_token cfg + lsb_in_token cfg + n_extra_bits + 1
               in code\<lparr> max_num_bits := max (max_num_bits code) total_bits \<rparr>))"

section \<open>The reversed bit accumulator\<close>

fun acc_ok :: "bit_acc \<Rightarrow> bool" where
  "acc_ok (allbits, n, out) \<longleftrightarrow>
     n \<le> 56 \<and> drop_bit n allbits = 0 \<and> (\<forall>(m, a) \<in> set out. m \<le> 56 \<and> drop_bit m a = 0)"

fun acc_bits :: "bit_acc \<Rightarrow> bool list" where
  "acc_bits (allbits, n, out) = bits_of n allbits @ concat (map (\<lambda>(m, a). bits_of m a) out)"

lemma bits_of_push:
  fixes a b :: u64
  assumes "drop_bit k b = 0" and "n + k \<le> 56"
  shows "bits_of (n + k) (push_bit k a OR b) = bits_of k b @ bits_of n a"
proof (rule nth_equalityI)
  fix i assume i: "i < length (bits_of (n + k) (push_bit k a OR b))"
  have "k \<le> i \<Longrightarrow> \<not> bit b i" using drop_bit_0_bit [OF assms(1), of i] by auto
  then show "bits_of (n + k) (push_bit k a OR b) ! i = (bits_of k b @ bits_of n a) ! i"
    using i assms(2) by (auto simp: nth_append bit_or_iff bit_push_bit_iff)
qed simp

lemma addbits_ok:
  assumes "acc_ok acc" and "nbits \<le> 56" and "drop_bit nbits bits = 0"
  shows "acc_ok (addbits bits nbits acc)" and "acc_bits (addbits bits nbits acc) = bits_of nbits bits @ acc_bits acc"
proof -
  obtain allbits n out where acc: "acc = (allbits, n, out)" by (cases acc) auto
  have k: "drop_bit (m + nbits) (push_bit nbits a OR bits) = 0" if "drop_bit m a = 0" for m and a :: u64
  proof (rule bit_eqI)
    fix i
    have "\<not> bit a (m + i)" "\<not> bit bits (m + nbits + i)"
      using drop_bit_0_bit [OF that, of "m + i"] drop_bit_0_bit [OF assms(3), of "m + nbits + i"] by auto
    then show "bit (drop_bit (m + nbits) (push_bit nbits a OR bits)) i = bit 0 i"
      by (simp add: bit_drop_bit_eq bit_or_iff bit_push_bit_iff)
  qed
  have "acc_ok (addbits bits nbits acc) \<and> acc_bits (addbits bits nbits acc) = bits_of nbits bits @ acc_bits acc"
  proof (cases "nbits = 0 \<or> n + nbits > 56")
    case True
    then show ?thesis
      using assms k [of 0 0] by (auto simp: acc addbits_def)
  next
    case False
    then show ?thesis
      using assms k [of n allbits] bits_of_push [OF assms(3), of n allbits] by (auto simp: acc addbits_def)
  qed
  then show "acc_ok (addbits bits nbits acc)" "acc_bits (addbits bits nbits acc) = bits_of nbits bits @ acc_bits acc"
    by simp_all
qed

lemma chunks_emits:
  "\<forall>(m, a) \<in> set out. m \<le> 56 \<and> drop_bit m a = 0 \<Longrightarrow>
   writer.emits (\<lambda>w. (True, foldl (\<lambda>w (n, b). Write n b w) w out)) (concat (map (\<lambda>(m, a). bits_of m a) out))"
proof (induction out)
  case Nil
  then show ?case using writer.emits_return by simp
next
  case (Cons x out)
  obtain m a where x: "x = (m, a)" by (cases x) auto
  with Cons have "m \<le> 56" "drop_bit m a = 0"
    "writer.emits (\<lambda>w. (True, foldl (\<lambda>w (n, b). Write n b w) w out)) (concat (map (\<lambda>(m, a). bits_of m a) out))"
    by auto
  from writer.emits_wr_then [OF this] show ?case by (simp add: x)
qed

lemma WriteTokens_emits:
  assumes "\<not> enc_use_prefix_code codes"
    and "foldr (put_token codes off) tokens (0, push_bit 16 (of_nat ANS_SIGNATURE), 0, 0, []) = (k, st, acc)"
    and "acc_ok acc"
  shows "writer.emits (\<lambda>w. (True, snd (WriteTokens tokens codes off w))) (bits_of 32 (ucast st :: u64) @ acc_bits acc)"
proof -
  obtain allbits n out where acc: "acc = (allbits, n, out)" by (cases acc) auto
  have "drop_bit 32 (ucast st :: u64) = 0"
    using unsigned_less [of st, where 'a = nat] by (simp add: drop_bit_0_unat)
  moreover have "n \<le> 56" "drop_bit n allbits = 0" "\<forall>(m, a) \<in> set out. m \<le> 56 \<and> drop_bit m a = 0"
    using assms(3) by (auto simp: acc)
  ultimately have "writer.emits (\<lambda>w. (True, foldl (\<lambda>w (n, b). Write n b w)
      (Write n allbits (Write 32 (ucast st) w)) out)) (bits_of 32 (ucast st :: u64) @ acc_bits acc)"
    using writer.emits_wr_then [OF _ _ writer.emits_wr_then [OF _ _ chunks_emits], of 32 "ucast st" n allbits out]
    by (simp add: acc)
  then show ?thesis using assms(1,2) by (simp add: WriteTokens_def acc)
qed

section \<open>Reading the written tokens\<close>

text \<open>A caller that reads one integer for each context of a list.\<close>

fun read_values :: "nat list \<Rightarrow> nat list \<Rightarrow> ANSSymbolReader \<Rightarrow> BitReader \<Rightarrow> nat list \<times> ANSSymbolReader \<times> BitReader" where
  "read_values cmap [] r br = ([], r, br)"
| "read_values cmap (c # cs) r br =
     (case ReadHybridUint c r br cmap of (v, r, br) \<Rightarrow>
      case read_values cmap cs r br of (vs, r, br) \<Rightarrow> (v # vs, r, br))"

text \<open>What the two sides of a stream without LZ77 share; \<open>Ds\<close> are the distributions of the histograms.\<close>

definition tables_ok :: "int list list \<Rightarrow> nat \<Rightarrow> Entry list \<Rightarrow> EntropyEncodingData \<Rightarrow> bool" where
  "tables_ok Ds la tabs codes \<longleftrightarrow> (\<forall>h < length Ds. dist_ok la (Ds ! h) \<and>
     info_table_ok (Ds ! h) la (drop (h * 2 ^ la) tabs) (encoding_info codes ! h) \<and>
     config_ok (enc_uint_config codes ! h))"

definition reader_matches :: "nat \<Rightarrow> EntropyEncodingData \<Rightarrow> ANSSymbolReader \<Rightarrow> bool" where
  "reader_matches la codes r \<longleftrightarrow> ans_reader_ok la r \<and> num_to_copy r = 0 \<and> lz77_threshold r = 2 ^ 20 \<and>
     lz77_window r = None \<and> configs r = enc_uint_config codes"

definition encodable_token :: "int list list \<Rightarrow> EntropyEncodingData \<Rightarrow> nat \<Rightarrow> Token \<Rightarrow> bool" where
  "encodable_token Ds codes off t \<longleftrightarrow> \<not> is_lz77_length t \<and> tok_value t < 2 ^ 32 \<and>
     (let h = context_map codes ! (off + tok_context t);
          tok = fst (HybridUint_Encode (enc_uint_config codes ! h) (tok_value t))
      in h < length Ds \<and> tok < length (Ds ! h) \<and> 0 < Ds ! h ! tok \<and>
         (length (context_map codes) \<le> 1 \<longrightarrow> h = 0))"

lemma dist_ok_symbol:
  assumes "dist_ok la D" and "tok < length D" and "0 < D ! tok"
  shows "tok < 256"
proof -
  obtain n where n: "D = trim_zeros D @ replicate n 0" by (rule trim_zeros_append)
  have "tok < length (trim_zeros D)"
  proof (rule ccontr)
    assume ge: "\<not> tok < length (trim_zeros D)"
    have "(trim_zeros D @ replicate n 0) ! tok = 0"
      using ge assms(2) n by (subst nth_append) (metis (no_types, lifting) add_diff_inverse_nat
          length_append length_replicate nat_add_left_cancel_less nth_replicate)
    then show False using assms(3) n by simp
  qed
  also have "\<dots> \<le> 2 ^ la" using assms(1) by (simp add: dist_ok_def)
  also have "\<dots> \<le> 2 ^ 8" using assms(1) by (intro power_increasing) (simp_all add: dist_ok_def)
  finally show ?thesis by simp
qed

lemma put_token_plain:
  assumes t: "encodable_token Ds codes off t" and lz: "\<not> lz_enabled (enc_lz77 codes)"
  defines "h \<equiv> context_map codes ! (off + tok_context t)"
  shows "put_token codes off t (k, st, acc) =
    (case HybridUint_Encode (enc_uint_config codes ! h) (tok_value t) of (tok, nbits, bits) \<Rightarrow>
     case PutSymbol (encoding_info codes ! h ! tok) st of (ab, an, st') \<Rightarrow>
       (k + nbits, st', addbits (ucast ab) an (addbits (of_nat bits) nbits acc)))"
proof (cases "length (context_map codes) > 1")
  case True
  then show ?thesis using t
    by (simp add: put_token_def token_code_def encodable_token_def h_def split: prod.splits)
next
  case False
  then have "h = 0" using t by (auto simp: encodable_token_def h_def Let_def)
  then show ?thesis using False lz by (simp add: put_token_def split: prod.splits)
qed

lemma bits_of_ucast_u32: "n \<le> 32 \<Longrightarrow> bits_of n (ucast (v :: u32) :: u64) = bits_of n v"
  by (rule nth_equalityI) (auto simp: bit_ucast_iff)

text \<open>One token: what is put in front of the accumulator is what one read takes off the stream.\<close>

lemma read_token:
  assumes tabs: "tables_ok Ds la (alias_tables r) codes" and r: "reader_matches la codes r"
    and t: "encodable_token Ds codes off t" and lz: "\<not> lz_enabled (enc_lz77 codes)"
    and st: "2 ^ 16 \<le> unat st" and acc: "acc_ok acc"
    and put: "put_token codes off t (k, st, acc) = (k', ans_state r, acc')"
  obtains bs where "2 ^ 16 \<le> unat (ans_state r)" "acc_ok acc'" "acc_bits acc' = bs @ acc_bits acc"
    "\<And>br. br_ok br \<Longrightarrow> begins (upcoming br) bs \<Longrightarrow>
       \<exists>br'. ReadHybridUint (off + tok_context t) r br (context_map codes) =
         (tok_value t, r\<lparr> ans_state := st \<rparr>, br') \<and> reader.advanced br br' (length bs)"
proof -
  define h where "h = context_map codes ! (off + tok_context t)"
  let ?c = "enc_uint_config codes ! h"
  obtain tok nbits bits where enc: "HybridUint_Encode ?c (tok_value t) = (tok, nbits, bits)"
    by (metis prod_cases3)
  obtain ab an st' where ps: "PutSymbol (encoding_info codes ! h ! tok) st = (ab, an, st')"
    by (metis prod_cases3)
  have T: "tok_value t < 2 ^ 32" "h < length Ds" "tok < length (Ds ! h)" "0 < Ds ! h ! tok"
    using t enc by (auto simp: encodable_token_def Let_def h_def)
  have ok: "dist_ok la (Ds ! h)" "info_table_ok (Ds ! h) la (drop (h * 2 ^ la) (alias_tables r)) (encoding_info codes ! h)"
    "config_ok ?c" using tabs T(2) by (auto simp: tables_ok_def)
  have P: "st' = ans_state r" "acc' = addbits (ucast ab) an (addbits (of_nat bits) nbits acc)"
    using put unfolding put_token_plain [OF t lz] h_def [symmetric] by (simp_all add: enc ps)
  have io: "info_ok (nat (Ds ! h ! tok)) (encoding_info codes ! h ! tok)"
    using ok(2) T by (simp add: info_table_ok_def)
  note S = PutSymbol_state [OF io st ps]
  have H: "nbits \<le> 31 \<and> bits < 2 ^ nbits \<and> ReadHybridUintConfig ?c tok br = (tok_value t, Consume nbits br)"
    if "br_ok br" "nbits \<le> bits_in_buf br" "begins (upcoming br) (bits_of nbits (of_nat bits :: u64))" for br
    using HybridUint_roundtrip [OF ok(3) T(1) enc that] by blast
  have nb: "nbits \<le> 31" "bits < 2 ^ nbits"
    using HybridUint_Encode_bounds [OF ok(3) T(1) enc] by simp_all
  have "(2::nat) ^ nbits \<le> 2 ^ 31" using nb by (intro power_increasing) simp_all
  then have "bits < 2 ^ 64" using nb(2) by simp
  then have d1: "drop_bit nbits (of_nat bits :: u64) = 0" using nb(2) by (simp add: drop_bit_0_unat unat_of_nat_id)
  have d2: "drop_bit an (ucast ab :: u64) = 0" using S(5) by (simp add: drop_bit_0_unat)
  note A1 = addbits_ok [OF acc _ d1] and A2 = addbits_ok [OF _ _ d2]
  let ?bs = "bits_of an ab @ bits_of nbits (of_nat bits :: u64)"
  have acc': "acc_ok acc'" "acc_bits acc' = ?bs @ acc_bits acc"
    unfolding P using A1 A2 nb S(4) bits_of_ucast_u32 [of an ab] by simp_all
  have rd: "\<exists>br'. ReadHybridUint (off + tok_context t) r br (context_map codes) =
      (tok_value t, r\<lparr> ans_state := st \<rparr>, br') \<and> reader.advanced br br' (length ?bs)"
    if br: "br_ok br" "begins (upcoming br) ?bs" for br
  proof -
    let ?b0 = "Refill br" let ?b1 = "Consume an ?b0" let ?b2 = "Consume nbits ?b1"
    note R = Refill_ok [OF br(1)]
    have up: "upcoming ?b0 = upcoming br" using R by (simp add: upcoming_def fun_eq_iff)
    have bg: "begins (upcoming ?b0) (bits_of an ab)" "begins (\<lambda>i. upcoming ?b0 (an + i)) (bits_of nbits (of_nat bits :: u64))"
      using br(2) unfolding up begins_append by simp_all
    have bb: "16 \<le> bits_in_buf ?b0" "an \<le> bits_in_buf ?b0" "nbits \<le> bits_in_buf ?b1"
      using R(2) S(4) nb by (simp_all add: Consume_def)
    note C1 = Consume_ok [OF R(1) bb(2)]
    note C2 = Consume_ok [OF C1(1) bb(3)]
    have r': "ans_reader_ok la r" using r by (simp add: reader_matches_def)
    have sym: "ReadSymbolANSWithoutRefill h r ?b0 = (tok, r\<lparr> ans_state := st \<rparr>, ?b1)"
      by (rule ReadSymbolANS_inverse [OF ok(2) r' T(3,4) st ps [unfolded P(1)] R(1) bb(1) bg(1)])
    have "begins (upcoming ?b1) (bits_of nbits (of_nat bits :: u64))"
      using bg(2) C1(3) by (simp add: begins_def)
    with H [OF C1(1) bb(3)] have cfg: "ReadHybridUintConfig ?c tok ?b1 = (tok_value t, ?b2)" by simp
    have "tok < 2 ^ 20" using dist_ok_symbol [OF ok(1) T(3,4)] by simp
    then have "ReadHybridUint (off + tok_context t) r br (context_map codes) = (tok_value t, r\<lparr> ans_state := st \<rparr>, ?b2)"
      using r sym cfg
      by (simp add: ReadHybridUint_def ReadHybridUintClustered_def ReadSymbolWithoutRefill_def
          reader_matches_def ans_reader_ok_def h_def [symmetric] Let_def)
    moreover have "reader.advanced br ?b2 (length ?bs)"
      unfolding reader.advanced_def using C1 C2 R up by (simp add: add.assoc)
    ultimately show ?thesis by blast
  qed
  show ?thesis using that [of ?bs] S(1) P(1) acc' rd by blast
qed

text \<open>The whole sequence, by induction: reading undoes writing token by token.\<close>

lemma tokens_read:
  assumes tabs: "tables_ok Ds la (alias_tables r) codes" and r: "reader_matches la codes r"
    and lz: "\<not> lz_enabled (enc_lz77 codes)"
  shows "\<forall>t \<in> set tokens. encodable_token Ds codes off t \<Longrightarrow>
    foldr (put_token codes off) tokens (0, push_bit 16 (of_nat ANS_SIGNATURE), 0, 0, []) = (k, st, acc) \<Longrightarrow>
    2 ^ 16 \<le> unat st \<and> acc_ok acc \<and>
    reader.parses (\<lambda>br. case read_values (context_map codes) (map (\<lambda>t. off + tok_context t) tokens)
        (r\<lparr> ans_state := st \<rparr>) br of (vs, r, br) \<Rightarrow> ((vs, r), br))
      (acc_bits acc) (map tok_value tokens, r\<lparr> ans_state := push_bit 16 (of_nat ANS_SIGNATURE) \<rparr>)"
proof (induction tokens arbitrary: k st acc)
  case Nil
  then have e: "st = push_bit 16 (of_nat ANS_SIGNATURE)" "acc = (0, 0, [])" by auto
  have "unat (push_bit 16 (of_nat ANS_SIGNATURE) :: u32) = 0x130000" by (simp add: ANS_SIGNATURE_def)
  then show ?case using e by (simp add: reader.parses_def reader.advanced_0)
next
  case (Cons t ts)
  obtain k1 st1 acc1 where f: "foldr (put_token codes off) ts (0, push_bit 16 (of_nat ANS_SIGNATURE), 0, 0, []) = (k1, st1, acc1)"
    by (metis prod_cases3)
  with Cons have IH: "2 ^ 16 \<le> unat st1" "acc_ok acc1"
    "reader.parses (\<lambda>br. case read_values (context_map codes) (map (\<lambda>t. off + tok_context t) ts)
        (r\<lparr> ans_state := st1 \<rparr>) br of (vs, r, br) \<Rightarrow> ((vs, r), br))
      (acc_bits acc1) (map tok_value ts, r\<lparr> ans_state := push_bit 16 (of_nat ANS_SIGNATURE) \<rparr>)"
    by auto
  let ?r = "r\<lparr> ans_state := st \<rparr>"
  have t: "encodable_token Ds codes off t" using Cons.prems(1) by simp
  have put: "put_token codes off t (k1, st1, acc1) = (k, ans_state ?r, acc)" using Cons.prems(2) f by simp
  have tabs': "tables_ok Ds la (alias_tables ?r) codes" and r': "reader_matches la codes ?r"
    using tabs r by (simp_all add: reader_matches_def ans_reader_ok_def)
  obtain bs where B: "2 ^ 16 \<le> unat (ans_state ?r)" "acc_ok acc" "acc_bits acc = bs @ acc_bits acc1"
    and rd: "\<And>br. br_ok br \<Longrightarrow> begins (upcoming br) bs \<Longrightarrow>
       \<exists>br'. ReadHybridUint (off + tok_context t) ?r br (context_map codes) =
         (tok_value t, ?r\<lparr> ans_state := st1 \<rparr>, br') \<and> reader.advanced br br' (length bs)"
    by (rule read_token [OF tabs' r' t lz IH(1,2) put]) blast
  define q where "q = (\<lambda>vr br. case vr of (v, r) \<Rightarrow>
    (case read_values (context_map codes) (map (\<lambda>t. off + tok_context t) ts) r br of (vs, r, br) \<Rightarrow> ((v # vs, r), br)))"
  define q2 where "q2 = (\<lambda>vsr (br :: BitReader). case vsr of (vs, r :: ANSSymbolReader) \<Rightarrow> ((tok_value t # vs, r), br))"
  have "reader.parses (\<lambda>br. case ReadHybridUint (off + tok_context t) ?r br (context_map codes) of (v, r, br) \<Rightarrow> ((v, r), br))
      bs (tok_value t, r\<lparr> ans_state := st1 \<rparr>)"
    unfolding reader.parses_def using rd by fastforce
  moreover have "reader.parses (q2 (map tok_value ts, r\<lparr> ans_state := push_bit 16 (of_nat ANS_SIGNATURE) \<rparr>)) []
      (map tok_value (t # ts), r\<lparr> ans_state := push_bit 16 (of_nat ANS_SIGNATURE) \<rparr>)"
    using reader.parses_return by (simp add: q2_def)
  from reader.parses_bind [where q = q2, OF IH(3) this]
  have "reader.parses (q (tok_value t, r\<lparr> ans_state := st1 \<rparr>)) (acc_bits acc1)
      (map tok_value (t # ts), r\<lparr> ans_state := push_bit 16 (of_nat ANS_SIGNATURE) \<rparr>)"
    by (simp add: q_def q2_def prod.case_distrib case_prod_unfold cong: prod.case_cong)
  ultimately have "reader.parses (\<lambda>br. case (case ReadHybridUint (off + tok_context t) ?r br (context_map codes) of
        (v, r, br) \<Rightarrow> ((v, r), br)) of (x, t) \<Rightarrow> q x t) (bs @ acc_bits acc1)
      (map tok_value (t # ts), r\<lparr> ans_state := push_bit 16 (of_nat ANS_SIGNATURE) \<rparr>)"
    by (rule reader.parses_bind)
  then have "reader.parses (\<lambda>br. case read_values (context_map codes) (map (\<lambda>t. off + tok_context t) (t # ts)) ?r br
        of (vs, r, br) \<Rightarrow> ((vs, r), br)) (bs @ acc_bits acc1)
      (map tok_value (t # ts), r\<lparr> ans_state := push_bit 16 (of_nat ANS_SIGNATURE) \<rparr>)"
    by (simp add: q_def case_prod_unfold)
  then show ?case using B by simp
qed

text \<open>A whole stream: open a reader, read the values, check the final state.\<close>

definition decode_stream ::
  "ANSCode \<Rightarrow> (nat \<Rightarrow> u32) \<Rightarrow> nat \<Rightarrow> nat list \<Rightarrow> nat list \<Rightarrow> BitReader \<Rightarrow> (nat list \<times> bool) \<times> BitReader" where
  "decode_stream code mem dm cmap ctxs br =
     (case ANSSymbolReader_new code mem dm br of (r, br) \<Rightarrow>
      case read_values cmap ctxs r br of (vs, r, br) \<Rightarrow> ((vs, CheckANSFinalState r), br))"

text \<open>The histograms of the two sides come from one list of distributions, each side having built its
  tables over its own memory; \<open>InitAliasTable\<close> writes a table at the front of the memory it is given.\<close>

definition built_from :: "int list list \<Rightarrow> nat \<Rightarrow> EntropyEncodingData \<Rightarrow> ANSCode \<Rightarrow> bool" where
  "built_from Ds la codes code \<longleftrightarrow>
     \<not> enc_use_prefix_code codes \<and> \<not> lz_enabled (enc_lz77 codes) \<and>
     \<not> code_use_prefix_code code \<and> \<not> lz_enabled (lz77 code) \<and> code_log_alpha_size code = la \<and>
     uint_config code = enc_uint_config codes \<and>
     (\<forall>h < length Ds. dist_ok la (Ds ! h) \<and> config_ok (enc_uint_config codes ! h) \<and>
        (\<exists>a te infos. 2 ^ la \<le> length a \<and> length (Ds ! h) \<le> length infos \<and>
           InitAliasTable (Ds ! h) ANS_LOG_TAB_SIZE la a = Inr te \<and>
           encoding_info codes ! h = ANSBuildInfoTable (Ds ! h) (length (Ds ! h)) te la infos) \<and>
        (\<exists>b. 2 ^ la \<le> length b \<and>
           InitAliasTable (Ds ! h) ANS_LOG_TAB_SIZE la b = Inr (drop (h * 2 ^ la) (code_alias_tables code))))"

text \<open>The bits that \<open>WriteTokens\<close> emits are what \<open>decode_stream\<close> parses.\<close>

lemma WriteTokens_stream:
  assumes built: "built_from Ds la codes code" and Ds: "Ds \<noteq> []"
    and tokens: "\<forall>t \<in> set tokens. encodable_token Ds codes off t"
  shows "\<exists>bs. writer.emits (\<lambda>w. (True, snd (WriteTokens tokens codes off w))) bs \<and>
    reader.parses (decode_stream code mem dm (context_map codes) (map (\<lambda>t. off + tok_context t) tokens)) bs
      (map tok_value tokens, True)"
proof -
  note b = built [unfolded built_from_def]
  obtain k st acc where f: "foldr (put_token codes off) tokens (0, push_bit 16 (of_nat ANS_SIGNATURE), 0, 0, []) = (k, st, acc)"
    by (metis prod_cases3)
  have lz: "\<not> lz_enabled (enc_lz77 codes)" and np: "\<not> enc_use_prefix_code codes" using b by blast+
  have tabs: "tables_ok Ds la (code_alias_tables code) codes"
    unfolding tables_ok_def
  proof (intro allI impI)
    fix h assume "h < length Ds"
    with b obtain a te infos bm where "dist_ok la (Ds ! h)" "config_ok (enc_uint_config codes ! h)"
      "2 ^ la \<le> length a" "length (Ds ! h) \<le> length infos"
      "InitAliasTable (Ds ! h) ANS_LOG_TAB_SIZE la a = Inr te"
      "encoding_info codes ! h = ANSBuildInfoTable (Ds ! h) (length (Ds ! h)) te la infos"
      "2 ^ la \<le> length bm" "InitAliasTable (Ds ! h) ANS_LOG_TAB_SIZE la bm = Inr (drop (h * 2 ^ la) (code_alias_tables code))"
      by blast
    then show "dist_ok la (Ds ! h) \<and>
      info_table_ok (Ds ! h) la (drop (h * 2 ^ la) (code_alias_tables code)) (encoding_info codes ! h) \<and>
      config_ok (enc_uint_config codes ! h)" using built_tables_ok by metis
  qed
  define r where "r = fst (ANSSymbolReader_new code mem dm (BitReader_new []))"
  have la: "la \<le> 12" using b Ds by (auto simp: dist_ok_def)
  define q where "q = (\<lambda>(v :: u64) br. case read_values (context_map codes) (map (\<lambda>t. off + tok_context t) tokens)
      (r\<lparr> ans_state := ucast v \<rparr>) br of (vs, r, br) \<Rightarrow> ((vs, CheckANSFinalState r), br))"
  define q2 where "q2 = (\<lambda>vsr (br :: BitReader). case vsr of (vs :: nat list, r) \<Rightarrow> ((vs, CheckANSFinalState r), br))"
  have r: "reader_matches la codes r" "alias_tables r = code_alias_tables code"
    using b la
    by (auto simp: r_def ANSSymbolReader_new_def reader_matches_def ans_reader_ok_def Let_def ANS_LOG_TAB_SIZE_def
        split: prod.splits)
  have new: "ANSSymbolReader_new code mem dm br = (case ReadBits 32 br of (x, t) \<Rightarrow> (r\<lparr> ans_state := ucast x \<rparr>, t))" for br
    using b by (auto simp: r_def ANSSymbolReader_new_def Let_def split: prod.splits)
  have "tables_ok Ds la (alias_tables r) codes" using tabs r by simp
  note T = tokens_read [OF this r(1) lz tokens f]
  have "reader.parses (q2 (map tok_value tokens, r\<lparr> ans_state := push_bit 16 (of_nat ANS_SIGNATURE) \<rparr>)) []
      (map tok_value tokens, True)"
    using reader.parses_return by (simp add: q2_def CheckANSFinalState_def)
  from reader.parses_bind [where q = q2, OF conjunct2 [OF conjunct2 [OF T]] this]
  have "reader.parses (q (ucast st)) (acc_bits acc) (map tok_value tokens, True)"
    by (simp add: q_def q2_def case_prod_unfold)
  moreover have "drop_bit 32 (ucast st :: u64) = 0"
    using unsigned_less [of st, where 'a = nat] by (simp add: drop_bit_0_unat)
  ultimately have "reader.parses (\<lambda>s. case ReadBits 32 s of (x, t) \<Rightarrow> q x t)
      (bits_of 32 (ucast st :: u64) @ acc_bits acc) (map tok_value tokens, True)"
    by (intro reader.parses_rd_then) simp_all
  moreover have "decode_stream code mem dm (context_map codes) (map (\<lambda>t. off + tok_context t) tokens) =
      (\<lambda>s. case ReadBits 32 s of (x, t) \<Rightarrow> q x t)"
    by (simp add: decode_stream_def new q_def fun_eq_iff case_prod_unfold)
  moreover have "writer.emits (\<lambda>w. (True, snd (WriteTokens tokens codes off w))) (bits_of 32 (ucast st :: u64) @ acc_bits acc)"
    using WriteTokens_emits [OF np f] T by blast
  ultimately show ?thesis by auto
qed

text \<open>C1: Entropy coded integers survive the stream: for any list of tokens (values below \<open>2 ^ 32\<close>, each
  with a context whose histogram gives its symbol a positive count) coded with ANS and without LZ77,
  \<open>WriteTokens\<close> emits a bit string from which a reader opened on it returns exactly the values in order,
  consumes exactly the emitted bits and ends in the state \<open>CheckANSFinalState\<close> demands.\<close>

theorem WriteTokens_roundtrip:
  assumes built: "built_from Ds la codes code" and Ds: "Ds \<noteq> []"
    and tokens: "\<forall>t \<in> set tokens. encodable_token Ds codes off t"
  shows "\<exists>bs. writer.emits (\<lambda>w. (True, snd (WriteTokens tokens codes off w))) bs \<and>
    reader.parses (decode_stream code mem dm (context_map codes) (map (\<lambda>t. off + tok_context t) tokens)) bs
      (map tok_value tokens, True)"
  by (rule WriteTokens_stream [OF assms])

text \<open>Codes with one histogram exist for every distribution.\<close>

lemma single_histogram_codes:
  assumes "dist_ok la D" "config_ok cfg"
  obtains codes code where "built_from [D] la codes code" "context_map codes = cmap" "enc_uint_config codes = [cfg]"
proof -
  let ?a = "replicate (2 ^ la) (single_entry 7 3 1)"
  obtain tab where tab: "InitAliasTable D ANS_LOG_TAB_SIZE la ?a = Inr tab"
    using InitAliasTable_ok [of D la ?a] assms(1) by (auto simp: dist_ok_def)
  define infos where "infos = replicate (length D) blank_info"
  let ?lz = "\<lparr> lz_enabled = False, min_symbol = 224, min_length = 3, length_uint_config = cfg,
    nonserialized_distance_context = 0 \<rparr>"
  let ?codes = "\<lparr> encoding_info = [ANSBuildInfoTable D (length D) tab la infos],
    enc_use_prefix_code = False, enc_uint_config = [cfg], enc_lz77 = ?lz, context_map = cmap \<rparr>"
  let ?code = "\<lparr> code_alias_tables = tab, code_huffman_data = [], uint_config = [cfg], degenerate_symbols = [],
    code_use_prefix_code = False, code_log_alpha_size = la, lz77 = ?lz, max_num_bits = 0 \<rparr>"
  have "built_from [D] la ?codes ?code"
    unfolding built_from_def
  proof (intro conjI allI impI)
    fix h assume "h < length [D]"
    then have h: "h = 0" by simp
    show "dist_ok la ([D] ! h)" using assms(1) h by simp
    show "config_ok (enc_uint_config ?codes ! h)" using assms(2) h by simp
    show "\<exists>a te infos. 2 ^ la \<le> length a \<and> length ([D] ! h) \<le> length infos \<and>
       InitAliasTable ([D] ! h) ANS_LOG_TAB_SIZE la a = Inr te \<and>
       encoding_info ?codes ! h = ANSBuildInfoTable ([D] ! h) (length ([D] ! h)) te la infos"
      by (rule exI [of _ ?a], rule exI [of _ tab], rule exI [of _ infos]) (use tab h in \<open>simp add: infos_def\<close>)
    show "\<exists>b. 2 ^ la \<le> length b \<and>
       InitAliasTable ([D] ! h) ANS_LOG_TAB_SIZE la b = Inr (drop (h * 2 ^ la) (code_alias_tables ?code))"
      by (rule exI [of _ ?a]) (use tab h in simp)
  qed simp_all
  then show ?thesis using that [of ?codes ?code] by simp
qed

theorem WriteTokens_roundtrip_witness:
  "\<exists>codes code bs. writer.emits (\<lambda>w. (True, snd (WriteTokens
       (map (\<lambda>v. \<lparr> is_lz77_length = False, tok_context = 0, tok_value = v \<rparr>) [2, 0, 2]) codes 0 w))) bs \<and>
     reader.parses (decode_stream code (\<lambda>_. 0) 0 [0] [0, 0, 0]) bs ([2, 0, 2], True)"
proof -
  let ?D = "[3000, 0, 1096] :: int list" and ?cfg = "HybridUintConfig_new 4 2 0"
  have "dist_ok 5 ?D" "config_ok ?cfg" by (simp_all add: dist_ok_def trim_zeros_def config_ok_def HybridUintConfig_new_def)
  then obtain codes code where built: "built_from [?D] 5 codes code" and c: "context_map codes = [0]" "enc_uint_config codes = [?cfg]"
    by (rule single_histogram_codes)
  let ?ts = "map (\<lambda>v. \<lparr> is_lz77_length = False, tok_context = 0, tok_value = v \<rparr>) [2, 0, 2]"
  have "\<forall>t \<in> set ?ts. encodable_token [?D] codes 0 t"
    by (simp add: encodable_token_def HybridUint_Encode_def HybridUintConfig_new_def c)
  from WriteTokens_roundtrip [OF built _ this, of "\<lambda>_. 0" 0] obtain bs where
    "writer.emits (\<lambda>w. (True, snd (WriteTokens ?ts codes 0 w))) bs"
    "reader.parses (decode_stream code (\<lambda>_. 0) 0 (context_map codes) (map (\<lambda>t. 0 + tok_context t) ?ts)) bs
      (map tok_value ?ts, True)" by auto
  then show ?thesis unfolding c by (intro exI [of _ codes] exI [of _ code] exI [of _ bs]) simp
qed

section \<open>The LZ77 window\<close>

text \<open>Copying \<open>n\<close> values from distance \<open>d\<close> in the list of all values decoded so far; the copy may
  overlap its own output.\<close>

fun lz_copy :: "nat \<Rightarrow> nat \<Rightarrow> u32 list \<Rightarrow> u32 list" where
  "lz_copy d 0 hist = hist"
| "lz_copy d (Suc n) hist = lz_copy d n (hist @ [hist ! (length hist - d)])"

lemma length_lz_copy [simp]: "length (lz_copy d n hist) = length hist + n"
  by (induction n arbitrary: hist) simp_all

lemma lz_copy_prefix: "take (length hist) (lz_copy d n hist) = hist"
proof (induction n arbitrary: hist)
  case (Suc n)
  have "take (length hist) (lz_copy d (Suc n) hist) =
      take (length hist) (take (length hist + 1) (lz_copy d n (hist @ [hist ! (length hist - d)])))"
    by (simp add: min_def)
  also have "\<dots> = hist" using Suc.IH [of "hist @ [hist ! (length hist - d)]"] by simp
  finally show ?case .
qed simp

lemma lz_copy_nth: "0 < d \<Longrightarrow> d \<le> length hist \<Longrightarrow> length hist \<le> i \<Longrightarrow> i < length hist + n \<Longrightarrow>
  lz_copy d n hist ! i = lz_copy d n hist ! (i - d)"
proof (induction n arbitrary: hist)
  case (Suc n)
  let ?h = "hist @ [hist ! (length hist - d)]"
  show ?case
  proof (cases "i = length hist")
    case True
    have p: "lz_copy d n ?h ! j = ?h ! j" if "j < length ?h" for j
      using that lz_copy_prefix [of ?h d n] by (metis nth_take)
    show ?thesis using p [of i] p [of "i - d"] True Suc.prems by (simp add: nth_append)
  next
    case False
    then show ?thesis using Suc.IH [of ?h] Suc.prems by simp
  qed
qed simp

text \<open>The window holds the last \<open>2 ^ 20\<close> values of the history.\<close>

definition window_holds :: "ANSSymbolReader \<Rightarrow> u32 list \<Rightarrow> bool" where
  "window_holds r hist \<longleftrightarrow> num_decoded r = of_nat (length hist) \<and>
     (\<exists>w. lz77_window r = Some w \<and>
        (\<forall>i < length hist. length hist \<le> i + kWindowSize \<longrightarrow> w (i mod kWindowSize) = hist ! i))"

lemma window_index_of_nat: "window_index (of_nat n) = n mod kWindowSize"
proof -
  have "window_index (of_nat n) = unat (take_bit 20 (of_nat n :: u32))"
    by (simp add: window_index_def kWindowSize_def take_bit_eq_mask mask_eq_exp_minus_1)
  also have "\<dots> = take_bit 20 (take_bit 32 n)" by (simp only: unsigned_take_bit_eq unsigned_of_nat) simp
  also have "\<dots> = n mod kWindowSize" by (simp add: kWindowSize_def take_bit_eq_mod mod_mod_cancel)
  finally show ?thesis .
qed

lemma window_push_holds:
  assumes "window_holds r hist"
  shows "window_holds (window_push v r) (hist @ [v])"
proof -
  obtain w where n: "num_decoded r = of_nat (length hist)" and w: "lz77_window r = Some w"
    "\<And>i. i < length hist \<Longrightarrow> length hist \<le> i + kWindowSize \<Longrightarrow> w (i mod kWindowSize) = hist ! i"
    using assms by (auto simp: window_holds_def)
  have ne: "i mod kWindowSize \<noteq> length hist mod kWindowSize"
    if "i < length hist" "Suc (length hist) \<le> i + kWindowSize" for i
  proof
    assume "i mod kWindowSize = length hist mod kWindowSize"
    then have "kWindowSize dvd length hist - i" using that(1) by (metis less_imp_le_nat mod_eq_dvd_iff_nat)
    then have "kWindowSize \<le> length hist - i" using that(1) by (intro dvd_imp_le) simp_all
    then show False using that by linarith
  qed
  show ?thesis
    using n w ne by (auto simp: window_holds_def window_push_def window_index_of_nat nth_append less_Suc_eq)
qed

lemma window_copy_holds:
  assumes h: "window_holds r hist" and d: "0 < d" "d \<le> length hist" "d \<le> kWindowSize"
    and c: "copy_pos r = of_nat (length hist - d)"
  shows "fst (window_copy r) = unat (hist ! (length hist - d))"
    and "window_holds (snd (window_copy r)) (hist @ [hist ! (length hist - d)])"
    and "copy_pos (snd (window_copy r)) = of_nat (Suc (length hist) - d)"
    and "num_to_copy (snd (window_copy r)) = num_to_copy r - 1"
proof -
  obtain w where w: "lz77_window r = Some w"
    "\<And>i. i < length hist \<Longrightarrow> length hist \<le> i + kWindowSize \<Longrightarrow> w (i mod kWindowSize) = hist ! i"
    using h by (auto simp: window_holds_def)
  have v: "the (lz77_window r) (window_index (copy_pos r)) = hist ! (length hist - d)"
    unfolding c window_index_of_nat w(1) using w(2) [of "length hist - d"] d by simp
  have "window_holds (r\<lparr> copy_pos := copy_pos r + 1, num_to_copy := num_to_copy r - 1 \<rparr>) hist"
    using h by (simp add: window_holds_def)
  from window_push_holds [OF this]
  show "window_holds (snd (window_copy r)) (hist @ [hist ! (length hist - d)])"
    by (simp add: window_copy_def v Let_def)
  show "fst (window_copy r) = unat (hist ! (length hist - d))" by (simp add: window_copy_def v Let_def)
  show "copy_pos (snd (window_copy r)) = of_nat (Suc (length hist) - d)"
    using d by (simp add: window_copy_def window_push_def Let_def c Suc_diff_le)
  show "num_to_copy (snd (window_copy r)) = num_to_copy r - 1"
    by (simp add: window_copy_def window_push_def Let_def)
qed

text \<open>\<open>n\<close> calls of the reader on one context.\<close>

fun read_n :: "nat \<Rightarrow> nat \<Rightarrow> ANSSymbolReader \<Rightarrow> BitReader \<Rightarrow> nat list \<times> ANSSymbolReader \<times> BitReader" where
  "read_n 0 ctx r br = ([], r, br)"
| "read_n (Suc n) ctx r br =
     (case ReadHybridUintClustered True ctx r br of (v, r, br) \<Rightarrow>
      case read_n n ctx r br of (vs, r, br) \<Rightarrow> (v # vs, r, br))"

text \<open>C11: A pending LZ77 copy is the textbook one: with the window holding the last \<open>2 ^ 20\<close> of all
  decoded values, a copy position \<open>d\<close> values back (at most the window size and the history) and \<open>n\<close> values
  to copy, the next \<open>n\<close> reads consume no input and return the values at distance \<open>d\<close>, also where the
  copy overlaps its own output; the window again holds the extended history and no copy is pending.\<close>

theorem LZ77_copy_refines:
  assumes "window_holds r hist" and "0 < d" and "d \<le> length hist" and "d \<le> kWindowSize"
    and "copy_pos r = of_nat (length hist - d)" and "num_to_copy r = of_nat n" and "n < 2 ^ 32"
  shows "\<exists>r'. read_n n ctx r br = (map unat (drop (length hist) (lz_copy d n hist)), r', br) \<and>
    window_holds r' (lz_copy d n hist) \<and> num_to_copy r' = 0 \<and>
    (\<forall>i. length hist \<le> i \<longrightarrow> i < length hist + n \<longrightarrow> lz_copy d n hist ! i = lz_copy d n hist ! (i - d))"
proof -
  have "\<exists>r'. read_n n ctx r br = (map unat (drop (length hist) (lz_copy d n hist)), r', br) \<and>
    window_holds r' (lz_copy d n hist) \<and> num_to_copy r' = 0"
    using assms
  proof (induction n arbitrary: r hist)
    case (Suc n)
    note W = window_copy_holds [OF Suc.prems(1-5)]
    have "unat (num_to_copy r) = Suc n"
      unfolding Suc.prems(6) using Suc.prems(7) by (intro unat_of_nat_id) simp
    then have "num_to_copy r > 0" by (simp add: word_greater_zero_iff unat_eq_zero [symmetric])
    then have rd: "ReadHybridUintClustered True ctx r br = (fst (window_copy r), snd (window_copy r), br)"
      by (simp add: ReadHybridUintClustered_def case_prod_unfold)
    let ?h = "hist @ [hist ! (length hist - d)]"
    have "num_to_copy (snd (window_copy r)) = of_nat n" by (simp add: W(4) Suc.prems(6))
    with Suc.IH [OF W(2)] Suc.prems W(3) obtain r' where
      r': "read_n n ctx (snd (window_copy r)) br = (map unat (drop (length ?h) (lz_copy d n ?h)), r', br)"
      "window_holds r' (lz_copy d n ?h)" "num_to_copy r' = 0" by auto
    define ys where "ys = drop (length ?h) (lz_copy d n ?h)"
    have "lz_copy d n ?h = take (length ?h) (lz_copy d n ?h) @ ys" unfolding ys_def by simp
    then have "lz_copy d n ?h = ?h @ ys" by (simp only: lz_copy_prefix)
    then have "drop (length hist) (lz_copy d n ?h) = hist ! (length hist - d) # ys" by simp
    then show ?case using rd r' W(1) by (simp add: ys_def)
  qed simp
  then show ?thesis using lz_copy_nth [OF assms(2,3)] by blast
qed

theorem LZ77_copy_refines_witness:
  "\<exists>r'. read_n 5 0 ((plain_reader [] 5 0 [])\<lparr> lz77_window := Some (\<lambda>i. of_nat i + 7), num_decoded := 2,
      num_to_copy := 5, copy_pos := 0 \<rparr>) (BitReader_new []) = ([7, 8, 7, 8, 7], r', BitReader_new [])"
proof -
  let ?r = "(plain_reader [] 5 0 [])\<lparr> lz77_window := Some (\<lambda>i. of_nat i + 7), num_decoded := 2,
      num_to_copy := 5, copy_pos := 0 \<rparr>"
  have "window_holds ?r [7, 8]"
    by (auto simp: window_holds_def kWindowSize_def less_Suc_eq numeral_2_eq_2)
  moreover have "lz_copy 2 5 [7, 8] = [7, 8, 7, 8, 7, 8, 7]" by (simp add: numeral_eq_Suc)
  ultimately show ?thesis using LZ77_copy_refines [of ?r "[7, 8]" 2 5 0 "BitReader_new []"]
    by (auto simp: kWindowSize_def)
qed

section \<open>Skipping runs of a single value\<close>

lemma Consume_0: "Consume 0 br = br"
  by (simp add: Consume_def)

text \<open>A symbol of full weight keeps the state, unless it is below \<open>2 ^ 16\<close>; then 16 bits are shifted in.\<close>

lemma full_symbol_step:
  assumes ok: "alias_ok D la (drop (h * 2 ^ la) (alias_tables r))" and r: "ans_reader_ok la r"
  defines "s \<equiv> lookup_at (drop (h * 2 ^ la) (alias_tables r)) la (unat (ans_state r) mod 4096)"
  assumes full: "sym_freq s = 4096"
  shows "ReadSymbolANSWithoutRefill h r br =
    (if 2 ^ 16 \<le> unat (ans_state r) then (sym_value s, r, br)
     else (sym_value s, r\<lparr> ans_state := push_bit 16 (ans_state r) OR ucast (PeekBits 16 br) \<rparr>, Consume 16 br))"
proof -
  let ?st = "ans_state r"
  have "unat (?st AND (of_nat ANS_TAB_SIZE - 1)) = unat (take_bit 12 ?st)"
    by (simp add: ANS_TAB_SIZE_def ANS_LOG_TAB_SIZE_def take_bit_eq_mask mask_eq_exp_minus_1)
  also have "\<dots> = unat ?st mod 2 ^ 12" by (simp only: unsigned_take_bit_eq) (simp only: take_bit_eq_mod)
  finally have res: "unat (?st AND (of_nat ANS_TAB_SIZE - 1)) = unat ?st mod 4096" by simp
  have sym: "Lookup (drop (h * 2 ^ log_alpha_size r) (alias_tables r)) (unat ?st mod 4096)
      (log_entry_size r) (entry_size_minus_1 r) = s"
    using r by (simp add: ans_reader_ok_def s_def lookup_at_def ANS_LOG_TAB_SIZE_def)
  have lt: "unat ?st mod 4096 < ANS_TAB_SIZE" by (simp add: ANS_TAB_SIZE_def ANS_LOG_TAB_SIZE_def)
  have "int (sym_freq s) = D ! sym_value s" using ok lt unfolding alias_ok_def s_def by blast
  then have "D ! sym_value s = int ANS_TAB_SIZE" using full by (simp add: ANS_TAB_SIZE_def ANS_LOG_TAB_SIZE_def)
  then have off: "sym_offset s = unat ?st mod 4096" using ok lt unfolding alias_ok_def s_def by blast
  have q: "unat (drop_bit ANS_LOG_TAB_SIZE ?st) = unat ?st div 4096"
    by (simp only: unat_drop_bit_eq ANS_LOG_TAB_SIZE_def) (simp add: drop_bit_eq_div)
  have lt32: "unat ?st < 2 ^ 32" using unsigned_less [of ?st, where 'a = nat] by simp
  have dm: "4096 * (unat ?st div 4096) + unat ?st mod 4096 = unat ?st" by simp
  then have le: "4096 * (unat ?st div 4096) < 2 ^ 32" using lt32 by linarith
  have m: "unat (of_nat 4096 * drop_bit ANS_LOG_TAB_SIZE ?st :: u32) = 4096 * (unat ?st div 4096)"
    by (subst unat_mult_id) (use q le in simp_all)
  have "unat (of_nat 4096 * drop_bit ANS_LOG_TAB_SIZE ?st + of_nat (unat ?st mod 4096) :: u32) = unat ?st"
    by (subst unat_add_id) (use m dm lt32 in \<open>simp_all add: unat_of_nat_id\<close>)
  then have w: "of_nat (sym_freq s) * drop_bit ANS_LOG_TAB_SIZE ?st + of_nat (sym_offset s) = ?st"
    unfolding full off by (rule word_unat_eq_iff [THEN iffD2])
  have "?st < push_bit 16 1 \<longleftrightarrow> \<not> 2 ^ 16 \<le> unat ?st" by (simp add: word_less_nat_alt not_le)
  then show ?thesis
    unfolding ReadSymbolANSWithoutRefill_def res Let_def sym w by (simp add: Consume_0)
qed

text \<open>C12: Skipping a run is the same as reading it: if \<open>IsSingleValueAndAdvance\<close> answers with a value for
  \<open>count\<close> symbols and the coder state is at least \<open>2 ^ 16\<close>, then \<open>count\<close> reads on that context (from any input, LZ77 window or not) all return that
  value, consume nothing, and leave the reader in the very state the shortcut computed.  Below \<open>2 ^ 16\<close>, which the
  decoder does not rule out for the state that it reads at the start of a stream, the two differ: already the first of these reads
  returns the same value but consumes 16 bits, where the shortcut consumes none.\<close>

theorem IsSingleValueAndAdvance_equivalence:
  assumes D: "dist_ok la D" and b: "2 ^ la \<le> length b"
    and tab: "InitAliasTable D ANS_LOG_TAB_SIZE la b = Inr (drop (ctx * 2 ^ la) (alias_tables r))"
    and r: "ans_reader_ok la r" and br: "br_ok br"
    and single: "IsSingleValueAndAdvance ctx count r = Some (v, r')"
  shows "if 2 ^ 16 \<le> unat (ans_state r)
    then \<exists>br'. read_n count ctx r br = (replicate count v, r', br') \<and> reader.advanced br br' 0
    else \<exists>q br'. read_n 1 ctx r br = ([v], q, br') \<and> reader.advanced br br' 16"
proof -
  have ok: "alias_ok D la (drop (ctx * 2 ^ la) (alias_tables r))"
    by (rule alias_table_unique [OF _ _ _ _ _ b b tab tab]) (use D in \<open>simp_all add: dist_ok_def\<close>)
  let ?st = "ans_state r"
  define s where "s = lookup_at (drop (ctx * 2 ^ la) (alias_tables r)) la (unat ?st mod 4096)"
  have "unat (?st AND (of_nat ANS_TAB_SIZE - 1)) = unat (take_bit 12 ?st)"
    by (simp add: ANS_TAB_SIZE_def ANS_LOG_TAB_SIZE_def take_bit_eq_mask mask_eq_exp_minus_1)
  also have "\<dots> = unat ?st mod 2 ^ 12" by (simp only: unsigned_take_bit_eq) (simp only: take_bit_eq_mod)
  finally have res: "unat (?st AND (of_nat ANS_TAB_SIZE - 1)) = unat ?st mod 4096" by simp
  have sym: "Lookup (drop (ctx * 2 ^ log_alpha_size r) (alias_tables r)) (unat ?st mod 4096)
      (log_entry_size r) (entry_size_minus_1 r) = s"
    using r by (simp add: ans_reader_ok_def s_def lookup_at_def ANS_LOG_TAB_SIZE_def)
  have S: "num_to_copy r = 0" "sym_freq s = 4096" "v = sym_value s" "v < split_token (configs r ! ctx)"
    "v < lz77_threshold r" "r' = (if lz77_window r \<noteq> None then (window_push (of_nat v) ^^ count) r else r)"
    using single unfolding IsSingleValueAndAdvance_def res Let_def sym
    by (auto simp: ANS_TAB_SIZE_def ANS_LOG_TAB_SIZE_def split: if_splits)
  define P where "P = (\<lambda>q :: ANSSymbolReader. ans_reader_ok la q \<and> alias_tables q = alias_tables r \<and>
    ans_state q = ans_state r \<and> num_to_copy q = 0 \<and> configs q = configs r \<and> lz77_threshold q = lz77_threshold r)"
  have step: "ReadHybridUintClustered True ctx q x = (v, if lz77_window q \<noteq> None then window_push (of_nat v) q else q, Refill x)"
    if "P q" "2 ^ 16 \<le> unat ?st" for q x
  proof -
    have "ReadSymbolANSWithoutRefill ctx q (Refill x) = (v, q, Refill x)"
      using full_symbol_step [of D la ctx q "Refill x"] ok S(2,3) that
      by (simp add: P_def s_def)
    then show ?thesis
      using that S(4,5)
      by (simp add: P_def ReadHybridUintClustered_def ReadSymbolWithoutRefill_def ans_reader_ok_def
          ReadHybridUintConfig_def Let_def)
  qed
  have push: "P (window_push u q) \<and> (lz77_window (window_push u q) \<noteq> None \<longleftrightarrow> lz77_window q \<noteq> None)"
    if "P q" for u q using that by (auto simp: P_def window_push_def ans_reader_ok_def)
  have "\<exists>br'. read_n n ctx q x = (replicate n v,
      if lz77_window q \<noteq> None then (window_push (of_nat v) ^^ n) q else q, br') \<and> reader.advanced x br' 0"
    if "P q" "br_ok x" and st: "2 ^ 16 \<le> unat ?st" for n q x
    using that(1,2)
  proof (induction n arbitrary: q x)
    case 0
    then show ?case by (simp add: reader.advanced_0)
  next
    case (Suc n)
    let ?q = "if lz77_window q \<noteq> None then window_push (of_nat v) q else q"
    have "P ?q" "lz77_window ?q \<noteq> None \<longleftrightarrow> lz77_window q \<noteq> None" using push Suc.prems(1) by auto
    moreover have R: "br_ok (Refill x)" "reader.advanced x (Refill x) 0"
      using Refill_ok [OF Suc.prems(2)] by (simp_all add: reader.advanced_def upcoming_def)
    ultimately obtain br' where "read_n n ctx ?q (Refill x) = (replicate n v,
      if lz77_window ?q \<noteq> None then (window_push (of_nat v) ^^ n) ?q else ?q, br')" "reader.advanced (Refill x) br' 0"
      using Suc.IH by blast
    moreover have "reader.advanced x br' 0" using reader.advanced_trans [OF R(2) calculation(2)] by simp
    ultimately show ?case using step [OF Suc.prems(1) st] push [OF Suc.prems(1)]
      by (auto simp: funpow_swap1)
  qed
  note run = this [OF _ br]
  have "\<exists>q br'. read_n 1 ctx r br = ([v], q, br') \<and> reader.advanced br br' 16" if st: "\<not> 2 ^ 16 \<le> unat ?st"
  proof -
    let ?q = "r\<lparr> ans_state := push_bit 16 ?st OR ucast (PeekBits 16 (Refill br)) \<rparr>"
    note R = Refill_ok [OF br]
    have "ReadSymbolANSWithoutRefill ctx r (Refill br) = (v, ?q, Consume 16 (Refill br))"
      using full_symbol_step [of D la ctx r "Refill br"] ok r S(2,3) st by (simp add: s_def)
    then have rd: "\<exists>q. ReadHybridUintClustered True ctx r br = (v, q, Consume 16 (Refill br))"
      using r S(1,4,5) by (simp add: ReadHybridUintClustered_def ReadSymbolWithoutRefill_def ans_reader_ok_def ReadHybridUintConfig_def Let_def)
    have "16 \<le> bits_in_buf (Refill br)" using R(2) by simp
    note C = Consume_ok [OF R(1) this]
    have "reader.advanced br (Consume 16 (Refill br)) 16" using C R by (simp add: reader.advanced_def upcoming_def)
    then show ?thesis using rd by auto
  qed
  then show ?thesis using run r S(1,6) by (simp add: P_def)
qed


theorem IsSingleValueAndAdvance_equivalence_witness:
  "\<exists>tab r' br' q br''. InitAliasTable [0, 4096] ANS_LOG_TAB_SIZE 5 (replicate 32 (single_entry 7 3 1)) = Inr tab \<and>
     read_n 9 0 (plain_reader tab 5 0x54321 [HybridUintConfig_new 4 2 0]) (BitReader_new [1, 2]) =
       (replicate 9 1, r', br') \<and>
     read_n 1 0 (plain_reader tab 5 0x321 [HybridUintConfig_new 4 2 0]) (BitReader_new [1, 2]) = ([1], q, br'') \<and>
     TotalBitsConsumed br'' = 16"
proof -
  let ?D = "[0, 4096] :: int list" and ?a = "replicate 32 (single_entry 7 3 1)"
  have D: "dist_ok 5 ?D" by (simp add: dist_ok_def trim_zeros_def)
  then obtain tab where tab: "InitAliasTable ?D ANS_LOG_TAB_SIZE 5 ?a = Inr tab" and ok: "alias_ok ?D 5 tab"
    using InitAliasTable_ok [of ?D 5 ?a] by (auto simp: dist_ok_def)
  let ?r = "\<lambda>st. plain_reader tab 5 st [HybridUintConfig_new 4 2 0]"
  have r: "ans_reader_ok 5 (?r st)" for st by (simp add: ans_reader_ok_def plain_reader_def)
  have look: "sym_value (lookup_at tab 5 0x321) = 1 \<and> sym_freq (lookup_at tab 5 0x321) = 4096"
  proof -
    have lt: "(0x321::nat) < ANS_TAB_SIZE" by (simp add: ANS_TAB_SIZE_def ANS_LOG_TAB_SIZE_def)
    have "(sym_value (lookup_at tab 5 0x321), sym_offset (lookup_at tab 5 0x321)) \<in> symbol_ranks ?D"
      using ok lt unfolding alias_ok_def by (auto dest!: bij_betw_apply)
    then have "sym_value (lookup_at tab 5 0x321) = 1" by (auto simp: symbol_ranks_def less_Suc_eq)
    moreover have "int (sym_freq (lookup_at tab 5 0x321)) = ?D ! sym_value (lookup_at tab 5 0x321)"
      using ok lt unfolding alias_ok_def by blast
    ultimately show ?thesis by simp
  qed
  have single: "IsSingleValueAndAdvance 0 n (?r st) = Some (1, ?r st)" if "st AND 0xFFF = 0x321" for n st
    using look that by (simp add: IsSingleValueAndAdvance_def plain_reader_def lookup_at_def ANS_LOG_TAB_SIZE_def ANS_TAB_SIZE_def
        HybridUintConfig_new_def Let_def)
  have len: "(2::nat) ^ 5 \<le> length ?a" by simp
  have t: "InitAliasTable ?D ANS_LOG_TAB_SIZE 5 ?a = Inr (drop (0 * 2 ^ 5) (alias_tables (?r st)))" for st
    using tab by (simp add: plain_reader_def)
  let ?b = "BitReader_new [1, 2]"
  have E: "if 2 ^ 16 \<le> unat (ans_state (?r st)) then \<exists>br'. read_n n 0 (?r st) ?b = (replicate n 1, ?r st, br') \<and> reader.advanced ?b br' 0
      else \<exists>q br'. read_n 1 0 (?r st) ?b = ([1], q, br') \<and> reader.advanced ?b br' 16" if "st AND 0xFFF = 0x321" for st n
    by (rule IsSingleValueAndAdvance_equivalence [OF D len t r BitReader_new_ok(1) single [OF that]])
  have "\<exists>r' br'. read_n 9 0 (?r 0x54321) ?b = (replicate 9 1, r', br')"
    using E [of "0x54321" 9] by (auto simp: plain_reader_def)
  moreover have "\<exists>q br'. read_n 1 0 (?r 0x321) ?b = ([1], q, br') \<and> TotalBitsConsumed br' = 16"
    using E [of "0x321" 1] by (auto simp: plain_reader_def reader.advanced_def BitReader_new_ok)
  ultimately show ?thesis using tab by blast
qed

section \<open>The bound on decoded values\<close>

lemma ReadHybridUintConfig_less:
  assumes c: "config_ok c" and t: "split_token c \<le> token"
  shows "fst (ReadHybridUintConfig c token br) <
    2 ^ (msb_in_token c + lsb_in_token c + (split_exponent c - (msb_in_token c + lsb_in_token c) +
      (token - split_token c) div 2 ^ (msb_in_token c + lsb_in_token c)) + 1)"
proof -
  define msb lsb k where "msb = msb_in_token c" and "lsb = lsb_in_token c"
    and "k = split_exponent c - (msb + lsb) + (token - split_token c) div 2 ^ (msb + lsb)"
  define n where "n = k mod 32"
  have nk: "n \<le> k" "n \<le> 31" by (simp_all add: n_def)
  define t1 where "t1 = token div 2 ^ lsb mod 2 ^ msb"
  define low where "low = token mod 2 ^ lsb"
  have t1: "t1 < 2 ^ msb" and low: "low < 2 ^ lsb" by (simp_all add: t1_def low_def)
  have pk: "unat (PeekBits n br) < 2 ^ n" using nk by (intro PeekBits_less) simp
  have or1: "(2 ^ msb OR t1) = 2 ^ msb + t1" using or_eq_plus [OF t1, of 1] by simp
  have v: "fst (ReadHybridUintConfig c token br) =
      (((2 ^ msb + t1) * 2 ^ n + unat (PeekBits n br)) * 2 ^ lsb + low) mod 2 ^ 32"
    using t by (simp add: ReadHybridUintConfig_def Let_def msb_def [symmetric] lsb_def [symmetric]
        k_def [symmetric] n_def [symmetric] t1_def [symmetric] low_def [symmetric] or1
        or_eq_plus [OF pk] or_eq_plus [OF low])
  have "(2 ^ msb + t1) * 2 ^ n + unat (PeekBits n br) < (2 ^ msb + t1 + 1) * 2 ^ n"
    using pk by (simp add: distrib_right)
  also have "\<dots> \<le> 2 ^ (msb + 1) * 2 ^ n" using t1 by (intro mult_le_mono1) simp
  finally have a: "(2 ^ msb + t1) * 2 ^ n + unat (PeekBits n br) + 1 \<le> 2 ^ (msb + 1) * 2 ^ n" by simp
  have "((2 ^ msb + t1) * 2 ^ n + unat (PeekBits n br)) * 2 ^ lsb + low <
      ((2 ^ msb + t1) * 2 ^ n + unat (PeekBits n br) + 1) * 2 ^ lsb" using low by simp
  also have "\<dots> \<le> 2 ^ (msb + 1) * 2 ^ n * 2 ^ lsb" using a by (rule mult_le_mono1)
  also have "\<dots> = 2 ^ (msb + lsb + n + 1)" by (simp add: power_add)
  also have "\<dots> \<le> 2 ^ (msb + lsb + k + 1)" using nk by (intro power_increasing) simp_all
  finally show ?thesis unfolding v msb_def [symmetric] lsb_def [symmetric] k_def [symmetric]
    by (rule le_less_trans [OF mod_less_eq_dividend])
qed

text \<open>The configuration and symbol that \<open>UpdateMaxNumBits\<close> looks at.\<close>

definition is_length_symbol :: "ANSCode \<Rightarrow> nat \<Rightarrow> nat \<Rightarrow> bool" where
  "is_length_symbol code ctx symbol \<longleftrightarrow> lz_enabled (lz77 code) \<and>
     nonserialized_distance_context (lz77 code) \<noteq> ctx \<and> symbol \<ge> min_symbol (lz77 code)"

lemma UpdateMaxNumBits_frame:
  "uint_config (UpdateMaxNumBits ctx s code) = uint_config code"
  "lz77 (UpdateMaxNumBits ctx s code) = lz77 code"
  "max_num_bits code \<le> max_num_bits (UpdateMaxNumBits ctx s code)"
  by (simp_all add: UpdateMaxNumBits_def Let_def)

lemma UpdateMaxNumBits_bound:
  assumes "config_ok (uint_config code ! ctx)" and "\<not> is_length_symbol code ctx s"
  shows "fst (ReadHybridUintConfig (uint_config code ! ctx) s br) < 2 ^ max_num_bits (UpdateMaxNumBits ctx s code)"
proof (cases "s < split_token (uint_config code ! ctx)")
  case True
  then have "s < 2 ^ split_exponent (uint_config code ! ctx)" using assms(1) by (simp add: config_ok_def)
  also have "\<dots> \<le> 2 ^ max_num_bits (UpdateMaxNumBits ctx s code)"
    using True assms(2) by (intro power_increasing) (auto simp: UpdateMaxNumBits_def is_length_symbol_def Let_def)
  finally show ?thesis using True by (simp add: ReadHybridUintConfig_def)
next
  case False
  then have "split_token (uint_config code ! ctx) \<le> s" by simp
  from ReadHybridUintConfig_less [OF assms(1) this] show ?thesis
  proof (rule less_le_trans)
    show "2 ^ (msb_in_token (uint_config code ! ctx) + lsb_in_token (uint_config code ! ctx) +
        (split_exponent (uint_config code ! ctx) - (msb_in_token (uint_config code ! ctx) + lsb_in_token (uint_config code ! ctx)) +
         (s - split_token (uint_config code ! ctx)) div
           2 ^ (msb_in_token (uint_config code ! ctx) + lsb_in_token (uint_config code ! ctx))) + 1)
      \<le> (2::nat) ^ max_num_bits (UpdateMaxNumBits ctx s code)"
      using False assms(2) by (intro power_increasing) (auto simp: UpdateMaxNumBits_def is_length_symbol_def Let_def)
  qed
qed

text \<open>C13: \<open>max_num_bits\<close> bounds what can be decoded: after \<open>UpdateMaxNumBits\<close> has seen the symbols of a
  histogram, whatever bits follow a literal symbol of it (valid stream or not), the integer that
  \<open>ReadHybridUintConfig\<close> returns is below \<open>2 ^ max_num_bits\<close>.\<close>

theorem max_num_bits_bounds:
  assumes "config_ok (uint_config code ! ctx)" and "s \<in> set syms" and "\<not> is_length_symbol code ctx s"
  shows "max_num_bits code \<le> max_num_bits (foldl (\<lambda>c s. UpdateMaxNumBits ctx s c) code syms) \<and>
    fst (ReadHybridUintConfig (uint_config code ! ctx) s br) <
      2 ^ max_num_bits (foldl (\<lambda>c s. UpdateMaxNumBits ctx s c) code syms)"
proof -
  have mono: "max_num_bits c \<le> max_num_bits (foldl (\<lambda>c s. UpdateMaxNumBits ctx s c) c ys)" for c ys
    by (induction ys arbitrary: c) (auto intro: order_trans UpdateMaxNumBits_frame(3))
  have fr: "uint_config (foldl (\<lambda>c s. UpdateMaxNumBits ctx s c) c ys) = uint_config c \<and>
      lz77 (foldl (\<lambda>c s. UpdateMaxNumBits ctx s c) c ys) = lz77 c" for c ys
    by (induction ys arbitrary: c) (auto simp: UpdateMaxNumBits_frame)
  from assms(2) obtain ys zs where syms: "syms = ys @ s # zs" by (auto simp: in_set_conv_decomp)
  let ?c = "foldl (\<lambda>c s. UpdateMaxNumBits ctx s c) code ys"
  have "config_ok (uint_config ?c ! ctx)" "\<not> is_length_symbol ?c ctx s"
    using assms fr [of code ys] by (simp_all add: is_length_symbol_def)
  from UpdateMaxNumBits_bound [OF this, of br] fr [of code ys]
  have "fst (ReadHybridUintConfig (uint_config code ! ctx) s br) < 2 ^ max_num_bits (UpdateMaxNumBits ctx s ?c)" by simp
  also have "\<dots> \<le> 2 ^ max_num_bits (foldl (\<lambda>c s. UpdateMaxNumBits ctx s c) code syms)"
    unfolding syms using mono by (intro power_increasing) simp_all
  finally show ?thesis using mono by blast
qed

theorem max_num_bits_bounds_witness:
  "fst (ReadHybridUintConfig (HybridUintConfig_new 4 2 0) 20 (Refill (BitReader_new [255, 255]))) < 2 ^ 6"
proof -
  let ?cfg = "HybridUintConfig_new 4 2 0"
  let ?lz = "\<lparr> lz_enabled = False, min_symbol = 224, min_length = 3, length_uint_config = ?cfg,
    nonserialized_distance_context = 0 \<rparr>"
  let ?code = "\<lparr> code_alias_tables = [], code_huffman_data = [], uint_config = [?cfg], degenerate_symbols = [],
    code_use_prefix_code = False, code_log_alpha_size = 5, lz77 = ?lz, max_num_bits = 0 \<rparr>"
  have "config_ok (uint_config ?code ! 0)" by (simp add: config_ok_def HybridUintConfig_new_def)
  moreover have "max_num_bits (foldl (\<lambda>c s. UpdateMaxNumBits 0 s c) ?code [3, 20]) = 6"
    by (simp add: UpdateMaxNumBits_def HybridUintConfig_new_def Let_def)
  ultimately show ?thesis
    using max_num_bits_bounds [of ?code 0 20 "[3, 20]" "Refill (BitReader_new [255, 255])"]
    by (simp add: is_length_symbol_def)
qed

end
