(* ===== verification/Ans_Histogram.thy ===== *)
theory Ans_Histogram
  imports Prelude Bit_Reader Bit_Writer Alias_Table Hybrid_Uint
begin

text \<open>
  The coding of symbol histograms: \<^verbatim>\<open>DecodeVarLenUint8\<close>, \<^verbatim>\<open>DecodeVarLenUint16\<close> and
  \<^verbatim>\<open>ReadHistogram\<close> of \<^verbatim>\<open>lib/jxl/dec_ans.cc\<close>, \<^verbatim>\<open>StoreVarLenUint8\<close>,
  \<^verbatim>\<open>StoreVarLenUint16\<close> and \<^verbatim>\<open>ANSEncodingHistogram::Encode\<close> of \<^verbatim>\<open>lib/jxl/enc_ans.cc\<close>, and
  \<^verbatim>\<open>GetPopulationCountPrecision\<close> of \<^verbatim>\<open>lib/jxl/ans_common.h\<close>.  The vector of counts is fresh, as in
  the only caller.
\<close>

section \<open>Definitions\<close>

definition GetPopulationCountPrecision :: "nat \<Rightarrow> nat \<Rightarrow> nat" where
  "GetPopulationCountPrecision logcount shift =
     (let r = min (int logcount)
                  (int shift - ((int ANS_LOG_TAB_SIZE - int logcount) mod 2 ^ 32) div 2)
      in if r < 0 then 0 else nat r)"

definition DecodeVarLenUint8 :: "BitReader \<Rightarrow> nat \<times> BitReader" where
  "DecodeVarLenUint8 br =
     (case ReadBits 1 br of (b, br) \<Rightarrow>
        if b \<noteq> 0 then
          (case ReadBits 3 br of (nbits, br) \<Rightarrow>
             if nbits = 0 then (1, br)
             else (case ReadBits (unat nbits) br of (v, br) \<Rightarrow> (unat v + 2 ^ unat nbits, br)))
        else (0, br))"

definition DecodeVarLenUint16 :: "BitReader \<Rightarrow> nat \<times> BitReader" where
  "DecodeVarLenUint16 br =
     (case ReadBits 1 br of (b, br) \<Rightarrow>
        if b \<noteq> 0 then
          (case ReadBits 4 br of (nbits, br) \<Rightarrow>
             if nbits = 0 then (1, br)
             else (case ReadBits (unat nbits) br of (v, br) \<Rightarrow> (unat v + 2 ^ unat nbits, br)))
        else (0, br))"

definition StoreVarLenUint8 :: "nat \<Rightarrow> BitWriter \<Rightarrow> BitWriter" where
  "StoreVarLenUint8 n w =
     (if n = 0 then Write 1 0 w
      else (let w = Write 1 1 w; nbits = FloorLog2Nonzero n; w = Write 3 (of_nat nbits) w
            in Write nbits (of_nat (n - 2 ^ nbits)) w))"

definition StoreVarLenUint16 :: "nat \<Rightarrow> BitWriter \<Rightarrow> BitWriter" where
  "StoreVarLenUint16 n w =
     (if n = 0 then Write 1 0 w
      else (let w = Write 1 1 w; nbits = FloorLog2Nonzero n; w = Write 4 (of_nat nbits) w
            in Write nbits (of_nat (n - 2 ^ nbits)) w))"

text \<open>The static code of the bit widths: the length of the code word and its symbol for every 7 bits
  ahead.\<close>

definition logcount_huff :: "(nat \<times> int) list" where
  "logcount_huff = [
    (3, 10), (7, 12), (3, 7), (4, 3), (3, 6), (3, 8), (3, 9), (4, 5),
    (3, 10), (4, 4), (3, 7), (4, 1), (3, 6), (3, 8), (3, 9), (4, 2),
    (3, 10), (5, 0), (3, 7), (4, 3), (3, 6), (3, 8), (3, 9), (4, 5),
    (3, 10), (4, 4), (3, 7), (4, 1), (3, 6), (3, 8), (3, 9), (4, 2),
    (3, 10), (6, 11), (3, 7), (4, 3), (3, 6), (3, 8), (3, 9), (4, 5),
    (3, 10), (4, 4), (3, 7), (4, 1), (3, 6), (3, 8), (3, 9), (4, 2),
    (3, 10), (5, 0), (3, 7), (4, 3), (3, 6), (3, 8), (3, 9), (4, 5),
    (3, 10), (4, 4), (3, 7), (4, 1), (3, 6), (3, 8), (3, 9), (4, 2),
    (3, 10), (7, 13), (3, 7), (4, 3), (3, 6), (3, 8), (3, 9), (4, 5),
    (3, 10), (4, 4), (3, 7), (4, 1), (3, 6), (3, 8), (3, 9), (4, 2),
    (3, 10), (5, 0), (3, 7), (4, 3), (3, 6), (3, 8), (3, 9), (4, 5),
    (3, 10), (4, 4), (3, 7), (4, 1), (3, 6), (3, 8), (3, 9), (4, 2),
    (3, 10), (6, 11), (3, 7), (4, 3), (3, 6), (3, 8), (3, 9), (4, 5),
    (3, 10), (4, 4), (3, 7), (4, 1), (3, 6), (3, 8), (3, 9), (4, 2),
    (3, 10), (5, 0), (3, 7), (4, 3), (3, 6), (3, 8), (3, 9), (4, 5),
    (3, 10), (4, 4), (3, 7), (4, 1), (3, 6), (3, 8), (3, 9), (4, 2)]"

record logcounts_state =
  logcounts :: "int list"
  same :: "nat list"
  omit_log :: int
  omit_pos :: int

function read_logcounts :: "nat \<Rightarrow> nat \<Rightarrow> logcounts_state \<Rightarrow> BitReader \<Rightarrow> logcounts_state \<times> BitReader" where
  "read_logcounts len i st br =
     (if i < len then
        (let br = Refill br;
             idx = unat (PeekBits 7 br);
             br = Consume (fst (logcount_huff ! idx)) br;
             code = snd (logcount_huff ! idx) - 1;
             st = st\<lparr> logcounts := (logcounts st)[i := code] \<rparr>
         in if code = int ANS_LOG_TAB_SIZE then
              (case DecodeVarLenUint8 br of (rle_length, br) \<Rightarrow>
                 read_logcounts len (i + rle_length + 3 + 1)
                   (st\<lparr> same := (same st)[i := rle_length + 5] \<rparr>) br)
            else if code > omit_log st
                 then read_logcounts len (i + 1) (st\<lparr> omit_log := code, omit_pos := int i \<rparr>) br
                 else read_logcounts len (i + 1) st br)
      else (st, br))"
  by pat_completeness auto
termination
  by (relation "measure (\<lambda>(len, i, st, br). len - i)") auto

declare read_logcounts.simps [simp del]

record counts_state =
  hcounts :: "int list"
  total_count :: int
  prev :: int
  numsame :: nat

definition read_count ::
  "nat \<Rightarrow> logcounts_state \<Rightarrow> counts_state \<times> BitReader \<Rightarrow> nat \<Rightarrow> counts_state \<times> BitReader" where
  "read_count shift lc acc i =
     (let (st, br) = acc;
          st = (if same lc ! i \<noteq> 0
                then st\<lparr> numsame := same lc ! i - 1, prev := (if i > 0 then hcounts st ! (i - 1) else 0) \<rparr>
                else st)
      in if numsame st > 0 then
           (st\<lparr> hcounts := (hcounts st)[i := prev st], numsame := numsame st - 1,
              total_count := total_count st + prev st \<rparr>, br)
         else
           (let code = logcounts lc ! i in
            if int i = omit_pos lc \<or> code < 0 then (st, br)
            else
              (let (c, br) =
                 (if shift = 0 \<or> code = 0 then (2 ^ nat code, br)
                  else (let bitcount = GetPopulationCountPrecision (nat code) shift
                        in case ReadBits bitcount br of (v, br) \<Rightarrow>
                             (2 ^ nat code + int (unat v) * 2 ^ (nat code - bitcount), br)))
               in (st\<lparr> hcounts := (hcounts st)[i := c], total_count := total_count st + c \<rparr>, br))))"

text \<open>The unary prefix of the shift: at most \<open>upper_bound_log\<close> ones.\<close>

fun read_shift_log :: "nat \<Rightarrow> nat \<Rightarrow> BitReader \<Rightarrow> nat \<times> BitReader" where
  "read_shift_log 0 log br = (log, br)"
| "read_shift_log (Suc n) log br =
     (case ReadBits 1 br of (b, br) \<Rightarrow> if b = 0 then (log, br) else read_shift_log n (log + 1) br)"

definition ReadHistogram :: "nat \<Rightarrow> BitReader \<Rightarrow> int list outcome \<times> BitReader" where
  "ReadHistogram precision_bits br =
     (let range = (2::nat) ^ precision_bits in
      case ReadBits 1 br of (simple_code, br) \<Rightarrow>
      if simple_code = 1 then
        (case ReadBits 1 br of (num_symbols, br) \<Rightarrow>
         case DecodeVarLenUint8 br of (s0, br) \<Rightarrow>
         if num_symbols = 0 then (Inr ((replicate (s0 + 1) 0)[s0 := int range]), br)
         else
           (case DecodeVarLenUint8 br of (s1, br) \<Rightarrow>
            if s0 = s1 then (Inl kGenericError, br)
            else
              (case ReadBits precision_bits br of (c, br) \<Rightarrow>
                 (Inr ((replicate (max s0 s1 + 1) 0)[s0 := int (unat c), s1 := int range - int (unat c)]), br))))
      else
        (case ReadBits 1 br of (is_flat, br) \<Rightarrow>
         if is_flat = 1 then
           (case DecodeVarLenUint8 br of (n, br) \<Rightarrow>
              if \<not> n + 1 \<le> range then (Inl kGenericError, br)
              else (Inr (CreateFlatHistogram (n + 1) range), br))
         else
           (case read_shift_log (FloorLog2Nonzero (ANS_LOG_TAB_SIZE + 1)) 0 br of (log, br) \<Rightarrow>
            case ReadBits log br of (v, br) \<Rightarrow>
            let shift = (unat v OR 2 ^ log) - 1 in
            if shift > ANS_LOG_TAB_SIZE + 1 then (Inl kGenericError, br)
            else
              (case DecodeVarLenUint8 br of (n, br) \<Rightarrow>
               let len = n + 3 in
               case read_logcounts len 0
                      \<lparr> logcounts = replicate len 0, same = replicate len 0, omit_log = - 1, omit_pos = - 1 \<rparr> br
               of (lc, br) \<Rightarrow>
               if omit_pos lc < 0 then (Inl kGenericError, br)
               else if nat (omit_pos lc) + 1 < len \<and> logcounts lc ! (nat (omit_pos lc) + 1) = int ANS_LOG_TAB_SIZE
               then (Inl kGenericError, br)
               else
                 (case foldl (read_count shift lc)
                         (\<lparr> hcounts = replicate len 0, total_count = 0, prev = 0, numsame = 0 \<rparr>, br) [0..<len]
                  of (st, br) \<Rightarrow>
                  let c = int range - total_count st in
                  if c \<le> 0 then (Inl kGenericError, br)
                  else (Inr ((hcounts st)[nat (omit_pos lc) := c]), br))))))"

text \<open>The encoder's histogram and its serialisation.  Arrays of the source that are indexed by symbols
  below the alphabet size are lists of that length.\<close>

record ANSEncodingHistogram =
  eh_counts :: "nat list"
  eh_alphabet_size :: nat
  eh_omit_pos :: nat
  eh_method :: nat
  eh_num_symbols :: nat
  eh_symbols :: "nat list"

definition kMaxNumSymbolsForSmallCode :: nat where "kMaxNumSymbolsForSmallCode = 2"

definition kBitWidthLengths :: "nat list" where
  "kBitWidthLengths = [5, 4, 4, 4, 4, 4, 3, 3, 3, 3, 3, 6, 7, 7]"

definition kBitWidthSymbols :: "nat list" where
  "kBitWidthSymbols = [17, 11, 15, 3, 9, 7, 4, 2, 5, 6, 0, 33, 1, 65]"

definition run_lengths :: "nat list \<Rightarrow> nat \<Rightarrow> nat \<Rightarrow> nat list" where
  "run_lengths counts alphabet_size omit =
     fst (foldl (\<lambda>(sm, last) i.
        if i = alphabet_size \<or> i = omit \<or> i = omit + 1 \<or> counts ! i \<noteq> counts ! last
        then (sm[last := i - last], i) else (sm, last))
       (replicate alphabet_size 0, 0) [1..<alphabet_size + 1])"

definition bit_widths :: "nat list \<Rightarrow> nat \<Rightarrow> nat \<Rightarrow> nat list" where
  "bit_widths counts alphabet_size omit =
     (let (bw, omit_width) =
        foldl (\<lambda>(bw, omit_width) i.
          if i \<noteq> omit \<and> counts ! i > 0
          then (let b = FloorLog2Nonzero (counts ! i) + 1
                in (bw[i := b], max omit_width (b + (if i < omit then 1 else 0))))
          else (bw, omit_width))
        (replicate alphabet_size 0, 10) [0..<alphabet_size]
      in bw[omit := omit_width])"

function write_widths :: "nat list \<Rightarrow> nat list \<Rightarrow> nat \<Rightarrow> nat \<Rightarrow> BitWriter \<Rightarrow> BitWriter" where
  "write_widths bw sm n i w =
     (if i < n then
        (let w = Write (kBitWidthLengths ! (bw ! i)) (of_nat (kBitWidthSymbols ! (bw ! i))) w
         in if sm ! i \<ge> 5 then
              (let w = Write (kBitWidthLengths ! (ANS_LOG_TAB_SIZE + 1))
                         (of_nat (kBitWidthSymbols ! (ANS_LOG_TAB_SIZE + 1))) w;
                   w = StoreVarLenUint8 (sm ! i - 5) w
               in write_widths bw sm n (i + (sm ! i - 1) + 1) w)
            else write_widths bw sm n (i + 1) w)
      else w)"
  by pat_completeness auto
termination by (relation "measure (\<lambda>(bw, sm, n, i, w). n - i)") auto

declare write_widths.simps [simp del]

function write_precision ::
  "nat list \<Rightarrow> nat list \<Rightarrow> nat list \<Rightarrow> nat \<Rightarrow> nat \<Rightarrow> nat \<Rightarrow> nat \<Rightarrow> BitWriter \<Rightarrow> BitWriter" where
  "write_precision counts bw sm omit shift n i w =
     (if i < n then
        (let w = (if bw ! i > 1 \<and> i \<noteq> omit
                  then (let bitcount = GetPopulationCountPrecision (bw ! i - 1) shift;
                            drop_bits = bw ! i - 1 - bitcount
                        in Write bitcount (of_nat (counts ! i div 2 ^ drop_bits - 2 ^ bitcount)) w)
                  else w)
         in if sm ! i \<ge> 5 then write_precision counts bw sm omit shift n (i + (sm ! i - 1) + 1) w
            else write_precision counts bw sm omit shift n (i + 1) w)
      else w)"
  by pat_completeness auto
termination by (relation "measure (\<lambda>(counts, bw, sm, p, shift, n, i, w). n - i)") auto

declare write_precision.simps [simp del]

definition EncodeHistogram :: "ANSEncodingHistogram \<Rightarrow> BitWriter \<Rightarrow> bool \<times> BitWriter" where
  "EncodeHistogram h w =
     (if \<not> eh_alphabet_size h \<le> 256 then (False, w)
      else if eh_method h = 0 then
        (let w = Write 1 0 w; w = Write 1 1 w in
         if \<not> eh_alphabet_size h > 0 then (False, w)
         else (True, StoreVarLenUint8 (eh_alphabet_size h - 1) w))
      else if eh_num_symbols h \<le> kMaxNumSymbolsForSmallCode then
        (let w = Write 1 1 w;
             w = (if eh_num_symbols h = 0 then StoreVarLenUint8 0 (Write 1 0 w)
                  else foldl (\<lambda>w i. StoreVarLenUint8 (eh_symbols h ! i) w)
                         (Write 1 (of_nat (eh_num_symbols h - 1)) w) [0..<eh_num_symbols h])
         in (True, if eh_num_symbols h = 2
                   then Write ANS_LOG_TAB_SIZE (of_nat (eh_counts h ! (eh_symbols h ! 0))) w else w))
      else
        (let w = Write 1 0 w; w = Write 1 0 w;
             upper_bound_log = FloorLog2Nonzero (ANS_LOG_TAB_SIZE + 1);
             log = FloorLog2Nonzero (eh_method h);
             w = Write log (of_nat (2 ^ log - 1)) w;
             w = (if log \<noteq> upper_bound_log then Write 1 0 w else w);
             w = Write log (of_nat (take_bit log (eh_method h))) w;
             w = StoreVarLenUint8 (eh_alphabet_size h - 3) w;
             sm = run_lengths (eh_counts h) (eh_alphabet_size h) (eh_omit_pos h);
             bw = bit_widths (eh_counts h) (eh_alphabet_size h) (eh_omit_pos h);
             w = write_widths bw sm (eh_alphabet_size h) 0 w;
             shift = eh_method h - 1
         in (True, if shift \<noteq> 0
                   then write_precision (eh_counts h) bw sm (eh_omit_pos h) shift (eh_alphabet_size h) 0 w
                   else w)))"

section \<open>Small numbers of variable length\<close>

text \<open>Both widths at once: \<open>k\<close> bits of length.\<close>

definition varlen_code :: "nat \<Rightarrow> nat \<Rightarrow> bool list" where
  "varlen_code k n =
     (if n = 0 then bits_of 1 (0 :: u64)
      else bits_of 1 (1 :: u64) @ nat_bits k (FloorLog2Nonzero n) @
           nat_bits (FloorLog2Nonzero n) (n - 2 ^ FloorLog2Nonzero n))"

definition store_varlen :: "nat \<Rightarrow> nat \<Rightarrow> BitWriter \<Rightarrow> BitWriter" where
  "store_varlen k n w =
     (if n = 0 then Write 1 0 w
      else Write (FloorLog2Nonzero n) (of_nat (n - 2 ^ FloorLog2Nonzero n))
             (Write k (of_nat (FloorLog2Nonzero n)) (Write 1 1 w)))"

definition decode_varlen :: "nat \<Rightarrow> BitReader \<Rightarrow> nat \<times> BitReader" where
  "decode_varlen k br =
     (case ReadBits 1 br of (b, br) \<Rightarrow>
        if b \<noteq> 0 then
          (case ReadBits k br of (nbits, br) \<Rightarrow>
             if nbits = 0 then (1, br)
             else (case ReadBits (unat nbits) br of (v, br) \<Rightarrow> (unat v + 2 ^ unat nbits, br)))
        else (0, br))"

lemma varlen_unify:
  "StoreVarLenUint8 = store_varlen 3" "StoreVarLenUint16 = store_varlen 4"
  "DecodeVarLenUint8 = decode_varlen 3" "DecodeVarLenUint16 = decode_varlen 4"
  by (simp_all add: fun_eq_iff StoreVarLenUint8_def StoreVarLenUint16_def store_varlen_def
      DecodeVarLenUint8_def DecodeVarLenUint16_def decode_varlen_def Let_def)

lemma varlen_facts:
  assumes "0 < n" and "n < 2 ^ 2 ^ k" and "k \<le> 4"
  defines "l \<equiv> FloorLog2Nonzero n"
  shows "l < 2 ^ k" "l \<le> 15" "2 ^ l \<le> n" "n - 2 ^ l < 2 ^ l"
    "drop_bit k (of_nat l :: u64) = 0" "drop_bit l (of_nat (n - 2 ^ l) :: u64) = 0"
    "unat (of_nat l :: u64) = l" "unat (of_nat (n - 2 ^ l) :: u64) = n - 2 ^ l"
proof -
  show l: "l < 2 ^ k" unfolding l_def by (rule FloorLog2Nonzero_less [OF assms(1,2)])
  have "(2::nat) ^ k \<le> 2 ^ 4" using assms(3) by (intro power_increasing) simp_all
  then show l15: "l \<le> 15" using l by simp
  show b: "2 ^ l \<le> n" "n - 2 ^ l < 2 ^ l"
    using FloorLog2Nonzero_bounds [OF assms(1)] unfolding l_def power_Suc by linarith+
  have "(2::nat) ^ l \<le> 2 ^ 15" using l15 by (intro power_increasing) simp_all
  then have "n - 2 ^ l < 2 ^ 64" using b by simp
  then show u: "unat (of_nat l :: u64) = l" "unat (of_nat (n - 2 ^ l) :: u64) = n - 2 ^ l"
    using l15 by (simp_all only: unsigned_of_nat) (simp_all add: take_bit_nat_eq_self)
  show "drop_bit k (of_nat l :: u64) = 0" "drop_bit l (of_nat (n - 2 ^ l) :: u64) = 0"
    unfolding drop_bit_0_unat u using l b by simp_all
qed

lemma store_varlen_emits:
  assumes "n < 2 ^ 2 ^ k" and "k \<le> 4"
  shows "writer.emits (\<lambda>w. (True, store_varlen k n w)) (varlen_code k n)"
proof (cases "n = 0")
  case True
  then show ?thesis using writer.emits_wr [of 1 0] by (simp add: store_varlen_def varlen_code_def)
next
  case False
  then have "0 < n" by simp
  note F = varlen_facts [OF this assms]
  have l: "k \<le> 56" "FloorLog2Nonzero n \<le> 56" using F(2) assms(2) by simp_all
  have "drop_bit 1 (1 :: u64) = 0" by (simp add: drop_bit_eq_div)
  from writer.emits_wr_then [OF _ this writer.emits_wr_then [OF l(1) F(5) writer.emits_wr [OF l(2) F(6)]]]
  show ?thesis using False by (simp add: store_varlen_def varlen_code_def nat_bits_def)
qed

lemma decode_varlen_parses:
  assumes "n < 2 ^ 2 ^ k" and "k \<le> 4"
  shows "reader.parses (decode_varlen k) (varlen_code k n) n"
proof -
  define q2 where "q2 = (\<lambda>(nbits :: u64) br. if nbits = 0 then (1, br)
    else (case ReadBits (unat nbits) br of (v, br) \<Rightarrow> (unat v + 2 ^ unat nbits, br)))"
  define q where "q = (\<lambda>(b :: u64) br. if b \<noteq> 0 then (case ReadBits k br of (x, t) \<Rightarrow> q2 x t) else (0, br))"
  have D: "decode_varlen k = (\<lambda>s. case ReadBits 1 s of (x, t) \<Rightarrow> q x t)"
    unfolding decode_varlen_def q_def q2_def by (rule ext) (rule refl)
  show ?thesis
  proof (cases "n = 0")
    case True
    have "reader.parses (q 0) [] 0" using reader.parses_return by (simp add: q_def)
    from reader.parses_rd_then [where q = q and n = 1 and v = 0, OF _ _ this] True show ?thesis
      by (simp add: D varlen_code_def)
  next
    case False
    then have "0 < n" by simp
    note F = varlen_facts [OF this assms]
    let ?l = "FloorLog2Nonzero n"
    have l: "k \<le> 56" "?l \<le> 56" using F(2) assms(2) by simp_all
    have "reader.parses (q2 (of_nat ?l)) (nat_bits ?l (n - 2 ^ ?l)) n"
    proof (cases "?l = 0")
      case True
      then have "n = 1" using F(3,4) by simp
      then show ?thesis using True reader.parses_return by (simp add: q2_def nat_bits_def bits_of_def)
    next
      case l0: False
      then have nz: "(of_nat ?l :: u64) \<noteq> 0" using F(7) by (metis unsigned_0)
      define q3 where "q3 = (\<lambda>(v :: u64) (br :: BitReader). (unat v + 2 ^ ?l, br))"
      have "reader.parses (q3 (of_nat (n - 2 ^ ?l))) [] n"
        using reader.parses_return F(3) unfolding q3_def F(8) by simp
      from reader.parses_rd_then [where q = q3, OF l(2) F(6) this]
      show ?thesis using nz F(7) unfolding q2_def F(7) nat_bits_def q3_def by simp
    qed
    from reader.parses_rd_then [where q = q2, OF l(1) F(5) this]
    have "reader.parses (q 1) (nat_bits k ?l @ nat_bits ?l (n - 2 ^ ?l)) n"
      by (simp add: q_def nat_bits_def)
    moreover have "drop_bit 1 (1 :: u64) = 0" by (simp add: drop_bit_eq_div)
    ultimately show ?thesis
      using reader.parses_rd_then [where q = q and n = 1 and v = 1] False by (simp add: D varlen_code_def)
  qed
qed

text \<open>Whatever the input, the decoded numbers are within the documented ranges.\<close>

lemma decode_varlen_range:
  assumes "decode_varlen k br = (n, br')" and "k \<le> 4"
  shows "n < 2 ^ 2 ^ k"
proof -
  have p: "(2::nat) ^ 2 ^ k \<ge> 2" by (metis one_le_numeral one_le_power power_increasing power_one_right)
  obtain b br1 where 1: "ReadBits 1 br = (b, br1)" by fastforce
  obtain l br2 where 2: "ReadBits k br1 = (l, br2)" by fastforce
  obtain v br3 where 3: "ReadBits (unat l) br2 = (v, br3)" by fastforce
  have l: "unat l < 2 ^ k" using ReadBits_less [OF _ 2] assms(2) by simp
  have "(2::nat) ^ k \<le> 2 ^ 4" using assms(2) by (intro power_increasing) simp_all
  then have v: "unat v < 2 ^ unat l" using l by (intro ReadBits_less [OF _ 3]) simp
  have "n \<le> 1 \<or> n = unat v + 2 ^ unat l"
    using assms(1) 1 2 3 by (auto simp: decode_varlen_def split: if_splits)
  moreover have "unat v + 2 ^ unat l < 2 ^ Suc (unat l)" using v by simp
  moreover have "(2::nat) ^ Suc (unat l) \<le> 2 ^ 2 ^ k" using l by (intro power_increasing) simp_all
  ultimately show ?thesis using p by linarith
qed

text \<open>The short numbers of the histogram header round trip, and are bounded: every number of the
  documented range is written as a bit string from which it is read back, and whatever the input,
  \<open>DecodeVarLenUint8\<close> returns at most 255 and \<open>DecodeVarLenUint16\<close> at most 65535.\<close>

theorem VarLen_roundtrip:
  "(n \<le> 255 \<longrightarrow> (\<exists>bs. length bs \<le> 11 \<and> writer.emits (\<lambda>w. (True, StoreVarLenUint8 n w)) bs \<and>
      reader.parses DecodeVarLenUint8 bs n)) \<and>
   (n \<le> 65535 \<longrightarrow> (\<exists>bs. length bs \<le> 20 \<and> writer.emits (\<lambda>w. (True, StoreVarLenUint16 n w)) bs \<and>
      reader.parses DecodeVarLenUint16 bs n)) \<and>
   fst (DecodeVarLenUint8 br) \<le> 255 \<and> fst (DecodeVarLenUint16 br) \<le> 65535"
proof -
  have len: "length (varlen_code k n) \<le> 1 + k + (2 ^ k - 1)" if "n < 2 ^ 2 ^ k" "k \<le> 4" for k
  proof (cases "n = 0")
    case True
    then show ?thesis by (simp add: varlen_code_def trans_le_add2)
  next
    case False
    then show ?thesis using varlen_facts(1) [of n k] that by (simp add: varlen_code_def nat_bits_def)
  qed
  have "\<exists>bs. length bs \<le> 11 \<and> writer.emits (\<lambda>w. (True, StoreVarLenUint8 n w)) bs \<and>
      reader.parses DecodeVarLenUint8 bs n" if "n \<le> 255"
    using len [of 3] store_varlen_emits [of n 3] decode_varlen_parses [of n 3] that
    unfolding varlen_unify by (intro exI [of _ "varlen_code 3 n"]) simp
  moreover have "\<exists>bs. length bs \<le> 20 \<and> writer.emits (\<lambda>w. (True, StoreVarLenUint16 n w)) bs \<and>
      reader.parses DecodeVarLenUint16 bs n" if "n \<le> 65535"
    using len [of 4] store_varlen_emits [of n 4] decode_varlen_parses [of n 4] that
    unfolding varlen_unify by (intro exI [of _ "varlen_code 4 n"]) simp
  moreover have "fst (DecodeVarLenUint8 br) \<le> 255"
    using decode_varlen_range [of 3 br "fst (decode_varlen 3 br)" "snd (decode_varlen 3 br)"]
    unfolding varlen_unify by simp
  moreover have "fst (DecodeVarLenUint16 br) \<le> 65535"
    using decode_varlen_range [of 4 br "fst (decode_varlen 4 br)" "snd (decode_varlen 4 br)"]
    unfolding varlen_unify by simp
  ultimately show ?thesis by blast
qed

theorem VarLen_roundtrip_witness:
  "\<exists>bs. length bs \<le> 11 \<and> reader.parses DecodeVarLenUint8 bs 200"
  using VarLen_roundtrip [of 200] by auto

section \<open>Every accepted histogram is valid\<close>

text \<open>The positions at which a bit width was read, from \<open>i\<close> on: a run recorded in \<open>same\<close> is jumped
  over.\<close>

function visited :: "nat list \<Rightarrow> nat \<Rightarrow> nat \<Rightarrow> nat list" where
  "visited sm n i = (if i < n then i # visited sm n (i + 1 + (sm ! i - 2)) else [])"
  by pat_completeness auto
termination by (relation "measure (\<lambda>(sm, n, i). n - i)") auto

declare visited.simps [simp del]

lemma visited_ge: "j \<in> set (visited sm n i) \<Longrightarrow> i \<le> j \<and> j < n"
proof (induction sm n i rule: visited.induct)
  case (1 sm n i)
  show ?case
  proof (cases "i < n")
    case True
    with "1.prems" have "j = i \<or> j \<in> set (visited sm n (i + 1 + (sm ! i - 2)))"
      by (simp add: visited.simps [of sm n i])
    then show ?thesis
    proof
      assume "j \<in> set (visited sm n (i + 1 + (sm ! i - 2)))"
      from "1.IH" [OF True this] show ?thesis by simp
    qed (use True in simp)
  next
    case False
    with "1.prems" show ?thesis by (simp add: visited.simps [of sm n i])
  qed
qed

lemma visited_cong:
  "(\<And>j. i \<le> j \<Longrightarrow> sm ! j = sm' ! j) \<Longrightarrow> visited sm n i = visited sm' n i"
proof (induction sm n i rule: visited.induct)
  case (1 sm n i)
  then show ?case by (simp add: visited.simps [of sm n i] visited.simps [of sm' n i])
qed

text \<open>After the first loop: the omitted position was visited and is no run, runs start at visited
  positions only, and bit widths are at most 12.\<close>

definition runs_ok :: "nat \<Rightarrow> nat \<Rightarrow> logcounts_state \<Rightarrow> bool" where
  "runs_ok n i st \<longleftrightarrow> length (same st) = n \<and> length (logcounts st) = n \<and>
     (\<forall>j < n. i \<le> j \<longrightarrow> same st ! j \<noteq> 0 \<longrightarrow> j \<in> set (visited (same st) n i) \<and> 5 \<le> same st ! j) \<and>
     (\<forall>j < n. logcounts st ! j \<le> 12)"

lemma logcount_huff_le: "idx < 128 \<Longrightarrow> snd (logcount_huff ! idx) - 1 \<le> 12"
proof -
  have "list_all (\<lambda>p. snd p \<le> 13) logcount_huff" by (simp add: logcount_huff_def)
  moreover have "length logcount_huff = 128" by (simp add: logcount_huff_def)
  moreover assume "idx < 128"
  ultimately show ?thesis by (simp add: list_all_length)
qed

lemma read_logcounts_inv:
  assumes "read_logcounts n i st br = (st', br')"
    and "length (same st) = n" "length (logcounts st) = n" "\<forall>j < n. i \<le> j \<longrightarrow> same st ! j = 0"
    and "\<forall>j < n. logcounts st ! j \<le> 12" and "omit_log st \<le> 11"
  shows "runs_ok n i st'" and "\<forall>j < i. same st' ! j = same st ! j" and "omit_log st' \<le> 11"
    and "omit_pos st' = omit_pos st \<or>
      (\<exists>p. omit_pos st' = int p \<and> p \<in> set (visited (same st') n i) \<and> same st' ! p = 0)"
proof -
  have "runs_ok n i st' \<and> (\<forall>j < i. same st' ! j = same st ! j) \<and> omit_log st' \<le> 11 \<and>
    (omit_pos st' = omit_pos st \<or>
      (\<exists>p. omit_pos st' = int p \<and> p \<in> set (visited (same st') n i) \<and> same st' ! p = 0))"
    using assms
  proof (induction n i st br rule: read_logcounts.induct)
    case (1 n i st br)
    show ?case
    proof (cases "i < n")
      case False
      then show ?thesis using "1.prems"
        by (auto simp: read_logcounts.simps [of n i] runs_ok_def)
    next
      case True
      define idx where "idx = unat (PeekBits 7 (Refill br))"
      define br1 where "br1 = Consume (fst (logcount_huff ! idx)) (Refill br)"
      define code where "code = snd (logcount_huff ! idx) - 1"
      define st1 where "st1 = st\<lparr> logcounts := (logcounts st)[i := code] \<rparr>"
      have "idx < 2 ^ 7" unfolding idx_def by (rule PeekBits_less) simp
      then have code: "code \<le> 12" using logcount_huff_le [of idx] by (simp add: code_def)
      have "logcounts st1 ! j \<le> 12" if "j < n" for j
        using that "1.prems"(3,5) code True by (cases "j = i") (simp_all add: st1_def)
      then have st1: "length (logcounts st1) = n" "\<forall>j < n. logcounts st1 ! j \<le> 12"
        using "1.prems"(3) by (simp_all add: st1_def)
      note unf = read_logcounts.simps [of n i st br, unfolded Let_def, folded idx_def, folded br1_def code_def,
          folded st1_def]
      show ?thesis
      proof (cases "code = 12")
        case rle: True
        obtain rl br2 where dv: "DecodeVarLenUint8 br1 = (rl, br2)" by fastforce
        let ?st2 = "st1\<lparr> same := (same st1)[i := rl + 5] \<rparr>"
        have eq: "read_logcounts n (i + rl + 3 + 1) ?st2 br2 = (st', br')"
          using "1.prems"(1) True rle dv unfolding unf by (simp add: ANS_LOG_TAB_SIZE_def)
        have IH: "runs_ok n (i + rl + 3 + 1) st' \<and> (\<forall>j < i + rl + 3 + 1. same st' ! j = same ?st2 ! j) \<and> omit_log st' \<le> 11 \<and>
          (omit_pos st' = omit_pos ?st2 \<or> (\<exists>p. omit_pos st' = int p \<and>
             p \<in> set (visited (same st') n (i + rl + 3 + 1)) \<and> same st' ! p = 0))"
          by (rule "1.IH"(1) [OF True refl idx_def br1_def code_def st1_def])
            (use rle dv eq st1 "1.prems" in \<open>auto simp: ANS_LOG_TAB_SIZE_def st1_def\<close>)
        have s: "same st' ! i = rl + 5" using IH True "1.prems"(2) by (simp add: st1_def)
        have V: "visited (same st') n i = i # visited (same st') n (i + rl + 3 + 1)"
          using True by (simp add: visited.simps [of "same st'" n i] s add.assoc)
        have z: "same st' ! j = 0" if "i < j" "j < i + rl + 3 + 1" "j < n" for j
          using IH that "1.prems"(2,4) by (simp add: st1_def)
        have "runs_ok n i st'"
          unfolding runs_ok_def
        proof (intro conjI allI impI)
          fix j assume j: "j < n" "i \<le> j" "same st' ! j \<noteq> 0"
          then have "j = i \<or> i + rl + 3 + 1 \<le> j" using z by (metis le_neq_implies_less not_le)
          then show "j \<in> set (visited (same st') n i)" "5 \<le> same st' ! j"
            using IH j s by (auto simp: V runs_ok_def)
        qed (use IH in \<open>auto simp: runs_ok_def\<close>)
        moreover have "\<forall>j < i. same st' ! j = same st ! j" using IH by (simp add: st1_def)
        ultimately show ?thesis using IH V by (auto simp: st1_def)
      next
        case False
        let ?st2 = "if code > omit_log st1 then st1\<lparr> omit_log := code, omit_pos := int i \<rparr> else st1"
        have eq: "read_logcounts n (i + 1) ?st2 br1 = (st', br')"
          using "1.prems"(1) True False unfolding unf by (simp add: ANS_LOG_TAB_SIZE_def split: if_splits)
        have pre: "length (same ?st2) = n" "length (logcounts ?st2) = n" "\<forall>j < n. i + 1 \<le> j \<longrightarrow> same ?st2 ! j = 0"
          "\<forall>j < n. logcounts ?st2 ! j \<le> 12" "omit_log ?st2 \<le> 11"
          using st1 "1.prems" code False by (auto simp: st1_def)
        have IH: "runs_ok n (i + 1) st' \<and> (\<forall>j < i + 1. same st' ! j = same ?st2 ! j) \<and> omit_log st' \<le> 11 \<and>
          (omit_pos st' = omit_pos ?st2 \<or> (\<exists>p. omit_pos st' = int p \<and>
             p \<in> set (visited (same st') n (i + 1)) \<and> same st' ! p = 0))"
        proof (cases "code > omit_log st1")
          case gt: True
          show ?thesis
            using "1.IH"(2) [OF True refl idx_def br1_def code_def st1_def _ gt] False eq pre gt
            by (simp add: ANS_LOG_TAB_SIZE_def)
        next
          case le: False
          show ?thesis
            using "1.IH"(3) [OF True refl idx_def br1_def code_def st1_def _ le] False eq pre le
            by (simp add: ANS_LOG_TAB_SIZE_def)
        qed
        have s: "same st' ! i = 0" using IH True "1.prems"(2,4) by (simp add: st1_def split: if_splits)
        have V: "visited (same st') n i = i # visited (same st') n (i + 1)"
          using True by (simp add: visited.simps [of "same st'" n i] s)
        have "runs_ok n i st'"
          unfolding runs_ok_def
        proof (intro conjI allI impI)
          fix j assume j: "j < n" "i \<le> j" "same st' ! j \<noteq> 0"
          then have "i + 1 \<le> j" using s by (cases "j = i") auto
          then show "j \<in> set (visited (same st') n i)" "5 \<le> same st' ! j"
            using IH j by (auto simp: V runs_ok_def)
        qed (use IH in \<open>auto simp: runs_ok_def\<close>)
        moreover have "\<forall>j < i. same st' ! j = same st ! j" using IH by (auto simp: st1_def split: if_splits)
        moreover have "omit_pos ?st2 = omit_pos st \<or> omit_pos ?st2 = int i" by (simp add: st1_def)
        ultimately show ?thesis using IH V s by (auto split: if_splits)
      qed
    qed
  qed
  then show "runs_ok n i st'" "\<forall>j < i. same st' ! j = same st ! j" "omit_log st' \<le> 11"
    "omit_pos st' = omit_pos st \<or>
      (\<exists>p. omit_pos st' = int p \<and> p \<in> set (visited (same st') n i) \<and> same st' ! p = 0)" by blast+
qed

text \<open>The second loop never writes the omitted position, and its total is the sum of the counts.\<close>

definition counts_inv :: "nat \<Rightarrow> logcounts_state \<Rightarrow> nat \<Rightarrow> nat \<Rightarrow> counts_state \<Rightarrow> bool" where
  "counts_inv n lc p i st \<longleftrightarrow>
     length (hcounts st) = n \<and> (\<forall>j < n. 0 \<le> hcounts st ! j) \<and> hcounts st ! p = 0 \<and>
     (\<forall>j < n. i \<le> j \<longrightarrow> hcounts st ! j = 0) \<and> total_count st = sum_list (hcounts st) \<and> 0 \<le> prev st \<and>
     (p < i \<or> p \<in> set (visited (same lc) n (i + numsame st))) \<and>
     (\<forall>j < n. i \<le> j \<longrightarrow> j < i + numsame st \<longrightarrow> same lc ! j = 0) \<and>
     (\<forall>j < n. i + numsame st \<le> j \<longrightarrow> same lc ! j \<noteq> 0 \<longrightarrow>
        j \<in> set (visited (same lc) n (i + numsame st)) \<and> 5 \<le> same lc ! j)"

lemma sum_list_fill: "i < length xs \<Longrightarrow> xs ! i = 0 \<Longrightarrow> sum_list (xs[i := c]) = sum_list xs + (c :: int)"
proof (induction xs arbitrary: i)
  case (Cons x xs)
  then show ?case by (cases i) simp_all
qed simp

lemma counts_inv_write:
  assumes "counts_inv n lc p i st" and "i < n" and "i \<noteq> p" and "0 \<le> c" and "0 \<le> pr"
    and "p < Suc i \<or> p \<in> set (visited (same lc) n (Suc i + m))"
    and "\<forall>j < n. Suc i \<le> j \<longrightarrow> j < Suc i + m \<longrightarrow> same lc ! j = 0"
    and "\<forall>j < n. Suc i + m \<le> j \<longrightarrow> same lc ! j \<noteq> 0 \<longrightarrow>
        j \<in> set (visited (same lc) n (Suc i + m)) \<and> 5 \<le> same lc ! j"
  shows "counts_inv n lc p (Suc i) (st\<lparr> hcounts := (hcounts st)[i := c], total_count := total_count st + c,
    prev := pr, numsame := m \<rparr>)"
  using assms unfolding counts_inv_def
  by (auto simp: sum_list_fill nth_list_update)

lemma read_count_inv:
  assumes inv: "counts_inv n lc p i st" and i: "i < n" and p: "p < n" "same lc ! p = 0" "omit_pos lc = int p"
    and rc: "read_count shift lc (st, br) i = (st', br')"
  shows "counts_inv n lc p (Suc i) st'"
proof -
  have h: "length (hcounts st) = n" "\<forall>j < n. 0 \<le> hcounts st ! j" "0 \<le> prev st"
    and vp: "p < i \<or> p \<in> set (visited (same lc) n (i + numsame st))"
    and z: "\<forall>j < n. i \<le> j \<longrightarrow> j < i + numsame st \<longrightarrow> same lc ! j = 0"
    and R: "\<forall>j < n. i + numsame st \<le> j \<longrightarrow> same lc ! j \<noteq> 0 \<longrightarrow>
        j \<in> set (visited (same lc) n (i + numsame st)) \<and> 5 \<le> same lc ! j"
    using inv by (simp_all add: counts_inv_def)
  have V: "visited (same lc) n i = i # visited (same lc) n (i + 1 + (same lc ! i - 2))"
    using i by (simp add: visited.simps [of "same lc" n i])
  show ?thesis
  proof (cases "same lc ! i = 0")
    case False
    have ns: "numsame st = 0" using z i False by (metis add_less_cancel_left add_cancel_left_right bot_nat_0.not_eq_extremum le_refl)
    define m where "m = same lc ! i - 2"
    have m: "same lc ! i = Suc (Suc m)" using R i False ns by (auto simp: m_def)
    define pr where "pr = (if i > 0 then hcounts st ! (i - 1) else 0)"
    have pr: "0 \<le> pr" using h i by (simp add: pr_def)
    have "i \<noteq> p" using p(2) False by auto
    have "st' = st\<lparr> hcounts := (hcounts st)[i := pr], total_count := total_count st + pr, prev := pr, numsame := m \<rparr>"
      using rc unfolding pr_def [symmetric]
      by (auto simp: read_count_def Let_def pr_def m)
    moreover have "counts_inv n lc p (Suc i) \<dots>"
    proof (rule counts_inv_write [OF inv i \<open>i \<noteq> p\<close> pr pr])
      show "p < Suc i \<or> p \<in> set (visited (same lc) n (Suc i + m))"
        using vp V \<open>i \<noteq> p\<close> by (auto simp: ns m_def)
      show "\<forall>j < n. Suc i \<le> j \<longrightarrow> j < Suc i + m \<longrightarrow> same lc ! j = 0"
      proof (intro allI impI, rule ccontr)
        fix j assume j: "j < n" "Suc i \<le> j" "j < Suc i + m" "same lc ! j \<noteq> 0"
        then have "j \<in> set (visited (same lc) n (Suc i + m))" using R ns V by (auto simp: m_def)
        from visited_ge [OF this] j show False by simp
      qed
      show "\<forall>j < n. Suc i + m \<le> j \<longrightarrow> same lc ! j \<noteq> 0 \<longrightarrow>
          j \<in> set (visited (same lc) n (Suc i + m)) \<and> 5 \<le> same lc ! j"
        using R ns V by (auto simp: m_def)
    qed
    ultimately show ?thesis by simp
  next
    case same0: True
    show ?thesis
    proof (cases "numsame st > 0")
      case True
      then have "i \<noteq> p" using vp visited_ge [of p "same lc" n "i + numsame st"] by auto
      have "st' = st\<lparr> hcounts := (hcounts st)[i := prev st], total_count := total_count st + prev st,
          prev := prev st, numsame := numsame st - 1 \<rparr>"
        using rc same0 True by (auto simp: read_count_def Let_def)
      moreover have "counts_inv n lc p (Suc i) \<dots>"
        by (rule counts_inv_write [OF inv i \<open>i \<noteq> p\<close> h(3,3)]) (use vp z R True in auto)
      ultimately show ?thesis by simp
    next
      case False
      then have ns: "numsame st = 0" by simp
      have vp': "p < Suc i \<or> p \<in> set (visited (same lc) n (Suc i))" using vp V same0 by (auto simp: ns)
      have R': "\<forall>j < n. Suc i \<le> j \<longrightarrow> same lc ! j \<noteq> 0 \<longrightarrow>
          j \<in> set (visited (same lc) n (Suc i)) \<and> 5 \<le> same lc ! j"
        using R V same0 by (auto simp: ns)
      show ?thesis
      proof (cases "int i = omit_pos lc \<or> logcounts lc ! i < 0")
        case True
        then have "st' = st" using rc same0 ns by (simp add: read_count_def Let_def)
        then show ?thesis using inv vp' R' by (simp add: counts_inv_def ns)
      next
        case go: False
        define cb where "cb = (if shift = 0 \<or> logcounts lc ! i = 0 then (2 ^ nat (logcounts lc ! i), br)
            else (let bitcount = GetPopulationCountPrecision (nat (logcounts lc ! i)) shift
                  in case ReadBits bitcount br of (v, br) \<Rightarrow>
                       (2 ^ nat (logcounts lc ! i) + int (unat v) * 2 ^ (nat (logcounts lc ! i) - bitcount), br)))"
        have "0 \<le> fst cb" by (auto simp: cb_def Let_def split: prod.splits)
        have "i \<noteq> p" using go p(3) by auto
        have "st' = st\<lparr> hcounts := (hcounts st)[i := fst cb], total_count := total_count st + fst cb,
            prev := prev st, numsame := 0 \<rparr>"
          using rc same0 ns go unfolding read_count_def Let_def prod.case
          by (auto simp: cb_def Let_def split: prod.splits if_splits)
        moreover have "counts_inv n lc p (Suc i) \<dots>"
          by (rule counts_inv_write [OF inv i \<open>i \<noteq> p\<close> \<open>0 \<le> fst cb\<close> h(3)]) (use vp' R' in auto)
        ultimately show ?thesis by simp
      qed
    qed
  qed
qed

lemma read_counts_inv:
  assumes p: "p < n" "same lc ! p = 0" "omit_pos lc = int p"
  shows "counts_inv n lc p i st \<Longrightarrow> i \<le> n \<Longrightarrow> foldl (read_count shift lc) (st, br) [i..<n] = (st', br') \<Longrightarrow>
    counts_inv n lc p n st'"
proof (induction "n - i" arbitrary: i st br)
  case 0
  then show ?case by simp
next
  case (Suc k)
  then have i: "i < n" by simp
  then have up: "[i..<n] = i # [Suc i..<n]" by (simp add: upt_conv_Cons)
  obtain st1 br1 where rc: "read_count shift lc (st, br) i = (st1, br1)" by fastforce
  from read_count_inv [OF Suc.prems(1) i p rc] have "counts_inv n lc p (Suc i) st1" .
  moreover have "foldl (read_count shift lc) (st1, br1) [Suc i..<n] = (st', br')"
    using Suc.prems(3) rc by (simp add: up)
  ultimately show ?case using Suc.hyps i by (intro Suc.hyps(1)) simp_all
qed

lemma CreateFlatHistogram_valid:
  assumes "0 < n" and "n \<le> t"
  shows "\<forall>x \<in> set (CreateFlatHistogram n t). 0 \<le> x" and "sum_list (CreateFlatHistogram n t) = int t"
    and "length (CreateFlatHistogram n t) = n"
proof -
  let ?q = "t div n" and ?r = "t mod n"
  have r: "?r < n" using assms(1) by simp
  have "?r * (?q + 1) + (n - ?r) * ?q = (?r + (n - ?r)) * ?q + ?r" by (simp only: algebra_simps)
  also have "\<dots> = n * ?q + ?r" using r by simp
  finally have "?r * (?q + 1) + (n - ?r) * ?q = t" by simp
  then have "int (?r * (?q + 1) + (n - ?r) * ?q) = int t" by (rule arg_cong)
  then have "int ?r * (int ?q + 1) + int (n - ?r) * int ?q = int t"
    by (simp only: of_nat_add of_nat_mult of_nat_1)
  then show "sum_list (CreateFlatHistogram n t) = int t"
    unfolding CreateFlatHistogram_eq [OF assms(1)] sum_list_append sum_list_replicate .
  show "length (CreateFlatHistogram n t) = n" using r by (simp add: CreateFlatHistogram_eq [OF assms(1)])
  show "\<forall>x \<in> set (CreateFlatHistogram n t). 0 \<le> x" by (auto simp: CreateFlatHistogram_eq [OF assms(1)])
qed

lemma sum_list_replicate_update:
  "i < n \<Longrightarrow> sum_list ((replicate n 0)[i := c]) = (c :: int)"
  by (simp add: sum_list_fill sum_list_replicate)

lemma ReadHistogram_cases:
  assumes "ReadHistogram ANS_LOG_TAB_SIZE br = (Inr counts, br')"
  shows "(\<forall>x \<in> set counts. 0 \<le> x) \<and> sum_list counts = 4096 \<and> length counts \<le> 258"
proof -
  obtain sc br1 where 1: "ReadBits 1 br = (sc, br1)" by fastforce
  obtain b br2 where 2: "ReadBits 1 br1 = (b, br2)" by fastforce
  obtain n br3 where 3: "DecodeVarLenUint8 br2 = (n, br3)" by fastforce
  have range: "(2::nat) ^ ANS_LOG_TAB_SIZE = 4096" by (simp add: ANS_LOG_TAB_SIZE_def)
  have vl: "m \<le> 255" if "DecodeVarLenUint8 x = (m, y)" for m x y
    using decode_varlen_range [of 3 x m y] that by (simp add: varlen_unify)
  show ?thesis
  proof (cases "sc = 1")
    case simple: True
    show ?thesis
    proof (cases "b = 0")
      case True
      then have "counts = (replicate (n + 1) 0)[n := 4096]"
        using assms simple 1 2 3 by (simp add: ReadHistogram_def Let_def range)
      then show ?thesis using vl [OF 3]
        by (auto simp: sum_list_replicate_update in_set_conv_nth nth_list_update simp del: replicate_Suc replicate.simps)
    next
      case False
      obtain s1 br4 where 4: "DecodeVarLenUint8 br3 = (s1, br4)" by fastforce
      obtain c br5 where 5: "ReadBits ANS_LOG_TAB_SIZE br4 = (c, br5)" by fastforce
      have c: "unat c < 4096" using ReadBits_less [OF _ 5] by (simp add: ANS_LOG_TAB_SIZE_def)
      then have "int (unat c) \<le> 4096" by linarith
      then have uc: "uint c \<le> 4096" by simp
      have cs: "n \<noteq> s1" "counts = (replicate (max n s1 + 1) 0)[n := int (unat c), s1 := 4096 - int (unat c)]"
        using assms simple False 1 2 3 4 5 by (auto simp: ReadHistogram_def Let_def range split: if_splits)
      have "sum_list counts = sum_list ((replicate (max n s1 + 1) 0)[n := int (unat c)]) + (4096 - int (unat c))"
        unfolding cs(2) using cs(1) by (intro sum_list_fill) (simp_all add: nth_list_update del: replicate_Suc)
      also have "\<dots> = 4096" by (subst sum_list_replicate_update) simp_all
      finally have "sum_list counts = 4096" .
      moreover have "0 \<le> x" if "x \<in> set counts" for x
      proof -
        have "0 \<le> counts ! i" if "i < length counts" for i
          using that cs(1) uc unfolding cs(2) by (simp add: nth_list_update del: replicate_Suc)
        with \<open>x \<in> set counts\<close> show ?thesis by (auto simp: in_set_conv_nth)
      qed
      moreover have "length counts \<le> 258"
        unfolding cs(2) length_list_update length_replicate using vl [OF 3] vl [OF 4] by simp
      ultimately show ?thesis by blast
    qed
  next
    case notsimple: False
    show ?thesis
    proof (cases "b = 1")
      case True
      then have "counts = CreateFlatHistogram (n + 1) 4096"
        using assms notsimple 1 2 3 vl [OF 3] by (simp add: ReadHistogram_def Let_def range)
      then show ?thesis using CreateFlatHistogram_valid [of "n + 1" 4096] vl [OF 3] by simp
    next
      case False
      obtain lg br3 where 3: "read_shift_log (FloorLog2Nonzero (ANS_LOG_TAB_SIZE + 1)) 0 br2 = (lg, br3)" by fastforce
      obtain v br4 where 4: "ReadBits lg br3 = (v, br4)" by fastforce
      obtain n br5 where 5: "DecodeVarLenUint8 br4 = (n, br5)" by fastforce
      define len where "len = n + 3"
      define shift where "shift = (unat v OR 2 ^ lg) - 1"
      let ?st0 = "\<lparr> logcounts = replicate len 0, same = replicate len 0, omit_log = - 1, omit_pos = - 1 \<rparr>"
      obtain lc br6 where 6: "read_logcounts len 0 ?st0 br5 = (lc, br6)" by fastforce
      let ?cs0 = "\<lparr> hcounts = replicate len 0, total_count = 0, prev = 0, numsame = 0 \<rparr>"
      obtain st br7 where 7: "foldl (read_count shift lc) (?cs0, br6) [0..<len] = (st, br7)" by fastforce
      have A: "\<not> omit_pos lc < 0" "0 < 4096 - total_count st"
        "counts = (hcounts st)[nat (omit_pos lc) := 4096 - total_count st]"
        using assms notsimple False 1 2 3 4 5 6 7
        unfolding ReadHistogram_def Let_def range
        by (auto simp: len_def [symmetric] shift_def [symmetric, simplified]
            simp del: replicate.simps split: if_splits)
      note L = read_logcounts_inv [OF 6, simplified]
      have runs: "runs_ok len 0 lc" and op: "omit_pos lc = - 1 \<or>
          (\<exists>p. omit_pos lc = int p \<and> p \<in> set (visited (same lc) len 0) \<and> same lc ! p = 0)"
        using L by simp_all
      from op A(1) obtain p where p: "omit_pos lc = int p" "p \<in> set (visited (same lc) len 0)" "same lc ! p = 0" by auto
      have pl: "p < len" using visited_ge [OF p(2)] by simp
      have "counts_inv len lc p 0 ?cs0"
        using runs p pl by (auto simp: counts_inv_def runs_ok_def sum_list_replicate)
      from read_counts_inv [OF pl p(3,1) this _ 7] have inv: "counts_inv len lc p len st" by simp
      have cs: "counts = (hcounts st)[p := 4096 - total_count st]" using A(3) p(1) by simp
      have h: "length (hcounts st) = len" "hcounts st ! p = 0" "total_count st = sum_list (hcounts st)"
        "\<forall>j < len. 0 \<le> hcounts st ! j" using inv by (simp_all add: counts_inv_def)
      have "sum_list counts = 4096" unfolding cs using h pl by (simp add: sum_list_fill)
      moreover have "0 \<le> x" if "x \<in> set counts" for x
      proof -
        have "0 \<le> counts ! i" if "i < length counts" for i
          using that h A(2) pl unfolding cs by (simp add: nth_list_update)
        with \<open>x \<in> set counts\<close> show ?thesis by (auto simp: in_set_conv_nth)
      qed
      moreover have "length counts \<le> 258" using h(1) vl [OF 5] by (simp add: cs len_def)
      ultimately show ?thesis by blast
    qed
  qed
qed

text \<open>C16: Whatever bits the stream holds, a histogram that \<open>ReadHistogram\<close> accepts is a valid distribution:
  its counts are nonnegative and add up to 4096 (repeated runs and the omitted count included), and it
  has at most 258 entries.  Therefore the alias table construction accepts it, over any memory, whenever the symbols that occur fit the
  alphabet of \<open>2 ^ la\<close> symbols, and rejects it otherwise.\<close>

theorem ReadHistogram_valid:
  assumes "ReadHistogram ANS_LOG_TAB_SIZE br = (Inr counts, br')"
  shows "(\<forall>x \<in> set counts. 0 \<le> x) \<and> sum_list counts = 4096 \<and> length counts \<le> 258 \<and>
    (\<forall>la a. 4 \<le> la \<and> la \<le> 8 \<and> 2 ^ la \<le> length a \<longrightarrow>
      (if length (trim_zeros counts) \<le> 2 ^ la then \<exists>tab. InitAliasTable counts ANS_LOG_TAB_SIZE la a = Inr tab
       else InitAliasTable counts ANS_LOG_TAB_SIZE la a = Inl kGenericError))"
proof -
  have valid: "(\<forall>x \<in> set counts. 0 \<le> x) \<and> sum_list counts = 4096 \<and> length counts \<le> 258"
    by (rule ReadHistogram_cases [OF assms])
  have "\<exists>tab. InitAliasTable counts ANS_LOG_TAB_SIZE la a = Inr tab"
    if "length (trim_zeros counts) \<le> 2 ^ la" "4 \<le> la" "la \<le> 8" "2 ^ la \<le> length a" for la and a :: "Entry list"
    using InitAliasTable_ok [of counts la a] valid that by metis
  moreover have "InitAliasTable counts ANS_LOG_TAB_SIZE la a = Inl kGenericError" if "\<not> length (trim_zeros counts) \<le> 2 ^ la" for la and a :: "Entry list"
    using that by (auto simp: InitAliasTable_def Let_def)
  ultimately show ?thesis using valid by simp
qed

section \<open>Flat and small histograms round trip\<close>

text \<open>The counts that the header of a flat or a small histogram stands for.\<close>

definition small_counts :: "ANSEncodingHistogram \<Rightarrow> int list" where
  "small_counts h =
     (if eh_method h = 0 then CreateFlatHistogram (eh_alphabet_size h) 4096
      else if eh_num_symbols h = 0 then [4096]
      else if eh_num_symbols h = 1 then (replicate (eh_symbols h ! 0 + 1) 0)[eh_symbols h ! 0 := 4096]
      else (let a = eh_symbols h ! 0; b = eh_symbols h ! 1; c = int (eh_counts h ! a)
            in (replicate (max a b + 1) 0)[a := c, b := 4096 - c]))"

definition small_histogram :: "ANSEncodingHistogram \<Rightarrow> bool" where
  "small_histogram h \<longleftrightarrow> eh_alphabet_size h \<le> 256 \<and>
     (if eh_method h = 0 then 0 < eh_alphabet_size h
      else eh_num_symbols h \<le> 2 \<and> (\<forall>i < eh_num_symbols h. eh_symbols h ! i \<le> 255) \<and>
        (eh_num_symbols h = 2 \<longrightarrow> eh_symbols h ! 0 \<noteq> eh_symbols h ! 1 \<and> eh_counts h ! (eh_symbols h ! 0) < 4096))"

definition small_code :: "ANSEncodingHistogram \<Rightarrow> bool list" where
  "small_code h =
     (if eh_method h = 0
      then bits_of 1 (0 :: u64) @ bits_of 1 (1 :: u64) @ varlen_code 3 (eh_alphabet_size h - 1)
      else if eh_num_symbols h = 0
      then bits_of 1 (1 :: u64) @ bits_of 1 (0 :: u64) @ varlen_code 3 0
      else if eh_num_symbols h = 1
      then bits_of 1 (1 :: u64) @ bits_of 1 (0 :: u64) @ varlen_code 3 (eh_symbols h ! 0)
      else bits_of 1 (1 :: u64) @ bits_of 1 (1 :: u64) @ varlen_code 3 (eh_symbols h ! 0) @
           varlen_code 3 (eh_symbols h ! 1) @ nat_bits 12 (eh_counts h ! (eh_symbols h ! 0)))"

lemma drop_bit_1_1: "drop_bit 1 (1 :: u64) = 0"
  by (simp add: drop_bit_eq_div)

text \<open>Sequential composition in the direction in which the encoder passes its writer.\<close>

lemma emits_then:
  assumes "writer.emits (\<lambda>w. (True, f w)) bs" and "writer.emits g cs"
  shows "writer.emits (\<lambda>w. g (f w)) (bs @ cs)"
  using writer.emits_seq [OF assms] by (simp add: case_prod_unfold)

lemma emits_wr_eq: "n \<le> 56 \<Longrightarrow> drop_bit n v = 0 \<Longrightarrow> bs = bits_of n v \<Longrightarrow> writer.emits (\<lambda>w. (True, Write n v w)) bs"
  using writer.emits_wr by simp

lemma EncodeHistogram_small_emits:
  assumes "small_histogram h"
  shows "writer.emits (EncodeHistogram h) (small_code h)"
proof -
  note st = store_varlen_emits [of _ 3, simplified, folded varlen_unify]
  have w0: "writer.emits (\<lambda>w. (True, Write 1 0 w)) (bits_of 1 (0 :: u64))"
    and w1: "writer.emits (\<lambda>w. (True, Write 1 1 w)) (bits_of 1 (1 :: u64))"
    using drop_bit_1_1 by (auto intro!: emits_wr_eq)
  have as: "eh_alphabet_size h \<le> 256" using assms by (simp add: small_histogram_def)
  consider (flat) "eh_method h = 0" | (n0) "eh_method h \<noteq> 0" "eh_num_symbols h = 0"
    | (n1) "eh_method h \<noteq> 0" "eh_num_symbols h = 1" | (n2) "eh_method h \<noteq> 0" "eh_num_symbols h = 2"
    using assms by (fastforce simp: small_histogram_def)
  then show ?thesis
  proof cases
    case flat
    then have "0 < eh_alphabet_size h" "eh_alphabet_size h - 1 < 256" using assms as by (auto simp: small_histogram_def)
    from emits_then [OF w0 emits_then [OF w1 st [OF this(2)]]] flat as this(1) show ?thesis
      by (simp add: EncodeHistogram_def [abs_def] small_code_def Let_def)
  next
    case n0
    have "writer.emits (\<lambda>w. (True, StoreVarLenUint8 0 w)) (varlen_code 3 0)" by (rule st) simp
    from emits_then [OF w1 emits_then [OF w0 this]] n0 as show ?thesis
      by (simp add: EncodeHistogram_def [abs_def] small_code_def Let_def kMaxNumSymbolsForSmallCode_def)
  next
    case n1
    then have "eh_symbols h ! 0 < 256" using assms by (simp add: small_histogram_def)
    from emits_then [OF w1 emits_then [OF w0 st [OF this]]] n1 as show ?thesis
      by (simp add: EncodeHistogram_def [abs_def] small_code_def Let_def kMaxNumSymbolsForSmallCode_def)
  next
    case n2
    then have s: "eh_symbols h ! 0 < 256" "eh_symbols h ! 1 < 256" "eh_counts h ! (eh_symbols h ! 0) < 2 ^ 12"
    proof -
      have sy: "\<forall>i < 2. eh_symbols h ! i \<le> 255" and "eh_counts h ! (eh_symbols h ! 0) < 4096"
        using assms n2 by (simp_all add: small_histogram_def)
      then show "eh_counts h ! (eh_symbols h ! 0) < 2 ^ 12" by simp
      have "eh_symbols h ! 0 \<le> 255" "eh_symbols h ! 1 \<le> 255" using sy [rule_format, of 0] sy [rule_format, of 1] by simp_all
      then show "eh_symbols h ! 0 < 256" "eh_symbols h ! 1 < 256" by linarith+
    qed
    have "drop_bit 12 (of_nat (eh_counts h ! (eh_symbols h ! 0)) :: u64) = 0"
      using s(3) by (simp add: drop_bit_0_unat unsigned_of_nat take_bit_nat_eq_self)
    then have "writer.emits (\<lambda>w. (True, Write 12 (of_nat (eh_counts h ! (eh_symbols h ! 0))) w))
        (nat_bits 12 (eh_counts h ! (eh_symbols h ! 0)))"
      by (intro emits_wr_eq) (simp_all add: nat_bits_def)
    from emits_then [OF w1 emits_then [OF w1 emits_then [OF st [OF s(1)] emits_then [OF st [OF s(2)] this]]]] n2 as
    show ?thesis
      by (simp add: EncodeHistogram_def [abs_def] small_code_def Let_def kMaxNumSymbolsForSmallCode_def
          ANS_LOG_TAB_SIZE_def numeral_2_eq_2)
  qed
qed

text \<open>One step of a reader along a known stream.\<close>

lemma parses_step:
  assumes "reader.parses p bs v" and "br_ok s" and "begins (upcoming s) (bs @ cs)"
  obtains t where "p s = (v, t)" "reader.advanced s t (length bs)" "br_ok t" "begins (upcoming t) cs"
proof -
  have "begins (upcoming s) bs" using assms(3) by (simp add: begins_append)
  with assms obtain t where t: "p s = (v, t)" "reader.advanced s t (length bs)" by (meson reader.parsesD)
  moreover have "br_ok t" using t(2) by (simp add: reader.advanced_def)
  moreover have "begins (upcoming t) cs" using reader.advanced_begins [OF t(2) assms(3)] .
  ultimately show ?thesis using that by blast
qed

lemma parses_bit: "reader.parses (ReadBits 1) (bits_of 1 (0 :: u64)) 0" "reader.parses (ReadBits 1) (bits_of 1 (1 :: u64)) 1"
  using reader.parses_rd [of 1 0] reader.parses_rd [of 1 1] drop_bit_1_1 by simp_all

lemma ReadHistogram_small_parses:
  assumes "small_histogram h"
  shows "reader.parses (ReadHistogram 12) (small_code h) (Inr (small_counts h))"
proof -
  have vl: "reader.parses DecodeVarLenUint8 (varlen_code 3 n) n" if "n < 256" for n
    using decode_varlen_parses [of n 3] that by (simp add: varlen_unify)
  have as: "eh_alphabet_size h \<le> 256" using assms by (simp add: small_histogram_def)
  consider (flat) "eh_method h = 0" | (one) "eh_method h \<noteq> 0" "eh_num_symbols h < 2"
    | (two) "eh_method h \<noteq> 0" "eh_num_symbols h = 2"
    using assms by (fastforce simp: small_histogram_def)
  then show ?thesis
  proof cases
    case flat
    then have n: "0 < eh_alphabet_size h" "eh_alphabet_size h - 1 < 256" using assms as by (auto simp: small_histogram_def)
    show ?thesis
      unfolding reader.parses_def
    proof (intro allI impI)
      fix s assume s: "br_ok s" "begins (upcoming s) (small_code h)"
      have c: "small_code h = bits_of 1 (0 :: u64) @ bits_of 1 (1 :: u64) @ varlen_code 3 (eh_alphabet_size h - 1) @ []"
        using flat by (simp add: small_code_def)
      obtain s1 where 1: "ReadBits 1 s = (0, s1)" "reader.advanced s s1 (length (bits_of 1 (0 :: u64)))" "br_ok s1"
        "begins (upcoming s1) (bits_of 1 (1 :: u64) @ varlen_code 3 (eh_alphabet_size h - 1) @ [])"
        using parses_step [OF parses_bit(1) s(1) s(2) [unfolded c]] by blast
      obtain s2 where 2: "ReadBits 1 s1 = (1, s2)" "reader.advanced s1 s2 (length (bits_of 1 (1 :: u64)))" "br_ok s2"
        "begins (upcoming s2) (varlen_code 3 (eh_alphabet_size h - 1) @ [])"
        using parses_step [OF parses_bit(2) 1(3,4)] by blast
      obtain s3 where 3: "DecodeVarLenUint8 s2 = (eh_alphabet_size h - 1, s3)"
        "reader.advanced s2 s3 (length (varlen_code 3 (eh_alphabet_size h - 1)))"
        using parses_step [OF vl [OF n(2)] 2(3,4)] by blast
      have "ReadHistogram 12 s = (Inr (small_counts h), s3)"
        using 1 2 3 flat n as by (simp add: ReadHistogram_def Let_def small_counts_def)
      moreover have "reader.advanced s s3 (length (small_code h))"
        using reader.advanced_trans [OF 1(2) reader.advanced_trans [OF 2(2) 3(2)]] by (simp add: c)
      ultimately show "\<exists>t. ReadHistogram 12 s = (Inr (small_counts h), t) \<and> reader.advanced s t (length (small_code h))"
        by blast
    qed
  next
    case one
    define y where "y = (if eh_num_symbols h = 0 then 0 else eh_symbols h ! 0)"
    have y: "y < 256" using assms one by (auto simp: small_histogram_def y_def)
    show ?thesis
      unfolding reader.parses_def
    proof (intro allI impI)
      fix s assume s: "br_ok s" "begins (upcoming s) (small_code h)"
      have c: "small_code h = bits_of 1 (1 :: u64) @ bits_of 1 (0 :: u64) @ varlen_code 3 y @ []"
        using one by (auto simp: small_code_def y_def)
      obtain s1 where 1: "ReadBits 1 s = (1, s1)" "reader.advanced s s1 (length (bits_of 1 (1 :: u64)))" "br_ok s1"
        "begins (upcoming s1) (bits_of 1 (0 :: u64) @ varlen_code 3 y @ [])"
        using parses_step [OF parses_bit(2) s(1) s(2) [unfolded c]] by blast
      obtain s2 where 2: "ReadBits 1 s1 = (0, s2)" "reader.advanced s1 s2 (length (bits_of 1 (0 :: u64)))" "br_ok s2"
        "begins (upcoming s2) (varlen_code 3 y @ [])"
        using parses_step [OF parses_bit(1) 1(3,4)] by blast
      obtain s3 where 3: "DecodeVarLenUint8 s2 = (y, s3)" "reader.advanced s2 s3 (length (varlen_code 3 y))"
        using parses_step [OF vl [OF y] 2(3,4)] by blast
      have "small_counts h = (replicate (y + 1) 0)[y := 4096]"
        using one by (cases "eh_num_symbols h = 0") (simp add: small_counts_def y_def,
            simp add: small_counts_def y_def del: replicate_Suc)
      moreover have "ReadHistogram 12 s = (Inr ((replicate (y + 1) 0)[y := 4096]), s3)"
        using 1 2 3 by (simp add: ReadHistogram_def Let_def del: replicate_Suc)
      ultimately have "ReadHistogram 12 s = (Inr (small_counts h), s3)" by simp
      moreover have "reader.advanced s s3 (length (small_code h))"
        using reader.advanced_trans [OF 1(2) reader.advanced_trans [OF 2(2) 3(2)]] by (simp add: c)
      ultimately show "\<exists>t. ReadHistogram 12 s = (Inr (small_counts h), t) \<and> reader.advanced s t (length (small_code h))"
        by blast
    qed
  next
    case two
    let ?a = "eh_symbols h ! 0" and ?b = "eh_symbols h ! 1"
    let ?c = "eh_counts h ! ?a"
    have sy: "\<forall>i < 2. eh_symbols h ! i \<le> 255" and ab: "?a \<noteq> ?b" "?c < 4096"
      using assms two by (simp_all add: small_histogram_def)
    have y: "?a < 256" "?b < 256" using sy [rule_format, of 0] sy [rule_format, of 1] by simp_all
    have uc: "unat (of_nat ?c :: u64) = ?c" using ab(2) by (simp add: unsigned_of_nat take_bit_nat_eq_self)
    have "drop_bit 12 (of_nat ?c :: u64) = 0" using ab(2) unfolding drop_bit_0_unat uc by simp
    then have rc: "reader.parses (ReadBits 12) (nat_bits 12 ?c) (of_nat ?c)"
      using reader.parses_rd [of 12 "of_nat ?c"] by (simp add: nat_bits_def)
    show ?thesis
      unfolding reader.parses_def
    proof (intro allI impI)
      fix s assume s: "br_ok s" "begins (upcoming s) (small_code h)"
      have c: "small_code h = bits_of 1 (1 :: u64) @ bits_of 1 (1 :: u64) @ varlen_code 3 ?a @ varlen_code 3 ?b @
          nat_bits 12 ?c @ []" using two by (simp add: small_code_def)
      obtain s1 where 1: "ReadBits 1 s = (1, s1)" "reader.advanced s s1 (length (bits_of 1 (1 :: u64)))" "br_ok s1"
        "begins (upcoming s1) (bits_of 1 (1 :: u64) @ varlen_code 3 ?a @ varlen_code 3 ?b @ nat_bits 12 ?c @ [])"
        using parses_step [OF parses_bit(2) s(1) s(2) [unfolded c]] by blast
      obtain s2 where 2: "ReadBits 1 s1 = (1, s2)" "reader.advanced s1 s2 (length (bits_of 1 (1 :: u64)))" "br_ok s2"
        "begins (upcoming s2) (varlen_code 3 ?a @ varlen_code 3 ?b @ nat_bits 12 ?c @ [])"
        using parses_step [OF parses_bit(2) 1(3,4)] by blast
      obtain s3 where 3: "DecodeVarLenUint8 s2 = (?a, s3)" "reader.advanced s2 s3 (length (varlen_code 3 ?a))" "br_ok s3"
        "begins (upcoming s3) (varlen_code 3 ?b @ nat_bits 12 ?c @ [])"
        using parses_step [OF vl [OF y(1)] 2(3,4)] by blast
      obtain s4 where 4: "DecodeVarLenUint8 s3 = (?b, s4)" "reader.advanced s3 s4 (length (varlen_code 3 ?b))" "br_ok s4"
        "begins (upcoming s4) (nat_bits 12 ?c @ [])"
        using parses_step [OF vl [OF y(2)] 3(3,4)] by blast
      obtain s5 where 5: "ReadBits 12 s4 = (of_nat ?c, s5)" "reader.advanced s4 s5 (length (nat_bits 12 ?c))"
        using parses_step [OF rc 4(3,4)] by blast
      have "ReadHistogram 12 s = (Inr (small_counts h), s5)"
        using 1 2 3 4 5 two ab
        by (simp add: ReadHistogram_def Let_def small_counts_def uc del: of_nat_unat replicate_Suc replicate.simps)
      moreover have "reader.advanced s s5 (length (small_code h))"
        using reader.advanced_trans [OF 1(2) reader.advanced_trans [OF 2(2) reader.advanced_trans [OF 3(2)
          reader.advanced_trans [OF 4(2) 5(2)]]]] by (simp add: c)
      ultimately show "\<exists>t. ReadHistogram 12 s = (Inr (small_counts h), t) \<and> reader.advanced s t (length (small_code h))"
        by blast
    qed
  qed
qed

theorem ReadHistogram_valid_witness:
  "\<exists>counts br'. ReadHistogram ANS_LOG_TAB_SIZE (BitReader_new [2]) = (Inr counts, br') \<and> sum_list counts = 4096"
proof -
  let ?h = "\<lparr> eh_counts = [], eh_alphabet_size = 1, eh_omit_pos = 0, eh_method = 0, eh_num_symbols = 1, eh_symbols = [] \<rparr>"
  have h: "small_histogram ?h" by (simp add: small_histogram_def)
  have "small_code ?h = [False, True, False]" by (simp add: small_code_def varlen_code_def bits_of_def)
  moreover have "list_all (\<lambda>i. stream_bit [2] i = [False, True, False] ! i) [0..<3]" by code_simp
  ultimately have "begins (upcoming (BitReader_new [2])) (small_code ?h)"
    by (simp add: BitReader_new_ok begins_def list_all_iff)
  from reader.parsesD [OF ReadHistogram_small_parses [OF h] BitReader_new_ok(1) this]
  obtain t where t: "ReadHistogram 12 (BitReader_new [2]) = (Inr (small_counts ?h), t)" by blast
  then show ?thesis using ReadHistogram_valid [of "BitReader_new [2]" "small_counts ?h" t]
    by (simp add: ANS_LOG_TAB_SIZE_def)
qed

text \<open>Flat, empty, one- and two-symbol histograms round trip: \<open>EncodeHistogram\<close> emits a bit string from
  which \<open>ReadHistogram\<close> returns the distribution the header stands for, consuming exactly those bits.\<close>

theorem SmallHistogram_roundtrip:
  assumes "small_histogram h"
  shows "\<exists>bs. writer.emits (EncodeHistogram h) bs \<and>
    reader.parses (ReadHistogram ANS_LOG_TAB_SIZE) bs (Inr (small_counts h))"
  using EncodeHistogram_small_emits [OF assms] ReadHistogram_small_parses [OF assms]
  unfolding ANS_LOG_TAB_SIZE_def by blast

theorem SmallHistogram_roundtrip_witness:
  "\<exists>bs. reader.parses (ReadHistogram ANS_LOG_TAB_SIZE) bs (Inr [0, 1000, 0, 3096])"
proof -
  let ?h = "\<lparr> eh_counts = [0, 1000, 0, 3096], eh_alphabet_size = 4, eh_omit_pos = 3, eh_method = 1,
    eh_num_symbols = 2, eh_symbols = [1, 3] \<rparr>"
  have "small_histogram ?h" by (simp add: small_histogram_def less_Suc_eq numeral_2_eq_2)
  moreover have "small_counts ?h = [0, 1000, 0, 3096]" by (simp add: small_counts_def numeral_eq_Suc)
  ultimately show ?thesis using SmallHistogram_roundtrip [of ?h] by auto
qed

end
