(* ===== verification/Move_To_Front.thy ===== *)
theory Move_To_Front
  imports Prelude
begin

text \<open>
  The move-to-front transform of context maps: the encoder's side of \<^verbatim>\<open>lib/jxl/enc_context_map.cc\<close> and the
  vectorised inverse of \<^verbatim>\<open>lib/jxl/inverse_mtf-inl.h\<close>.  Bytes are natural numbers below 256 and arrays are lists;
  the number of lanes of a vector is a parameter, a power of two of at most 64, and so is the content of the
  64 bytes of padding after the decoder's table.
\<close>

section \<open>Definitions\<close>

text \<open>The scalar loop that moves the first entries up by one.\<close>

fun shift_up :: "'a list \<Rightarrow> nat \<Rightarrow> 'a list" where
  "shift_up v 0 = v"
| "shift_up v (Suc i) = shift_up (v[Suc i := v ! i]) i"

definition IndexOf :: "nat list \<Rightarrow> nat \<Rightarrow> nat" where
  "IndexOf v value = length (takeWhile (\<lambda>x. x \<noteq> value) v)"

definition MoveToFront :: "nat list \<Rightarrow> nat \<Rightarrow> nat list" where
  "MoveToFront v index = (let value = v ! index in (shift_up v index)[0 := value])"

fun mtf_transform :: "nat list \<Rightarrow> nat list \<Rightarrow> nat list" where
  "mtf_transform mtf [] = []"
| "mtf_transform mtf (x # v) =
     (let index = IndexOf mtf x in index # mtf_transform (MoveToFront mtf index) v)"

definition MoveToFrontTransform :: "nat list \<Rightarrow> nat list" where
  "MoveToFrontTransform v = (if v = [] then v else mtf_transform [0..<Max (set v) + 1] v)"

text \<open>Vectors of the decoder: \<open>store\<close> writes one at a position.\<close>

definition load :: "nat \<Rightarrow> 'a list \<Rightarrow> nat \<Rightarrow> 'a list" where
  "load lanes v i = take lanes (drop i v)"

definition store :: "'a list \<Rightarrow> nat \<Rightarrow> 'a list \<Rightarrow> 'a list" where
  "store v i vec = take i v @ vec @ drop (i + length vec) v"

function shift_vectors :: "nat \<Rightarrow> 'a list \<Rightarrow> nat \<Rightarrow> 'a list" where
  "shift_vectors lanes v i =
     (if i \<noteq> 0 \<and> 0 < lanes then
        (let i = i - lanes; vec = load lanes v i in shift_vectors lanes (store v (i + 1) vec) i)
      else v)"
  by pat_completeness auto
termination by (relation "measure (\<lambda>(l, v, i). i)") auto

declare shift_vectors.simps [simp del]

definition MoveToFront_vectors :: "nat \<Rightarrow> nat list \<Rightarrow> nat \<Rightarrow> nat list" where
  "MoveToFront_vectors lanes v index =
     (let value = v ! index; i = index;
          v = (if i < 4 then shift_up v i
               else
                 (let tail = i AND (lanes - 1);
                      (v, i) = (if tail \<noteq> 0 then
                                  (let i = i - tail; vec = load lanes v i; prev = load lanes v (i + 1)
                                   in (store v (i + 1) (take tail vec @ drop tail prev), i))
                                else (v, i))
                  in shift_vectors lanes v i))
      in v[0 := value])"

fun inverse_mtf :: "nat \<Rightarrow> nat list \<Rightarrow> nat list \<Rightarrow> nat list" where
  "inverse_mtf lanes mtf [] = []"
| "inverse_mtf lanes mtf (index # v) =
     mtf ! index # inverse_mtf lanes (if index \<noteq> 0 then MoveToFront_vectors lanes mtf index else mtf) v"

definition InverseMoveToFrontTransform :: "nat \<Rightarrow> nat list \<Rightarrow> nat list \<Rightarrow> nat list" where
  "InverseMoveToFrontTransform lanes padding v = inverse_mtf lanes ([0..<256] @ padding) v"

section \<open>Moving to the front\<close>

definition to_front :: "'a list \<Rightarrow> nat \<Rightarrow> 'a list" where
  "to_front v i = v ! i # take i v @ drop (Suc i) v"

lemma shift_up_eq:
  "i < length v \<Longrightarrow> shift_up v i = v ! 0 # take i v @ drop (Suc i) v"
proof (induction i arbitrary: v)
  case 0
  then show ?case by (cases v) simp_all
next
  case (Suc i)
  then show ?case
    by (simp add: nth_list_update take_Suc_conv_app_nth drop_update_swap Cons_nth_drop_Suc [symmetric] list_update_beyond)
qed

lemma MoveToFront_eq: "i < length v \<Longrightarrow> MoveToFront v i = to_front v i"
  by (simp add: MoveToFront_def to_front_def shift_up_eq)

lemma length_store [simp]: "i + length vec \<le> length v \<Longrightarrow> length (store v i vec) = length v"
  by (simp add: store_def)

lemma length_load [simp]: "i + lanes \<le> length v \<Longrightarrow> length (load lanes v i) = lanes"
  by (simp add: load_def)

lemma nth_store: "i + length vec \<le> length v \<Longrightarrow> j < length v \<Longrightarrow>
    store v i vec ! j = (if i \<le> j \<and> j < i + length vec then vec ! (j - i) else v ! j)"
  by (auto simp: store_def nth_append)

lemma nth_load: "i + lanes \<le> length v \<Longrightarrow> j < lanes \<Longrightarrow> load lanes v i ! j = v ! (i + j)"
  by (simp add: load_def)

text \<open>The vector loop moves up everything below a multiple of the lanes.\<close>

lemma shift_vectors_eq:
  assumes "0 < lanes" and "k * lanes < length v"
  shows "length (shift_vectors lanes v (k * lanes)) = length v \<and>
    (\<forall>j < length v. shift_vectors lanes v (k * lanes) ! j = v ! (if 0 < j \<and> j \<le> k * lanes then j - 1 else j))"
  using assms
proof (induction k arbitrary: v)
  case 0
  then show ?case by (simp add: shift_vectors.simps)
next
  case (Suc k)
  define u where "u = store v (k * lanes + 1) (load lanes v (k * lanes))"
  have len: "length u = length v" using Suc.prems by (simp add: u_def)
  have eq: "shift_vectors lanes v (Suc k * lanes) = shift_vectors lanes u (k * lanes)"
    using Suc.prems by (subst shift_vectors.simps) (simp add: u_def Let_def)
  have nth: "u ! j = v ! (if k * lanes < j \<and> j \<le> Suc k * lanes then j - 1 else j)" if "j < length v" for j
    using Suc.prems that by (auto simp: u_def nth_store nth_load)
  show ?case using Suc.IH [of u] Suc.prems len nth unfolding eq by auto
qed

lemma MoveToFront_vectors_eq:
  assumes lanes: "lanes = 2 ^ k" and i: "i + lanes < length v"
  shows "MoveToFront_vectors lanes v i = to_front v i"
proof (cases "i < 4")
  case True
  then show ?thesis using i by (simp add: MoveToFront_vectors_def to_front_def shift_up_eq)
next
  case False
  define tail where "tail = i mod lanes"
  define b where "b = i - tail"
  have l0: "0 < lanes" using lanes by simp
  have tl: "tail < lanes" "i = b + tail" "b = (i div lanes) * lanes"
    using l0 by (auto simp: tail_def b_def minus_mod_eq_div_mult)
  have tail: "i AND (lanes - 1) = tail"
    unfolding tail_def lanes mask_eq_exp_minus_1 [symmetric] take_bit_eq_mask [symmetric] by (rule take_bit_eq_mod)
  define w where "w = (if tail \<noteq> 0
      then store v (b + 1) (take tail (load lanes v b) @ drop tail (load lanes v (b + 1))) else v)"
  have len: "length w = length v" using i tl(1,2) by (simp add: w_def)
  have nth: "w ! j = v ! (if b < j \<and> j \<le> i then j - 1 else j)" if "j < length v" for j
    using i tl(1,2) that by (auto simp: w_def nth_store nth_load nth_append)
  have eq: "MoveToFront_vectors lanes v i = (shift_vectors lanes w b)[0 := v ! i]"
    using False tl(2) unfolding MoveToFront_vectors_def Let_def tail b_def [symmetric] w_def by simp
  have b: "b < length v" using i tl(1,2) by simp
  note S = shift_vectors_eq [OF l0, of "i div lanes" w, folded tl(3), unfolded len, OF b]
  show ?thesis
  proof (rule nth_equalityI)
    show "length (MoveToFront_vectors lanes v i) = length (to_front v i)"
      using S i by (simp add: eq to_front_def)
    fix j assume "j < length (MoveToFront_vectors lanes v i)"
    then have j: "j < length v" using S by (simp add: eq)
    have "shift_vectors lanes w b ! j = v ! (j - 1)" if "0 < j" "j \<le> i"
    proof (cases "j \<le> b")
      case True
      then show ?thesis using S nth [of "j - 1"] j that by auto
    next
      case False
      then show ?thesis using S nth [of j] j that by auto
    qed
    moreover have "shift_vectors lanes w b ! j = v ! j" if "i < j"
      using S nth [of j] j that tl(2) by auto
    moreover have "to_front v i ! j = (if j = 0 then v ! i else if j \<le> i then v ! (j - 1) else v ! j)"
      using i j by (cases j) (auto simp: to_front_def nth_append)
    ultimately show "MoveToFront_vectors lanes v i ! j = to_front v i ! j"
      using S i j by (cases "j = 0") (auto simp: eq)
  qed
qed

section \<open>The transform and its inverse\<close>

text \<open>C19: With vectors of any width (a power of two of at most 64 lanes) and whatever the padding after the
  table holds, the decoder's \<open>MoveToFront\<close> equals the scalar one of the encoder on every index below 256.\<close>

theorem MoveToFront_equivalence:
  assumes "k \<le> 6" and "length v = 256 + 64" and "index < 256"
  shows "MoveToFront_vectors (2 ^ k) v index = MoveToFront v index"
proof -
  have "(2::nat) ^ k \<le> 2 ^ 6" using assms(1) by (intro power_increasing) simp_all
  then show ?thesis using assms by (simp add: MoveToFront_eq MoveToFront_vectors_eq [OF refl])
qed

theorem MoveToFront_equivalence_witness:
  "MoveToFront_vectors (2 ^ 4) ([0..<256] @ replicate 64 7) 100 = MoveToFront ([0..<256] @ replicate 64 7) 100"
  by (rule MoveToFront_equivalence) simp_all

lemma to_front_facts:
  "i < length v \<Longrightarrow> length (to_front v i) = length v"
  "i < length v \<Longrightarrow> set (to_front v i) = set v"
  "i < n \<Longrightarrow> n \<le> length v \<Longrightarrow> take n (to_front v i) = to_front (take n v) i"
proof -
  show "length (to_front v i) = length v" if "i < length v" using that by (simp add: to_front_def)
  show "set (to_front v i) = set v" if "i < length v"
    unfolding to_front_def by (subst (4) id_take_nth_drop [OF that]) auto
  show "take n (to_front v i) = to_front (take n v) i" if "i < n" "n \<le> length v"
    using that by (cases n) (auto simp: to_front_def take_drop)
qed

lemma IndexOf_less: "x \<in> set v \<Longrightarrow> IndexOf v x < length v \<and> v ! IndexOf v x = x"
proof (induction v)
  case (Cons a v)
  then show ?case by (cases "a = x") (auto simp: IndexOf_def)
qed simp

lemma inverse_mtf_transform:
  assumes "k \<le> 6"
  shows "length mtf = 320 \<Longrightarrow> n \<le> 256 \<Longrightarrow> set v \<subseteq> set (take n mtf) \<Longrightarrow>
    inverse_mtf (2 ^ k) mtf (mtf_transform (take n mtf) v) = v"
proof (induction v arbitrary: mtf)
  case (Cons x v)
  define i where "i = IndexOf (take n mtf) x"
  have i: "i < n" "mtf ! i = x" using IndexOf_less [of x "take n mtf"] Cons.prems by (auto simp: i_def)
  then have lt: "i < length (take n mtf)" "i < length mtf" using Cons.prems by simp_all
  have "(2::nat) ^ k \<le> 2 ^ 6" using assms by (intro power_increasing) simp_all
  then have vec: "MoveToFront_vectors (2 ^ k) mtf i = to_front mtf i"
    using MoveToFront_vectors_eq [OF refl, of i k mtf] i Cons.prems by simp
  have id: "to_front mtf 0 = mtf" using Cons.prems by (cases mtf) (simp_all add: to_front_def)
  have step: "(if i \<noteq> 0 then MoveToFront_vectors (2 ^ k) mtf i else mtf) = to_front mtf i"
    using vec id by auto
  have tk: "MoveToFront (take n mtf) i = take n (to_front mtf i)"
    using MoveToFront_eq [OF lt(1)] to_front_facts(3) [OF i(1), of mtf] Cons.prems(1,2) by simp
  have "set v \<subseteq> set (take n (to_front mtf i))"
    using to_front_facts(2) [OF lt(1)] Cons.prems MoveToFront_eq [OF lt(1)] by (simp add: tk)
  then have "inverse_mtf (2 ^ k) (to_front mtf i) (mtf_transform (take n (to_front mtf i)) v) = v"
    using Cons.IH Cons.prems to_front_facts(1) [OF lt(2)] by simp
  then show ?case unfolding mtf_transform.simps Let_def i_def [symmetric] tk inverse_mtf.simps step i(2) by simp
qed simp

text \<open>C20: The vectorised inverse transform of the decoder restores every map of bytes that the encoder
  transformed, for every vector width and whatever the padding holds; the transformed values are bytes.\<close>

theorem MoveToFront_roundtrip:
  assumes "k \<le> 6" and "length padding = 64" and "\<forall>x \<in> set v. x < 256"
  shows "InverseMoveToFrontTransform (2 ^ k) padding (MoveToFrontTransform v) = v \<and>
    length (MoveToFrontTransform v) = length v \<and> (\<forall>x \<in> set (MoveToFrontTransform v). x < 256)"
proof (cases "v = []")
  case False
  define n where "n = Max (set v) + 1"
  have n: "n \<le> 256" using assms(3) False by (simp add: n_def Suc_le_eq)
  have tk: "take n ([0..<256] @ padding) = [0..<n]" using n by simp
  have "x < n" if "x \<in> set v" for x
    using Max_ge [OF _ that] unfolding n_def by (simp add: less_Suc_eq_le)
  then have sub: "set v \<subseteq> set [0..<n]" by auto
  have tr: "MoveToFrontTransform v = mtf_transform [0..<n] v" using False by (simp add: MoveToFrontTransform_def n_def)
  have "length (mtf_transform m v) = length v \<and> (\<forall>x \<in> set (mtf_transform m v). x < length m)" if "set v \<subseteq> set m" for m
    using that
  proof (induction v arbitrary: m)
    case (Cons x v)
    then have i: "IndexOf m x < length m" using IndexOf_less by auto
    then show ?case using Cons.IH [of "to_front m (IndexOf m x)"] Cons.prems to_front_facts(1,2) [OF i]
      by (auto simp: Let_def MoveToFront_eq)
  qed simp
  from this [OF sub] n have "length (MoveToFrontTransform v) = length v \<and> (\<forall>x \<in> set (MoveToFrontTransform v). x < 256)"
    by (auto simp: tr)
  moreover have "InverseMoveToFrontTransform (2 ^ k) padding (MoveToFrontTransform v) = v"
    using inverse_mtf_transform [OF assms(1), of "[0..<256] @ padding" n v] assms(2) n sub
    by (simp add: InverseMoveToFrontTransform_def tr tk)
  ultimately show ?thesis by simp
qed (simp add: MoveToFrontTransform_def InverseMoveToFrontTransform_def)

theorem MoveToFront_roundtrip_witness:
  "InverseMoveToFrontTransform (2 ^ 5) (replicate 64 9) (MoveToFrontTransform [3, 3, 200, 0, 3]) = [3, 3, 200, 0, 3]"
  using MoveToFront_roundtrip [of 5 "replicate 64 9" "[3, 3, 200, 0, 3]"] by simp

end
