(* ===== verification/Bundle.thy ===== *)
theory Bundle
  imports Field_Coders
begin

text \<open>
  Bundles of header fields: the visitors of \<^verbatim>\<open>lib/jxl/fields.h\<close>, \<^verbatim>\<open>fields.cc\<close> and
  \<^verbatim>\<open>enc_fields.cc\<close>.  A \<^verbatim>\<open>VisitFields\<close> member function becomes a value of type \<open>visit\<close>: the calls it makes on
  its visitor, each with the default value, the current value of the field and what follows, as a function of the
  value the visitor stores.  A visitor class is a record of its member functions over its state, and \<open>run\<close> performs
  the calls.  A \<^verbatim>\<open>float\<close> is its bit pattern, as in \<open>Field_Coders\<close>.
\<close>

section \<open>Visitors\<close>

datatype 'a visit =
    Return 'a
  | Failure StatusCode
  | VBits nat u32 u32 "u32 \<Rightarrow> 'a visit"
  | VU32 U32Enc u32 u32 "u32 \<Rightarrow> 'a visit"
  | VU64 u64 u64 "u64 \<Rightarrow> 'a visit"
  | VBool bool bool "bool \<Rightarrow> 'a visit"
  | VF16 u32 u32 "u32 \<Rightarrow> 'a visit"
  | VConditional bool "bool \<Rightarrow> 'a visit"
  | VAllDefault bool bool "bool \<times> bool \<Rightarrow> 'a visit"
      \<comment> \<open>whether all fields have their defaults, the current \<open>all_default\<close>; the status and the new value\<close>
  | VIsReading "bool \<Rightarrow> 'a visit"
  | VIsNested "bool \<Rightarrow> 'a visit"
  | VEnter "'a visit"
  | VLeave "'a visit"
  | VBeginExtensions u64 "u64 \<Rightarrow> 'a visit"
  | VEndExtensions "'a visit"

record 's visitor =
  do_bits :: "nat \<Rightarrow> u32 \<Rightarrow> u32 \<Rightarrow> 's \<Rightarrow> u32 outcome \<times> 's"
  do_u32 :: "U32Enc \<Rightarrow> u32 \<Rightarrow> u32 \<Rightarrow> 's \<Rightarrow> u32 outcome \<times> 's"
  do_u64 :: "u64 \<Rightarrow> u64 \<Rightarrow> 's \<Rightarrow> u64 outcome \<times> 's"
  do_bool :: "bool \<Rightarrow> bool \<Rightarrow> 's \<Rightarrow> bool outcome \<times> 's"
  do_f16 :: "u32 \<Rightarrow> u32 \<Rightarrow> 's \<Rightarrow> u32 outcome \<times> 's"
  do_conditional :: "bool \<Rightarrow> bool"
  do_all_default :: "bool \<Rightarrow> bool \<Rightarrow> 's \<Rightarrow> (bool \<times> bool) \<times> 's"
  is_reading :: bool
  visits_nested :: bool
  begin_extensions :: "u64 \<Rightarrow> 's \<Rightarrow> u64 outcome \<times> 's"
  end_extensions :: "'s \<Rightarrow> unit outcome \<times> 's"

definition kMaxExtensions :: nat where "kMaxExtensions = 64"

text \<open>The number is the nesting depth.\<close>

primrec run :: "'s visitor \<Rightarrow> 'a visit \<Rightarrow> nat \<Rightarrow> 's \<Rightarrow> 'a outcome \<times> 's" where
  "run V (Return x) = (\<lambda>d s. (Inr x, s))"
| "run V (Failure e) = (\<lambda>d s. (Inl e, s))"
| "run V (VBits n df v k) = (\<lambda>d s. case do_bits V n df v s of (Inl e, s) \<Rightarrow> (Inl e, s) | (Inr x, s) \<Rightarrow> run V (k x) d s)"
| "run V (VU32 enc df v k) = (\<lambda>d s. case do_u32 V enc df v s of (Inl e, s) \<Rightarrow> (Inl e, s) | (Inr x, s) \<Rightarrow> run V (k x) d s)"
| "run V (VU64 df v k) = (\<lambda>d s. case do_u64 V df v s of (Inl e, s) \<Rightarrow> (Inl e, s) | (Inr x, s) \<Rightarrow> run V (k x) d s)"
| "run V (VBool df v k) = (\<lambda>d s. case do_bool V df v s of (Inl e, s) \<Rightarrow> (Inl e, s) | (Inr x, s) \<Rightarrow> run V (k x) d s)"
| "run V (VF16 df v k) = (\<lambda>d s. case do_f16 V df v s of (Inl e, s) \<Rightarrow> (Inl e, s) | (Inr x, s) \<Rightarrow> run V (k x) d s)"
| "run V (VConditional c k) = (\<lambda>d s. run V (k (do_conditional V c)) d s)"
| "run V (VAllDefault a v k) = (\<lambda>d s. case do_all_default V a v s of (x, s) \<Rightarrow> run V (k x) d s)"
| "run V (VIsReading k) = (\<lambda>d s. run V (k (is_reading V)) d s)"
| "run V (VIsNested k) = (\<lambda>d s. run V (k (visits_nested V)) d s)"
| "run V (VEnter p) = (\<lambda>d s. if d < kMaxExtensions then run V p (d + 1) s else (Inl kGenericError, s))"
| "run V (VLeave p) = (\<lambda>d s. run V p (d - 1) s)"
| "run V (VBeginExtensions v k) = (\<lambda>d s. case begin_extensions V v s of (Inl e, s) \<Rightarrow> (Inl e, s) | (Inr x, s) \<Rightarrow> run V (k x) d s)"
| "run V (VEndExtensions p) = (\<lambda>d s. case end_extensions V s of (Inl e, s) \<Rightarrow> (Inl e, s) | (Inr x, s) \<Rightarrow> run V p d s)"

text \<open>\<^verbatim>\<open>VisitorBase::Visit\<close> of an outermost bundle.\<close>

definition Visit :: "'s visitor \<Rightarrow> 'a visit \<Rightarrow> 's \<Rightarrow> 'a outcome \<times> 's" where
  "Visit V p = run V (VEnter p) 0"

text \<open>The functions of \<^verbatim>\<open>VisitorBase\<close> in terms of those of the derived class.\<close>

definition base_bool :: "(nat \<Rightarrow> u32 \<Rightarrow> u32 \<Rightarrow> 's \<Rightarrow> u32 outcome \<times> 's) \<Rightarrow> bool \<Rightarrow> bool \<Rightarrow> 's \<Rightarrow> bool outcome \<times> 's" where
  "base_bool bits_op df v s =
     (case bits_op 1 (of_bool df) (of_bool v) s of (Inl e, s) \<Rightarrow> (Inl e, s) | (Inr x, s) \<Rightarrow> (Inr (x = 1), s))"

definition base_all_default ::
  "(bool \<Rightarrow> bool \<Rightarrow> 's \<Rightarrow> bool outcome \<times> 's) \<Rightarrow> bool \<Rightarrow> bool \<Rightarrow> 's \<Rightarrow> (bool \<times> bool) \<times> 's" where
  "base_all_default bool_op a v s =
     (case bool_op True v s of (Inl e, s) \<Rightarrow> ((False, v), s) | (Inr x, s) \<Rightarrow> ((x, x), s))"

text \<open>Visitors that set fields to their defaults.\<close>

definition SetDefaultVisitor :: "unit visitor" where
  "SetDefaultVisitor = \<lparr>
     do_bits = \<lambda>n df v s. (Inr df, s), do_u32 = \<lambda>enc df v s. (Inr df, s), do_u64 = \<lambda>df v s. (Inr df, s),
     do_bool = \<lambda>df v s. (Inr df, s), do_f16 = \<lambda>df v s. (Inr df, s),
     do_conditional = \<lambda>c. True,
     do_all_default = \<lambda>a v s. ((False, True), s),
     is_reading = False, visits_nested = True,
     begin_extensions = \<lambda>v s. (Inr 0, s), end_extensions = \<lambda>s. (Inr (), s) \<rparr>"

definition InitVisitor :: "unit visitor" where
  "InitVisitor = SetDefaultVisitor\<lparr> visits_nested := False \<rparr>"

text \<open>
  \<^verbatim>\<open>std::abs(value - default) < 1E-6f\<close>, on bit patterns: the values are compared as multiples of \<open>2 ^ -149\<close>, the
  smallest positive float; \<open>8796093 * 2 ^ -43\<close> is the float nearest to a millionth.  For the default values that
  occur (zero, or of at least twice that size) the float subtraction is exact whenever it matters.
\<close>

definition f32_finite :: "u32 \<Rightarrow> bool" where
  "f32_finite v \<longleftrightarrow> drop_bit 23 v AND 0xFF \<noteq> 0xFF"

definition f32_scaled :: "u32 \<Rightarrow> int" where
  "f32_scaled v =
     (let e = unat (drop_bit 23 v AND 0xFF); m = int (unat (v AND 0x7FFFFF));
          x = (if e = 0 then m else (m + 2 ^ 23) * 2 ^ (e - 1))
      in if bit v 31 then - x else x)"

definition f32_close :: "u32 \<Rightarrow> u32 \<Rightarrow> bool" where
  "f32_close v df \<longleftrightarrow> f32_finite v \<and> \<bar>f32_scaled v - f32_scaled df\<bar> < 8796093 * 2 ^ 106"

definition AllDefaultVisitor :: "bool visitor" where
  "AllDefaultVisitor =
     (let bits_op = \<lambda>n df v s. (Inr v, s \<and> v = df); u64_op = \<lambda>df v s. (Inr v, s \<and> v = df) in \<lparr>
     do_bits = bits_op, do_u32 = \<lambda>enc df v s. (Inr v, s \<and> v = df), do_u64 = u64_op,
     do_bool = base_bool bits_op, do_f16 = \<lambda>df v s. (Inr v, s \<and> f32_close v df),
     do_conditional = \<lambda>c. c,
     do_all_default = \<lambda>a v s. ((False, v), s),
     is_reading = False, visits_nested = True,
     begin_extensions = \<lambda>v s. u64_op 0 v s, end_extensions = \<lambda>s. (Inr (), s) \<rparr>)"

section \<open>The reading visitor\<close>

record read_state =
  rd_ok :: bool
  rd_reader :: BitReader
  total_extension_bits :: u64
  pos_after_ext_size :: nat

definition checked :: "'v \<Rightarrow> BitReader \<Rightarrow> read_state \<Rightarrow> 'v outcome \<times> read_state" where
  "checked v reader s =
     (case AllReadsWithinBounds reader of (enough, reader) \<Rightarrow>
        (if \<not> enough then Inl kNotEnoughBytes else Inr v, s\<lparr> rd_reader := reader \<rparr>))"

definition read_bits_op :: "nat \<Rightarrow> u32 \<Rightarrow> u32 \<Rightarrow> read_state \<Rightarrow> u32 outcome \<times> read_state" where
  "read_bits_op n df v s = (case BitsCoder_Read n (rd_reader s) of (x, r) \<Rightarrow> checked x r s)"

definition read_u64_op :: "u64 \<Rightarrow> u64 \<Rightarrow> read_state \<Rightarrow> u64 outcome \<times> read_state" where
  "read_u64_op df v s = (case U64Coder_Read (rd_reader s) of (x, r) \<Rightarrow> checked x r s)"

fun read_extension_sizes :: "nat list \<Rightarrow> read_state \<Rightarrow> unit outcome \<times> read_state" where
  "read_extension_sizes [] s = (Inr (), s)"
| "read_extension_sizes (i # is) s =
     (case read_u64_op 0 0 s of
        (Inl e, s) \<Rightarrow> (Inl e, s)
      | (Inr x, s) \<Rightarrow>
          (case SafeAdd (total_extension_bits s) x of
             (fits, t) \<Rightarrow>
               let s = s\<lparr> total_extension_bits := t \<rparr>
               in if \<not> fits then (Inl kGenericError, s) else read_extension_sizes is s))"

definition read_begin_extensions :: "u64 \<Rightarrow> read_state \<Rightarrow> u64 outcome \<times> read_state" where
  "read_begin_extensions v s =
     (case read_u64_op 0 v s of
        (Inl e, s) \<Rightarrow> (Inl e, s)
      | (Inr extensions, s) \<Rightarrow>
          if extensions = 0 then (Inr extensions, s)
          else
            (case read_extension_sizes (filter (bit extensions) [0..<64]) s of
               (Inl e, s) \<Rightarrow> (Inl e, s)
             | (Inr _, s) \<Rightarrow>
                 let s = s\<lparr> pos_after_ext_size := TotalBitsConsumed (rd_reader s) \<rparr>
                 in if pos_after_ext_size s = 0 then (Inl kGenericError, s) else (Inr extensions, s)))"

definition read_end_extensions :: "read_state \<Rightarrow> unit outcome \<times> read_state" where
  "read_end_extensions s =
     (if pos_after_ext_size s = 0 then (Inr (), s)
      else
        (let bits_read = TotalBitsConsumed (rd_reader s) in
         case SafeAdd (of_nat (pos_after_ext_size s)) (total_extension_bits s) of
           (fits, en) \<Rightarrow>
             if \<not> fits then (Inl kGenericError, s)
             else if bits_read > unat en then (Inl kGenericError, s)
             else
               (let remaining_bits = unat en - bits_read in
                if remaining_bits \<noteq> 0 then checked () (SkipBits remaining_bits (rd_reader s)) s
                else (Inr (), s))))"

definition ReadVisitor :: "read_state visitor" where
  "ReadVisitor = \<lparr>
     do_bits = read_bits_op,
     do_u32 = \<lambda>enc df v s. (case U32Coder_Read enc (rd_reader s) of (x, r) \<Rightarrow> checked x r s),
     do_u64 = read_u64_op,
     do_bool = base_bool read_bits_op,
     do_f16 = \<lambda>df v s. (case F16Coder_Read (rd_reader s) of
         (Inl e, r) \<Rightarrow> checked v r (s\<lparr> rd_ok := False \<rparr>)
       | (Inr x, r) \<Rightarrow> checked x r s),
     do_conditional = \<lambda>c. c,
     do_all_default = base_all_default (base_bool read_bits_op),
     is_reading = True, visits_nested = True,
     begin_extensions = read_begin_extensions, end_extensions = read_end_extensions \<rparr>"

section \<open>The encoding visitors\<close>

record size_state =
  sz_ok :: bool
  encoded_bits :: nat
  sz_extensions :: u64
  pos_after_ext :: nat

definition count_bits :: "bool \<times> nat \<Rightarrow> size_state \<Rightarrow> size_state" where
  "count_bits r s = s\<lparr> sz_ok := sz_ok s \<and> fst r, encoded_bits := encoded_bits s + snd r \<rparr>"

definition size_bits_op :: "nat \<Rightarrow> u32 \<Rightarrow> u32 \<Rightarrow> size_state \<Rightarrow> u32 outcome \<times> size_state" where
  "size_bits_op n df v s = (Inr v, count_bits (BitsCoder_CanEncode n v) s)"

definition size_u64_op :: "u64 \<Rightarrow> u64 \<Rightarrow> size_state \<Rightarrow> u64 outcome \<times> size_state" where
  "size_u64_op df v s = (Inr v, count_bits (U64Coder_CanEncode v) s)"

definition CanEncodeVisitor :: "size_state visitor" where
  "CanEncodeVisitor = \<lparr>
     do_bits = size_bits_op,
     do_u32 = \<lambda>enc df v s. (Inr v, count_bits (U32Coder_CanEncode enc v) s),
     do_u64 = size_u64_op,
     do_bool = base_bool size_bits_op,
     do_f16 = \<lambda>df v s. (Inr v, count_bits (F16Coder_CanEncode v) s),
     do_conditional = \<lambda>c. c,
     do_all_default = \<lambda>a v. base_all_default (base_bool size_bits_op) a a,
     is_reading = False, visits_nested = True,
     begin_extensions = \<lambda>v s.
       (case size_u64_op 0 v s of
          (Inl e, s) \<Rightarrow> (Inl e, s)
        | (Inr v, s) \<Rightarrow>
            let s = s\<lparr> sz_extensions := v \<rparr> in
            if v \<noteq> 0 then
              if pos_after_ext s \<noteq> 0 then (Inl kGenericError, s)
              else (let s = s\<lparr> pos_after_ext := encoded_bits s \<rparr>
                    in if pos_after_ext s = 0 then (Inl kGenericError, s) else (Inr v, s))
            else (Inr v, s)),
     end_extensions = \<lambda>s. (Inr (), s) \<rparr>"

text \<open>\<^verbatim>\<open>GetSizes\<close>: the bits of the extensions and in total.\<close>

definition GetSizes :: "size_state \<Rightarrow> (nat \<times> nat) outcome" where
  "GetSizes s =
     (if \<not> sz_ok s then Inl kGenericError
      else if pos_after_ext s \<noteq> 0 then
        if \<not> encoded_bits s \<ge> pos_after_ext s then Inl kGenericError
        else
          (let extension_bits = encoded_bits s - pos_after_ext s
           in Inr (extension_bits, encoded_bits s + snd (U64Coder_CanEncode (of_nat extension_bits)) +
                (\<Sum>i \<leftarrow> [1..<length (filter (bit (sz_extensions s)) [0..<64])]. snd (U64Coder_CanEncode 0))))
      else Inr (0, encoded_bits s))"

record write_state =
  wr_ok :: bool
  wr_writer :: BitWriter

definition wrote :: "'v \<Rightarrow> bool \<times> BitWriter \<Rightarrow> write_state \<Rightarrow> 'v outcome \<times> write_state" where
  "wrote v r s = (Inr v, s\<lparr> wr_ok := wr_ok s \<and> fst r, wr_writer := snd r \<rparr>)"

definition write_bits_op :: "nat \<Rightarrow> u32 \<Rightarrow> u32 \<Rightarrow> write_state \<Rightarrow> u32 outcome \<times> write_state" where
  "write_bits_op n df v s = wrote v (BitsCoder_Write n v (wr_writer s)) s"

definition write_u64_op :: "u64 \<Rightarrow> u64 \<Rightarrow> write_state \<Rightarrow> u64 outcome \<times> write_state" where
  "write_u64_op df v s = wrote v (U64Coder_Write v (wr_writer s)) s"

definition write_begin_extensions :: "nat \<Rightarrow> u64 \<Rightarrow> write_state \<Rightarrow> u64 outcome \<times> write_state" where
  "write_begin_extensions extension_bits v s =
     (case write_u64_op 0 v s of
        (Inl e, s) \<Rightarrow> (Inl e, s)
      | (Inr v, s) \<Rightarrow>
          if v = 0 then (if extension_bits \<noteq> 0 then Inl kGenericError else Inr v, s)
          else
            (let s = snd (wrote v (U64Coder_Write (of_nat extension_bits) (wr_writer s)) s)
             in (Inr v, foldl (\<lambda>s i. snd (wrote v (U64Coder_Write 0 (wr_writer s)) s)) s
                          (tl (filter (bit v) [0..<64])))))"

definition WriteVisitor :: "nat \<Rightarrow> write_state visitor" where
  "WriteVisitor extension_bits = \<lparr>
     do_bits = write_bits_op,
     do_u32 = \<lambda>enc df v s. wrote v (U32Coder_Write enc v (wr_writer s)) s,
     do_u64 = write_u64_op,
     do_bool = base_bool write_bits_op,
     do_f16 = \<lambda>df v s. wrote v (F16Coder_Write v (wr_writer s)) s,
     do_conditional = \<lambda>c. c,
     do_all_default = base_all_default (base_bool write_bits_op),
     is_reading = False, visits_nested = True,
     begin_extensions = write_begin_extensions extension_bits,
     end_extensions = \<lambda>s. (Inr (), s) \<rparr>"

section \<open>Bundle functions\<close>

definition Bundle_Init :: "'a visit \<Rightarrow> 'a option" where
  "Bundle_Init p = (case fst (Visit InitVisitor p ()) of Inl e \<Rightarrow> None | Inr x \<Rightarrow> Some x)"

definition Bundle_SetDefault :: "'a visit \<Rightarrow> 'a option" where
  "Bundle_SetDefault p = (case fst (Visit SetDefaultVisitor p ()) of Inl e \<Rightarrow> None | Inr x \<Rightarrow> Some x)"

definition Bundle_AllDefault :: "'a visit \<Rightarrow> bool" where
  "Bundle_AllDefault p = snd (Visit AllDefaultVisitor p True)"

text \<open>With the bundle whose \<open>all_default\<close> was computed.\<close>

definition Bundle_CanEncode :: "'a visit \<Rightarrow> ('a \<times> nat \<times> nat) outcome" where
  "Bundle_CanEncode p =
     (case Visit CanEncodeVisitor p \<lparr> sz_ok = True, encoded_bits = 0, sz_extensions = 0, pos_after_ext = 0 \<rparr> of
        (Inl e, s) \<Rightarrow> Inl e
      | (Inr x, s) \<Rightarrow> and_then (GetSizes s) (\<lambda>(extension_bits, total_bits). Inr (x, extension_bits, total_bits)))"

definition read_start :: "BitReader \<Rightarrow> read_state" where
  "read_start reader = \<lparr> rd_ok = True, rd_reader = reader, total_extension_bits = 0, pos_after_ext_size = 0 \<rparr>"

definition Bundle_Read :: "'a visit \<Rightarrow> BitReader \<Rightarrow> 'a outcome \<times> BitReader" where
  "Bundle_Read p reader =
     (case Visit ReadVisitor p (read_start reader) of
        (Inl e, s) \<Rightarrow> (Inl e, rd_reader s)
      | (Inr x, s) \<Rightarrow> (if rd_ok s then Inr x else Inl kGenericError, rd_reader s))"

definition Bundle_CanRead :: "'a visit \<Rightarrow> BitReader \<Rightarrow> bool" where
  "Bundle_CanRead p reader = (fst (Visit ReadVisitor p (read_start reader)) \<noteq> Inl kNotEnoughBytes)"

definition Bundle_Write :: "('a \<Rightarrow> 'a visit) \<Rightarrow> 'a \<Rightarrow> 'l \<Rightarrow> bool \<Rightarrow>
    BitWriter \<times> 'l AuxOut \<Rightarrow> StatusCode \<times> BitWriter \<times> 'l AuxOut" where
  "Bundle_Write visit_fields x layer has_aux_out st =
     (case Bundle_CanEncode (visit_fields x) of
        Inl e \<Rightarrow> (e, st)
      | Inr (x, extension_bits, total_bits) \<Rightarrow>
          WithMaxBits total_bits layer has_aux_out
            (\<lambda>(w, aux).
               case Visit (WriteVisitor extension_bits) (visit_fields x) \<lparr> wr_ok = True, wr_writer = w \<rparr> of
                 (Inl e, s) \<Rightarrow> (e, wr_writer s, aux)
               | (Inr x, s) \<Rightarrow> (if wr_ok s then kOk else kGenericError, wr_writer s, aux)) False st)"

section \<open>Composing bundles\<close>

text \<open>
  A \<^verbatim>\<open>VisitFields\<close> body is a sequence of steps that each pass on the updated bundle; a field is given by its
  selector and its update function.
\<close>

primrec bind_visit :: "'a visit \<Rightarrow> ('a \<Rightarrow> 'b visit) \<Rightarrow> 'b visit" where
  "bind_visit (Return x) f = f x"
| "bind_visit (Failure e) f = Failure e"
| "bind_visit (VBits n df v k) f = VBits n df v (\<lambda>x. bind_visit (k x) f)"
| "bind_visit (VU32 enc df v k) f = VU32 enc df v (\<lambda>x. bind_visit (k x) f)"
| "bind_visit (VU64 df v k) f = VU64 df v (\<lambda>x. bind_visit (k x) f)"
| "bind_visit (VBool df v k) f = VBool df v (\<lambda>x. bind_visit (k x) f)"
| "bind_visit (VF16 df v k) f = VF16 df v (\<lambda>x. bind_visit (k x) f)"
| "bind_visit (VConditional c k) f = VConditional c (\<lambda>x. bind_visit (k x) f)"
| "bind_visit (VAllDefault a v k) f = VAllDefault a v (\<lambda>x. bind_visit (k x) f)"
| "bind_visit (VIsReading k) f = VIsReading (\<lambda>x. bind_visit (k x) f)"
| "bind_visit (VIsNested k) f = VIsNested (\<lambda>x. bind_visit (k x) f)"
| "bind_visit (VEnter p) f = VEnter (bind_visit p f)"
| "bind_visit (VLeave p) f = VLeave (bind_visit p f)"
| "bind_visit (VBeginExtensions v k) f = VBeginExtensions v (\<lambda>x. bind_visit (k x) f)"
| "bind_visit (VEndExtensions p) f = VEndExtensions (bind_visit p f)"

type_synonym 's fields = "'s \<Rightarrow> 's visit"

primrec steps :: "'s fields list \<Rightarrow> 's fields" where
  "steps [] = Return"
| "steps (f # fs) = (\<lambda>s. bind_visit (f s) (steps fs))"

text \<open>The rules for the steps replace their equations.\<close>

declare steps.simps [simp del]

definition field_bits :: "nat \<Rightarrow> u32 \<Rightarrow> ('s \<Rightarrow> u32) \<Rightarrow> ((u32 \<Rightarrow> u32) \<Rightarrow> 's \<Rightarrow> 's) \<Rightarrow> 's fields" where
  "field_bits n df get upd = (\<lambda>s. VBits n df (get s) (\<lambda>v. Return (upd (\<lambda>_. v) s)))"

definition field_u32 :: "U32Enc \<Rightarrow> u32 \<Rightarrow> ('s \<Rightarrow> u32) \<Rightarrow> ((u32 \<Rightarrow> u32) \<Rightarrow> 's \<Rightarrow> 's) \<Rightarrow> 's fields" where
  "field_u32 enc df get upd = (\<lambda>s. VU32 enc df (get s) (\<lambda>v. Return (upd (\<lambda>_. v) s)))"

definition field_u64 :: "u64 \<Rightarrow> ('s \<Rightarrow> u64) \<Rightarrow> ((u64 \<Rightarrow> u64) \<Rightarrow> 's \<Rightarrow> 's) \<Rightarrow> 's fields" where
  "field_u64 df get upd = (\<lambda>s. VU64 df (get s) (\<lambda>v. Return (upd (\<lambda>_. v) s)))"

definition field_bool :: "bool \<Rightarrow> ('s \<Rightarrow> bool) \<Rightarrow> ((bool \<Rightarrow> bool) \<Rightarrow> 's \<Rightarrow> 's) \<Rightarrow> 's fields" where
  "field_bool df get upd = (\<lambda>s. VBool df (get s) (\<lambda>v. Return (upd (\<lambda>_. v) s)))"

definition field_f16 :: "u32 \<Rightarrow> ('s \<Rightarrow> u32) \<Rightarrow> ((u32 \<Rightarrow> u32) \<Rightarrow> 's \<Rightarrow> 's) \<Rightarrow> 's fields" where
  "field_f16 df get upd = (\<lambda>s. VF16 df (get s) (\<lambda>v. Return (upd (\<lambda>_. v) s)))"

text \<open>The encoding of enumerations, with \<^verbatim>\<open>EnumValid\<close> for the given \<^verbatim>\<open>EnumBits\<close>.\<close>

definition enum_enc :: U32Enc where
  "enum_enc = U32Enc (Val 0) (Val 1) (BitsOffset 4 2) (BitsOffset 6 18)"

definition EnumValid :: "u64 \<Rightarrow> u32 \<Rightarrow> bool" where
  "EnumValid enum_bits v \<longleftrightarrow> v < 64 \<and> enum_bits AND push_bit (unat v) 1 \<noteq> 0"

definition field_enum :: "u64 \<Rightarrow> u32 \<Rightarrow> ('s \<Rightarrow> u32) \<Rightarrow> ((u32 \<Rightarrow> u32) \<Rightarrow> 's \<Rightarrow> 's) \<Rightarrow> 's fields" where
  "field_enum enum_bits df get upd = (\<lambda>s. VU32 enum_enc df (get s) (\<lambda>v.
     if EnumValid enum_bits v then Return (upd (\<lambda>_. v) s) else Failure kGenericError))"

definition if_conditional :: "('s \<Rightarrow> bool) \<Rightarrow> 's fields \<Rightarrow> 's fields" where
  "if_conditional c f = (\<lambda>s. VConditional (c s) (\<lambda>b. if b then f s else Return s))"

text \<open>A plain condition of the program, not asked of the visitor; an assignment; a check.\<close>

definition if_plain :: "('s \<Rightarrow> bool) \<Rightarrow> 's fields \<Rightarrow> 's fields \<Rightarrow> 's fields" where
  "if_plain c f g = (\<lambda>s. if c s then f s else g s)"

definition assign :: "('s \<Rightarrow> 's) \<Rightarrow> 's fields" where
  "assign f = (\<lambda>s. Return (f s))"

definition check :: "('s \<Rightarrow> bool) \<Rightarrow> 's fields" where
  "check c = (\<lambda>s. if c s then Return s else Failure kGenericError)"

definition nested :: "'t fields \<Rightarrow> ('s \<Rightarrow> 't) \<Rightarrow> (('t \<Rightarrow> 't) \<Rightarrow> 's \<Rightarrow> 's) \<Rightarrow> 's fields" where
  "nested f get upd = (\<lambda>s. VIsNested (\<lambda>b.
     if b then VEnter (bind_visit (f (get s)) (\<lambda>x. VLeave (Return (upd (\<lambda>_. x) s)))) else Return s))"

definition extensions_begin :: "('s \<Rightarrow> u64) \<Rightarrow> ((u64 \<Rightarrow> u64) \<Rightarrow> 's \<Rightarrow> 's) \<Rightarrow> 's fields" where
  "extensions_begin get upd = (\<lambda>s. VBeginExtensions (get s) (\<lambda>v. Return (upd (\<lambda>_. v) s)))"

definition extensions_end :: "'s fields" where
  "extensions_end = (\<lambda>s. VEndExtensions (Return s))"

text \<open>
  A bundle that begins with \<open>if (visitor->AllDefault(*this, &all_default)) { visitor->SetDefault(this); return true; }\<close>.
  \<^verbatim>\<open>Bundle::AllDefault\<close> and \<^verbatim>\<open>Bundle::SetDefault\<close> visit the same bundle with visitors that do not take this branch;
  the latter never fails.
\<close>

definition with_all_default ::
  "('s \<Rightarrow> bool) \<Rightarrow> ((bool \<Rightarrow> bool) \<Rightarrow> 's \<Rightarrow> 's) \<Rightarrow> 's fields \<Rightarrow> 's fields" where
  "with_all_default get upd body = (\<lambda>s.
     VAllDefault (Bundle_AllDefault (body s)) (get s) (\<lambda>(all_default, v).
       let s = upd (\<lambda>_. v) s in
       if all_default then
         VIsReading (\<lambda>r. Return (if r then (case Bundle_SetDefault (body (upd (\<lambda>_. True) s)) of None \<Rightarrow> s | Some s \<Rightarrow> s) else s))
       else body s))"

section \<open>Three runs of a bundle\<close>

text \<open>
  \<open>carries R p q r\<close>: when \<open>p\<close> is sized, \<open>q\<close> written and \<open>r\<close> reads what was written, the three go through the same
  fields and end with results related by \<open>R\<close>.  The values are those of \<open>p\<close>; \<open>all_default\<close> is computed while \<open>p\<close>
  is sized; half floats are written without loss and no extensions are set.
  Nothing is asked where sizing fails.
\<close>

definition f16_exact :: "u32 \<Rightarrow> bool" where
  "f16_exact v \<longleftrightarrow> (\<exists>h. unat h < 2 ^ 16 \<and> drop_bit 10 h AND 0x1F \<noteq> 31 \<and> h \<noteq> 0x8000 \<and> F16_decode h = Inr v)"

inductive carries :: "('a \<Rightarrow> 'a \<Rightarrow> 'a \<Rightarrow> bool) \<Rightarrow> 'a visit \<Rightarrow> 'a visit \<Rightarrow> 'a visit \<Rightarrow> bool" for R where
  Return: "R x y z \<Longrightarrow> carries R (Return x) (Return y) (Return z)"
| Failure: "carries R (Failure e) q r"
| Bits: "n \<le> 32 \<Longrightarrow> carries R (k v) (k1 v) (k2 v) \<Longrightarrow> carries R (VBits n df v k) (VBits n df1 v k1) (VBits n df2 v2 k2)"
| U32: "carries R (k v) (k1 v) (k2 v) \<Longrightarrow> carries R (VU32 enc df v k) (VU32 enc df1 v k1) (VU32 enc df2 v2 k2)"
| U64: "carries R (k v) (k1 v) (k2 v) \<Longrightarrow> carries R (VU64 df v k) (VU64 df1 v k1) (VU64 df2 v2 k2)"
| Bool: "carries R (k v) (k1 v) (k2 v) \<Longrightarrow> carries R (VBool df v k) (VBool df1 v k1) (VBool df2 v2 k2)"
| F16: "f16_exact v \<Longrightarrow> carries R (k v) (k1 v) (k2 v) \<Longrightarrow> carries R (VF16 df v k) (VF16 df1 v k1) (VF16 df2 v2 k2)"
| Conditional: "carries R (k c) (k1 c) (k2 c) \<Longrightarrow> carries R (VConditional c k) (VConditional c k1) (VConditional c k2)"
| AllDefault: "carries R (k (a, a)) (k1 (a, a)) (k2 (a, a)) \<Longrightarrow>
    carries R (VAllDefault a v k) (VAllDefault a1 a k1) (VAllDefault a2 v2 k2)"
| IsReading: "carries R (k False) (k1 False) (k2 True) \<Longrightarrow> carries R (VIsReading k) (VIsReading k1) (VIsReading k2)"
| IsNested: "carries R (k True) (k1 True) (k2 True) \<Longrightarrow> carries R (VIsNested k) (VIsNested k1) (VIsNested k2)"
| Enter: "carries R p p1 p2 \<Longrightarrow> carries R (VEnter p) (VEnter p1) (VEnter p2)"
| Leave: "carries R p p1 p2 \<Longrightarrow> carries R (VLeave p) (VLeave p1) (VLeave p2)"
| BeginExtensions: "carries R (k 0) (k1 0) (k2 0) \<Longrightarrow>
    carries R (VBeginExtensions 0 k) (VBeginExtensions 0 k1) (VBeginExtensions v2 k2)"
| EndExtensions: "carries R p p1 p2 \<Longrightarrow> carries R (VEndExtensions p) (VEndExtensions p1) (VEndExtensions p2)"

inductive_simps carries_simps [simp]:
  "carries R (Return x) (Return y) (Return z)"
  "carries R (Failure e) q r"
  "carries R (VBits n df v k) (VBits n1 df1 v1 k1) (VBits n2 df2 v2 k2)"
  "carries R (VU32 e df v k) (VU32 e1 df1 v1 k1) (VU32 e2 df2 v2 k2)"
  "carries R (VU64 df v k) (VU64 df1 v1 k1) (VU64 df2 v2 k2)"
  "carries R (VBool df v k) (VBool df1 v1 k1) (VBool df2 v2 k2)"
  "carries R (VF16 df v k) (VF16 df1 v1 k1) (VF16 df2 v2 k2)"
  "carries R (VConditional c k) (VConditional c1 k1) (VConditional c2 k2)"
  "carries R (VAllDefault a v k) (VAllDefault a1 v1 k1) (VAllDefault a2 v2 k2)"
  "carries R (VIsReading k) (VIsReading k1) (VIsReading k2)"
  "carries R (VIsNested k) (VIsNested k1) (VIsNested k2)"
  "carries R (VEnter p) (VEnter p1) (VEnter p2)"
  "carries R (VLeave p) (VLeave p1) (VLeave p2)"
  "carries R (VBeginExtensions v k) (VBeginExtensions v1 k1) (VBeginExtensions v2 k2)"
  "carries R (VEndExtensions p) (VEndExtensions p1) (VEndExtensions p2)"

text \<open>What a step of the writer and of the reader leave alone.\<close>

definition appended :: "bool list \<Rightarrow> BitWriter \<Rightarrow> BitWriter \<Rightarrow> bool" where
  "appended bs w w' \<longleftrightarrow> writable w' \<and> content w' = content w @ bs \<and> room w' = room w - length bs \<and>
     allotments w' = allotments w \<and> memory_manager (storage w') = memory_manager (storage w)"

definition sourced :: "bool list \<Rightarrow> read_state \<Rightarrow> bool" where
  "sourced bs s \<longleftrightarrow> br_ok (rd_reader s) \<and> begins (upcoming (rd_reader s)) bs \<and>
     TotalBitsConsumed (rd_reader s) + length bs \<le> 8 * length (br_data (rd_reader s)) \<and> pos_after_ext_size s = 0"

definition took :: "nat \<Rightarrow> read_state \<Rightarrow> read_state \<Rightarrow> bool" where
  "took n s s' \<longleftrightarrow> reader.advanced (rd_reader s) (rd_reader s') n \<and> br_data (rd_reader s') = br_data (rd_reader s) \<and>
     rd_ok s' = rd_ok s \<and> pos_after_ext_size s' = pos_after_ext_size s"

lemma Write_frame: "allotments (Write n v w) = allotments w"
  "memory_manager (storage (Write n v w)) = memory_manager (storage w)"
  by (simp_all add: Write_def Let_def copy_in_def)

lemma appended_0: "writable w \<Longrightarrow> appended [] w w"
  by (simp add: appended_def)

lemma appended_trans: "appended bs w w1 \<Longrightarrow> appended cs w1 w2 \<Longrightarrow> appended (bs @ cs) w w2"
  by (simp add: appended_def)

lemma took_0: "br_ok (rd_reader s) \<Longrightarrow> took 0 s s"
  by (simp add: took_def reader.advanced_0)

lemma took_trans: "took m s t \<Longrightarrow> took n t u \<Longrightarrow> took (m + n) s u"
  by (auto simp: took_def intro: reader.advanced_trans)

lemma sourced_append: "sourced (bs @ cs) s \<Longrightarrow> sourced bs s"
  by (auto simp: sourced_def begins_append)

lemma took_sourced:
  assumes "sourced (bs @ cs) s" and "took (length bs) s t"
  shows "sourced cs t"
proof -
  have "begins (upcoming (rd_reader t)) cs"
    using assms reader.advanced_begins unfolding sourced_def took_def by blast
  then show ?thesis using assms by (auto simp: sourced_def took_def reader.advanced_def)
qed

text \<open>The coders only write and read.\<close>

lemma Write_loop_frame: "allotments (snd (U64Coder_Write_loop v shift w)) = allotments w \<and>
    memory_manager (storage (snd (U64Coder_Write_loop v shift w))) = memory_manager (storage w)"
  by (induction v shift w rule: U64Coder_Write_loop.induct)
    (subst (1 2) U64Coder_Write_loop.simps, simp add: Write_frame)

lemma coder_write_frame:
  "allotments (snd (BitsCoder_Write n v w)) = allotments w"
  "memory_manager (storage (snd (BitsCoder_Write n v w))) = memory_manager (storage w)"
  "allotments (snd (U32Coder_Write enc v w)) = allotments w"
  "memory_manager (storage (snd (U32Coder_Write enc v w))) = memory_manager (storage w)"
  "allotments (snd (U64Coder_Write x w)) = allotments w"
  "memory_manager (storage (snd (U64Coder_Write x w))) = memory_manager (storage w)"
  "allotments (snd (F16Coder_Write v w)) = allotments w"
  "memory_manager (storage (snd (F16Coder_Write v w))) = memory_manager (storage w)"
  using Write_loop_frame [of "drop_bit 12 x" 12 "Write 12 (x AND 4095) (Write 2 3 w)"]
  by (auto simp: BitsCoder_Write_def U32Coder_Write_def U64Coder_Write_def F16Coder_Write_def Write_frame Let_def
      split: sum.splits prod.splits)

lemma refill_data [simp]: "br_data (Refill br) = br_data br"
proof -
  have "br_data (refill_bytes b) = br_data b" for b
    by (induction b rule: refill_bytes.induct) (subst refill_bytes.simps, simp add: Let_def)
  then show ?thesis by (simp add: Refill_def BoundsCheckedRefill_def Let_def)
qed

lemma ReadBits_data: "br_data (snd (ReadBits n br)) = br_data br"
  by (simp add: ReadBits_def Consume_def Let_def)

lemma coder_read_data:
  "br_data (snd (BitsCoder_Read n br)) = br_data br"
  "br_data (snd (U32Coder_Read enc br)) = br_data br"
  "br_data (snd (U64Coder_Read br)) = br_data br"
  "br_data (snd (F16Coder_Read br)) = br_data br"
proof -
  have R: "ReadBits n br = (v, br') \<Longrightarrow> br_data br' = br_data br" for n br v br'
    using ReadBits_data [of n br] by simp
  have L: "br_data (snd (U64Coder_Read_loop f sh x b)) = br_data b" for f sh x b
    by (induction f sh x b rule: U64Coder_Read_loop.induct) (auto simp: U64Coder_Read_loop.simps split: prod.splits, (metis R)+)
  show "br_data (snd (BitsCoder_Read n br)) = br_data br" "br_data (snd (U32Coder_Read enc br)) = br_data br"
    "br_data (snd (F16Coder_Read br)) = br_data br"
    by (auto simp: BitsCoder_Read_def U32Coder_Read_def F16Coder_Read_def Let_def split: prod.splits, (metis R)+)
  show "br_data (snd (U64Coder_Read br)) = br_data br"
    by (auto simp: U64Coder_Read_def L split: prod.splits, (metis R)+)
qed

lemma AllReadsWithinBounds_frame:
  assumes "AllReadsWithinBounds br = (b, br')"
  shows "br_ok br' = br_ok br" "upcoming br' = upcoming br" "TotalBitsConsumed br' = TotalBitsConsumed br"
    "br_data br' = br_data br"
proof -
  have "br' = br\<lparr>checked_out_of_bounds_bits := TotalBitsConsumed br\<rparr>"
    using assms by (simp add: AllReadsWithinBounds_def Let_def split: if_splits)
  then show "br_ok br' = br_ok br" "upcoming br' = upcoming br" "TotalBitsConsumed br' = TotalBitsConsumed br"
    "br_data br' = br_data br" by (simp_all add: br_ok_def upcoming_def TotalBitsConsumed_def fun_eq_iff)
qed

lemma checked_took:
  assumes p: "reader.parses p bs v" and s: "sourced bs s" and d: "\<And>r. br_data (snd (p r)) = br_data r"
  obtains r s' where "p (rd_reader s) = (v, r)" "checked v' r s = (Inr v', s')" "took (length bs) s s'"
proof -
  obtain r where r: "p (rd_reader s) = (v, r)" "reader.advanced (rd_reader s) r (length bs)"
    using p s reader.parsesD unfolding sourced_def by metis
  obtain b r' where A: "AllReadsWithinBounds r = (b, r')" by fastforce
  note F = AllReadsWithinBounds_frame [OF A]
  have dr: "br_data r = br_data (rd_reader s)" using d [of "rd_reader s"] r(1) by simp
  then have b
    using AllReadsWithinBounds_iff [of r] A s r(2) by (simp add: sourced_def reader.advanced_def)
  moreover have "reader.advanced (rd_reader s) r' (length bs)" using r(2) F by (simp add: reader.advanced_def)
  ultimately have "checked v' r s = (Inr v', s\<lparr> rd_reader := r' \<rparr>)" "took (length bs) s (s\<lparr> rd_reader := r' \<rparr>)"
    using A F dr by (simp_all add: checked_def took_def)
  then show ?thesis using that r(1) by blast
qed

text \<open>
  One primitive field: its size, its bits, its reading.  \<open>field_done\<close> collects what the three visitors do at it.
\<close>

definition field_done :: "'v \<Rightarrow> bool list \<Rightarrow>
    (size_state \<Rightarrow> 'v outcome \<times> size_state) \<Rightarrow> (write_state \<Rightarrow> 'v outcome \<times> write_state) \<Rightarrow>
    (read_state \<Rightarrow> 'v outcome \<times> read_state) \<Rightarrow> bool" where
  "field_done v bs sz wt rd \<longleftrightarrow>
     (\<forall>s. \<exists>s'. sz s = (Inr v, s') \<and> encoded_bits s' = encoded_bits s + length bs \<and> pos_after_ext s' = pos_after_ext s) \<and>
     (\<forall>s. writable (wr_writer s) \<longrightarrow> length bs \<le> room (wr_writer s) \<longrightarrow>
        (\<exists>s'. wt s = (Inr v, s') \<and> wr_ok s' = wr_ok s \<and> appended bs (wr_writer s) (wr_writer s'))) \<and>
     (\<forall>s. sourced bs s \<longrightarrow> (\<exists>s'. rd s = (Inr v, s') \<and> took (length bs) s s'))"

lemma CanEncodeVisitor_simps:
  "do_bits CanEncodeVisitor = size_bits_op" "do_u64 CanEncodeVisitor = size_u64_op"
  "do_u32 CanEncodeVisitor enc df v s = (Inr v, count_bits (U32Coder_CanEncode enc v) s)"
  "do_f16 CanEncodeVisitor df v s = (Inr v, count_bits (F16Coder_CanEncode v) s)"
  "do_bool CanEncodeVisitor = base_bool size_bits_op" "do_conditional CanEncodeVisitor c = c"
  "do_all_default CanEncodeVisitor a b = base_all_default (base_bool size_bits_op) a a"
  "is_reading CanEncodeVisitor = False" "visits_nested CanEncodeVisitor = True"
  "end_extensions CanEncodeVisitor s = (Inr (), s)"
  by (simp_all add: CanEncodeVisitor_def)

lemma WriteVisitor_simps:
  "do_bits (WriteVisitor n) = write_bits_op" "do_u64 (WriteVisitor n) = write_u64_op"
  "do_bool (WriteVisitor n) = base_bool write_bits_op" "do_conditional (WriteVisitor n) c = c"
  "do_all_default (WriteVisitor n) = base_all_default (base_bool write_bits_op)"
  "is_reading (WriteVisitor n) = False" "visits_nested (WriteVisitor n) = True"
  "begin_extensions (WriteVisitor n) = write_begin_extensions n" "end_extensions (WriteVisitor n) s = (Inr (), s)"
  by (simp_all add: WriteVisitor_def)

lemma ReadVisitor_simps:
  "do_bits ReadVisitor = read_bits_op" "do_u64 ReadVisitor = read_u64_op"
  "do_bool ReadVisitor = base_bool read_bits_op" "do_conditional ReadVisitor c = c"
  "do_all_default ReadVisitor = base_all_default (base_bool read_bits_op)"
  "is_reading ReadVisitor = True" "visits_nested ReadVisitor = True"
  "begin_extensions ReadVisitor = read_begin_extensions" "end_extensions ReadVisitor = read_end_extensions"
  by (simp_all add: ReadVisitor_def)

lemmas visitor_simps = CanEncodeVisitor_simps WriteVisitor_simps ReadVisitor_simps

lemma wrote_appended:
  assumes "writer.emits f bs" "writable (wr_writer s)" "length bs \<le> room (wr_writer s)"
    and "\<And>w. allotments (snd (f w)) = allotments w \<and> memory_manager (storage (snd (f w))) = memory_manager (storage w)"
  shows "\<exists>s'. wrote v (f (wr_writer s)) s = (Inr v, s') \<and> wr_ok s' = wr_ok s \<and> appended bs (wr_writer s) (wr_writer s')"
proof -
  obtain t where "f (wr_writer s) = (True, t)" "writable t" "content t = content (wr_writer s) @ bs"
    "room t = room (wr_writer s) - length bs" using assms(1-3) unfolding writer.emits_def by blast
  then show ?thesis using assms(4) [of "wr_writer s"] by (simp add: wrote_def appended_def)
qed

lemma field_doneI:
  assumes "can v = (True, length bs)" and "writer.emits (wr v) bs" and "reader.parses rd bs v"
    and "\<And>w. allotments (snd (wr v w)) = allotments w \<and>
      memory_manager (storage (snd (wr v w))) = memory_manager (storage w)"
    and "\<And>r. br_data (snd (rd r)) = br_data r"
  shows "field_done v bs (\<lambda>s. (Inr v, count_bits (can v) s)) (\<lambda>s. wrote v (wr v (wr_writer s)) s)
    (\<lambda>s. case rd (rd_reader s) of (x, r) \<Rightarrow> checked x r s)"
proof -
  have "\<exists>s'. (case rd (rd_reader s) of (x, r) \<Rightarrow> checked x r s) = (Inr v, s') \<and> took (length bs) s s'"
    if s: "sourced bs s" for s
    using checked_took [OF assms(3) s assms(5), where v' = v] by (metis (no_types, lifting) case_prod_conv)
  then show ?thesis
    using assms(1) wrote_appended [OF assms(2) _ _ assms(4), where v = v]
    unfolding field_done_def by (simp add: count_bits_def)
qed

lemma bits_done:
  assumes "unat v < 2 ^ n" "n \<le> 32"
  shows "field_done v (bits_of n (ucast v :: u64)) (size_bits_op n df v) (write_bits_op n df1 v) (read_bits_op n df2 v')"
  using field_doneI [where v = v and can = "BitsCoder_CanEncode n" and wr = "BitsCoder_Write n" and rd = "BitsCoder_Read n", OF bits_code.size_exact bits_code.wrt_emits bits_code.rdr_parses]
    assms coder_write_frame(1,2) coder_read_data(1)
  by (simp add: size_bits_op_def [abs_def] write_bits_op_def [abs_def] read_bits_op_def [abs_def])

lemma u32_done:
  assumes "ChooseSelector enc v = Inr c"
  shows "field_done v (U32_code enc v) (do_u32 CanEncodeVisitor enc df v) (do_u32 (WriteVisitor n) enc df1 v)
    (do_u32 ReadVisitor enc df2 v')"
  using field_doneI [where v = v and can = "U32Coder_CanEncode enc" and wr = "U32Coder_Write enc" and rd = "U32Coder_Read enc", OF u32_code.size_exact u32_code.wrt_emits u32_code.rdr_parses]
    assms coder_write_frame(3,4) coder_read_data(2)
  by (simp add: CanEncodeVisitor_def WriteVisitor_def ReadVisitor_def)

lemma u64_done: "field_done v (U64_code v) (size_u64_op df v) (write_u64_op df1 v) (read_u64_op df2 v')"
  using field_doneI [where v = v and can = U64Coder_CanEncode and wr = U64Coder_Write and rd = U64Coder_Read, OF u64_code.size_exact u64_code.wrt_emits u64_code.rdr_parses]
    coder_write_frame(5,6) coder_read_data(3)
  by (simp add: size_u64_op_def [abs_def] write_u64_op_def [abs_def] read_u64_op_def [abs_def])

lemma field_done_map:
  assumes "field_done x bs sz wt rd"
  shows "field_done (f x) bs (\<lambda>s. case sz s of (Inl e, s) \<Rightarrow> (Inl e, s) | (Inr x, s) \<Rightarrow> (Inr (f x), s))
    (\<lambda>s. case wt s of (Inl e, s) \<Rightarrow> (Inl e, s) | (Inr x, s) \<Rightarrow> (Inr (f x), s))
    (\<lambda>s. case rd s of (Inl e, s) \<Rightarrow> (Inl e, s) | (Inr x, s) \<Rightarrow> (Inr (f x), s))"
  unfolding field_done_def
proof (intro conjI allI impI)
  fix s :: size_state
  obtain s' where "sz s = (Inr x, s')" "encoded_bits s' = encoded_bits s + length bs \<and> pos_after_ext s' = pos_after_ext s"
    using assms unfolding field_done_def by blast
  then show "\<exists>s'. (case sz s of (Inl e, s) \<Rightarrow> (Inl e, s) | (Inr x, s) \<Rightarrow> (Inr (f x), s)) = (Inr (f x), s') \<and>
      encoded_bits s' = encoded_bits s + length bs \<and> pos_after_ext s' = pos_after_ext s" by simp
next
  fix s :: write_state assume "writable (wr_writer s)" "length bs \<le> room (wr_writer s)"
  then obtain s' where "wt s = (Inr x, s')" "wr_ok s' = wr_ok s \<and> appended bs (wr_writer s) (wr_writer s')"
    using assms unfolding field_done_def by blast
  then show "\<exists>s'. (case wt s of (Inl e, s) \<Rightarrow> (Inl e, s) | (Inr x, s) \<Rightarrow> (Inr (f x), s)) = (Inr (f x), s') \<and>
      wr_ok s' = wr_ok s \<and> appended bs (wr_writer s) (wr_writer s')" by simp
next
  fix s :: read_state assume "sourced bs s"
  then obtain s' where "rd s = (Inr x, s')" "took (length bs) s s'" using assms unfolding field_done_def by blast
  then show "\<exists>s'. (case rd s of (Inl e, s) \<Rightarrow> (Inl e, s) | (Inr x, s) \<Rightarrow> (Inr (f x), s)) = (Inr (f x), s') \<and>
      took (length bs) s s'" by simp
qed

lemma bool_done:
  "field_done v [v] (base_bool size_bits_op df v) (base_bool write_bits_op df1 v) (base_bool read_bits_op df2 v')"
proof -
  have x: "unat (of_bool v :: u32) < 2 ^ 1" "bits_of 1 (ucast (of_bool v :: u32) :: u64) = [v]" "((of_bool v :: u32) = 1) = v"
    by (simp_all add: bits_of_def)
  have "field_done (of_bool v) [v] (size_bits_op 1 (of_bool df) (of_bool v)) (write_bits_op 1 (of_bool df1) (of_bool v))
      (read_bits_op 1 (of_bool df2) (of_bool v'))"
    by (rule bits_done [OF x(1), unfolded x(2)]) simp
  from field_done_map [OF this, of "\<lambda>x. x = 1"] show ?thesis
    unfolding base_bool_def [abs_def] x(3) .
qed

lemma f16_done:
  assumes "f16_exact v"
  obtains bs where "field_done v bs (do_f16 CanEncodeVisitor df v) (do_f16 (WriteVisitor n) df1 v) (do_f16 ReadVisitor df2 v')"
proof -
  obtain h where "unat h < 2 ^ 16" "drop_bit 10 h AND 0x1F \<noteq> 31" "h \<noteq> 0x8000" "F16_decode h = Inr v"
    using assms by (auto simp: f16_exact_def)
  with F16_half [of h] have c: "F16Coder_CanEncode v = (True, 16)"
    "writer.emits (F16Coder_Write v) (bits_of 16 (ucast h :: u64))"
    "reader.parses F16Coder_Read (bits_of 16 (ucast h :: u64)) (Inr v)" by auto
  let ?bs = "bits_of 16 (ucast h :: u64)"
  have "do_f16 ReadVisitor df2 v' s = (Inr v, s') \<and> took (length ?bs) s s'"
    if "F16Coder_Read (rd_reader s) = (Inr v, r)" "checked v r s = (Inr v, s')" "took (length ?bs) s s'" for s r s'
    using that by (simp add: ReadVisitor_def)
  then have "\<exists>s'. do_f16 ReadVisitor df2 v' s = (Inr v, s') \<and> took (length ?bs) s s'" if "sourced ?bs s" for s
    using checked_took [OF c(3) that coder_read_data(4), where v' = v] by metis
  moreover have "\<exists>s'. do_f16 CanEncodeVisitor df v s = (Inr v, s') \<and> encoded_bits s' = encoded_bits s + length ?bs \<and>
      pos_after_ext s' = pos_after_ext s" for s
    by (simp add: CanEncodeVisitor_def count_bits_def c(1))
  moreover have "\<exists>s'. do_f16 (WriteVisitor n) df1 v s = (Inr v, s') \<and> wr_ok s' = wr_ok s \<and>
      appended ?bs (wr_writer s) (wr_writer s')" if "writable (wr_writer s)" "length ?bs \<le> room (wr_writer s)" for s
    using wrote_appended [OF c(2) that, where v = v] coder_write_frame(7,8) by (simp add: WriteVisitor_def)
  ultimately show ?thesis using that [of ?bs] unfolding field_done_def by blast
qed

text \<open>The contract of the three runs.\<close>

definition writes :: "'a visit \<Rightarrow> nat \<Rightarrow> 'a \<Rightarrow> bool list \<Rightarrow> bool" where
  "writes q d y bs \<longleftrightarrow> (\<forall>s. writable (wr_writer s) \<longrightarrow> length bs \<le> room (wr_writer s) \<longrightarrow>
     (\<exists>s'. run (WriteVisitor 0) q d s = (Inr y, s') \<and> wr_ok s' = wr_ok s \<and> appended bs (wr_writer s) (wr_writer s')))"

definition reads :: "'a visit \<Rightarrow> nat \<Rightarrow> 'a \<Rightarrow> bool list \<Rightarrow> bool" where
  "reads r d z bs \<longleftrightarrow> (\<forall>s. sourced bs s \<longrightarrow> (\<exists>s'. run ReadVisitor r d s = (Inr z, s') \<and> took (length bs) s s'))"

definition runs :: "('a \<Rightarrow> 'a \<Rightarrow> 'a \<Rightarrow> bool) \<Rightarrow> 'a visit \<Rightarrow> 'a visit \<Rightarrow> 'a visit \<Rightarrow> bool" where
  "runs R p q r \<longleftrightarrow> (\<forall>d s x s'. run CanEncodeVisitor p d s = (Inr x, s') \<longrightarrow> sz_ok s' \<longrightarrow> pos_after_ext s = 0 \<longrightarrow>
     (\<exists>y z bs. R x y z \<and> encoded_bits s' = encoded_bits s + length bs \<and> pos_after_ext s' = 0 \<and>
       writes q d y bs \<and> reads r d z bs))"

lemma runsE:
  assumes "runs R p q r" "run CanEncodeVisitor p d s = (Inr x, s')" "sz_ok s'" "pos_after_ext s = 0"
  obtains y z bs where "R x y z" "encoded_bits s' = encoded_bits s + length bs" "pos_after_ext s' = 0"
    "writes q d y bs" "reads r d z bs"
  using assms unfolding runs_def by blast

text \<open>A failed check is never forgotten.\<close>

lemma size_step_ok:
  "size_bits_op n df v s = (x, s') \<Longrightarrow> sz_ok s' \<Longrightarrow> sz_ok s"
  "size_u64_op df64 v64 s = (x64, s') \<Longrightarrow> sz_ok s' \<Longrightarrow> sz_ok s"
  "base_bool size_bits_op b bv s = (xb, s') \<Longrightarrow> sz_ok s' \<Longrightarrow> sz_ok s"
  by (auto simp: size_bits_op_def size_u64_op_def base_bool_def count_bits_def)

lemma base_all_default_size:
  "base_all_default (base_bool size_bits_op) a a s = ((a, a), s\<lparr> encoded_bits := encoded_bits s + 1 \<rparr>)"
  by (simp add: base_all_default_def base_bool_def size_bits_op_def count_bits_def BitsCoder_CanEncode_def)

lemma CanEncode_begin:
  "begin_extensions CanEncodeVisitor v s = (x, s') \<Longrightarrow> sz_ok s' \<Longrightarrow> sz_ok s"
  by (auto simp: CanEncodeVisitor_def size_u64_op_def count_bits_def Let_def split: if_splits)

lemma run_CanEncode_ok: "run CanEncodeVisitor p d s = (x, s') \<Longrightarrow> sz_ok s' \<Longrightarrow> sz_ok s"
proof (induction p arbitrary: d s)
  case (VAllDefault a v k)
  then have "run CanEncodeVisitor (k (a, a)) d (s\<lparr> encoded_bits := encoded_bits s + 1 \<rparr>) = (x, s')"
    by (simp add: visitor_simps base_all_default_size)
  then show ?case using VAllDefault.IH [OF rangeI] VAllDefault.prems(2) by fastforce
next
  case (VBits n df v k)
  then have "run CanEncodeVisitor (k v) d (count_bits (BitsCoder_CanEncode n v) s) = (x, s')"
    by (simp add: visitor_simps size_bits_op_def)
  then show ?case using VBits.IH [OF rangeI] VBits.prems(2) by (fastforce simp: count_bits_def)
next
  case (VU32 enc df v k)
  then have "run CanEncodeVisitor (k v) d (count_bits (U32Coder_CanEncode enc v) s) = (x, s')"
    by (simp add: visitor_simps)
  then show ?case using VU32.IH [OF rangeI] VU32.prems(2) by (fastforce simp: count_bits_def)
next
  case (VU64 df v k)
  then have "run CanEncodeVisitor (k v) d (count_bits (U64Coder_CanEncode v) s) = (x, s')"
    by (simp add: visitor_simps size_u64_op_def)
  then show ?case using VU64.IH [OF rangeI] VU64.prems(2) by (fastforce simp: count_bits_def)
next
  case (VF16 df v k)
  then have "run CanEncodeVisitor (k v) d (count_bits (F16Coder_CanEncode v) s) = (x, s')"
    by (simp add: visitor_simps)
  then show ?case using VF16.IH [OF rangeI] VF16.prems(2) by (fastforce simp: count_bits_def)
next
  case (VBool df v k)
  then have "run CanEncodeVisitor (k v) d (count_bits (BitsCoder_CanEncode 1 (of_bool v)) s) = (x, s')"
    by (simp add: visitor_simps base_bool_def size_bits_op_def)
  then show ?case using VBool.IH [OF rangeI] VBool.prems(2) by (fastforce simp: count_bits_def)
next
  case (VBeginExtensions v k)
  then show ?case by (auto split: prod.splits sum.splits dest: CanEncode_begin) (blast dest: CanEncode_begin)
qed (auto simp: visitor_simps split: if_splits, (metis rangeI)+)

lemma writes_field:
  assumes q: "\<And>s t. wtop s = (Inr v, t) \<Longrightarrow> run (WriteVisitor 0) q d s = run (WriteVisitor 0) q' d t"
    and F: "field_done v bs szop wtop rdop" and w: "writes q' d y cs"
  shows "writes q d y (bs @ cs)"
  unfolding writes_def
proof (intro allI impI)
  fix s :: write_state assume s: "writable (wr_writer s)" "length (bs @ cs) \<le> room (wr_writer s)"
  obtain t where t: "wtop s = (Inr v, t)" "wr_ok t = wr_ok s" "appended bs (wr_writer s) (wr_writer t)"
    using F s unfolding field_done_def by fastforce
  then have "writable (wr_writer t)" "length cs \<le> room (wr_writer t)" using s(2) by (simp_all add: appended_def)
  then obtain u where "run (WriteVisitor 0) q' d t = (Inr y, u)" "wr_ok u = wr_ok t" "appended cs (wr_writer t) (wr_writer u)"
    using w unfolding writes_def by blast
  then show "\<exists>s'. run (WriteVisitor 0) q d s = (Inr y, s') \<and> wr_ok s' = wr_ok s \<and> appended (bs @ cs) (wr_writer s) (wr_writer s')"
    using t by (auto simp: q [OF t(1)] intro: appended_trans)
qed

lemma reads_field:
  assumes r: "\<And>s t. rdop s = (Inr v, t) \<Longrightarrow> run ReadVisitor r d s = run ReadVisitor r' d t"
    and F: "field_done v bs szop wtop rdop" and rd: "reads r' d z cs"
  shows "reads r d z (bs @ cs)"
  unfolding reads_def
proof (intro allI impI)
  fix s :: read_state assume s: "sourced (bs @ cs) s"
  obtain t where t: "rdop s = (Inr v, t)" "took (length bs) s t"
    using F sourced_append [OF s] unfolding field_done_def by blast
  then obtain u where "run ReadVisitor r' d t = (Inr z, u)" "took (length cs) t u"
    using rd took_sourced [OF s] unfolding reads_def by blast
  then show "\<exists>s'. run ReadVisitor r d s = (Inr z, s') \<and> took (length (bs @ cs)) s s'"
    using t by (auto simp: r [OF t(1)] intro: took_trans)
qed

lemma runs_field:
  assumes sz: "\<And>s. \<exists>s'. szop s = (Inr v, s')"
    and field: "\<And>s s'. szop s = (Inr v, s') \<Longrightarrow> sz_ok s' \<Longrightarrow> \<exists>bs. field_done v bs szop wtop rdop"
    and ih: "runs R p' q' r'"
    and p: "\<And>d s t. szop s = (Inr v, t) \<Longrightarrow> run CanEncodeVisitor p d s = run CanEncodeVisitor p' d t"
    and q: "\<And>d s t. wtop s = (Inr v, t) \<Longrightarrow> run (WriteVisitor 0) q d s = run (WriteVisitor 0) q' d t"
    and r: "\<And>d s t. rdop s = (Inr v, t) \<Longrightarrow> run ReadVisitor r d s = run ReadVisitor r' d t"
  shows "runs R p q r"
  unfolding runs_def
proof (intro allI impI)
  fix d x and s s' :: size_state assume run: "run CanEncodeVisitor p d s = (Inr x, s')" "sz_ok s'" "pos_after_ext s = 0"
  obtain s1 where s1: "szop s = (Inr v, s1)" using sz by blast
  then have n: "run CanEncodeVisitor p' d s1 = (Inr x, s')" using run(1) p by simp
  then have "sz_ok s1" using run(2) by (rule run_CanEncode_ok)
  then obtain bs where F: "field_done v bs szop wtop rdop" using field [OF s1] by blast
  then have e: "encoded_bits s1 = encoded_bits s + length bs" "pos_after_ext s1 = 0"
    using s1 run(3) unfolding field_done_def by (metis prod.inject)+
  from ih n run(2) e(2) obtain y z cs where "R x y z" "encoded_bits s' = encoded_bits s1 + length cs" "pos_after_ext s' = 0"
    "writes q' d y cs" "reads r' d z cs" by (rule runsE)
  then show "\<exists>y z bs. R x y z \<and> encoded_bits s' = encoded_bits s + length bs \<and> pos_after_ext s' = 0 \<and>
       writes q d y bs \<and> reads r d z bs"
    using writes_field [OF q F] reads_field [OF r F] e by (intro exI [of _ y] exI [of _ z] exI [of _ "bs @ cs"]) simp
qed

lemma begin_done:
  "field_done 0 (U64_code 0) (begin_extensions CanEncodeVisitor 0) (begin_extensions (WriteVisitor 0) 0)
    (begin_extensions ReadVisitor v)"
proof -
  have D: "\<exists>s'. write_u64_op 0 0 s = (Inr 0, s') \<and> wr_ok s' = wr_ok s \<and>
      appended (U64_code 0) (wr_writer s) (wr_writer s')"
    if "writable (wr_writer s)" "length (U64_code 0) \<le> room (wr_writer s)" for s
    using u64_done [of 0 0 0 0 v] that unfolding field_done_def by blast
  have E: "\<exists>s'. read_u64_op 0 v s = (Inr 0, s') \<and> took (length (U64_code 0)) s s'" if "sourced (U64_code 0) s" for s
    using u64_done [of 0 0 0 0 v] that unfolding field_done_def by blast
  have "\<exists>s'. begin_extensions CanEncodeVisitor 0 s = (Inr 0, s') \<and> encoded_bits s' = encoded_bits s + length (U64_code 0) \<and>
      pos_after_ext s' = pos_after_ext s" for s
    by (simp add: CanEncodeVisitor_def size_u64_op_def count_bits_def u64_code.size_exact)
  moreover have "\<exists>s'. begin_extensions (WriteVisitor 0) 0 s = (Inr 0, s') \<and> wr_ok s' = wr_ok s \<and>
      appended (U64_code 0) (wr_writer s) (wr_writer s')"
    if "writable (wr_writer s)" "length (U64_code 0) \<le> room (wr_writer s)" for s
    using D [OF that] by (auto simp: visitor_simps write_begin_extensions_def)
  moreover have "\<exists>s'. begin_extensions ReadVisitor v s = (Inr 0, s') \<and> took (length (U64_code 0)) s s'"
    if "sourced (U64_code 0) s" for s
    using E [OF that] by (auto simp: visitor_simps read_begin_extensions_def)
  ultimately show ?thesis unfolding field_done_def by blast
qed

lemma carries_runs:
  assumes "carries R p q r"
  shows "runs R p q r"
  using assms
proof induction
  case (Return x y z)
  then show ?case by (auto simp: runs_def writes_def reads_def appended_0 sourced_def took_0)
next
  case (Bits n k v k1 k2 df df1 df2 v2)
  show ?case
  proof (rule runs_field [where szop = "size_bits_op n df v" and wtop = "write_bits_op n df1 v" and
        rdop = "read_bits_op n df2 v2", OF _ _ Bits.IH])
    fix s s' assume "size_bits_op n df v s = (Inr v, s')" "sz_ok s'"
    then have "unat v < 2 ^ n" by (auto simp: size_bits_op_def count_bits_def BitsCoder_CanEncode_def)
    from bits_done [OF this Bits.hyps(1)]
    show "\<exists>bs. field_done v bs (size_bits_op n df v) (write_bits_op n df1 v) (read_bits_op n df2 v2)" by blast
  qed (auto simp: visitor_simps size_bits_op_def)
next
  case (U32 k v k1 k2 enc df df1 df2 v2)
  show ?case
  proof (rule runs_field [where szop = "do_u32 CanEncodeVisitor enc df v" and wtop = "do_u32 (WriteVisitor 0) enc df1 v" and
        rdop = "do_u32 ReadVisitor enc df2 v2", OF _ _ U32.IH])
    fix s s' assume "do_u32 CanEncodeVisitor enc df v s = (Inr v, s')" "sz_ok s'"
    then have "fst (U32Coder_CanEncode enc v)" by (auto simp: CanEncodeVisitor_def count_bits_def)
    then obtain c where "ChooseSelector enc v = Inr c" by (auto simp: U32Coder_CanEncode_def split: sum.splits)
    from u32_done [OF this]
    show "\<exists>bs. field_done v bs (do_u32 CanEncodeVisitor enc df v) (do_u32 (WriteVisitor 0) enc df1 v) (do_u32 ReadVisitor enc df2 v2)"
      by blast
  qed (auto simp: visitor_simps)
next
  case (U64 k v k1 k2 df df1 df2 v2)
  show ?case
    using u64_done [of v df df1 df2 v2] by (intro runs_field [where szop = "size_u64_op df v" and wtop = "write_u64_op df1 v" and
        rdop = "read_u64_op df2 v2", OF _ _ U64.IH])
      (auto simp: visitor_simps size_u64_op_def)
next
  case (Bool k v k1 k2 df df1 df2 v2)
  show ?case
    using bool_done [of v df df1 df2 v2] by (intro runs_field [where szop = "base_bool size_bits_op df v" and wtop = "base_bool write_bits_op df1 v" and
        rdop = "base_bool read_bits_op df2 v2", OF _ _ Bool.IH])
      (auto simp: visitor_simps size_bits_op_def base_bool_def)
next
  case (F16 v k k1 k2 df df1 df2 v2)
  show ?case
  proof (rule runs_field [where szop = "do_f16 CanEncodeVisitor df v" and wtop = "do_f16 (WriteVisitor 0) df1 v" and
        rdop = "do_f16 ReadVisitor df2 v2", OF _ _ F16.IH])
    show "\<exists>bs. field_done v bs (do_f16 CanEncodeVisitor df v) (do_f16 (WriteVisitor 0) df1 v) (do_f16 ReadVisitor df2 v2)"
      using f16_done [OF F16.hyps(1)] by blast
  qed (auto simp: visitor_simps)
next
  case (AllDefault k a k1 k2 v a1 a2 v2)
  show ?case
    using bool_done [of a True True True v2] by (intro runs_field [where szop = "base_bool size_bits_op True a" and wtop = "base_bool write_bits_op True a" and
        rdop = "base_bool read_bits_op True v2", OF _ _ AllDefault.IH])
      (auto simp: visitor_simps base_all_default_def size_bits_op_def base_bool_def)
next
  case (BeginExtensions k k1 k2 v2)
  show ?case
    using begin_done [of v2] by (intro runs_field [where szop = "begin_extensions CanEncodeVisitor 0" and
        wtop = "begin_extensions (WriteVisitor 0) 0" and rdop = "begin_extensions ReadVisitor v2", OF _ _ BeginExtensions.IH])
      (auto simp: CanEncodeVisitor_def size_u64_op_def)
next
  case (EndExtensions p p1 p2)
  have "reads (VEndExtensions r) d z bs" if "reads r d z bs" for r :: "'a visit" and d z bs
    using that by (auto simp: reads_def visitor_simps read_end_extensions_def sourced_def)
  moreover have "writes (VEndExtensions q) d y bs = writes q d y bs" for q :: "'a visit" and d y bs
    by (simp add: writes_def visitor_simps)
  moreover have "run CanEncodeVisitor (VEndExtensions p) d s = run CanEncodeVisitor p d s" for d s
    by (simp add: visitor_simps)
  ultimately show ?case using EndExtensions.IH unfolding runs_def by metis
next
  case (Enter p p1 p2)
  have "writes (VEnter q) d y bs" if "writes q (d + 1) y bs" "d < kMaxExtensions" for q :: "'a visit" and d y bs
    using that by (simp add: writes_def)
  moreover have "reads (VEnter r) d z bs" if "reads r (d + 1) z bs" "d < kMaxExtensions" for r :: "'a visit" and d z bs
    using that by (simp add: reads_def)
  moreover have "run CanEncodeVisitor p (d + 1) s = (Inr x, s') \<and> d < kMaxExtensions"
    if "run CanEncodeVisitor (VEnter p) d s = (Inr x, s')" for d x s s' using that by (simp split: if_splits)
  ultimately show ?case using Enter.IH unfolding runs_def by meson
next
  case (Leave p p1 p2)
  have "writes (VLeave q) d y bs = writes q (d - 1) y bs" "reads (VLeave q) d y bs = reads q (d - 1) y bs"
    for q :: "'a visit" and d y bs by (simp_all add: writes_def reads_def)
  then show ?case using Leave.IH by (simp add: runs_def)
qed (simp_all add: runs_def writes_def reads_def visitor_simps)

lemma carries_bind:
  assumes "carries Q p q r" and "\<And>x y z. Q x y z \<Longrightarrow> carries R (f x) (g y) (h z)"
  shows "carries R (bind_visit p f) (bind_visit q g) (bind_visit r h)"
  using assms(1) by induction (simp_all add: assms(2))

text \<open>Sizes only grow.\<close>

lemma run_CanEncode_mono: "run CanEncodeVisitor p d s = (x, s') \<Longrightarrow> encoded_bits s \<le> encoded_bits s'"
proof (induction p arbitrary: d s)
  case (VAllDefault a v k)
  then have "run CanEncodeVisitor (k (a, a)) d (s\<lparr> encoded_bits := encoded_bits s + 1 \<rparr>) = (x, s')"
    by (simp add: visitor_simps base_all_default_size)
  then show ?case using VAllDefault.IH [OF rangeI] by fastforce
next
  case (VBits n df v k)
  then have "run CanEncodeVisitor (k v) d (count_bits (BitsCoder_CanEncode n v) s) = (x, s')"
    by (simp add: visitor_simps size_bits_op_def)
  then show ?case using VBits.IH [OF rangeI] by (fastforce simp: count_bits_def)
next
  case (VU32 enc df v k)
  then have "run CanEncodeVisitor (k v) d (count_bits (U32Coder_CanEncode enc v) s) = (x, s')"
    by (simp add: visitor_simps)
  then show ?case using VU32.IH [OF rangeI] by (fastforce simp: count_bits_def)
next
  case (VU64 df v k)
  then have "run CanEncodeVisitor (k v) d (count_bits (U64Coder_CanEncode v) s) = (x, s')"
    by (simp add: visitor_simps size_u64_op_def)
  then show ?case using VU64.IH [OF rangeI] by (fastforce simp: count_bits_def)
next
  case (VF16 df v k)
  then have "run CanEncodeVisitor (k v) d (count_bits (F16Coder_CanEncode v) s) = (x, s')"
    by (simp add: visitor_simps)
  then show ?case using VF16.IH [OF rangeI] by (fastforce simp: count_bits_def)
next
  case (VBool df v k)
  then have "run CanEncodeVisitor (k v) d (count_bits (BitsCoder_CanEncode 1 (of_bool v)) s) = (x, s')"
    by (simp add: visitor_simps base_bool_def size_bits_op_def)
  then show ?case using VBool.IH [OF rangeI] by (fastforce simp: count_bits_def)
next
  case (VBeginExtensions v k)
  obtain y s1 where b: "begin_extensions CanEncodeVisitor v s = (y, s1)" by fastforce
  then have "encoded_bits s \<le> encoded_bits s1"
    by (auto simp: CanEncodeVisitor_def size_u64_op_def count_bits_def Let_def split: if_splits)
  then show ?case using VBeginExtensions.IH [OF rangeI] VBeginExtensions.prems b
    by (auto split: sum.splits intro: order_trans)
qed (auto simp: visitor_simps split: if_splits, (metis rangeI)+)

text \<open>What is written is determined.\<close>

lemma writable_with_room: "\<exists>w. writable w \<and> n \<le> room w"
proof -
  define w0 where "w0 = BitWriter_new (\<lambda>k n. Some (replicate n 0))"
  have w0: "bw_ok w0" unfolding w0_def by (rule BitWriter_new_ok) simp
  have mm: "mm_total w0" by (simp add: w0_def mm_total_def BitWriter_new_def PaddedBytes_new_def)
  obtain st w where "Allotment_Init (n + 1) w0 = (st, w)" by fastforce
  with Init_total [OF mm, of "n + 1"] have i: "Allotment_Init (n + 1) w0 = (kOk, w)" by simp
  note I = Init_ok [OF w0 i]
  have "n + 1 \<le> room w" using I(5) by linarith
  then have "writable w \<and> n \<le> room w" using I(1) I(8) by (simp add: writable_def)
  then show ?thesis by blast
qed

lemma writes_unique:
  assumes "writes q d y bs" "writes q d y' bs'" "length bs = length bs'"
  shows "bs = bs'"
proof -
  obtain w where w: "writable w" "length bs \<le> room w" using writable_with_room by blast
  let ?s = "\<lparr> wr_ok = True, wr_writer = w \<rparr>"
  obtain s1 where "run (WriteVisitor 0) q d ?s = (Inr y, s1)" "appended bs w (wr_writer s1)"
    using assms(1) [unfolded writes_def, rule_format, of ?s] w by auto
  moreover obtain s2 where "run (WriteVisitor 0) q d ?s = (Inr y', s2)" "appended bs' w (wr_writer s2)"
    using assms(2) [unfolded writes_def, rule_format, of ?s] assms(3) w by auto
  ultimately show ?thesis by (simp add: appended_def)
qed

section \<open>The contract of a bundle\<close>

text \<open>
  A bundle's \<^verbatim>\<open>VisitFields\<close>, the bundles it can carry, the bundle as sizing leaves it (with \<open>all_default\<close>
  computed), the bundles it may be read into and what the bundle that is read has in common with the written one.
\<close>

locale field_bundle =
  fixes visit_fields :: "'s fields"
    and wf :: "'s \<Rightarrow> bool"
    and sized :: "'s \<Rightarrow> 's"
    and target :: "'s \<Rightarrow> 's \<Rightarrow> bool"
    and agree :: "'s \<Rightarrow> 's \<Rightarrow> bool"
  assumes three_runs: "wf s \<Longrightarrow> target s t \<Longrightarrow>
    carries (\<lambda>x y z. x = sized s \<and> agree s z) (visit_fields s) (visit_fields (sized s)) (visit_fields t)"
begin

lemma contract:
  assumes "wf s" "target s t" "Bundle_CanEncode (visit_fields s) = Inr (s', eb, nb)"
  obtains y z bs where "s' = sized s" "eb = 0" "length bs = nb" "agree s z"
    "writes (VEnter (visit_fields (sized s))) 0 y bs" "reads (VEnter (visit_fields t)) 0 z bs"
proof -
  let ?s0 = "\<lparr> sz_ok = True, encoded_bits = 0, sz_extensions = 0, pos_after_ext = 0 \<rparr>"
  obtain x st where run: "run CanEncodeVisitor (VEnter (visit_fields s)) 0 ?s0 = (x, st)" by fastforce
  have x: "x = Inr s'" and sz: "GetSizes st = Inr (eb, nb)"
    using assms(3) run by (auto simp: Bundle_CanEncode_def Visit_def and_then_eq_Inr split: sum.splits)
  have ok: "sz_ok st" using sz by (auto simp: GetSizes_def split: if_splits)
  have "carries (\<lambda>x y z. x = sized s \<and> agree s z) (VEnter (visit_fields s)) (VEnter (visit_fields (sized s))) (VEnter (visit_fields t))"
    using three_runs [OF assms(1,2)] by simp
  then have "runs (\<lambda>x y z. x = sized s \<and> agree s z) (VEnter (visit_fields s)) (VEnter (visit_fields (sized s))) (VEnter (visit_fields t))"
    by (rule carries_runs)
  from this run [unfolded x] ok obtain y z bs where "s' = sized s \<and> agree s z" "encoded_bits st = encoded_bits ?s0 + length bs"
    "pos_after_ext st = 0" "writes (VEnter (visit_fields (sized s))) 0 y bs" "reads (VEnter (visit_fields t)) 0 z bs"
    by (rule runsE) simp
  then show ?thesis using that sz ok by (auto simp: GetSizes_def)
qed

text \<open>What \<open>Write\<close> emits, \<open>Read\<close> takes: exactly the announced bits, for the same bundle.\<close>

lemma write_read:
  fixes layer :: 'l
  assumes s: "wf s" "target s t0" and can: "Bundle_CanEncode (visit_fields s) = Inr (s', eb, nb)" and pos: "0 < nb"
  shows "\<exists>bs. length bs = nb \<and>
    (\<forall>w aux. bw_ok w \<longrightarrow> ran bs 0 (if b then add_totals layer nb 0 \<circ> id else id) (Bundle_Write visit_fields s layer b) w aux) \<and>
    (\<forall>t r. target s t \<longrightarrow> br_ok r \<longrightarrow> begins (upcoming r) bs \<longrightarrow> TotalBitsConsumed r + nb \<le> 8 * length (br_data r) \<longrightarrow>
       (\<exists>z r'. Bundle_Read (visit_fields t) r = (Inr z, r') \<and> agree s z \<and> reader.advanced r r' nb))"
proof -
  from contract [OF s can] obtain y z0 bs where c: "s' = sized s" "eb = 0" "length bs = nb" "agree s z0"
    and w: "writes (VEnter (visit_fields (sized s))) 0 y bs" .
  define f where "f = (\<lambda>(w, aux :: 'l AuxOut). case Visit (WriteVisitor 0) (visit_fields (sized s)) \<lparr> wr_ok = True, wr_writer = w \<rparr> of
      (Inl e, s) \<Rightarrow> (e, wr_writer s, aux) | (Inr x, s) \<Rightarrow> (if wr_ok s then kOk else kGenericError, wr_writer s, aux))"
  have f: "ran bs nb id f w aux" if "bw_ok w" "pb_data (storage w) \<noteq> None" "nb \<le> room w" for w aux
  proof -
    note room = that(3)
    have "writable w" using that by (simp add: writable_def)
    then obtain s' where "Visit (WriteVisitor 0) (visit_fields (sized s)) \<lparr> wr_ok = True, wr_writer = w \<rparr> = (Inr y, s')"
      "wr_ok s'" "appended bs w (wr_writer s')"
      using w [unfolded writes_def, rule_format, of "\<lparr> wr_ok = True, wr_writer = w \<rparr>"] room c(3) by (auto simp: Visit_def)
    then show ?thesis by (auto simp: ran_def f_def appended_def writable_def c(3))
  qed
  have W: "Bundle_Write visit_fields s layer b = WithMaxBits nb layer b f False"
    by (rule ext) (simp add: Bundle_Write_def can c(1,2) f_def)
  have "ran bs 0 (if b then add_totals layer nb 0 \<circ> id else id) (Bundle_Write visit_fields s layer b) w aux" if "bw_ok w" for w aux
    unfolding W by (rule ran_Allot [OF that pos order_refl _ f, where l = layer and b = b and h = False, unfolded if_False])
      (simp add: c(3))
  moreover have "\<exists>z r'. Bundle_Read (visit_fields t) r = (Inr z, r') \<and> agree s z \<and> reader.advanced r r' nb"
    if t: "target s t" and st: "br_ok r" "begins (upcoming r) bs" "TotalBitsConsumed r + nb \<le> 8 * length (br_data r)" for t r
  proof -
    from contract [OF s(1) t can] obtain y1 z cs where d: "length cs = nb" "agree s z"
      and w1: "writes (VEnter (visit_fields (sized s))) 0 y1 cs" and r: "reads (VEnter (visit_fields t)) 0 z cs" .
    have "cs = bs" using writes_unique [OF w1 w] c(3) d(1) by simp
    moreover have "sourced bs (read_start r)" using st c(3) by (simp add: sourced_def read_start_def)
    ultimately obtain s' where "Visit ReadVisitor (visit_fields t) (read_start r) = (Inr z, s')" "took nb (read_start r) s'"
      using r c(3) unfolding reads_def Visit_def by blast
    then show ?thesis using d(2) by (auto simp: Bundle_Read_def took_def read_start_def)
  qed
  ultimately show ?thesis using c(3) by blast
qed

end

end
