(* ===== verification/Headers.thy ===== *)
theory Headers
  imports Bundle
begin

text \<open>
  The bundles of \<^verbatim>\<open>lib/jxl/headers.h\<close> and \<^verbatim>\<open>headers.cc\<close> (image, preview and animation headers) and small
  bundles of other components (\<^verbatim>\<open>quantizer.cc\<close>, \<^verbatim>\<open>modular/transform/squeeze_params.cc\<close>,
  \<^verbatim>\<open>transform.cc\<close>).  Sizes of type \<^verbatim>\<open>size_t\<close> are natural numbers, \<^verbatim>\<open>uint32_t\<close> fields are words.
\<close>

section \<open>Image size\<close>

type_synonym Rational = "nat \<times> nat"

definition MulTruncate :: "Rational \<Rightarrow> u32 \<Rightarrow> u32" where
  "MulTruncate r multiplicand = of_nat (unat multiplicand * fst r div snd r)"

definition FixedAspectRatios :: "nat \<Rightarrow> Rational" where
  "FixedAspectRatios ratio = [(1, 1), (12, 10), (4, 3), (3, 2), (16, 9), (5, 4), (2, 1)] ! (ratio - 1)"

definition FindAspectRatio :: "u32 \<Rightarrow> u32 \<Rightarrow> nat" where
  "FindAspectRatio xsize ysize =
     (case filter (\<lambda>r. xsize = MulTruncate (FixedAspectRatios r) ysize) [1..<8] of [] \<Rightarrow> 0 | r # _ \<Rightarrow> r)"

definition kBlockDim :: nat where "kBlockDim = 8"

record SizeHeader =
  sh_small :: bool
  sh_ysize_div8_minus_1 :: u32
  sh_ysize :: u32
  sh_ratio :: u32
  sh_xsize_div8_minus_1 :: u32
  sh_xsize :: u32

definition SizeHeader_ysize :: "SizeHeader \<Rightarrow> u32" where
  "SizeHeader_ysize h = (if sh_small h then (sh_ysize_div8_minus_1 h + 1) * 8 else sh_ysize h)"

definition SizeHeader_xsize :: "SizeHeader \<Rightarrow> u32" where
  "SizeHeader_xsize h =
     (if sh_ratio h \<noteq> 0 then MulTruncate (FixedAspectRatios (unat (sh_ratio h))) (SizeHeader_ysize h)
      else if sh_small h then (sh_xsize_div8_minus_1 h + 1) * 8 else sh_xsize h)"

definition SizeHeader_Set :: "nat \<Rightarrow> nat \<Rightarrow> SizeHeader \<Rightarrow> SizeHeader outcome" where
  "SizeHeader_Set xsize64 ysize64 h =
     (if xsize64 > 2 ^ 32 - 1 \<or> ysize64 > 2 ^ 32 - 1 then Inl kGenericError
      else if xsize64 = 0 \<or> ysize64 = 0 then Inl kGenericError
      else
        (let xsize32 = of_nat xsize64 :: u32; ysize32 = of_nat ysize64 :: u32;
             h = h\<lparr> sh_ratio := of_nat (FindAspectRatio xsize32 ysize32) \<rparr>;
             h = h\<lparr> sh_small := (ysize64 \<le> 256 \<and> ysize64 mod kBlockDim = 0 \<and>
                     (sh_ratio h \<noteq> 0 \<or> xsize64 \<le> 256 \<and> xsize64 mod kBlockDim = 0)) \<rparr>;
             h = (if sh_small h then h\<lparr> sh_ysize_div8_minus_1 := ysize32 div 8 - 1 \<rparr> else h\<lparr> sh_ysize := ysize32 \<rparr>);
             h = (if sh_ratio h = 0 then
                    if sh_small h then h\<lparr> sh_xsize_div8_minus_1 := xsize32 div 8 - 1 \<rparr> else h\<lparr> sh_xsize := xsize32 \<rparr>
                  else h)
         in if unat (SizeHeader_xsize h) \<noteq> xsize64 then Inl kGenericError
            else if unat (SizeHeader_ysize h) \<noteq> ysize64 then Inl kGenericError
            else Inr h))"

definition size_enc :: U32Enc where
  "size_enc = U32Enc (BitsOffset 9 1) (BitsOffset 13 1) (BitsOffset 18 1) (BitsOffset 30 1)"

definition SizeHeader_VisitFields :: "SizeHeader fields" where
  "SizeHeader_VisitFields = steps [
     field_bool False sh_small sh_small_update,
     if_conditional sh_small (field_bits 5 0 sh_ysize_div8_minus_1 sh_ysize_div8_minus_1_update),
     if_conditional (\<lambda>h. \<not> sh_small h) (field_u32 size_enc 1 sh_ysize sh_ysize_update),
     field_bits 3 0 sh_ratio sh_ratio_update,
     if_conditional (\<lambda>h. sh_ratio h = 0 \<and> sh_small h) (field_bits 5 0 sh_xsize_div8_minus_1 sh_xsize_div8_minus_1_update),
     if_conditional (\<lambda>h. sh_ratio h = 0 \<and> \<not> sh_small h) (field_u32 size_enc 1 sh_xsize sh_xsize_update)]"

definition ReadSizeHeader :: "SizeHeader \<Rightarrow> BitReader \<Rightarrow> SizeHeader outcome \<times> BitReader" where
  "ReadSizeHeader h reader = Bundle_Read (SizeHeader_VisitFields h) reader"

section \<open>Preview size\<close>

record PreviewHeader =
  ph_div8 :: bool
  ph_ysize_div8 :: u32
  ph_ysize :: u32
  ph_ratio :: u32
  ph_xsize_div8 :: u32
  ph_xsize :: u32

definition PreviewHeader_ysize :: "PreviewHeader \<Rightarrow> u32" where
  "PreviewHeader_ysize h = (if ph_div8 h then ph_ysize_div8 h * 8 else ph_ysize h)"

definition PreviewHeader_xsize :: "PreviewHeader \<Rightarrow> u32" where
  "PreviewHeader_xsize h =
     (if ph_ratio h \<noteq> 0 then MulTruncate (FixedAspectRatios (unat (ph_ratio h))) (PreviewHeader_ysize h)
      else if ph_div8 h then ph_xsize_div8 h * 8 else ph_xsize h)"

definition PreviewHeader_Set :: "nat \<Rightarrow> nat \<Rightarrow> PreviewHeader \<Rightarrow> PreviewHeader outcome" where
  "PreviewHeader_Set xsize64 ysize64 h =
     (let xsize32 = of_nat xsize64 :: u32; ysize32 = of_nat ysize64 :: u32 in
      if xsize64 = 0 \<or> ysize64 = 0 then Inl kGenericError
      else
        (let h = h\<lparr> ph_div8 := (xsize64 mod kBlockDim = 0 \<and> ysize64 mod kBlockDim = 0) \<rparr>;
             h = (if ph_div8 h then h\<lparr> ph_ysize_div8 := ysize32 div 8 \<rparr> else h\<lparr> ph_ysize := ysize32 \<rparr>);
             h = h\<lparr> ph_ratio := of_nat (FindAspectRatio xsize32 ysize32) \<rparr>;
             h = (if ph_ratio h = 0 then
                    if ph_div8 h then h\<lparr> ph_xsize_div8 := xsize32 div 8 \<rparr> else h\<lparr> ph_xsize := xsize32 \<rparr>
                  else h)
         in if unat (PreviewHeader_xsize h) \<noteq> xsize64 then Inl kGenericError
            else if unat (PreviewHeader_ysize h) \<noteq> ysize64 then Inl kGenericError
            else Inr h))"

definition PreviewHeader_VisitFields :: "PreviewHeader fields" where
  "PreviewHeader_VisitFields =
     (let div8_enc = U32Enc (Val 16) (Val 32) (BitsOffset 5 1) (BitsOffset 9 33);
          any_enc = U32Enc (BitsOffset 6 1) (BitsOffset 8 65) (BitsOffset 10 321) (BitsOffset 12 1345)
      in steps [
     field_bool False ph_div8 ph_div8_update,
     if_conditional ph_div8 (field_u32 div8_enc 1 ph_ysize_div8 ph_ysize_div8_update),
     if_conditional (\<lambda>h. \<not> ph_div8 h) (field_u32 any_enc 1 ph_ysize ph_ysize_update),
     field_bits 3 0 ph_ratio ph_ratio_update,
     if_conditional (\<lambda>h. ph_ratio h = 0 \<and> ph_div8 h) (field_u32 div8_enc 1 ph_xsize_div8 ph_xsize_div8_update),
     if_conditional (\<lambda>h. ph_ratio h = 0 \<and> \<not> ph_div8 h) (field_u32 any_enc 1 ph_xsize ph_xsize_update)])"

section \<open>Animation, quantizer and transforms\<close>

record AnimationHeader =
  tps_numerator :: u32
  tps_denominator :: u32
  num_loops :: u32
  have_timecodes :: bool

definition AnimationHeader_VisitFields :: "AnimationHeader fields" where
  "AnimationHeader_VisitFields = steps [
     field_u32 (U32Enc (Val 100) (Val 1000) (BitsOffset 10 1) (BitsOffset 30 1)) 1 tps_numerator tps_numerator_update,
     field_u32 (U32Enc (Val 1) (Val 1001) (BitsOffset 8 1) (BitsOffset 10 1)) 1 tps_denominator tps_denominator_update,
     field_u32 (U32Enc (Val 0) (Bits 3) (Bits 16) (Bits 32)) 0 num_loops num_loops_update,
     field_bool False have_timecodes have_timecodes_update]"

record QuantizerParams =
  qp_global_scale :: u32
  qp_quant_dc :: u32

definition QuantizerParams_VisitFields :: "QuantizerParams fields" where
  "QuantizerParams_VisitFields = steps [
     field_u32 (U32Enc (BitsOffset 11 1) (BitsOffset 11 2049) (BitsOffset 12 4097) (BitsOffset 16 8193)) 1
       qp_global_scale qp_global_scale_update,
     field_u32 (U32Enc (Val 16) (BitsOffset 5 1) (BitsOffset 8 1) (BitsOffset 16 1)) 1 qp_quant_dc qp_quant_dc_update]"

record SqueezeParams =
  sq_horizontal :: bool
  sq_in_place :: bool
  sq_begin_c :: u32
  sq_num_c :: u32

definition SqueezeParams_VisitFields :: "SqueezeParams fields" where
  "SqueezeParams_VisitFields = steps [
     field_bool False sq_horizontal sq_horizontal_update,
     field_bool False sq_in_place sq_in_place_update,
     field_u32 (U32Enc (Bits 3) (BitsOffset 6 8) (BitsOffset 10 72) (BitsOffset 13 1096)) 0 sq_begin_c sq_begin_c_update,
     field_u32 (U32Enc (Val 1) (Val 2) (Val 3) (BitsOffset 4 4)) 2 sq_num_c sq_num_c_update]"

definition kRCT :: u32 where "kRCT = 0"
definition kPalette :: u32 where "kPalette = 1"
definition kSqueeze :: u32 where "kSqueeze = 2"
definition kInvalid :: u32 where "kInvalid = 3"

text \<open>\<^verbatim>\<open>Predictor::Best\<close>, the first value that is not a predictor of the bitstream.\<close>

definition Predictor_Best :: u32 where "Predictor_Best = 14"

record Transform =
  tr_id :: u32
  tr_begin_c :: u32
  tr_rct_type :: u32
  tr_num_c :: u32
  tr_nb_colors :: u32
  tr_nb_deltas :: u32
  tr_squeezes :: "SqueezeParams list"
  tr_predictor :: u32

text \<open>A squeeze whose fields were just constructed, and the visits of the squeezes from an index on.\<close>

definition SqueezeParams_new :: SqueezeParams where
  "SqueezeParams_new = \<lparr> sq_horizontal = False, sq_in_place = False, sq_begin_c = 0, sq_num_c = 2 \<rparr>"

definition visit_squeeze :: "nat \<Rightarrow> Transform fields" where
  "visit_squeeze i = nested SqueezeParams_VisitFields (\<lambda>t. tr_squeezes t ! i)
     (\<lambda>f t. t\<lparr> tr_squeezes := (tr_squeezes t)[i := f (tr_squeezes t ! i)] \<rparr>)"

definition visit_squeezes :: "Transform fields" where
  "visit_squeezes = (\<lambda>t.
     VU32 (U32Enc (Val 0) (BitsOffset 4 1) (BitsOffset 6 9) (BitsOffset 8 41)) 0 (of_nat (length (tr_squeezes t)))
       (\<lambda>num_squeezes. VIsReading (\<lambda>r.
          let n = unat num_squeezes;
              t = (if r then t\<lparr> tr_squeezes := take n (tr_squeezes t) @ replicate (n - length (tr_squeezes t)) SqueezeParams_new \<rparr>
                   else t)
          in steps (map visit_squeeze [0..<n]) t)))"

definition Transform_VisitFields :: "Transform fields" where
  "Transform_VisitFields = steps [
     field_u32 (U32Enc (Val kRCT) (Val kPalette) (Val kSqueeze) (Val kInvalid)) kRCT tr_id tr_id_update,
     check (\<lambda>t. tr_id t \<noteq> kInvalid),
     if_conditional (\<lambda>t. tr_id t = kRCT \<or> tr_id t = kPalette)
       (field_u32 (U32Enc (Bits 3) (BitsOffset 6 8) (BitsOffset 10 72) (BitsOffset 13 1096)) 0 tr_begin_c tr_begin_c_update),
     if_conditional (\<lambda>t. tr_id t = kRCT) (steps [
       field_u32 (U32Enc (Val 6) (Bits 2) (BitsOffset 4 2) (BitsOffset 6 10)) 6 tr_rct_type tr_rct_type_update,
       check (\<lambda>t. \<not> tr_rct_type t \<ge> 42)]),
     if_conditional (\<lambda>t. tr_id t = kPalette) (steps [
       field_u32 (U32Enc (Val 1) (Val 3) (Val 4) (BitsOffset 13 1)) 3 tr_num_c tr_num_c_update,
       field_u32 (U32Enc (BitsOffset 8 0) (BitsOffset 10 256) (BitsOffset 12 1280) (BitsOffset 16 5376)) 256
         tr_nb_colors tr_nb_colors_update,
       field_u32 (U32Enc (Val 0) (BitsOffset 8 1) (BitsOffset 10 257) (BitsOffset 16 1281)) 0 tr_nb_deltas tr_nb_deltas_update,
       field_bits 4 0 tr_predictor tr_predictor_update,
       check (\<lambda>t. \<not> tr_predictor t \<ge> Predictor_Best)]),
     if_conditional (\<lambda>t. tr_id t = kSqueeze) visit_squeezes]"

section \<open>The bundles keep their contracts\<close>

lemmas step_defs = field_bits_def field_u32_def field_u64_def field_bool_def field_f16_def if_conditional_def if_plain_def
  assign_def check_def steps.simps

interpretation size_header: field_bundle SizeHeader_VisitFields "\<lambda>_. True" id "\<lambda>_ _. True"
  "\<lambda>s z. SizeHeader_xsize z = SizeHeader_xsize s \<and> SizeHeader_ysize z = SizeHeader_ysize s"
  by unfold_locales (auto simp: SizeHeader_VisitFields_def step_defs SizeHeader_xsize_def SizeHeader_ysize_def)

interpretation preview_header: field_bundle PreviewHeader_VisitFields "\<lambda>_. True" id "\<lambda>_ _. True"
  "\<lambda>s z. PreviewHeader_xsize z = PreviewHeader_xsize s \<and> PreviewHeader_ysize z = PreviewHeader_ysize s"
  by unfold_locales (auto simp: PreviewHeader_VisitFields_def Let_def step_defs PreviewHeader_xsize_def PreviewHeader_ysize_def)

interpretation animation_header: field_bundle AnimationHeader_VisitFields "\<lambda>_. True" id "\<lambda>_ _. True" "\<lambda>s z. z = s"
  by unfold_locales (auto simp: AnimationHeader_VisitFields_def step_defs)

interpretation quantizer_params: field_bundle QuantizerParams_VisitFields "\<lambda>_. True" id "\<lambda>_ _. True" "\<lambda>s z. z = s"
  by unfold_locales (auto simp: QuantizerParams_VisitFields_def step_defs)

interpretation squeeze_params: field_bundle SqueezeParams_VisitFields "\<lambda>_. True" id "\<lambda>_ _. True" "\<lambda>s z. z = s"
  by unfold_locales (auto simp: SqueezeParams_VisitFields_def step_defs)

lemma FindAspectRatio_spec:
  "FindAspectRatio x y < 8 \<and> (FindAspectRatio x y \<noteq> 0 \<longrightarrow> x = MulTruncate (FixedAspectRatios (FindAspectRatio x y)) y)"
proof -
  have "r \<in> set (filter P [1..<8])" if "filter P [1..<8] = r # rs" for P r rs using that by simp
  then show ?thesis by (fastforce simp: FindAspectRatio_def split: list.splits)
qed

lemma eighths: "unat v mod 8 = 0 \<Longrightarrow> (v div 8 - 1 + 1) * 8 = (v :: u32)" "unat v mod 8 = 0 \<Longrightarrow> v div 8 * 8 = (v :: u32)"
proof -
  assume "unat v mod 8 = 0"
  then have "unat (v div 8) * 8 = unat v" by (simp add: unat_div dvd_div_mult_self mod_0_imp_dvd)
  then have "(of_nat (unat (v div 8) * 8) :: u32) = of_nat (unat v)" by (simp only:)
  then show "v div 8 * 8 = v" by simp
  then show "(v div 8 - 1 + 1) * 8 = v" by simp
qed

lemma SizeHeader_Set_ok:
  assumes "0 < x \<and> x < 2 ^ 32 \<and> 0 < y \<and> y < 2 ^ 32"
  obtains h' where "SizeHeader_Set x y h = Inr h'" "unat (SizeHeader_xsize h') = x" "unat (SizeHeader_ysize h') = y"
    "sh_ratio h' < 8" "sh_small h' \<longrightarrow> unat (sh_ysize_div8_minus_1 h') < 32" "\<not> sh_small h' \<longrightarrow> unat (sh_ysize h') = y"
    "sh_ratio h' = 0 \<and> sh_small h' \<longrightarrow> unat (sh_xsize_div8_minus_1 h') < 32"
    "sh_ratio h' = 0 \<and> \<not> sh_small h' \<longrightarrow> unat (sh_xsize h') = x"
proof -
  define x32 y32 where "x32 = (of_nat x :: u32)" and "y32 = (of_nat y :: u32)"
  have u: "unat x32 = x" "unat y32 = y" using assms by (simp_all add: x32_def y32_def unat_of_nat_id)
  define r where "r = FindAspectRatio x32 y32"
  have r: "r < 8" "r \<noteq> 0 \<Longrightarrow> x32 = MulTruncate (FixedAspectRatios r) y32" using FindAspectRatio_spec by (auto simp: r_def)
  have r32: "unat (of_nat r :: u32) = r" "(of_nat r :: u32) < 8" using r(1) by (simp_all add: unat_of_nat_id word_less_nat_alt)
  have r0: "(of_nat r :: u32) = 0 \<longleftrightarrow> r = 0" using unat_eq_0 [of "of_nat r :: u32"] unfolding r32(1) by blast
  have e: "x mod 8 = 0 \<Longrightarrow> (x32 div 8 - 1 + 1) * 8 = x32" "y mod 8 = 0 \<Longrightarrow> (y32 div 8 - 1 + 1) * 8 = y32"
    by (rule eighths(1) [of x32, unfolded u], assumption) (rule eighths(1) [of y32, unfolded u])
  define sm where "sm \<longleftrightarrow> y \<le> 256 \<and> y mod 8 = 0 \<and> (of_nat r \<noteq> (0 :: u32) \<or> x \<le> 256 \<and> x mod 8 = 0)"
  define h' where "h' = (let h = h\<lparr> sh_ratio := of_nat r \<rparr>;
             h = h\<lparr> sh_small := sm \<rparr>;
             h = (if sh_small h then h\<lparr> sh_ysize_div8_minus_1 := y32 div 8 - 1 \<rparr> else h\<lparr> sh_ysize := y32 \<rparr>)
         in (if of_nat r = (0 :: u32) then
                    if sh_small h then h\<lparr> sh_xsize_div8_minus_1 := x32 div 8 - 1 \<rparr> else h\<lparr> sh_xsize := x32 \<rparr>
                  else h))"
  have y: "SizeHeader_ysize h' = y32" using e(2) by (auto simp: h'_def Let_def SizeHeader_ysize_def sm_def)
  moreover have "SizeHeader_xsize h' = x32"
  proof (cases "r = 0")
    case True
    then show ?thesis using e(1) by (auto simp: SizeHeader_xsize_def h'_def Let_def sm_def)
  next
    case False
    then have "sh_ratio h' = of_nat r" "(of_nat r :: u32) \<noteq> 0" using r0 by (simp_all add: h'_def Let_def)
    then show ?thesis using r(2) False r32(1) by (simp add: SizeHeader_xsize_def y)
  qed
  moreover have "sh_ratio h' < 8" using r32(2) by (simp add: h'_def Let_def)
  moreover have "SizeHeader_Set x y h = Inr h'" if "SizeHeader_xsize h' = x32" "SizeHeader_ysize h' = y32"
  proof -
    have "SizeHeader_Set x y h = (if unat (SizeHeader_xsize h') \<noteq> x then Inl kGenericError
            else if unat (SizeHeader_ysize h') \<noteq> y then Inl kGenericError else Inr h')"
      using assms unfolding SizeHeader_Set_def h'_def sm_def r_def x32_def y32_def Let_def kBlockDim_def
      by (simp cong: if_cong)
    then show ?thesis using that u by simp
  qed
  moreover have "(sh_small h' \<longrightarrow> unat (sh_ysize_div8_minus_1 h') < 32) \<and> (\<not> sh_small h' \<longrightarrow> unat (sh_ysize h') = y) \<and>
      (sh_ratio h' = 0 \<and> sh_small h' \<longrightarrow> unat (sh_xsize_div8_minus_1 h') < 32) \<and>
      (sh_ratio h' = 0 \<and> \<not> sh_small h' \<longrightarrow> unat (sh_xsize h') = x)"
  proof -
    have d: "unat (v div 8 - 1) < 32" if "0 < unat v" "unat v \<le> 256" "unat v mod 8 = 0" for v :: u32
    proof -
      have "8 \<le> unat v" using that(1,3) by (metis mod_less not_less gr_implies_not0)
      then have "1 \<le> unat (v div 8)" "unat (v div 8) \<le> 32" using that(2) by (simp_all add: unat_div)
      then show ?thesis by (simp add: unat_sub word_le_nat_alt)
    qed
    have f: "sh_small h' = sm" "sh_ratio h' = of_nat r" by (simp_all add: h'_def Let_def)
    have g: "sh_ysize_div8_minus_1 h' = y32 div 8 - 1" if "sh_small h'" using that unfolding f by (simp add: h'_def Let_def)
    have g2: "sh_ysize h' = y32" if "\<not> sh_small h'" using that unfolding f by (simp add: h'_def Let_def)
    have g3: "sh_xsize_div8_minus_1 h' = x32 div 8 - 1" if "sh_ratio h' = 0 \<and> sh_small h'"
      using that unfolding f by (simp add: h'_def Let_def)
    have g4: "sh_xsize h' = x32" if "sh_ratio h' = 0 \<and> \<not> sh_small h'" using that unfolding f by (simp add: h'_def Let_def)
    have "unat (sh_ysize_div8_minus_1 h') < 32" if "sh_small h'"
      unfolding g [OF that] by (rule d) (use that f(1) assms u in \<open>auto simp: sm_def\<close>)
    moreover have "unat (sh_xsize_div8_minus_1 h') < 32" if "sh_ratio h' = 0 \<and> sh_small h'"
      unfolding g3 [OF that] by (rule d) (use that f assms u in \<open>auto simp: sm_def\<close>)
    ultimately show ?thesis using g2 g4 u by auto
  qed
  ultimately show ?thesis using that u assms by auto
qed

text \<open>C21: \<open>SizeHeader::Set\<close> accepts exactly the sizes with both dimensions from 1 to \<open>2 ^ 32 - 1\<close>, whatever the
  header held, and the header then reports exactly these dimensions.\<close>

theorem SizeHeader_Set_correct:
  "(if 0 < x \<and> x < 2 ^ 32 \<and> 0 < y \<and> y < 2 ^ 32
    then \<exists>h'. SizeHeader_Set x y h = Inr h' \<and> unat (SizeHeader_xsize h') = x \<and> unat (SizeHeader_ysize h') = y \<and>
           sh_ratio h' < 8
    else SizeHeader_Set x y h = Inl kGenericError)"
proof (cases "0 < x \<and> x < 2 ^ 32 \<and> 0 < y \<and> y < 2 ^ 32")
  case True
  then obtain h' where "SizeHeader_Set x y h = Inr h'" "unat (SizeHeader_xsize h') = x" "unat (SizeHeader_ysize h') = y"
    "sh_ratio h' < 8" by (rule SizeHeader_Set_ok)
  then show ?thesis using True by simp
next
  case False
  then show ?thesis by (auto simp: SizeHeader_Set_def)
qed

text \<open>Sizes up to \<open>2 ^ 30\<close> have a code.\<close>

lemma size_enc_ok:
  assumes "0 < unat v" "unat v \<le> 2 ^ 30"
  shows "\<exists>c. ChooseSelector size_enc v = Inr c"
proof (rule ccontr)
  assume "\<nexists>c. ChooseSelector size_enc v = Inr c"
  then obtain e where "ChooseSelector size_enc v = Inl e" by (cases "ChooseSelector size_enc v") auto
  then have "selector_cost size_enc v 3 = None" using ChooseSelector_spec [of size_enc v] by simp
  moreover have "GetDistr size_enc 3 = BitsOffset 30 1" by (simp add: size_enc_def)
  moreover have "\<not> IsDirect (BitsOffset 30 1)" "Offset (BitsOffset 30 1) = 1" "ExtraBits (BitsOffset 30 1) = 30"
    by code_simp+
  ultimately show False using assms by (auto simp: selector_cost_def Let_def word_le_nat_alt split: if_splits)
qed

lemma SizeHeader_CanEncode:
  assumes "sh_ratio h < 8" "sh_small h \<longrightarrow> unat (sh_ysize_div8_minus_1 h) < 32"
    "\<not> sh_small h \<longrightarrow> 0 < unat (sh_ysize h) \<and> unat (sh_ysize h) \<le> 2 ^ 30"
    "sh_ratio h = 0 \<and> sh_small h \<longrightarrow> unat (sh_xsize_div8_minus_1 h) < 32"
    "sh_ratio h = 0 \<and> \<not> sh_small h \<longrightarrow> 0 < unat (sh_xsize h) \<and> unat (sh_xsize h) \<le> 2 ^ 30"
  obtains n where "Bundle_CanEncode (SizeHeader_VisitFields h) = Inr (h, 0, n)" "0 < n"
proof -
  have r: "unat (sh_ratio h) < 8" using assms(1) by (simp add: word_less_nat_alt)
  have ok: "fst (U32Coder_CanEncode size_enc v)" if "0 < unat v" "unat v \<le> 2 ^ 30" for v
    using size_enc_ok [OF that] by (auto simp: U32Coder_CanEncode_def)
  have "\<exists>n > 0. Bundle_CanEncode (SizeHeader_VisitFields h) = Inr (h, 0, n)"
    using assms(2-5) r ok [of "sh_ysize h"] ok [of "sh_xsize h"]
    by (auto simp: Bundle_CanEncode_def Visit_def SizeHeader_VisitFields_def step_defs visitor_simps size_bits_op_def
        base_bool_def count_bits_def BitsCoder_CanEncode_def GetSizes_def kMaxExtensions_def)
  then show ?thesis using that by blast
qed

text \<open>C22: An image size of up to \<open>2 ^ 30\<close> in each dimension survives the bitstream: \<open>Set\<close> accepts it,
  \<open>Bundle::Write\<close> of the header (its \<open>WithMaxBits\<close> allotment included) emits some bits, and \<open>Bundle::Read\<close> into
  any header, wherever a stream holds these bits, consumes exactly them and yields a header of the same size.\<close>

theorem SizeHeader_roundtrip:
  assumes "0 < x" "x \<le> 2 ^ 30" "0 < y" "y \<le> 2 ^ 30"
  shows "\<exists>h bs. SizeHeader_Set x y h0 = Inr h \<and>
    (\<forall>w aux. bw_ok w \<longrightarrow> ran bs 0 (add_totals layer (length bs) 0 \<circ> id) (Bundle_Write SizeHeader_VisitFields h layer True) w aux) \<and>
    (\<forall>h1 r. br_ok r \<longrightarrow> begins (upcoming r) bs \<longrightarrow> TotalBitsConsumed r + length bs \<le> 8 * length (br_data r) \<longrightarrow>
       (\<exists>h2 r'. ReadSizeHeader h1 r = (Inr h2, r') \<and> unat (SizeHeader_xsize h2) = x \<and> unat (SizeHeader_ysize h2) = y \<and>
          reader.advanced r r' (length bs)))"
proof -
  have "0 < x \<and> x < 2 ^ 32 \<and> 0 < y \<and> y < 2 ^ 32" using assms by simp
  then obtain h where h: "SizeHeader_Set x y h0 = Inr h" "unat (SizeHeader_xsize h) = x" "unat (SizeHeader_ysize h) = y"
    "sh_ratio h < 8" "sh_small h \<longrightarrow> unat (sh_ysize_div8_minus_1 h) < 32" "\<not> sh_small h \<longrightarrow> unat (sh_ysize h) = y"
    "sh_ratio h = 0 \<and> sh_small h \<longrightarrow> unat (sh_xsize_div8_minus_1 h) < 32"
    "sh_ratio h = 0 \<and> \<not> sh_small h \<longrightarrow> unat (sh_xsize h) = x" by (rule SizeHeader_Set_ok)
  obtain n where n: "Bundle_CanEncode (SizeHeader_VisitFields h) = Inr (h, 0, n)" "0 < n"
    by (rule SizeHeader_CanEncode [of h]) (use h assms in auto)
  show ?thesis
  proof -
    obtain bs where bs: "length bs = n"
      "\<forall>w aux. bw_ok w \<longrightarrow> ran bs 0 (add_totals layer n 0 \<circ> id) (Bundle_Write SizeHeader_VisitFields h layer True) w aux"
      "\<forall>t r. br_ok r \<longrightarrow> begins (upcoming r) bs \<longrightarrow> TotalBitsConsumed r + n \<le> 8 * length (br_data r) \<longrightarrow>
       (\<exists>z r'. Bundle_Read (SizeHeader_VisitFields t) r = (Inr z, r') \<and>
          (SizeHeader_xsize z = SizeHeader_xsize h \<and> SizeHeader_ysize z = SizeHeader_ysize h) \<and> reader.advanced r r' n)"
      using size_header.write_read [OF TrueI TrueI n, where b = True and layer = layer] by auto
    show ?thesis
      using h(1-3) bs by (intro exI [of _ h] exI [of _ bs]) (simp add: ReadSizeHeader_def, metis)
  qed
qed

theorem SizeHeader_roundtrip_witness:
  "\<exists>h. SizeHeader_Set 1920 1080 \<lparr> sh_small = True, sh_ysize_div8_minus_1 = 0, sh_ysize = 0, sh_ratio = 0,
     sh_xsize_div8_minus_1 = 0, sh_xsize = 0 \<rparr> = Inr h"
  proof -
  have "0 < (1920 :: nat)" "1920 \<le> (2 :: nat) ^ 30" "0 < (1080 :: nat)" "1080 \<le> (2 :: nat) ^ 30" by simp_all
  from SizeHeader_roundtrip [OF this, where ?layer = "0 :: nat" and ?h0.0 = "\<lparr> sh_small = True, sh_ysize_div8_minus_1 = 0,
     sh_ysize = 0, sh_ratio = 0, sh_xsize_div8_minus_1 = 0, sh_xsize = 0 \<rparr>"] show ?thesis by blast
qed

end
