(* ===== verification/Bundle_Reading.thy ===== *)
theory Bundle_Reading
  imports Bundle
begin

text \<open>
  What can come out of reading a bundle.  \<open>reading P p\<close> is the weakest condition under which \<^verbatim>\<open>ReadVisitor\<close> ends
  the program \<open>p\<close> with a value that satisfies \<open>P\<close>, if it ends without error: every value that the coders can
  deliver is considered.  \<open>defaulting P p\<close> is the same for the visitors that set defaults.  The rules for the steps
  of a \<^verbatim>\<open>VisitFields\<close> body turn both into conditions on the fields.
\<close>

text \<open>The values of a \<^verbatim>\<open>U32\<close> field.\<close>

definition distr_value :: "U32Distr \<Rightarrow> u32 \<Rightarrow> bool" where
  "distr_value d v \<longleftrightarrow> (if IsDirect d then v = Direct d else \<exists>x. unat x < 2 ^ ExtraBits d \<and> v = x + Offset d)"

fun u32_value :: "U32Enc \<Rightarrow> u32 \<Rightarrow> bool" where
  "u32_value (U32Enc d0 d1 d2 d3) v \<longleftrightarrow> distr_value d0 v \<or> distr_value d1 v \<or> distr_value d2 v \<or> distr_value d3 v"

primrec reading :: "('a \<Rightarrow> bool) \<Rightarrow> 'a visit \<Rightarrow> bool" where
  "reading P (Return x) = P x"
| "reading P (Failure e) = True"
| "reading P (VBits n df v k) = (\<forall>x. (n \<le> 56 \<longrightarrow> unat x < 2 ^ n) \<longrightarrow> reading P (k x))"
| "reading P (VU32 enc df v k) = (\<forall>x. u32_value enc x \<longrightarrow> reading P (k x))"
| "reading P (VU64 df v k) = (\<forall>x. reading P (k x))"
| "reading P (VBool df v k) = (\<forall>x. reading P (k x))"
| "reading P (VF16 df v k) = (\<forall>x. reading P (k x))"
| "reading P (VConditional c k) = reading P (k c)"
| "reading P (VAllDefault a v k) = ((\<forall>x. reading P (k (x, x))) \<and> reading P (k (False, v)))"
| "reading P (VIsReading k) = reading P (k True)"
| "reading P (VIsNested k) = reading P (k True)"
| "reading P (VEnter p) = reading P p"
| "reading P (VLeave p) = reading P p"
| "reading P (VBeginExtensions v k) = (\<forall>x. reading P (k x))"
| "reading P (VEndExtensions p) = reading P p"

lemma ucast_le: "unat (ucast (x :: u64) :: u32) \<le> unat x"
  by (simp add: unsigned_ucast_eq take_bit_nat_less_eq_self)

lemma BitsCoder_Read_less:
  assumes "BitsCoder_Read n r = (v, r')" "n \<le> 56"
  shows "unat v < 2 ^ n"
proof -
  obtain x where x: "ReadBits n r = (x, r')" "v = ucast x"
    using assms(1) by (auto simp: BitsCoder_Read_def split: prod.splits)
  have "unat v \<le> unat x" by (simp add: x(2) ucast_le)
  also have "\<dots> < 2 ^ n" by (rule ReadBits_less [OF assms(2) x(1)])
  finally show ?thesis .
qed

lemma U32Coder_Read_value:
  assumes "U32Coder_Read enc r = (v, r')"
  shows "u32_value enc v"
proof -
  obtain sel r1 where r1: "ReadBits 2 r = (sel, r1)" by fastforce
  have d: "u32_value enc v" if "distr_value (GetDistr enc s) v" for s using that by (cases enc) (auto split: if_splits)
  show ?thesis
  proof (cases "IsDirect (GetDistr enc (ucast sel))")
    case True
    then have "v = Direct (GetDistr enc (ucast sel))" using assms r1 by (simp add: U32Coder_Read_def)
    with True show ?thesis by (intro d [of "ucast sel"]) (simp add: distr_value_def)
  next
    case False
    then obtain x where x: "ReadBits (ExtraBits (GetDistr enc (ucast sel))) r1 = (x, r')"
      "v = ucast (x + ucast (Offset (GetDistr enc (ucast sel))))"
      using assms r1 by (auto simp: U32Coder_Read_def Let_def split: prod.splits)
    let ?n = "ExtraBits (GetDistr enc (ucast sel))"
    have "unat x < 2 ^ ?n" by (rule ReadBits_less [OF le_trans [OF ExtraBits_bounds(2)] x(1)]) simp
    then have "unat (ucast x :: u32) < 2 ^ ?n" by (rule le_less_trans [OF ucast_le])
    moreover have "v = ucast x + Offset (GetDistr enc (ucast sel))" by (simp add: x(2) ucast_plus_u32)
    ultimately show ?thesis using False by (intro d [of "ucast sel"]) (auto simp: distr_value_def)
  qed
qed

lemma checked_value: "checked x r s = (Inr y, s') \<Longrightarrow> y = x"
  by (auto simp: checked_def split: prod.splits if_splits)

lemma run_reading:
  assumes "reading P p" "run ReadVisitor p d s = (Inr x, s')"
  shows "P x"
  using assms
proof (induction p arbitrary: d s)
  case (VBits n df v k)
  then obtain y s1 where y: "read_bits_op n df v s = (Inr y, s1)" "run ReadVisitor (k y) d s1 = (Inr x, s')"
    by (auto simp: visitor_simps split: sum.splits prod.splits)
  then obtain r1 where "BitsCoder_Read n (rd_reader s) = (y, r1)"
    by (auto simp: read_bits_op_def split: prod.splits dest: checked_value)
  then have "n \<le> 56 \<longrightarrow> unat y < 2 ^ n" using BitsCoder_Read_less by blast
  then show ?case using VBits.IH [OF rangeI _ y(2)] VBits.prems(1) by simp
next
  case (VU32 enc df v k)
  then obtain y s1 where y: "do_u32 ReadVisitor enc df v s = (Inr y, s1)" "run ReadVisitor (k y) d s1 = (Inr x, s')"
    by (auto split: sum.splits prod.splits)
  then obtain r1 where "U32Coder_Read enc (rd_reader s) = (y, r1)"
    by (auto simp: ReadVisitor_def split: prod.splits dest: checked_value)
  then have "u32_value enc y" by (rule U32Coder_Read_value)
  then show ?case using VU32.IH [OF rangeI _ y(2)] VU32.prems(1) by simp
next
  case (VAllDefault a v k)
  then obtain b v' s1 where y: "do_all_default ReadVisitor a v s = ((b, v'), s1)" "run ReadVisitor (k (b, v')) d s1 = (Inr x, s')"
    by (auto split: prod.splits)
  then have "(b, v') = (False, v) \<or> b = v'"
    by (auto simp: visitor_simps base_all_default_def split: prod.splits sum.splits)
  then show ?case using VAllDefault.IH [OF rangeI _ y(2)] VAllDefault.prems(1) by auto
next
  case (VU64 df v k)
  then obtain y s1 where "run ReadVisitor (k y) d s1 = (Inr x, s')" by (auto split: sum.splits prod.splits)
  then show ?case using VU64.IH [OF rangeI, of y] VU64.prems(1) by simp
next
  case (VBool df v k)
  then obtain y s1 where "run ReadVisitor (k y) d s1 = (Inr x, s')" by (auto split: sum.splits prod.splits)
  then show ?case using VBool.IH [OF rangeI, of y] VBool.prems(1) by simp
next
  case (VF16 df v k)
  then obtain y s1 where "run ReadVisitor (k y) d s1 = (Inr x, s')" by (auto split: sum.splits prod.splits)
  then show ?case using VF16.IH [OF rangeI, of y] VF16.prems(1) by simp
next
  case (VBeginExtensions v k)
  then obtain y s1 where "run ReadVisitor (k y) d s1 = (Inr x, s')" by (auto split: sum.splits prod.splits)
  then show ?case using VBeginExtensions.IH [OF rangeI, of y] VBeginExtensions.prems(1) by simp
next
  case (VConditional c k)
  then show ?case using VConditional.IH [OF rangeI, of c] by (simp add: visitor_simps)
next
  case (VIsReading k)
  then show ?case using VIsReading.IH [OF rangeI, of True] by (simp add: visitor_simps)
next
  case (VIsNested k)
  then show ?case using VIsNested.IH [OF rangeI, of True] by (simp add: visitor_simps)
qed (auto simp: visitor_simps split: prod.splits sum.splits if_splits)

lemma Bundle_Read_reading:
  assumes "reading P p" "Bundle_Read p r = (Inr x, r')"
  shows "P x"
proof -
  obtain s where "run ReadVisitor (VEnter p) 0 (read_start r) = (Inr x, s)"
    using assms(2) by (auto simp: Bundle_Read_def Visit_def split: prod.splits sum.splits if_splits)
  moreover have "reading P (VEnter p)" using assms(1) by simp
  ultimately show ?thesis by (rule run_reading [rotated])
qed

lemma reading_bind: "reading P (bind_visit p f) = reading (\<lambda>x. reading P (f x)) p"
  by (induction p) simp_all

lemma reading_mono: "(\<And>x. P x \<Longrightarrow> Q x) \<Longrightarrow> reading P p \<Longrightarrow> reading Q p"
  by (induction p) auto

lemma reading_conj: "reading P p \<Longrightarrow> reading Q p \<Longrightarrow> reading (\<lambda>x. P x \<and> Q x) p"
  by (induction p) auto

text \<open>The same for the default values.\<close>

primrec defaulting :: "bool \<Rightarrow> ('a \<Rightarrow> bool) \<Rightarrow> 'a visit \<Rightarrow> bool" where
  "defaulting n P (Return x) = P x"
| "defaulting n P (Failure e) = True"
| "defaulting n P (VBits m df v k) = defaulting n P (k df)"
| "defaulting n P (VU32 enc df v k) = defaulting n P (k df)"
| "defaulting n P (VU64 df v k) = defaulting n P (k df)"
| "defaulting n P (VBool df v k) = defaulting n P (k df)"
| "defaulting n P (VF16 df v k) = defaulting n P (k df)"
| "defaulting n P (VConditional c k) = defaulting n P (k True)"
| "defaulting n P (VAllDefault a v k) = defaulting n P (k (False, True))"
| "defaulting n P (VIsReading k) = defaulting n P (k False)"
| "defaulting n P (VIsNested k) = defaulting n P (k n)"
| "defaulting n P (VEnter p) = defaulting n P p"
| "defaulting n P (VLeave p) = defaulting n P p"
| "defaulting n P (VBeginExtensions v k) = defaulting n P (k 0)"
| "defaulting n P (VEndExtensions p) = defaulting n P p"

definition default_visitor :: "bool \<Rightarrow> unit visitor" where
  "default_visitor n = SetDefaultVisitor\<lparr> visits_nested := n \<rparr>"

lemma default_visitors: "SetDefaultVisitor = default_visitor True" "InitVisitor = default_visitor False"
  by (simp_all add: default_visitor_def InitVisitor_def SetDefaultVisitor_def)

lemma default_visitors_simps:
  "do_bits (default_visitor n) m df v s = (Inr df, s)" "do_u32 (default_visitor n) enc df v s = (Inr df, s)"
  "do_u64 (default_visitor n) df64 v64 s = (Inr df64, s)" "do_bool (default_visitor n) b bv s = (Inr b, s)"
  "do_f16 (default_visitor n) df v s = (Inr df, s)" "do_conditional (default_visitor n) c = True"
  "do_all_default (default_visitor n) b bv s = ((False, True), s)" "is_reading (default_visitor n) = False"
  "visits_nested (default_visitor n) = n" "begin_extensions (default_visitor n) v64 s = (Inr 0, s)"
  "end_extensions (default_visitor n) s = (Inr (), s)"
  by (simp_all add: default_visitor_def SetDefaultVisitor_def)

lemma run_defaulting:
  "defaulting n P p \<Longrightarrow> fst (run (default_visitor n) p d s) = Inr x \<Longrightarrow> P x"
  by (induction p arbitrary: d s) (auto simp: default_visitors_simps split: if_splits)

lemma Bundle_SetDefault_defaulting: "defaulting True P p \<Longrightarrow> Bundle_SetDefault p = Some x \<Longrightarrow> P x"
  using run_defaulting [of True P "VEnter p" 0 "()" x]
  by (simp add: Bundle_SetDefault_def Visit_def default_visitors split: sum.splits)

lemma Bundle_Init_defaulting: "defaulting False P p \<Longrightarrow> Bundle_Init p = Some x \<Longrightarrow> P x"
  using run_defaulting [of False P "VEnter p" 0 "()" x]
  by (simp add: Bundle_Init_def Visit_def default_visitors split: sum.splits)

lemma defaulting_bind: "defaulting n P (bind_visit p f) = defaulting n (\<lambda>x. defaulting n P (f x)) p"
  by (induction p) simp_all

lemma defaulting_mono: "(\<And>x. P x \<Longrightarrow> Q x) \<Longrightarrow> defaulting n P p \<Longrightarrow> defaulting n Q p"
  by (induction p) auto

text \<open>Rules for the steps.\<close>

lemma reading_steps [simp]:
  "reading P (steps [] s) = P s"
  "reading P (steps (f # fs) s) = reading (\<lambda>s. reading P (steps fs s)) (f s)"
  "reading P (field_bits n df get upd s) = (\<forall>v. (n \<le> 56 \<longrightarrow> unat v < 2 ^ n) \<longrightarrow> P (upd (\<lambda>_. v) s))"
  "reading P (field_u32 enc df get upd s) = (\<forall>v. u32_value enc v \<longrightarrow> P (upd (\<lambda>_. v) s))"
  "reading P (field_u64 df64 get64 upd64 s) = (\<forall>v. P (upd64 (\<lambda>_. v) s))"
  "reading P (field_bool b getb updb s) = (\<forall>v. P (updb (\<lambda>_. v) s))"
  "reading P (field_f16 df get upd s) = (\<forall>v. P (upd (\<lambda>_. v) s))"
  "reading P (field_enum eb df get upd s) = (\<forall>v. u32_value enum_enc v \<longrightarrow> EnumValid eb v \<longrightarrow> P (upd (\<lambda>_. v) s))"
  "reading P (if_conditional c f s) = (if c s then reading P (f s) else P s)"
  "reading P (if_plain c f g s) = (if c s then reading P (f s) else reading P (g s))"
  "reading P (assign h s) = P (h s)"
  "reading P (check c s) = (c s \<longrightarrow> P s)"
  "reading P (nested ft gett updt s) = reading (\<lambda>x. P (updt (\<lambda>_. x) s)) (ft (gett s))"
  "reading P (extensions_begin get64 upd64 s) = (\<forall>v. P (upd64 (\<lambda>_. v) s))"
  "reading P (extensions_end s) = P s"
  by (auto simp: reading_bind field_bits_def field_u32_def field_u64_def field_bool_def field_f16_def field_enum_def
      if_conditional_def if_plain_def assign_def check_def nested_def extensions_begin_def extensions_end_def steps.simps)

lemma defaulting_steps [simp]:
  "defaulting n P (steps [] s) = P s"
  "defaulting n P (steps (f # fs) s) = defaulting n (\<lambda>s. defaulting n P (steps fs s)) (f s)"
  "defaulting n P (field_bits m df get upd s) = P (upd (\<lambda>_. df) s)"
  "defaulting n P (field_u32 enc df get upd s) = P (upd (\<lambda>_. df) s)"
  "defaulting n P (field_u64 df64 get64 upd64 s) = P (upd64 (\<lambda>_. df64) s)"
  "defaulting n P (field_bool b getb updb s) = P (updb (\<lambda>_. b) s)"
  "defaulting n P (field_f16 df get upd s) = P (upd (\<lambda>_. df) s)"
  "defaulting n P (field_enum eb df get upd s) = (EnumValid eb df \<longrightarrow> P (upd (\<lambda>_. df) s))"
  "defaulting n P (if_conditional c f s) = defaulting n P (f s)"
  "defaulting n P (if_plain c f g s) = (if c s then defaulting n P (f s) else defaulting n P (g s))"
  "defaulting n P (assign h s) = P (h s)"
  "defaulting n P (check c s) = (c s \<longrightarrow> P s)"
  "defaulting n P (nested ft gett updt s) = (if n then defaulting n (\<lambda>x. P (updt (\<lambda>_. x) s)) (ft (gett s)) else P s)"
  "defaulting n P (extensions_begin get64 upd64 s) = P (upd64 (\<lambda>_. 0) s)"
  "defaulting n P (extensions_end s) = P s"
  by (auto simp: defaulting_bind field_bits_def field_u32_def field_u64_def field_bool_def field_f16_def field_enum_def
      if_conditional_def if_plain_def assign_def check_def nested_def extensions_begin_def extensions_end_def steps.simps)

text \<open>
  With \<open>all_default\<close>, reading ends with the defaults of the body or with the body.  The defaults have nothing to do
  with what was read before.
\<close>

lemma reading_all_default:
  assumes "\<And>b. reading P (body (upd (\<lambda>_. b) s))" "defaulting True P (body (upd (\<lambda>_. True) s))"
    and "P (upd (\<lambda>_. True) s)" and "\<And>f g. upd f (upd g s) = upd (f \<circ> g) s"
  shows "reading P (with_all_default get upd body s)"
  using assms by (auto simp: with_all_default_def Let_def comp_def intro: Bundle_SetDefault_defaulting split: option.splits)

lemma defaulting_all_default:
  "defaulting n P (with_all_default get upd body s) = defaulting n P (body (upd (\<lambda>_. True) s))"
  by (simp add: with_all_default_def)

text \<open>Loops over a range keep an invariant.\<close>

lemma reading_steps_map:
  assumes "\<And>i s. i \<in> set is \<Longrightarrow> I s \<Longrightarrow> reading I (f i s)" "I s" "\<And>s. I s \<Longrightarrow> P s"
  shows "reading P (steps (map f is) s)"
  using assms
proof (induction "is" arbitrary: s)
  case (Cons i "is")
  have "reading (\<lambda>s. reading P (steps (map f is) s)) (f i s)"
  proof (rule reading_mono)
    show "reading I (f i s)" using Cons.prems by simp
  next
    fix t assume "I t"
    then show "reading P (steps (map f is) t)" using Cons.prems by (intro Cons.IH) auto
  qed
  then show ?case by simp
qed simp

lemma defaulting_steps_map:
  assumes "\<And>i s. i \<in> set is \<Longrightarrow> I s \<Longrightarrow> defaulting n I (f i s)" "I s" "\<And>s. I s \<Longrightarrow> P s"
  shows "defaulting n P (steps (map f is) s)"
  using assms
proof (induction "is" arbitrary: s)
  case (Cons i "is")
  have "defaulting n (\<lambda>s. defaulting n P (steps (map f is) s)) (f i s)"
  proof (rule defaulting_mono)
    show "defaulting n I (f i s)" using Cons.prems by simp
  next
    fix t assume "I t"
    then show "defaulting n P (steps (map f is) t)" using Cons.prems by (intro Cons.IH) auto
  qed
  then show ?case by simp
qed simp

text \<open>The same with an invariant that depends on the index.\<close>

lemma reading_steps_upt:
  assumes "\<And>i s. m \<le> i \<Longrightarrow> i < n \<Longrightarrow> I i s \<Longrightarrow> reading (I (Suc i)) (f i s)" "I m s" "m \<le> n" "\<And>s. I n s \<Longrightarrow> P s"
  shows "reading P (steps (map f [m..<n]) s)"
  using assms
proof (induction "n - m" arbitrary: m s)
  case (Suc k)
  have "reading (\<lambda>s. reading P (steps (map f [Suc m..<n]) s)) (f m s)"
  proof (rule reading_mono)
    show "reading (I (Suc m)) (f m s)" using Suc.prems(1) [of m s] Suc.prems(2) Suc.hyps(2) by simp
  next
    fix t assume "I (Suc m) t"
    then show "reading P (steps (map f [Suc m..<n]) t)"
      using Suc.hyps(2) Suc.prems by (intro Suc.hyps(1)) auto
  qed
  moreover have "m < n" using Suc.hyps(2) by simp
  ultimately show ?case by (simp add: upt_conv_Cons)
qed simp

lemma defaulting_steps_upt:
  assumes "\<And>i s. m \<le> i \<Longrightarrow> i < n \<Longrightarrow> I i s \<Longrightarrow> defaulting b (I (Suc i)) (f i s)" "I m s" "m \<le> n" "\<And>s. I n s \<Longrightarrow> P s"
  shows "defaulting b P (steps (map f [m..<n]) s)"
  using assms
proof (induction "n - m" arbitrary: m s)
  case (Suc k)
  have "defaulting b (\<lambda>s. defaulting b P (steps (map f [Suc m..<n]) s)) (f m s)"
  proof (rule defaulting_mono)
    show "defaulting b (I (Suc m)) (f m s)" using Suc.prems(1) [of m s] Suc.prems(2) Suc.hyps(2) by simp
  next
    fix t assume "I (Suc m) t"
    then show "defaulting b P (steps (map f [Suc m..<n]) t)"
      using Suc.hyps(2) Suc.prems by (intro Suc.hyps(1)) auto
  qed
  moreover have "m < n" using Suc.hyps(2) by simp
  ultimately show ?case by (simp add: upt_conv_Cons)
qed simp

text \<open>A part of which nothing is known ends somehow.\<close>

lemma reading_any: "reading (\<lambda>_. True) p" "defaulting n (\<lambda>_. True) p"
  by (induction p) simp_all

text \<open>Distributions.\<close>

lemma and_low_bits: "(x :: u32) AND 0x1F = take_bit 5 x" "x AND 0x3FFFFFF = take_bit 26 x" "x AND 0x7FFFFFFF = take_bit 31 x"
  by (simp_all add: take_bit_eq_mask mask_eq_exp_minus_1)

lemma low_bits_id: "unat (x :: u32) < 2 ^ k \<Longrightarrow> take_bit k x = x"
  by (rule unsigned_word_eqI [where ?'a = nat]) (simp add: unsigned_take_bit_eq take_bit_nat_eq_self)

lemma high_bit: "unat (x :: u32) < 2 ^ k \<Longrightarrow> k \<le> i \<Longrightarrow> \<not> bit x i"
  using low_bits_id [of x k] bit_take_bit_iff [of k x i] by auto

lemma IsDirect_iff: "IsDirect d \<longleftrightarrow> bit d 31"
proof -
  have "kDirect = 2 ^ 31" by (simp add: kDirect_def)
  then show ?thesis using and_exp_eq_0_iff_not_bit [of d 31] by (simp add: IsDirect_def)
qed

lemma distr_value_Val: "unat n < 2 ^ 31 \<Longrightarrow> distr_value (Val n) v \<longleftrightarrow> v = n"
proof -
  assume n: "unat n < 2 ^ 31"
  have b: "\<not> bit n i" if "31 \<le> i" for i using high_bit [OF n that] .
  have "bit (Val n) 31" by (simp add: Val_def kDirect_def bit_or_iff)
  moreover have "Direct (Val n) = n"
    using b by (auto simp: Direct_def Val_def kDirect_def and_low_bits bit_eq_iff bit_simps) (meson not_less)
  ultimately show ?thesis by (simp add: distr_value_def IsDirect_iff)
qed

lemma BitsOffset_fields:
  assumes b: "0 < unat b" "unat b \<le> 32" and n: "unat n < 2 ^ 26"
  shows "\<not> IsDirect (BitsOffset b n)" "ExtraBits (BitsOffset b n) = unat b" "Offset (BitsOffset b n) = n"
proof -
  let ?d = "BitsOffset b n"
  have l: "unat (b - 1) = unat b - 1" using b(1) by (simp add: unat_minus_one unat_gt_0)
  have lo: "unat ((b - 1) AND 0x1F) = unat b - 1" using b l by (simp add: and_low_bits unsigned_take_bit_eq take_bit_nat_eq_self)
  have hi: "n AND 0x3FFFFFF = n" using n by (simp add: and_low_bits low_bits_id)
  have "unat (push_bit 5 n) = 32 * unat n" using n by (simp add: push_bit_eq_mult unat_mult_id)
  then have d: "unat ?d = (unat b - 1) + 32 * unat n"
    unfolding BitsOffset_def hi using lo n b by (simp add: unat_add_id)
  show "\<not> IsDirect ?d" using high_bit [of ?d 31 31] d b n by (simp add: IsDirect_iff)
  have "((unat b - 1) + 32 * unat n) mod 32 = unat b - 1" using b by (simp only: mod_mult_self2) simp
  then show "ExtraBits ?d = unat b"
    using b by (simp add: ExtraBits_def and_low_bits(1) unsigned_take_bit_eq d take_bit_nat_def del: One_nat_def)
  have "drop_bit 5 ?d = n"
  proof (rule unsigned_word_eqI [where ?'a = nat])
    have "((unat b - 1) + 32 * unat n) div 32 = unat n" using b by (simp del: One_nat_def)
    then show "unat (drop_bit 5 ?d) = unat n" by (simp add: unat_drop_bit_eq drop_bit_nat_def d del: One_nat_def)
  qed
  then show "Offset ?d = n" using low_bits_id [OF n] by (simp add: Offset_def and_low_bits del: One_nat_def)
qed

lemma distr_value_BitsOffset:
  "0 < unat b \<Longrightarrow> unat b \<le> 32 \<Longrightarrow> unat n < 2 ^ 26 \<Longrightarrow>
     distr_value (BitsOffset b n) v \<longleftrightarrow> (\<exists>x. unat x < 2 ^ unat b \<and> v = x + n)"
  by (simp add: distr_value_def BitsOffset_fields)

end
