(* ===== verification/Metadata.thy ===== *)
theory Metadata
  imports Headers Bundle_Reading
begin

text \<open>
  The image metadata bundles of \<^verbatim>\<open>lib/jxl/image_metadata.h\<close> and \<^verbatim>\<open>image_metadata.cc\<close>, the name strings of
  \<^verbatim>\<open>frame_header.h\<close> and the writing of the codestream headers (\<^verbatim>\<open>enc_fields.cc\<close>).  A \<^verbatim>\<open>float\<close> is its bit pattern,
  a matrix the list of its rows one after the other, an enumeration its number, a string the list of its bytes.
  The color encoding is a parameter: a type and the visits of its fields.
\<close>

section \<open>Arrays, strings, comparisons\<close>

definition elem_get :: "nat \<Rightarrow> ('s \<Rightarrow> 'v list) \<Rightarrow> 's \<Rightarrow> 'v" where
  "elem_get i get s = get s ! i"

definition elem_upd :: "nat \<Rightarrow> (('v list \<Rightarrow> 'v list) \<Rightarrow> 's \<Rightarrow> 's) \<Rightarrow> ('v \<Rightarrow> 'v) \<Rightarrow> 's \<Rightarrow> 's" where
  "elem_upd i upd f = upd (\<lambda>xs. xs[i := f (xs ! i)])"

text \<open>A loop over an array of floats with its default values.\<close>

definition field_f16s :: "u32 list \<Rightarrow> ('s \<Rightarrow> u32 list) \<Rightarrow> ((u32 list \<Rightarrow> u32 list) \<Rightarrow> 's \<Rightarrow> 's) \<Rightarrow> 's fields" where
  "field_f16s dfs get upd = steps (map (\<lambda>i. field_f16 (dfs ! i) (elem_get i get) (elem_upd i upd)) [0..<length dfs])"

definition visit_char :: "('s \<Rightarrow> u8 list) \<Rightarrow> ((u8 list \<Rightarrow> u8 list) \<Rightarrow> 's \<Rightarrow> 's) \<Rightarrow> nat \<Rightarrow> 's fields" where
  "visit_char get upd i = (\<lambda>s. VBits 8 0 (ucast (get s ! i)) (\<lambda>c. Return (upd (\<lambda>xs. xs[i := ucast c]) s)))"

definition VisitNameString :: "('s \<Rightarrow> u8 list) \<Rightarrow> ((u8 list \<Rightarrow> u8 list) \<Rightarrow> 's \<Rightarrow> 's) \<Rightarrow> 's fields" where
  "VisitNameString get upd = (\<lambda>s.
     VU32 (U32Enc (Val 0) (Bits 4) (BitsOffset 5 16) (BitsOffset 10 48)) 0 (of_nat (length (get s))) (\<lambda>name_length.
       VIsReading (\<lambda>r.
         steps (map (visit_char get upd) [0..<unat name_length])
           (if r then upd (vector_resize (unat name_length) 0) s else s))))"

definition f32_nan :: "u32 \<Rightarrow> bool" where
  "f32_nan v \<longleftrightarrow> \<not> f32_finite v \<and> v AND 0x7FFFFF \<noteq> 0"

definition f32_less :: "u32 \<Rightarrow> u32 \<Rightarrow> bool" where
  "f32_less a b \<longleftrightarrow> \<not> f32_nan a \<and> \<not> f32_nan b \<and> f32_scaled a < f32_scaled b"

definition f32_le :: "u32 \<Rightarrow> u32 \<Rightarrow> bool" where
  "f32_le a b \<longleftrightarrow> \<not> f32_nan a \<and> \<not> f32_nan b \<and> f32_scaled a \<le> f32_scaled b"

section \<open>Bit depth and extra channels\<close>

record BitDepth =
  floating_point_sample :: bool
  bits_per_sample :: u32
  exponent_bits_per_sample :: u32

definition BitDepth_VisitFields :: "BitDepth fields" where
  "BitDepth_VisitFields = steps [
     field_bool False floating_point_sample floating_point_sample_update,
     if_plain (\<lambda>b. \<not> floating_point_sample b)
       (steps [
          field_u32 (U32Enc (Val 8) (Val 10) (Val 12) (BitsOffset 6 1)) 8 bits_per_sample bits_per_sample_update,
          assign (exponent_bits_per_sample_update (\<lambda>_. 0))])
       (steps [
          field_u32 (U32Enc (Val 32) (Val 16) (Val 24) (BitsOffset 6 1)) 32 bits_per_sample bits_per_sample_update,
          assign (exponent_bits_per_sample_update (\<lambda>e. e - 1)),
          field_bits 4 7 exponent_bits_per_sample exponent_bits_per_sample_update,
          assign (exponent_bits_per_sample_update (\<lambda>e. e + 1))]),
     if_plain floating_point_sample
       (steps [
          check (\<lambda>b. \<not> (exponent_bits_per_sample b < 2 \<or> exponent_bits_per_sample b > 8)),
          check (\<lambda>b. let mantissa_bits = sint (bits_per_sample b - exponent_bits_per_sample b - 1)
                     in \<not> (mantissa_bits < 2 \<or> mantissa_bits > 23))])
       (check (\<lambda>b. \<not> bits_per_sample b > 31))]"

definition kAlpha :: u32 where "kAlpha = 0"
definition kSpotColor :: u32 where "kSpotColor = 2"
definition kCFA :: u32 where "kCFA = 5"
definition kReserved0 :: u32 where "kReserved0 = 7"
definition kReserved7 :: u32 where "kReserved7 = 14"
definition kUnknown :: u32 where "kUnknown = 15"

definition EnumBits_ExtraChannel :: u64 where "EnumBits_ExtraChannel = 0x1807F"

record ExtraChannelInfo =
  eci_all_default :: bool
  eci_type :: u32
  eci_bit_depth :: BitDepth
  eci_dim_shift :: u32
  eci_name :: "u8 list"
  alpha_associated :: bool
  spot_color :: "u32 list"
  cfa_channel :: u32

definition ExtraChannelInfo_body :: "ExtraChannelInfo fields" where
  "ExtraChannelInfo_body = steps [
     field_enum EnumBits_ExtraChannel kAlpha eci_type eci_type_update,
     nested BitDepth_VisitFields eci_bit_depth eci_bit_depth_update,
     field_u32 (U32Enc (Val 0) (Val 3) (Val 4) (BitsOffset 3 1)) 0 eci_dim_shift eci_dim_shift_update,
     check (\<lambda>e. \<not> push_bit (unat (eci_dim_shift e)) 1 > (8 :: u32)),
     VisitNameString eci_name eci_name_update,
     if_conditional (\<lambda>e. eci_type e = kAlpha) (field_bool False alpha_associated alpha_associated_update),
     if_conditional (\<lambda>e. eci_type e = kSpotColor) (field_f16s [0, 0, 0, 0] spot_color spot_color_update),
     if_conditional (\<lambda>e. eci_type e = kCFA)
       (field_u32 (U32Enc (Val 1) (Bits 2) (BitsOffset 4 3) (BitsOffset 8 19)) 1 cfa_channel cfa_channel_update),
     check (\<lambda>e. \<not> (eci_type e = kUnknown \<or> (kReserved0 \<le> eci_type e \<and> eci_type e \<le> kReserved7)))]"

definition ExtraChannelInfo_VisitFields :: "ExtraChannelInfo fields" where
  "ExtraChannelInfo_VisitFields = with_all_default eci_all_default eci_all_default_update ExtraChannelInfo_body"

text \<open>The constructors.\<close>

definition BitDepth_new :: BitDepth where
  "BitDepth_new = \<lparr> floating_point_sample = False, bits_per_sample = 8, exponent_bits_per_sample = 0 \<rparr>"

definition ExtraChannelInfo_new :: ExtraChannelInfo where
  "ExtraChannelInfo_new = \<lparr> eci_all_default = True, eci_type = kAlpha, eci_bit_depth = BitDepth_new, eci_dim_shift = 0,
     eci_name = [], alpha_associated = False, spot_color = [0, 0, 0, 0], cfa_channel = 1 \<rparr>"

section \<open>Color transforms and tone mapping\<close>

record OpsinInverseMatrix =
  oim_all_default :: bool
  inverse_matrix :: "u32 list"
  opsin_biases :: "u32 list"
  quant_biases :: "u32 list"

definition kDefaultInverseOpsinAbsorbanceMatrix :: "u32 list" where
  "kDefaultInverseOpsinAbsorbanceMatrix = [
    0x4130814C, 0xC11DDF01, 0xBE2892EE, 0xC05043F3, 0x408D6691, 0xBE2892EE, 0xC06A2A9F, 0x402DA088, 0x3FF9142D]"

definition kNegOpsinAbsorbanceBiasRGB :: "u32 list" where
  "kNegOpsinAbsorbanceBiasRGB = [0xBB789536, 0xBB789536, 0xBB789536, 0x3F800000]"

definition kDefaultQuantBias :: "u32 list" where
  "kDefaultQuantBias = [0x3F720274, 0x3F6E10E8, 0x3F733774, 0x3E147AE1]"

definition OpsinInverseMatrix_body :: "OpsinInverseMatrix fields" where
  "OpsinInverseMatrix_body = steps [
     field_f16s kDefaultInverseOpsinAbsorbanceMatrix inverse_matrix inverse_matrix_update,
     field_f16s (take 3 kNegOpsinAbsorbanceBiasRGB) opsin_biases opsin_biases_update,
     field_f16s kDefaultQuantBias quant_biases quant_biases_update]"

definition OpsinInverseMatrix_VisitFields :: "OpsinInverseMatrix fields" where
  "OpsinInverseMatrix_VisitFields = with_all_default oim_all_default oim_all_default_update OpsinInverseMatrix_body"

record ToneMapping =
  tm_all_default :: bool
  intensity_target :: u32
  min_nits :: u32
  relative_to_max_display :: bool
  linear_below :: u32

definition kDefaultIntensityTarget :: u32 where "kDefaultIntensityTarget = 0x437F0000"

definition ToneMapping_body :: "ToneMapping fields" where
  "ToneMapping_body = steps [
     field_f16 kDefaultIntensityTarget intensity_target intensity_target_update,
     check (\<lambda>t. \<not> f32_le (intensity_target t) 0),
     field_f16 0 min_nits min_nits_update,
     check (\<lambda>t. \<not> (f32_less (min_nits t) 0 \<or> f32_less (intensity_target t) (min_nits t))),
     field_bool False relative_to_max_display relative_to_max_display_update,
     field_f16 0 linear_below linear_below_update,
     check (\<lambda>t. \<not> (f32_less (linear_below t) 0 \<or> (relative_to_max_display t \<and> f32_less 0x3F800000 (linear_below t))))]"

definition ToneMapping_VisitFields :: "ToneMapping fields" where
  "ToneMapping_VisitFields = with_all_default tm_all_default tm_all_default_update ToneMapping_body"

record CustomTransformData =
  nonserialized_xyb_encoded :: bool
  ctd_all_default :: bool
  opsin_inverse_matrix :: OpsinInverseMatrix
  custom_weights_mask :: u32
  upsampling2_weights :: "u32 list"
  upsampling4_weights :: "u32 list"
  upsampling8_weights :: "u32 list"

definition kWeights2 :: "u32 list" where
  "kWeights2 = [
    0xBC8C9753, 0xBD0D6805, 0xBD24BF8D, 0xBCEF4A1B, 0xBBCCAF05, 0x3E107F61, 0x3E93F38E, 0x3B36A91F, 0xBC83E9BF,
    0x3F110DB7, 0x3D1ABB15, 0xBCA2BFFE, 0xBD00CEE5, 0xBC42295B, 0xBB0BF1E6]"

definition kWeights4 :: "u32 list" where
  "kWeights4 = [
    0xBCC62B83, 0xBD0F0823, 0xBD174798, 0xBCFD7BDC, 0xBBAD9996, 0xBC8844B3, 0xBD11B069, 0xBD1F4A20, 0xBD100CD8,
    0xBC221D56, 0x3E723230, 0x3EAAF8CD, 0xBC2FE3A8, 0xBC5726CE, 0xBD11AEA4, 0x3E059D02, 0x3ECD53D6, 0x3D21D6D0,
    0xBCAA3218, 0x3EF03361, 0xBB0925AE, 0xBC733C2D, 0xBD267E95, 0x3E41F8B5, 0x3F101397, 0x3D88B114, 0xBCBF52DC,
    0xBD117A16, 0xBBF757BB, 0xBCB9C9B5, 0xBCC19FD3, 0x3B4EF71F, 0xBD0B3A20, 0xBC5EBE5C, 0xBA70434A, 0xBB5BDA06,
    0xBC3E9816, 0xBC83EA50, 0xBC1F9836, 0xBAFB29AC, 0xBC337A56, 0xBD030253, 0xBD367B54, 0xBCE55BDA, 0xBBD3A707,
    0x3D82E125, 0x3E6B2674, 0x3BCEC286, 0xBC9B6E4B, 0x3F2CE539, 0x3DADBD49, 0xBCCFAAAD, 0xBCB4A655, 0xBC88A479,
    0xBB7BF2D5]"

definition kWeights8 :: "u32 list" where
  "kWeights8 = [
    0xBCEFE977, 0xBD17CFEE, 0xBD1AFC25, 0xBD082C84, 0xBB92AE18, 0xBCCE63C6, 0xBD19B4E0, 0xBD1FCE47, 0xBD160C54,
    0xBBD3E4DA, 0xBCA947B2, 0xBD1D3AFC, 0xBD23ED12, 0xBD1FBED5, 0xBC13C77D, 0xBC853BEF, 0xBD21F63F, 0xBD25BFE3,
    0xBD23015A, 0xBC489EA0, 0x3E991068, 0x3EB71458, 0xBCC880E3, 0xBC313BCD, 0xBD30B9CC, 0x3E74C4DB, 0x3ED287E4,
    0xBBBBC695, 0xBC6D9B6F, 0xBD2DF366, 0x3E33E475, 0x3EE7879A, 0x3CBB69BE, 0xBC9EA949, 0xBD12C527, 0x3DED0115,
    0x3EF2C60F, 0x3D80B491, 0xBCDBF5EA, 0x3EDABA06, 0xBCB83BAB, 0xBC3D47A9, 0xBD3AE3F4, 0x3E92E3E5, 0x3EFB5C51,
    0xB8A57C7C, 0xBC7D48D6, 0xBD3AE2F2, 0x3E597C8E, 0x3F0A30F2, 0x3D0A037F, 0xBCA99779, 0xBD1E644F, 0x3E11B5E9,
    0x3F10E10D, 0x3DA4C3EB, 0xBCEC9C00, 0xBD16C539, 0xBBB1AD77, 0xBCEF3ED8, 0xBCE470A3, 0xBCAD8574, 0xBD217B15,
    0xBBFE2199, 0xBCC75C96, 0xBD02D2EB, 0xBCA65D8D, 0xBD25A48F, 0xBC2FF77F, 0xBC9E2C46, 0xBD144AA3, 0xBCA1B867,
    0xBD208B68, 0xBC6E90F8, 0xB9EC4E9D, 0xBB6C006F, 0xBC272695, 0xBC49D5ED, 0xBBD16233, 0xBA3BAC94, 0xBB36ECE7,
    0xBC1CD050, 0xBC53145A, 0xBBEF8371, 0xBA8D45F9, 0xBB09BA53, 0xBC11EEE0, 0xBC57E300, 0xBC05593B, 0xBAC92F09,
    0xBCAE5D7B, 0xBD2AED8A, 0xBD45E5D0, 0xBD06E39A, 0xBBAC1E01, 0xBC8CEDC4, 0xBD260004, 0xBD4EAC10, 0xBD13C176,
    0xBBF1D672, 0xBC5BD5A9, 0xBD226EA2, 0xBD53029C, 0xBD1C41FB, 0xBC24CB1B, 0x3E423C31, 0x3EA9493B, 0xBC55025B,
    0xBC60F1B2, 0xBD248E2C, 0x3E0C92B0, 0x3EBA6123, 0x3C2868D5, 0xBC961612, 0xBD09D556, 0x3DB2E1F8, 0x3EC38E07,
    0x3D31B19E, 0xBCCEEDEA, 0x3F1067A1, 0x3B96315A, 0xBC8705D3, 0xBD483503, 0x3E7BC177, 0x3F1EC973, 0x3D30BC08,
    0xBCB5596E, 0xBD2A4FF0, 0x3E2A5DA8, 0x3F26781C, 0x3DC50D15, 0xBCFE10D2, 0xBD273AA7, 0xBC143247, 0xBCE4A1E0,
    0xBCAD7DDD, 0x3C02DA50, 0xBD23AA11, 0xBC4BB91C, 0xBCB6D23F, 0xBCF15BAD, 0x3C2289CD, 0xBD1377B4, 0xBC8A0755,
    0xBA9262EF, 0xBB86BE4B, 0xBC548593, 0xBC8D3522, 0xBC2788A5, 0xBAD8AB7D, 0xBB4D3324, 0xBC478F4B, 0xBC90725E,
    0xBC386BED, 0xBB17D29A, 0xBC6123FD, 0xBD1B8CEF, 0xBD52A79A, 0xBCFF5EAB, 0xBBBEAE7C, 0xBC2E5385, 0xBD13C98E,
    0xBD57F2B0, 0xBD0A4477, 0xBC02594C, 0x3DC52EFE, 0x3E8AE7D2, 0xBB67DA44, 0xBC8E0FC8, 0xBD012FE3, 0x3D68E871,
    0x3E91ECD4, 0x3CB6BAF2, 0xBCC28E6B, 0x3F2EA0F1, 0x3D4D8A0C, 0xBCBE1FCB, 0xBD338D8C, 0x3E3D0667, 0x3F371605,
    0x3DDD4C88, 0xBD05AE22, 0xBD14FF69, 0xBC64743E, 0xBCCDB7BE, 0xBC8D9C20, 0x3D5D7BFA, 0xBCEAE942, 0xBC9B15D6,
    0xBB1DD899, 0xBB92500F, 0xBC860954, 0xBCC2BA6A, 0xBC7980E0, 0xBB5A742A, 0xBC06583F, 0xBCF2D321, 0xBD384A72,
    0xBCE0E62A, 0xBBC8AC82, 0x3CDF6E0F, 0x3E472218, 0x3AD17EB8, 0xBCB6E25A, 0x3F3FF489, 0x3DEA8CB6, 0xBD0922D4,
    0xBC838992, 0xBCA99A28, 0xBB962688]"

definition CustomTransformData_body :: "CustomTransformData fields" where
  "CustomTransformData_body = steps [
     if_conditional nonserialized_xyb_encoded
       (nested OpsinInverseMatrix_VisitFields opsin_inverse_matrix opsin_inverse_matrix_update),
     field_bits 3 0 custom_weights_mask custom_weights_mask_update,
     if_conditional (\<lambda>c. custom_weights_mask c AND 1 \<noteq> 0) (field_f16s kWeights2 upsampling2_weights upsampling2_weights_update),
     if_conditional (\<lambda>c. custom_weights_mask c AND 2 \<noteq> 0) (field_f16s kWeights4 upsampling4_weights upsampling4_weights_update),
     if_conditional (\<lambda>c. custom_weights_mask c AND 4 \<noteq> 0) (field_f16s kWeights8 upsampling8_weights upsampling8_weights_update)]"

definition CustomTransformData_VisitFields :: "CustomTransformData fields" where
  "CustomTransformData_VisitFields = with_all_default ctd_all_default ctd_all_default_update CustomTransformData_body"

section \<open>Image metadata\<close>

record 'c ImageMetadata =
  im_all_default :: bool
  im_bit_depth :: BitDepth
  modular_16_bit_buffer_sufficient :: bool
  xyb_encoded :: bool
  color_encoding :: 'c
  orientation :: u32
  have_preview :: bool
  have_animation :: bool
  have_intrinsic_size :: bool
  intrinsic_size :: SizeHeader
  tone_mapping :: ToneMapping
  num_extra_channels :: u32
  extra_channel_info :: "ExtraChannelInfo list"
  preview_size :: PreviewHeader
  animation :: AnimationHeader
  im_extensions :: u64
  nonserialized_only_parse_basic_info :: bool

definition visit_extra_fields :: "bool \<Rightarrow> 'c ImageMetadata fields" where
  "visit_extra_fields extra_fields = (\<lambda>m. VConditional extra_fields (\<lambda>b.
     if b then
       steps [
         assign (orientation_update (\<lambda>x. x - 1)),
         field_bits 3 0 orientation orientation_update,
         assign (orientation_update (\<lambda>x. x + 1)),
         field_bool False have_intrinsic_size have_intrinsic_size_update,
         if_conditional have_intrinsic_size (nested SizeHeader_VisitFields intrinsic_size intrinsic_size_update),
         field_bool False have_preview have_preview_update,
         if_conditional have_preview (nested PreviewHeader_VisitFields preview_size preview_size_update),
         field_bool False have_animation have_animation_update,
         if_conditional have_animation (nested AnimationHeader_VisitFields animation animation_update)] m
     else Return (m\<lparr> orientation := 1, have_intrinsic_size := False, have_preview := False, have_animation := False \<rparr>)))"

definition visit_extra_channel :: "nat \<Rightarrow> 'c ImageMetadata fields" where
  "visit_extra_channel i =
     nested ExtraChannelInfo_VisitFields (elem_get i extra_channel_info) (elem_upd i extra_channel_info_update)"

definition visit_extra_channels :: "'c ImageMetadata fields" where
  "visit_extra_channels = (\<lambda>m. VIsReading (\<lambda>r.
     let m = (if r then extra_channel_info_update (vector_resize (unat (num_extra_channels m)) ExtraChannelInfo_new) m else m)
     in steps (map visit_extra_channel [0..<length (extra_channel_info m)]) m))"

definition visit_extensions :: "'c ImageMetadata fields" where
  "visit_extensions = (\<lambda>m. VIsReading (\<lambda>r.
     if r \<and> nonserialized_only_parse_basic_info m then Return m
     else steps [extensions_begin im_extensions im_extensions_update, extensions_end] m))"

text \<open>The visits after the extra fields, in two groups: up to the extra channels and from the color encoding on.\<close>

definition visit_channels :: "'c ImageMetadata fields" where
  "visit_channels = steps [
     nested BitDepth_VisitFields im_bit_depth im_bit_depth_update,
     field_bool True modular_16_bit_buffer_sufficient modular_16_bit_buffer_sufficient_update,
     assign (\<lambda>m. m\<lparr> num_extra_channels := of_nat (length (extra_channel_info m)) \<rparr>),
     field_u32 (U32Enc (Val 0) (Val 1) (BitsOffset 4 2) (BitsOffset 12 1)) 0 num_extra_channels num_extra_channels_update,
     if_conditional (\<lambda>m. num_extra_channels m \<noteq> 0) visit_extra_channels]"

definition visit_colors :: "'c fields \<Rightarrow> bool \<Rightarrow> 'c ImageMetadata fields" where
  "visit_colors visit_color extra_fields = steps [
     field_bool True xyb_encoded xyb_encoded_update,
     nested visit_color color_encoding color_encoding_update,
     if_conditional (\<lambda>m. extra_fields) (nested ToneMapping_VisitFields tone_mapping tone_mapping_update),
     visit_extensions]"

definition ImageMetadata_body :: "'c fields \<Rightarrow> 'c ImageMetadata fields" where
  "ImageMetadata_body visit_color = (\<lambda>m. VIsReading (\<lambda>r.
     let tone_mapping_default = (if r then False else Bundle_AllDefault (ToneMapping_VisitFields (tone_mapping m)));
         extra_fields = (orientation m \<noteq> 1 \<or> have_preview m \<or> have_animation m \<or> have_intrinsic_size m \<or> \<not> tone_mapping_default)
     in VBool False extra_fields (\<lambda>extra_fields.
          steps [visit_extra_fields extra_fields, visit_channels, visit_colors visit_color extra_fields] m)))"

definition ImageMetadata_VisitFields :: "'c fields \<Rightarrow> 'c ImageMetadata fields" where
  "ImageMetadata_VisitFields visit_color = with_all_default im_all_default im_all_default_update (ImageMetadata_body visit_color)"

definition ReadImageMetadata :: "'c fields \<Rightarrow> 'c ImageMetadata \<Rightarrow> BitReader \<Rightarrow> 'c ImageMetadata outcome \<times> BitReader" where
  "ReadImageMetadata visit_color metadata reader = Bundle_Read (ImageMetadata_VisitFields visit_color metadata) reader"

definition FindExtraChannel :: "u32 \<Rightarrow> 'c ImageMetadata \<Rightarrow> ExtraChannelInfo option" where
  "FindExtraChannel type m = find (\<lambda>eci. eci_type eci = type) (extra_channel_info m)"

definition GetAlphaBits :: "'c ImageMetadata \<Rightarrow> u32" where
  "GetAlphaBits m = (case FindExtraChannel kAlpha m of None \<Rightarrow> 0 | Some alpha \<Rightarrow> bits_per_sample (eci_bit_depth alpha))"

definition HasAlpha :: "'c ImageMetadata \<Rightarrow> bool" where
  "HasAlpha m \<longleftrightarrow> GetAlphaBits m \<noteq> 0"

text \<open>The assignments through the pointer that \<^verbatim>\<open>Find\<close> returns.\<close>

fun update_first_alpha :: "(ExtraChannelInfo \<Rightarrow> ExtraChannelInfo) \<Rightarrow> ExtraChannelInfo list \<Rightarrow> ExtraChannelInfo list" where
  "update_first_alpha f [] = []"
| "update_first_alpha f (e # es) = (if eci_type e = kAlpha then f e # es else e # update_first_alpha f es)"

definition SetAlphaBits :: "u32 \<Rightarrow> bool \<Rightarrow> 'c ImageMetadata \<Rightarrow> 'c ImageMetadata" where
  "SetAlphaBits bits alpha_is_premultiplied m =
     (let alpha = FindExtraChannel kAlpha m;
          m = (if bits = 0 then
                 (if alpha \<noteq> None then extra_channel_info_update (filter (\<lambda>eci. eci_type eci \<noteq> kAlpha)) m else m)
               else if alpha = None then
                 extra_channel_info_update (\<lambda>ecis.
                   ExtraChannelInfo_new\<lparr> eci_type := kAlpha, eci_bit_depth := BitDepth_new\<lparr> bits_per_sample := bits \<rparr>,
                     eci_dim_shift := 0, alpha_associated := alpha_is_premultiplied \<rparr> # ecis) m
               else
                 extra_channel_info_update (update_first_alpha (\<lambda>a.
                   a\<lparr> eci_bit_depth := \<lparr> floating_point_sample = False, bits_per_sample = bits, exponent_bits_per_sample = 0 \<rparr>,
                      alpha_associated := alpha_is_premultiplied \<rparr>)) m);
          m = m\<lparr> num_extra_channels := of_nat (length (extra_channel_info m)) \<rparr>
      in if bits > 12 then m\<lparr> modular_16_bit_buffer_sufficient := False \<rparr> else m)"

definition SetUintSamples :: "u32 \<Rightarrow> 'c ImageMetadata \<Rightarrow> 'c ImageMetadata" where
  "SetUintSamples bits m =
     (let m = m\<lparr> im_bit_depth := \<lparr> floating_point_sample = False, bits_per_sample = bits, exponent_bits_per_sample = 0 \<rparr> \<rparr>
      in if bits > 12 then m\<lparr> modular_16_bit_buffer_sufficient := False \<rparr> else m)"

definition SetFloat32Samples :: "'c ImageMetadata \<Rightarrow> 'c ImageMetadata" where
  "SetFloat32Samples m = m\<lparr> im_bit_depth := \<lparr> floating_point_sample = True, bits_per_sample = 32, exponent_bits_per_sample = 8 \<rparr>,
     modular_16_bit_buffer_sufficient := False \<rparr>"

definition SetFloat16Samples :: "'c ImageMetadata \<Rightarrow> 'c ImageMetadata" where
  "SetFloat16Samples m = m\<lparr> im_bit_depth := \<lparr> floating_point_sample = True, bits_per_sample = 16, exponent_bits_per_sample = 5 \<rparr>,
     modular_16_bit_buffer_sufficient := False \<rparr>"

record 'c CodecMetadata =
  cm_m :: "'c ImageMetadata"
  cm_size :: SizeHeader
  transform_data :: CustomTransformData

definition CodecMetadata_xsize :: "'c CodecMetadata \<Rightarrow> nat" where
  "CodecMetadata_xsize m = unat (SizeHeader_xsize (cm_size m))"

definition CodecMetadata_ysize :: "'c CodecMetadata \<Rightarrow> nat" where
  "CodecMetadata_ysize m = unat (SizeHeader_ysize (cm_size m))"

definition oriented_xsize :: "bool \<Rightarrow> 'c CodecMetadata \<Rightarrow> nat" where
  "oriented_xsize keep_orientation m =
     (if orientation (cm_m m) > 4 \<and> \<not> keep_orientation then CodecMetadata_ysize m else CodecMetadata_xsize m)"

definition oriented_ysize :: "bool \<Rightarrow> 'c CodecMetadata \<Rightarrow> nat" where
  "oriented_ysize keep_orientation m =
     (if orientation (cm_m m) > 4 \<and> \<not> keep_orientation then CodecMetadata_xsize m else CodecMetadata_ysize m)"

definition oriented_preview_xsize :: "bool \<Rightarrow> 'c CodecMetadata \<Rightarrow> nat" where
  "oriented_preview_xsize keep_orientation m = unat
     (if orientation (cm_m m) > 4 \<and> \<not> keep_orientation then PreviewHeader_ysize (preview_size (cm_m m))
      else PreviewHeader_xsize (preview_size (cm_m m)))"

definition oriented_preview_ysize :: "bool \<Rightarrow> 'c CodecMetadata \<Rightarrow> nat" where
  "oriented_preview_ysize keep_orientation m = unat
     (if orientation (cm_m m) > 4 \<and> \<not> keep_orientation then PreviewHeader_xsize (preview_size (cm_m m))
      else PreviewHeader_ysize (preview_size (cm_m m)))"

text \<open>Writing the headers; the layer is the one of headers.  The metadata that is passed in is updated.\<close>

definition kCodestreamMarker :: u64 where "kCodestreamMarker = 0x0A"

definition write_marker :: "'l \<Rightarrow> bool \<Rightarrow> BitWriter \<times> 'l AuxOut \<Rightarrow> StatusCode \<times> BitWriter \<times> 'l AuxOut" where
  "write_marker layer has_aux_out =
     WithMaxBits 16 layer has_aux_out (\<lambda>(w, aux). (kOk, Write 8 kCodestreamMarker (Write 8 0xFF w), aux)) False"

definition WriteCodestreamHeaders :: "'c fields \<Rightarrow> 'l \<Rightarrow> bool \<Rightarrow> 'c CodecMetadata \<Rightarrow> BitWriter \<times> 'l AuxOut \<Rightarrow>
    StatusCode \<times> 'c CodecMetadata \<times> BitWriter \<times> 'l AuxOut" where
  "WriteCodestreamHeaders visit_color layer has_aux_out metadata st =
     (case write_marker layer has_aux_out st of (s, st) \<Rightarrow>
      if s \<noteq> kOk then (s, metadata, st)
      else case Bundle_Write SizeHeader_VisitFields (cm_size metadata) layer has_aux_out st of (s, st) \<Rightarrow>
      if s \<noteq> kOk then (s, metadata, st)
      else case Bundle_Write (ImageMetadata_VisitFields visit_color) (cm_m metadata) layer has_aux_out st of (s, st) \<Rightarrow>
      if s \<noteq> kOk then (s, metadata, st)
      else
        (let metadata = metadata\<lparr> transform_data := (transform_data metadata)
               \<lparr> nonserialized_xyb_encoded := xyb_encoded (cm_m metadata) \<rparr> \<rparr>
         in case Bundle_Write CustomTransformData_VisitFields (transform_data metadata) layer has_aux_out st of (s, st) \<Rightarrow>
              (s, metadata, st)))"

section \<open>What reading accepts\<close>

definition BitDepth_valid :: "BitDepth \<Rightarrow> bool" where
  "BitDepth_valid b \<longleftrightarrow>
     (let bits = unat (bits_per_sample b); e = unat (exponent_bits_per_sample b)
      in if floating_point_sample b then 2 \<le> e \<and> e \<le> 8 \<and> e + 3 \<le> bits \<and> bits \<le> e + 24
         else 1 \<le> bits \<and> bits \<le> 31 \<and> e = 0)"

text \<open>A field with an offset stays below the sum.\<close>

lemma distr_value_bounds:
  assumes "distr_value (BitsOffset b n) v" "0 < unat b" "unat b \<le> 32" "unat n < 2 ^ 26" "unat n + 2 ^ unat b \<le> 2 ^ 32"
  shows "unat n \<le> unat v \<and> unat v < unat n + 2 ^ unat b"
proof -
  obtain x where x: "unat x < 2 ^ unat b" "v = x + n" using assms by (auto simp: distr_value_BitsOffset)
  then have "unat v = unat x + unat n" using assms(5) by (simp add: unat_add_id)
  then show ?thesis using x(1) by simp
qed

lemma small_difference:
  fixes b e :: u32
  assumes "unat b \<le> 64" "unat e \<le> 16"
  shows "sint (b - e - 1) = int (unat b) - int (unat e) - 1"
proof -
  have "b - e - 1 = word_of_int (int (unat b) - int (unat e) - 1)" by simp
  moreover have "- 2147483648 \<le> int (unat b) - int (unat e) - 1" "int (unat b) - int (unat e) - 1 < 2147483648"
    using assms by linarith+
  ultimately show ?thesis by (simp only: sint_sbintrunc') (rule signed_take_bit_int_eq_self, simp_all)
qed

lemma BitDepth_reading: "reading BitDepth_valid (BitDepth_VisitFields b)"
proof -
  have i: "1 \<le> unat v \<and> unat v \<le> 64" if "u32_value (U32Enc (Val x) (Val y) (Val z) (BitsOffset 6 1)) v"
    "x \<in> {8, 32}" "y \<in> {10, 16}" "z \<in> {12, 24}" for v x y z
    using that distr_value_bounds [of 6 1 v] by (auto simp: distr_value_Val)
  have f: "2 \<le> unat (e + 1) \<and> unat (e + 1) \<le> 8 \<and> unat (e + 1) + 3 \<le> unat v \<and> unat v \<le> unat (e + 1) + 24"
    if "unat e < 16" "1 \<le> unat v \<and> unat v \<le> 64" "\<not> e + 1 < 2" "\<not> 8 < e + 1"
      "\<not> (let m = sint (v - (e + 1) - 1) in m < 2 \<or> 23 < m)" for v e :: u32
  proof -
    have "unat (e + 1) = unat e + 1" using that(1) by (simp add: unat_add_id)
    moreover have "2 \<le> unat (e + 1)" "unat (e + 1) \<le> 8" using that(3,4) by (simp_all add: not_less word_le_nat_alt)
    moreover have "\<not> int (unat v) - int (unat (e + 1)) - 1 < 2 \<and> \<not> 23 < int (unat v) - int (unat (e + 1)) - 1"
    proof -
      have "unat v \<le> 64" "unat (e + 1) \<le> 16" using that(2) calculation by simp_all
      note eq = small_difference [OF this]
      show ?thesis using that(5) unfolding Let_def eq by blast
    qed
    ultimately show ?thesis by linarith
  qed
  show ?thesis
    using i [where x = 8 and y = 10 and z = 12] i [where x = 32 and y = 16 and z = 24] f
    by (auto simp: BitDepth_VisitFields_def BitDepth_valid_def not_less word_le_nat_alt Let_def simp del: u32_value.simps)
qed


text \<open>
  What loops over a field of a list type do to it: \<open>get\<close> and \<open>upd\<close> are a field of a record and its update.
\<close>

locale list_field =
  fixes get :: "'s \<Rightarrow> 'v list" and upd :: "('v list \<Rightarrow> 'v list) \<Rightarrow> 's \<Rightarrow> 's"
  assumes get_upd: "get (upd f s) = f (get s)"
    and upd_upd: "upd f (upd g s) = upd (\<lambda>x. f (g x)) s"
    and upd_get: "upd (\<lambda>_. get s) s = s"
begin

lemma loop_reading:
  assumes "\<And>i xs. length xs = n \<Longrightarrow> reading (\<lambda>t. \<exists>ys. t = upd (\<lambda>_. ys) s \<and> length ys = n) (f i (upd (\<lambda>_. xs) s))"
    and "length xs0 = n" and "\<And>xs. length xs = n \<Longrightarrow> P (upd (\<lambda>_. xs) s)"
  shows "reading P (steps (map f is) (upd (\<lambda>_. xs0) s))"
  using assms by (intro reading_steps_map [where I = "\<lambda>t. \<exists>ys. t = upd (\<lambda>_. ys) s \<and> length ys = n"]) auto

lemma loop_defaulting:
  assumes "\<And>i xs. length xs = n \<Longrightarrow> defaulting b (\<lambda>t. \<exists>ys. t = upd (\<lambda>_. ys) s \<and> length ys = n) (f i (upd (\<lambda>_. xs) s))"
    and "length xs0 = n" and "\<And>xs. length xs = n \<Longrightarrow> P (upd (\<lambda>_. xs) s)"
  shows "defaulting b P (steps (map f is) (upd (\<lambda>_. xs0) s))"
  using assms by (intro defaulting_steps_map [where I = "\<lambda>t. \<exists>ys. t = upd (\<lambda>_. ys) s \<and> length ys = n"]) auto

end

locale name_field = list_field get upd for get :: "'s \<Rightarrow> u8 list" and upd :: "(u8 list \<Rightarrow> u8 list) \<Rightarrow> 's \<Rightarrow> 's"
begin

lemma name_reading:
  assumes "\<And>xs. length xs \<le> 1071 \<Longrightarrow> P (upd (\<lambda>_. xs) s)"
  shows "reading P (VisitNameString get upd s)"
proof -
  have "reading P (steps (map (visit_char get upd) [0..<unat v]) (upd (vector_resize (unat v) 0) s))"
    if v: "u32_value (U32Enc (Val 0) (Bits 4) (BitsOffset 5 16) (BitsOffset 10 48)) v" for v
  proof -
    have le: "unat v \<le> 1071"
      using v distr_value_bounds [of 4 0 v] distr_value_bounds [of 5 16 v] distr_value_bounds [of 10 48 v]
      by (auto simp: Bits_def distr_value_Val)
    let ?xs = "vector_resize (unat v) 0 (get s)"
    have "upd (vector_resize (unat v) 0) s = upd (vector_resize (unat v) 0) (upd (\<lambda>_. get s) s)" by (simp add: upd_get)
    also have "\<dots> = upd (\<lambda>_. ?xs) s" by (simp add: upd_upd)
    finally show ?thesis
      using le assms
      by (auto simp: vector_resize_def visit_char_def upd_upd intro!: loop_reading [where n = "unat v"] exI [where x = "_ :: u8 list"])
  qed
  then show ?thesis by (simp add: VisitNameString_def)
qed

lemma name_defaulting: "defaulting n P (VisitNameString get upd s) = P s"
  by (simp add: VisitNameString_def)

end

locale float_field = list_field get upd for get :: "'s \<Rightarrow> u32 list" and upd :: "(u32 list \<Rightarrow> u32 list) \<Rightarrow> 's \<Rightarrow> 's"
begin

lemma floats_reading:
  assumes "\<And>xs. length xs = length (get s) \<Longrightarrow> P (upd (\<lambda>_. xs) s)"
  shows "reading P (field_f16s dfs get upd s)" and "defaulting n P (field_f16s dfs get upd s)"
proof -
  let ?f = "\<lambda>i. field_f16 (dfs ! i) (elem_get i get) (elem_upd i upd)"
  have E: "\<exists>ys. elem_upd i upd (\<lambda>_. v) (upd (\<lambda>_. xs) s) = upd (\<lambda>_. ys) s \<and> length ys = length (get s)"
    if "length xs = length (get s)" for i v xs
    by (rule exI [of _ "xs[i := v]"]) (simp add: elem_upd_def upd_upd that)
  have "reading P (steps (map ?f [0..<length dfs]) (upd (\<lambda>_. get s) s))"
    using assms by (intro loop_reading [where n = "length (get s)"]) (auto intro: E)
  moreover have "defaulting n P (steps (map ?f [0..<length dfs]) (upd (\<lambda>_. get s) s))"
    using assms by (intro loop_defaulting [where n = "length (get s)"]) (auto intro: E)
  ultimately show "reading P (field_f16s dfs get upd s)" "defaulting n P (field_f16s dfs get upd s)"
    by (simp_all add: field_f16s_def upd_get)
qed

end

interpretation eci_name: name_field eci_name eci_name_update by unfold_locales auto
interpretation spot_color: float_field spot_color spot_color_update by unfold_locales auto

definition ExtraChannelInfo_valid :: "ExtraChannelInfo \<Rightarrow> bool" where
  "ExtraChannelInfo_valid e \<longleftrightarrow> BitDepth_valid (eci_bit_depth e) \<and> unat (eci_dim_shift e) \<le> 3 \<and>
     (eci_type e \<le> 6 \<or> eci_type e = 16) \<and> length (eci_name e) \<le> 1071"

lemma BitDepth_defaulting: "defaulting True BitDepth_valid (BitDepth_VisitFields b)"
  by (simp add: BitDepth_VisitFields_def BitDepth_valid_def)


lemma ExtraChannelInfo_types:
  assumes "EnumValid EnumBits_ExtraChannel v" "\<not> (v = kUnknown \<or> (kReserved0 \<le> v \<and> v \<le> kReserved7))"
  shows "v \<le> 6 \<or> v = 16"
proof -
  have c: "list_all (\<lambda>n. EnumBits_ExtraChannel AND push_bit n 1 \<noteq> 0 \<longrightarrow> n \<le> 6 \<or> n = 15 \<or> n = 16) [0..<64]" by code_simp
  have n: "unat v < 64" "EnumBits_ExtraChannel AND push_bit (unat v) 1 \<noteq> 0"
    using assms(1) by (simp_all add: EnumValid_def word_less_nat_alt)
  then have "unat v \<le> 6 \<or> unat v = unat (15 :: u32) \<or> unat v = unat (16 :: u32)" using c by (auto simp: list_all_iff)
  then have "unat v \<le> unat (6 :: u32) \<or> v = 15 \<or> v = 16" unfolding word_unat_eq_iff by simp
  then show ?thesis using assms(2) by (auto simp: word_le_nat_alt kUnknown_def)
qed

lemma dim_shift_ok:
  assumes "u32_value (U32Enc (Val 0) (Val 3) (Val 4) (BitsOffset 3 1)) v" "\<not> (8 :: u32) < push_bit (unat v) 1"
  shows "unat v \<le> 3"
proof -
  have le: "unat v \<le> 8" using assms(1) distr_value_bounds [of 3 1 v] by (auto simp: distr_value_Val)
  have "list_all (\<lambda>n. (8 :: u32) < push_bit n 1) [4..<9]" by code_simp
  then have "unat v \<notin> set [4..<9]" using assms(2) unfolding list_all_iff by blast
  then show ?thesis using le by auto
qed

lemma ExtraChannelInfo_reading:
  assumes "ExtraChannelInfo_valid e"
  shows "reading ExtraChannelInfo_valid (ExtraChannelInfo_VisitFields e)"
proof -
  have "reading ExtraChannelInfo_valid (ExtraChannelInfo_body e)" for e
    by (auto simp: ExtraChannelInfo_body_def ExtraChannelInfo_valid_def simp del: u32_value.simps
        intro!: reading_mono [OF _ BitDepth_reading] eci_name.name_reading spot_color.floats_reading(1)
        dest: dim_shift_ok ExtraChannelInfo_types)
  moreover have "defaulting True ExtraChannelInfo_valid (ExtraChannelInfo_body e)"
    if "length (eci_name e) \<le> 1071" for e
    using that by (auto simp: ExtraChannelInfo_body_def ExtraChannelInfo_valid_def kAlpha_def eci_name.name_defaulting
        intro!: defaulting_mono [OF _ BitDepth_defaulting] spot_color.floats_reading(2))
  ultimately show ?thesis using assms
    by (auto simp: ExtraChannelInfo_VisitFields_def ExtraChannelInfo_valid_def intro!: reading_all_default)
qed


definition ImageMetadata_valid :: "'c ImageMetadata \<Rightarrow> bool" where
  "ImageMetadata_valid m \<longleftrightarrow> BitDepth_valid (im_bit_depth m) \<and> unat (orientation m) \<in> {1..8} \<and>
     length (extra_channel_info m) = unat (num_extra_channels m) \<and> unat (num_extra_channels m) \<le> 4096 \<and>
     (\<forall>e \<in> set (extra_channel_info m). ExtraChannelInfo_valid e)"

lemma ExtraChannelInfo_new_valid: "ExtraChannelInfo_valid ExtraChannelInfo_new"
  by (simp add: ExtraChannelInfo_valid_def ExtraChannelInfo_new_def BitDepth_valid_def BitDepth_new_def kAlpha_def)

text \<open>The bundles nested here of which nothing is needed.\<close>

lemmas any_nested =
  reading_mono [OF _ reading_any(1) [of "SizeHeader_VisitFields _"]]
  reading_mono [OF _ reading_any(1) [of "PreviewHeader_VisitFields _"]]
  reading_mono [OF _ reading_any(1) [of "AnimationHeader_VisitFields _"]]
  reading_mono [OF _ reading_any(1) [of "ToneMapping_VisitFields _"]]
  defaulting_mono [OF _ reading_any(2) [of _ "SizeHeader_VisitFields _"]]
  defaulting_mono [OF _ reading_any(2) [of _ "PreviewHeader_VisitFields _"]]
  defaulting_mono [OF _ reading_any(2) [of _ "AnimationHeader_VisitFields _"]]
  defaulting_mono [OF _ reading_any(2) [of _ "ToneMapping_VisitFields _"]]

lemma visit_extra_channels_reading:
  assumes "ImageMetadata_valid (m\<lparr> num_extra_channels := 0 \<rparr>)" "unat (num_extra_channels m) \<le> 4096"
  shows "reading ImageMetadata_valid (visit_extra_channels m)"
proof -
  let ?m = "extra_channel_info_update (vector_resize (unat (num_extra_channels m)) ExtraChannelInfo_new) m"
  have m: "extra_channel_info m = []" using assms(1) by (simp add: ImageMetadata_valid_def)
  let ?n = "unat (num_extra_channels m)"
  have "reading ImageMetadata_valid (steps (map visit_extra_channel [0..<?n]) ?m)"
  proof (rule reading_steps_map [where I = "\<lambda>t. ImageMetadata_valid t \<and> num_extra_channels t = num_extra_channels m"])
    show "ImageMetadata_valid ?m \<and> num_extra_channels ?m = num_extra_channels m"
      using assms m ExtraChannelInfo_new_valid by (simp add: ImageMetadata_valid_def vector_resize_def)
  next
    fix i and t :: "'a ImageMetadata"
    assume i: "i \<in> set [0..<?n]" and t: "ImageMetadata_valid t \<and> num_extra_channels t = num_extra_channels m"
    then have "i < length (extra_channel_info t)" by (simp add: ImageMetadata_valid_def)
    then have "ExtraChannelInfo_valid (elem_get i extra_channel_info t)"
      using t by (simp add: ImageMetadata_valid_def elem_get_def)
    then have "reading ExtraChannelInfo_valid (ExtraChannelInfo_VisitFields (elem_get i extra_channel_info t))"
      by (rule ExtraChannelInfo_reading)
    then show "reading (\<lambda>t. ImageMetadata_valid t \<and> num_extra_channels t = num_extra_channels m) (visit_extra_channel i t)"
      using t unfolding visit_extra_channel_def reading_steps
      by (elim reading_mono [rotated]) (auto simp: ImageMetadata_valid_def elem_upd_def dest!: set_update_subset_insert [THEN subsetD])
  qed simp
  moreover have "length (extra_channel_info ?m) = ?n" using m by (simp add: vector_resize_def)
  ultimately show ?thesis by (simp add: visit_extra_channels_def Let_def)
qed

abbreviation (input) no_channels_yet :: "'c ImageMetadata \<Rightarrow> bool" where
  "no_channels_yet m \<equiv> extra_channel_info m = [] \<and> unat (orientation m) \<in> {1..8}"

lemma visit_extra_fields_reading:
  assumes "no_channels_yet m"
  shows "reading no_channels_yet (visit_extra_fields b m)" "defaulting True no_channels_yet (visit_extra_fields b m)"
proof -
  have "unat (x + 1 :: u32) \<in> {1..8}" if "unat x < 2 ^ 3" for x using that by (simp add: unat_add_id)
  then show "reading no_channels_yet (visit_extra_fields b m)" "defaulting True no_channels_yet (visit_extra_fields b m)"
    using assms by (auto simp: visit_extra_fields_def intro!: any_nested)
qed

lemma visit_channels_reading:
  assumes "no_channels_yet m"
  shows "reading ImageMetadata_valid (visit_channels m)" "defaulting True ImageMetadata_valid (visit_channels m)"
proof -
  have N: "unat v \<le> 4096" if "u32_value (U32Enc (Val 0) (Val 1) (BitsOffset 4 2) (BitsOffset 12 1)) v" for v
    using that distr_value_bounds [of 4 2 v] distr_value_bounds [of 12 1 v] by (auto simp: distr_value_Val)
  show "reading ImageMetadata_valid (visit_channels m)"
    using assms by (auto simp: visit_channels_def simp del: u32_value.simps intro!: reading_mono [OF _ BitDepth_reading]
      visit_extra_channels_reading dest!: N) (auto simp: ImageMetadata_valid_def)
  show "defaulting True ImageMetadata_valid (visit_channels m)"
    using assms by (auto simp: visit_channels_def visit_extra_channels_def ImageMetadata_valid_def
      intro!: defaulting_mono [OF _ BitDepth_defaulting])
qed

lemma visit_colors_reading:
  assumes "ImageMetadata_valid m"
  shows "reading ImageMetadata_valid (visit_colors visit_color b m)"
    "defaulting True ImageMetadata_valid (visit_colors visit_color b m)"
  using assms by (auto simp: ImageMetadata_valid_def visit_colors_def visit_extensions_def intro!: any_nested
    reading_mono [OF _ reading_any(1) [of "visit_color _"]] defaulting_mono [OF _ reading_any(2) [of _ "visit_color _"]])

lemma ImageMetadata_body_reading:
  assumes "no_channels_yet m"
  shows "reading ImageMetadata_valid (ImageMetadata_body visit_color m)"
    "defaulting True ImageMetadata_valid (ImageMetadata_body visit_color m)"
  using assms by (auto simp: ImageMetadata_body_def intro!: visit_channels_reading visit_colors_reading
    reading_mono [OF _ visit_extra_fields_reading(1)] defaulting_mono [OF _ visit_extra_fields_reading(2)]
    reading_mono [OF _ visit_channels_reading(1)] defaulting_mono [OF _ visit_channels_reading(2)])

lemma ImageMetadata_reading:
  assumes "ImageMetadata_valid m" "extra_channel_info m = []"
  shows "reading ImageMetadata_valid (ImageMetadata_VisitFields visit_color m)"
  using assms unfolding ImageMetadata_VisitFields_def
  by (intro reading_all_default ImageMetadata_body_reading) (auto simp: ImageMetadata_valid_def)

text \<open>The constructors; that they are what \<open>Bundle::Init\<close> makes of any memory.\<close>

definition SizeHeader_new :: SizeHeader where
  "SizeHeader_new = \<lparr> sh_small = False, sh_ysize_div8_minus_1 = 0, sh_ysize = 1, sh_ratio = 0, sh_xsize_div8_minus_1 = 0,
     sh_xsize = 1 \<rparr>"

definition PreviewHeader_new :: PreviewHeader where
  "PreviewHeader_new = \<lparr> ph_div8 = False, ph_ysize_div8 = 1, ph_ysize = 1, ph_ratio = 0, ph_xsize_div8 = 1, ph_xsize = 1 \<rparr>"

definition AnimationHeader_new :: AnimationHeader where
  "AnimationHeader_new = \<lparr> tps_numerator = 1, tps_denominator = 1, num_loops = 0, have_timecodes = False \<rparr>"

definition ToneMapping_new :: ToneMapping where
  "ToneMapping_new = \<lparr> tm_all_default = True, intensity_target = kDefaultIntensityTarget, min_nits = 0,
     relative_to_max_display = False, linear_below = 0 \<rparr>"

definition ImageMetadata_new :: "'c \<Rightarrow> 'c ImageMetadata" where
  "ImageMetadata_new color = \<lparr> im_all_default = True, im_bit_depth = BitDepth_new, modular_16_bit_buffer_sufficient = True,
     xyb_encoded = True, color_encoding = color, orientation = 1, have_preview = False, have_animation = False,
     have_intrinsic_size = False, intrinsic_size = SizeHeader_new, tone_mapping = ToneMapping_new, num_extra_channels = 0,
     extra_channel_info = [], preview_size = PreviewHeader_new, animation = AnimationHeader_new, im_extensions = 0,
     nonserialized_only_parse_basic_info = False \<rparr>"

lemma constructors_Init:
  "defaulting False (\<lambda>x. x = BitDepth_new) (BitDepth_VisitFields b)"
  "defaulting False (\<lambda>x. x = SizeHeader_new) (SizeHeader_VisitFields sh)"
  "defaulting False (\<lambda>x. x = PreviewHeader_new) (PreviewHeader_VisitFields ph)"
  "defaulting False (\<lambda>x. x = AnimationHeader_new) (AnimationHeader_VisitFields ah)"
  "defaulting False (\<lambda>x. x = ToneMapping_new) (ToneMapping_VisitFields tm)"
  by (simp_all add: BitDepth_VisitFields_def BitDepth_new_def SizeHeader_VisitFields_def SizeHeader_new_def
      PreviewHeader_VisitFields_def PreviewHeader_new_def AnimationHeader_VisitFields_def AnimationHeader_new_def
      ToneMapping_VisitFields_def ToneMapping_body_def ToneMapping_new_def defaulting_all_default Let_def)

text \<open>C23: Whatever the bits and whatever the color encoding, image metadata that is read into a new object and accepted
  is well-formed: the bit depth and that of every extra channel is one the decoder supports (at most 31 bits for
  integers; 2 to 8 exponent and 2 to 23 mantissa bits for floats), the orientation is from 1 to 8, there are as many
  extra channels as announced and at most 4096, each of a known type, downsampled at most 8 times, with a name of at
  most 1071 bytes.\<close>

theorem ImageMetadata_accepted:
  "case fst (ReadImageMetadata visit_color (ImageMetadata_new color) r) of Inl e \<Rightarrow> True | Inr m \<Rightarrow> ImageMetadata_valid m"
proof -
  have "ImageMetadata_valid (ImageMetadata_new color)" "extra_channel_info (ImageMetadata_new color) = []"
    by (simp_all add: ImageMetadata_valid_def ImageMetadata_new_def BitDepth_valid_def BitDepth_new_def)
  then have "reading ImageMetadata_valid (ImageMetadata_VisitFields visit_color (ImageMetadata_new color))"
    by (rule ImageMetadata_reading)
  then show ?thesis
    using Bundle_Read_reading [where P = ImageMetadata_valid] unfolding ReadImageMetadata_def
    by (cases "Bundle_Read (ImageMetadata_VisitFields visit_color (ImageMetadata_new color)) r") (auto split: sum.splits)
qed

text \<open>Bit depths as a bundle.\<close>

interpretation bit_depth: field_bundle BitDepth_VisitFields "\<lambda>_. True"
  "\<lambda>b. if floating_point_sample b then b else b\<lparr> exponent_bits_per_sample := 0 \<rparr>" "\<lambda>_ _. True"
  "\<lambda>s z. z = (if floating_point_sample s then s else s\<lparr> exponent_bits_per_sample := 0 \<rparr>)"
  by unfold_locales (auto simp: BitDepth_VisitFields_def step_defs)

lemma ChooseSelector_last:
  assumes "0 < unat b" "unat b \<le> 32" "unat n < 2 ^ 26" "unat n \<le> unat v" "unat v < unat n + 2 ^ unat b"
  obtains c where "ChooseSelector (U32Enc d0 d1 d2 (BitsOffset b n)) v = Inr c"
proof (cases "ChooseSelector (U32Enc d0 d1 d2 (BitsOffset b n)) v")
  case (Inl e)
  then have "selector_cost (U32Enc d0 d1 d2 (BitsOffset b n)) v 3 = None"
    using ChooseSelector_spec [of "U32Enc d0 d1 d2 (BitsOffset b n)" v] by simp
  then show ?thesis using assms BitsOffset_fields [of b n]
    by (auto simp: selector_cost_def Let_def word_le_nat_alt split: if_splits)
qed (use that in blast)

lemma BitDepth_CanEncode:
  assumes "BitDepth_valid b"
  obtains n where "Bundle_CanEncode (BitDepth_VisitFields b) = Inr (b, 0, n)" "0 < n"
proof -
  let ?bits = "unat (bits_per_sample b)" and ?e = "unat (exponent_bits_per_sample b)"
  have v: "floating_point_sample b \<Longrightarrow> 2 \<le> ?e \<and> ?e \<le> 8 \<and> ?e + 3 \<le> ?bits \<and> ?bits \<le> ?e + 24"
    "\<not> floating_point_sample b \<Longrightarrow> 1 \<le> ?bits \<and> ?bits \<le> 31 \<and> exponent_bits_per_sample b = 0"
    using assms by (simp_all add: BitDepth_valid_def Let_def unat_eq_0)
  then have bits: "1 \<le> ?bits \<and> ?bits \<le> 64" by (cases "floating_point_sample b") auto
  have ok: "fst (U32Coder_CanEncode (U32Enc x y z (BitsOffset 6 1)) (bits_per_sample b))" for x y z
  proof -
    obtain c where "ChooseSelector (U32Enc x y z (BitsOffset 6 1)) (bits_per_sample b) = Inr c"
      by (rule ChooseSelector_last [of 6 1 "bits_per_sample b"]) (use bits in auto)
    then show ?thesis by (simp add: U32Coder_CanEncode_def split: prod.splits)
  qed
  have f: "sint (bits_per_sample b - exponent_bits_per_sample b - 1) = int ?bits - int ?e - 1"
    by (rule small_difference) (use bits v in \<open>cases "floating_point_sample b"; auto\<close>)+
  have g: "\<not> sint (bits_per_sample b - exponent_bits_per_sample b - 1) < 2 \<and>
      \<not> 23 < sint (bits_per_sample b - exponent_bits_per_sample b - 1)" if "floating_point_sample b"
    unfolding f using v(1) [OF that] by linarith
  have m: "unat (exponent_bits_per_sample b - 1) < 2 ^ 4" if "floating_point_sample b"
    using v(1) [OF that] by (auto simp: unat_sub word_le_nat_alt)
  have x: "\<exists>n > 0. Bundle_CanEncode (BitDepth_VisitFields b) = Inr (b, 0, n)"
  proof (cases "floating_point_sample b")
    case True
    then show ?thesis using v(1) m g ok
      by (auto simp: Bundle_CanEncode_def Visit_def BitDepth_VisitFields_def step_defs visitor_simps size_bits_op_def
          base_bool_def count_bits_def BitsCoder_CanEncode_def GetSizes_def kMaxExtensions_def word_less_nat_alt)
  next
    case False
    then show ?thesis using v(2) ok
      by (auto simp: Bundle_CanEncode_def Visit_def BitDepth_VisitFields_def step_defs visitor_simps size_bits_op_def
          base_bool_def count_bits_def BitsCoder_CanEncode_def GetSizes_def kMaxExtensions_def word_less_nat_alt)
  qed
  then show ?thesis using that by blast
qed

text \<open>Every bit depth that the reader accepts can be written: it has a size, \<open>Bundle::Write\<close> emits as many bits
  (its \<open>WithMaxBits\<close> allotment included), and \<open>Bundle::Read\<close> into any bit depth, wherever a stream holds these
  bits, consumes exactly them and restores it.\<close>

theorem BitDepth_roundtrip:
  assumes "BitDepth_valid b"
  shows "\<exists>bs. (\<forall>w aux. bw_ok w \<longrightarrow> ran bs 0 (add_totals layer (length bs) 0 \<circ> id) (Bundle_Write BitDepth_VisitFields b layer True) w aux) \<and>
    (\<forall>t r. br_ok r \<longrightarrow> begins (upcoming r) bs \<longrightarrow> TotalBitsConsumed r + length bs \<le> 8 * length (br_data r) \<longrightarrow>
       (\<exists>r'. Bundle_Read (BitDepth_VisitFields t) r = (Inr b, r') \<and> reader.advanced r r' (length bs)))"
proof -
  obtain n where n: "Bundle_CanEncode (BitDepth_VisitFields b) = Inr (b, 0, n)" "0 < n"
    by (rule BitDepth_CanEncode [OF assms])
  have "(if floating_point_sample b then b else b\<lparr> exponent_bits_per_sample := 0 \<rparr>) = b"
    using assms by (cases b) (auto simp: BitDepth_valid_def Let_def unat_eq_0)
  then show ?thesis using bit_depth.write_read [OF TrueI TrueI n, where b = True and layer = layer] by auto
qed

theorem BitDepth_roundtrip_witness:
  "\<exists>bs :: bool list. \<forall>r. br_ok r \<longrightarrow> begins (upcoming r) bs \<longrightarrow> TotalBitsConsumed r + length bs \<le> 8 * length (br_data r) \<longrightarrow>
       (\<exists>r'. Bundle_Read (BitDepth_VisitFields BitDepth_new) r =
          (Inr \<lparr> floating_point_sample = True, bits_per_sample = 16, exponent_bits_per_sample = 5 \<rparr>, r'))"
proof -
  have "BitDepth_valid \<lparr> floating_point_sample = True, bits_per_sample = 16, exponent_bits_per_sample = 5 \<rparr>"
    by (simp add: BitDepth_valid_def)
  from BitDepth_roundtrip [OF this, where layer = "0 :: nat"] show ?thesis by blast
qed

lemma SetAlphaBits_Find: "FindExtraChannel kAlpha (SetAlphaBits bits p m) =
    (if bits = 0 then None
     else case FindExtraChannel kAlpha m of
         None \<Rightarrow> Some (ExtraChannelInfo_new\<lparr> eci_type := kAlpha, eci_bit_depth := BitDepth_new\<lparr> bits_per_sample := bits \<rparr>,
                   eci_dim_shift := 0, alpha_associated := p \<rparr>)
       | Some a \<Rightarrow> Some (a\<lparr> eci_bit_depth := \<lparr> floating_point_sample = False, bits_per_sample = bits, exponent_bits_per_sample = 0 \<rparr>,
                      alpha_associated := p \<rparr>))"
proof -
  have u: "find (\<lambda>e. eci_type e = kAlpha) (update_first_alpha f es) = map_option f (find (\<lambda>e. eci_type e = kAlpha) es)"
    if "\<And>e. eci_type (f e) = eci_type e" for f es by (induction es) (auto simp: that)
  have "find (\<lambda>e. eci_type e = kAlpha) (filter (\<lambda>e. eci_type e \<noteq> kAlpha) es) = None" for es
    by (simp add: find_None_iff)
  then show ?thesis
    by (auto simp: SetAlphaBits_def FindExtraChannel_def Let_def u split: option.splits)
qed

end
