(* ===== verification/Frame_Header.thy ===== *)
theory Frame_Header
  imports Metadata Hybrid_Uint
begin

text \<open>
  The frame header: \<^verbatim>\<open>lib/jxl/frame_header.h\<close>, \<^verbatim>\<open>frame_header.cc\<close>, \<^verbatim>\<open>loop_filter.h\<close> and \<^verbatim>\<open>loop_filter.cc\<close>.
  The body of \<^verbatim>\<open>FrameHeader::VisitFields\<close> is split at the comments of the code; its local variable
  \<^verbatim>\<open>is_partial_frame\<close> is passed on.  Enumerations are their numbers, \<^verbatim>\<open>int32_t\<close> values are words read by \<open>sint\<close>;
  the pointer to the metadata is an option.
\<close>

section \<open>Loop filter\<close>

record LoopFilter =
  lf_all_default :: bool
  gab :: bool
  gab_custom :: bool
  gab_x_weight1 :: u32
  gab_x_weight2 :: u32
  gab_y_weight1 :: u32
  gab_y_weight2 :: u32
  gab_b_weight1 :: u32
  gab_b_weight2 :: u32
  epf_iters :: u32
  epf_sharp_custom :: bool
  epf_sharp_lut :: "u32 list"
  epf_weight_custom :: bool
  epf_channel_scale :: "u32 list"
  epf_pass1_zeroflush :: u32
  epf_pass2_zeroflush :: u32
  epf_sigma_custom :: bool
  epf_quant_mul :: u32
  epf_pass0_sigma_scale :: u32
  epf_pass2_sigma_scale :: u32
  epf_border_sad_mul :: u32
  epf_sigma_for_modular :: u32
  lf_extensions :: u64
  nonserialized_is_modular :: bool

text \<open>Rounding of a multiple of \<open>2 ^ -149\<close> to 24 significant bits, ties to even: what a float operation does.\<close>

definition f32_round :: "int \<Rightarrow> int" where
  "f32_round x =
     (let n = nat \<bar>x\<bar> in
      if n < 2 ^ 24 then x
      else
        (let k = FloorLog2Nonzero n - 23; q = n div 2 ^ k; r = n mod 2 ^ k;
             q = (if 2 * r > 2 ^ k \<or> (2 * r = 2 ^ k \<and> odd q) then q + 1 else q)
         in sgn x * int (q * 2 ^ k)))"

text \<open>\<^verbatim>\<open>std::abs(1.0f + (weight1 + weight2) * 4) < 1e-8\<close>; false when a weight is not finite.\<close>

definition near_zero_kernel :: "u32 \<Rightarrow> u32 \<Rightarrow> bool" where
  "near_zero_kernel weight1 weight2 \<longleftrightarrow> f32_finite weight1 \<and> f32_finite weight2 \<and>
     \<bar>f32_round (2 ^ 149 + f32_round (f32_round (f32_scaled weight1 + f32_scaled weight2) * 4))\<bar> * 10 ^ 8 < 2 ^ 149"

definition visit_gab_weights :: "LoopFilter fields" where
  "visit_gab_weights = steps [
     field_f16 0x3DEBDE00 gab_x_weight1 gab_x_weight1_update,
     field_f16 0x3D7ADFCE gab_x_weight2 gab_x_weight2_update,
     check (\<lambda>l. \<not> near_zero_kernel (gab_x_weight1 l) (gab_x_weight2 l)),
     field_f16 0x3DEBDE00 gab_y_weight1 gab_y_weight1_update,
     field_f16 0x3D7ADFCE gab_y_weight2 gab_y_weight2_update,
     check (\<lambda>l. \<not> near_zero_kernel (gab_y_weight1 l) (gab_y_weight2 l)),
     field_f16 0x3DEBDE00 gab_b_weight1 gab_b_weight1_update,
     field_f16 0x3D7ADFCE gab_b_weight2 gab_b_weight2_update,
     check (\<lambda>l. \<not> near_zero_kernel (gab_b_weight1 l) (gab_b_weight2 l))]"

definition visit_epf :: "LoopFilter fields" where
  "visit_epf = steps [
     if_conditional (\<lambda>l. \<not> nonserialized_is_modular l) (steps [
       field_bool False epf_sharp_custom epf_sharp_custom_update,
       if_conditional epf_sharp_custom
         (field_f16s [0, 0x3E124925, 0x3E924925, 0x3EDB6DB7, 0x3F124925, 0x3F36DB6E, 0x3F5B6DB7, 0x3F800000]
            epf_sharp_lut epf_sharp_lut_update)]),
     field_bool False epf_weight_custom epf_weight_custom_update,
     if_conditional epf_weight_custom (steps [
       field_f16s [0x42200000, 0x40A00000, 0x40600000] epf_channel_scale epf_channel_scale_update,
       field_f16 0x3EE66666 epf_pass1_zeroflush epf_pass1_zeroflush_update,
       field_f16 0x3F19999A epf_pass2_zeroflush epf_pass2_zeroflush_update]),
     field_bool False epf_sigma_custom epf_sigma_custom_update,
     if_conditional epf_sigma_custom (steps [
       if_conditional (\<lambda>l. \<not> nonserialized_is_modular l) (field_f16 0x3EEB851F epf_quant_mul epf_quant_mul_update),
       field_f16 0x3F666666 epf_pass0_sigma_scale epf_pass0_sigma_scale_update,
       field_f16 0x40D00000 epf_pass2_sigma_scale epf_pass2_sigma_scale_update,
       field_f16 0x3F2AAAAB epf_border_sad_mul epf_border_sad_mul_update]),
     if_conditional nonserialized_is_modular (steps [
       field_f16 0x3F800000 epf_sigma_for_modular epf_sigma_for_modular_update,
       check (\<lambda>l. \<not> (\<not> f32_nan (epf_sigma_for_modular l) \<and> f32_scaled (epf_sigma_for_modular l) * 10 ^ 8 < 2 ^ 149))])]"

definition LoopFilter_body :: "LoopFilter fields" where
  "LoopFilter_body = steps [
     field_bool True gab gab_update,
     if_conditional gab (steps [
       field_bool False gab_custom gab_custom_update,
       if_conditional gab_custom visit_gab_weights]),
     field_bits 2 2 epf_iters epf_iters_update,
     if_conditional (\<lambda>l. epf_iters l > 0) visit_epf,
     extensions_begin lf_extensions lf_extensions_update,
     extensions_end]"

definition LoopFilter_VisitFields :: "LoopFilter fields" where
  "LoopFilter_VisitFields = with_all_default lf_all_default lf_all_default_update LoopFilter_body"

definition Padding :: "LoopFilter \<Rightarrow> nat" where
  "Padding l = [0, 2, 3, 6] ! unat (epf_iters l) + (if gab l then 1 else 0)"

definition LoopFilter_new :: LoopFilter where
  "LoopFilter_new = \<lparr> lf_all_default = True, gab = True, gab_custom = False,
     gab_x_weight1 = 0x3DEBDE00, gab_x_weight2 = 0x3D7ADFCE, gab_y_weight1 = 0x3DEBDE00, gab_y_weight2 = 0x3D7ADFCE,
     gab_b_weight1 = 0x3DEBDE00, gab_b_weight2 = 0x3D7ADFCE, epf_iters = 2, epf_sharp_custom = False,
     epf_sharp_lut = [0, 0x3E124925, 0x3E924925, 0x3EDB6DB7, 0x3F124925, 0x3F36DB6E, 0x3F5B6DB7, 0x3F800000],
     epf_weight_custom = False, epf_channel_scale = [0x42200000, 0x40A00000, 0x40600000], epf_pass1_zeroflush = 0x3EE66666,
     epf_pass2_zeroflush = 0x3F19999A, epf_sigma_custom = False, epf_quant_mul = 0x3EEB851F,
     epf_pass0_sigma_scale = 0x3F666666, epf_pass2_sigma_scale = 0x40D00000, epf_border_sad_mul = 0x3F2AAAAB,
     epf_sigma_for_modular = 0x3F800000, lf_extensions = 0, nonserialized_is_modular = False \<rparr>"

section \<open>Chroma subsampling\<close>

record YCbCrChromaSubsampling =
  channel_mode :: "u32 list"
  maxhs :: nat
  maxvs :: nat

definition kHShift :: "nat list" where "kHShift = [0, 1, 1, 0]"
definition kVShift :: "nat list" where "kVShift = [0, 1, 0, 1]"

definition RawHShift :: "YCbCrChromaSubsampling \<Rightarrow> nat \<Rightarrow> nat" where
  "RawHShift s c = kHShift ! unat (channel_mode s ! c)"

definition RawVShift :: "YCbCrChromaSubsampling \<Rightarrow> nat \<Rightarrow> nat" where
  "RawVShift s c = kVShift ! unat (channel_mode s ! c)"

definition HShift :: "YCbCrChromaSubsampling \<Rightarrow> nat \<Rightarrow> nat" where
  "HShift s c = maxhs s - RawHShift s c"

definition VShift :: "YCbCrChromaSubsampling \<Rightarrow> nat \<Rightarrow> nat" where
  "VShift s c = maxvs s - RawVShift s c"

definition Recompute :: "YCbCrChromaSubsampling \<Rightarrow> YCbCrChromaSubsampling" where
  "Recompute s = s\<lparr> maxhs := fold (\<lambda>ch m. max m (kHShift ! unat ch)) (channel_mode s) 0,
     maxvs := fold (\<lambda>ch m. max m (kVShift ! unat ch)) (channel_mode s) 0 \<rparr>"

definition visit_channel_mode :: "nat \<Rightarrow> YCbCrChromaSubsampling fields" where
  "visit_channel_mode c = field_bits 2 0 (elem_get c channel_mode) (elem_upd c channel_mode_update)"

definition YCbCrChromaSubsampling_VisitFields :: "YCbCrChromaSubsampling fields" where
  "YCbCrChromaSubsampling_VisitFields = steps [steps (map visit_channel_mode [0..<3]), assign Recompute]"

text \<open>\<^verbatim>\<open>Set\<close>: the first mode with the sampling factors of each channel, in JPEG order of the factors.\<close>

definition find_mode :: "nat \<Rightarrow> nat \<Rightarrow> nat option" where
  "find_mode hsample vsample = find (\<lambda>i. 2 ^ (kHShift ! i) = hsample \<and> 2 ^ (kVShift ! i) = vsample) [0..<4]"

fun set_modes :: "nat list \<Rightarrow> nat list \<Rightarrow> nat list \<Rightarrow> YCbCrChromaSubsampling \<Rightarrow> YCbCrChromaSubsampling outcome" where
  "set_modes hsample vsample [] s = Inr (Recompute s)"
| "set_modes hsample vsample (c # cs) s =
     (let cjpeg = (if c < 2 then 1 - c else c) in
      case find_mode (hsample ! cjpeg) (vsample ! cjpeg) of
        None \<Rightarrow> Inl kGenericError
      | Some i \<Rightarrow> set_modes hsample vsample cs (s\<lparr> channel_mode := (channel_mode s)[c := of_nat i] \<rparr>))"

definition YCbCrChromaSubsampling_Set ::
  "nat list \<Rightarrow> nat list \<Rightarrow> YCbCrChromaSubsampling \<Rightarrow> YCbCrChromaSubsampling outcome" where
  "YCbCrChromaSubsampling_Set hsample vsample s = set_modes hsample vsample [0, 1, 2] s"

definition Is444 :: "YCbCrChromaSubsampling \<Rightarrow> bool" where
  "Is444 s \<longleftrightarrow> HShift s 0 = 0 \<and> VShift s 0 = 0 \<and> HShift s 2 = 0 \<and> VShift s 2 = 0 \<and> HShift s 1 = 0 \<and> VShift s 1 = 0"

definition Is420 :: "YCbCrChromaSubsampling \<Rightarrow> bool" where
  "Is420 s \<longleftrightarrow> HShift s 0 = 1 \<and> VShift s 0 = 1 \<and> HShift s 2 = 1 \<and> VShift s 2 = 1 \<and> HShift s 1 = 0 \<and> VShift s 1 = 0"

definition Is422 :: "YCbCrChromaSubsampling \<Rightarrow> bool" where
  "Is422 s \<longleftrightarrow> HShift s 0 = 1 \<and> VShift s 0 = 0 \<and> HShift s 2 = 1 \<and> VShift s 2 = 0 \<and> HShift s 1 = 0 \<and> VShift s 1 = 0"

definition Is440 :: "YCbCrChromaSubsampling \<Rightarrow> bool" where
  "Is440 s \<longleftrightarrow> HShift s 0 = 0 \<and> VShift s 0 = 1 \<and> HShift s 2 = 0 \<and> VShift s 2 = 1 \<and> HShift s 1 = 0 \<and> VShift s 1 = 0"

section \<open>Blending, animation and passes\<close>

definition kReplace :: u32 where "kReplace = 0"
definition kAdd :: u32 where "kAdd = 1"
definition kBlend :: u32 where "kBlend = 2"
definition kAlphaWeightedAdd :: u32 where "kAlphaWeightedAdd = 3"
definition kMul :: u32 where "kMul = 4"

record BlendingInfo =
  blend_mode :: u32
  alpha_channel :: u32
  blend_clamp :: bool
  blend_source :: u32
  nonserialized_num_extra_channels :: nat
  nonserialized_is_partial_frame :: bool

definition VisitBlendMode :: "u32 \<Rightarrow> BlendingInfo fields" where
  "VisitBlendMode default_value = (\<lambda>b.
     VU32 (U32Enc (Val kReplace) (Val kAdd) (Val kBlend) (BitsOffset 2 3)) default_value (blend_mode b) (\<lambda>encoded.
       if encoded > kMul then Failure kGenericError else Return (b\<lparr> blend_mode := encoded \<rparr>)))"

definition needs_alpha :: "BlendingInfo \<Rightarrow> bool" where
  "needs_alpha b \<longleftrightarrow> nonserialized_num_extra_channels b > 0 \<and> (blend_mode b = kBlend \<or> blend_mode b = kAlphaWeightedAdd)"

definition BlendingInfo_VisitFields :: "BlendingInfo fields" where
  "BlendingInfo_VisitFields = steps [
     VisitBlendMode kReplace,
     if_conditional needs_alpha (steps [
       field_u32 (U32Enc (Val 0) (Val 1) (Val 2) (BitsOffset 3 3)) 0 alpha_channel alpha_channel_update,
       (\<lambda>b. VIsReading (\<lambda>r. if r \<and> unat (alpha_channel b) \<ge> nonserialized_num_extra_channels b
          then Failure kGenericError else Return b))]),
     if_conditional (\<lambda>b. needs_alpha b \<or> blend_mode b = kMul) (field_bool False blend_clamp blend_clamp_update),
     if_conditional (\<lambda>b. blend_mode b \<noteq> kReplace \<or> nonserialized_is_partial_frame b)
       (field_u32 (U32Enc (Val 0) (Val 1) (Val 2) (Val 3)) 0 blend_source blend_source_update)]"

record AnimationFrame =
  duration :: u32
  timecode :: u32

text \<open>The metadata the frame points to is an argument.\<close>

definition AnimationFrame_VisitFields :: "'c CodecMetadata option \<Rightarrow> AnimationFrame fields" where
  "AnimationFrame_VisitFields metadata = steps [
     if_conditional (\<lambda>a. case metadata of None \<Rightarrow> False | Some m \<Rightarrow> have_animation (cm_m m))
       (field_u32 (U32Enc (Val 0) (Val 1) (Bits 8) (Bits 32)) 0 duration duration_update),
     if_conditional (\<lambda>a. case metadata of None \<Rightarrow> False | Some m \<Rightarrow> have_timecodes (animation (cm_m m)))
       (field_bits 32 0 timecode timecode_update)]"

definition kMaxNumPasses :: nat where "kMaxNumPasses = 11"

record Passes =
  num_passes :: u32
  num_downsample :: u32
  downsample :: "u32 list"
  last_pass :: "u32 list"
  pass_shift :: "u32 list"

definition visit_shift :: "nat \<Rightarrow> Passes fields" where
  "visit_shift i = field_bits 2 0 (elem_get i pass_shift) (elem_upd i pass_shift_update)"

definition visit_downsample :: "nat \<Rightarrow> Passes fields" where
  "visit_downsample i = steps [
     field_u32 (U32Enc (Val 1) (Val 2) (Val 4) (Val 8)) 1 (elem_get i downsample) (elem_upd i downsample_update),
     check (\<lambda>p. \<not> (i > 0 \<and> downsample p ! i \<ge> downsample p ! (i - 1)))]"

definition visit_last_pass :: "nat \<Rightarrow> Passes fields" where
  "visit_last_pass i = steps [
     field_u32 (U32Enc (Val 0) (Val 1) (Val 2) (Bits 3)) 0 (elem_get i last_pass) (elem_upd i last_pass_update),
     check (\<lambda>p. \<not> (i > 0 \<and> last_pass p ! i \<le> last_pass p ! (i - 1))),
     check (\<lambda>p. \<not> last_pass p ! i \<ge> num_passes p)]"

text \<open>The loops over the first elements of the arrays; the bounds are read before each loop.\<close>

definition Passes_VisitFields :: "Passes fields" where
  "Passes_VisitFields = steps [
     field_u32 (U32Enc (Val 1) (Val 2) (Val 3) (BitsOffset 3 4)) 1 num_passes num_passes_update,
     check (\<lambda>p. unat (num_passes p) \<le> kMaxNumPasses),
     if_conditional (\<lambda>p. num_passes p \<noteq> 1) (steps [
       field_u32 (U32Enc (Val 0) (Val 1) (Val 2) (BitsOffset 1 3)) 0 num_downsample num_downsample_update,
       check (\<lambda>p. num_downsample p \<le> 4),
       check (\<lambda>p. \<not> num_downsample p > num_passes p),
       (\<lambda>p. steps (map visit_shift [0..<unat (num_passes p - 1)]) p),
       assign (\<lambda>p. p\<lparr> pass_shift := (pass_shift p)[unat (num_passes p - 1) := 0] \<rparr>),
       (\<lambda>p. steps (map visit_downsample [0..<unat (num_downsample p)]) p),
       (\<lambda>p. steps (map visit_last_pass [0..<unat (num_downsample p)]) p)])]"

definition bracket_step :: "Passes \<Rightarrow> nat \<Rightarrow> int \<Rightarrow> int" where
  "bracket_step p i minShift =
     (let minShift = fold (\<lambda>j m. if i = unat (last_pass p ! j) then
            (let m = (if downsample p ! j = 8 then 3 else m); m = (if downsample p ! j = 4 then 2 else m);
                 m = (if downsample p ! j = 2 then 1 else m) in if downsample p ! j = 1 then 0 else m)
          else m) [0..<unat (num_downsample p)] minShift
      in if i = unat (num_passes p - 1) then 0 else minShift)"

function bracket_loop :: "Passes \<Rightarrow> nat \<Rightarrow> nat \<Rightarrow> int \<Rightarrow> int \<Rightarrow> int \<times> int" where
  "bracket_loop p pass i minShift maxShift =
     (let minShift = bracket_step p i minShift in
      if i \<ge> pass then (minShift, maxShift) else bracket_loop p pass (i + 1) minShift (minShift - 1))"
  by pat_completeness auto
termination by (relation "measure (\<lambda>(p, pass, i, m, n). pass - i)") auto

declare bracket_loop.simps [simp del]

definition GetDownsamplingBracket :: "Passes \<Rightarrow> nat \<Rightarrow> int \<times> int" where
  "GetDownsamplingBracket p pass = bracket_loop p pass 0 3 2"

definition GetDownsamplingTargetForCompletedPasses :: "Passes \<Rightarrow> u32 \<Rightarrow> u32" where
  "GetDownsamplingTargetForCompletedPasses p num_p =
     (if num_p \<ge> num_passes p then 1
      else fold (\<lambda>i retval. if num_p > last_pass p ! i then min retval (downsample p ! i) else retval)
             [0..<unat (num_downsample p)] 8)"

section \<open>Frame header\<close>

definition kRegularFrame :: u32 where "kRegularFrame = 0"
definition kDCFrame :: u32 where "kDCFrame = 1"
definition kReferenceOnly :: u32 where "kReferenceOnly = 2"
definition kSkipProgressive :: u32 where "kSkipProgressive = 3"

definition kVarDCT :: u32 where "kVarDCT = 0"
definition kModular :: u32 where "kModular = 1"

definition kXYB :: u32 where "kXYB = 0"
definition kNone :: u32 where "kNone = 1"
definition kYCbCr :: u32 where "kYCbCr = 2"

definition kUseDcFrame :: u64 where "kUseDcFrame = 32"

record FrameOrigin =
  fo_x0 :: i32
  fo_y0 :: i32

record FrameSize =
  fs_xsize :: u32
  fs_ysize :: u32

record 'c FrameHeader =
  fh_all_default :: bool
  frame_encoding :: u32
  frame_type :: u32
  fh_flags :: u64
  color_transform :: u32
  chroma_subsampling :: YCbCrChromaSubsampling
  group_size_shift :: u32
  x_qm_scale :: u32
  b_qm_scale :: u32
  fh_name :: "u8 list"
  fh_passes :: Passes
  custom_size_or_origin :: bool
  frame_size :: FrameSize
  upsampling :: u32
  extra_channel_upsampling :: "u32 list"
  frame_origin :: FrameOrigin
  blending_info :: BlendingInfo
  extra_channel_blending_info :: "BlendingInfo list"
  animation_frame :: AnimationFrame
  is_last :: bool
  save_as_reference :: u32
  save_before_color_transform :: bool
  dc_level :: u32
  nonserialized_metadata :: "'c CodecMetadata option"
  loop_filter :: LoopFilter
  nonserialized_is_preview :: bool
  fh_extensions :: u64

definition default_xsize :: "'c FrameHeader \<Rightarrow> nat" where
  "default_xsize h = (case nonserialized_metadata h of None \<Rightarrow> 0
     | Some m \<Rightarrow> if nonserialized_is_preview h then unat (PreviewHeader_xsize (preview_size (cm_m m))) else CodecMetadata_xsize m)"

definition default_ysize :: "'c FrameHeader \<Rightarrow> nat" where
  "default_ysize h = (case nonserialized_metadata h of None \<Rightarrow> 0
     | Some m \<Rightarrow> if nonserialized_is_preview h then unat (PreviewHeader_ysize (preview_size (cm_m m))) else CodecMetadata_ysize m)"

definition UpdateFlag :: "bool \<Rightarrow> u64 \<Rightarrow> 'c FrameHeader \<Rightarrow> 'c FrameHeader" where
  "UpdateFlag condition flag h = h\<lparr> fh_flags := (if condition then fh_flags h OR flag else fh_flags h AND NOT flag) \<rparr>"

definition CanBeReferenced :: "'c FrameHeader \<Rightarrow> bool" where
  "CanBeReferenced h \<longleftrightarrow> \<not> is_last h \<and> frame_type h \<noteq> kDCFrame \<and>
     (duration (animation_frame h) = 0 \<or> save_as_reference h \<noteq> 0)"

definition needs_color_transform :: "'c FrameHeader \<Rightarrow> bool" where
  "needs_color_transform h \<longleftrightarrow> \<not> save_before_color_transform h \<or> frame_type h = kRegularFrame \<or> frame_type h = kSkipProgressive"

definition displayed :: "'c FrameHeader \<Rightarrow> bool" where
  "displayed h \<longleftrightarrow> frame_type h = kRegularFrame \<or> frame_type h = kSkipProgressive"

definition if_conditional_else :: "('s \<Rightarrow> bool) \<Rightarrow> 's fields \<Rightarrow> 's fields \<Rightarrow> 's fields" where
  "if_conditional_else c f g = (\<lambda>s. VConditional (c s) (\<lambda>b. if b then f s else g s))"

text \<open>A check that only the reader makes.\<close>

definition check_reading :: "('s \<Rightarrow> bool) \<Rightarrow> 's fields" where
  "check_reading c = (\<lambda>s. VIsReading (\<lambda>r. if r \<and> \<not> c s then Failure kGenericError else Return s))"

definition VisitFrameType :: "u32 \<Rightarrow> 'c FrameHeader fields" where
  "VisitFrameType default_value =
     field_u32 (U32Enc (Val kRegularFrame) (Val kDCFrame) (Val kReferenceOnly) (Val kSkipProgressive)) default_value
       frame_type frame_type_update"

definition visit_encoding :: "'c FrameHeader fields" where
  "visit_encoding = (\<lambda>h. VBool False (frame_encoding h = kModular) (\<lambda>is_modular.
     Return (h\<lparr> frame_encoding := (if is_modular then kModular else kVarDCT) \<rparr>)))"

definition visit_color_transform :: "'c FrameHeader fields" where
  "visit_color_transform = (\<lambda>h.
     let xyb = (case nonserialized_metadata h of None \<Rightarrow> True | Some m \<Rightarrow> xyb_encoded (cm_m m)) in
     if xyb then Return (h\<lparr> color_transform := kXYB \<rparr>)
     else VBool False (color_transform h = kYCbCr) (\<lambda>alternate.
       Return (h\<lparr> color_transform := (if alternate then kYCbCr else kNone) \<rparr>)))"

definition frame_extra_channels :: "'c FrameHeader \<Rightarrow> ExtraChannelInfo list" where
  "frame_extra_channels h = (case nonserialized_metadata h of None \<Rightarrow> [] | Some m \<Rightarrow> extra_channel_info (cm_m m))"

definition visit_ec_upsampling :: "nat \<Rightarrow> 'c FrameHeader fields" where
  "visit_ec_upsampling i = (\<lambda>h.
     let dim_shift = unat (eci_dim_shift (frame_extra_channels h ! i)) in steps [
       assign (elem_upd i extra_channel_upsampling_update (drop_bit dim_shift)),
       field_u32 (U32Enc (Val 1) (Val 2) (Val 4) (Val 8)) 1
         (elem_get i extra_channel_upsampling) (elem_upd i extra_channel_upsampling_update),
       assign (elem_upd i extra_channel_upsampling_update (push_bit dim_shift)),
       check (\<lambda>h. \<not> extra_channel_upsampling h ! i < upsampling h),
       check (\<lambda>h. \<not> extra_channel_upsampling h ! i > 8)] h)"

definition visit_upsampling :: "'c FrameHeader fields" where
  "visit_upsampling = steps [
     field_u32 (U32Enc (Val 1) (Val 2) (Val 4) (Val 8)) 1 upsampling upsampling_update,
     if_plain (\<lambda>h. nonserialized_metadata h \<noteq> None)
       (if_conditional_else (\<lambda>h. length (frame_extra_channels h) \<noteq> 0)
          (\<lambda>h. let n = length (frame_extra_channels h) in
             steps (map visit_ec_upsampling [0..<n]) (extra_channel_upsampling_update (vector_resize n 1) h))
          (assign (extra_channel_upsampling_update (\<lambda>_. []))))
       (assign (extra_channel_upsampling_update (\<lambda>_. [])))]"

definition visit_mode_data :: "'c FrameHeader fields" where
  "visit_mode_data = steps [
     if_conditional (\<lambda>h. frame_encoding h = kModular) (field_bits 2 1 group_size_shift group_size_shift_update),
     if_conditional_else (\<lambda>h. frame_encoding h = kVarDCT \<and> color_transform h = kXYB)
       (steps [field_bits 3 3 x_qm_scale x_qm_scale_update, field_bits 3 2 b_qm_scale b_qm_scale_update])
       (assign (\<lambda>h. h\<lparr> x_qm_scale := 2, b_qm_scale := 2 \<rparr>))]"

definition visit_passes_level :: "'c FrameHeader fields" where
  "visit_passes_level = steps [
     if_conditional (\<lambda>h. frame_type h \<noteq> kReferenceOnly) (nested Passes_VisitFields fh_passes fh_passes_update),
     if_conditional (\<lambda>h. frame_type h = kDCFrame)
       (field_u32 (U32Enc (Val 1) (Val 2) (Val 3) (Val 4)) 1 dc_level dc_level_update),
     assign (\<lambda>h. if frame_type h \<noteq> kDCFrame then h\<lparr> dc_level := 0 \<rparr> else h)]"

text \<open>Up to the frame size; the frame header starts with these.\<close>

definition visit_frame_start :: "'c FrameHeader fields" where
  "visit_frame_start = steps [
     VisitFrameType kRegularFrame,
     check_reading (\<lambda>h. \<not> (nonserialized_is_preview h \<and> frame_type h \<noteq> kRegularFrame)),
     visit_encoding,
     field_u64 0 fh_flags fh_flags_update,
     visit_color_transform,
     if_conditional (\<lambda>h. color_transform h = kYCbCr \<and> fh_flags h AND kUseDcFrame = 0)
       (nested YCbCrChromaSubsampling_VisitFields chroma_subsampling chroma_subsampling_update),
     if_conditional (\<lambda>h. fh_flags h AND kUseDcFrame = 0) visit_upsampling,
     visit_mode_data,
     visit_passes_level]"

definition origin_enc :: U32Enc where
  "origin_enc = U32Enc (Bits 8) (BitsOffset 11 256) (BitsOffset 14 2304) (BitsOffset 30 18688)"

definition visit_origin :: "'c FrameHeader fields" where
  "visit_origin = (\<lambda>h.
     VU32 origin_enc 0 (PackSigned (fo_x0 (frame_origin h))) (\<lambda>ux0.
     VU32 origin_enc 0 (PackSigned (fo_y0 (frame_origin h))) (\<lambda>uy0.
       Return (h\<lparr> frame_origin := \<lparr> fo_x0 = UnpackSigned (ucast ux0), fo_y0 = UnpackSigned (ucast uy0) \<rparr> \<rparr>))))"

definition visit_size :: "'c FrameHeader fields" where
  "visit_size = steps [
     if_conditional displayed visit_origin,
     field_u32 origin_enc 0 (\<lambda>h. fs_xsize (frame_size h)) (\<lambda>f. frame_size_update (fs_xsize_update f)),
     field_u32 origin_enc 0 (\<lambda>h. fs_ysize (frame_size h)) (\<lambda>f. frame_size_update (fs_ysize_update f)),
     check (\<lambda>h. \<not> (custom_size_or_origin h \<and> (fs_xsize (frame_size h) = 0 \<or> fs_ysize (frame_size h) = 0)))]"

definition partial_frame :: "'c FrameHeader \<Rightarrow> bool" where
  "partial_frame h \<longleftrightarrow> displayed h \<and>
     (sint (fo_x0 (frame_origin h)) > 0 \<or> sint (fo_y0 (frame_origin h)) > 0 \<or>
      sint (fs_xsize (frame_size h) + fo_x0 (frame_origin h)) < sint (of_nat (default_xsize h) :: i32) \<or>
      sint (fs_ysize (frame_size h) + fo_y0 (frame_origin h)) < sint (of_nat (default_ysize h) :: i32))"

text \<open>With \<^verbatim>\<open>is_partial_frame\<close>.\<close>

definition visit_frame_size :: "'c FrameHeader \<Rightarrow> ('c FrameHeader \<times> bool) visit" where
  "visit_frame_size = (\<lambda>h. VConditional (frame_type h \<noteq> kDCFrame) (\<lambda>b.
     if \<not> b then Return (h, False)
     else VBool False (custom_size_or_origin h) (\<lambda>v.
       let h = h\<lparr> custom_size_or_origin := v \<rparr> in
       VConditional (custom_size_or_origin h) (\<lambda>b.
         if b then bind_visit (visit_size h) (\<lambda>h. Return (h, partial_frame h)) else Return (h, False)))))"

definition visit_ec_blending :: "bool \<Rightarrow> nat \<Rightarrow> 'c FrameHeader fields" where
  "visit_ec_blending is_partial_frame i = steps [
     assign (\<lambda>h. elem_upd i extra_channel_blending_info_update
       (\<lambda>b. b\<lparr> nonserialized_is_partial_frame := is_partial_frame,
               nonserialized_num_extra_channels := length (frame_extra_channels h) \<rparr>) h),
     nested BlendingInfo_VisitFields (elem_get i extra_channel_blending_info) (elem_upd i extra_channel_blending_info_update)]"

text \<open>A blending that was just constructed.\<close>

definition BlendingInfo_new :: BlendingInfo where
  "BlendingInfo_new = \<lparr> blend_mode = kReplace, alpha_channel = 0, blend_clamp = False, blend_source = 0,
     nonserialized_num_extra_channels = 0, nonserialized_is_partial_frame = False \<rparr>"

definition visit_displayed :: "bool \<Rightarrow> 'c FrameHeader fields" where
  "visit_displayed is_partial_frame = steps [
     assign (\<lambda>h. blending_info_update (\<lambda>b. b\<lparr> nonserialized_num_extra_channels := length (frame_extra_channels h),
       nonserialized_is_partial_frame := is_partial_frame \<rparr>) h),
     nested BlendingInfo_VisitFields blending_info blending_info_update,
     (\<lambda>h. let n = length (frame_extra_channels h) in
        steps (map (visit_ec_blending is_partial_frame) [0..<n])
          (extra_channel_blending_info_update (vector_resize n BlendingInfo_new) h)),
     check_reading (\<lambda>h. \<not> (nonserialized_is_preview h \<and>
       (\<not> (blend_mode (blending_info h) = kReplace \<and> (\<forall>b \<in> set (extra_channel_blending_info h). blend_mode b = kReplace)) \<or>
        custom_size_or_origin h))),
     if_conditional (\<lambda>h. case nonserialized_metadata h of None \<Rightarrow> False | Some m \<Rightarrow> have_animation (cm_m m))
       (\<lambda>h. nested (AnimationFrame_VisitFields (nonserialized_metadata h)) animation_frame animation_frame_update h),
     field_bool True is_last is_last_update]"

definition visit_blending :: "bool \<Rightarrow> 'c FrameHeader fields" where
  "visit_blending is_partial_frame =
     if_conditional_else displayed (visit_displayed is_partial_frame) (assign (is_last_update (\<lambda>_. False)))"

text \<open>The size of the image that a reference frame must cover; without metadata the code has no defined behaviour here.\<close>

definition valid_reference :: "'c FrameHeader \<Rightarrow> bool" where
  "valid_reference h \<longleftrightarrow>
     (let m = the (nonserialized_metadata h);
          xsize = (if custom_size_or_origin h then unat (fs_xsize (frame_size h)) else CodecMetadata_xsize m);
          ysize = (if custom_size_or_origin h then unat (fs_ysize (frame_size h)) else CodecMetadata_ysize m)
      in \<not> (\<not> save_before_color_transform h \<and>
            (xsize < CodecMetadata_xsize m \<or> ysize < CodecMetadata_ysize m \<or> fo_x0 (frame_origin h) \<noteq> 0 \<or>
             fo_y0 (frame_origin h) \<noteq> 0)))"

definition visit_saving :: "bool \<Rightarrow> 'c FrameHeader fields" where
  "visit_saving is_partial_frame = steps [
     if_conditional (\<lambda>h. frame_type h \<noteq> kDCFrame \<and> \<not> is_last h)
       (field_u32 (U32Enc (Val 0) (Val 1) (Val 2) (Val 3)) 0 save_as_reference save_as_reference_update),
     if_plain (\<lambda>h. frame_type h \<noteq> kDCFrame)
       (if_conditional_else (\<lambda>h. CanBeReferenced h \<and> blend_mode (blending_info h) = kReplace \<and> \<not> is_partial_frame \<and> displayed h)
          (field_bool False save_before_color_transform save_before_color_transform_update)
          (if_conditional (\<lambda>h. frame_type h = kReferenceOnly) (steps [
             field_bool True save_before_color_transform save_before_color_transform_update,
             check valid_reference])))
       (assign (save_before_color_transform_update (\<lambda>_. True)))]"

definition visit_frame_end :: "'c FrameHeader fields" where
  "visit_frame_end = steps [
     VisitNameString fh_name fh_name_update,
     assign (\<lambda>h. loop_filter_update (nonserialized_is_modular_update (\<lambda>_. frame_encoding h = kModular)) h),
     nested LoopFilter_VisitFields loop_filter loop_filter_update,
     extensions_begin fh_extensions fh_extensions_update,
     extensions_end]"

definition FrameHeader_body :: "'c FrameHeader fields" where
  "FrameHeader_body = (\<lambda>h.
     bind_visit (visit_frame_start h) (\<lambda>h.
     bind_visit (visit_frame_size h) (\<lambda>(h, is_partial_frame).
       steps [visit_blending is_partial_frame, visit_saving is_partial_frame, visit_frame_end] h)))"

definition FrameHeader_VisitFields :: "'c FrameHeader fields" where
  "FrameHeader_VisitFields = with_all_default fh_all_default fh_all_default_update FrameHeader_body"

definition ReadFrameHeader :: "'c FrameHeader \<Rightarrow> BitReader \<Rightarrow> 'c FrameHeader outcome \<times> BitReader" where
  "ReadFrameHeader frame reader = Bundle_Read (FrameHeader_VisitFields frame) reader"


section \<open>What reading accepts\<close>

lemma elem_simps [simp]: "elem_get i get s = get s ! i" "elem_upd i upd f s = upd (\<lambda>xs. xs[i := f (xs ! i)]) s"
  by (simp_all add: elem_get_def elem_upd_def)

lemma reading_else [simp]:
  "reading P (if_conditional_else c f g s) = (if c s then reading P (f s) else reading P (g s))"
  "defaulting n P (if_conditional_else c f g s) = defaulting n P (f s)"
  "reading P (check_reading c s) = (c s \<longrightarrow> P s)"
  "defaulting n P (check_reading c s) = P s"
  by (simp_all add: if_conditional_else_def check_reading_def)

lemma small_choices [simp]:
  "u32_value (U32Enc (Val 0) (Val 1) (Val 2) (Val 3)) v \<longleftrightarrow> v = 0 \<or> v = 1 \<or> v = 2 \<or> v = 3"
  "u32_value (U32Enc (Val 1) (Val 2) (Val 3) (Val 4)) v \<longleftrightarrow> v = 1 \<or> v = 2 \<or> v = 3 \<or> v = 4"
  "u32_value (U32Enc (Val 1) (Val 2) (Val 4) (Val 8)) v \<longleftrightarrow> v = 1 \<or> v = 2 \<or> v = 4 \<or> v = 8"
  by (simp_all add: distr_value_Val)

subsection \<open>Passes\<close>

definition decreasing :: "nat \<Rightarrow> Passes \<Rightarrow> bool" where
  "decreasing n p \<longleftrightarrow> (\<forall>i < n. 0 < i \<longrightarrow> downsample p ! i < downsample p ! (i - 1))"

definition increasing :: "nat \<Rightarrow> Passes \<Rightarrow> bool" where
  "increasing n p \<longleftrightarrow> (\<forall>i < n. (0 < i \<longrightarrow> last_pass p ! (i - 1) < last_pass p ! i) \<and> last_pass p ! i < num_passes p)"

definition Passes_sized :: "Passes \<Rightarrow> bool" where
  "Passes_sized p \<longleftrightarrow> length (downsample p) = kMaxNumPasses \<and> length (last_pass p) = kMaxNumPasses \<and>
     length (pass_shift p) = kMaxNumPasses \<and> 1 \<le> unat (num_passes p) \<and> unat (num_passes p) \<le> kMaxNumPasses"

definition Passes_valid :: "Passes \<Rightarrow> bool" where
  "Passes_valid p \<longleftrightarrow> Passes_sized p \<and> num_downsample p \<le> 4 \<and> num_downsample p \<le> num_passes p \<and>
     decreasing (unat (num_downsample p)) p \<and> increasing (unat (num_downsample p)) p \<and>
     pass_shift p ! unat (num_passes p - 1) = 0"

lemma Passes_reading:
  assumes "Passes_valid p" "num_passes p = 1"
  shows "reading Passes_valid (Passes_VisitFields p)" "defaulting True Passes_valid (Passes_VisitFields p)"
proof -
  have N: "1 \<le> unat v \<and> unat v \<le> 11" if "u32_value (U32Enc (Val 1) (Val 2) (Val 3) (BitsOffset 3 4)) v" for v
    using that distr_value_bounds [of 3 4 v] by (auto simp: distr_value_Val)
  have m1: "unat (v - 1) < 11" if "1 \<le> unat v" "unat v \<le> 11" for v :: u32
    using that by (simp add: unat_sub word_le_nat_alt)
  let ?I = "\<lambda>p. Passes_sized p \<and> num_downsample p \<le> 4 \<and> num_downsample p \<le> num_passes p"
  let ?J = "\<lambda>p. ?I p \<and> pass_shift p ! unat (num_passes p - 1) = 0"
  have shift: "reading P (steps (map visit_shift [0..<unat (num_passes p - 1)]) p)"
    if "?I p" "\<And>p. ?I p \<Longrightarrow> P p" for P p
    by (rule reading_steps_map [where I = ?I]) (use that in \<open>auto simp: visit_shift_def Passes_sized_def\<close>)
  have small: "unat (num_downsample p) \<le> 4" if "?I p" for p using that by (simp add: word_le_nat_alt)
  have down: "reading P (steps (map visit_downsample [0..<unat (num_downsample p)]) p)"
    if p: "?J p" and P: "\<And>q. ?J q \<Longrightarrow> num_downsample q = num_downsample p \<Longrightarrow> decreasing (unat (num_downsample p)) q \<Longrightarrow> P q" for P p
  proof (rule reading_steps_upt [where I = "\<lambda>i q. ?J q \<and> num_downsample q = num_downsample p \<and> decreasing i q"])
    fix i q assume "i < unat (num_downsample p)" and q: "?J q \<and> num_downsample q = num_downsample p \<and> decreasing i q"
    then have "i < length (downsample q)" using small [of p] p by (simp add: Passes_sized_def kMaxNumPasses_def)
    with q show "reading (\<lambda>q. ?J q \<and> num_downsample q = num_downsample p \<and> decreasing (Suc i) q) (visit_downsample i q)"
      by (auto simp: visit_downsample_def Passes_sized_def decreasing_def less_Suc_eq nth_list_update)
  qed (use p P in \<open>auto simp: decreasing_def\<close>)
  have last: "reading Passes_valid (steps (map visit_last_pass [0..<unat (num_downsample p)]) p)"
    if p: "?J p" "decreasing (unat (num_downsample p)) p" for p
  proof (rule reading_steps_upt [where I = "\<lambda>i q. ?J q \<and> num_downsample q = num_downsample p \<and>
      decreasing (unat (num_downsample p)) q \<and> increasing i q"])
    fix i q assume "i < unat (num_downsample p)" and q: "?J q \<and> num_downsample q = num_downsample p \<and>
      decreasing (unat (num_downsample p)) q \<and> increasing i q"
    then have "i < length (last_pass q)" using small [of p] p by (simp add: Passes_sized_def kMaxNumPasses_def)
    with q show "reading (\<lambda>q. ?J q \<and> num_downsample q = num_downsample p \<and>
      decreasing (unat (num_downsample p)) q \<and> increasing (Suc i) q) (visit_last_pass i q)"
      by (auto simp: visit_last_pass_def Passes_sized_def decreasing_def increasing_def less_Suc_eq nth_list_update not_le not_less)
  qed (use p in \<open>auto simp: Passes_valid_def increasing_def\<close>)
  have p11: "Passes_sized q \<Longrightarrow> unat (num_passes q - 1) < length (pass_shift q)" for q
    using m1 [of "num_passes q"] by (simp add: Passes_sized_def kMaxNumPasses_def)
  have "p\<lparr> num_passes := 1 \<rparr> = p" using assms(2) by (cases p) simp
  then have one: "Passes_valid (p\<lparr> num_passes := 1 \<rparr>)" using assms(1) by simp
  have sized: "Passes_sized (p\<lparr> num_passes := v \<rparr>)" if "1 \<le> unat v" "unat v \<le> kMaxNumPasses" for v
    using assms that by (simp add: Passes_valid_def Passes_sized_def)
  have sized': "Passes_sized (q\<lparr> num_downsample := v \<rparr>) = Passes_sized q"
    "Passes_sized (q\<lparr> pass_shift := (pass_shift q)[i := v] \<rparr>) = Passes_sized q" for q v i
    by (simp_all add: Passes_sized_def)
  have rest: "reading (\<lambda>q. reading (\<lambda>q. reading Passes_valid (steps (map visit_last_pass [0..<unat (num_downsample q)]) q))
      (steps (map visit_downsample [0..<unat (num_downsample q)]) (q\<lparr> pass_shift := (pass_shift q)[unat (num_passes q - 1) := 0] \<rparr>)))
    (steps (map visit_shift [0..<unat (num_passes p - 1)]) p)" if "?I p" for p
  proof (rule shift [OF that])
    fix q assume q: "?I q"
    let ?q = "q\<lparr> pass_shift := (pass_shift q)[unat (num_passes q - 1) := 0] \<rparr>"
    have "?J ?q" using q p11 [of q] by (simp add: sized')
    then have "reading (\<lambda>q. reading Passes_valid (steps (map visit_last_pass [0..<unat (num_downsample q)]) q))
      (steps (map visit_downsample [0..<unat (num_downsample ?q)]) ?q)"
    proof (rule down)
      fix r assume "?J r" "num_downsample r = num_downsample ?q" "decreasing (unat (num_downsample ?q)) r"
      then show "reading Passes_valid (steps (map visit_last_pass [0..<unat (num_downsample r)]) r)" by (intro last) auto
    qed
    then show "reading (\<lambda>q. reading Passes_valid (steps (map visit_last_pass [0..<unat (num_downsample q)]) q))
      (steps (map visit_downsample [0..<unat (num_downsample q)]) ?q)" by simp
  qed
  show "reading Passes_valid (Passes_VisitFields p)"
    using one sized by (auto simp: Passes_VisitFields_def not_less sized' simp del: u32_value.simps dest: N intro!: rest [of "p\<lparr> num_passes := v, num_downsample := w \<rparr>" for v w, simplified])
  show "defaulting True Passes_valid (Passes_VisitFields p)" 
    using assms
    apply (simp add: Passes_VisitFields_def Passes_valid_def Passes_sized_def decreasing_def increasing_def kMaxNumPasses_def)
    done
qed

subsection \<open>Blending and filters\<close>

definition BlendingInfo_valid :: "BlendingInfo \<Rightarrow> bool" where
  "BlendingInfo_valid b \<longleftrightarrow> blend_mode b \<le> kMul \<and> blend_source b \<le> 3 \<and>
     (needs_alpha b \<longrightarrow> unat (alpha_channel b) < nonserialized_num_extra_channels b)"

lemma VisitBlendMode_reading [simp]:
  "reading P (VisitBlendMode d b) =
    (\<forall>v. u32_value (U32Enc (Val kReplace) (Val kAdd) (Val kBlend) (BitsOffset 2 3)) v \<longrightarrow> v \<le> kMul \<longrightarrow> P (b\<lparr> blend_mode := v \<rparr>))"
  "defaulting n P (VisitBlendMode d b) = (d \<le> kMul \<longrightarrow> P (b\<lparr> blend_mode := d \<rparr>))"
  by (auto simp: VisitBlendMode_def not_less)

lemma BlendingInfo_reading:
  assumes "blend_source b \<le> 3"
  shows "reading (\<lambda>c. BlendingInfo_valid c \<and> nonserialized_num_extra_channels c = nonserialized_num_extra_channels b)
      (BlendingInfo_VisitFields b)"
    "defaulting True (\<lambda>c. BlendingInfo_valid c \<and> nonserialized_num_extra_channels c = nonserialized_num_extra_channels b \<and>
      blend_mode c = kReplace) (BlendingInfo_VisitFields b)"
  using assms by (auto simp: BlendingInfo_VisitFields_def BlendingInfo_valid_def needs_alpha_def not_le kReplace_def kBlend_def
      kAlphaWeightedAdd_def kMul_def simp del: u32_value.simps)

interpretation epf_sharp_lut: float_field epf_sharp_lut epf_sharp_lut_update by unfold_locales auto
interpretation epf_channel_scale: float_field epf_channel_scale epf_channel_scale_update by unfold_locales auto
interpretation fh_name: name_field fh_name fh_name_update by unfold_locales auto

lemma LoopFilter_reading:
  assumes "epf_iters l \<le> 3"
  shows "reading (\<lambda>l. epf_iters l \<le> 3) (LoopFilter_VisitFields l)"
    "defaulting True (\<lambda>l. epf_iters l \<le> 3) (LoopFilter_VisitFields l)"
proof -
  have v: "v \<le> 3" if "unat v < 2 ^ 2" for v :: u32 using that by (simp add: word_le_nat_alt)
  have "reading (\<lambda>l. epf_iters l \<le> 3) (visit_epf l)" "defaulting True (\<lambda>l. epf_iters l \<le> 3) (visit_epf l)"
    if "epf_iters l \<le> 3" for l
    using that by (auto simp: visit_epf_def intro!: epf_sharp_lut.floats_reading epf_channel_scale.floats_reading)
  then have "reading (\<lambda>l. epf_iters l \<le> 3) (LoopFilter_body l)" "defaulting True (\<lambda>l. epf_iters l \<le> 3) (LoopFilter_body l)" for l
    by (auto simp: LoopFilter_body_def visit_gab_weights_def v intro!: reading_mono [where P = "\<lambda>l. epf_iters l \<le> 3"]
        defaulting_mono [where P = "\<lambda>l. epf_iters l \<le> 3"])
  then show "reading (\<lambda>l. epf_iters l \<le> 3) (LoopFilter_VisitFields l)"
    "defaulting True (\<lambda>l. epf_iters l \<le> 3) (LoopFilter_VisitFields l)"
    using assms by (auto simp: LoopFilter_VisitFields_def defaulting_all_default intro!: reading_all_default)
qed

lemmas any_part =
  reading_mono [OF _ reading_any(1) [of "YCbCrChromaSubsampling_VisitFields _"]]
  reading_mono [OF _ reading_any(1) [of "AnimationFrame_VisitFields _ _"]]
  defaulting_mono [OF _ reading_any(2) [of _ "YCbCrChromaSubsampling_VisitFields _"]]
  defaulting_mono [OF _ reading_any(2) [of _ "AnimationFrame_VisitFields _ _"]]

subsection \<open>The parts of the frame header\<close>

text \<open>
  What every part keeps (\<open>frame_parts\<close>) and what the start establishes (\<open>frame_kind\<close>).
\<close>

definition frame_parts :: "'c FrameHeader \<Rightarrow> bool" where
  "frame_parts h \<longleftrightarrow> Passes_valid (fh_passes h) \<and> group_size_shift h \<le> 3 \<and> upsampling h \<in> {1, 2, 4, 8} \<and>
     (\<forall>u \<in> set (extra_channel_upsampling h). upsampling h \<le> u \<and> u \<le> 8) \<and>
     (custom_size_or_origin h \<longrightarrow> fs_xsize (frame_size h) \<noteq> 0 \<and> fs_ysize (frame_size h) \<noteq> 0) \<and>
     BlendingInfo_valid (blending_info h) \<and> (\<forall>b \<in> set (extra_channel_blending_info h). BlendingInfo_valid b) \<and>
     length (extra_channel_blending_info h) = length (frame_extra_channels h) \<and>
     length (extra_channel_upsampling h) = length (frame_extra_channels h) \<and>
     save_as_reference h \<le> 3 \<and> epf_iters (loop_filter h) \<le> 3 \<and> length (fh_name h) \<le> 1071"

definition frame_kind :: "'c FrameHeader \<Rightarrow> bool" where
  "frame_kind h \<longleftrightarrow> frame_type h \<le> kSkipProgressive \<and> frame_encoding h \<le> kModular \<and> color_transform h \<le> kYCbCr \<and>
     (color_transform h = kXYB \<longleftrightarrow> (case nonserialized_metadata h of None \<Rightarrow> True | Some m \<Rightarrow> xyb_encoded (cm_m m))) \<and>
     x_qm_scale h \<le> 7 \<and> b_qm_scale h \<le> 7 \<and> dc_level h \<le> 4 \<and> (dc_level h \<noteq> 0 \<longleftrightarrow> frame_type h = kDCFrame)"

lemma frame_extra_channels_updates [simp]:
  "frame_extra_channels (fh_all_default_update f0 h) = frame_extra_channels h"
  "frame_extra_channels (frame_encoding_update f1 h) = frame_extra_channels h"
  "frame_extra_channels (frame_type_update f2 h) = frame_extra_channels h"
  "frame_extra_channels (fh_flags_update f3 h) = frame_extra_channels h"
  "frame_extra_channels (color_transform_update f4 h) = frame_extra_channels h"
  "frame_extra_channels (chroma_subsampling_update f5 h) = frame_extra_channels h"
  "frame_extra_channels (x_qm_scale_update f6 h) = frame_extra_channels h"
  "frame_extra_channels (b_qm_scale_update f7 h) = frame_extra_channels h"
  "frame_extra_channels (frame_origin_update f8 h) = frame_extra_channels h"
  "frame_extra_channels (animation_frame_update f9 h) = frame_extra_channels h"
  "frame_extra_channels (is_last_update f10 h) = frame_extra_channels h"
  "frame_extra_channels (save_before_color_transform_update f11 h) = frame_extra_channels h"
  "frame_extra_channels (dc_level_update f12 h) = frame_extra_channels h"
  "frame_extra_channels (fh_extensions_update f13 h) = frame_extra_channels h"
  "frame_extra_channels (fh_passes_update f14 h) = frame_extra_channels h"
  "frame_extra_channels (frame_size_update f15 h) = frame_extra_channels h"
  "frame_extra_channels (custom_size_or_origin_update f16 h) = frame_extra_channels h"
  "frame_extra_channels (upsampling_update f17 h) = frame_extra_channels h"
  "frame_extra_channels (extra_channel_upsampling_update f18 h) = frame_extra_channels h"
  "frame_extra_channels (blending_info_update f19 h) = frame_extra_channels h"
  "frame_extra_channels (extra_channel_blending_info_update f20 h) = frame_extra_channels h"
  "frame_extra_channels (save_as_reference_update f21 h) = frame_extra_channels h"
  "frame_extra_channels (loop_filter_update f22 h) = frame_extra_channels h"
  "frame_extra_channels (fh_name_update f23 h) = frame_extra_channels h"
  "frame_extra_channels (group_size_shift_update f24 h) = frame_extra_channels h"
  by (simp_all add: frame_extra_channels_def)

lemma frame_parts_updates [simp]:
  "frame_parts (fh_all_default_update f0 h) = frame_parts h"
  "frame_parts (frame_encoding_update f1 h) = frame_parts h"
  "frame_parts (frame_type_update f2 h) = frame_parts h"
  "frame_parts (fh_flags_update f3 h) = frame_parts h"
  "frame_parts (color_transform_update f4 h) = frame_parts h"
  "frame_parts (chroma_subsampling_update f5 h) = frame_parts h"
  "frame_parts (x_qm_scale_update f6 h) = frame_parts h"
  "frame_parts (b_qm_scale_update f7 h) = frame_parts h"
  "frame_parts (frame_origin_update f8 h) = frame_parts h"
  "frame_parts (animation_frame_update f9 h) = frame_parts h"
  "frame_parts (is_last_update f10 h) = frame_parts h"
  "frame_parts (save_before_color_transform_update f11 h) = frame_parts h"
  "frame_parts (dc_level_update f12 h) = frame_parts h"
  "frame_parts (fh_extensions_update f13 h) = frame_parts h"
  by (simp_all add: frame_parts_def)

lemma frame_parts_changes:
  "frame_parts h \<Longrightarrow> Passes_valid p \<Longrightarrow> frame_parts (h\<lparr> fh_passes := p \<rparr>)"
  "frame_parts h \<Longrightarrow> g \<le> 3 \<Longrightarrow> frame_parts (h\<lparr> group_size_shift := g \<rparr>)"
  "frame_parts h \<Longrightarrow> u \<in> {1, 2, 4, 8} \<Longrightarrow> length us = length (frame_extra_channels h) \<Longrightarrow> (\<forall>x \<in> set us. u \<le> x \<and> x \<le> 8) \<Longrightarrow>
     frame_parts (h\<lparr> upsampling := u, extra_channel_upsampling := us \<rparr>)"
  "frame_parts h \<Longrightarrow> v \<longrightarrow> fs_xsize sz \<noteq> 0 \<and> fs_ysize sz \<noteq> 0 \<Longrightarrow> frame_parts (h\<lparr> custom_size_or_origin := v, frame_size := sz \<rparr>)"
  "frame_parts h \<Longrightarrow> BlendingInfo_valid b \<Longrightarrow> frame_parts (h\<lparr> blending_info := b \<rparr>)"
  "frame_parts h \<Longrightarrow> length bs = length (frame_extra_channels h) \<Longrightarrow> (\<forall>x \<in> set bs. BlendingInfo_valid x) \<Longrightarrow>
     frame_parts (h\<lparr> extra_channel_blending_info := bs \<rparr>)"
  "frame_parts h \<Longrightarrow> r \<le> 3 \<Longrightarrow> frame_parts (h\<lparr> save_as_reference := r \<rparr>)"
  "frame_parts h \<Longrightarrow> epf_iters l \<le> 3 \<Longrightarrow> frame_parts (h\<lparr> loop_filter := l \<rparr>)"
  "frame_parts h \<Longrightarrow> length nm \<le> 1071 \<Longrightarrow> frame_parts (h\<lparr> fh_name := nm \<rparr>)"
  unfolding frame_parts_def by (elim conjE, intro conjI; simp)+

lemma vector_resize_set: "set (vector_resize n d xs) \<subseteq> insert d (set xs)"
  by (auto simp: vector_resize_def dest: in_set_takeD)

lemma small_word: "unat v < 4 \<Longrightarrow> v \<le> 3" "unat v < 8 \<Longrightarrow> v \<le> 7" for v :: u32
  by (simp_all add: word_le_nat_alt)

lemma visit_ec_upsampling_loop:
  fixes h :: "'c FrameHeader"
  assumes h: "h' = h\<lparr> extra_channel_upsampling := xs0 \<rparr>" "length xs0 = n"
    and P: "\<And>xs. length xs = n \<Longrightarrow> (\<forall>u \<in> set xs. upsampling h \<le> u \<and> u \<le> 8) \<Longrightarrow> P (h\<lparr> extra_channel_upsampling := xs \<rparr>)"
  shows "reading P (steps (map visit_ec_upsampling [0..<n]) h')"
    "defaulting b P (steps (map visit_ec_upsampling [0..<n]) h')"
proof -
  let ?I = "\<lambda>i q. \<exists>xs. q = h\<lparr> extra_channel_upsampling := xs \<rparr> \<and> length xs = n \<and> (\<forall>j < i. upsampling h \<le> xs ! j \<and> xs ! j \<le> 8)"
  have step: "reading (?I (Suc i)) (visit_ec_upsampling i q)" "defaulting b (?I (Suc i)) (visit_ec_upsampling i q)"
    if i: "i < n" and I: "?I i q" for i q
  proof -
    obtain xs where q: "q = h\<lparr> extra_channel_upsampling := xs \<rparr>" "length xs = n"
      "\<And>j. j < i \<Longrightarrow> upsampling h \<le> xs ! j \<and> xs ! j \<le> 8" using I by blast
    have E: "\<exists>ys. h\<lparr> extra_channel_upsampling := xs[i := v] \<rparr> = h\<lparr> extra_channel_upsampling := ys \<rparr> \<and>
      length ys = length xs \<and> (\<forall>j < Suc i. upsampling h \<le> ys ! j \<and> ys ! j \<le> 8)" if "upsampling h \<le> v" "v \<le> 8" for v
      using q(2,3) that i by (intro exI [of _ "xs[i := v]"]) (auto simp: less_Suc_eq nth_list_update)
    show "reading (?I (Suc i)) (visit_ec_upsampling i q)" "defaulting b (?I (Suc i)) (visit_ec_upsampling i q)"
      using i q(1,2) by (auto simp: visit_ec_upsampling_def Let_def not_less comp_def intro!: E)
  qed
  have P': "P q" if "?I n q" for q using that by (auto intro!: P simp: in_set_conv_nth)
  show "reading P (steps (map visit_ec_upsampling [0..<n]) h')"
    by (rule reading_steps_upt [where I = ?I]) (use h step(1) P' in auto)
  show "defaulting b P (steps (map visit_ec_upsampling [0..<n]) h')"
    by (rule defaulting_steps_upt [where I = ?I]) (use h step(2) P' in auto)
qed

lemma visit_ec_blending_loop:
  fixes h :: "'c FrameHeader"
  defines "m \<equiv> length (frame_extra_channels h)"
  assumes h: "h' = h\<lparr> extra_channel_blending_info := xs0 \<rparr>" "length xs0 = n" "\<forall>b \<in> set xs0. blend_source b \<le> 3"
    and P: "\<And>xs. length xs = n \<Longrightarrow> (\<forall>b \<in> set xs. BlendingInfo_valid b \<and> nonserialized_num_extra_channels b = m) \<Longrightarrow>
      (d \<longrightarrow> (\<forall>b \<in> set xs. blend_mode b = kReplace)) \<Longrightarrow> P (h\<lparr> extra_channel_blending_info := xs \<rparr>)"
  shows "\<not> d \<Longrightarrow> reading P (steps (map (visit_ec_blending pf) [0..<n]) h')"
    "d \<Longrightarrow> defaulting True P (steps (map (visit_ec_blending pf) [0..<n]) h')"
proof -
  let ?J = "\<lambda>i n xs. length xs = n \<and> (\<forall>b \<in> set xs. blend_source b \<le> 3) \<and>
    (\<forall>j < i. BlendingInfo_valid (xs ! j) \<and> nonserialized_num_extra_channels (xs ! j) = m \<and> (d \<longrightarrow> blend_mode (xs ! j) = kReplace))"
  let ?I = "\<lambda>i q. \<exists>xs. q = h\<lparr> extra_channel_blending_info := xs \<rparr> \<and> ?J i n xs"
  have step: "\<not> d \<Longrightarrow> reading (?I (Suc i)) (visit_ec_blending pf i q)" "d \<Longrightarrow> defaulting True (?I (Suc i)) (visit_ec_blending pf i q)"
    if i: "i < n" and I: "?I i q" for i q
  proof -
    obtain xs where q: "q = h\<lparr> extra_channel_blending_info := xs \<rparr>" "?J i n xs" using I by blast
    have E: "?I (Suc i) (h\<lparr> extra_channel_blending_info := xs[i := v] \<rparr>)"
      if v: "BlendingInfo_valid v" "nonserialized_num_extra_channels v = m" "d \<longrightarrow> blend_mode v = kReplace" for v
      using q(2) v i by (intro exI [of _ "xs[i := v]"])
        (auto simp: less_Suc_eq nth_list_update BlendingInfo_valid_def dest!: set_update_subset_insert [THEN subsetD])
    let ?b = "(xs ! i)\<lparr> nonserialized_is_partial_frame := pf, nonserialized_num_extra_channels := m \<rparr>"
    have b: "blend_source ?b \<le> 3" "nonserialized_num_extra_channels ?b = m" using q(2) i by auto
    note B = BlendingInfo_reading [OF b(1), unfolded b(2)]
    show "reading (?I (Suc i)) (visit_ec_blending pf i q)" if "\<not> d"
    proof -
      have "reading (\<lambda>x. ?I (Suc i) (h\<lparr> extra_channel_blending_info := xs[i := x] \<rparr>)) (BlendingInfo_VisitFields ?b)"
        by (rule reading_mono [OF _ B(1)]) (use that in \<open>intro E; simp\<close>)
      then show ?thesis using q i by (simp add: visit_ec_blending_def comp_def m_def)
    qed
    show "defaulting True (?I (Suc i)) (visit_ec_blending pf i q)" if d
    proof -
      have "defaulting True (\<lambda>x. ?I (Suc i) (h\<lparr> extra_channel_blending_info := xs[i := x] \<rparr>)) (BlendingInfo_VisitFields ?b)"
        by (rule defaulting_mono [OF _ B(2)]) (use that in \<open>intro E; simp\<close>)
      then show ?thesis using q i by (simp add: visit_ec_blending_def comp_def m_def)
    qed
  qed
  have P': "P q" if "?I n q" for q using that by (auto intro!: P simp: in_set_conv_nth)
  show "reading P (steps (map (visit_ec_blending pf) [0..<n]) h')" if "\<not> d"
    by (rule reading_steps_upt [where I = ?I]) (use h step(1) [OF _ _ that] P' in auto)
  show "defaulting True P (steps (map (visit_ec_blending pf) [0..<n]) h')" if d
    by (rule defaulting_steps_upt [where I = ?I]) (use h step(2) [OF _ _ that] P' in auto)
qed

definition upsampling_rest :: "'c FrameHeader fields" where
  "upsampling_rest =
     if_plain (\<lambda>h. nonserialized_metadata h \<noteq> None)
       (if_conditional_else (\<lambda>h. length (frame_extra_channels h) \<noteq> 0)
          (\<lambda>h. let n = length (frame_extra_channels h) in
             steps (map visit_ec_upsampling [0..<n]) (extra_channel_upsampling_update (vector_resize n 1) h))
          (assign (extra_channel_upsampling_update (\<lambda>_. []))))
       (assign (extra_channel_upsampling_update (\<lambda>_. [])))"

lemma visit_upsampling_rest: "visit_upsampling = steps [
     field_u32 (U32Enc (Val 1) (Val 2) (Val 4) (Val 8)) 1 upsampling upsampling_update, upsampling_rest]"
  by (simp add: visit_upsampling_def upsampling_rest_def)

lemma visit_upsampling_reading:
  assumes "\<And>u xs. u \<in> {1, 2, 4, 8} \<Longrightarrow> length xs = length (frame_extra_channels h) \<Longrightarrow> (\<forall>x \<in> set xs. u \<le> x \<and> x \<le> 8) \<Longrightarrow>
    P (h\<lparr> upsampling := u, extra_channel_upsampling := xs \<rparr>)"
  shows "reading P (visit_upsampling h)" "defaulting n P (visit_upsampling h)"
proof -
  let ?m = "length (frame_extra_channels h)"
  let ?h = "\<lambda>u. h\<lparr> upsampling := u, extra_channel_upsampling := vector_resize ?m 1 (extra_channel_upsampling h) \<rparr>"
  have h: "?h u = h\<lparr> upsampling := u \<rparr>\<lparr> extra_channel_upsampling := vector_resize ?m 1 (extra_channel_upsampling h) \<rparr>" for u
    by simp
  have loop: "reading P (steps (map visit_ec_upsampling [0..<?m]) (?h u))"
    "defaulting n P (steps (map visit_ec_upsampling [0..<?m]) (?h u))" if "u \<in> {1, 2, 4, 8}" for u
    using assms that by (auto intro!: visit_ec_upsampling_loop [OF h])
  have N: "?m = 0" if "nonserialized_metadata h = None" using that by (simp add: frame_extra_channels_def)
  have eq: "extra_channel_upsampling_update (vector_resize ?m 1) (h\<lparr> upsampling := u \<rparr>) = ?h u" for u by simp
  have part: "reading P (upsampling_rest (h\<lparr> upsampling := u \<rparr>))" "defaulting n P (upsampling_rest (h\<lparr> upsampling := u \<rparr>))"
    if u: "u \<in> {1, 2, 4, 8}" for u
    using loop [OF u] assms [OF u, of "[]"] N
    by (simp_all add: upsampling_rest_def Let_def eq del: not_None_eq)
  show "reading P (visit_upsampling h)" "defaulting n P (visit_upsampling h)"
    unfolding visit_upsampling_rest reading_steps defaulting_steps small_choices by (blast intro: part(1) | rule part(2) | simp)+
qed

lemma visit_mode_data_reading:
  assumes "\<And>g x b. g \<le> 3 \<or> g = group_size_shift h \<Longrightarrow> x \<le> 7 \<Longrightarrow> b \<le> 7 \<Longrightarrow>
    P (h\<lparr> group_size_shift := g, x_qm_scale := x, b_qm_scale := b \<rparr>)"
  shows "reading P (visit_mode_data h)" "defaulting n P (visit_mode_data h)"
proof -
  have eq: "h\<lparr> x_qm_scale := x, b_qm_scale := b \<rparr> = h\<lparr> group_size_shift := group_size_shift h, x_qm_scale := x, b_qm_scale := b \<rparr>" for x b
    by simp
  show "reading P (visit_mode_data h)"
    using assms assms [of "group_size_shift h"] by (auto simp: visit_mode_data_def dest!: small_word)
  show "defaulting n P (visit_mode_data h)" using assms by (simp add: visit_mode_data_def)
qed

definition frame_started :: "'c FrameHeader \<Rightarrow> bool" where
  "frame_started h \<longleftrightarrow> frame_parts h \<and> frame_kind h \<and> (nonserialized_is_preview h \<longrightarrow> frame_type h = kRegularFrame)"

lemmas frame_numbers = kRegularFrame_def kDCFrame_def kReferenceOnly_def kSkipProgressive_def kVarDCT_def kModular_def
  kXYB_def kNone_def kYCbCr_def

text \<open>Before and after the passes.\<close>

definition frame_starting :: "'c FrameHeader \<Rightarrow> bool" where
  "frame_starting h \<longleftrightarrow> frame_parts h \<and> num_passes (fh_passes h) = 1 \<and> frame_type h \<le> kSkipProgressive \<and> frame_encoding h \<le> kModular \<and>
     color_transform h \<le> kYCbCr \<and>
     (color_transform h = kXYB \<longleftrightarrow> (case nonserialized_metadata h of None \<Rightarrow> True | Some m \<Rightarrow> xyb_encoded (cm_m m))) \<and>
     x_qm_scale h \<le> 7 \<and> b_qm_scale h \<le> 7 \<and> (nonserialized_is_preview h \<longrightarrow> frame_type h = kRegularFrame)"

lemma frame_starting_passes [simp]:
  "frame_starting h \<Longrightarrow> Passes_valid p \<Longrightarrow> frame_parts (h\<lparr> fh_passes := p \<rparr>)" 
  by (simp add: frame_starting_def frame_parts_changes)

lemma visit_passes_level_reading:
  assumes "frame_starting h"
  shows "reading frame_started (visit_passes_level h)"
    "frame_type h = kRegularFrame \<Longrightarrow> defaulting True (\<lambda>h. frame_started h \<and> frame_type h = kRegularFrame) (visit_passes_level h)"
proof -
  have P: "Passes_valid (fh_passes h)" "num_passes (fh_passes h) = 1" using assms by (simp_all add: frame_starting_def frame_parts_def)
  show "reading frame_started (visit_passes_level h)"
    using assms P
    by (auto simp: visit_passes_level_def frame_started_def frame_kind_def frame_numbers frame_starting_def [unfolded frame_numbers]
      distr_value_Val intro!: reading_mono [OF _ Passes_reading(1)] frame_parts_changes)
  show "frame_type h = kRegularFrame \<Longrightarrow> defaulting True (\<lambda>h. frame_started h \<and> frame_type h = kRegularFrame) (visit_passes_level h)"
    using assms P
    by (auto simp: visit_passes_level_def frame_started_def frame_kind_def frame_numbers frame_starting_def [unfolded frame_numbers]
      distr_value_Val intro!: defaulting_mono [OF _ Passes_reading(2)] frame_parts_changes)
qed

text \<open>Before the mode data.\<close>

definition frame_colored :: "bool \<Rightarrow> 'c FrameHeader \<Rightarrow> bool" where
  "frame_colored d h \<longleftrightarrow> frame_parts h \<and> num_passes (fh_passes h) = 1 \<and> frame_type h \<le> kSkipProgressive \<and> frame_encoding h \<le> kModular \<and>
     color_transform h \<le> kYCbCr \<and>
     (color_transform h = kXYB \<longleftrightarrow> (case nonserialized_metadata h of None \<Rightarrow> True | Some m \<Rightarrow> xyb_encoded (cm_m m))) \<and>
     (nonserialized_is_preview h \<longrightarrow> frame_type h = kRegularFrame) \<and> (d \<longrightarrow> frame_type h = kRegularFrame)"

lemma frame_color_reading:
  assumes "frame_parts h" "num_passes (fh_passes h) = 1"
  shows "reading (frame_colored False) (steps [VisitFrameType kRegularFrame,
       check_reading (\<lambda>h. \<not> (nonserialized_is_preview h \<and> frame_type h \<noteq> kRegularFrame)),
       visit_encoding, field_u64 0 fh_flags fh_flags_update, visit_color_transform] h)"
    "defaulting True (frame_colored True) (steps [VisitFrameType kRegularFrame,
       check_reading (\<lambda>h. \<not> (nonserialized_is_preview h \<and> frame_type h \<noteq> kRegularFrame)),
       visit_encoding, field_u64 0 fh_flags fh_flags_update, visit_color_transform] h)"
proof -
  have c: "reading (frame_colored False) (visit_color_transform h)" "defaulting True (frame_colored d) (visit_color_transform h)"
    if "frame_parts h" "num_passes (fh_passes h) = 1" "frame_type h \<le> kSkipProgressive" "frame_encoding h \<le> kModular"
      "nonserialized_is_preview h \<longrightarrow> frame_type h = kRegularFrame" "d \<longrightarrow> frame_type h = kRegularFrame" for h :: "'a FrameHeader" and d
    using that by (simp_all add: visit_color_transform_def frame_colored_def frame_numbers Let_def split: option.split)
  have t: "v \<le> kSkipProgressive" if "u32_value (U32Enc (Val kRegularFrame) (Val kDCFrame) (Val kReferenceOnly) (Val kSkipProgressive)) v" for v
    using that by (auto simp: frame_numbers distr_value_Val)
  show "reading (frame_colored False) (steps [VisitFrameType kRegularFrame,
       check_reading (\<lambda>h. \<not> (nonserialized_is_preview h \<and> frame_type h \<noteq> kRegularFrame)),
       visit_encoding, field_u64 0 fh_flags fh_flags_update, visit_color_transform] h)"
    unfolding reading_steps reading_else VisitFrameType_def visit_encoding_def reading.simps
    using assms t by (intro allI impI c) (simp_all add: frame_numbers)
  show "defaulting True (frame_colored True) (steps [VisitFrameType kRegularFrame,
       check_reading (\<lambda>h. \<not> (nonserialized_is_preview h \<and> frame_type h \<noteq> kRegularFrame)),
       visit_encoding, field_u64 0 fh_flags fh_flags_update, visit_color_transform] h)"
    unfolding defaulting_steps reading_else VisitFrameType_def visit_encoding_def defaulting.simps
    using assms by (intro c) (simp_all add: frame_numbers)
qed

lemma frame_scale_reading:
  assumes "frame_colored d h"
  shows "reading (frame_colored d) (if_conditional c (nested YCbCrChromaSubsampling_VisitFields chroma_subsampling chroma_subsampling_update) h)"
    "defaulting n (frame_colored d) (if_conditional c (nested YCbCrChromaSubsampling_VisitFields chroma_subsampling chroma_subsampling_update) h)"
    "reading (frame_colored d) (if_conditional c visit_upsampling h)"
    "defaulting n (frame_colored d) (if_conditional c visit_upsampling h)"
    "reading frame_starting (visit_mode_data h)"
    "defaulting n (\<lambda>h. frame_starting h \<and> (d \<longrightarrow> frame_type h = kRegularFrame)) (visit_mode_data h)"
proof -
  have c: "frame_colored d (h\<lparr> chroma_subsampling := x \<rparr>)" for x using assms by (simp add: frame_colored_def)
  have u: "frame_colored d (h\<lparr> upsampling := u, extra_channel_upsampling := xs \<rparr>)"
    if "u \<in> {1, 2, 4, 8}" "length xs = length (frame_extra_channels h)" "\<forall>x \<in> set xs. u \<le> x \<and> x \<le> 8" for u xs
    using assms frame_parts_changes(3) [of h u xs] that by (simp add: frame_colored_def)
  have g: "group_size_shift h \<le> 3" using assms by (simp add: frame_colored_def frame_parts_def)
  have m: "frame_starting (h\<lparr> group_size_shift := g, x_qm_scale := x, b_qm_scale := b \<rparr>) \<and>
      (d \<longrightarrow> frame_type (h\<lparr> group_size_shift := g, x_qm_scale := x, b_qm_scale := b \<rparr>) = kRegularFrame)"
    if "g \<le> 3 \<or> g = group_size_shift h" "x \<le> 7" "b \<le> 7" for g x b
    using assms frame_parts_changes(2) [of h g] that g by (auto simp: frame_colored_def frame_starting_def)
  show "reading (frame_colored d) (if_conditional c (nested YCbCrChromaSubsampling_VisitFields chroma_subsampling chroma_subsampling_update) h)"
    "defaulting n (frame_colored d) (if_conditional c (nested YCbCrChromaSubsampling_VisitFields chroma_subsampling chroma_subsampling_update) h)"
    using assms by (auto intro!: any_part c)
  show "reading (frame_colored d) (if_conditional c visit_upsampling h)"
    using assms by (auto intro!: visit_upsampling_reading u)
  show "defaulting n (frame_colored d) (if_conditional c visit_upsampling h)"
    unfolding defaulting_steps by (rule visit_upsampling_reading) (rule u)
  show "reading frame_starting (visit_mode_data h)" by (rule visit_mode_data_reading) (use m in blast)
  show "defaulting n (\<lambda>h. frame_starting h \<and> (d \<longrightarrow> frame_type h = kRegularFrame)) (visit_mode_data h)"
    by (rule visit_mode_data_reading) (rule m)
qed

lemma bind_visit_assoc: "bind_visit (bind_visit p f) g = bind_visit p (\<lambda>x. bind_visit (f x) g)"
  by (induction p) simp_all

lemma bind_visit_Return [simp]: "bind_visit p Return = p"
  by (induction p) simp_all

lemma visit_frame_start_reading:
  assumes "frame_parts h" "num_passes (fh_passes h) = 1"
  shows "reading frame_started (visit_frame_start h)"
    "defaulting True (\<lambda>h. frame_started h \<and> frame_type h = kRegularFrame) (visit_frame_start h)"
proof -
  have split: "visit_frame_start h = bind_visit (steps [VisitFrameType kRegularFrame,
       check_reading (\<lambda>h. \<not> (nonserialized_is_preview h \<and> frame_type h \<noteq> kRegularFrame)),
       visit_encoding, field_u64 0 fh_flags fh_flags_update, visit_color_transform] h)
     (steps [if_conditional (\<lambda>h. color_transform h = kYCbCr \<and> fh_flags h AND kUseDcFrame = 0)
       (nested YCbCrChromaSubsampling_VisitFields chroma_subsampling chroma_subsampling_update),
     if_conditional (\<lambda>h. fh_flags h AND kUseDcFrame = 0) visit_upsampling, visit_mode_data, visit_passes_level])"
    by (simp add: visit_frame_start_def steps.simps bind_visit_assoc)
  show "reading frame_started (visit_frame_start h)"
    unfolding split reading_bind
  proof (rule reading_mono [OF _ frame_color_reading(1) [OF assms]])
    fix h :: "'a FrameHeader" assume h: "frame_colored False h"
    show "reading frame_started (steps [if_conditional (\<lambda>h. color_transform h = kYCbCr \<and> fh_flags h AND kUseDcFrame = 0)
       (nested YCbCrChromaSubsampling_VisitFields chroma_subsampling chroma_subsampling_update),
     if_conditional (\<lambda>h. fh_flags h AND kUseDcFrame = 0) visit_upsampling, visit_mode_data, visit_passes_level] h)"
      unfolding reading_steps(1,2)
      by (rule reading_mono [OF _ frame_scale_reading(1) [OF h]], rule reading_mono [OF _ frame_scale_reading(3)],
        rule reading_mono [OF _ frame_scale_reading(5)], rule visit_passes_level_reading(1))
  qed
  show "defaulting True (\<lambda>h. frame_started h \<and> frame_type h = kRegularFrame) (visit_frame_start h)"
    unfolding split defaulting_bind
  proof (rule defaulting_mono [OF _ frame_color_reading(2) [OF assms]])
    fix h :: "'a FrameHeader" assume h: "frame_colored True h"
    show "defaulting True (\<lambda>h. frame_started h \<and> frame_type h = kRegularFrame)
     (steps [if_conditional (\<lambda>h. color_transform h = kYCbCr \<and> fh_flags h AND kUseDcFrame = 0)
       (nested YCbCrChromaSubsampling_VisitFields chroma_subsampling chroma_subsampling_update),
     if_conditional (\<lambda>h. fh_flags h AND kUseDcFrame = 0) visit_upsampling, visit_mode_data, visit_passes_level] h)"
      unfolding defaulting_steps(1,2)
      by (rule defaulting_mono [OF _ frame_scale_reading(2) [OF h]], rule defaulting_mono [OF _ frame_scale_reading(4) [where d = True]],
        rule defaulting_mono [OF _ frame_scale_reading(6) [where d = True]], rule visit_passes_level_reading(2)) auto
  qed
qed

lemma visit_frame_size_reading:
  assumes "frame_started h"
  shows "reading (\<lambda>(h, p). frame_started h) (visit_frame_size h)"
    "frame_type h = kRegularFrame \<Longrightarrow> defaulting True (\<lambda>(h, p). frame_started h \<and> frame_type h = kRegularFrame \<and> \<not> custom_size_or_origin h) (visit_frame_size h)"
proof -
  have S: "frame_started (h\<lparr> custom_size_or_origin := v, frame_size := z, frame_origin := f \<rparr>)"
    if "v \<longrightarrow> fs_xsize z \<noteq> 0 \<and> fs_ysize z \<noteq> 0" for v z f
  proof -
    have "frame_parts (h\<lparr> custom_size_or_origin := v, frame_size := z \<rparr>)"
      using assms that by (intro frame_parts_changes(4)) (simp_all add: frame_started_def)
    then have "frame_parts (frame_origin_update (\<lambda>_. f) (h\<lparr> custom_size_or_origin := v, frame_size := z \<rparr>))" by simp
    then show ?thesis using assms by (simp add: frame_started_def frame_kind_def)
  qed
  have Z: "reading P (visit_size h)" "defaulting True P (visit_size h)"
    if W: "\<And>z f. (custom_size_or_origin h \<longrightarrow> fs_xsize z \<noteq> 0 \<and> fs_ysize z \<noteq> 0) \<Longrightarrow> P (h\<lparr> frame_size := z, frame_origin := f \<rparr>)"
    for P and h :: "'a FrameHeader"
  proof -
    have eq: "frame_size_update f (frame_size_update g (frame_origin_update k h)) =
      h\<lparr> frame_size := f (g (frame_size h)), frame_origin := k (frame_origin h) \<rparr>"
      "frame_size_update f (frame_size_update g h) = h\<lparr> frame_size := f (g (frame_size h)), frame_origin := frame_origin h \<rparr>" for f g k
      by simp_all
    have same: "P (h\<lparr> frame_size := z \<rparr>)" if "custom_size_or_origin h \<longrightarrow> fs_xsize z \<noteq> 0 \<and> fs_ysize z \<noteq> 0" for z
      using W [of z "frame_origin h"] that by simp
    show "reading P (visit_size h)" 
      using W same unfolding visit_size_def reading_steps visit_origin_def reading.simps eq by simp
    show "defaulting True P (visit_size h)"
      using W unfolding visit_size_def defaulting_steps visit_origin_def defaulting.simps eq by simp
  qed
  have S': "frame_started (h\<lparr> custom_size_or_origin := False \<rparr>)"
    using S [of False "frame_size h" "frame_origin h"] by simp
  show "reading (\<lambda>(h, p). frame_started h) (visit_frame_size h)"
    using assms S S' by (auto simp: visit_frame_size_def Let_def reading_bind intro!: Z)
  show "frame_type h = kRegularFrame \<Longrightarrow> defaulting True (\<lambda>(h, p). frame_started h \<and> frame_type h = kRegularFrame \<and> \<not> custom_size_or_origin h) (visit_frame_size h)"
    using assms S by (auto simp: visit_frame_size_def Let_def defaulting_bind intro!: Z)
qed

definition frame_blended :: "bool \<Rightarrow> 'c FrameHeader \<Rightarrow> bool" where
  "frame_blended d h \<longleftrightarrow> frame_started h \<and> (d \<longrightarrow> frame_type h = kRegularFrame) \<and> (is_last h \<longrightarrow> displayed h) \<and>
     (displayed h \<longrightarrow> nonserialized_num_extra_channels (blending_info h) = length (frame_extra_channels h) \<and>
       (\<forall>b \<in> set (extra_channel_blending_info h). nonserialized_num_extra_channels b = length (frame_extra_channels h))) \<and>
     (nonserialized_is_preview h \<longrightarrow> blend_mode (blending_info h) = kReplace \<and>
       (\<forall>b \<in> set (extra_channel_blending_info h). blend_mode b = kReplace) \<and> \<not> custom_size_or_origin h)"

lemma frame_started_changes:
  "frame_started h \<Longrightarrow> BlendingInfo_valid b \<Longrightarrow> frame_started (h\<lparr> blending_info := b \<rparr>)"
  "frame_started h \<Longrightarrow> length bs = length (frame_extra_channels h) \<Longrightarrow> (\<forall>x \<in> set bs. BlendingInfo_valid x) \<Longrightarrow>
     frame_started (h\<lparr> extra_channel_blending_info := bs \<rparr>)"
  "frame_started (h\<lparr> animation_frame := a \<rparr>) = frame_started h"
  "frame_started (h\<lparr> is_last := l \<rparr>) = frame_started h"
  "frame_started h \<Longrightarrow> r \<le> 3 \<Longrightarrow> frame_started (h\<lparr> save_as_reference := r \<rparr>)"
  "frame_started (h\<lparr> save_before_color_transform := v \<rparr>) = frame_started h"
  "frame_started h \<Longrightarrow> epf_iters l' \<le> 3 \<Longrightarrow> frame_started (h\<lparr> loop_filter := l' \<rparr>)"
  "frame_started h \<Longrightarrow> length nm \<le> 1071 \<Longrightarrow> frame_started (h\<lparr> fh_name := nm \<rparr>)"
  "frame_started (h\<lparr> fh_extensions := x \<rparr>) = frame_started h"
  using frame_parts_changes(5-9) [of h] by (simp_all add: frame_started_def frame_kind_def)

definition displayed_rest :: "bool \<Rightarrow> 'c FrameHeader fields" where
  "displayed_rest pf = steps [
     (\<lambda>h. let n = length (frame_extra_channels h) in
        steps (map (visit_ec_blending pf) [0..<n])
          (extra_channel_blending_info_update (vector_resize n BlendingInfo_new) h)),
     check_reading (\<lambda>h. \<not> (nonserialized_is_preview h \<and>
       (\<not> (blend_mode (blending_info h) = kReplace \<and> (\<forall>b \<in> set (extra_channel_blending_info h). blend_mode b = kReplace)) \<or>
        custom_size_or_origin h))),
     if_conditional (\<lambda>h. case nonserialized_metadata h of None \<Rightarrow> False | Some m \<Rightarrow> have_animation (cm_m m))
       (\<lambda>h. nested (AnimationFrame_VisitFields (nonserialized_metadata h)) animation_frame animation_frame_update h),
     field_bool True is_last is_last_update]"

lemma visit_ec_blending_part:
  assumes "frame_started h" "displayed h" "BlendingInfo_valid b" "nonserialized_num_extra_channels b = length (frame_extra_channels h)"
  shows "reading (frame_blended False) (displayed_rest pf (h\<lparr> blending_info := b \<rparr>))"
    "frame_type h = kRegularFrame \<Longrightarrow> blend_mode b = kReplace \<Longrightarrow> \<not> custom_size_or_origin h \<Longrightarrow>
      defaulting True (frame_blended True) (displayed_rest pf (h\<lparr> blending_info := b \<rparr>))"
proof -
  let ?n = "length (frame_extra_channels h)"
  let ?xs = "vector_resize ?n BlendingInfo_new (extra_channel_blending_info h)"
  let ?h = "h\<lparr> blending_info := b \<rparr>"
  have eq: "extra_channel_blending_info_update (vector_resize ?n BlendingInfo_new) ?h = ?h\<lparr> extra_channel_blending_info := ?xs \<rparr>" by simp
  have "\<forall>c \<in> set (extra_channel_blending_info h). blend_source c \<le> 3"
    using assms(1) by (simp add: frame_started_def frame_parts_def BlendingInfo_valid_def)
  then have xs: "\<forall>c \<in> set ?xs. blend_source c \<le> 3"
    using vector_resize_set [of ?n BlendingInfo_new "extra_channel_blending_info h"] by (auto simp: BlendingInfo_new_def)
  have fs: "frame_started (?h\<lparr> extra_channel_blending_info := ys \<rparr>)" if "length ys = ?n" "\<forall>c \<in> set ys. BlendingInfo_valid c" for ys
    using assms that by (intro frame_started_changes(1,2)) auto
  have B: "frame_blended d (h\<lparr> blending_info := b, extra_channel_blending_info := ys, animation_frame := a, is_last := l \<rparr>)"
    if "length ys = ?n" "\<forall>c \<in> set ys. BlendingInfo_valid c \<and> nonserialized_num_extra_channels c = ?n"
      "nonserialized_is_preview h \<longrightarrow> blend_mode b = kReplace \<and> (\<forall>c \<in> set ys. blend_mode c = kReplace) \<and> \<not> custom_size_or_origin h" "d \<longrightarrow> frame_type h = kRegularFrame"
    for ys a l d
  proof -
    have "frame_started (h\<lparr> blending_info := b, extra_channel_blending_info := ys, animation_frame := a, is_last := l \<rparr>)"
      using fs [of ys] that by (simp add: frame_started_changes(3,4))
    then show ?thesis using that assms by (simp add: frame_blended_def displayed_def)
  qed
  have A: "frame_blended d (h\<lparr> blending_info := b, extra_channel_blending_info := ys, is_last := l \<rparr>)"
    if "length ys = ?n" "\<forall>c \<in> set ys. BlendingInfo_valid c \<and> nonserialized_num_extra_channels c = ?n"
      "nonserialized_is_preview h \<longrightarrow> blend_mode b = kReplace \<and> (\<forall>c \<in> set ys. blend_mode c = kReplace) \<and> \<not> custom_size_or_origin h" "d \<longrightarrow> frame_type h = kRegularFrame"
    for ys l d
    using B [OF that, where a = "animation_frame h"] by simp
  have n: "length (frame_extra_channels ?h) = ?n" by simp
  show "reading (frame_blended False) (displayed_rest pf ?h)"
    unfolding displayed_rest_def reading_steps(1,2) Let_def n eq
  proof (rule visit_ec_blending_loop(1) [where d = False and h = ?h and n = ?n, OF refl _ xs], goal_cases)
    case (2 ys)
    then show ?case using A B by (auto intro!: any_part)
  qed simp_all
  show "defaulting True (frame_blended True) (displayed_rest pf ?h)" if b: "frame_type h = kRegularFrame" "blend_mode b = kReplace" "\<not> custom_size_or_origin h"
    unfolding displayed_rest_def defaulting_steps(1,2) Let_def n eq
  proof (rule visit_ec_blending_loop(2) [where d = True and h = ?h and n = ?n, OF refl _ xs], goal_cases)
    case (2 ys)
    then show ?case using A B b by (auto intro!: any_part)
  qed simp_all
qed

lemma visit_displayed_split: "visit_displayed pf = steps [
     assign (\<lambda>h. blending_info_update (\<lambda>b. b\<lparr> nonserialized_num_extra_channels := length (frame_extra_channels h),
       nonserialized_is_partial_frame := pf \<rparr>) h),
     nested BlendingInfo_VisitFields blending_info blending_info_update, displayed_rest pf]"
  by (simp add: visit_displayed_def displayed_rest_def steps.simps fun_eq_iff bind_visit_Return)

lemma visit_blending_reading:
  assumes "frame_started h"
  shows "reading (frame_blended False) (visit_blending pf h)"
    "frame_type h = kRegularFrame \<Longrightarrow> \<not> custom_size_or_origin h \<Longrightarrow>
       defaulting True (frame_blended True) (visit_blending pf h)"
proof -
  let ?b = "(blending_info h)\<lparr> nonserialized_num_extra_channels := length (frame_extra_channels h), nonserialized_is_partial_frame := pf \<rparr>"
  have b: "blend_source ?b \<le> 3" "nonserialized_num_extra_channels ?b = length (frame_extra_channels h)"
    using assms by (simp_all add: frame_started_def frame_parts_def BlendingInfo_valid_def)
  note B = BlendingInfo_reading [OF b(1), unfolded b(2)]
  have r: "displayed h \<Longrightarrow> reading (\<lambda>x. reading (frame_blended False) (displayed_rest pf (h\<lparr> blending_info := x \<rparr>))) (BlendingInfo_VisitFields ?b)"
    by (rule reading_mono [OF _ B(1)]) (use assms in \<open>auto intro: visit_ec_blending_part(1)\<close>)
  have d: "frame_type h = kRegularFrame \<Longrightarrow> displayed h \<Longrightarrow> \<not> custom_size_or_origin h \<Longrightarrow>
      defaulting True (\<lambda>x. defaulting True (frame_blended True) (displayed_rest pf (h\<lparr> blending_info := x \<rparr>))) (BlendingInfo_VisitFields ?b)"
    by (rule defaulting_mono [OF _ B(2)]) (use assms in \<open>auto intro: visit_ec_blending_part(2)\<close>)
  have F: "frame_blended False (h\<lparr> is_last := False \<rparr>)" if "\<not> displayed h"
    using that assms by (auto simp: frame_blended_def frame_started_changes) (auto simp: displayed_def frame_started_def)
  show "reading (frame_blended False) (visit_blending pf h)"
    using r F by (simp add: visit_blending_def visit_displayed_split comp_def)
  show "frame_type h = kRegularFrame \<Longrightarrow> \<not> custom_size_or_origin h \<Longrightarrow> defaulting True (frame_blended True) (visit_blending pf h)"
    using d by (simp add: visit_blending_def visit_displayed_split comp_def displayed_def)
qed

text \<open>What holds of every accepted frame header.\<close>

definition FrameHeader_valid :: "'c FrameHeader \<Rightarrow> bool" where
  "FrameHeader_valid h \<longleftrightarrow> frame_blended False h \<and> (frame_type h = kDCFrame \<longrightarrow> save_before_color_transform h) \<and>
     (frame_type h = kReferenceOnly \<longrightarrow> valid_reference h)"

lemma valid_reference_updates [simp]:
  "valid_reference (loop_filter_update f h) = valid_reference h" "valid_reference (fh_name_update g h) = valid_reference h"
  "valid_reference (fh_extensions_update k h) = valid_reference h"
  "valid_reference (fh_all_default_update b h) = valid_reference h"
  by (simp_all add: valid_reference_def)

lemma frame_blended_changes:
  "frame_blended d h \<Longrightarrow> r \<le> 3 \<Longrightarrow> frame_blended d (h\<lparr> save_as_reference := r \<rparr>)"
  "frame_blended d (h\<lparr> save_before_color_transform := v \<rparr>) = frame_blended d h"
  "FrameHeader_valid h \<Longrightarrow> epf_iters l \<le> 3 \<Longrightarrow> FrameHeader_valid (h\<lparr> loop_filter := l \<rparr>)"
  "FrameHeader_valid h \<Longrightarrow> length nm \<le> 1071 \<Longrightarrow> FrameHeader_valid (h\<lparr> fh_name := nm \<rparr>)"
  "FrameHeader_valid (h\<lparr> fh_extensions := x \<rparr>) = FrameHeader_valid h"
  using frame_started_changes(5,7,8) [of h]
  by (simp_all add: frame_blended_def frame_started_changes(6,9) displayed_def FrameHeader_valid_def)

lemma visit_saving_reading:
  "frame_blended False h \<Longrightarrow> reading FrameHeader_valid (visit_saving pf h)"
  "frame_blended True h \<Longrightarrow> defaulting True FrameHeader_valid (visit_saving pf h)"
proof -
  have t: "kRegularFrame \<noteq> kDCFrame" "kRegularFrame \<noteq> kReferenceOnly" "kDCFrame \<noteq> kReferenceOnly" by (simp_all add: frame_numbers)
  have w: "frame_blended False h" if "frame_blended True h" for h :: "'a FrameHeader" using that by (simp add: frame_blended_def)
  have rest: "reading FrameHeader_valid (if_plain (\<lambda>h. frame_type h \<noteq> kDCFrame)
       (if_conditional_else (\<lambda>h. CanBeReferenced h \<and> blend_mode (blending_info h) = kReplace \<and> \<not> pf \<and> displayed h)
          (field_bool False save_before_color_transform save_before_color_transform_update)
          (if_conditional (\<lambda>h. frame_type h = kReferenceOnly) (steps [
             field_bool True save_before_color_transform save_before_color_transform_update,
             check valid_reference])))
       (assign (save_before_color_transform_update (\<lambda>_. True))) h)" if h: "frame_blended False h" for h :: "'a FrameHeader"
    using h by (auto simp: FrameHeader_valid_def frame_blended_changes(2) displayed_def frame_numbers)
  show "frame_blended False h \<Longrightarrow> reading FrameHeader_valid (visit_saving pf h)"
    unfolding visit_saving_def reading_steps(1,2)
    by (rule reading_mono [where P = "frame_blended False"], erule rest) (auto intro!: frame_blended_changes simp: distr_value_Val)
  show "frame_blended True h \<Longrightarrow> defaulting True FrameHeader_valid (visit_saving pf h)"
  proof -
    assume h: "frame_blended True h"
    then have "frame_type h = kRegularFrame" by (simp add: frame_blended_def)
    then show ?thesis
      using w [OF frame_blended_changes(1) [OF h, of 0]]
      by (simp add: visit_saving_def FrameHeader_valid_def frame_blended_changes(2) t)
  qed
qed

lemma visit_frame_end_reading:
  assumes "FrameHeader_valid h"
  shows "reading FrameHeader_valid (visit_frame_end h)" "defaulting True FrameHeader_valid (visit_frame_end h)"
proof -
  have e: "epf_iters (loop_filter h) \<le> 3" and n: "length (fh_name h) \<le> 1071"
    using assms by (simp_all add: FrameHeader_valid_def frame_blended_def frame_started_def frame_parts_def)
  have L: "reading FrameHeader_valid (steps [
     assign (\<lambda>h. loop_filter_update (nonserialized_is_modular_update (\<lambda>_. frame_encoding h = kModular)) h),
     nested LoopFilter_VisitFields loop_filter loop_filter_update, extensions_begin fh_extensions fh_extensions_update, extensions_end] h)"
    "defaulting True FrameHeader_valid (steps [
     assign (\<lambda>h. loop_filter_update (nonserialized_is_modular_update (\<lambda>_. frame_encoding h = kModular)) h),
     nested LoopFilter_VisitFields loop_filter loop_filter_update, extensions_begin fh_extensions fh_extensions_update, extensions_end] h)"
    if "FrameHeader_valid h" "epf_iters (loop_filter h) \<le> 3" for h :: "'a FrameHeader"
    using that by (auto simp: frame_blended_changes comp_def
      intro!: reading_mono [OF _ LoopFilter_reading(1)] defaulting_mono [OF _ LoopFilter_reading(2)])
  show "reading FrameHeader_valid (visit_frame_end h)"
    unfolding visit_frame_end_def reading_steps(2) [where f = "VisitNameString fh_name fh_name_update"]
    using assms e by (intro fh_name.name_reading L frame_blended_changes) auto
  show "defaulting True FrameHeader_valid (visit_frame_end h)"
    unfolding visit_frame_end_def defaulting_steps(2) [where f = "VisitNameString fh_name fh_name_update"] fh_name.name_defaulting
    using assms e by (intro L)
qed

lemma FrameHeader_body_reading:
  assumes "frame_parts h" "num_passes (fh_passes h) = 1"
  shows "reading FrameHeader_valid (FrameHeader_body h)" "defaulting True FrameHeader_valid (FrameHeader_body h)"
proof -
  show "reading FrameHeader_valid (FrameHeader_body h)"
    unfolding FrameHeader_body_def reading_bind case_prod_unfold reading_steps(1,2)
    by (rule reading_mono [OF _ visit_frame_start_reading(1) [OF assms]],
      rule reading_mono [OF _ visit_frame_size_reading(1)], rule reading_mono [OF _ visit_blending_reading(1)],
      rule reading_mono [OF _ visit_saving_reading(1)], rule visit_frame_end_reading) auto
  show "defaulting True FrameHeader_valid (FrameHeader_body h)"
    unfolding FrameHeader_body_def defaulting_bind case_prod_unfold defaulting_steps(1,2)
    by (rule defaulting_mono [OF _ visit_frame_start_reading(2) [OF assms]],
      rule defaulting_mono [OF _ visit_frame_size_reading(2)], rule defaulting_mono [OF _ visit_blending_reading(2)],
      rule defaulting_mono [OF _ visit_saving_reading(2)], rule visit_frame_end_reading) auto
qed

lemma FrameHeader_reading:
  assumes "FrameHeader_valid h" "num_passes (fh_passes h) = 1"
  shows "reading FrameHeader_valid (FrameHeader_VisitFields h)"
proof -
  have p: "frame_parts h" using assms(1) by (simp add: FrameHeader_valid_def frame_blended_def frame_started_def)
  have d: "FrameHeader_valid (h\<lparr> fh_all_default := b \<rparr>)" for b
    using assms(1) by (simp add: FrameHeader_valid_def frame_blended_def frame_started_def frame_kind_def displayed_def)
  show ?thesis
    unfolding FrameHeader_VisitFields_def
    by (rule reading_all_default) (use assms p d in \<open>auto intro!: FrameHeader_body_reading simp: comp_def\<close>)
qed

text \<open>
  The constructors; the arrays of the passes keep the memory they lie in but for the first shift.  The frame header
  is for a picture with the given metadata.
\<close>

definition Passes_new :: "Passes \<Rightarrow> Passes" where
  "Passes_new memory = memory\<lparr> num_passes := 1, num_downsample := 0, pass_shift := (pass_shift memory)[0 := 0] \<rparr>"

definition YCbCrChromaSubsampling_new :: YCbCrChromaSubsampling where
  "YCbCrChromaSubsampling_new = \<lparr> channel_mode = [0, 0, 0], maxhs = 0, maxvs = 0 \<rparr>"

definition AnimationFrame_new :: AnimationFrame where
  "AnimationFrame_new = \<lparr> duration = 0, timecode = 0 \<rparr>"

definition FrameHeader_new :: "Passes \<Rightarrow> 'c CodecMetadata option \<Rightarrow> 'c FrameHeader" where
  "FrameHeader_new memory metadata =
     (let channels = (case metadata of None \<Rightarrow> [] | Some m \<Rightarrow> extra_channel_info (cm_m m));
          blending = BlendingInfo_new\<lparr> nonserialized_num_extra_channels := length channels \<rparr> in
      \<lparr> fh_all_default = True, frame_encoding = kVarDCT, frame_type = kRegularFrame, fh_flags = 0,
        color_transform = (case metadata of None \<Rightarrow> kXYB | Some m \<Rightarrow> if xyb_encoded (cm_m m) then kXYB else kNone),
        chroma_subsampling = YCbCrChromaSubsampling_new, group_size_shift = 1, x_qm_scale = 3, b_qm_scale = 2, fh_name = [],
        fh_passes = Passes_new memory, custom_size_or_origin = False, frame_size = \<lparr> fs_xsize = 0, fs_ysize = 0 \<rparr>,
        upsampling = 1, extra_channel_upsampling = map (\<lambda>e. push_bit (unat (eci_dim_shift e)) 1) channels,
        frame_origin = \<lparr> fo_x0 = 0, fo_y0 = 0 \<rparr>, blending_info = blending,
        extra_channel_blending_info = map (\<lambda>_. blending) channels, animation_frame = AnimationFrame_new, is_last = True,
        save_as_reference = 0, save_before_color_transform = False, dc_level = 0, nonserialized_metadata = metadata,
        loop_filter = LoopFilter_new, nonserialized_is_preview = False, fh_extensions = 0 \<rparr>)"

lemma part_constructors_Init:
  "length (channel_mode s) = 3 \<Longrightarrow> defaulting False (\<lambda>x. x = YCbCrChromaSubsampling_new) (YCbCrChromaSubsampling_VisitFields s)"
  "defaulting False (\<lambda>x. x = Passes_new p) (Passes_VisitFields p)"
  "defaulting False (\<lambda>x. x = AnimationFrame_new) (AnimationFrame_VisitFields md a)"
  "nonserialized_num_extra_channels b = 0 \<Longrightarrow> \<not> nonserialized_is_partial_frame b \<Longrightarrow>
     defaulting False (\<lambda>x. x = BlendingInfo_new) (BlendingInfo_VisitFields b)"
proof -
  show "length (channel_mode s) = 3 \<Longrightarrow>
      defaulting False (\<lambda>x. x = YCbCrChromaSubsampling_new) (YCbCrChromaSubsampling_VisitFields s)"
  proof -
    assume "length (channel_mode s) = 3"
    then obtain x y z where "channel_mode s = [x, y, z]" by (auto simp: length_Suc_conv numeral_3_eq_3)
    moreover have "[0..<3] = [0, 1, 2 :: nat]" by code_simp
    ultimately show ?thesis
      by (simp add: YCbCrChromaSubsampling_VisitFields_def visit_channel_mode_def YCbCrChromaSubsampling_new_def Recompute_def
        kHShift_def kVShift_def)
  qed
  show "defaulting False (\<lambda>x. x = Passes_new p) (Passes_VisitFields p)"
    by (simp add: Passes_VisitFields_def Passes_new_def)
  show "defaulting False (\<lambda>x. x = AnimationFrame_new) (AnimationFrame_VisitFields md a)"
    by (simp add: AnimationFrame_VisitFields_def AnimationFrame_new_def)
  show "nonserialized_num_extra_channels b = 0 \<Longrightarrow> \<not> nonserialized_is_partial_frame b \<Longrightarrow>
     defaulting False (\<lambda>x. x = BlendingInfo_new) (BlendingInfo_VisitFields b)"
    by (simp add: BlendingInfo_VisitFields_def BlendingInfo_new_def)
qed

lemma FrameHeader_new_valid:
  assumes "length (downsample p) = kMaxNumPasses" "length (last_pass p) = kMaxNumPasses" "length (pass_shift p) = kMaxNumPasses"
    and "\<And>m. metadata = Some m \<Longrightarrow> ImageMetadata_valid (cm_m m)"
  shows "FrameHeader_valid (FrameHeader_new p metadata)"
proof -
  have P: "Passes_valid (Passes_new p)"
    using assms(1-3) by (simp add: Passes_valid_def Passes_sized_def Passes_new_def decreasing_def increasing_def kMaxNumPasses_def)
  have "1 \<le> push_bit n (1 :: u32) \<and> push_bit n (1 :: u32) \<le> 8" if "n \<le> 3" for n
  proof -
    have "n \<in> {0, 1, 2, 3}" using that by auto
    then show ?thesis by auto
  qed
  then have U: "\<forall>e \<in> set (extra_channel_info (cm_m m)). (1 :: u32) \<le> push_bit (unat (eci_dim_shift e)) 1 \<and>
      push_bit (unat (eci_dim_shift e)) (1 :: u32) \<le> 8" if "metadata = Some m" for m
    using assms(4) [OF that] by (simp add: ImageMetadata_valid_def ExtraChannelInfo_valid_def)
  let ?channels = "case metadata of None \<Rightarrow> [] | Some m \<Rightarrow> extra_channel_info (cm_m m)"
  define channels where "channels = ?channels"
  let ?h = "FrameHeader_new p metadata"
  have U: "\<forall>e \<in> set channels. (1 :: u32) \<le> push_bit (unat (eci_dim_shift e)) 1 \<and> push_bit (unat (eci_dim_shift e)) (1 :: u32) \<le> 8"
    using U by (cases metadata) (simp_all add: channels_def)
  have B: "BlendingInfo_valid (BlendingInfo_new\<lparr> nonserialized_num_extra_channels := k \<rparr>)" for k
    by (simp add: BlendingInfo_valid_def BlendingInfo_new_def needs_alpha_def kReplace_def kMul_def kBlend_def kAlphaWeightedAdd_def)
  have c: "frame_extra_channels ?h = channels" by (simp add: frame_extra_channels_def FrameHeader_new_def Let_def channels_def)
  have parts: "frame_parts ?h"
    unfolding frame_parts_def c using P U B
    by (simp add: FrameHeader_new_def Let_def channels_def [symmetric] LoopFilter_new_def)
  have kind: "frame_kind ?h" by (cases metadata) (simp_all add: frame_kind_def FrameHeader_new_def Let_def frame_numbers)
  show ?thesis
    unfolding FrameHeader_valid_def frame_blended_def frame_started_def c using parts kind
    by (simp add: FrameHeader_new_def Let_def channels_def [symmetric] displayed_def frame_numbers BlendingInfo_new_def kReplace_def)
qed

text \<open>C24: Whatever the bits, a frame header that is read into a new object, or into any valid one with a single pass, and accepted is
  well-formed (an object with several passes would keep their number of downsampling steps when one pass is read):
  the passes have decreasing downsampling factors and increasing last passes below their number; upsampling factors
  are 1, 2, 4 or 8 and those of the extra channels lie between that of the color and 8; the color transform is XYB
  exactly for XYB images; DC frames have a level from 1 to 4 and are saved before the color transform, other frames
  have none; custom sizes are not zero; every blending refers to one of four frames and to an existing alpha channel;
  only displayed frames are last; previews are regular frames that replace everything; a reference frame that is saved
  after the color transform covers the image; the filter has at most three iterations.\<close>

theorem ReadFrameHeader_accepted:
  assumes "FrameHeader_valid frame" "num_passes (fh_passes frame) = 1"
    and "ReadFrameHeader frame r = (Inr h, r')"
  shows "FrameHeader_valid h"
  using Bundle_Read_reading [OF FrameHeader_reading [OF assms(1,2)]] assms(3) by (simp add: ReadFrameHeader_def)

definition passes_memory :: Passes where
  "passes_memory = \<lparr> num_passes = 0, num_downsample = 0, downsample = replicate 11 0, last_pass = replicate 11 0, pass_shift = replicate 11 0 \<rparr>"

lemma ReadFrameHeader_accepted_witness:
  "case ReadFrameHeader (FrameHeader_new passes_memory (None :: unit CodecMetadata option)) (BitReader_new [2, 0, 0, 0, 0, 0, 0, 0]) of
     (Inr h, _) \<Rightarrow> FrameHeader_valid h \<and> frame_type h = kDCFrame | _ \<Rightarrow> False" (is "case ?r of (Inr h, _) \<Rightarrow> _ h | _ \<Rightarrow> _")
proof -
  have "FrameHeader_valid (FrameHeader_new passes_memory (None :: unit CodecMetadata option))"
    by (rule FrameHeader_new_valid) (simp_all add: passes_memory_def kMaxNumPasses_def)
  moreover have "num_passes (fh_passes (FrameHeader_new passes_memory (None :: unit CodecMetadata option))) = 1"
    by (simp add: FrameHeader_new_def Passes_new_def Let_def)
  moreover have "case ?r of (Inr h, _) \<Rightarrow> frame_type h = kDCFrame | _ \<Rightarrow> False" by code_simp
  ultimately show ?thesis using ReadFrameHeader_accepted by (auto split: prod.splits sum.splits)
qed

end
