(* ===== verification/Lehmer.thy ===== *)
theory Lehmer
  imports Prelude "HOL-Library.Monad_Syntax"
begin

text \<open>
  The Lehmer code of permutations: \<^verbatim>\<open>lib/jxl/lehmer_code.h\<close>.  The arrays are lists of words; the temporary array
  is the Fenwick tree of the code.  Its update loops step by the lowest set bit and would not end on index 0, so they
  are partial; a run that does not end is \<open>None\<close>.
\<close>

section \<open>The code\<close>

definition ValueOfLowest1Bit :: "'a::len word \<Rightarrow> 'a word" where
  "ValueOfLowest1Bit t = t AND - t"

text \<open>The sum over a prefix; the loop clears the lowest bit.\<close>

lemma and_minus_1_less: "i \<noteq> 0 \<Longrightarrow> unat (i AND (i - 1)) < unat (i :: 'a::len word)"
proof -
  assume "i \<noteq> 0"
  then have "unat (i - 1) < unat i" by (simp add: unat_minus_one unat_gt_0 [symmetric])
  moreover have "i AND (i - 1) \<le> i - 1" by (simp add: word_and_le1)
  ultimately show ?thesis by (simp add: word_le_nat_alt)
qed

function penalty_sum :: "u32 list \<Rightarrow> u32 \<Rightarrow> u32 \<Rightarrow> u32" where
  "penalty_sum temp i penalty =
     (if i = 0 then penalty else penalty_sum temp (i AND (i - 1)) (penalty + temp ! unat i))"
  by pat_completeness auto
termination by (relation "measure (\<lambda>(temp, i, penalty). unat i)") (auto simp: and_minus_1_less)

declare penalty_sum.simps [simp del]

partial_function (option) fenwick_add :: "nat \<Rightarrow> u32 \<Rightarrow> u32 list \<Rightarrow> u32 list option" where
  "fenwick_add n i temp =
     (if unat i < n + 1 then fenwick_add n (i + ValueOfLowest1Bit i) (temp[unat i := temp ! unat i + 1]) else Some temp)"

declare fenwick_add.simps [code]

fun lehmer_loop :: "nat \<Rightarrow> u32 list \<Rightarrow> u32 list \<Rightarrow> u32 list outcome option" where
  "lehmer_loop n temp [] = Some (Inr [])"
| "lehmer_loop n temp (s # ss) =
     (let penalty = penalty_sum temp (s + 1) 0 in
      if \<not> s \<ge> penalty then Some (Inl kGenericError)
      else do { temp \<leftarrow> fenwick_add n (s + 1) temp;
                code \<leftarrow> lehmer_loop n temp ss;
                Some (and_then code (\<lambda>code. Inr ((s - penalty) # code))) })"

definition ComputeLehmerCode :: "u32 list \<Rightarrow> u32 list outcome option" where
  "ComputeLehmerCode permutation =
     (let n = length permutation in lehmer_loop n (replicate (n + 1) 0) permutation)"

text \<open>
  Decoding.  \<open>find_rank\<close> descends in the tree of free elements; \<open>mark_used\<close> takes an element out.
\<close>

fun find_rank :: "u32 list \<Rightarrow> nat \<Rightarrow> nat \<Rightarrow> nat \<Rightarrow> u32 \<Rightarrow> nat outcome" where
  "find_rank temp 0 b next rank = Inr next"
| "find_rank temp (Suc k) b next rank =
     (let cand = next + b in
      if \<not> cand \<ge> 1 then Inl kGenericError
      else if temp ! (cand - 1) < rank then find_rank temp k (b div 2) cand (rank - temp ! (cand - 1))
      else find_rank temp k (b div 2) next rank)"

partial_function (option) mark_used :: "nat \<Rightarrow> nat \<Rightarrow> u32 list \<Rightarrow> u32 list option" where
  "mark_used padded_n next temp =
     (if next \<le> padded_n
      then mark_used padded_n (next + unat (ValueOfLowest1Bit (of_nat next :: u64))) (temp[next - 1 := temp ! (next - 1) - 1])
      else Some temp)"

declare mark_used.simps [code]

fun decode_loop :: "nat \<Rightarrow> nat \<Rightarrow> nat \<Rightarrow> u32 list \<Rightarrow> u32 list \<Rightarrow> u32 list outcome option" where
  "decode_loop n log2n i temp [] = Some (Inr [])"
| "decode_loop n log2n i temp (c # code) =
     (if \<not> unat c + i < n then Some (Inl kGenericError)
      else (case find_rank temp (log2n + 1) (2 ^ log2n) 0 (c + 1) of
              Inl e \<Rightarrow> Some (Inl e)
            | Inr next \<Rightarrow>
                do { temp \<leftarrow> mark_used (2 ^ log2n) (next + 1) temp;
                     permutation \<leftarrow> decode_loop n log2n (i + 1) temp code;
                     Some (and_then permutation (\<lambda>permutation. Inr (of_nat next # permutation))) }))"

definition DecodeLehmerCode :: "u32 list \<Rightarrow> u32 list outcome option" where
  "DecodeLehmerCode code =
     (let n = length code in
      if \<not> n \<noteq> 0 then Some (Inl kGenericError)
      else (let log2n = CeilLog2Nonzero n;
                temp = map (\<lambda>i. ValueOfLowest1Bit (of_nat (i + 1) :: i32)) [0..<2 ^ log2n]
            in decode_loop n log2n 0 temp code))"


section \<open>Lowest set bits\<close>

fun low :: "nat \<Rightarrow> nat" where
  "low i = (if i = 0 then 0 else if odd i then 1 else 2 * low (i div 2))"

declare low.simps [simp del]

lemma low_0 [simp]: "low 0 = 0" by (simp add: low.simps)

lemma low_even [simp]: "low (2 * i) = 2 * low i"
  by (cases "i = 0") (simp_all add: low.simps [of "2 * i"])

lemma low_odd [simp]: "odd i \<Longrightarrow> low i = 1"
  by (cases "i = 0") (simp_all add: low.simps [of i])

lemma low_mult: "low (2 ^ k * (2 * m + 1)) = 2 ^ k"
proof (induction k)
  case (Suc k)
  have "low (2 ^ Suc k * (2 * m + 1)) = low (2 * (2 ^ k * (2 * m + 1)))" by (simp add: mult.assoc)
  also have "\<dots> = 2 ^ Suc k" unfolding low_even Suc.IH by simp
  finally show ?case .
qed simp

lemma odd_part: "0 < i \<Longrightarrow> \<exists>k m. i = 2 ^ k * (2 * m + 1)" for i :: nat
proof (induction i rule: less_induct)
  case (less i)
  show ?case
  proof (cases "odd i")
    case True
    then have "i = 2 ^ 0 * (2 * (i div 2) + 1)" by simp
    then show ?thesis by blast
  next
    case False
    then have i: "i = 2 * (i div 2)" "0 < i div 2" using less.prems by auto
    then obtain k m where "i div 2 = 2 ^ k * (2 * m + 1)" using less.IH [of "i div 2"] less.prems by auto
    then have "i = 2 ^ Suc k * (2 * m + 1)" using i(1) unfolding power_Suc by (metis mult.assoc)
    then show ?thesis by blast
  qed
qed

lemma low_power: "0 < i \<Longrightarrow> \<exists>k m. i = 2 ^ k * (2 * m + 1) \<and> low i = 2 ^ k"
  using odd_part [of i] low_mult by blast

lemma low_pos: "0 < i \<Longrightarrow> 0 < low i" and low_dvd: "low i dvd i"
  using low_power [of i] by (cases "i = 0"; auto)+

lemma low_le: "low i \<le> i"
  by (cases "i = 0") (use low_dvd [of i] in \<open>simp_all add: dvd_imp_le\<close>)

lemma and_minus_1: "(i :: nat) AND (i - 1) = i - low i"
proof (induction i rule: less_induct)
  case (less i)
  consider "i = 0" | j where "i = 2 * j + 1" | j where "i = 2 * j + 2"
    by (metis One_nat_def Suc_eq_plus1 add.commute add_2_eq_Suc bot_nat_0.not_eq_extremum evenE mult_Suc_right not0_implies_Suc oddE mult_eq_0_iff)
  then show ?case
  proof cases
    case (2 j)
    then show ?thesis by (simp add: and_nat_rec [of "Suc _"])
  next
    case (3 j)
    have "i AND (i - 1) = 2 * (Suc j AND (Suc j - 1))"
      unfolding 3 by (subst and_nat_rec) simp
    also have "\<dots> = 2 * (Suc j - low (Suc j))" using less.IH [of "Suc j"] 3 by simp
    also have "\<dots> = i - low (2 * Suc j)" unfolding low_even using 3 by (simp add: right_diff_distrib')
    also have "2 * Suc j = i" using 3 by simp
    finally show ?thesis .
  qed simp
qed

lemma unat_and: "unat (x AND y) = unat x AND unat (y :: 'a::len word)"
  by (simp add: unsigned_and_eq)

lemma unat_clear_lowest: "i \<noteq> 0 \<Longrightarrow> unat (i AND (i - 1)) = unat i - low (unat (i :: 'a::len word))"
  using and_minus_1 [of "unat i"] by (simp add: unat_and unat_minus_one unat_gt_0 [symmetric])

lemma unat_ValueOfLowest1Bit: "unat (ValueOfLowest1Bit i) = low (unat (i :: 'a::len word))"
proof (cases "i = 0")
  case False
  have "(i AND (i - 1)) AND (i AND NOT (i - 1)) = 0" by (rule bit_eqI) (auto simp: bit_simps)
  moreover have "(i AND (i - 1)) OR (i AND NOT (i - 1)) = i" by (rule bit_eqI) (auto simp: bit_simps)
  ultimately have "(i AND (i - 1)) + (i AND NOT (i - 1)) = i" by (simp add: disjunctive_add_eq_or)
  then have "ValueOfLowest1Bit i = i - (i AND (i - 1))"
    by (simp add: ValueOfLowest1Bit_def minus_eq_not_minus_1 eq_diff_eq add.commute)
  then have "unat (ValueOfLowest1Bit i) = unat i - (unat i - low (unat i))"
    using unat_clear_lowest [OF False] by (simp add: unat_sub word_le_nat_alt)
  then show ?thesis using low_le [of "unat i"] by simp
qed (simp add: ValueOfLowest1Bit_def)

section \<open>Fenwick trees\<close>

text \<open>
  Node \<open>i\<close> of the tree holds the sum of the weights at \<open>i - low i + 1, \<dots>, i\<close>.  The nodes that hold position \<open>p\<close> are
  those that are reached from \<open>p\<close> by adding lowest bits.
\<close>

definition covers :: "nat \<Rightarrow> nat \<Rightarrow> bool" where
  "covers i p \<longleftrightarrow> i - low i < p \<and> p \<le> i"

definition node :: "(nat \<Rightarrow> nat) \<Rightarrow> nat \<Rightarrow> nat" where
  "node A i = (\<Sum>j \<in> {i - low i <.. i}. A j)"

definition prefix_sum :: "(nat \<Rightarrow> nat) \<Rightarrow> nat \<Rightarrow> nat" where
  "prefix_sum A i = (\<Sum>j \<in> {0 <.. i}. A j)"

lemma covers_step:
  assumes "0 < p"
  shows "covers i p \<longleftrightarrow> i = p \<or> covers i (p + low p)"
proof (cases "i = 0")
  case True
  then show ?thesis using assms by (simp add: covers_def)
next
  case False
  then obtain k c where i: "i = 2 ^ k * (2 * c + 1)" and L: "low i = 2 ^ k" using low_power [of i] by auto
  obtain m d where p: "p = 2 ^ m * (2 * d + 1)" and M: "low p = 2 ^ m" using low_power [OF assms] by auto
  have q: "i - low i = 2 ^ k * (2 * c)" using i L by (simp add: distrib_left)
  have i': "i = 2 ^ k * (2 * c) + 2 ^ k" using i by (simp add: distrib_left)
  have p': "p = 2 ^ m * (2 * d) + 2 ^ m" using p by (simp add: distrib_left)
  show ?thesis
  proof (cases "m < k")
    case True
    then obtain e where e: "k = m + Suc e" using less_iff_Suc_add [of m k] by auto
    let ?E = "(2 :: nat) ^ Suc e"
    have k: "(2 :: nat) ^ k = 2 ^ m * ?E" unfolding e power_add ..
    have A: "covers i (2 ^ m * x) \<longleftrightarrow> ?E * (2 * c) < x \<and> x \<le> ?E * (2 * c) + ?E" for x
    proof -
      have "covers i (2 ^ m * x) \<longleftrightarrow> 2 ^ m * (?E * (2 * c)) < 2 ^ m * x \<and> 2 ^ m * x \<le> 2 ^ m * (?E * (2 * c) + ?E)"
        unfolding covers_def q unfolding i' unfolding k by (simp only: distrib_left mult.assoc)
      then show ?thesis by (simp only: mult_less_cancel1 mult_le_cancel1) simp
    qed
    have "covers i p \<longleftrightarrow> ?E * (2 * c) < 2 * d + 1 \<and> 2 * d + 1 \<le> ?E * (2 * c) + ?E"
      unfolding p by (rule A)
    moreover have "p + low p = 2 ^ m * (2 * d + 2)" unfolding M using p by (simp add: distrib_left)
    then have "covers i (p + low p) \<longleftrightarrow> ?E * (2 * c) < 2 * d + 2 \<and> 2 * d + 2 \<le> ?E * (2 * c) + ?E"
      by (simp only: A)
    moreover have "i = p \<longleftrightarrow> False"
    proof -
      have "low i \<noteq> low p" unfolding L M using True by simp
      then show ?thesis by auto
    qed
    moreover have "?E * (2 * c) = 2 * (?E * c)" "?E = 2 * 2 ^ e" by simp_all
    moreover have "2 * x < 2 * d + 1 \<and> 2 * d + 1 \<le> 2 * x + 2 * y \<longleftrightarrow> 2 * x < 2 * d + 2 \<and> 2 * d + 2 \<le> 2 * x + 2 * y" for x y :: nat
      by presburger
    ultimately show ?thesis by metis
  next
    case False
    then obtain e where e: "m = k + e" using le_iff_add [of k m] by auto
    let ?E = "(2 :: nat) ^ e"
    have m: "(2 :: nat) ^ m = 2 ^ k * ?E" unfolding e power_add ..
    have A: "covers i (2 ^ k * x) \<longleftrightarrow> x = 2 * c + 1" for x
    proof -
      have "covers i (2 ^ k * x) \<longleftrightarrow> 2 ^ k * (2 * c) < 2 ^ k * x \<and> 2 ^ k * x \<le> 2 ^ k * (2 * c + 1)"
        unfolding covers_def q unfolding i' by (simp only: distrib_left mult_1_right)
      also have "\<dots> \<longleftrightarrow> 2 * c < x \<and> x \<le> 2 * c + 1" by (simp only: mult_less_cancel1 mult_le_cancel1) simp
      finally show ?thesis by auto
    qed
    have pk: "p = 2 ^ k * (?E * (2 * d + 1))" unfolding p m by (simp only: mult.assoc)
    then have P: "covers i p \<longleftrightarrow> ?E * (2 * d + 1) = 2 * c + 1" using A by simp
    have "p + low p = 2 ^ m * (2 * d + 1) + 2 ^ m" unfolding M using p by simp
    then have "p + low p = 2 ^ k * (2 * (?E * (d + 1)))" unfolding m by (simp add: algebra_simps)
    then have "covers i (p + low p) \<longleftrightarrow> 2 * (?E * (d + 1)) = 2 * c + 1" using A by simp
    then have "\<not> covers i (p + low p)" by presburger
    moreover have "i = p \<longleftrightarrow> ?E * (2 * d + 1) = 2 * c + 1" unfolding i pk by (simp only: mult_cancel1) auto
    ultimately show ?thesis using P by simp
  qed
qed

lemma prefix_sum_node: "0 < i \<Longrightarrow> prefix_sum A i = prefix_sum A (i - low i) + node A i"
proof -
  assume "0 < i"
  have "{0 <.. i} = {0 <.. i - low i} \<union> {i - low i <.. i}" using low_le [of i] by auto
  then show ?thesis
    unfolding prefix_sum_def node_def by (subst sum.union_disjoint [symmetric]) auto
qed

lemma node_add: "node (A(p := A p + d)) i = node A i + (if covers i p then d else 0)"
proof -
  have "node (A(p := A p + d)) i = (\<Sum>j \<in> {i - low i <.. i}. A j + (if j = p then d else 0))"
    unfolding node_def by (rule sum.cong) auto
  also have "\<dots> = node A i + (if p \<in> {i - low i <.. i} then d else 0)"
    unfolding node_def sum.distrib by simp
  finally show ?thesis by (simp add: covers_def)
qed

text \<open>The update loops apply a change to every node that holds the position.\<close>

definition updated :: "nat \<Rightarrow> nat \<Rightarrow> (u32 \<Rightarrow> u32) \<Rightarrow> nat \<Rightarrow> u32 list \<Rightarrow> u32 list" where
  "updated off N f p temp = map (\<lambda>j. if j + off \<le> N \<and> covers (j + off) p then f (temp ! j) else temp ! j) [0..<length temp]"

lemma updated_beyond: "N < p \<Longrightarrow> updated off N f p temp = temp"
  by (rule nth_equalityI) (auto simp: updated_def covers_def)

lemma updated_step:
  assumes "0 < p" "p \<le> N" "off \<le> p" "p - off < length temp"
  shows "updated off N f (p + low p) (temp[p - off := f (temp ! (p - off))]) = updated off N f p temp"
proof -
  have "\<not> covers p (p + low p)" using low_pos [OF assms(1)] by (simp add: covers_def)
  moreover have "j + off = p \<longleftrightarrow> j = p - off" for j using assms(3) by auto
  ultimately show ?thesis
    using assms by (intro nth_equalityI) (auto simp: updated_def nth_list_update covers_step [OF assms(1)])
qed

lemma fenwick_add_updated:
  assumes "0 < unat i" "n < 2 ^ 31" "length temp = n + 1"
  shows "fenwick_add n i temp = Some (updated 0 n (\<lambda>x. x + 1) (unat i) temp)"
  using assms
proof (induction "n + 1 - unat i" arbitrary: i temp rule: less_induct)
  case less
  show ?case
  proof (cases "unat i < n + 1")
    case True
    have l: "0 < low (unat i)" "low (unat i) \<le> unat i" using low_pos low_le less.prems(1) by auto
    have u: "unat (i + ValueOfLowest1Bit i) = unat i + low (unat i)"
      using True l less.prems(2) by (subst unat_add_lem [THEN iffD1]) (auto simp: unat_ValueOfLowest1Bit)
    have "fenwick_add n (i + ValueOfLowest1Bit i) (temp[unat i := temp ! unat i + 1]) =
        Some (updated 0 n (\<lambda>x. x + 1) (unat i + low (unat i)) (temp[unat i := temp ! unat i + 1]))"
      using less.hyps [of "i + ValueOfLowest1Bit i" "temp[unat i := temp ! unat i + 1]"] less.prems True l u by simp
    also have "\<dots> = Some (updated 0 n (\<lambda>x. x + 1) (unat i) temp)"
      using updated_step [of "unat i" n 0 temp "\<lambda>x. x + 1"] True less.prems by simp
    finally show ?thesis using True by (subst fenwick_add.simps) simp
  next
    case False
    then show ?thesis by (subst fenwick_add.simps) (simp add: updated_beyond)
  qed
qed

lemma mark_used_updated:
  assumes "0 < p" "N < 2 ^ 63" "length temp = N"
  shows "mark_used N p temp = Some (updated 1 N (\<lambda>x. x - 1) p temp)"
  using assms
proof (induction "N + 1 - p" arbitrary: p temp rule: less_induct)
  case less
  show ?case
  proof (cases "p \<le> N")
    case True
    have l: "0 < low p" using low_pos less.prems(1) by auto
    have u: "unat (ValueOfLowest1Bit (of_nat p :: u64)) = low p"
      using True less.prems(2) by (simp add: unat_ValueOfLowest1Bit take_bit_nat_eq_self unat_of_nat)
    have "mark_used N (p + low p) (temp[p - 1 := temp ! (p - 1) - 1]) =
        Some (updated 1 N (\<lambda>x. x - 1) (p + low p) (temp[p - 1 := temp ! (p - 1) - 1]))"
      using less.hyps [of "p + low p" "temp[p - 1 := temp ! (p - 1) - 1]"] less.prems True l by simp
    also have "\<dots> = Some (updated 1 N (\<lambda>x. x - 1) p temp)"
      using updated_step [of p N 1 temp "\<lambda>x. x - 1"] True less.prems by simp
    finally show ?thesis using True u by (subst mark_used.simps) simp
  next
    case False
    then show ?thesis by (subst mark_used.simps) (simp add: updated_beyond)
  qed
qed

section \<open>Correctness\<close>

text \<open>
  The reference: a Lehmer code lists, for every element, its place among the elements that are still free.
\<close>

fun place_of :: "nat \<Rightarrow> nat list \<Rightarrow> nat" where
  "place_of s us = length (takeWhile (\<lambda>u. u \<noteq> s) us)"

fun lehmer_code :: "nat list \<Rightarrow> nat list \<Rightarrow> nat list" where
  "lehmer_code us [] = []"
| "lehmer_code us (s # ss) = place_of s us # lehmer_code (remove1 s us) ss"

fun lehmer_permutation :: "nat list \<Rightarrow> nat list \<Rightarrow> nat list" where
  "lehmer_permutation us [] = []"
| "lehmer_permutation us (c # cs) = us ! c # lehmer_permutation (remove1 (us ! c) us) cs"

definition weight :: "nat set \<Rightarrow> nat \<Rightarrow> nat" where
  "weight U j = (if 0 < j \<and> j - 1 \<in> U then 1 else 0)"

definition represents :: "nat \<Rightarrow> nat \<Rightarrow> (nat \<Rightarrow> nat) \<Rightarrow> u32 list \<Rightarrow> bool" where
  "represents off N A temp \<longleftrightarrow> length temp + off = N + 1 \<and> (\<forall>i. 0 < i \<longrightarrow> i \<le> N \<longrightarrow> temp ! (i - off) = of_nat (node A i))"

lemma node_weight: "node (weight U) i = card {s \<in> U. i - low i \<le> s \<and> s < i}"
proof -
  have "{s \<in> U. i - low i \<le> s \<and> s < i} = (\<lambda>j. j - 1) ` ({i - low i <.. i} \<inter> {j. j - 1 \<in> U})" (is "_ = ?f ` ?S")
  proof (intro set_eqI iffI)
    fix s assume "s \<in> {s \<in> U. i - low i \<le> s \<and> s < i}"
    then show "s \<in> ?f ` ?S" by (intro image_eqI [of _ _ "Suc s"]) auto
  qed auto
  moreover have "inj_on ?f ?S" by (auto simp: inj_on_def)
  ultimately have "card {s \<in> U. i - low i \<le> s \<and> s < i} = card ?S" by (simp add: card_image)
  then show ?thesis by (simp add: node_def weight_def [abs_def] sum.If_cases del: One_nat_def)
qed

lemma prefix_sum_weight: "prefix_sum (weight U) i = card {s \<in> U. s < i}"
proof (induction i rule: less_induct)
  case (less i)
  show ?case
  proof (cases "i = 0")
    case True
    then show ?thesis by (simp add: prefix_sum_def)
  next
    case False
    then have i: "0 < i" "i - low i < i" using low_pos by auto
    have "{s \<in> U. s < i} = {s \<in> U. s < i - low i} \<union> {s \<in> U. i - low i \<le> s \<and> s < i}" using i by auto
    then have "card {s \<in> U. s < i} = card {s \<in> U. s < i - low i} + card {s \<in> U. i - low i \<le> s \<and> s < i}"
      by (simp add: card_Un_disjoint disjoint_iff)
    then show ?thesis using less.IH [OF i(2)] prefix_sum_node [OF i(1), of "weight U"] node_weight by simp
  qed
qed

lemma weight_insert: "s \<notin> U \<Longrightarrow> weight (insert s U) = (weight U)(Suc s := weight U (Suc s) + 1)"
  by (auto simp: weight_def fun_eq_iff)

lemma node_Suc: "node (A(p := Suc (A p))) i = node A i + (if covers i p then 1 else 0)"
  using node_add [of A p 1] by simp

lemma represents_add:
  assumes "represents off N A temp" "off \<le> 1"
  shows "represents off N (A(p := A p + 1)) (updated off N (\<lambda>x. x + 1) p temp)"
  using assms by (auto simp: represents_def updated_def node_Suc covers_def)

lemma represents_sub:
  assumes "represents off N (A(p := A p + 1)) temp" "off \<le> 1"
  shows "represents off N A (updated off N (\<lambda>x. x - 1) p temp)"
  using assms by (auto simp: represents_def updated_def node_Suc covers_def)

lemma penalty_sum_prefix:
  assumes "represents 0 N A temp" "unat i \<le> N"
  shows "penalty_sum temp i penalty = penalty + of_nat (prefix_sum A (unat i))"
  using assms
proof (induction temp i penalty rule: penalty_sum.induct)
  case (1 t i penalty)
  show ?case
  proof (cases "i = 0")
    case True
    then show ?thesis by (simp add: penalty_sum.simps [of t] prefix_sum_def)
  next
    case False
    then have i: "0 < unat i" by (simp add: unat_gt_0)
    then have "t ! unat i = of_nat (node A (unat i))" using "1.prems" by (simp add: represents_def)
    moreover have "unat (i AND (i - 1)) = unat i - low (unat i)" by (rule unat_clear_lowest [OF False])
    ultimately show ?thesis
      using "1.IH" [OF False] "1.prems" False i by (simp add: penalty_sum.simps [of t i] prefix_sum_node [OF i] del: of_nat_sum)
  qed
qed

lemma nth_filter_upt: "x < N \<Longrightarrow> Q x \<Longrightarrow> filter Q [0..<N] ! card {u. u < x \<and> Q u} = x"
proof -
  assume x: "x < N" "Q x"
  then have "[0..<N] = [0..<x] @ x # [Suc x..<N]" by (metis less_imp_add_positive upt_add_eq_append upt_conv_Cons zero_less_iff_neq_zero le0 add_0 less_imp_le_nat)
  moreover have "length (filter Q [0..<x]) = card {u. u < x \<and> Q u}"
    by (simp add: length_filter_conv_card) (metis (no_types, lifting) add_0 nth_upt)
  ultimately show ?thesis using x by (simp add: nth_append)
qed

lemma place_of_filter:
  assumes "s < n" "Q s"
  shows "place_of s (filter Q [0..<n]) = card {u. u < s \<and> Q u}" "card {u. u < s \<and> Q u} < length (filter Q [0..<n])"
proof -
  have "[0..<n] = [0..<s] @ s # [Suc s..<n]" using assms(1)
    by (metis less_imp_add_positive upt_add_eq_append upt_conv_Cons zero_less_iff_neq_zero le0 add_0 less_imp_le_nat)
  moreover have "length (filter Q [0..<s]) = card {u. u < s \<and> Q u}"
    by (simp add: length_filter_conv_card) (metis (no_types, lifting) add_0 nth_upt)
  moreover have "takeWhile (\<lambda>u. u \<noteq> s) (filter Q [0..<s] @ s # xs) = filter Q [0..<s]" for xs
    by (simp add: takeWhile_append)
  ultimately show "place_of s (filter Q [0..<n]) = card {u. u < s \<and> Q u}" "card {u. u < s \<and> Q u} < length (filter Q [0..<n])"
    using assms(2) by simp_all
qed

lemma remove1_filter_upt: "remove1 s (filter Q [0..<n]) = filter (\<lambda>u. Q u \<and> u \<noteq> s) [0..<n]"
  by (auto simp: distinct_remove1_removeAll removeAll_filter_not_eq intro: filter_cong)

lemma free_below: "finite U \<Longrightarrow> card {u. u < s \<and> u \<notin> U} + card {u \<in> U. u < s} = s"
proof -
  have "{u. u < s \<and> u \<notin> U} \<union> {u \<in> U. u < s} = {..<s}" by auto
  moreover have "card ({u. u < s \<and> u \<notin> U} \<union> {u \<in> U. u < s}) = card {u. u < s \<and> u \<notin> U} + card {u \<in> U. u < s}"
    by (rule card_Un_disjoint) auto
  ultimately show ?thesis by simp
qed

lemma lehmer_loop_correct:
  assumes "represents 0 n (weight U) temp" "n < 2 ^ 31" "distinct ss" "set ss \<subseteq> {..<n}" "set ss \<inter> U = {}" "finite U"
  shows "lehmer_loop n temp (map of_nat ss) = Some (Inr (map of_nat (lehmer_code (filter (\<lambda>u. u \<notin> U) [0..<n]) ss)))"
  using assms
proof (induction ss arbitrary: U temp)
  case (Cons s ss)
  then have s: "s < n" "s \<notin> U" by auto
  let ?c = "card {u \<in> U. u < s}"
  have u: "unat (of_nat s + 1 :: u32) = Suc s" using s Cons.prems(2) by (simp add: unat_add_id unat_of_nat_id)
  have "{u \<in> U. u < Suc s} = {u \<in> U. u < s}" using s(2) by (auto simp: less_Suc_eq)
  then have pen: "penalty_sum temp (of_nat s + 1) 0 = of_nat ?c"
    using penalty_sum_prefix [OF Cons.prems(1), of "of_nat s + 1" 0] s u by (simp add: prefix_sum_weight)
  have c: "card {u. u < s \<and> u \<notin> U} = s - ?c" "?c \<le> s" using free_below [OF Cons.prems(6), of s] by linarith+
  have le: "of_nat ?c \<le> (of_nat s :: u32)"
    using c(2) s Cons.prems(2) by (simp add: word_le_nat_alt unat_of_nat_id)
  have place: "place_of s (filter (\<lambda>u. u \<notin> U) [0..<n]) = s - ?c" using place_of_filter(1) [of s n] s c(1) by simp
  have add: "fenwick_add n (of_nat s + 1) temp = Some (updated 0 n (\<lambda>x. x + 1) (Suc s) temp)"
    using fenwick_add_updated [of "of_nat s + 1" n temp] u Cons.prems(1,2) by (simp add: represents_def)
  have "represents 0 n (weight (insert s U)) (updated 0 n (\<lambda>x. x + 1) (Suc s) temp)"
    unfolding weight_insert [OF s(2)] using Cons.prems(1) by (intro represents_add) auto
  then have "lehmer_loop n (updated 0 n (\<lambda>x. x + 1) (Suc s) temp) (map of_nat ss) =
      Some (Inr (map of_nat (lehmer_code (filter (\<lambda>u. u \<notin> insert s U) [0..<n]) ss)))"
    using Cons.prems by (intro Cons.IH) auto
  moreover have "filter (\<lambda>u. u \<notin> insert s U) [0..<n] = remove1 s (filter (\<lambda>u. u \<notin> U) [0..<n])"
    unfolding remove1_filter_upt by (rule filter_cong) auto
  moreover have "(of_nat s - of_nat ?c :: u32) = of_nat (s - ?c)" using c(2) by (simp add: of_nat_diff)
  ultimately show ?case using le by (simp add: pen add place Let_def del: place_of.simps)
qed simp

lemma represents_start: "represents 0 n (weight {}) (replicate (n + 1) 0)"
  by (simp add: represents_def node_weight nth_replicate less_Suc_eq_le del: replicate_Suc)

lemma ComputeLehmerCode_code:
  assumes "length p < 2 ^ 31" "distinct p" "set p \<subseteq> {..<length p}"
  shows "ComputeLehmerCode (map of_nat p) = Some (Inr (map of_nat (lehmer_code [0..<length p] p)))"
  using lehmer_loop_correct [OF represents_start assms(1,2)] assms(3) by (simp add: ComputeLehmerCode_def Let_def)

text \<open>Decoding: the search ends at the free element that has \<open>rank - 1\<close> free elements below it.\<close>

lemma find_rank_correct:
  assumes "represents 1 N (weight F) temp" "N < 2 ^ 32" "2 ^ k dvd next" "next + 2 ^ k \<le> N"
    and "1 \<le> unat rank" "unat rank \<le> card {s \<in> F. next \<le> s \<and> s < next + 2 ^ k}" "finite F"
  shows "\<exists>x. find_rank temp k (2 ^ k div 2) next rank = Inr x \<and> x \<in> F \<and> next \<le> x \<and> x < next + 2 ^ k \<and>
    card {s \<in> F. next \<le> s \<and> s < x} + 1 = unat rank"
  using assms(3-6)
proof (induction k arbitrary: "next" rank)
  case 0
  have "next \<le> s \<and> s < next + 2 ^ 0 \<longleftrightarrow> s = next" for s by auto
  then have "{s \<in> F. next \<le> s \<and> s < next + 2 ^ 0} = (if next \<in> F then {next} else {})" by auto
  then show ?case using 0 by (auto split: if_splits)
next
  case (Suc k)
  let ?cand = "next + 2 ^ k"
  let ?c = "card {s \<in> F. next \<le> s \<and> s < ?cand}"
  have low: "low ?cand = 2 ^ k"
  proof -
    obtain m where "next = 2 ^ Suc k * m" using Suc.prems(1) by blast
    then have "?cand = 2 ^ k * (2 * m + 1)" by simp
    then show ?thesis by (simp only: low_mult)
  qed
  have pos: "0 < ?cand" "?cand \<le> N" using Suc.prems(2) by simp_all
  then have "temp ! (?cand - 1) = of_nat (node (weight F) ?cand)"
    using assms(1) [unfolded represents_def, THEN conjunct2, THEN spec, of ?cand] by simp
  also have "node (weight F) ?cand = ?c" unfolding node_weight low by simp
  finally have t: "temp ! (?cand - 1) = of_nat ?c" .
  have "?c \<le> card {next..<?cand}" by (rule card_mono) auto
  then have c: "?c < 2 ^ 32" using pos assms(2) by simp
  have u: "unat (of_nat ?c :: u32) = ?c" using c by (simp add: unat_of_nat_id)
  have split: "card {s \<in> F. next \<le> s \<and> s < next + 2 ^ Suc k} = ?c + card {s \<in> F. ?cand \<le> s \<and> s < ?cand + 2 ^ k}"
  proof -
    have "{s \<in> F. next \<le> s \<and> s < next + 2 ^ Suc k} = {s \<in> F. next \<le> s \<and> s < ?cand} \<union> {s \<in> F. ?cand \<le> s \<and> s < ?cand + 2 ^ k}"
      by auto
    then show ?thesis using assms(7) by (simp add: card_Un_disjoint disjoint_iff)
  qed
  have dvd: "2 ^ k dvd next" using dvd_trans [OF le_imp_power_dvd Suc.prems(1), of k] by simp
  then have dvd': "2 ^ k dvd ?cand" by simp
  show ?case
  proof (cases "of_nat ?c < rank")
    case True
    then have lt: "?c < unat rank" using u by (simp add: word_less_nat_alt)
    have r: "unat (rank - of_nat ?c) = unat rank - ?c" using True u by (simp add: unat_sub word_le_nat_alt word_less_nat_alt)
    have r1: "1 \<le> unat (rank - of_nat ?c)" using lt unfolding r by simp
    have r2: "unat (rank - of_nat ?c) \<le> card {s \<in> F. ?cand \<le> s \<and> s < ?cand + 2 ^ k}"
      using Suc.prems(4) split unfolding r by linarith
    have n: "?cand + 2 ^ k \<le> N" using Suc.prems(2) by simp
    obtain x where x: "find_rank temp k (2 ^ k div 2) ?cand (rank - of_nat ?c) = Inr x" "x \<in> F" "?cand \<le> x" "x < ?cand + 2 ^ k"
      "card {s \<in> F. ?cand \<le> s \<and> s < x} + 1 = unat (rank - of_nat ?c)"
      using Suc.IH [OF dvd' n r1 r2] by blast
    have "{s \<in> F. next \<le> s \<and> s < x} = {s \<in> F. next \<le> s \<and> s < ?cand} \<union> {s \<in> F. ?cand \<le> s \<and> s < x}"
      using x(3) by auto
    then have "card {s \<in> F. next \<le> s \<and> s < x} = ?c + card {s \<in> F. ?cand \<le> s \<and> s < x}"
      using assms(7) by (simp add: card_Un_disjoint disjoint_iff)
    then have "card {s \<in> F. next \<le> s \<and> s < x} + 1 = unat rank" using x(5) lt unfolding r by linarith
    then show ?thesis using x(1-4) True t pos(1) by (intro exI [of _ x]) (simp add: Let_def)
  next
    case False
    then have le: "unat rank \<le> ?c" using u by (simp add: word_less_nat_alt)
    have n: "next + 2 ^ k \<le> N" using Suc.prems(2) by simp
    obtain x where "find_rank temp k (2 ^ k div 2) next rank = Inr x" "x \<in> F" "next \<le> x" "x < ?cand"
      "card {s \<in> F. next \<le> s \<and> s < x} + 1 = unat rank"
      using Suc.IH [OF dvd n Suc.prems(3) le] by blast
    then show ?thesis using False t pos(1) by (intro exI [of _ x]) (simp add: Let_def)
  qed
qed

lemma find_rank_free:
  assumes "represents 1 (2 ^ l) (weight F) temp" "l < 32" "F \<subseteq> {..<2 ^ l}" "1 \<le> unat rank" "unat rank \<le> card F"
  shows "\<exists>x. find_rank temp (l + 1) (2 ^ l) 0 rank = Inr x \<and> x \<in> F \<and> card {s \<in> F. s < x} + 1 = unat rank"
proof -
  have N: "(2 :: nat) ^ l < 2 ^ 32" using assms(2) by (intro power_strict_increasing) simp_all
  have fin: "finite F" using assms(3) finite_subset by blast
  have F: "{s \<in> F. 0 \<le> s \<and> s < 0 + 2 ^ l} = F" using assms(3) by auto
  have "low (2 ^ l) = 2 ^ l" using low_mult [of l 0] by simp
  then have "node (weight F) (2 ^ l) = card F" unfolding node_weight using F by simp
  moreover have "temp ! (2 ^ l - 1) = of_nat (node (weight F) (2 ^ l))" using assms(1) by (simp add: represents_def)
  moreover have "card F \<le> 2 ^ l" using card_mono [OF _ assms(3)] by simp
  then have "unat (of_nat (card F) :: u32) = card F" using N by (simp add: unat_of_nat_id)
  ultimately have "\<not> temp ! (2 ^ l - 1) < rank" using assms(5) by (simp add: word_less_nat_alt)
  then have "find_rank temp (l + 1) (2 ^ l) 0 rank = find_rank temp l (2 ^ l div 2) 0 rank" by (simp add: Let_def)
  then show ?thesis
    using find_rank_correct [OF assms(1) N, of l 0 rank] assms(4,5) fin unfolding F by auto
qed

lemma weight_remove: "s \<in> F \<Longrightarrow> weight F = (weight (F - {s}))(Suc s := weight (F - {s}) (Suc s) + 1)"
  by (auto simp: weight_def fun_eq_iff)

text \<open>One round: the element that is taken, and the tree of the elements that stay.\<close>

definition free_tree :: "nat \<Rightarrow> nat \<Rightarrow> nat \<Rightarrow> (nat \<Rightarrow> bool) \<Rightarrow> u32 list \<Rightarrow> bool" where
  "free_tree n l i Q temp \<longleftrightarrow> represents 1 (2 ^ l) (weight {u. Q u \<and> u < 2 ^ l}) temp \<and> l < 32 \<and> n \<le> 2 ^ l \<and>
     (\<forall>u. n \<le> u \<longrightarrow> Q u) \<and> length (filter Q [0..<n]) + i = n"

lemma decode_step:
  assumes "free_tree n l i Q temp" "c + i < n"
  shows "unat (of_nat c :: u32) = c"
    and "\<exists>x temp'. find_rank temp (l + 1) (2 ^ l) 0 (of_nat c + 1) = Inr x \<and> mark_used (2 ^ l) (x + 1) temp = Some temp' \<and>
      filter Q [0..<n] ! c = x \<and> free_tree n l (i + 1) (\<lambda>u. Q u \<and> u \<noteq> x) temp' \<and>
      remove1 x (filter Q [0..<n]) = filter (\<lambda>u. Q u \<and> u \<noteq> x) [0..<n]"
proof -
  have R: "represents 1 (2 ^ l) (weight {u. Q u \<and> u < 2 ^ l}) temp" and l: "l < 32" "n \<le> 2 ^ l"
    and Q: "\<And>u. n \<le> u \<Longrightarrow> Q u" and L: "length (filter Q [0..<n]) + i = n" using assms(1) by (auto simp: free_tree_def)
  let ?F = "{u. Q u \<and> u < 2 ^ l}" and ?us = "filter Q [0..<n]"
  have N: "(2 :: nat) ^ l < 2 ^ 32" using l(1) by (intro power_strict_increasing) simp_all
  have c: "c + i < n" by (rule assms(2))
  have u: "unat (of_nat c :: u32) = c" "unat (of_nat c + 1 :: u32) = Suc c"
    using c N l(2) by (simp_all add: unat_add_id unat_of_nat_id)
  have cl: "c < length ?us" using c L by linarith
  have "set ?us \<subseteq> ?F" using l(2) by auto
  then have "card (set ?us) \<le> card ?F" by (intro card_mono) simp_all
  moreover have d: "card (set ?us) = length ?us" by (rule distinct_card) simp
  ultimately have "length ?us \<le> card ?F" by linarith
  then have "unat (of_nat c + 1 :: u32) \<le> card ?F" using cl u by linarith
  then obtain x where x: "find_rank temp (l + 1) (2 ^ l) 0 (of_nat c + 1) = Inr x" "x \<in> ?F" "card {s \<in> ?F. s < x} + 1 = Suc c"
    using find_rank_free [OF R l(1), of "of_nat c + 1"] u by auto
  have Fx: "{s \<in> ?F. s < x} = {u. u < x \<and> Q u}" using x(2) by auto
  then have cx: "card {u. u < x \<and> Q u} = c" using x(3) by simp
  have xn: "x < n"
  proof (rule ccontr)
    assume "\<not> x < n"
    then have "set ?us \<subseteq> {u. u < x \<and> Q u}" by auto
    then have "card (set ?us) \<le> card {u. u < x \<and> Q u}" by (intro card_mono) simp_all
    with cl cx d show False by linarith
  qed
  have us: "?us ! c = x" using nth_filter_upt [of x n Q] xn x(2) cx by simp
  have W: "weight ?F = (weight (?F - {x}))(Suc x := weight (?F - {x}) (Suc x) + 1)" by (rule weight_remove [OF x(2)])
  have m: "mark_used (2 ^ l) (x + 1) temp = Some (updated 1 (2 ^ l) (\<lambda>x. x - 1) (x + 1) temp)"
    using R N by (intro mark_used_updated) (simp_all add: represents_def)
  have Fe: "?F - {x} = {u. (Q u \<and> u \<noteq> x) \<and> u < 2 ^ l}" by auto
  have r: "represents 1 (2 ^ l) (weight {u. (Q u \<and> u \<noteq> x) \<and> u < 2 ^ l}) (updated 1 (2 ^ l) (\<lambda>x. x - 1) (x + 1) temp)"
  proof -
    have "represents 1 (2 ^ l) ((weight (?F - {x}))(Suc x := weight (?F - {x}) (Suc x) + 1)) temp"
      using R by (subst (asm) W)
    from represents_sub [OF this] show ?thesis unfolding Fe by simp
  qed
  have rm: "remove1 x ?us = filter (\<lambda>u. Q u \<and> u \<noteq> x) [0..<n]" by (rule remove1_filter_upt)
  have "x \<in> set ?us" using xn x(2) by simp
  then have len: "length (filter (\<lambda>u. Q u \<and> u \<noteq> x) [0..<n]) + (i + 1) = n"
    using L cl unfolding rm [symmetric] by (simp add: length_remove1)
  show "unat (of_nat c :: u32) = c" by (rule u(1))
  have "free_tree n l (i + 1) (\<lambda>u. Q u \<and> u \<noteq> x) (updated 1 (2 ^ l) (\<lambda>x. x - 1) (x + 1) temp)"
    using r l Q xn len by (auto simp: free_tree_def)
  then show "\<exists>x temp'. find_rank temp (l + 1) (2 ^ l) 0 (of_nat c + 1) = Inr x \<and> mark_used (2 ^ l) (x + 1) temp = Some temp' \<and>
      filter Q [0..<n] ! c = x \<and> free_tree n l (i + 1) (\<lambda>u. Q u \<and> u \<noteq> x) temp' \<and>
      remove1 x (filter Q [0..<n]) = filter (\<lambda>u. Q u \<and> u \<noteq> x) [0..<n]"
    using x(1) m us rm by blast
qed

lemma decode_loop_correct:
  assumes "free_tree n l i Q temp" "\<forall>c \<in> set code. c < 2 ^ 32"
  shows "decode_loop n l i temp (map of_nat code) =
     Some (if \<forall>j < length code. code ! j + (i + j) < n
           then Inr (map of_nat (lehmer_permutation (filter Q [0..<n]) code)) else Inl kGenericError)"
  using assms
proof (induction code arbitrary: i Q temp)
  case (Cons c code)
  have all: "(\<forall>j < length (c # code). (c # code) ! j + (i + j) < n) \<longleftrightarrow>
      c + i < n \<and> (\<forall>j < length code. code ! j + (i + 1 + j) < n)"
    by (simp add: All_less_Suc2)
  show ?case
  proof (cases "c + i < n")
    case True
    obtain x temp' where x: "find_rank temp (l + 1) (2 ^ l) 0 (of_nat c + 1) = Inr x" "mark_used (2 ^ l) (x + 1) temp = Some temp'"
      "filter Q [0..<n] ! c = x" "free_tree n l (i + 1) (\<lambda>u. Q u \<and> u \<noteq> x) temp'"
      "remove1 x (filter Q [0..<n]) = filter (\<lambda>u. Q u \<and> u \<noteq> x) [0..<n]"
      using decode_step(2) [OF Cons.prems(1) True] by blast
    have IH: "decode_loop n l (i + 1) temp' (map of_nat code) =
      Some (if \<forall>j < length code. code ! j + (i + 1 + j) < n
            then Inr (map of_nat (lehmer_permutation (filter (\<lambda>u. Q u \<and> u \<noteq> x) [0..<n]) code)) else Inl kGenericError)"
      using Cons.prems(2) by (intro Cons.IH [OF x(4)]) simp
    have "decode_loop n l i temp (map of_nat (c # code)) =
      Some (if \<forall>j < length code. code ! j + (i + 1 + j) < n
            then Inr (of_nat x # map of_nat (lehmer_permutation (filter (\<lambda>u. Q u \<and> u \<noteq> x) [0..<n]) code)) else Inl kGenericError)"
      using True decode_step(1) [OF Cons.prems(1) True] x(1,2) IH by simp
    then show ?thesis unfolding all using True x(3,5) by simp
  next
    case False
    then show ?thesis unfolding all using Cons.prems(2) by (simp add: unat_of_nat_id)
  qed
qed simp

lemma DecodeLehmerCode_code:
  assumes "0 < length code" "length code < 2 ^ 31" "\<forall>c \<in> set code. c < 2 ^ 32"
  shows "DecodeLehmerCode (map of_nat code) =
    Some (if \<forall>j < length code. code ! j + j < length code
          then Inr (map of_nat (lehmer_permutation [0..<length code] code)) else Inl kGenericError)"
proof -
  let ?n = "length code" and ?l = "CeilLog2Nonzero (length code)"
  have l: "?l < 32" "?n \<le> 2 ^ ?l"
    using CeilLog2Nonzero_bounds [OF assms(1)] FloorLog2Nonzero_less [OF assms(1,2)] by linarith+
  have N: "(2 :: nat) ^ ?l < 2 ^ 32" using l(1) by (intro power_strict_increasing) simp_all
  let ?temp = "map (\<lambda>i. ValueOfLowest1Bit (of_nat (i + 1) :: i32)) [0..<2 ^ ?l]"
  have "?temp ! (i - 1) = of_nat (node (weight {u. True \<and> u < 2 ^ ?l}) i)" if i: "0 < i" "i \<le> 2 ^ ?l" for i
  proof -
    have "{s \<in> {u. True \<and> u < 2 ^ ?l}. i - low i \<le> s \<and> s < i} = {i - low i..<i}" using i by auto
    then have "node (weight {u. True \<and> u < 2 ^ ?l}) i = low i" unfolding node_weight using low_le [of i] by simp
    moreover have "unat (ValueOfLowest1Bit (of_nat i :: i32)) = low i"
      using i N by (simp add: unat_ValueOfLowest1Bit unat_of_nat_id)
    then have "ValueOfLowest1Bit (of_nat i :: i32) = of_nat (low i)"
      using i N low_le [of i] by (simp add: word_unat_eq_iff unat_of_nat_id)
    moreover have "[0..<2 ^ ?l] ! (i - 1) + 1 = i" using i by (subst nth_upt) linarith+
    ultimately show ?thesis using i by (subst nth_map) (simp_all del: of_nat_Suc)
  qed
  then have "represents 1 (2 ^ ?l) (weight {u. True \<and> u < 2 ^ ?l}) ?temp" by (simp add: represents_def)
  then have "free_tree ?n ?l 0 (\<lambda>_. True) ?temp" using l by (simp add: free_tree_def)
  from decode_loop_correct [OF this assms(3)]
  have "decode_loop ?n ?l 0 ?temp (map of_nat code) =
    Some (if \<forall>j < ?n. code ! j + j < ?n then Inr (map of_nat (lehmer_permutation [0..<?n] code)) else Inl kGenericError)"
    by simp
  then show ?thesis using assms(1) by (simp add: DecodeLehmerCode_def Let_def)
qed

text \<open>The reference codes invert each other.\<close>

lemma place_of_nth: "s \<in> set us \<Longrightarrow> us ! place_of s us = s \<and> place_of s us < length us"
proof -
  assume "s \<in> set us"
  then obtain ys zs where "us = ys @ s # zs" "s \<notin> set ys" by (metis split_list_first)
  moreover have "takeWhile (\<lambda>u. u \<noteq> s) (ys @ s # zs) = ys" if "s \<notin> set ys" for ys zs
    using that by (induction ys) auto
  ultimately show ?thesis by simp
qed

lemma place_of_at: "distinct us \<Longrightarrow> c < length us \<Longrightarrow> place_of (us ! c) us = c"
proof -
  assume d: "distinct us" "c < length us"
  then have "us ! place_of (us ! c) us = us ! c" "place_of (us ! c) us < length us" using place_of_nth by auto
  then show ?thesis using d nth_eq_iff_index_eq by blast
qed

lemma subset_remove1: "set ss \<subseteq> set us \<Longrightarrow> s \<notin> set ss \<Longrightarrow> set ss \<subseteq> set (remove1 s us)"
proof
  fix x assume "set ss \<subseteq> set us" "s \<notin> set ss" "x \<in> set ss"
  then have "x \<noteq> s" "x \<in> set us" by auto
  then show "x \<in> set (remove1 s us)" by simp
qed

lemma lehmer_code_permutation:
  assumes "distinct ss" "set ss \<subseteq> set us"
  shows "lehmer_permutation us (lehmer_code us ss) = ss"
  using assms
proof (induction ss arbitrary: us)
  case (Cons s ss)
  then have "set ss \<subseteq> set (remove1 s us)" by (intro subset_remove1) auto
  then show ?case using Cons place_of_nth [of s us] by (simp del: place_of.simps)
qed simp

lemma length_lehmer_code [simp]: "length (lehmer_code us ss) = length ss"
  by (induction ss arbitrary: us) simp_all

lemma lehmer_code_bounds:
  "distinct ss \<Longrightarrow> set ss \<subseteq> set us \<Longrightarrow> j < length ss \<Longrightarrow> lehmer_code us ss ! j + j < length us"
proof (induction ss arbitrary: us j)
  case (Cons s ss)
  then have s: "s \<in> set us" "set ss \<subseteq> set (remove1 s us)" using subset_remove1 [of ss us s] by auto
  show ?case
  proof (cases j)
    case 0
    then show ?thesis using place_of_nth [OF s(1)] by (simp del: place_of.simps)
  next
    case (Suc i)
    have "lehmer_code (remove1 s us) ss ! i + i < length (remove1 s us)" using Cons s Suc by (intro Cons.IH) auto
    then show ?thesis using Suc s(1) by (simp add: length_remove1 del: place_of.simps split: if_splits)
  qed
qed simp

text \<open>What a valid code decodes to is a list of different free elements, and its code is the code.\<close>

lemma lehmer_permutation_props:
  assumes "distinct us" "\<forall>j < length cs. cs ! j + j < length us"
  shows "distinct (lehmer_permutation us cs)" "set (lehmer_permutation us cs) \<subseteq> set us"
    "length (lehmer_permutation us cs) = length cs" "lehmer_code us (lehmer_permutation us cs) = cs"
proof -
  have "distinct (lehmer_permutation us cs) \<and> set (lehmer_permutation us cs) \<subseteq> set us \<and>
    length (lehmer_permutation us cs) = length cs \<and> lehmer_code us (lehmer_permutation us cs) = cs"
    using assms
  proof (induction cs arbitrary: us)
    case (Cons c cs)
    have c: "c < length us" using Cons.prems(2) by (metis add_0_right length_greater_0_conv list.discI nth_Cons_0)
    let ?us = "remove1 (us ! c) us"
    have len: "length ?us + 1 = length us" using c by (simp add: length_remove1)
    have "cs ! j + j < length ?us" if "j < length cs" for j
    proof -
      have "(c # cs) ! Suc j + Suc j < length us" using that Cons.prems(2) by (metis Suc_less_eq length_Cons)
      then show ?thesis using len by simp
    qed
    then have IH: "distinct (lehmer_permutation ?us cs) \<and> set (lehmer_permutation ?us cs) \<subseteq> set ?us \<and>
        length (lehmer_permutation ?us cs) = length cs \<and> lehmer_code ?us (lehmer_permutation ?us cs) = cs"
      using Cons.prems(1) by (intro Cons.IH) auto
    moreover have "us ! c \<in> set us" using c by simp
    moreover have "set ?us = set us - {us ! c}" using Cons.prems(1) by simp
    ultimately show ?case using place_of_at [OF Cons.prems(1) c] by (auto simp del: place_of.simps)
  qed simp
  then show "distinct (lehmer_permutation us cs)" "set (lehmer_permutation us cs) \<subseteq> set us"
    "length (lehmer_permutation us cs) = length cs" "lehmer_code us (lehmer_permutation us cs) = cs" by auto
qed

lemma lehmer_permutation_permutes:
  assumes "\<forall>j < length cs. cs ! j + j < length cs"
  shows "distinct (lehmer_permutation [0..<length cs] cs)" "set (lehmer_permutation [0..<length cs] cs) = {..<length cs}"
proof -
  note P = lehmer_permutation_props [of "[0..<length cs]" cs]
  show d: "distinct (lehmer_permutation [0..<length cs] cs)" using P(1) assms by simp
  have "card (set (lehmer_permutation [0..<length cs] cs)) = length cs" using distinct_card [OF d] P(3) assms by simp
  moreover have "set (lehmer_permutation [0..<length cs] cs) \<subseteq> {..<length cs}" using P(2) assms by auto
  ultimately show "set (lehmer_permutation [0..<length cs] cs) = {..<length cs}"
    by (intro card_subset_eq) auto
qed

lemma place_of_sorted:
  assumes "sorted us" "distinct us" "s \<in> set us"
  shows "place_of s us = card {u \<in> set us. u < s}"
proof -
  obtain ys zs where us: "us = ys @ s # zs" "s \<notin> set ys" using assms(3) by (metis split_list_first)
  have "takeWhile (\<lambda>u. u \<noteq> s) (ys @ s # zs) = ys" using us(2) by (induction ys) auto
  then have p: "place_of s us = length ys" by (simp add: us(1))
  have "\<forall>y \<in> set ys. y \<le> s" "\<forall>z \<in> set zs. s \<le> z" using assms(1) us(1) by (auto simp: sorted_append)
  moreover have "\<forall>y \<in> set ys. y \<noteq> s" using us(2) by auto
  ultimately have "{u \<in> set us. u < s} = set ys" unfolding us(1) by fastforce
  then show ?thesis using p assms(2) us(1) by (simp add: distinct_card del: place_of.simps)
qed

lemma lehmer_code_inversions:
  assumes "sorted us" "distinct us" "distinct ss" "set us = set ss" "i < length ss"
  shows "lehmer_code us ss ! i = card {u \<in> set (drop (Suc i) ss). u < ss ! i}"
  using assms
proof (induction ss arbitrary: us i)
  case (Cons s ss)
  show ?case
  proof (cases i)
    case 0
    have "place_of s us = card {u \<in> set us. u < s}" using Cons.prems by (intro place_of_sorted) auto
    also have "{u \<in> set us. u < s} = {u \<in> set ss. u < s}" using Cons.prems(4) by auto
    finally show ?thesis using 0 by (simp del: place_of.simps)
  next
    case (Suc j)
    have "lehmer_code (remove1 s us) ss ! j = card {u \<in> set (drop (Suc j) ss). u < ss ! j}"
      using Cons.prems Suc by (intro Cons.IH) (auto simp: sorted_remove1 set_remove1_eq)
    then show ?thesis using Suc by (simp del: place_of.simps)
  qed
qed simp

lemma map_of_nat_unat [simp]: "map of_nat (map unat xs) = (xs :: 'a::len word list)"
  by (simp add: comp_def)

lemma map_of_nat_comp_unat [simp]: "map (of_nat \<circ> unat) xs = (xs :: 'a::len word list)"
  by (simp add: comp_def)

definition is_permutation :: "u32 list \<Rightarrow> bool" where
  "is_permutation p \<longleftrightarrow> distinct p \<and> (\<forall>s \<in> set p. unat s < length p)"

lemma is_permutation_unat:
  assumes "is_permutation p"
  shows "distinct (map unat p)" "set (map unat p) = {..<length p}"
proof -
  show d: "distinct (map unat p)" using assms by (auto simp: is_permutation_def distinct_map inj_on_def word_unat_eq_iff)
  have "card (set (map unat p)) = length p" using distinct_card [OF d] by simp
  moreover have "set (map unat p) \<subseteq> {..<length p}" using assms by (auto simp: is_permutation_def)
  ultimately show "set (map unat p) = {..<length p}" by (intro card_subset_eq) auto
qed

lemma ComputeLehmerCode_permutation:
  assumes "is_permutation p" "length p < 2 ^ 31"
  shows "ComputeLehmerCode p = Some (Inr (map of_nat (lehmer_code [0..<length p] (map unat p))))"
  using ComputeLehmerCode_code [of "map unat p"] is_permutation_unat [OF assms(1)] assms(2) by simp

lemma lehmer_code_word:
  assumes "is_permutation p" "length p < 2 ^ 31"
  shows "map unat (map of_nat (lehmer_code [0..<length p] (map unat p)) :: u32 list) = lehmer_code [0..<length p] (map unat p)"
    (is "map unat ?c = ?l")
proof (rule nth_equalityI)
  fix i assume "i < length (map unat ?c)"
  then have i: "i < length p" by simp
  have "?l ! i + i < length [0..<length p]"
    using is_permutation_unat [OF assms(1)] i by (intro lehmer_code_bounds) auto
  then show "map unat ?c ! i = ?l ! i" using i assms(2) by (simp add: unat_of_nat_id)
qed simp

lemma DecodeLehmerCode_word:
  assumes "0 < length code" "length code < 2 ^ 31"
  shows "DecodeLehmerCode code = Some (if \<forall>j < length code. unat (code ! j) + j < length code
    then Inr (map of_nat (lehmer_permutation [0..<length code] (map unat code))) else Inl kGenericError)"
proof -
  have "\<forall>c \<in> set (map unat code). c < 2 ^ 32"
  proof
    fix c assume "c \<in> set (map unat code)"
    then obtain w :: u32 where "c = unat w" by auto
    then show "c < 2 ^ 32" using unsigned_less [of w, where 'a = nat] by simp
  qed
  then show ?thesis using DecodeLehmerCode_code [of "map unat code"] assms by (simp add: comp_def cong: conj_cong)
qed

lemma lehmer_permutation_word:
  fixes code :: "u32 list"
  assumes "\<forall>j < length code. unat (code ! j) + j < length code" "length code < 2 ^ 31"
  defines "l \<equiv> lehmer_permutation [0..<length code] (map unat code)"
  shows "length l = length code" "map unat (map of_nat l :: u32 list) = l" "is_permutation (map of_nat l)"
    "ComputeLehmerCode (map of_nat l) = Some (Inr code)"
proof -
  let ?p = "map of_nat l :: u32 list"
  have v: "\<forall>j < length (map unat code). map unat code ! j + j < length (map unat code)" using assms(1) by simp
  note L = lehmer_permutation_permutes [OF v, simplified length_map, folded l_def]
  show P: "length l = length code"
    using lehmer_permutation_props(3) [of "[0..<length code]" "map unat code"] v by (simp add: l_def)
  have c: "lehmer_code [0..<length code] l = map unat code"
    using lehmer_permutation_props(4) [of "[0..<length code]" "map unat code"] v by (simp add: l_def)
  show u: "map unat ?p = l"
  proof (rule nth_equalityI)
    fix i assume "i < length (map unat ?p)"
    then have i: "i < length l" by simp
    then have "l ! i \<in> {..<length code}" using L(2) nth_mem [OF i] by simp
    then show "map unat ?p ! i = l ! i" using i assms(2) by (simp add: unat_of_nat_id)
  qed simp
  have "distinct (map unat ?p)" using L(1) unfolding u by simp
  then have "distinct ?p" by (simp only: distinct_map)
  moreover have "unat s < length ?p" if "s \<in> set ?p" for s
  proof -
    have "unat s \<in> set (map unat ?p)" unfolding set_map [of unat] using that by (rule imageI)
    then show ?thesis using L(2) P unfolding u by simp
  qed
  ultimately show "is_permutation ?p" by (simp add: is_permutation_def)
  from ComputeLehmerCode_permutation [OF this] show "ComputeLehmerCode ?p = Some (Inr code)"
    unfolding u using P c assms(2) by simp
qed

lemma LehmerCode_inverse:
  assumes "is_permutation p" "0 < length p" "length p < 2 ^ 31"
  defines "code \<equiv> map of_nat (lehmer_code [0..<length p] (map unat p)) :: u32 list"
  shows "ComputeLehmerCode p = Some (Inr code)" "length code = length p" "DecodeLehmerCode code = Some (Inr p)"
    "\<forall>j < length p. unat (code ! j) + j < length p"
proof -
  let ?l = "lehmer_code [0..<length p] (map unat p)"
  note P = is_permutation_unat [OF assms(1)]
  show c: "ComputeLehmerCode p = Some (Inr code)" "length code = length p"
    using ComputeLehmerCode_permutation [OF assms(1,3)] by (simp_all add: code_def)
  have u: "map unat code = ?l" using lehmer_code_word [OF assms(1,3)] by (simp add: code_def)
  show b: "\<forall>j < length p. unat (code ! j) + j < length p"
  proof (intro allI impI)
    fix j assume j: "j < length p"
    then have "?l ! j + j < length p"
      using lehmer_code_bounds [of "map unat p" "[0..<length p]" j] P by (simp add: atLeast0LessThan)
    then show "unat (code ! j) + j < length p" using j c(2) unfolding u [symmetric] by simp
  qed
  have "lehmer_permutation [0..<length p] ?l = map unat p" using P by (intro lehmer_code_permutation) auto
  then show "DecodeLehmerCode code = Some (Inr p)"
    using DecodeLehmerCode_word [of code] assms(2,3) b c(2) u by simp
qed

text \<open>C25: The Lehmer code that the encoder computes with its Fenwick tree is the inversion table of the permutation: entry
  \<open>i\<close> counts the later elements that are smaller than element \<open>i\<close>.  The computation ends without error for every
  permutation of fewer than \<open>2 ^ 31\<close> elements, and the decoder's tree search gets the permutation back from the code.\<close>

theorem LehmerCode_roundtrip:
  assumes "is_permutation p" "0 < length p" "length p < 2 ^ 31"
  shows "\<exists>code. ComputeLehmerCode p = Some (Inr code) \<and> length code = length p \<and>
    (\<forall>i < length p. unat (code ! i) = card {s \<in> set (drop (Suc i) (map unat p)). s < unat (p ! i)}) \<and>
    DecodeLehmerCode code = Some (Inr p)"
proof -
  note P = is_permutation_unat [OF assms(1)] and L = LehmerCode_inverse [OF assms]
  have "unat ((map of_nat (lehmer_code [0..<length p] (map unat p)) :: u32 list) ! i) = card {s \<in> set (drop (Suc i) (map unat p)). s < unat (p ! i)}"
    if "i < length p" for i
    using lehmer_code_inversions [of "[0..<length p]" "map unat p" i] P that
      arg_cong [OF lehmer_code_word [OF assms(1,3)], of "\<lambda>xs. xs ! i"] by (simp add: atLeast0LessThan)
  then show ?thesis using L by blast
qed

lemma LehmerCode_roundtrip_witness:
  "\<exists>code. ComputeLehmerCode [2, 0, 3, 1] = Some (Inr code) \<and> DecodeLehmerCode code = Some (Inr [2, 0, 3, 1])"
proof -
  have "is_permutation [2, 0, 3, 1]" by (simp add: is_permutation_def)
  then show ?thesis using LehmerCode_roundtrip [of "[2, 0, 3, 1]"] by auto
qed

text \<open>C26: Whatever the code, the decoder ends.  It accepts a code exactly when every entry is smaller than the number of
  elements that are still free; then the tree search yields what picking from the list of free elements yields, the
  result is a permutation, and the encoder computes the same code from it.\<close>

theorem DecodeLehmerCode_equivalence:
  assumes "0 < length code" "length code < 2 ^ 31"
  shows "if \<forall>j < length code. unat (code ! j) + j < length code
    then \<exists>p. DecodeLehmerCode code = Some (Inr p) \<and> is_permutation p \<and> length p = length code \<and>
      map unat p = lehmer_permutation [0..<length code] (map unat code) \<and> ComputeLehmerCode p = Some (Inr code)
    else DecodeLehmerCode code = Some (Inl kGenericError)"
  using DecodeLehmerCode_word [OF assms] lehmer_permutation_word [OF _ assms(2)] by auto

lemma DecodeLehmerCode_equivalence_witness:
  "DecodeLehmerCode [1, 2, 0] \<noteq> None \<and> DecodeLehmerCode [1, 1, 0] \<noteq> None \<and> DecodeLehmerCode [1, 2, 0] = Some (Inl kGenericError)"
proof -
  have "\<not> (\<forall>j < length [1, 2, 0 :: u32]. unat ([1, 2, 0 :: u32] ! j) + j < length [1, 2, 0 :: u32])"
    by (auto intro!: exI [of _ 1])
  then have "DecodeLehmerCode [1, 2, 0] = Some (Inl kGenericError)"
    using DecodeLehmerCode_equivalence [of "[1, 2, 0]"] by (simp del: length_Cons add: if_not_P)
  moreover have "DecodeLehmerCode [1, 1, 0] \<noteq> None"
    using DecodeLehmerCode_equivalence [of "[1, 1, 0]"] by (auto split: if_splits)
  ultimately show ?thesis by simp
qed
end
