(* ===== verification/Ans_Codes.thy ===== *)
theory Ans_Codes
  imports Ans_Tokens Ans_Histogram Huffman Move_To_Front Bundle_Reading
begin

text \<open>
  The description of a set of entropy codes: \<^verbatim>\<open>DecodeHistograms\<close> and \<^verbatim>\<open>DecodeANSCodes\<close> of
  \<^verbatim>\<open>lib/jxl/dec_ans.cc\<close> and the context map of \<^verbatim>\<open>dec_context_map.cc\<close>.  The two call each other: a context map
  may be coded with entropy codes of its own.  The recursion takes fuel, and three calls of \<^verbatim>\<open>DecodeHistograms\<close> are
  shown to be enough; \<open>None\<close> is running out of fuel.
\<close>

section \<open>Definitions\<close>

text \<open>Memory that is not initialised when it is allocated, and the vector width of the target.\<close>

record memory =
  m_entries :: "nat \<Rightarrow> Entry list"  \<comment> \<open>a block for a number of entries\<close>
  m_window :: "nat \<Rightarrow> u32"
  m_codes :: "HuffmanCode list"
  m_lanes :: nat
  m_padding :: "nat list"

definition LZ77Params_VisitFields :: "LZ77Params fields" where
  "LZ77Params_VisitFields = steps [
     field_bool False lz_enabled lz_enabled_update,
     if_conditional lz_enabled (steps [
       field_u32 (U32Enc (Val 224) (Val 512) (Val 4096) (BitsOffset 15 8)) 224 (\<lambda>p. of_nat (min_symbol p))
         (\<lambda>f. min_symbol_update (\<lambda>n. unat (f (of_nat n)))),
       field_u32 (U32Enc (Val 3) (Val 4) (BitsOffset 2 5) (BitsOffset 8 9)) 3 (\<lambda>p. of_nat (min_length p))
         (\<lambda>f. min_length_update (\<lambda>n. unat (f (of_nat n))))])]"

text \<open>The context map: every value below \<open>num_htrees\<close> and each of them present.\<close>

fun verify_loop :: "nat list \<Rightarrow> bool list \<Rightarrow> nat \<Rightarrow> nat \<Rightarrow> nat outcome" where
  "verify_loop [] have_htree num_found num_htrees = Inr num_found"
| "verify_loop (htree # htrees) have_htree num_found num_htrees =
     (if htree \<ge> num_htrees then Inl kGenericError
      else if \<not> have_htree ! htree then verify_loop htrees (have_htree[htree := True]) (num_found + 1) num_htrees
      else verify_loop htrees have_htree num_found num_htrees)"

definition VerifyContextMap :: "nat list \<Rightarrow> nat \<Rightarrow> unit outcome" where
  "VerifyContextMap cmap num_htrees =
     (case verify_loop cmap (replicate num_htrees False) 0 num_htrees of
        Inl e \<Rightarrow> Inl e
      | Inr num_found \<Rightarrow> if num_found \<noteq> num_htrees then Inl kGenericError else Inr ())"

fun read_entries :: "nat \<Rightarrow> nat \<Rightarrow> BitReader \<Rightarrow> nat list \<times> BitReader" where
  "read_entries 0 bits_per_entry br = ([], br)"
| "read_entries (Suc n) bits_per_entry br =
     (case ReadBits bits_per_entry br of (v, br) \<Rightarrow>
      case read_entries n bits_per_entry br of (vs, br) \<Rightarrow> (unat v # vs, br))"

definition finish_context_map :: "nat list \<Rightarrow> BitReader \<Rightarrow> (nat list \<times> nat) outcome \<times> BitReader" where
  "finish_context_map cmap br =
     (let num_htrees = Max (set cmap) + 1 in
      (case VerifyContextMap cmap num_htrees of Inl e \<Rightarrow> Inl e | Inr _ \<Rightarrow> Inr (cmap, num_htrees), br))"

text \<open>What the code of the map itself decodes to, as bytes.\<close>

definition read_context_map :: "memory \<Rightarrow> nat \<Rightarrow> bool \<Rightarrow> ANSCode \<Rightarrow> nat list \<Rightarrow> BitReader \<Rightarrow>
    (nat list \<times> nat) outcome \<times> BitReader" where
  "read_context_map mem n use_mtf code sink br =
     (case ANSSymbolReader_new code (m_window mem) 0 br of (r, br) \<Rightarrow>
      case read_values sink (replicate n 0) r br of (syms, r, br) \<Rightarrow>
        if fold max syms 0 \<ge> 256 then (Inl kGenericError, br)
        else if \<not> CheckANSFinalState r then (Inl kGenericError, br)
        else finish_context_map (if use_mtf then InverseMoveToFrontTransform (m_lanes mem) (m_padding mem) syms else syms) br)"

type_synonym 'a decoded = "('a outcome \<times> BitReader) option"

definition DecodeContextMap ::
  "memory \<Rightarrow> (nat \<Rightarrow> bool \<Rightarrow> BitReader \<Rightarrow> (ANSCode \<times> nat list) decoded) \<Rightarrow> nat \<Rightarrow> BitReader \<Rightarrow> (nat list \<times> nat) decoded" where
  "DecodeContextMap mem decode_histograms n input =
     (case ReadBits 1 input of (is_simple, input) \<Rightarrow>
      if is_simple \<noteq> 0 then
        (case ReadBits 2 input of (bits_per_entry, input) \<Rightarrow>
           if bits_per_entry \<noteq> 0
           then (case read_entries n (unat bits_per_entry) input of (cmap, input) \<Rightarrow> Some (finish_context_map cmap input))
           else Some (finish_context_map (replicate n 0) input))
      else
        (case ReadBits 1 input of (use_mtf, input) \<Rightarrow>
           (case decode_histograms 1 (n \<le> 2) input of
              None \<Rightarrow> None
            | Some (Inl e, input) \<Rightarrow> Some (Inl e, input)
            | Some (Inr (code, sink), input) \<Rightarrow> Some (read_context_map mem n (use_mtf \<noteq> 0) code sink input))))"

text \<open>The codes of the histograms.\<close>

fun read_alphabet_sizes :: "nat \<Rightarrow> nat \<Rightarrow> BitReader \<Rightarrow> nat list outcome \<times> BitReader" where
  "read_alphabet_sizes 0 max_alphabet_size br = (Inr [], br)"
| "read_alphabet_sizes (Suc n) max_alphabet_size br =
     (case DecodeVarLenUint16 br of (v, br) \<Rightarrow>
      let alphabet_size = (v + 1) mod 2 ^ 16 in
      if alphabet_size > max_alphabet_size then (Inl kGenericError, br)
      else (case read_alphabet_sizes n max_alphabet_size br of
              (Inl e, br) \<Rightarrow> (Inl e, br) | (Inr sizes, br) \<Rightarrow> (Inr (alphabet_size # sizes), br)))"

definition no_code :: HuffmanCode where "no_code = \<lparr> hc_bits = 0, hc_value = 0 \<rparr>"

definition update_table_bits :: "nat \<Rightarrow> HuffmanDecodingData \<Rightarrow> ANSCode \<Rightarrow> ANSCode" where
  "update_table_bits c data code =
     fold (\<lambda>h code. if unat (hc_bits h) \<le> kHuffmanTableBits then UpdateMaxNumBits c (unat (hc_value h)) code else code)
       (hd_table data) code"

fun read_prefix_codes :: "memory \<Rightarrow> nat \<Rightarrow> nat list \<Rightarrow> ANSCode \<Rightarrow> BitReader \<Rightarrow> ANSCode outcome \<times> BitReader" where
  "read_prefix_codes mem c [] code br = (Inr code, br)"
| "read_prefix_codes mem c (alphabet_size # sizes) code br =
     (let (data, br) =
        (if alphabet_size > 1 then ReadFromBitStream (m_codes mem) alphabet_size br
         else (Some \<lparr> hd_table = replicate (2 ^ kHuffmanTableBits) no_code \<rparr>, br)) in
      case data of
        None \<Rightarrow>
          (case AllReadsWithinBounds br of (within, br) \<Rightarrow> (Inl (if \<not> within then kNotEnoughBytes else kGenericError), br))
      | Some data \<Rightarrow>
          read_prefix_codes mem (c + 1) sizes
            (update_table_bits c data (code\<lparr> code_huffman_data := (code_huffman_data code)[c := data] \<rparr>)) br)"

definition update_count_bits :: "nat \<Rightarrow> int list \<Rightarrow> ANSCode \<Rightarrow> ANSCode" where
  "update_count_bits c counts code =
     fold (\<lambda>s code. if counts ! s \<noteq> 0 then UpdateMaxNumBits c s code else code) [0..<length counts] code"

definition degenerate_symbol :: "int list \<Rightarrow> int" where
  "degenerate_symbol counts =
     (let d = (if counts = [] then 0 else length counts - 1)
      in if \<forall>s < d. counts ! s = 0 then int d else - 1)"

fun read_ans_codes :: "nat \<Rightarrow> nat \<Rightarrow> nat \<Rightarrow> ANSCode \<Rightarrow> BitReader \<Rightarrow> ANSCode outcome \<times> BitReader" where
  "read_ans_codes 0 c max_alphabet_size code br = (Inr code, br)"
| "read_ans_codes (Suc n) c max_alphabet_size code br =
     (case ReadHistogram ANS_LOG_TAB_SIZE br of
        (Inl e, br) \<Rightarrow> (Inl kGenericError, br)
      | (Inr counts, br) \<Rightarrow>
          if length counts > max_alphabet_size then (Inl kGenericError, br)
          else
            (let counts = trim_zeros counts;
                 code = update_count_bits c counts code;
                 code = code\<lparr> degenerate_symbols := (degenerate_symbols code)[c := degenerate_symbol counts] \<rparr>;
                 at = c * 2 ^ code_log_alpha_size code in
             case InitAliasTable counts ANS_LOG_TAB_SIZE (code_log_alpha_size code) (drop at (code_alias_tables code)) of
               Inl e \<Rightarrow> (Inl e, br)
             | Inr entries \<Rightarrow>
                 read_ans_codes n (c + 1) max_alphabet_size
                   (code\<lparr> code_alias_tables := take at (code_alias_tables code) @ entries \<rparr>) br))"

definition DecodeANSCodes :: "memory \<Rightarrow> nat \<Rightarrow> nat \<Rightarrow> ANSCode \<Rightarrow> BitReader \<Rightarrow> ANSCode outcome \<times> BitReader" where
  "DecodeANSCodes mem num_histograms max_alphabet_size code br =
     (let code = code\<lparr> degenerate_symbols := vector_resize num_histograms (- 1) (degenerate_symbols code) \<rparr> in
      if code_use_prefix_code code then
        (if \<not> max_alphabet_size \<le> 2 ^ PREFIX_MAX_BITS then (Inl kGenericError, br)
         else
           (let code = code\<lparr> code_huffman_data := vector_resize num_histograms \<lparr> hd_table = [] \<rparr> (code_huffman_data code) \<rparr> in
            case read_alphabet_sizes num_histograms max_alphabet_size br of
              (Inl e, br) \<Rightarrow> (Inl e, br)
            | (Inr sizes, br) \<Rightarrow> read_prefix_codes mem 0 sizes code br))
      else
        (if \<not> max_alphabet_size \<le> 256 then (Inl kGenericError, br)
         else read_ans_codes num_histograms 0 max_alphabet_size
                (code\<lparr> code_alias_tables := m_entries mem (num_histograms * 2 ^ code_log_alpha_size code) \<rparr>) br))"

text \<open>After the context map.\<close>

definition decode_codes :: "memory \<Rightarrow> nat list \<Rightarrow> nat \<Rightarrow> ANSCode \<Rightarrow> BitReader \<Rightarrow> (ANSCode \<times> nat list) outcome \<times> BitReader" where
  "decode_codes mem cmap num_histograms code br =
     (let code = code\<lparr> lz77 := (lz77 code)\<lparr> nonserialized_distance_context := last cmap \<rparr> \<rparr> in
      case ReadBits 1 br of (p, br) \<Rightarrow>
      case (if p \<noteq> 0 then (PREFIX_MAX_BITS, br) else (case ReadBits 2 br of (l, br) \<Rightarrow> (unat l + 5, br))) of (la, br) \<Rightarrow>
      case DecodeUintConfigs la num_histograms br of
        (Inl e, br) \<Rightarrow> (Inl e, br)
      | (Inr cfgs, br) \<Rightarrow>
          (case DecodeANSCodes mem num_histograms (2 ^ la)
                  (code\<lparr> code_use_prefix_code := p \<noteq> 0, code_log_alpha_size := la, uint_config := cfgs \<rparr>) br of
             (Inl e, br) \<Rightarrow> (Inl e, br)
           | (Inr code, br) \<Rightarrow> (Inr (code, cmap), br)))"

text \<open>A code that was just constructed; its flags are not initialised.\<close>

definition ANSCode_new :: "bool \<Rightarrow> nat \<Rightarrow> nat \<Rightarrow> ANSCode" where
  "ANSCode_new prefix log_alpha distance_context = \<lparr> code_alias_tables = [], code_huffman_data = [], uint_config = [],
     degenerate_symbols = [], code_use_prefix_code = prefix, code_log_alpha_size = log_alpha,
     lz77 = \<lparr> lz_enabled = False, min_symbol = 224, min_length = 3, length_uint_config = HybridUintConfig_new 0 0 0,
              nonserialized_distance_context = distance_context \<rparr>,
     max_num_bits = 0 \<rparr>"

primrec DecodeHistograms :: "nat \<Rightarrow> (nat \<Rightarrow> memory) \<Rightarrow> ANSCode \<Rightarrow> nat \<Rightarrow> bool \<Rightarrow> BitReader \<Rightarrow> (ANSCode \<times> nat list) decoded" where
  "DecodeHistograms 0 mem code num_contexts disallow_lz77 br = None"
| "DecodeHistograms (Suc fuel) mem code num_contexts disallow_lz77 br =
     (case Bundle_Read (LZ77Params_VisitFields (lz77 code)) br of
        (Inl e, br) \<Rightarrow> Some (Inl e, br)
      | (Inr lz, br) \<Rightarrow>
        (case (if lz_enabled lz
               then (case DecodeUintConfig 8 br of
                       (Inl e, br) \<Rightarrow> (Inl e, br) | (Inr cfg, br) \<Rightarrow> (Inr (lz\<lparr> length_uint_config := cfg \<rparr>), br))
               else (Inr lz, br)) of
           (Inl e, br) \<Rightarrow> Some (Inl e, br)
         | (Inr lz, br) \<Rightarrow>
             if lz_enabled lz \<and> disallow_lz77 then Some (Inl kGenericError, br)
             else
               (let n = (if lz_enabled lz then num_contexts + 1 else num_contexts); code = code\<lparr> lz77 := lz \<rparr> in
                if n > 1 then
                  (case DecodeContextMap (mem fuel)
                          (DecodeHistograms fuel mem (ANSCode_new False 0 0)) n br of
                     None \<Rightarrow> None
                   | Some (Inl e, br) \<Rightarrow> Some (Inl e, br)
                   | Some (Inr (cmap, num_histograms), br) \<Rightarrow> Some (decode_codes (mem fuel) cmap num_histograms code br))
                else Some (decode_codes (mem fuel) (replicate n 0) 1 code br))))"

section \<open>The recursion ends\<close>

lemma DecodeContextMap_returns:
  assumes "\<And>br. decode 1 (n \<le> 2) br \<noteq> None"
  shows "DecodeContextMap mem decode n br \<noteq> None"
proof -
  obtain s br1 where 1: "ReadBits 1 br = (s, br1)" by fastforce
  obtain m br2 where 2: "ReadBits 1 br1 = (m, br2)" by fastforce
  obtain x br3 where "decode 1 (n \<le> 2) br2 = Some (x, br3)" using assms [of br2] by (metis option.exhaust surj_pair)
  then show ?thesis using 1 2 by (simp add: DecodeContextMap_def split: prod.split sum.split)
qed

lemma DecodeHistograms_Suc:
  assumes "\<And>n br. n \<in> {num_contexts, num_contexts + 1} \<Longrightarrow> n > 1 \<Longrightarrow> n = num_contexts \<or> \<not> disallow_lz77 \<Longrightarrow>
      DecodeHistograms fuel mem (ANSCode_new False 0 0) 1 (n \<le> 2) br \<noteq> None"
  shows "DecodeHistograms (Suc fuel) mem code num_contexts disallow_lz77 br \<noteq> None"
proof -
  let ?map = "DecodeContextMap (mem fuel) (DecodeHistograms fuel mem (ANSCode_new False 0 0))"
  have map: "\<exists>r br'. ?map n br = Some (r, br')"
    if n: "n \<in> {num_contexts, num_contexts + 1}" "n > 1" "n = num_contexts \<or> \<not> disallow_lz77" for n br
    using DecodeContextMap_returns [of "DecodeHistograms fuel mem (ANSCode_new False 0 0)" n "mem fuel" br] assms [OF n]
    by (metis option.exhaust surj_pair)
  have rest: "(if n > 1 then (case ?map n br of None \<Rightarrow> None | Some (Inl e, br) \<Rightarrow> Some (Inl e, br)
        | Some (Inr (cmap, num_histograms), br) \<Rightarrow> Some (decode_codes (mem fuel) cmap num_histograms code br))
      else Some (decode_codes (mem fuel) (replicate n 0) 1 code br)) \<noteq> None"
    if n: "n \<in> {num_contexts, num_contexts + 1}" "n = num_contexts \<or> \<not> disallow_lz77" for n br code
  proof (cases "n > 1")
    case True
    obtain r br' where "?map n br = Some (r, br')" using map [OF n(1) True n(2)] by blast
    then show ?thesis using True by (simp split: sum.split prod.split)
  qed simp
  obtain lz br1 where 1: "Bundle_Read (LZ77Params_VisitFields (lz77 code)) br = (lz, br1)" by fastforce
  obtain cfg br2 where 2: "DecodeUintConfig 8 br1 = (cfg, br2)" by fastforce
  show ?thesis
  proof (cases lz)
    case (Inr p)
    show ?thesis
    proof (cases "lz_enabled p")
      case True
      then show ?thesis using 1 2 Inr rest [of "num_contexts + 1"] by (cases cfg) (simp_all add: Let_def del: One_nat_def)
    next
      case False
      then show ?thesis using 1 Inr rest [of num_contexts] by (simp add: Let_def del: One_nat_def)
    qed
  qed (use 1 in simp)
qed

lemma DecodeHistograms_three:
  "DecodeHistograms (Suc f) mem code 1 True br \<noteq> None"
  "DecodeHistograms (Suc (Suc f)) mem code 1 d br \<noteq> None"
  "DecodeHistograms (Suc (Suc (Suc f))) mem code n d br \<noteq> None"
proof -
  show 1: "DecodeHistograms (Suc f) mem code 1 True br \<noteq> None" for f code br
    by (rule DecodeHistograms_Suc) auto
  show 2: "DecodeHistograms (Suc (Suc f)) mem code 1 d br \<noteq> None" for f code d br
    by (rule DecodeHistograms_Suc) (use 1 in auto)
  show "DecodeHistograms (Suc (Suc (Suc f))) mem code n d br \<noteq> None"
    by (rule DecodeHistograms_Suc) (use 2 in blast)
qed

text \<open>C27: The mutual recursion of histograms and context maps ends on every input: three nested calls of
  \<open>DecodeHistograms\<close> are always enough, because the code of a context map of at most two entries may not use LZ77 and
  so needs no context map itself.\<close>

theorem DecodeHistograms_terminates:
  "\<exists>result br'. DecodeHistograms (fuel + 3) mem code num_contexts disallow_lz77 br = Some (result, br')"
  using DecodeHistograms_three(3) [of fuel mem code num_contexts disallow_lz77 br]
  by (simp add: numeral_3_eq_3 del: DecodeHistograms.simps)

section \<open>What is accepted\<close>

subsection \<open>Context maps\<close>

lemma verify_loop_eq:
  "length have_htree = n \<Longrightarrow> verify_loop cmap have_htree k n =
     (if \<forall>x \<in> set cmap. x < n then Inr (k + card {x \<in> set cmap. \<not> have_htree ! x}) else Inl kGenericError)"
proof (induction cmap arbitrary: have_htree k)
  case (Cons h cmap)
  show ?case
  proof (cases "h < n")
    case True
    let ?have = "have_htree[h := True]"
    have new: "{x \<in> set cmap. \<not> ?have ! x} = {x \<in> set cmap. x \<noteq> h \<and> \<not> have_htree ! x}"
      using True Cons.prems by (auto simp: nth_list_update)
    show ?thesis
    proof (cases "have_htree ! h")
      case True
      then have "{x \<in> set (h # cmap). \<not> have_htree ! x} = {x \<in> set cmap. \<not> have_htree ! x}" by auto
      then show ?thesis using Cons.IH [of have_htree k] Cons.prems \<open>h < n\<close> True by simp
    next
      case False
      then have "{x \<in> set (h # cmap). \<not> have_htree ! x} = insert h {x \<in> set cmap. x \<noteq> h \<and> \<not> have_htree ! x}" by auto
      then have "card {x \<in> set (h # cmap). \<not> have_htree ! x} = Suc (card {x \<in> set cmap. \<not> ?have ! x})"
        unfolding new by simp
      then show ?thesis using Cons.IH [of ?have "k + 1"] Cons.prems \<open>h < n\<close> False by simp
    qed
  qed simp
qed simp

lemma VerifyContextMap_iff: "VerifyContextMap cmap n = Inr () \<longleftrightarrow> set cmap = {..<n}"
proof (cases "\<forall>x \<in> set cmap. x < n")
  case True
  then have "{x \<in> set cmap. \<not> replicate n False ! x} = set cmap" by auto
  then have "VerifyContextMap cmap n = Inr () \<longleftrightarrow> card (set cmap) = n"
    using True verify_loop_eq [of "replicate n False" n cmap 0] by (simp add: VerifyContextMap_def)
  also have "\<dots> \<longleftrightarrow> set cmap = {..<n}"
  proof
    assume "card (set cmap) = n"
    then show "set cmap = {..<n}" using True by (intro card_subset_eq) auto
  qed simp
  finally show ?thesis .
next
  case False
  then have "VerifyContextMap cmap n \<noteq> Inr ()"
    using verify_loop_eq [of "replicate n False" n cmap 0] by (simp add: VerifyContextMap_def)
  then show ?thesis using False by auto
qed

lemma length_read_entries: "read_entries n b br = (vs, br') \<Longrightarrow> length vs = n"
  by (induction n arbitrary: br vs) (auto split: prod.splits)

lemma length_read_values: "read_values cmap cs r br = (vs, r', br') \<Longrightarrow> length vs = length cs"
  by (induction cs arbitrary: r br vs) (auto split: prod.splits)

lemma length_inverse_mtf [simp]: "length (inverse_mtf lanes mtf v) = length v"
  by (induction v arbitrary: mtf) simp_all

definition context_map_ok :: "nat \<Rightarrow> nat list \<Rightarrow> nat \<Rightarrow> bool" where
  "context_map_ok n cmap num_histograms \<longleftrightarrow> length cmap = n \<and> set cmap = {..<num_histograms}"

lemma finish_context_map_ok:
  "finish_context_map cmap br = (Inr (cmap', k), br') \<Longrightarrow> context_map_ok (length cmap) cmap' k"
  by (auto simp: finish_context_map_def context_map_ok_def Let_def VerifyContextMap_iff split: sum.splits)

lemma context_map_ok_last: "context_map_ok n cmap num_histograms \<Longrightarrow> 0 < n \<Longrightarrow> last cmap < num_histograms"
  unfolding context_map_ok_def using last_in_set [of cmap] by auto

lemma DecodeContextMap_ok:
  assumes "DecodeContextMap mem decode n br = Some (Inr (cmap, k), br')"
  shows "context_map_ok n cmap k"
proof -
  obtain s br1 where 1: "ReadBits 1 br = (s, br1)" by fastforce
  show ?thesis
  proof (cases "s = 0")
    case False
    obtain b br2 where 2: "ReadBits 2 br1 = (b, br2)" by fastforce
    obtain es br3 where 3: "read_entries n (unat b) br2 = (es, br3)" by fastforce
    have "finish_context_map (if b \<noteq> 0 then es else replicate n 0) (if b \<noteq> 0 then br3 else br2) = (Inr (cmap, k), br')"
      using assms 1 2 3 False by (simp add: DecodeContextMap_def split: if_splits)
    from finish_context_map_ok [OF this] show ?thesis using length_read_entries [OF 3] by (simp split: if_splits)
  next
    case True
    obtain m br2 where 2: "ReadBits 1 br1 = (m, br2)" by fastforce
    obtain code sink br3 where 3: "decode 1 (n \<le> 2) br2 = Some (Inr (code, sink), br3)"
      "read_context_map mem n (m \<noteq> 0) code sink br3 = (Inr (cmap, k), br')"
      using assms 1 2 True by (auto simp: DecodeContextMap_def split: option.splits prod.splits sum.splits)
    obtain r br4 where 4: "ANSSymbolReader_new code (m_window mem) 0 br3 = (r, br4)" by fastforce
    obtain vs r' br5 where 5: "read_values sink (replicate n 0) r br4 = (vs, r', br5)" by (metis prod_cases3)
    have "finish_context_map (if m \<noteq> 0 then InverseMoveToFrontTransform (m_lanes mem) (m_padding mem) vs else vs) br5 = (Inr (cmap, k), br')"
      using 3(2) 4 5 by (simp add: read_context_map_def split: if_splits)
    from finish_context_map_ok [OF this] show ?thesis
      using length_read_values [OF 5] by (simp add: InverseMoveToFrontTransform_def split: if_splits)
  qed
qed

subsection \<open>Tables\<close>

lemma alias_ok_take:
  assumes "alias_ok D la t" "take (2 ^ la) t = take (2 ^ la) t'" "la \<le> 12"
  shows "alias_ok D la t'"
proof -
  have eq: "lookup_at t' la v = lookup_at t la v" if "v < ANS_TAB_SIZE" for v
    using lookup_at_take [OF assms(2,3), of v] that by (simp add: ANS_TAB_SIZE_def ANS_LOG_TAB_SIZE_def)
  have "bij_betw (\<lambda>v. (sym_value (lookup_at t' la v), sym_offset (lookup_at t' la v))) {..<ANS_TAB_SIZE} (symbol_ranks D) =
      bij_betw (\<lambda>v. (sym_value (lookup_at t la v), sym_offset (lookup_at t la v))) {..<ANS_TAB_SIZE} (symbol_ranks D)"
    by (rule bij_betw_cong) (simp add: eq)
  then show ?thesis using assms(1) eq by (simp add: alias_ok_def)
qed

text \<open>The table of histogram \<open>k\<close> decodes a distribution, and the degenerate symbol has all of the weight.\<close>

definition histogram_ok :: "ANSCode \<Rightarrow> nat \<Rightarrow> bool" where
  "histogram_ok code k \<longleftrightarrow> (\<exists>D. dist_ok (code_log_alpha_size code) D \<and>
     alias_ok D (code_log_alpha_size code) (drop (k * 2 ^ code_log_alpha_size code) (code_alias_tables code)) \<and>
     (degenerate_symbols code ! k \<noteq> - 1 \<longrightarrow> (\<exists>s < length D. degenerate_symbols code ! k = int s \<and> D ! s = 4096)))"

definition code_frame :: "ANSCode \<Rightarrow> ANSCode \<Rightarrow> bool" where
  "code_frame code code' \<longleftrightarrow> uint_config code' = uint_config code \<and> lz77 code' = lz77 code \<and>
     code_log_alpha_size code' = code_log_alpha_size code \<and> code_use_prefix_code code' = code_use_prefix_code code"

lemma code_frame_trans: "code_frame a b \<Longrightarrow> code_frame b c \<Longrightarrow> code_frame a c"
  by (simp add: code_frame_def)

lemma UpdateMaxNumBits_keeps:
  "code_frame code (UpdateMaxNumBits c s code)" "code_alias_tables (UpdateMaxNumBits c s code) = code_alias_tables code"
  "degenerate_symbols (UpdateMaxNumBits c s code) = degenerate_symbols code"
  "code_huffman_data (UpdateMaxNumBits c s code) = code_huffman_data code"
  by (simp_all add: UpdateMaxNumBits_def Let_def code_frame_def)

lemma fold_UpdateMaxNumBits:
  fixes f :: "'a \<Rightarrow> nat" and P c
  defines "F \<equiv> fold (\<lambda>s code. if P s then UpdateMaxNumBits c (f s) code else code)"
  shows "code_frame code (F ss code) \<and> code_alias_tables (F ss code) = code_alias_tables code \<and>
    code_huffman_data (F ss code) = code_huffman_data code \<and> degenerate_symbols (F ss code) = degenerate_symbols code"
proof (induction ss arbitrary: code)
  case (Cons s ss)
  have F: "F (s # ss) code = F ss (if P s then UpdateMaxNumBits c (f s) code else code)" by (simp add: F_def)
  show ?case
    using Cons [of "if P s then UpdateMaxNumBits c (f s) code else code"] code_frame_trans
      UpdateMaxNumBits_keeps [where code = code and c = c and s = "f s"] unfolding F by (auto split: if_splits)
qed (simp add: F_def code_frame_def)

lemma update_bits_keeps:
  "code_frame code (update_count_bits c counts code)" "code_alias_tables (update_count_bits c counts code) = code_alias_tables code"
  "degenerate_symbols (update_count_bits c counts code) = degenerate_symbols code"
  "code_frame code (update_table_bits c data code)"
  "code_huffman_data (update_table_bits c data code) = code_huffman_data code"
  using fold_UpdateMaxNumBits [where f = "\<lambda>s. s" and P = "\<lambda>s. counts ! s \<noteq> 0" and c = c and ss = "[0..<length counts]" and code = code]
    fold_UpdateMaxNumBits [where f = "\<lambda>h. unat (hc_value h)" and P = "\<lambda>h. unat (hc_bits h) \<le> kHuffmanTableBits"
      and c = c and ss = "hd_table data" and code = code]
  by (simp_all add: update_count_bits_def update_table_bits_def)

lemma trim_zeros_props:
  assumes "\<forall>x \<in> set D. 0 \<le> x" "sum_list D = (4096 :: int)"
  shows "\<forall>x \<in> set (trim_zeros D). 0 \<le> x" "sum_list (trim_zeros D) = 4096" "trim_zeros (trim_zeros D) = trim_zeros D"
    "trim_zeros D \<noteq> []"
proof -
  obtain n where n: "D = trim_zeros D @ replicate n 0" by (rule trim_zeros_append)
  have "sum_list D = sum_list (trim_zeros D)" by (subst n) (simp add: sum_list_replicate)
  then show s: "sum_list (trim_zeros D) = 4096" using assms(2) by simp
  have "set (trim_zeros D) \<subseteq> set D" by (subst (2) n) auto
  then show "\<forall>x \<in> set (trim_zeros D). 0 \<le> x" using assms(1) by blast
  show ne: "trim_zeros D \<noteq> []" using s by auto
  have "last (trim_zeros D) \<noteq> 0" by (rule trim_zeros_last [OF ne])
  then have "hd (rev (trim_zeros D)) \<noteq> 0" by (simp add: hd_rev)
  moreover have "rev (trim_zeros D) \<noteq> []" using ne by simp
  ultimately have "dropWhile (\<lambda>x. x = 0) (rev (trim_zeros D)) = rev (trim_zeros D)"
    by (cases "rev (trim_zeros D)") simp_all
  then show "trim_zeros (trim_zeros D) = trim_zeros D" by (simp add: trim_zeros_def)
qed

lemma degenerate_symbol_weight:
  assumes "sum_list counts = 4096" "degenerate_symbol counts \<noteq> - 1" "counts \<noteq> []"
  shows "\<exists>s < length counts. degenerate_symbol counts = int s \<and> counts ! s = 4096"
proof -
  let ?s = "length counts - 1"
  have z: "\<forall>j < ?s. counts ! j = 0" "degenerate_symbol counts = int ?s"
    using assms(2,3) by (auto simp: degenerate_symbol_def Let_def split: if_splits)
  have "counts = butlast counts @ [counts ! ?s]" using assms(3) by (metis append_butlast_last_id last_conv_nth)
  moreover have "butlast counts = replicate ?s 0" using z(1) by (intro nth_equalityI) (simp_all add: nth_butlast)
  ultimately have "counts = replicate ?s 0 @ [counts ! ?s]" by simp
  then have "sum_list counts = counts ! ?s" by (metis add_0 mult_zero_right of_nat_0 sum_list.append sum_list.Cons sum_list.Nil sum_list_replicate add.right_neutral)
  then show ?thesis using z(2) assms(1,3) by (intro exI [of _ ?s]) simp
qed

lemma read_ans_codes_Suc:
  assumes "ReadHistogram ANS_LOG_TAB_SIZE br = (Inr counts, br1)" "\<not> length counts > max_alphabet_size"
    and "code2 = (update_count_bits c (trim_zeros counts) code)\<lparr> degenerate_symbols :=
      (degenerate_symbols (update_count_bits c (trim_zeros counts) code))[c := degenerate_symbol (trim_zeros counts)] \<rparr>"
  shows "read_ans_codes (Suc n) c max_alphabet_size code br =
    (case InitAliasTable (trim_zeros counts) ANS_LOG_TAB_SIZE (code_log_alpha_size code2)
        (drop (c * 2 ^ code_log_alpha_size code2) (code_alias_tables code2)) of
       Inl e \<Rightarrow> (Inl e, br1)
     | Inr entries \<Rightarrow> read_ans_codes n (c + 1) max_alphabet_size (code2\<lparr> code_alias_tables :=
         take (c * 2 ^ code_log_alpha_size code2) (code_alias_tables code2) @ entries \<rparr>) br1)"
  unfolding read_ans_codes.simps Let_def assms(1) prod.case sum.case if_not_P [OF assms(2)] assms(3) [symmetric] by (rule refl)

lemma read_ans_codes_ok:
  assumes "read_ans_codes n c (2 ^ la) code br = (Inr code', br')" "code_log_alpha_size code = la" "4 \<le> la" "la \<le> 8"
    and "length (code_alias_tables code) = (c + n) * 2 ^ la" "length (degenerate_symbols code) = c + n"
    and "\<forall>k < c. histogram_ok code k"
  shows "code_frame code code' \<and> (\<forall>k < c + n. histogram_ok code' k)"
  using assms
proof (induction n arbitrary: c code br)
  case 0
  then show ?case by (simp add: code_frame_def)
next
  case (Suc n)
  obtain h br1 where h: "ReadHistogram ANS_LOG_TAB_SIZE br = (h, br1)" by fastforce
  then obtain counts0 where h0: "h = Inr counts0" "\<not> length counts0 > 2 ^ la"
    using Suc.prems(1) by (cases h) (auto split: if_splits)
  note H = ReadHistogram_cases [OF h [unfolded h0(1)]]
  let ?D = "trim_zeros counts0" and ?at = "c * 2 ^ la" and ?tabs = "code_alias_tables code"
  note T = trim_zeros_props [OF conjunct1 [OF H] conjunct1 [OF conjunct2 [OF H]]]
  obtain m where m: "counts0 = ?D @ replicate m 0" by (rule trim_zeros_append)
  have len: "length ?D \<le> 2 ^ la" using arg_cong [OF m, of length] h0(2) by simp
  define code1 where "code1 = update_count_bits c ?D code"
  define code2 where "code2 = code1\<lparr> degenerate_symbols := (degenerate_symbols code1)[c := degenerate_symbol ?D] \<rparr>"
  have c1: "code_frame code code2" "code_alias_tables code2 = ?tabs" "degenerate_symbols code2 = (degenerate_symbols code)[c := degenerate_symbol ?D]"
    using update_bits_keeps(1-3) [where code = code and c = c and counts = ?D] by (simp_all add: code1_def code2_def code_frame_def)
  have la: "code_log_alpha_size code2 = la" using c1(1) Suc.prems(2) by (simp add: code_frame_def)
  have space: "2 ^ la \<le> length (drop ?at ?tabs)" using Suc.prems(5) by (simp add: distrib_right)
  have len': "length (trim_zeros ?D) \<le> 2 ^ la" using len T(3) by simp
  obtain tab where tab: "InitAliasTable ?D ANS_LOG_TAB_SIZE la (drop ?at ?tabs) = Inr tab" "length tab = length (drop ?at ?tabs)"
    "alias_ok ?D la tab"
    by (rule InitAliasTable_ok [OF T(1,2) len' Suc.prems(3,4) space]) blast
  define code3 where "code3 = code2\<lparr> code_alias_tables := take ?at ?tabs @ tab \<rparr>"
  have "read_ans_codes (Suc n) c (2 ^ la) code br =
    (case InitAliasTable ?D ANS_LOG_TAB_SIZE (code_log_alpha_size code2) (drop (c * 2 ^ code_log_alpha_size code2) (code_alias_tables code2)) of
       Inl e \<Rightarrow> (Inl e, br1)
     | Inr entries \<Rightarrow> read_ans_codes n (c + 1) (2 ^ la) (code2\<lparr> code_alias_tables :=
         take (c * 2 ^ code_log_alpha_size code2) (code_alias_tables code2) @ entries \<rparr>) br1)"
    using h h0 by (intro read_ans_codes_Suc [of _ counts0 br1]) (simp_all add: code1_def code2_def)
  then have run: "read_ans_codes n (c + 1) (2 ^ la) code3 br1 = (Inr code', br')"
    unfolding la c1(2) tab(1) code3_def using Suc.prems(1) by simp
  have c3: "code_frame code code3" "code_alias_tables code3 = take ?at ?tabs @ tab" "code_log_alpha_size code3 = la"
    "degenerate_symbols code3 = (degenerate_symbols code)[c := degenerate_symbol ?D]"
    using c1 la by (simp_all add: code3_def code_frame_def)
  have at: "?at \<le> length ?tabs" using Suc.prems(5) by (simp add: distrib_right)
  have len3: "length (code_alias_tables code3) = (c + 1 + n) * 2 ^ la"
    using Suc.prems(5) at by (simp add: c3(2) tab(2))
  have new: "histogram_ok code3 c"
  proof -
    have "dist_ok la ?D" using T len' Suc.prems(3,4) by (simp add: dist_ok_def)
    moreover have "drop ?at (code_alias_tables code3) = tab" using at by (simp add: c3(2))
    moreover have "degenerate_symbols code3 ! c = degenerate_symbol ?D" using Suc.prems(6) by (simp add: c3(4))
    ultimately show ?thesis
      unfolding histogram_ok_def c3(3) using tab(3) degenerate_symbol_weight [OF T(2) _ T(4)] by (intro exI [of _ ?D]) simp
  qed
  have old: "histogram_ok code3 k" if k: "k < c" for k
  proof -
    obtain D where D: "dist_ok la D" "alias_ok D la (drop (k * 2 ^ la) ?tabs)"
      "degenerate_symbols code ! k \<noteq> - 1 \<longrightarrow> (\<exists>s < length D. degenerate_symbols code ! k = int s \<and> D ! s = 4096)"
      using Suc.prems(7) k Suc.prems(2) unfolding histogram_ok_def by blast
    have "(k + 1) * 2 ^ la \<le> c * 2 ^ la" using k by (intro mult_le_mono1) simp
    then have "k * 2 ^ la + 2 ^ la \<le> ?at" by simp
    then have "take (2 ^ la) (drop (k * 2 ^ la) (take ?at ?tabs @ tab)) = take (2 ^ la) (drop (k * 2 ^ la) ?tabs)"
      using at by (simp add: take_drop add.commute)
    then have "alias_ok D la (drop (k * 2 ^ la) (take ?at ?tabs @ tab))"
      using alias_ok_take [OF D(2)] Suc.prems(4) by simp
    moreover have "degenerate_symbols code3 ! k = degenerate_symbols code ! k" using k by (simp add: c3(4))
    ultimately show ?thesis using D unfolding histogram_ok_def c3(2,3) by auto
  qed
  have "code_frame code3 code' \<and> (\<forall>k < c + 1 + n. histogram_ok code' k)"
    using new old Suc.prems(3,4,6) c3(3,4) len3
    by (intro Suc.IH [OF run]) (auto simp: less_Suc_eq)
  then show ?case using code_frame_trans [OF c3(1)] by simp
qed

text \<open>An accepted set of codes.\<close>

definition codes_ok :: "ANSCode \<Rightarrow> nat \<Rightarrow> bool" where
  "codes_ok code num_histograms \<longleftrightarrow> length (uint_config code) = num_histograms \<and>
     (\<forall>cfg \<in> set (uint_config code). config_ok cfg) \<and>
     (\<not> code_use_prefix_code code \<longrightarrow> code_log_alpha_size code \<in> {5..8} \<and> (\<forall>k < num_histograms. histogram_ok code k)) \<and>
     (code_use_prefix_code code \<longrightarrow> code_log_alpha_size code = PREFIX_MAX_BITS \<and> length (code_huffman_data code) = num_histograms)"

lemma DecodeUintConfig_ok:
  assumes "DecodeUintConfig la br = (Inr c, br')" "la \<le> 15"
  shows "config_ok c"
proof -
  obtain v br1 where 1: "ReadBits (CeilLog2Nonzero (la + 1)) (Refill br) = (v, br1)" by fastforce
  have "FloorLog2Nonzero (la + 1) \<le> 4" using FloorLog2Nonzero_bounds [of "la + 1"] FloorLog2Nonzero_less [of "la + 1" 5] assms(2) by simp
  then have n: "CeilLog2Nonzero (la + 1) \<le> 5" using CeilLog2Nonzero_bounds(2) [of "la + 1"] by simp
  then have "unat v < 2 ^ CeilLog2Nonzero (la + 1)" by (intro ReadBits_less [OF _ 1]) simp
  also have "\<dots> \<le> 2 ^ 5" using n by (intro power_increasing) simp_all
  finally have "unat v \<le> 31" by simp
  moreover have "split_exponent c = unat v"
    using assms(1) 1 by (auto simp: DecodeUintConfig_def HybridUintConfig_new_def Let_def split: prod.splits if_splits)
  ultimately show ?thesis using DecodeUintConfig_valid [OF assms(1)] assms(2) by (simp add: config_ok_def)
qed

lemma DecodeUintConfigs_ok:
  assumes "DecodeUintConfigs la n br = (Inr cfgs, br')" "la \<le> 15"
  shows "length cfgs = n \<and> (\<forall>cfg \<in> set cfgs. config_ok cfg)"
  using assms by (induction n arbitrary: br cfgs) (auto split: prod.splits sum.splits dest: DecodeUintConfig_ok)

lemma read_prefix_codes_frame:
  "read_prefix_codes mem c sizes code br = (Inr code', br') \<Longrightarrow>
     code_frame code code' \<and> length (code_huffman_data code') = length (code_huffman_data code)"
proof (induction sizes arbitrary: c code br)
  case (Cons s sizes)
  obtain data br1 where d: "(if s > 1 then ReadFromBitStream (m_codes mem) s br
      else (Some \<lparr> hd_table = replicate (2 ^ kHuffmanTableBits) no_code \<rparr>, br)) = (data, br1)" by fastforce
  then obtain x where x: "data = Some x" using Cons.prems by (cases data) (auto split: prod.splits)
  let ?code = "update_table_bits c x (code\<lparr> code_huffman_data := (code_huffman_data code)[c := x] \<rparr>)"
  have "read_prefix_codes mem (c + 1) sizes ?code br1 = (Inr code', br')" using Cons.prems d x by simp
  from Cons.IH [OF this] have "code_frame ?code code'" "length (code_huffman_data code') = length (code_huffman_data ?code)" by auto
  moreover have "code_frame code ?code" "length (code_huffman_data ?code) = length (code_huffman_data code)"
    using update_bits_keeps(4,5) [where code = "code\<lparr> code_huffman_data := (code_huffman_data code)[c := x] \<rparr>" and c = c and data = x]
    by (simp_all add: code_frame_def)
  ultimately show ?case using code_frame_trans by metis
qed (simp add: code_frame_def)

lemma decode_codes_ok:
  assumes "decode_codes mem cmap n code br = (Inr (code', cmap'), br')" "\<And>k. length (m_entries mem k) = k"
  shows "codes_ok code' n" "cmap' = cmap" "lz77 code' = (lz77 code)\<lparr> nonserialized_distance_context := last cmap \<rparr>"
proof -
  obtain p br1 where 1: "ReadBits 1 br = (p, br1)" by fastforce
  obtain la br2 where 2: "(if p \<noteq> 0 then (PREFIX_MAX_BITS, br1) else (case ReadBits 2 br1 of (l, br) \<Rightarrow> (unat l + 5, br))) = (la, br2)"
    by fastforce
  obtain r br3 where 3: "DecodeUintConfigs la n br2 = (r, br3)" by fastforce
  then obtain cfgs where r: "r = Inr cfgs" using assms(1) 1 2 by (cases r) (auto simp: decode_codes_def Let_def)
  define code1 where "code1 = code\<lparr> lz77 := (lz77 code)\<lparr> nonserialized_distance_context := last cmap \<rparr>,
    code_use_prefix_code := p \<noteq> 0, code_log_alpha_size := la, uint_config := cfgs \<rparr>"
  have run: "DecodeANSCodes mem n (2 ^ la) code1 br3 = (Inr code', br')" and cmap: "cmap' = cmap"
    using assms(1) 1 2 3 r by (auto simp: decode_codes_def Let_def code1_def split: prod.splits sum.splits)
  have la: "if p \<noteq> 0 then la = PREFIX_MAX_BITS else la \<in> {5..8}"
  proof (cases "p = 0")
    case True
    obtain l br' where l: "ReadBits 2 br1 = (l, br')" by fastforce
    then have "unat l < 4" using ReadBits_less [of 2 br1 l br'] by simp
    then show ?thesis using True 2 l by auto
  qed (use 2 in simp)
  then have "la \<le> 15" by (auto simp: PREFIX_MAX_BITS_def split: if_splits)
  note cfg = DecodeUintConfigs_ok [OF 3 [unfolded r] this]
  have "code_frame code1 code' \<and> (p = 0 \<longrightarrow> (\<forall>k < n. histogram_ok code' k)) \<and>
      (p \<noteq> 0 \<longrightarrow> length (code_huffman_data code') = n)"
  proof (cases "p = 0")
    case True
    define code2 where "code2 = code1\<lparr> degenerate_symbols := vector_resize n (- 1) (degenerate_symbols code1),
      code_alias_tables := m_entries mem (n * 2 ^ la) \<rparr>"
    have "read_ans_codes n 0 (2 ^ la) code2 br3 = (Inr code', br')"
      using run True by (simp add: DecodeANSCodes_def code1_def code2_def Let_def split: if_splits)
    then have "code_frame code2 code' \<and> (\<forall>k < 0 + n. histogram_ok code' k)"
      using la True assms(2) by (intro read_ans_codes_ok) (auto simp: code1_def code2_def)
    then show ?thesis using True by (simp add: code_frame_def code1_def code2_def)
  next
    case False
    define code2 where "code2 = code1\<lparr> degenerate_symbols := vector_resize n (- 1) (degenerate_symbols code1),
      code_huffman_data := vector_resize n \<lparr> hd_table = [] \<rparr> (code_huffman_data code1) \<rparr>"
    obtain sizes br4 where "read_prefix_codes mem 0 sizes code2 br4 = (Inr code', br')"
      using run False by (auto simp: DecodeANSCodes_def code1_def code2_def Let_def split: if_splits prod.splits sum.splits)
    from read_prefix_codes_frame [OF this] show ?thesis using False by (simp add: code_frame_def code1_def code2_def)
  qed
  then show "codes_ok code' n" "lz77 code' = (lz77 code)\<lparr> nonserialized_distance_context := last cmap \<rparr>"
    using la cfg by (auto simp: codes_ok_def code_frame_def code1_def split: if_splits)
  show "cmap' = cmap" by (rule cmap)
qed

text \<open>C28: Whatever the bits, when \<open>DecodeHistograms\<close> accepts them the codes are usable: there is an entry of the context
  map for every context (one more with LZ77), its values are exactly the numbers of the histograms, the distance
  context of LZ77 is one of them, every hybrid integer configuration satisfies the condition of its constructor, and
  without prefix codes every alias table decodes a distribution that adds up to 4096, whose degenerate symbol, if there
  is one, has all of the weight.\<close>

theorem DecodeHistograms_accepted:
  assumes "\<And>depth k. length (m_entries (mem depth) k) = k" "0 < num_contexts"
    and "DecodeHistograms fuel mem code0 num_contexts disallow_lz77 br = Some (Inr (code, cmap), br')"
  shows "codes_ok code (length (uint_config code)) \<and>
    context_map_ok (if lz_enabled (lz77 code) then num_contexts + 1 else num_contexts) cmap (length (uint_config code)) \<and>
    nonserialized_distance_context (lz77 code) < length (uint_config code) \<and> (lz_enabled (lz77 code) \<longrightarrow> \<not> disallow_lz77)"
proof -
  obtain f where fuel: "fuel = Suc f" using assms(3) by (cases fuel) auto
  obtain r br1 where 1: "Bundle_Read (LZ77Params_VisitFields (lz77 code0)) br = (r, br1)" by fastforce
  then obtain lz0 where r: "r = Inr lz0" using assms(3) fuel by (cases r) auto
  obtain r2 br2 where 2: "(if lz_enabled lz0 then (case DecodeUintConfig 8 br1 of (Inl e, br) \<Rightarrow> (Inl e, br)
      | (Inr cfg, br) \<Rightarrow> (Inr (lz0\<lparr> length_uint_config := cfg \<rparr>), br)) else (Inr lz0, br1)) = (r2, br2)" by fastforce
  then obtain lz where r2: "r2 = Inr lz" using assms(3) fuel 1 r by (cases r2) auto
  let ?n = "if lz_enabled lz then num_contexts + 1 else num_contexts" and ?code = "code0\<lparr> lz77 := lz \<rparr>"
  have dis: "lz_enabled lz \<longrightarrow> \<not> disallow_lz77"
    using assms(3) fuel 1 r 2 r2 by (auto split: if_splits)
  note start = assms(3) [unfolded fuel DecodeHistograms.simps 1 r prod.case sum.case 2 r2]
  have not_both: "\<not> (lz_enabled lz \<and> disallow_lz77)" using dis by simp
  note run = start [unfolded Let_def if_not_P [OF not_both]]
  obtain k br3 where D: "decode_codes (mem f) cmap k ?code br3 = (Inr (code, cmap), br')" "context_map_ok ?n cmap k"
  proof (cases "?n > 1")
    case True
    let ?map = "DecodeContextMap (mem f) (DecodeHistograms f mem (ANSCode_new False 0 0)) ?n br2"
    have run': "(case ?map of None \<Rightarrow> None | Some (Inl e, br) \<Rightarrow> Some (Inl e, br)
        | Some (Inr (cmap, num_histograms), br) \<Rightarrow> Some (decode_codes (mem f) cmap num_histograms ?code br)) =
      Some (Inr (code, cmap), br')"
      using run unfolding if_P [OF True] .
    then obtain cmap' k br3 where m: "?map = Some (Inr (cmap', k), br3)"
      "decode_codes (mem f) cmap' k ?code br3 = (Inr (code, cmap), br')"
      by (auto split: option.splits prod.splits sum.splits)
    then have "cmap' = cmap" using decode_codes_ok(2) [OF m(2) assms(1)] by simp
    then show ?thesis using that m DecodeContextMap_ok [OF m(1)] by blast
  next
    case False
    then have n: "?n = 1" using assms(2) by (auto split: if_splits)
    then have m: "decode_codes (mem f) [0] 1 ?code br2 = (Inr (code, cmap), br')"
      using run unfolding if_not_P [OF False] n by simp
    then have "cmap = [0]" using decode_codes_ok(2) [OF m assms(1)] by simp
    then show ?thesis using that [of 1 br2] m n by (auto simp: context_map_ok_def)
  qed
  have n: "length (uint_config code) = k" using decode_codes_ok(1) [OF D(1) assms(1)] unfolding codes_ok_def by blast
  have lz: "lz77 code = lz\<lparr> nonserialized_distance_context := last cmap \<rparr>"
    using decode_codes_ok(3) [OF D(1) assms(1)] by simp
  then have en: "lz_enabled (lz77 code) = lz_enabled lz" and di: "nonserialized_distance_context (lz77 code) = last cmap" by simp_all
  have last: "last cmap < k" using context_map_ok_last [OF D(2)] assms(2) by simp
  show ?thesis unfolding n en di using decode_codes_ok(1) [OF D(1) assms(1)] D(2) dis last by blast
qed

definition example_memory :: memory where
  "example_memory = \<lparr> m_entries = (\<lambda>k. replicate k \<lparr> cutoff = 0, right_value = 0, freq0 = 0, offsets1 = 0, freq1_xor_freq0 = 0 \<rparr>),
     m_window = (\<lambda>_. 0), m_codes = [], m_lanes = 4, m_padding = [] \<rparr>"

theorem DecodeHistograms_accepted_witness:
  "\<exists>code cmap br'. DecodeHistograms 1 (\<lambda>_. example_memory) (ANSCode_new False 0 0) 1 False (BitReader_new [128, 0, 0, 0, 0, 0, 0, 0]) =
     Some (Inr (code, cmap), br') \<and> codes_ok code (length (uint_config code)) \<and>
     context_map_ok (if lz_enabled (lz77 code) then 2 else 1) cmap (length (uint_config code))"
proof -
  let ?run = "DecodeHistograms 1 (\<lambda>_. example_memory) (ANSCode_new False 0 0) 1 False (BitReader_new [128, 0, 0, 0, 0, 0, 0, 0])"
  have "case ?run of None \<Rightarrow> False | Some (Inl _, _) \<Rightarrow> False | Some (Inr _, _) \<Rightarrow> True" by code_simp
  then obtain code cmap br' where run: "?run = Some (Inr (code, cmap), br')" by (auto split: option.splits prod.splits sum.splits)
  have "length (m_entries example_memory k) = k" for k by (simp add: example_memory_def)
  from DecodeHistograms_accepted [OF this _ run] show ?thesis using run by (auto simp: numeral_2_eq_2 simp del: DecodeHistograms.simps)
qed
end
