(* ===== verification/Ac_Strategy.thy ===== *)
theory Ac_Strategy
  imports Lehmer Headers
begin

text \<open>
  The transforms of a block (\<^verbatim>\<open>lib/jxl/ac_strategy.h\<close>, \<^verbatim>\<open>ac_strategy.cc\<close>): how many 8x8 blocks each of them covers, the
  natural (zigzag) order of its coefficients with the inverse table, and the image that records which transform covers
  which block.
\<close>

section \<open>Definitions\<close>

datatype AcStrategyType = DCT | IDENTITY | DCT2X2 | DCT4X4 | DCT16X16 | DCT32X32 | DCT16X8 | DCT8X16 | DCT32X8 | DCT8X32
  | DCT32X16 | DCT16X32 | DCT4X8 | DCT8X4 | AFV0 | AFV1 | AFV2 | AFV3 | DCT64X64 | DCT64X32 | DCT32X64
  | DCT128X128 | DCT128X64 | DCT64X128 | DCT256X256 | DCT256X128 | DCT128X256

text \<open>The enumerators in the order of their values.\<close>

definition strategies :: "AcStrategyType list" where
  "strategies = [DCT, IDENTITY, DCT2X2, DCT4X4, DCT16X16, DCT32X32, DCT16X8, DCT8X16, DCT32X8, DCT8X32,
     DCT32X16, DCT16X32, DCT4X8, DCT8X4, AFV0, AFV1, AFV2, AFV3, DCT64X64, DCT64X32, DCT32X64,
     DCT128X128, DCT128X64, DCT64X128, DCT256X256, DCT256X128, DCT128X256]"

primrec raw :: "AcStrategyType \<Rightarrow> nat" where
  "raw DCT = 0" | "raw IDENTITY = 1" | "raw DCT2X2 = 2" | "raw DCT4X4 = 3" | "raw DCT16X16 = 4" | "raw DCT32X32 = 5"
| "raw DCT16X8 = 6" | "raw DCT8X16 = 7" | "raw DCT32X8 = 8" | "raw DCT8X32 = 9" | "raw DCT32X16 = 10" | "raw DCT16X32 = 11"
| "raw DCT4X8 = 12" | "raw DCT8X4 = 13" | "raw AFV0 = 14" | "raw AFV1 = 15" | "raw AFV2 = 16" | "raw AFV3 = 17"
| "raw DCT64X64 = 18" | "raw DCT64X32 = 19" | "raw DCT32X64 = 20" | "raw DCT128X128 = 21" | "raw DCT128X64 = 22"
| "raw DCT64X128 = 23" | "raw DCT256X256 = 24" | "raw DCT256X128 = 25" | "raw DCT128X256 = 26"

definition kNumValidStrategies :: nat where "kNumValidStrategies = raw DCT128X256 + 1"

definition FromRawStrategy :: "nat \<Rightarrow> AcStrategyType" where "FromRawStrategy o' = strategies ! o'"

definition IsRawStrategyValid :: "int \<Rightarrow> bool" where
  "IsRawStrategyValid raw_strategy \<longleftrightarrow> raw_strategy < int kNumValidStrategies \<and> raw_strategy \<ge> 0"

definition TypeBit :: "AcStrategyType \<Rightarrow> u32" where "TypeBit t = push_bit (raw t) 1"

definition IsMultiblock :: "AcStrategyType \<Rightarrow> bool" where
  "IsMultiblock acs \<longleftrightarrow>
     (let b = TypeBit DCT16X16 OR TypeBit DCT32X32 OR TypeBit DCT16X8 OR TypeBit DCT8X16 OR TypeBit DCT32X8 OR TypeBit DCT8X32
        OR TypeBit DCT16X32 OR TypeBit DCT32X16 OR TypeBit DCT32X64 OR TypeBit DCT64X32 OR TypeBit DCT64X64
        OR TypeBit DCT64X128 OR TypeBit DCT128X64 OR TypeBit DCT128X128 OR TypeBit DCT128X256 OR TypeBit DCT256X128
        OR TypeBit DCT256X256
      in push_bit (raw acs) 1 AND b \<noteq> (0 :: u32))"

definition covered_blocks_x :: "AcStrategyType \<Rightarrow> nat" where
  "covered_blocks_x acs = [1, 1, 1, 1, 2, 4, 1, 2, 1, 4, 2, 4, 1, 1, 1, 1, 1, 1, 8, 4, 8, 16, 8, 16, 32, 16, 32] ! raw acs"

definition covered_blocks_y :: "AcStrategyType \<Rightarrow> nat" where
  "covered_blocks_y acs = [1, 1, 1, 1, 2, 4, 2, 1, 4, 1, 4, 2, 1, 1, 1, 1, 1, 1, 8, 8, 4, 16, 16, 8, 32, 32, 16] ! raw acs"

definition log2_covered_blocks :: "AcStrategyType \<Rightarrow> nat" where
  "log2_covered_blocks acs = [0, 0, 0, 0, 2, 4, 1, 1, 2, 2, 3, 3, 0, 0, 0, 0, 0, 0, 6, 5, 5, 8, 7, 7, 10, 9, 9] ! raw acs"

definition CoefficientRows :: "nat \<Rightarrow> nat \<Rightarrow> nat" where
  "CoefficientRows rows columns = (if rows < columns then rows else columns)"

definition CoefficientColumns :: "nat \<Rightarrow> nat \<Rightarrow> nat" where
  "CoefficientColumns rows columns = (if rows < columns then columns else rows)"

definition CoefficientLayout :: "nat \<Rightarrow> nat \<Rightarrow> nat \<times> nat" where
  "CoefficientLayout r c = (CoefficientRows r c, CoefficientColumns r c)"

text \<open>One cell of the square that is traversed.  The two halves have the same body, but the second one never meets the low
  frequencies; the template argument selects what is stored.\<close>

definition store_coeff :: "bool \<Rightarrow> nat \<Rightarrow> nat \<Rightarrow> nat \<Rightarrow> nat \<Rightarrow> u32 list \<Rightarrow> u32 list" where
  "store_coeff is_lut cx x y v out =
     (if is_lut then out[y * cx * kBlockDim + x := of_nat v] else out[v := of_nat (y * cx * kBlockDim + x)])"

definition coeff_step :: "bool \<Rightarrow> bool \<Rightarrow> nat \<Rightarrow> nat \<Rightarrow> nat \<Rightarrow> nat \<Rightarrow> nat \<times> u32 list \<Rightarrow> nat \<times> nat \<Rightarrow> nat \<times> u32 list" where
  "coeff_step first_half is_lut cx cy xsm xss s xy =
     (let (cur, out) = s; (x, y) = xy in
      if y AND xsm \<noteq> 0 then (cur, out)
      else
        (let y = drop_bit xss y;
             (v, cur) = (if first_half \<and> x < cx \<and> y < cy then (y * cx + x, cur) else (cur, cur + 1))
         in (cur, store_coeff is_lut cx x y v out)))"

definition CoeffOrderAndLut :: "bool \<Rightarrow> AcStrategyType \<Rightarrow> u32 list \<Rightarrow> u32 list" where
  "CoeffOrderAndLut is_lut acs out =
     (let cx = covered_blocks_x acs; cy = covered_blocks_y acs;
          (cy, cx) = CoefficientLayout cy cx;
          xs = cx div cy; xsm = xs - 1; xss = CeilLog2Nonzero xs;
          s = (cx * cy, out);
          s = foldl (\<lambda>s i. foldl (\<lambda>s j.
                let x = j; y = i - j; (x, y) = (if i mod 2 \<noteq> 0 then (y, x) else (x, y))
                in coeff_step True is_lut cx cy xsm xss s (x, y)) s [0..<i + 1]) s [0..<cx * kBlockDim];
          s = foldl (\<lambda>s ip. let i = ip - 1 in foldl (\<lambda>s j.
                let x = cx * kBlockDim - 1 - (i - j); y = cx * kBlockDim - 1 - j;
                    (x, y) = (if i mod 2 \<noteq> 0 then (y, x) else (x, y))
                in coeff_step False is_lut cx cy xsm xss s (x, y)) s [0..<i + 1]) s (rev [1..<cx * kBlockDim])
      in snd s)"

definition ComputeNaturalCoeffOrder :: "AcStrategyType \<Rightarrow> u32 list \<Rightarrow> u32 list" where
  "ComputeNaturalCoeffOrder acs order = CoeffOrderAndLut False acs order"

definition ComputeNaturalCoeffOrderLut :: "AcStrategyType \<Rightarrow> u32 list \<Rightarrow> u32 list" where
  "ComputeNaturalCoeffOrderLut acs lut = CoeffOrderAndLut True acs lut"

text \<open>The image of transforms: one byte per block, twice the transform plus the mark of its first block.\<close>

definition INVALID :: u8 where "INVALID = 0xFF"

record AcStrategyImage =
  acs_xsize :: nat
  acs_ysize :: nat
  acs_stride :: nat
  acs_row :: "u8 list"

definition block_byte :: "AcStrategyType \<Rightarrow> bool \<Rightarrow> u8" where
  "block_byte t first_block = push_bit 1 (of_nat (raw t)) OR (if first_block then 1 else 0)"

fun set_blocks :: "AcStrategyType \<Rightarrow> bool \<Rightarrow> nat \<Rightarrow> nat \<Rightarrow> (nat \<times> nat) list \<Rightarrow> AcStrategyImage \<Rightarrow> StatusCode \<times> AcStrategyImage" where
  "set_blocks t guard x y [] img = (kOk, img)"
| "set_blocks t guard x y ((iy, ix) # blocks) img =
     (let pos = (y + iy) * acs_stride img + x + ix in
      if guard \<and> acs_row img ! pos \<noteq> INVALID then (kGenericError, img)
      else set_blocks t guard x y blocks (img\<lparr> acs_row := (acs_row img)[pos := block_byte t (iy OR ix = 0)] \<rparr>))"

definition SetNoBoundsCheck :: "nat \<Rightarrow> nat \<Rightarrow> AcStrategyType \<Rightarrow> bool \<Rightarrow> AcStrategyImage \<Rightarrow> StatusCode \<times> AcStrategyImage" where
  "SetNoBoundsCheck x y t guard img =
     set_blocks t guard x y (List.product [0..<covered_blocks_y t] [0..<covered_blocks_x t]) img"

definition AcStrategyImage_Set :: "nat \<Rightarrow> nat \<Rightarrow> AcStrategyType \<Rightarrow> AcStrategyImage \<Rightarrow> StatusCode \<times> AcStrategyImage" where
  "AcStrategyImage_Set x y t img = SetNoBoundsCheck x y t False img"

text \<open>The planes are filled row by row; the bytes after a row are not touched.\<close>

definition fill_rows :: "u8 \<Rightarrow> AcStrategyImage \<Rightarrow> AcStrategyImage" where
  "fill_rows v img = img\<lparr> acs_row := map (\<lambda>pos. if pos mod acs_stride img < acs_xsize img \<and> pos div acs_stride img < acs_ysize img
     then v else acs_row img ! pos) [0..<length (acs_row img)] \<rparr>"

definition FillInvalid :: "AcStrategyImage \<Rightarrow> AcStrategyImage" where "FillInvalid img = fill_rows INVALID img"

definition FillDCT8 :: "AcStrategyImage \<Rightarrow> AcStrategyImage" where "FillDCT8 img = fill_rows (block_byte DCT True) img"

definition IsValid :: "nat \<Rightarrow> nat \<Rightarrow> AcStrategyImage \<Rightarrow> bool" where
  "IsValid x y img \<longleftrightarrow> acs_row img ! (y * acs_stride img + x) \<noteq> INVALID"

definition AcStrategyRow_at :: "nat \<Rightarrow> nat \<Rightarrow> AcStrategyImage \<Rightarrow> AcStrategyType \<times> bool" where
  "AcStrategyRow_at x y img =
     (let b = acs_row img ! (y * acs_stride img + x) in (FromRawStrategy (unat (drop_bit 1 b)), b AND 1 \<noteq> 0))"

definition CountBlocks :: "AcStrategyType \<Rightarrow> AcStrategyImage \<Rightarrow> nat" where
  "CountBlocks t img =
     foldl (\<lambda>ret y. foldl (\<lambda>ret x. if acs_row img ! (y * acs_stride img + x) = block_byte t True then ret + 1 else ret)
       ret [0..<acs_xsize img]) 0 [0..<acs_ysize img]"

section \<open>The natural order\<close>

text \<open>The cells of the square in the order they are visited: each of them once.\<close>

definition first_cell :: "nat \<Rightarrow> nat \<Rightarrow> nat \<times> nat" where
  "first_cell i j = (if i mod 2 \<noteq> 0 then (i - j, j) else (j, i - j))"

definition second_cell :: "nat \<Rightarrow> nat \<Rightarrow> nat \<Rightarrow> nat \<times> nat" where
  "second_cell n i j = (if i mod 2 \<noteq> 0 then (n - 1 - j, n - 1 - (i - j)) else (n - 1 - (i - j), n - 1 - j))"

definition first_cells :: "nat \<Rightarrow> (nat \<times> nat) list" where
  "first_cells n = concat (map (\<lambda>i. map (first_cell i) [0..<i + 1]) [0..<n])"

definition second_cells :: "nat \<Rightarrow> (nat \<times> nat) list" where
  "second_cells n = concat (map (\<lambda>ip. map (second_cell n (ip - 1)) [0..<ip - 1 + 1]) (rev [1..<n]))"

lemma in_nested: "i \<in> set xs \<Longrightarrow> j \<in> set (g i) \<Longrightarrow> f i j = c \<Longrightarrow> c \<in> set (concat (map (\<lambda>i. map (f i) (g i)) xs))"
  by auto

lemma set_first_cells: "set (first_cells n) = {(x, y). x + y < n}"
proof -
  have "(x, y) \<in> set (first_cells n)" if "x + y < n" for x y
    using that unfolding first_cells_def
    by (intro in_nested [of "x + y" _ "if (x + y) mod 2 = 0 then x else y"]) (auto simp: first_cell_def)
  then show ?thesis by (auto simp: first_cells_def first_cell_def split: if_splits)
qed

lemma set_second_cells: "set (second_cells n) = {(x, y). x < n \<and> y < n \<and> n \<le> x + y}"
proof -
  have "(x, y) \<in> set (second_cells n)" if c: "x < n" "y < n" "n \<le> x + y" for x y
    using c unfolding second_cells_def
    by (intro in_nested [of "2 * n - 1 - (x + y)" _ "if (2 * n - 2 - (x + y)) mod 2 = 0 then n - 1 - y else n - 1 - x"])
      (auto simp: second_cell_def)
  then show ?thesis by (auto simp: second_cells_def second_cell_def split: if_splits)
qed

definition zigzag :: "nat \<Rightarrow> (nat \<times> nat) list" where
  "zigzag n = first_cells n @ second_cells n"

lemma length_first_cells: "2 * length (first_cells n) = n * (n + 1)"
  by (induction n) (simp_all add: first_cells_def)

lemma length_second_cells: "2 * length (second_cells n) = n * (n - 1)"
proof (induction n)
  case (Suc n)
  have "length (second_cells (Suc n)) = length (second_cells n) + n"
    by (cases n) (simp_all add: second_cells_def length_concat comp_def)
  then show ?case using Suc by (cases n) simp_all
qed (simp add: second_cells_def)

lemma zigzag_once: "distinct (zigzag n)" "set (zigzag n) = {..<n} \<times> {..<n}"
proof -
  show s: "set (zigzag n) = {..<n} \<times> {..<n}" by (auto simp: zigzag_def set_first_cells set_second_cells)
  have "2 * length (zigzag n) = 2 * (n * n)"
    using length_first_cells [of n] length_second_cells [of n] by (cases n) (simp_all add: zigzag_def)
  then show "distinct (zigzag n)" using s by (intro card_distinct) simp
qed

lemma foldl_nested: "foldl (\<lambda>s i. foldl (\<lambda>s j. h s (f i j)) s (g i)) s xs = foldl h s (concat (map (\<lambda>i. map (f i) (g i)) xs))"
proof -
  have "foldl (\<lambda>s j. h s (f i j)) s js = foldl h s (map (f i) js)" for s i js by (induction js arbitrary: s) simp_all
  then show ?thesis by (induction xs arbitrary: s) simp_all
qed

lemma CoeffOrderAndLut_cells:
  assumes "CoefficientLayout (covered_blocks_y acs) (covered_blocks_x acs) = (cy, cx)"
  shows "CoeffOrderAndLut is_lut acs out = snd (foldl (coeff_step False is_lut cx cy (cx div cy - 1) (CeilLog2Nonzero (cx div cy)))
    (foldl (coeff_step True is_lut cx cy (cx div cy - 1) (CeilLog2Nonzero (cx div cy))) (cx * cy, out) (first_cells (cx * kBlockDim)))
    (second_cells (cx * kBlockDim)))"
  unfolding first_cells_def second_cells_def foldl_nested [symmetric]
  unfolding CoeffOrderAndLut_def assms Let_def prod.case first_cell_def second_cell_def
  by (intro arg_cong [where f = snd] arg_cong2 [where f = "\<lambda>f s. foldl f s _"] ext refl) (simp_all cong: if_cong)

text \<open>The numbers that the cells get.\<close>

fun number_cells :: "nat \<Rightarrow> nat \<Rightarrow> nat \<Rightarrow> (nat \<times> nat) list \<Rightarrow> nat list" where
  "number_cells cx cy cur [] = []"
| "number_cells cx cy cur ((x, y) # cs) =
     (if x < cx \<and> y < cy then (y * cx + x) # number_cells cx cy cur cs else cur # number_cells cx cy (cur + 1) cs)"

lemma length_number_cells [simp]: "length (number_cells cx cy cur cs) = length cs"
  by (induction cs arbitrary: cur) auto

lemma number_low: "i < length cs \<Longrightarrow> cs ! i = (x, y) \<Longrightarrow> x < cx \<Longrightarrow> y < cy \<Longrightarrow> number_cells cx cy cur cs ! i = y * cx + x"
proof (induction cs arbitrary: cur i)
  case (Cons c cs)
  then show ?case by (cases c; cases i) auto
qed simp

lemma set_number_cells:
  "set (number_cells cx cy cur cs) = (\<lambda>(x, y). y * cx + x) ` {(x, y) \<in> set cs. x < cx \<and> y < cy} \<union>
     {cur..<cur + length (filter (\<lambda>(x, y). \<not> (x < cx \<and> y < cy)) cs)}"
proof (induction cs arbitrary: cur)
  case (Cons c cs)
  obtain x y where c: "c = (x, y)" by fastforce
  show ?case
  proof (cases "x < cx \<and> y < cy")
    case True
    then have "{(x, y) \<in> set (c # cs). x < cx \<and> y < cy} = insert (x, y) {(x, y) \<in> set cs. x < cx \<and> y < cy}" by (auto simp: c)
    then show ?thesis using True Cons by (simp add: c)
  next
    case False
    then have "{(x, y) \<in> set (c # cs). x < cx \<and> y < cy} = {(x, y) \<in> set cs. x < cx \<and> y < cy}" by (auto simp: c)
    moreover have "{cur..<cur + Suc k} = insert cur {cur + 1..<cur + 1 + k}" for k by auto
    ultimately show ?thesis using False Cons by (auto simp: c)
  qed
qed simp

lemma grid_image: "(\<lambda>(x, y). y * w + x) ` ({..<w} \<times> {..<h}) = {..<w * h :: nat}"
proof (intro set_eqI iffI)
  fix k assume "k \<in> (\<lambda>(x, y). y * w + x) ` ({..<w} \<times> {..<h})"
  then obtain x y where k: "k = y * w + x" "x < w" "y < h" by auto
  have "y * w + x < Suc y * w" using k by simp
  also have "\<dots> \<le> h * w" using k by (intro mult_le_mono1) simp
  finally show "k \<in> {..<w * h}" by (simp add: k mult.commute)
next
  fix k assume k: "k \<in> {..<w * h}"
  then have "0 < w" by (cases w) auto
  then show "k \<in> (\<lambda>(x, y). y * w + x) ` ({..<w} \<times> {..<h})"
    using k by (intro rev_image_eqI [of "(k mod w, k div w)"]) (auto simp: less_mult_imp_div_less mult.commute)
qed

lemma number_cells_permutation:
  assumes "distinct cs" "set cs = {..<w} \<times> {..<h}" "cx \<le> w" "cy \<le> h"
  shows "distinct (number_cells cx cy (cx * cy) cs)" "set (number_cells cx cy (cx * cy) cs) = {..<w * h}"
proof -
  let ?low = "\<lambda>(x, y). x < cx \<and> y < cy"
  have l: "length cs = w * h" using distinct_card [OF assms(1)] assms(2) by (simp add: card_cartesian_product)
  have low: "{(x, y) \<in> set cs. x < cx \<and> y < cy} = {..<cx} \<times> {..<cy}"
    unfolding assms(2) using assms(3,4) by (auto dest: less_le_trans)
  have "{c. (\<lambda>(x, y). x < cx \<and> y < cy) c} \<inter> set cs = {..<cx} \<times> {..<cy}"
    unfolding assms(2) using assms(3,4) by (auto dest: less_le_trans)
  then have "length (filter ?low cs) = cx * cy"
    unfolding distinct_length_filter [OF assms(1), of ?low] by (simp add: card_cartesian_product)
  then have f: "length (filter (\<lambda>(x, y). \<not> (x < cx \<and> y < cy)) cs) = w * h - cx * cy"
    using sum_length_filter_compl [of ?low cs] l by (simp add: case_prod_unfold)
  have "cx * cy \<le> w * h" using assms(3,4) by (rule mult_le_mono)
  then show s: "set (number_cells cx cy (cx * cy) cs) = {..<w * h}"
    unfolding set_number_cells low grid_image f by auto
  then show "distinct (number_cells cx cy (cx * cy) cs)" using l by (intro card_distinct) simp
qed

lemma foldl_updates:
  "distinct (map fst kvs) \<Longrightarrow> \<forall>k \<in> fst ` set kvs. k < length out \<Longrightarrow>
     length (foldl (\<lambda>out (k, v). out[k := v]) out kvs) = length out \<and>
     (\<forall>(k, v) \<in> set kvs. foldl (\<lambda>out (k, v). out[k := v]) out kvs ! k = v) \<and>
     (\<forall>k. k \<notin> fst ` set kvs \<longrightarrow> foldl (\<lambda>out (k, v). out[k := v]) out kvs ! k = out ! k)"
proof (induction kvs arbitrary: out)
  case (Cons kv kvs)
  obtain k v where kv: "kv = (k, v)" by fastforce
  have "distinct (map fst kvs)" "\<forall>j \<in> fst ` set kvs. j < length (out[k := v])" "k \<notin> fst ` set kvs" "k < length out"
    using Cons.prems by (auto simp: kv)
  then show ?case using Cons.IH [of "out[k := v]"] by (auto simp: kv)
qed simp

definition kept_cells :: "nat \<Rightarrow> (nat \<times> nat) list \<Rightarrow> (nat \<times> nat) list" where
  "kept_cells k cs = map (\<lambda>(x, y). (x, y div 2 ^ k)) (filter (\<lambda>(x, y). y mod 2 ^ k = 0) cs)"

lemma kept_cells_once:
  "distinct (kept_cells k (zigzag (h * 2 ^ k)))" "set (kept_cells k (zigzag (h * 2 ^ k))) = {..<h * 2 ^ k} \<times> {..<h}"
proof -
  let ?n = "h * 2 ^ k"
  have "inj_on (\<lambda>(x, y). (x, y div 2 ^ k)) {(x, y :: nat). y mod 2 ^ k = 0}"
    by (intro inj_onI) (auto simp: mod_0_imp_dvd dvd_div_eq_iff)
  then show "distinct (kept_cells k (zigzag ?n))"
    unfolding kept_cells_def distinct_map using zigzag_once(1) by (auto intro: inj_on_subset)
  have "(x, y) \<in> set (kept_cells k (zigzag ?n))" if "x < ?n" "y < h" for x y
    unfolding kept_cells_def set_map set_filter zigzag_once(2)
    by (rule rev_image_eqI [of "(x, y * 2 ^ k)"]) (use that in auto)
  moreover have "y div 2 ^ k < h" if "y < ?n" for y using that by (simp add: less_mult_imp_div_less)
  ultimately show "set (kept_cells k (zigzag ?n)) = {..<?n} \<times> {..<h}"
    by (auto simp: kept_cells_def zigzag_once(2))
qed

lemma coeff_steps_kept:
  "\<exists>cur'. foldl (coeff_step True is_lut cx cy (2 ^ k - 1) k) (cur, out) cs = (cur',
     foldl (\<lambda>out ((x, y), v). store_coeff is_lut cx x y v out) out
       (zip (kept_cells k cs) (number_cells cx cy cur (kept_cells k cs))))"
proof (induction cs arbitrary: cur out)
  case (Cons c cs)
  obtain x y where c: "c = (x, y)" by fastforce
  note a = nat_and_mask [of y k, unfolded One_nat_def]
  have d: "drop_bit k y = y div 2 ^ k" by (simp add: drop_bit_eq_div)
  show ?case
    using Cons.IH by (auto simp: c a d coeff_step_def kept_cells_def Let_def split: if_splits)
qed (simp add: kept_cells_def)

lemma second_half_step:
  assumes "0 < cy" "cx = cy * 2 ^ k"
  shows "foldl (coeff_step False is_lut cx cy xsm k) s (second_cells (cx * kBlockDim)) =
    foldl (coeff_step True is_lut cx cy xsm k) s (second_cells (cx * kBlockDim))"
proof (rule foldl_cong [OF refl refl])
  fix s :: "nat \<times> u32 list" and c assume "c \<in> set (second_cells (cx * kBlockDim))"
  then obtain x y where c: "c = (x, y)" "cx * kBlockDim \<le> x + y" by (auto simp: set_second_cells)
  have "\<not> (x < cx \<and> drop_bit k y < cy)"
  proof
    assume "x < cx \<and> drop_bit k y < cy"
    then have x: "x < cx" and "y div 2 ^ k < cy" by (simp_all add: drop_bit_eq_div)
    then have "y < cy * 2 ^ k" by (simp add: div_less_iff_less_mult)
    then show False using x c(2) assms(2) by (simp add: kBlockDim_def)
  qed
  then show "coeff_step False is_lut cx cy xsm k s c = coeff_step True is_lut cx cy xsm k s c"
    by (cases s) (auto simp: coeff_step_def c Let_def)
qed

text \<open>The rows and columns of coefficients of a transform, in blocks.\<close>

definition rows :: "AcStrategyType \<Rightarrow> nat" where
  "rows acs = fst (CoefficientLayout (covered_blocks_y acs) (covered_blocks_x acs))"

definition columns :: "AcStrategyType \<Rightarrow> nat" where
  "columns acs = snd (CoefficientLayout (covered_blocks_y acs) (covered_blocks_x acs))"

lemma small_logs: "CeilLog2Nonzero 1 = 0" "CeilLog2Nonzero (Suc 0) = 0" "CeilLog2Nonzero 2 = 1" "CeilLog2Nonzero 4 = 2"
  by code_simp+

lemma layout_facts:
  "0 < rows acs" "columns acs = rows acs * 2 ^ CeilLog2Nonzero (columns acs div rows acs)" "columns acs \<le> 32"
  "covered_blocks_x acs * covered_blocks_y acs = columns acs * rows acs" "rows acs \<le> columns acs"
  using small_logs by (cases acs; simp add: rows_def columns_def covered_blocks_x_def covered_blocks_y_def CoefficientLayout_def
    CoefficientRows_def CoefficientColumns_def)+

text \<open>The kept cells in their order, and their numbers.\<close>

definition coeff_cells :: "AcStrategyType \<Rightarrow> (nat \<times> nat) list" where
  "coeff_cells acs = kept_cells (CeilLog2Nonzero (columns acs div rows acs)) (zigzag (columns acs * kBlockDim))"

definition coeff_positions :: "AcStrategyType \<Rightarrow> nat list" where
  "coeff_positions acs = map (\<lambda>(x, y). y * (columns acs * kBlockDim) + x) (coeff_cells acs)"

definition coeff_numbers :: "AcStrategyType \<Rightarrow> nat list" where
  "coeff_numbers acs = number_cells (columns acs) (rows acs) (columns acs * rows acs) (coeff_cells acs)"

definition num_coeffs :: "AcStrategyType \<Rightarrow> nat" where
  "num_coeffs acs = kBlockDim * kBlockDim * (covered_blocks_x acs * covered_blocks_y acs)"

lemma coeff_cells_once:
  "distinct (coeff_cells acs)" "set (coeff_cells acs) = {..<columns acs * kBlockDim} \<times> {..<rows acs * kBlockDim}"
proof -
  let ?k = "CeilLog2Nonzero (columns acs div rows acs)"
  have "columns acs * kBlockDim = (rows acs * kBlockDim) * 2 ^ ?k" using layout_facts(2) [of acs] by (metis mult.assoc mult.commute)
  then show "distinct (coeff_cells acs)" "set (coeff_cells acs) = {..<columns acs * kBlockDim} \<times> {..<rows acs * kBlockDim}"
    unfolding coeff_cells_def using kept_cells_once [of ?k "rows acs * kBlockDim"] by metis+
qed

lemma coeff_tables:
  "distinct (coeff_positions acs)" "set (coeff_positions acs) = {..<num_coeffs acs}"
  "distinct (coeff_numbers acs)" "set (coeff_numbers acs) = {..<num_coeffs acs}"
  "length (coeff_positions acs) = num_coeffs acs" "length (coeff_numbers acs) = num_coeffs acs"
proof -
  have n: "columns acs * kBlockDim * (rows acs * kBlockDim) = num_coeffs acs"
    by (simp add: num_coeffs_def layout_facts(4))
  show p: "set (coeff_positions acs) = {..<num_coeffs acs}"
    unfolding coeff_positions_def set_map coeff_cells_once(2) grid_image n by simp
  have l: "length (coeff_cells acs) = num_coeffs acs"
    using distinct_card [OF coeff_cells_once(1), of acs] n by (simp add: coeff_cells_once(2) card_cartesian_product)
  then show "length (coeff_positions acs) = num_coeffs acs" "length (coeff_numbers acs) = num_coeffs acs"
    by (simp_all add: coeff_positions_def coeff_numbers_def)
  then show "distinct (coeff_positions acs)" using p by (intro card_distinct) simp
  have "columns acs \<le> columns acs * kBlockDim" "rows acs \<le> rows acs * kBlockDim" by (simp_all add: kBlockDim_def)
  from number_cells_permutation [OF coeff_cells_once this]
  show "distinct (coeff_numbers acs)" "set (coeff_numbers acs) = {..<num_coeffs acs}"
    by (simp_all add: coeff_numbers_def n)
qed

lemma CoeffOrderAndLut_stores:
  "CoeffOrderAndLut is_lut acs out = foldl (\<lambda>out (k, v). out[k := v]) out
     (if is_lut then zip (coeff_positions acs) (map of_nat (coeff_numbers acs))
      else zip (coeff_numbers acs) (map of_nat (coeff_positions acs)))"
proof -
  let ?k = "CeilLog2Nonzero (columns acs div rows acs)"
  have layout: "CoefficientLayout (covered_blocks_y acs) (covered_blocks_x acs) = (rows acs, columns acs)"
    by (simp add: rows_def columns_def)
  have d: "columns acs div rows acs = 2 ^ ?k" using layout_facts(1,2) [of acs] by (metis nonzero_mult_div_cancel_left less_not_refl2)
  obtain cur' where "foldl (coeff_step True is_lut (columns acs) (rows acs) (2 ^ ?k - 1) ?k) (columns acs * rows acs, out)
      (zigzag (columns acs * kBlockDim)) = (cur', foldl (\<lambda>out ((x, y), v). store_coeff is_lut (columns acs) x y v out) out
        (zip (coeff_cells acs) (coeff_numbers acs)))"
    using coeff_steps_kept unfolding coeff_cells_def coeff_numbers_def by blast
  then have "CoeffOrderAndLut is_lut acs out = foldl (\<lambda>out ((x, y), v). store_coeff is_lut (columns acs) x y v out) out
      (zip (coeff_cells acs) (coeff_numbers acs))"
    using CoeffOrderAndLut_cells [OF layout, of is_lut out] second_half_step [OF layout_facts(1,2)]
    unfolding zigzag_def foldl_append d [symmetric] by simp
  also have "\<dots> = foldl (\<lambda>out (k, v). out[k := v]) out
     (if is_lut then zip (coeff_positions acs) (map of_nat (coeff_numbers acs))
      else zip (coeff_numbers acs) (map of_nat (coeff_positions acs)))"
  proof -
    have "foldl (\<lambda>out ((x, y), v). store_coeff is_lut cx x y v out) out (zip cs vs) = foldl (\<lambda>out (k, v). out[k := v]) out
      (if is_lut then zip (map (\<lambda>(x, y). y * (cx * kBlockDim) + x) cs) (map of_nat vs)
       else zip vs (map of_nat (map (\<lambda>(x, y). y * (cx * kBlockDim) + x) cs)))" for cx cs vs
      by (induction cs arbitrary: vs out; case_tac vs) (auto simp: store_coeff_def mult.assoc)
    then show ?thesis unfolding coeff_positions_def .
  qed
  finally show ?thesis .
qed

lemma stores_permuted:
  assumes "distinct ks" "set ks = {..<n}" "length ks = n" "length vs = n" "n \<le> length out"
  defines "out' \<equiv> foldl (\<lambda>out (k, v). out[k := v]) out (zip ks vs)"
  shows "length out' = length out" "i < n \<Longrightarrow> out' ! (ks ! i) = vs ! i"
proof -
  have m: "map fst (zip ks vs) = ks" using assms(3,4) by simp
  then have "fst ` set (zip ks vs) = {..<n}" using assms(2) by (metis set_map)
  then have "distinct (map fst (zip ks vs))" "\<forall>k \<in> fst ` set (zip ks vs). k < length out" using m assms(1,5) by auto
  note F = foldl_updates [OF this, folded out'_def]
  then show "length out' = length out" by simp
  assume "i < n"
  then have "(ks ! i, vs ! i) \<in> set (zip ks vs)" using assms(3,4) by (auto simp: in_set_zip)
  then show "out' ! (ks ! i) = vs ! i" using F by fastforce
qed

lemma natural_order_entries:
  assumes "num_coeffs acs \<le> length out"
  shows "i < num_coeffs acs \<Longrightarrow> ComputeNaturalCoeffOrder acs out ! (coeff_numbers acs ! i) = of_nat (coeff_positions acs ! i)"
    "i < num_coeffs acs \<Longrightarrow> ComputeNaturalCoeffOrderLut acs out ! (coeff_positions acs ! i) = of_nat (coeff_numbers acs ! i)"
    "length (ComputeNaturalCoeffOrder acs out) = length out" "length (ComputeNaturalCoeffOrderLut acs out) = length out"
  using stores_permuted [of "coeff_numbers acs" "num_coeffs acs" "map of_nat (coeff_positions acs)" out]
    stores_permuted [of "coeff_positions acs" "num_coeffs acs" "map of_nat (coeff_numbers acs)" out] coeff_tables [of acs] assms
  by (simp_all add: ComputeNaturalCoeffOrder_def ComputeNaturalCoeffOrderLut_def CoeffOrderAndLut_stores)

lemma index_of: "set ks = {..<n :: nat} \<Longrightarrow> length ks = n \<Longrightarrow> k < n \<Longrightarrow> \<exists>i < n. k = ks ! i"
proof -
  assume "set ks = {..<n}" "length ks = n" "k < n"
  then have "k \<in> set ks" "length ks = n" by simp_all
  then show "\<exists>i < n. k = ks ! i" unfolding in_set_conv_nth by blast
qed

lemma num_coeffs_bound: "num_coeffs acs \<le> 65536"
proof -
  have "rows acs \<le> 32" using layout_facts(3,5) [of acs] by linarith
  then have "columns acs * rows acs \<le> 32 * 32" using layout_facts(3) [of acs] by (intro mult_le_mono)
  then show ?thesis by (simp add: num_coeffs_def layout_facts(4) kBlockDim_def)
qed

lemma indexed_permutation:
  assumes "distinct ks" "set ks = {..<n}" "length ks = n" "distinct vs" "set vs = {..<n}" "length vs = n" "n < 2 ^ 32"
    and "length (out :: u32 list) = n" "\<And>i. i < n \<Longrightarrow> out ! (ks ! i) = of_nat (vs ! i)"
  shows "is_permutation out"
proof -
  have "map unat out ! (ks ! i) = vs ! i" if "i < n" for i
  proof -
    have "vs ! i < n" "ks ! i < n" using assms(2,3,5,6) that nth_mem [of i vs] nth_mem [of i ks] by auto
    then show ?thesis using assms(7,8) assms(9) [OF that] by (simp add: unat_of_nat_id)
  qed
  then have "set vs \<subseteq> set (map unat out)"
  proof (intro subsetI)
    fix v assume m: "\<And>i. i < n \<Longrightarrow> map unat out ! (ks ! i) = vs ! i" and "v \<in> set vs"
    then obtain i where i: "i < n" "v = vs ! i" using assms(6) by (auto simp: in_set_conv_nth)
    then have "ks ! i < n" using assms(2,3) nth_mem [of i ks] by auto
    then have "map unat out ! (ks ! i) \<in> set (map unat out)" using assms(8) by (intro nth_mem) simp
    then show "v \<in> set (map unat out)" using m [OF i(1)] i(2) by simp
  qed
  moreover have "card (set (map unat out)) \<le> n" using card_length [of "map unat out"] assms(8) by simp
  ultimately have s: "set (map unat out) = {..<n}" using assms(5)
    by (intro card_seteq [symmetric]) simp_all
  then have "distinct (map unat out)" using assms(8) by (intro card_distinct) simp
  then have "distinct out" by (simp only: distinct_map)
  then show ?thesis using s assms(8) by (auto simp: is_permutation_def)
qed

text \<open>An order of the coefficients of a transform that keeps the low frequencies first.\<close>

definition coeff_order_ok :: "AcStrategyType \<Rightarrow> u32 list \<Rightarrow> bool" where
  "coeff_order_ok acs order \<longleftrightarrow> is_permutation order \<and> length order = num_coeffs acs \<and>
     (\<forall>y < rows acs. \<forall>x < columns acs. unat (order ! (y * columns acs + x)) = y * (columns acs * kBlockDim) + x)"

lemma coeff_table_values:
  assumes "i < num_coeffs acs"
  shows "coeff_numbers acs ! i < num_coeffs acs" "coeff_positions acs ! i < num_coeffs acs"
  using assms coeff_tables [of acs] nth_mem [of i "coeff_numbers acs"] nth_mem [of i "coeff_positions acs"] by auto

lemma natural_order_unat:
  assumes "num_coeffs acs \<le> length out" "i < num_coeffs acs"
  shows "unat (ComputeNaturalCoeffOrder acs out ! (coeff_numbers acs ! i)) = coeff_positions acs ! i"
    "unat (ComputeNaturalCoeffOrderLut acs out ! (coeff_positions acs ! i)) = coeff_numbers acs ! i"
  using natural_order_entries(1,2) [OF assms] coeff_table_values [OF assms(2)] num_coeffs_bound [of acs]
  by (simp_all add: unat_of_nat_id)

lemma natural_order_ok:
  assumes "num_coeffs acs \<le> length out"
  shows "coeff_order_ok acs (take (num_coeffs acs) (ComputeNaturalCoeffOrder acs out))"
proof -
  let ?n = "num_coeffs acs" and ?o = "take (num_coeffs acs) (ComputeNaturalCoeffOrder acs out)"
  note T = coeff_tables [of acs] and E = natural_order_entries [OF assms]
  have len: "length ?o = ?n" using assms E(3) by simp
  have n: "?n < 2 ^ 32" using num_coeffs_bound [of acs] by simp
  have e: "?o ! (coeff_numbers acs ! i) = of_nat (coeff_positions acs ! i)" if "i < ?n" for i
    using E(1) [OF that] coeff_table_values(1) [OF that] by simp
  have "is_permutation ?o" by (rule indexed_permutation [OF T(3,4,6) T(1,2,5) n len e])
  moreover have "unat (?o ! (y * columns acs + x)) = y * (columns acs * kBlockDim) + x"
    if xy: "y < rows acs" "x < columns acs" for x y
  proof -
    have "(x, y) \<in> set (coeff_cells acs)" using xy by (simp add: coeff_cells_once(2) kBlockDim_def)
    then obtain i where i: "i < length (coeff_cells acs)" "coeff_cells acs ! i = (x, y)" by (metis in_set_conv_nth)
    then have l: "i < ?n" using T(5) by (simp add: coeff_positions_def)
    have "coeff_numbers acs ! i = y * columns acs + x"
      unfolding coeff_numbers_def by (rule number_low [OF i xy(2,1)])
    moreover have "coeff_positions acs ! i = y * (columns acs * kBlockDim) + x" using i by (simp add: coeff_positions_def)
    ultimately show ?thesis using natural_order_unat(1) [OF assms l] coeff_table_values(1) [OF l] by simp
  qed
  ultimately show ?thesis using len by (simp add: coeff_order_ok_def)
qed

text \<open>C31: For each of the 27 transforms the natural order and its table are permutations of the coefficients and inverse to
  each other, whatever the memory held before; the low frequencies, one per covered block, come first, and entry
  \<open>y * columns + x\<close> of them is the coefficient in row \<open>y\<close> and column \<open>x\<close>.\<close>

theorem NaturalCoeffOrder_correct:
  assumes "length mem1 = num_coeffs acs" "length mem2 = num_coeffs acs"
  shows "is_permutation (ComputeNaturalCoeffOrder acs mem1) \<and> is_permutation (ComputeNaturalCoeffOrderLut acs mem2) \<and>
    length (ComputeNaturalCoeffOrder acs mem1) = num_coeffs acs \<and>
    (\<forall>k < num_coeffs acs.
      unat (ComputeNaturalCoeffOrderLut acs mem2 ! unat (ComputeNaturalCoeffOrder acs mem1 ! k)) = k \<and>
      unat (ComputeNaturalCoeffOrder acs mem1 ! unat (ComputeNaturalCoeffOrderLut acs mem2 ! k)) = k) \<and>
    (\<forall>y < rows acs. \<forall>x < columns acs.
      unat (ComputeNaturalCoeffOrder acs mem1 ! (y * columns acs + x)) = y * (columns acs * kBlockDim) + x)"
proof -
  let ?n = "num_coeffs acs"
  have m: "num_coeffs acs \<le> length mem1" "num_coeffs acs \<le> length mem2" using assms by simp_all
  note T = coeff_tables [of acs] and E = natural_order_entries [OF m(2)]
  note u = natural_order_unat(1) [OF m(1)] natural_order_unat(2) [OF m(2)]
  have n: "?n < 2 ^ 32" using num_coeffs_bound [of acs] by simp
  have "coeff_order_ok acs (ComputeNaturalCoeffOrder acs mem1)"
    using natural_order_ok [OF m(1)] natural_order_entries(3) [OF m(1)] assms by simp
  moreover have "is_permutation (ComputeNaturalCoeffOrderLut acs mem2)"
    by (rule indexed_permutation [OF T(1,2,5) T(3,4,6) n E(4) [unfolded assms] E(2)])
  moreover have "unat (ComputeNaturalCoeffOrderLut acs mem2 ! unat (ComputeNaturalCoeffOrder acs mem1 ! k)) = k" if k: "k < ?n" for k
  proof -
    obtain i where "i < ?n" "k = coeff_numbers acs ! i" using index_of [OF T(4,6) k] by blast
    then show ?thesis using u [of i] by simp
  qed
  moreover have "unat (ComputeNaturalCoeffOrder acs mem1 ! unat (ComputeNaturalCoeffOrderLut acs mem2 ! k)) = k" if k: "k < ?n" for k
  proof -
    obtain i where "i < ?n" "k = coeff_positions acs ! i" using index_of [OF T(2,5) k] by blast
    then show ?thesis using u [of i] by simp
  qed
  ultimately show ?thesis unfolding coeff_order_ok_def by blast
qed

lemma NaturalCoeffOrder_correct_witness:
  "is_permutation (ComputeNaturalCoeffOrder DCT16X8 (replicate 128 7)) \<and>
    unat (ComputeNaturalCoeffOrder DCT16X8 (replicate 128 7) ! 1) = 1"
proof -
  have n: "num_coeffs DCT16X8 = 128" "columns DCT16X8 = 2" "rows DCT16X8 = 1" by code_simp+
  have "length (replicate 128 (7 :: u32)) = num_coeffs DCT16X8" by (simp add: n)
  from NaturalCoeffOrder_correct [OF this this] show ?thesis unfolding n by fastforce
qed

section \<open>The image of transforms\<close>

text \<open>What the image stands for: a list of transforms with their places that do not overlap.\<close>

type_synonym placement = "nat \<times> nat \<times> AcStrategyType"

fun covers_block :: "placement \<Rightarrow> nat \<Rightarrow> nat \<Rightarrow> bool" where
  "covers_block (x, y, t) bx by' \<longleftrightarrow> x \<le> bx \<and> bx < x + covered_blocks_x t \<and> y \<le> by' \<and> by' < y + covered_blocks_y t"

fun placed_byte :: "placement \<Rightarrow> nat \<Rightarrow> nat \<Rightarrow> u8" where
  "placed_byte (x, y, t) bx by' = block_byte t (bx = x \<and> by' = y)"

definition image_of :: "placement list \<Rightarrow> nat \<Rightarrow> nat \<Rightarrow> u8" where
  "image_of ps bx by' = (case find (\<lambda>p. covers_block p bx by') ps of None \<Rightarrow> INVALID | Some p \<Rightarrow> placed_byte p bx by')"

definition represents_image :: "AcStrategyImage \<Rightarrow> placement list \<Rightarrow> bool" where
  "represents_image img ps \<longleftrightarrow> acs_xsize img \<le> acs_stride img \<and> acs_stride img * acs_ysize img \<le> length (acs_row img) \<and>
     (\<forall>y < acs_ysize img. \<forall>x < acs_xsize img. acs_row img ! (y * acs_stride img + x) = image_of ps x y) \<and>
     (\<forall>(x, y, t) \<in> set ps. x + covered_blocks_x t \<le> acs_xsize img \<and> y + covered_blocks_y t \<le> acs_ysize img) \<and>
     sorted_wrt (\<lambda>p q. \<forall>x y. \<not> (covers_block p x y \<and> covers_block q x y)) ps"

lemma covered_blocks_pos: "0 < covered_blocks_x t" "0 < covered_blocks_y t"
  by (cases t; simp add: covered_blocks_x_def covered_blocks_y_def)+

lemma FromRawStrategy_raw: "FromRawStrategy (raw t) = t" "raw t < 27"
  by (cases t; simp add: FromRawStrategy_def strategies_def)+

lemma block_byte_fields: "drop_bit 1 (block_byte t b) = of_nat (raw t)" "bit (block_byte t b) 0 = b" "block_byte t b \<noteq> INVALID"
proof -
  show "drop_bit 1 (block_byte t b) = of_nat (raw t)" "bit (block_byte t b) 0 = b" "block_byte t b \<noteq> INVALID"
    by (cases t; cases b; simp add: block_byte_def INVALID_def)+
qed

lemma block_byte_eq: "block_byte t b = block_byte t' b' \<longleftrightarrow> t = t' \<and> b = b'"
proof
  assume e: "block_byte t b = block_byte t' b'"
  then have "b = b'" using block_byte_fields(2) by metis
  have "(of_nat (raw t) :: u8) = of_nat (raw t')" using e block_byte_fields(1) by metis
  then have "unat (of_nat (raw t) :: u8) = unat (of_nat (raw t') :: u8)" by simp
  then have "raw t = raw t'" using FromRawStrategy_raw(2) [of t] FromRawStrategy_raw(2) [of t'] by (simp add: unat_of_nat_id)
  then show "t = t' \<and> b = b'" using FromRawStrategy_raw(1) \<open>b = b'\<close> by metis
qed simp

fun block_pos :: "nat \<Rightarrow> nat \<Rightarrow> nat \<Rightarrow> nat \<times> nat \<Rightarrow> nat" where
  "block_pos stride x y (iy, ix) = (y + iy) * stride + x + ix"

lemma set_blocks_result:
  "distinct (map (block_pos (acs_stride img) x y) blocks) \<Longrightarrow> \<forall>b \<in> set blocks. block_pos (acs_stride img) x y b < length (acs_row img) \<Longrightarrow>
    (fst (set_blocks t guard x y blocks img) = kOk \<longleftrightarrow>
       (guard \<longrightarrow> (\<forall>b \<in> set blocks. acs_row img ! block_pos (acs_stride img) x y b = INVALID))) \<and>
    (fst (set_blocks t guard x y blocks img) = kOk \<longrightarrow>
       (\<exists>row. snd (set_blocks t guard x y blocks img) = img\<lparr> acs_row := row \<rparr> \<and> length row = length (acs_row img) \<and>
         (\<forall>(iy, ix) \<in> set blocks. row ! block_pos (acs_stride img) x y (iy, ix) = block_byte t (iy OR ix = 0)) \<and>
         (\<forall>k. k \<notin> block_pos (acs_stride img) x y ` set blocks \<longrightarrow> row ! k = acs_row img ! k)))"
proof (induction blocks arbitrary: img)
  case Nil
  then show ?case by (auto intro: exI [of _ "acs_row img"])
next
  case (Cons b blocks)
  obtain iy ix where b: "b = (iy, ix)" by fastforce
  let ?p = "block_pos (acs_stride img) x y"
  let ?img = "img\<lparr> acs_row := (acs_row img)[?p b := block_byte t (iy OR ix = 0)] \<rparr>"
  have s: "acs_stride ?img = acs_stride img" by simp
  have new: "?p b \<notin> ?p ` set blocks" "?p b < length (acs_row img)" using Cons.prems by auto
  have old: "acs_row ?img ! ?p c = acs_row img ! ?p c" if "c \<in> set blocks" for c
    using new that by (metis AcStrategyImage.select_convs(4) AcStrategyImage.surjective AcStrategyImage.update_convs(4) image_eqI nth_list_update_neq)
  have IH: "(fst (set_blocks t guard x y blocks ?img) = kOk \<longleftrightarrow>
       (guard \<longrightarrow> (\<forall>b \<in> set blocks. acs_row ?img ! ?p b = INVALID))) \<and>
    (fst (set_blocks t guard x y blocks ?img) = kOk \<longrightarrow>
       (\<exists>row. snd (set_blocks t guard x y blocks ?img) = ?img\<lparr> acs_row := row \<rparr> \<and> length row = length (acs_row ?img) \<and>
         (\<forall>(iy, ix) \<in> set blocks. row ! ?p (iy, ix) = block_byte t (iy OR ix = 0)) \<and>
         (\<forall>k. k \<notin> ?p ` set blocks \<longrightarrow> row ! k = acs_row ?img ! k)))"
    using Cons.IH [of ?img] Cons.prems unfolding s by simp
  have step: "set_blocks t guard x y (b # blocks) img =
      (if guard \<and> acs_row img ! ?p b \<noteq> INVALID then (kGenericError, img) else set_blocks t guard x y blocks ?img)"
    by (simp add: b Let_def)
  have eq: "(\<forall>c \<in> set blocks. acs_row ?img ! ?p c = INVALID) \<longleftrightarrow> (\<forall>c \<in> set blocks. acs_row img ! ?p c = INVALID)"
    using old by simp
  show ?case
  proof (cases "guard \<and> acs_row img ! ?p b \<noteq> INVALID")
    case True
    then show ?thesis unfolding step by (auto simp: b)
  next
    case False
    have "fst (set_blocks t guard x y (b # blocks) img) = kOk \<longleftrightarrow>
        (guard \<longrightarrow> (\<forall>b \<in> set (b # blocks). acs_row img ! ?p b = INVALID))"
      unfolding step using False IH eq by auto
    moreover have "\<exists>row. snd (set_blocks t guard x y (b # blocks) img) = img\<lparr> acs_row := row \<rparr> \<and> length row = length (acs_row img) \<and>
         (\<forall>(iy, ix) \<in> set (b # blocks). row ! ?p (iy, ix) = block_byte t (iy OR ix = 0)) \<and>
         (\<forall>k. k \<notin> ?p ` set (b # blocks) \<longrightarrow> row ! k = acs_row img ! k)"
      if ok: "fst (set_blocks t guard x y (b # blocks) img) = kOk"
    proof -
      have "fst (set_blocks t guard x y blocks ?img) = kOk" using ok False unfolding step by simp
      then obtain row where r: "snd (set_blocks t guard x y blocks ?img) = ?img\<lparr> acs_row := row \<rparr>" "length row = length (acs_row ?img)"
        "\<forall>(iy, ix) \<in> set blocks. row ! ?p (iy, ix) = block_byte t (iy OR ix = 0)"
        "\<forall>k. k \<notin> ?p ` set blocks \<longrightarrow> row ! k = acs_row ?img ! k" using IH by blast
      have "row ! ?p b = block_byte t (iy OR ix = 0)" using r(4) new by simp
      moreover have "\<forall>k. k \<notin> ?p ` set (b # blocks) \<longrightarrow> row ! k = acs_row img ! k" using r(4) by simp
      ultimately show ?thesis using r(1,2,3) False unfolding step by (intro exI [of _ row]) (auto simp: b)
    qed
    ultimately show ?thesis by blast
  qed
qed

lemma grid_index:
  assumes "x < s" "x' < s" "y * s + x = y' * s + x'"
  shows "x = x' \<and> y = (y' :: nat)"
proof -
  have "(y * s + x) mod s = x" "(y * s + x) div s = y" using assms(1) by simp_all
  moreover have "(y' * s + x') mod s = x'" "(y' * s + x') div s = y'" using assms(2) by simp_all
  ultimately show ?thesis using assms(3) by metis
qed

lemma image_of_INVALID: "image_of ps bx by' = INVALID \<longleftrightarrow> (\<forall>p \<in> set ps. \<not> covers_block p bx by')"
proof (cases "find (\<lambda>p. covers_block p bx by') ps")
  case None
  then have "\<forall>p \<in> set ps. \<not> covers_block p bx by'" unfolding find_None_iff by blast
  moreover have "image_of ps bx by' = INVALID" using None by (simp add: image_of_def)
  ultimately show ?thesis by simp
next
  case (Some p)
  then have "covers_block p bx by'" "p \<in> set ps" by (auto simp: find_Some_iff)
  moreover have "placed_byte p bx by' \<noteq> INVALID" by (cases p) (simp add: block_byte_fields)
  ultimately show ?thesis using Some by (auto simp: image_of_def)
qed

lemma image_of_covered:
  assumes "sorted_wrt (\<lambda>p q. \<forall>x y. \<not> (covers_block p x y \<and> covers_block q x y)) ps" "p \<in> set ps" "covers_block p bx by'"
  shows "image_of ps bx by' = placed_byte p bx by'"
  using assms by (induction ps) (auto simp: image_of_def)

lemma SetNoBoundsCheck_status: "fst (SetNoBoundsCheck x y t guard img) \<noteq> kOk \<Longrightarrow> fst (SetNoBoundsCheck x y t guard img) = kGenericError"
proof -
  have "fst (set_blocks t guard x y blocks img) \<noteq> kOk \<Longrightarrow> fst (set_blocks t guard x y blocks img) = kGenericError" for blocks img
    by (induction t guard x y blocks img rule: set_blocks.induct) (auto simp: Let_def)
  then show "fst (SetNoBoundsCheck x y t guard img) \<noteq> kOk \<Longrightarrow> fst (SetNoBoundsCheck x y t guard img) = kGenericError"
    by (simp add: SetNoBoundsCheck_def)
qed

definition free_place :: "placement list \<Rightarrow> placement \<Rightarrow> bool" where
  "free_place ps p \<longleftrightarrow> (\<forall>q \<in> set ps. \<forall>x y. \<not> (covers_block p x y \<and> covers_block q x y))"

lemma SetNoBoundsCheck_represents:
  assumes rep: "represents_image img ps" and fits: "x + covered_blocks_x t \<le> acs_xsize img" "y + covered_blocks_y t \<le> acs_ysize img"
  shows "fst (SetNoBoundsCheck x y t guard img) = kOk \<longleftrightarrow> (guard \<longrightarrow> free_place ps (x, y, t))"
    "free_place ps (x, y, t) \<Longrightarrow> represents_image (snd (SetNoBoundsCheck x y t guard img)) ((x, y, t) # ps)"
proof -
  let ?s = "acs_stride img" and ?blocks = "List.product [0..<covered_blocks_y t] [0..<covered_blocks_x t]"
  have R: "acs_xsize img \<le> ?s" "?s * acs_ysize img \<le> length (acs_row img)"
    "\<And>x y. y < acs_ysize img \<Longrightarrow> x < acs_xsize img \<Longrightarrow> acs_row img ! (y * ?s + x) = image_of ps x y"
    "sorted_wrt (\<lambda>p q. \<forall>x y. \<not> (covers_block p x y \<and> covers_block q x y)) ps"
    using rep by (auto simp: represents_image_def)
  have in_range: "(Y * ?s + X) < length (acs_row img)" if "Y < acs_ysize img" "X < ?s" for X Y
  proof -
    have "Y * ?s + X < Suc Y * ?s" using that by simp
    also have "\<dots> \<le> acs_ysize img * ?s" using that by (intro mult_le_mono1) simp
    finally show ?thesis using R(2) by (simp add: mult.commute)
  qed
  have dist: "distinct (map (block_pos ?s x y) ?blocks)"
    unfolding distinct_map
  proof (intro conjI inj_onI)
    fix b c assume "b \<in> set ?blocks" "c \<in> set ?blocks" and e: "block_pos ?s x y b = block_pos ?s x y c"
    then obtain iy ix jy jx where b: "b = (iy, ix)" "c = (jy, jx)" "ix < covered_blocks_x t" "jx < covered_blocks_x t" by auto
    then have "x + ix < ?s" "x + jx < ?s" using fits(1) R(1) by simp_all
    from grid_index [OF this, of "y + iy" "y + jy"] show "b = c" using e by (simp add: b add.assoc)
  qed (simp add: distinct_product)
  have small: "\<forall>b \<in> set ?blocks. block_pos ?s x y b < length (acs_row img)"
  proof
    fix b assume "b \<in> set ?blocks"
    then obtain iy ix where b: "b = (iy, ix)" "ix < covered_blocks_x t" "iy < covered_blocks_y t" by auto
    then show "block_pos ?s x y b < length (acs_row img)"
      using in_range [of "y + iy" "x + ix"] fits R(1) by (simp add: add.assoc)
  qed
  have result: "(fst (SetNoBoundsCheck x y t guard img) = kOk \<longleftrightarrow>
       (guard \<longrightarrow> (\<forall>b \<in> set ?blocks. acs_row img ! block_pos ?s x y b = INVALID))) \<and>
    (fst (SetNoBoundsCheck x y t guard img) = kOk \<longrightarrow>
       (\<exists>row. snd (SetNoBoundsCheck x y t guard img) = img\<lparr> acs_row := row \<rparr> \<and> length row = length (acs_row img) \<and>
         (\<forall>(iy, ix) \<in> set ?blocks. row ! block_pos ?s x y (iy, ix) = block_byte t (iy OR ix = 0)) \<and>
         (\<forall>k. k \<notin> block_pos ?s x y ` set ?blocks \<longrightarrow> row ! k = acs_row img ! k)))" for guard
    unfolding SetNoBoundsCheck_def
    by (rule set_blocks_result [OF dist small])
  have blocks: "b \<in> set ?blocks \<longleftrightarrow> (case b of (iy, ix) \<Rightarrow> covers_block (x, y, t) (x + ix) (y + iy))" for b by auto
  have inv: "(\<forall>b \<in> set ?blocks. acs_row img ! block_pos ?s x y b = INVALID) \<longleftrightarrow> free_place ps (x, y, t)"
  proof -
    have "acs_row img ! block_pos ?s x y (iy, ix) = image_of ps (x + ix) (y + iy)"
      if "covers_block (x, y, t) (x + ix) (y + iy)" for iy ix
      using R(3) [of "y + iy" "x + ix"] that fits by (simp add: add.assoc)
    then have "(\<forall>b \<in> set ?blocks. acs_row img ! block_pos ?s x y b = INVALID) \<longleftrightarrow>
        (\<forall>iy ix. covers_block (x, y, t) (x + ix) (y + iy) \<longrightarrow> image_of ps (x + ix) (y + iy) = INVALID)"
      unfolding Ball_def blocks by (auto simp del: covers_block.simps)
    also have "\<dots> \<longleftrightarrow> (\<forall>X Y. covers_block (x, y, t) X Y \<longrightarrow> image_of ps X Y = INVALID)"
    proof (intro iffI allI impI)
      fix X Y assume a: "\<forall>iy ix. covers_block (x, y, t) (x + ix) (y + iy) \<longrightarrow> image_of ps (x + ix) (y + iy) = INVALID"
        and c: "covers_block (x, y, t) X Y"
      then show "image_of ps X Y = INVALID" using a [rule_format, of "X - x" "Y - y"] by simp
    qed blast
    finally show ?thesis unfolding image_of_INVALID free_place_def by blast
  qed
  show "fst (SetNoBoundsCheck x y t guard img) = kOk \<longleftrightarrow> (guard \<longrightarrow> free_place ps (x, y, t))"
    using result inv by blast
  assume free: "free_place ps (x, y, t)"
  then have "fst (SetNoBoundsCheck x y t guard img) = kOk" using result inv by blast
  then obtain row where r: "snd (SetNoBoundsCheck x y t guard img) = img\<lparr> acs_row := row \<rparr>" "length row = length (acs_row img)"
    "\<forall>(iy, ix) \<in> set ?blocks. row ! block_pos ?s x y (iy, ix) = block_byte t (iy OR ix = 0)"
    "\<forall>k. k \<notin> block_pos ?s x y ` set ?blocks \<longrightarrow> row ! k = acs_row img ! k" using result by blast
  have new: "row ! (Y * ?s + X) = image_of ((x, y, t) # ps) X Y" if c: "Y < acs_ysize img" "X < acs_xsize img" for X Y
  proof (cases "covers_block (x, y, t) X Y")
    case True
    then have "(Y - y, X - x) \<in> set ?blocks" by auto
    then have "row ! block_pos ?s x y (Y - y, X - x) = block_byte t ((Y - y) OR (X - x) = 0)" using r(3) by blast
    moreover have "((Y - y) OR (X - x) = 0) = (X = x \<and> Y = y)" using True by (auto simp: or_eq_0_iff)
    moreover have "block_pos ?s x y (Y - y, X - x) = Y * ?s + X" using True by (simp)
    ultimately show ?thesis using True by (simp add: image_of_def)
  next
    case False
    have "Y * ?s + X \<notin> block_pos ?s x y ` set ?blocks"
    proof
      assume "Y * ?s + X \<in> block_pos ?s x y ` set ?blocks"
      then obtain iy ix where b: "iy < covered_blocks_y t" "ix < covered_blocks_x t" "Y * ?s + X = (y + iy) * ?s + (x + ix)"
        by (auto simp: add.assoc)
      have "X < ?s" "x + ix < ?s" using c b fits(1) R(1) by simp_all
      from grid_index [OF this b(3)] show False using False b by simp
    qed
    then have "row ! (Y * ?s + X) = image_of ps X Y" using r(4) R(3) c by simp
    then show ?thesis using False by (simp add: image_of_def del: covers_block.simps)
  qed
  have "\<forall>(x, y, t) \<in> set ps. x + covered_blocks_x t \<le> acs_xsize img \<and> y + covered_blocks_y t \<le> acs_ysize img"
    using rep by (simp add: represents_image_def)
  then show "represents_image (snd (SetNoBoundsCheck x y t guard img)) ((x, y, t) # ps)"
    unfolding represents_image_def r(1) using R(1,2,4) new r(2) fits free
    by (auto simp: free_place_def simp del: covers_block.simps)
qed

lemma foldl_count: "foldl (\<lambda>r x. if P x then r + 1 else r) r xs = r + length (filter P xs)" for r :: nat
  by (induction xs arbitrary: r) auto

lemma foldl_count_grid:
  "foldl (\<lambda>r y. foldl (\<lambda>r x. if P y x then r + 1 else r) r [0..<w]) (0 :: nat) [0..<h] = card {(y, x). y < h \<and> x < w \<and> P y x}"
proof -
  have "foldl (\<lambda>r y. foldl (\<lambda>r x. if P y x then r + 1 else r) r xs) r ys =
      r + length (filter (\<lambda>(y, x). P y x) (List.product ys xs))" for xs ys and r :: nat
    by (induction ys arbitrary: r) (simp_all add: foldl_count filter_map comp_def)
  moreover have "length (filter (\<lambda>(y, x). P y x) (List.product [0..<h] [0..<w])) =
      card (set (filter (\<lambda>(y, x). P y x) (List.product [0..<h] [0..<w])))"
    by (intro distinct_card [symmetric] distinct_filter distinct_product) simp_all
  moreover have "set (filter (\<lambda>(y, x). P y x) (List.product [0..<h] [0..<w])) = {(y, x). y < h \<and> x < w \<and> P y x}" by auto
  ultimately show ?thesis by simp
qed

lemma covers_first_block: "covers_block (x, y, t) x y"
  by (simp add: covered_blocks_pos)

lemma placements_distinct:
  "sorted_wrt (\<lambda>p q. \<forall>x y. \<not> (covers_block p x y \<and> covers_block q x y)) ps \<Longrightarrow> distinct (map (\<lambda>(x, y, t). (y, x)) ps)"
proof (induction ps)
  case (Cons p ps)
  obtain x y t where p: "p = (x, y, t)" by (cases p)
  have "(y, x) \<notin> (\<lambda>(x, y, t). (y, x)) ` set ps"
  proof
    assume "(y, x) \<in> (\<lambda>(x, y, t). (y, x)) ` set ps"
    then obtain t' where "(x, y, t') \<in> set ps" by auto
    then show False using Cons.prems covers_first_block unfolding p sorted_wrt.simps by blast
  qed
  then show ?case using Cons by (simp add: p)
qed simp

lemma represents_image_read:
  assumes "represents_image img ps" "bx < acs_xsize img" "by' < acs_ysize img"
  shows "IsValid bx by' img \<longleftrightarrow> (\<exists>p \<in> set ps. covers_block p bx by')"
    "(px, py, pt) \<in> set ps \<Longrightarrow> covers_block (px, py, pt) bx by' \<Longrightarrow> AcStrategyRow_at bx by' img = (pt, bx = px \<and> by' = py)"
    "acs_row img ! (by' * acs_stride img + bx) = block_byte t True \<longleftrightarrow> (bx, by', t) \<in> set ps"
proof -
  have v: "acs_row img ! (by' * acs_stride img + bx) = image_of ps bx by'"
    and s: "sorted_wrt (\<lambda>p q. \<forall>x y. \<not> (covers_block p x y \<and> covers_block q x y)) ps"
    using assms by (simp_all add: represents_image_def)
  show "IsValid bx by' img \<longleftrightarrow> (\<exists>p \<in> set ps. covers_block p bx by')"
    unfolding IsValid_def v image_of_INVALID by blast
  have p: "image_of ps bx by' = block_byte pt (bx = px \<and> by' = py)"
    if "(px, py, pt) \<in> set ps" "covers_block (px, py, pt) bx by'" for px py pt
    using image_of_covered [OF s that] by simp
  show "AcStrategyRow_at bx by' img = (pt, bx = px \<and> by' = py)"
    if "(px, py, pt) \<in> set ps" "covers_block (px, py, pt) bx by'"
  proof -
    have "unat (of_nat (raw pt) :: u8) = raw pt" using FromRawStrategy_raw(2) [of pt] by (simp add: unat_of_nat_id)
    moreover have "b AND 1 \<noteq> 0 \<longleftrightarrow> bit b 0" for b :: u8 by (simp add: and_one_eq mod_2_eq_odd bit_0)
    ultimately show ?thesis
      unfolding AcStrategyRow_at_def Let_def v p [OF that] by (simp add: block_byte_fields FromRawStrategy_raw(1) del: One_nat_def)
  qed
  show "acs_row img ! (by' * acs_stride img + bx) = block_byte t True \<longleftrightarrow> (bx, by', t) \<in> set ps"
  proof
    assume e: "acs_row img ! (by' * acs_stride img + bx) = block_byte t True"
    then obtain p where "p \<in> set ps" "covers_block p bx by'"
      using image_of_INVALID [of ps bx by'] block_byte_fields(3) unfolding v by metis
    moreover obtain px py pt where "p = (px, py, pt)" by (cases p)
    ultimately have "block_byte pt (bx = px \<and> by' = py) = block_byte t True" "(px, py, pt) \<in> set ps" using p e unfolding v by auto
    then show "(bx, by', t) \<in> set ps" by (simp add: block_byte_eq)
  next
    assume "(bx, by', t) \<in> set ps"
    then show "acs_row img ! (by' * acs_stride img + bx) = block_byte t True" using p covers_first_block unfolding v by fastforce
  qed
qed

lemma CountBlocks_represents:
  assumes "represents_image img ps"
  shows "CountBlocks t img = length (filter (\<lambda>(px, py, pt). pt = t) ps)"
proof -
  let ?ps = "filter (\<lambda>(px, py, pt). pt = t) ps"
  have s: "sorted_wrt (\<lambda>p q. \<forall>x y. \<not> (covers_block p x y \<and> covers_block q x y)) ps"
    and b: "\<forall>(x, y, t) \<in> set ps. x + covered_blocks_x t \<le> acs_xsize img \<and> y + covered_blocks_y t \<le> acs_ysize img"
    using assms by (simp_all add: represents_image_def)
  have "CountBlocks t img = card {(y, x). y < acs_ysize img \<and> x < acs_xsize img \<and> acs_row img ! (y * acs_stride img + x) = block_byte t True}"
    unfolding CountBlocks_def by (rule foldl_count_grid)
  also have "{(y, x). y < acs_ysize img \<and> x < acs_xsize img \<and> acs_row img ! (y * acs_stride img + x) = block_byte t True} =
      set (map (\<lambda>(x, y, t). (y, x)) ?ps)"
  proof (intro set_eqI iffI)
    fix c assume "c \<in> {(y, x). y < acs_ysize img \<and> x < acs_xsize img \<and> acs_row img ! (y * acs_stride img + x) = block_byte t True}"
    then obtain y x where "c = (y, x)" "(x, y, t) \<in> set ps" using represents_image_read(3) [OF assms] by auto
    then show "c \<in> set (map (\<lambda>(x, y, t). (y, x)) ?ps)" by force
  next
    fix c assume "c \<in> set (map (\<lambda>(x, y, t). (y, x)) ?ps)"
    then obtain y x where c: "c = (y, x)" "(x, y, t) \<in> set ps" by auto
    then have "x + covered_blocks_x t \<le> acs_xsize img" "y + covered_blocks_y t \<le> acs_ysize img" using b by auto
    then have "y < acs_ysize img" "x < acs_xsize img" using covered_blocks_pos [of t] by simp_all
    then show "c \<in> {(y, x). y < acs_ysize img \<and> x < acs_xsize img \<and> acs_row img ! (y * acs_stride img + x) = block_byte t True}"
      using c represents_image_read(3) [OF assms] by auto
  qed
  also have "card (set (map (\<lambda>(x, y, t). (y, x)) ?ps)) = length ?ps"
    using placements_distinct [OF sorted_wrt_filter [OF s]] distinct_card by fastforce
  finally show ?thesis .
qed

text \<open>C32: The image of transforms implements a set of transforms that do not overlap.  Setting a transform that fits into the
  image is refused exactly when one of its blocks is taken; otherwise the image stands for the old transforms and the
  new one, also when the guard is off.  Reading a block yields the transform that covers it and whether the block is its
  first one, blocks that no transform covers are invalid, and counting yields the number of transforms of a kind.\<close>

theorem AcStrategyImage_refines:
  assumes "represents_image img ps" "x + covered_blocks_x t \<le> acs_xsize img" "y + covered_blocks_y t \<le> acs_ysize img"
  shows "fst (SetNoBoundsCheck x y t True img) = (if free_place ps (x, y, t) then kOk else kGenericError) \<and>
    (free_place ps (x, y, t) \<longrightarrow> represents_image (snd (SetNoBoundsCheck x y t guard img)) ((x, y, t) # ps)) \<and>
    (\<forall>bx < acs_xsize img. \<forall>by' < acs_ysize img.
      (IsValid bx by' img \<longleftrightarrow> (\<exists>p \<in> set ps. covers_block p bx by')) \<and>
      (\<forall>(px, py, pt) \<in> set ps. covers_block (px, py, pt) bx by' \<longrightarrow>
        AcStrategyRow_at bx by' img = (pt, bx = px \<and> by' = py))) \<and>
    CountBlocks t' img = length (filter (\<lambda>(px, py, pt). pt = t') ps)"
  using SetNoBoundsCheck_represents [OF assms] SetNoBoundsCheck_status [of x y t True img] represents_image_read [OF assms(1)] CountBlocks_represents [OF assms(1)]
  by (auto simp del: covers_block.simps)

lemma AcStrategyImage_refines_witness:
  "fst (SetNoBoundsCheck 1 0 DCT16X16 True \<lparr> acs_xsize = 3, acs_ysize = 2, acs_stride = 4, acs_row = replicate 8 INVALID \<rparr>) = kOk"
proof -
  let ?img = "\<lparr> acs_xsize = 3, acs_ysize = 2, acs_stride = 4, acs_row = replicate 8 INVALID \<rparr>"
  have "represents_image ?img []"
    by (auto simp: represents_image_def image_of_def)
  moreover have "1 + covered_blocks_x DCT16X16 \<le> acs_xsize ?img" "0 + covered_blocks_y DCT16X16 \<le> acs_ysize ?img"
    by (simp_all add: covered_blocks_x_def covered_blocks_y_def)
  ultimately have "fst (SetNoBoundsCheck 1 0 DCT16X16 True ?img) = (if free_place [] (1, 0, DCT16X16) then kOk else kGenericError)"
    using AcStrategyImage_refines by blast
  then show ?thesis by (simp add: free_place_def)
qed

end
