(* ===== verification/Coeff_Order.thy ===== *)
theory Coeff_Order
  imports Lehmer Ans_Codes Ac_Strategy
begin

text \<open>
  Permutations in the bit stream (\<^verbatim>\<open>lib/jxl/coeff_order.cc\<close>, \<^verbatim>\<open>enc_coeff_order.cc\<close>): the Lehmer code of the
  permutation, without its trailing zeros, as entropy coded integers whose contexts depend on the size and on the
  previous entry.  Choosing the histograms is left to the encoder: the round trip holds for every stream from which
  the reader gets the values of the tokens, and \<open>WriteTokens\<close> emits such a stream with any ANS histograms that can code them.
\<close>

section \<open>Definitions\<close>

definition kPermutationContexts :: u32 where "kPermutationContexts = 8"

definition CoeffOrderContext :: "u32 \<Rightarrow> u32" where
  "CoeffOrderContext v =
     (case HybridUint_Encode (HybridUintConfig_new 0 0 0) (unat v) of (token, nbits, bits) \<Rightarrow>
        min (of_nat token) (kPermutationContexts - 1))"

fun read_lehmer :: "nat \<Rightarrow> nat \<Rightarrow> nat \<Rightarrow> u32 \<Rightarrow> nat list \<Rightarrow> u32 list \<Rightarrow> ANSSymbolReader \<Rightarrow> BitReader \<Rightarrow>
    u32 list outcome \<times> ANSSymbolReader \<times> BitReader" where
  "read_lehmer 0 i num last_value cmap lehmer r br = (Inr lehmer, r, br)"
| "read_lehmer (Suc n) i num last_value cmap lehmer r br =
     (case ReadHybridUint (unat (CoeffOrderContext last_value)) r br cmap of (v, r, br) \<Rightarrow>
      let l = of_nat v in
      if unat l \<ge> num - i then (Inl kGenericError, r, br)
      else read_lehmer n (i + 1) num l cmap (lehmer[i := l]) r br)"

text \<open>\<open>want\<close> tells whether the caller passes memory for the permutation.\<close>

definition ReadPermutation :: "nat \<Rightarrow> nat \<Rightarrow> bool \<Rightarrow> BitReader \<Rightarrow> ANSSymbolReader \<Rightarrow> nat list \<Rightarrow>
    (u32 list option outcome \<times> ANSSymbolReader \<times> BitReader) option" where
  "ReadPermutation skip num want br r cmap =
     (case ReadHybridUint (unat (CoeffOrderContext (of_nat num))) r br cmap of (v, r, br) \<Rightarrow>
      let stop = unat (of_nat (v + skip) :: u32) in
      if stop > num then Some (Inl kGenericError, r, br)
      else (case read_lehmer (stop - skip) skip num 0 cmap (replicate num 0) r br of
              (Inl e, r, br) \<Rightarrow> Some (Inl e, r, br)
            | (Inr lehmer, r, br) \<Rightarrow>
                if \<not> want then Some (Inr None, r, br)
                else (case DecodeLehmerCode lehmer of
                        None \<Rightarrow> None
                      | Some (Inl e) \<Rightarrow> Some (Inl e, r, br)
                      | Some (Inr order) \<Rightarrow> Some (Inr (Some order), r, br))))"

text \<open>After the histograms.\<close>

definition decode_permutation :: "ANSCode \<Rightarrow> (nat \<Rightarrow> u32) \<Rightarrow> nat list \<Rightarrow> nat \<Rightarrow> nat \<Rightarrow> bool \<Rightarrow> BitReader \<Rightarrow>
    u32 list option decoded" where
  "decode_permutation code window cmap skip num want br =
     (case ANSSymbolReader_new code window 0 br of (r, br) \<Rightarrow>
      case ReadPermutation skip num want br r cmap of
        None \<Rightarrow> None
      | Some (Inl e, r, br) \<Rightarrow> Some (Inl e, br)
      | Some (Inr order, r, br) \<Rightarrow> Some (if \<not> CheckANSFinalState r then (Inl kGenericError, br) else (Inr order, br)))"

definition DecodePermutation :: "(nat \<Rightarrow> memory) \<Rightarrow> nat \<Rightarrow> nat \<Rightarrow> bool \<Rightarrow> BitReader \<Rightarrow> u32 list option decoded" where
  "DecodePermutation mem skip num want br =
     (case DecodeHistograms 3 mem (ANSCode_new False 0 0) (unat kPermutationContexts) False br of
        None \<Rightarrow> None
      | Some (Inl e, br) \<Rightarrow> Some (Inl e, br)
      | Some (Inr (code, cmap), br) \<Rightarrow> decode_permutation code (m_window (mem 3)) cmap skip num want br)"

text \<open>The orders of all transforms.  Transforms of equal shape share a bucket; \<open>order\<close> is the memory of the caller with
  three orders for each bucket.\<close>

definition kStrategyOrder :: "nat list" where
  "kStrategyOrder = [0, 1, 1, 1, 2, 3, 4, 4, 5, 5, 6, 6, 1, 1, 1, 1, 1, 1, 7, 8, 8, 9, 10, 10, 11, 12, 12]"

definition kCoeffOrderLimit :: nat where "kCoeffOrderLimit = 6156"

definition kCoeffOrderOffset :: "nat list" where
  "kCoeffOrderOffset = [0, 1, 2, 3, 4, 5, 6, 10, 14, 18, 34, 50, 66, 68, 70, 72, 76, 80, 84, 92, 100, 108, 172, 236, 300,
     332, 364, 396, 652, 908, 1164, 1292, 1420, 1548, 2572, 3596, 4620, 5132, 5644, kCoeffOrderLimit]"

definition kDCTBlockSize :: nat where "kDCTBlockSize = kBlockDim * kBlockDim"

definition CoeffOrderOffset :: "nat \<Rightarrow> nat \<Rightarrow> nat" where
  "CoeffOrderOffset ord c = kCoeffOrderOffset ! (3 * ord + c) * kDCTBlockSize"

text \<open>The size that \<^verbatim>\<open>PassesDecoderState::InitForAC\<close> reserves for a pass.\<close>

definition coeff_order_size :: "u32 \<Rightarrow> nat" where
  "coeff_order_size used_acs =
     foldl (\<lambda>n o'. if push_bit o' 1 AND used_acs = 0 then n
                    else max (kCoeffOrderOffset ! (3 * (kStrategyOrder ! o' + 1)) * kDCTBlockSize) n) 0 [0..<kNumValidStrategies]"

definition DecodeCoeffOrder :: "AcStrategyType \<Rightarrow> bool \<Rightarrow> BitReader \<Rightarrow> ANSSymbolReader \<Rightarrow> u32 list \<Rightarrow> nat list \<Rightarrow>
    (u32 list option outcome \<times> ANSSymbolReader \<times> BitReader) option" where
  "DecodeCoeffOrder acs want br r natural_order cmap =
     (let llf = covered_blocks_x acs * covered_blocks_y acs; num = kDCTBlockSize * llf in
      case ReadPermutation llf num want br r cmap of
        None \<Rightarrow> None
      | Some (Inl e, r, br) \<Rightarrow> Some (Inl e, r, br)
      | Some (Inr order, r, br) \<Rightarrow> Some (Inr (map_option (map (\<lambda>k. natural_order ! unat k)) order), r, br))"

definition store_order :: "nat \<Rightarrow> u32 list \<Rightarrow> u32 list \<Rightarrow> u32 list" where
  "store_order at xs order = take at order @ xs @ drop (at + length xs) order"

fun decode_channels :: "AcStrategyType \<Rightarrow> bool \<Rightarrow> u32 list \<Rightarrow> nat list \<Rightarrow> nat list \<Rightarrow> u32 list \<Rightarrow> ANSSymbolReader \<Rightarrow> BitReader \<Rightarrow>
    (u32 list outcome \<times> ANSSymbolReader \<times> BitReader) option" where
  "decode_channels acs used natural_order cmap [] order r br = Some (Inr order, r, br)"
| "decode_channels acs used natural_order cmap (c # cs) order r br =
     (case DecodeCoeffOrder acs used br r natural_order cmap of
        None \<Rightarrow> None
      | Some (Inl e, r, br) \<Rightarrow> Some (Inl e, r, br)
      | Some (Inr dest, r, br) \<Rightarrow>
          decode_channels acs used natural_order cmap cs
            (case dest of None \<Rightarrow> order | Some xs \<Rightarrow> store_order (CoeffOrderOffset (kStrategyOrder ! raw acs) c) xs order) r br)"

text \<open>The reader is \<open>None\<close> where the code holds one that was not created.\<close>

fun decode_orders :: "u16 \<Rightarrow> u32 \<Rightarrow> nat list \<Rightarrow> nat list \<Rightarrow> u16 \<Rightarrow> u32 list \<Rightarrow> u32 list \<Rightarrow> ANSSymbolReader option \<Rightarrow> BitReader \<Rightarrow>
    (u32 list \<times> ANSSymbolReader option) decoded" where
  "decode_orders used_orders acs_mask cmap [] computed natural_order order reader' br = Some (Inr (order, reader'), br)"
| "decode_orders used_orders acs_mask cmap (o' # os) computed natural_order order reader' br =
     (let ord = kStrategyOrder ! o' in
      if computed AND push_bit ord 1 \<noteq> 0
      then decode_orders used_orders acs_mask cmap os computed natural_order order reader' br
      else
        (let computed = computed OR push_bit ord 1;
             acs = FromRawStrategy o';
             used = (acs_mask AND push_bit ord 1 \<noteq> 0);
             num = kDCTBlockSize * (covered_blocks_x acs * covered_blocks_y acs);
             natural_order =
               (if used \<or> used_orders AND push_bit ord 1 \<noteq> 0
                then ComputeNaturalCoeffOrder acs
                       (if length natural_order < num then vector_resize num 0 natural_order else natural_order)
                else natural_order)
         in if used_orders AND push_bit ord 1 = 0
            then decode_orders used_orders acs_mask cmap os computed natural_order
                   (if used then foldl (\<lambda>order c. store_order (CoeffOrderOffset ord c) (take num natural_order) order) order [0..<3]
                    else order) reader' br
            else (case decode_channels acs used natural_order cmap [0..<3] order (the reader') br of
                    None \<Rightarrow> None
                  | Some (Inl e, r, br) \<Rightarrow> Some (Inl e, br)
                  | Some (Inr order, r, br) \<Rightarrow>
                      decode_orders used_orders acs_mask cmap os computed natural_order order (Some r) br)))"

definition acs_mask_of :: "u32 \<Rightarrow> u32" where
  "acs_mask_of used_acs =
     foldl (\<lambda>acs_mask o'. if used_acs AND push_bit o' 1 = 0 then acs_mask else acs_mask OR push_bit (kStrategyOrder ! o') 1)
       0 [0..<kNumValidStrategies]"

definition DecodeCoeffOrders :: "(nat \<Rightarrow> memory) \<Rightarrow> u16 \<Rightarrow> u32 \<Rightarrow> u32 list \<Rightarrow> BitReader \<Rightarrow> u32 list decoded" where
  "DecodeCoeffOrders mem used_orders used_acs order br =
     (case (if used_orders \<noteq> 0
            then (case DecodeHistograms 3 mem (ANSCode_new False 0 0) (unat kPermutationContexts) False br of
                    None \<Rightarrow> None
                  | Some (Inl e, br) \<Rightarrow> Some (Inl e, br)
                  | Some (Inr (code, cmap), br) \<Rightarrow>
                      (case ANSSymbolReader_new code (m_window (mem 3)) 0 br of (r, br) \<Rightarrow> Some (Inr (Some r, cmap), br)))
            else Some (Inr (None, []), br)) of
        None \<Rightarrow> None
      | Some (Inl e, br) \<Rightarrow> Some (Inl e, br)
      | Some (Inr (reader', cmap), br) \<Rightarrow>
          (case decode_orders used_orders (acs_mask_of used_acs) cmap [0..<kNumValidStrategies] 0 [] order reader' br of
             None \<Rightarrow> None
           | Some (Inl e, br) \<Rightarrow> Some (Inl e, br)
           | Some (Inr (order, reader'), br) \<Rightarrow>
               if used_orders \<noteq> 0 \<and> \<not> CheckANSFinalState (the reader') then Some (Inl kGenericError, br)
               else Some (Inr order, br)))"

text \<open>The encoder.\<close>

fun lehmer_end :: "u32 list \<Rightarrow> nat \<Rightarrow> nat \<Rightarrow> nat" where
  "lehmer_end lehmer skip 0 = 0"
| "lehmer_end lehmer skip (Suc e) = (if Suc e > skip \<and> lehmer ! e = 0 then lehmer_end lehmer skip e else Suc e)"

fun lehmer_tokens :: "u32 \<Rightarrow> u32 list \<Rightarrow> Token list" where
  "lehmer_tokens last_value [] = []"
| "lehmer_tokens last_value (l # ls) =
     \<lparr> is_lz77_length = False, tok_context = unat (CoeffOrderContext last_value), tok_value = unat l \<rparr> # lehmer_tokens l ls"

definition TokenizePermutation :: "u32 list \<Rightarrow> nat \<Rightarrow> Token list outcome option" where
  "TokenizePermutation order skip =
     map_option (map_sum id (\<lambda>lehmer.
       let num = length order; stop = lehmer_end lehmer skip num in
       \<lparr> is_lz77_length = False, tok_context = unat (CoeffOrderContext (of_nat num)), tok_value = (stop - skip) mod 2 ^ 32 \<rparr> #
       lehmer_tokens 0 (take (stop - skip) (drop skip lehmer)))) (ComputeLehmerCode order)"

section \<open>What the decoder accepts\<close>

lemma read_lehmer_ok:
  "read_lehmer n i num last_value cmap lehmer r br = (Inr lehmer', r', br') \<Longrightarrow> length lehmer = num \<Longrightarrow> n = 0 \<or> i + n \<le> num \<Longrightarrow>
     \<forall>j < num. unat (lehmer ! j) + j < num \<Longrightarrow>
     length lehmer' = num \<and> (\<forall>j < num. unat (lehmer' ! j) + j < num) \<and> (\<forall>j < i. lehmer' ! j = lehmer ! j)"
proof (induction n arbitrary: i last_value lehmer r br)
  case (Suc n)
  obtain v r1 br1 where v: "ReadHybridUint (unat (CoeffOrderContext last_value)) r br cmap = (v, r1, br1)" by (metis prod_cases3)
  define l :: u32 where "l = of_nat v"
  have l: "unat l < num - i" and run: "read_lehmer n (i + 1) num l cmap (lehmer[i := l]) r1 br1 = (Inr lehmer', r', br')"
    using Suc.prems(1) v by (auto simp: Let_def l_def split: if_splits)
  have "\<forall>j < num. unat (lehmer[i := l] ! j) + j < num" using Suc.prems(2-4) l by (auto simp: nth_list_update)
  from Suc.IH [OF run _ _ this] show ?case using Suc.prems(2,3) by auto
qed simp

lemma lehmer_permutation_zeros:
  "(\<forall>j < skip. cs ! j = 0) \<Longrightarrow> skip \<le> length cs \<Longrightarrow> length cs = length us \<Longrightarrow>
     take skip (lehmer_permutation us cs) = take skip us"
proof (induction skip arbitrary: us cs)
  case (Suc skip)
  obtain c cs' u us' where "cs = c # cs'" "us = u # us'" using Suc.prems by (cases cs; cases us) auto
  moreover have "c = 0" using Suc.prems(1) calculation by fastforce
  moreover have "\<forall>j < skip. cs' ! j = 0" using Suc.prems(1) calculation by fastforce
  ultimately show ?case using Suc.IH [of cs' us'] Suc.prems by simp
qed simp

lemma DecodeLehmerCode_Nil: "DecodeLehmerCode [] = Some (Inl kGenericError)"
  by (simp add: DecodeLehmerCode_def)

definition fixes_prefix :: "nat \<Rightarrow> u32 list \<Rightarrow> bool" where
  "fixes_prefix skip p \<longleftrightarrow> (\<forall>i < min skip (length p). unat (p ! i) = i)"

lemma DecodeLehmerCode_skipped:
  assumes "DecodeLehmerCode code = Some (Inr p)" "length code < 2 ^ 31" "\<forall>j < min skip (length code). code ! j = 0"
  shows "is_permutation p" "length p = length code" "0 < length p" "fixes_prefix skip p"
proof -
  have n: "0 < length code" using assms(1) DecodeLehmerCode_Nil by (cases code) auto
  let ?l = "lehmer_permutation [0..<length code] (map unat code)"
  have v: "\<forall>j < length code. unat (code ! j) + j < length code" and p: "p = map of_nat ?l"
    using assms(1) DecodeLehmerCode_word [OF n assms(2)] by (auto split: if_splits)
  note W = lehmer_permutation_word [OF v assms(2)]
  show "is_permutation p" "length p = length code" using W by (simp_all add: p)
  then show "0 < length p" using n by simp
  have "take (min skip (length code)) ?l = take (min skip (length code)) [0..<length code]"
    using assms(3) by (intro lehmer_permutation_zeros) auto
  then have "?l ! i = i" if "i < min skip (length code)" for i
    using that nth_take [of i "min skip (length code)" ?l] nth_take [of i "min skip (length code)" "[0..<length code]"] by auto
  moreover have "unat (p ! i) = ?l ! i" if "i < length code" for i
    using arg_cong [OF W(2), of "\<lambda>xs. xs ! i"] that W(1) by (simp add: p)
  moreover have "length p = length code" using W(1) by (simp add: p)
  ultimately show "fixes_prefix skip p" unfolding fixes_prefix_def by simp
qed

lemma DecodeLehmerCode_returns: "length code < 2 ^ 31 \<Longrightarrow> DecodeLehmerCode code \<noteq> None"
  using DecodeLehmerCode_word [of code] DecodeLehmerCode_Nil by (cases "code = []") auto

lemma ReadPermutation_ok:
  assumes "num < 2 ^ 31"
  shows "ReadPermutation skip num want br r cmap \<noteq> None"
    "ReadPermutation skip num want br r cmap = Some (Inr order, r', br') \<Longrightarrow>
       if want then \<exists>p. order = Some p \<and> is_permutation p \<and> length p = num \<and> 0 < num \<and> fixes_prefix skip p else order = None"
proof -
  obtain v r1 br1 where v: "ReadHybridUint (unat (CoeffOrderContext (of_nat num))) r br cmap = (v, r1, br1)" by (metis prod_cases3)
  let ?stop = "unat (of_nat (v + skip) :: u32)"
  obtain l r2 br2 where l: "read_lehmer (?stop - skip) skip num 0 cmap (replicate num 0) r1 br1 = (l, r2, br2)" by (metis prod_cases3)
  have ok: "length lehmer = num" "\<forall>j < min skip num. lehmer ! j = 0" if "l = Inr lehmer" "\<not> ?stop > num" for lehmer
  proof -
    have "length lehmer = num \<and> (\<forall>j < skip. lehmer ! j = replicate num 0 ! j)" if "\<not> ?stop - skip = 0"
      using read_lehmer_ok [OF l [unfolded \<open>l = Inr lehmer\<close>]] \<open>\<not> ?stop > num\<close> that by simp
    moreover have "lehmer = replicate num 0" if "?stop - skip = 0" using l that \<open>l = Inr lehmer\<close> by simp
    ultimately show "length lehmer = num" "\<forall>j < min skip num. lehmer ! j = 0" by (cases "?stop - skip = 0"; auto)+
  qed
  show "ReadPermutation skip num want br r cmap \<noteq> None"
  proof (cases "?stop > num")
    case False
    then show ?thesis using v l ok DecodeLehmerCode_returns assms
      by (cases l) (fastforce simp: ReadPermutation_def Let_def split: option.splits sum.splits)+
  qed (use v in \<open>simp add: ReadPermutation_def Let_def\<close>)
  assume run: "ReadPermutation skip num want br r cmap = Some (Inr order, r', br')"
  then have stop: "\<not> ?stop > num" using v by (auto simp: ReadPermutation_def Let_def)
  with run v l obtain lehmer where i: "l = Inr lehmer" by (cases l) (auto simp: ReadPermutation_def Let_def)
  show "if want then \<exists>p. order = Some p \<and> is_permutation p \<and> length p = num \<and> 0 < num \<and> fixes_prefix skip p else order = None"
  proof (cases want)
    case True
    with run v l i stop obtain p where p: "DecodeLehmerCode lehmer = Some (Inr p)" "order = Some p"
      by (auto simp: ReadPermutation_def Let_def split: option.splits sum.splits)
    show ?thesis using DecodeLehmerCode_skipped [OF p(1), of skip] ok [OF i stop] assms p(2) True by auto
  qed (use run v l i stop in \<open>simp add: ReadPermutation_def Let_def\<close>)
qed

text \<open>Reading a permutation ends on every input, and what is accepted is a permutation of the requested size that
  keeps the skipped elements in place; nothing is returned when the caller passes no memory for it.\<close>

theorem DecodePermutation_accepted:
  assumes "num < 2 ^ 31"
  shows "\<exists>result br'. DecodePermutation mem skip num want br = Some (result, br') \<and>
    (\<forall>order. result = Inr order \<longrightarrow>
      (if want then \<exists>p. order = Some p \<and> is_permutation p \<and> length p = num \<and> 0 < num \<and> fixes_prefix skip p else order = None))"
proof -
  let ?H = "DecodeHistograms 3 mem (ANSCode_new False 0 0) (unat kPermutationContexts) False br"
  have "?H \<noteq> None" using DecodeHistograms_three(3) [of 0] unfolding numeral_3_eq_3 .
  then obtain h br1 where h: "?H = Some (h, br1)" by auto
  show ?thesis
  proof (cases h)
    case (Inl e)
    then show ?thesis using h by (simp add: DecodePermutation_def)
  next
    case (Inr x)
    obtain code cmap where x: "x = (code, cmap)" by (cases x)
    obtain r br2 where n: "ANSSymbolReader_new code (m_window (mem 3)) 0 br1 = (r, br2)" by fastforce
    note P = ReadPermutation_ok [OF assms, where skip = skip and want = want and br = br2 and r = r and cmap = cmap]
    from P(1) obtain o' r' br' where p: "ReadPermutation skip num want br2 r cmap = Some (o', r', br')" by auto
    have run: "DecodePermutation mem skip num want br = Some (case o' of Inl e \<Rightarrow> (Inl e, br')
        | Inr order \<Rightarrow> if \<not> CheckANSFinalState r' then (Inl kGenericError, br') else (Inr order, br'))"
      using h Inr x n p by (cases o') (simp_all add: DecodePermutation_def decode_permutation_def)
    show ?thesis
    proof (cases o')
      case (Inr order)
      then show ?thesis using run P(2) [of order r' br'] p by (auto split: if_splits)
    qed (use run in simp)
  qed
qed

theorem DecodePermutation_accepted_witness:
  "\<exists>result br'. DecodePermutation (\<lambda>_. example_memory) 1 3 True (BitReader_new [0x5A, 0x93]) = Some (result, br') \<and>
    (\<forall>order. result = Inr order \<longrightarrow> (\<exists>p. order = Some p \<and> is_permutation p \<and> length p = 3 \<and> fixes_prefix 1 p))"
  using DecodePermutation_accepted [of 3 "\<lambda>_. example_memory" 1 True "BitReader_new [0x5A, 0x93]"] by auto

section \<open>Round trip\<close>

lemma lehmer_end_props:
  "skip \<le> n \<Longrightarrow> skip \<le> lehmer_end l skip n \<and> lehmer_end l skip n \<le> n \<and> (\<forall>j. lehmer_end l skip n \<le> j \<and> j < n \<longrightarrow> l ! j = 0)"
  by (induction n) (auto simp: le_Suc_eq less_Suc_eq)

lemma lehmer_code_prefix:
  "take skip ss = take skip us \<Longrightarrow> skip \<le> length ss \<Longrightarrow> skip \<le> length us \<Longrightarrow> \<forall>j < skip. lehmer_code us ss ! j = 0"
proof (induction skip arbitrary: us ss)
  case (Suc skip)
  then obtain s ss' us' where "ss = s # ss'" "us = s # us'" by (cases ss; cases us) auto
  then show ?case using Suc.IH [of ss' us'] Suc.prems by (auto simp: less_Suc_eq_0_disj)
qed simp

lemma read_lehmer_values:
  "read_values cmap (map tok_context (lehmer_tokens last_value ls)) r br = (map unat ls, r', br') \<Longrightarrow>
     \<forall>j < length ls. unat (ls ! j) + (i + j) < num \<Longrightarrow> i + length ls \<le> length lehmer \<Longrightarrow>
     read_lehmer (length ls) i num last_value cmap lehmer r br =
       (Inr (take i lehmer @ ls @ drop (i + length ls) lehmer), r', br')"
proof (induction ls arbitrary: i last_value lehmer r br)
  case (Cons l ls)
  obtain v r1 br1 where v: "ReadHybridUint (unat (CoeffOrderContext last_value)) r br cmap = (v, r1, br1)" by (metis prod_cases3)
  obtain vs r2 br2 where vs: "read_values cmap (map tok_context (lehmer_tokens l ls)) r1 br1 = (vs, r2, br2)" by (metis prod_cases3)
  have e: "v = unat l" "vs = map unat ls" "r2 = r'" "br2 = br'" using Cons.prems(1) v vs by auto
  have b: "\<forall>j < length ls. unat (ls ! j) + (Suc i + j) < num" using Cons.prems(2) by fastforce
  have "read_lehmer (length ls) (Suc i) num l cmap (lehmer[i := l]) r1 br1 =
    (Inr (take (Suc i) (lehmer[i := l]) @ ls @ drop (Suc i + length ls) (lehmer[i := l])), r', br')"
    using Cons.prems(3) by (intro Cons.IH vs [unfolded e] b) simp
  moreover have "take (Suc i) (lehmer[i := l]) = take i lehmer @ [l]" using Cons.prems(3) by (simp add: take_Suc_conv_app_nth)
  moreover have "unat l < num - i" using Cons.prems(2) by fastforce
  ultimately show ?case using v e by (simp add: Let_def not_le)
qed simp

lemma CoeffOrderContext_less: "unat (CoeffOrderContext v) < 8"
proof -
  have "CoeffOrderContext v \<le> 7" by (simp add: CoeffOrderContext_def kPermutationContexts_def split: prod.splits)
  then show ?thesis by (simp add: word_le_nat_alt)
qed

lemma lehmer_tokens_facts:
  "map tok_value (lehmer_tokens l ls) = map unat ls"
  "t \<in> set (lehmer_tokens l ls) \<Longrightarrow> \<not> is_lz77_length t \<and> tok_context t < 8 \<and> tok_value t < 2 ^ 32"
  using unsigned_less [where 'a = nat and 'b = 32]
  by (induction ls arbitrary: l) (auto simp: CoeffOrderContext_less)

text \<open>C30: Permutations survive the bit stream: the encoder turns every permutation that keeps the skipped elements in place
  into tokens in the eight contexts.  Whatever the entropy code (ANS or prefix codes, with or without LZ77): where a reader that is asked for
  these contexts returns the values of the tokens and passes the final state check, the decoder returns the permutation and is
  left at the same place.  With ANS and without LZ77, for every choice of histograms that can code the tokens, what
  \<open>WriteTokens\<close> emits for them is such a stream, and exactly the emitted bits are consumed.\<close>

theorem Permutation_roundtrip:
  assumes "is_permutation p" "0 < length p" "length p < 2 ^ 31" "skip \<le> length p" "fixes_prefix skip p"
  shows "\<exists>tokens. TokenizePermutation p skip = Some (Inr tokens) \<and>
    (\<forall>t \<in> set tokens. \<not> is_lz77_length t \<and> tok_context t < 8 \<and> tok_value t < 2 ^ 32) \<and>
    (\<forall>code window cmap br br'. decode_stream code window 0 cmap (map tok_context tokens) br = ((map tok_value tokens, True), br') \<longrightarrow>
      decode_permutation code window cmap skip (length p) True br = Some (Inr (Some p), br')) \<and>
    (\<forall>Ds la codes code window. built_from Ds la codes code \<and> Ds \<noteq> [] \<and> (\<forall>t \<in> set tokens. encodable_token Ds codes 0 t) \<longrightarrow>
      (\<exists>bs. writer.emits (\<lambda>w. (True, snd (WriteTokens tokens codes 0 w))) bs \<and>
        (\<forall>br. br_ok br \<and> begins (upcoming br) bs \<longrightarrow>
          (\<exists>br'. decode_permutation code window (context_map codes) skip (length p) True br = Some (Inr (Some p), br') \<and>
            reader.advanced br br' (length bs)))))"
proof -
  let ?n = "length p"
  define lehmer where "lehmer = (map of_nat (lehmer_code [0..<?n] (map unat p)) :: u32 list)"
  note L = LehmerCode_inverse [OF assms(1-3), folded lehmer_def]
  define e where "e = lehmer_end lehmer skip ?n"
  define ls where "ls = take (e - skip) (drop skip lehmer)"
  have e: "skip \<le> e" "e \<le> ?n" "\<forall>j. e \<le> j \<and> j < ?n \<longrightarrow> lehmer ! j = 0"
    using lehmer_end_props [OF assms(4), of lehmer] by (auto simp: e_def)
  have "take skip (map unat p) = take skip [0..<?n]"
    using assms(4,5) by (intro nth_equalityI) (auto simp: fixes_prefix_def)
  then have z: "\<forall>j < skip. lehmer ! j = 0"
    using lehmer_code_prefix [of skip "map unat p" "[0..<?n]"] assms(4) by (simp add: lehmer_def)
  have len: "length ls = e - skip" using e L(2) by (simp add: ls_def)
  have join: "take skip (replicate ?n 0) @ ls @ drop (skip + length ls) (replicate ?n 0) = lehmer"
    using e z L(2) len by (intro nth_equalityI) (auto simp: nth_append ls_def)
  have b: "\<forall>j < length ls. unat (ls ! j) + (skip + j) < ?n"
    using L(4) len e L(2) by (auto simp: ls_def add.commute)
  define t0 where "t0 = \<lparr> is_lz77_length = False, tok_context = unat (CoeffOrderContext (of_nat ?n)), tok_value = e - skip \<rparr>"
  define tokens where "tokens = t0 # lehmer_tokens 0 ls"
  have small: "e - skip < 2 ^ 32" "e < 2 ^ 32" using e assms(3) by auto
  have tok: "TokenizePermutation p skip = Some (Inr tokens)"
    using L(1) small by (simp add: TokenizePermutation_def Let_def tokens_def t0_def e_def ls_def)
  have ctx: "\<forall>t \<in> set tokens. \<not> is_lz77_length t \<and> tok_context t < 8 \<and> tok_value t < 2 ^ 32"
    using lehmer_tokens_facts(2) small by (auto simp: tokens_def t0_def CoeffOrderContext_less)
  have decode: "decode_permutation code window cmap skip ?n True br = Some (Inr (Some p), br')"
    if stream: "decode_stream code window 0 cmap (map tok_context tokens) br = ((map tok_value tokens, True), br')"
    for code window cmap br br'
  proof -
    obtain r br1 where 1: "ANSSymbolReader_new code window 0 br = (r, br1)" by fastforce
    obtain v r2 br2 where 2: "ReadHybridUint (tok_context t0) r br1 cmap = (v, r2, br2)" by (metis prod_cases3)
    obtain vs r3 br3 where 3: "read_values cmap (map tok_context (lehmer_tokens 0 ls)) r2 br2 = (vs, r3, br3)" by (metis prod_cases3)
    have s: "v = e - skip" "vs = map unat ls" "CheckANSFinalState r3" "br3 = br'"
      using stream 1 2 3 lehmer_tokens_facts(1) [of 0 ls] by (auto simp: decode_stream_def tokens_def t0_def)
    have stop: "unat (of_nat (e - skip + skip) :: u32) = e" using e small by (simp add: unat_of_nat_id)
    have "read_lehmer (e - skip) skip ?n 0 cmap (replicate ?n 0) r2 br2 = (Inr lehmer, r3, br3)"
      using read_lehmer_values [OF 3 [unfolded s(2)] b, of "replicate ?n 0"] e len unfolding join by simp
    then have "ReadPermutation skip ?n True br1 r cmap = Some (Inr (Some p), r3, br3)"
      using 2 e L(3) s(1) stop unfolding t0_def by (simp add: ReadPermutation_def Let_def del: of_nat_add)
    then show ?thesis using 1 s by (simp add: decode_permutation_def)
  qed
  have "\<exists>bs. writer.emits (\<lambda>w. (True, snd (WriteTokens tokens codes 0 w))) bs \<and>
      (\<forall>br. br_ok br \<and> begins (upcoming br) bs \<longrightarrow>
        (\<exists>br'. decode_permutation code window (context_map codes) skip ?n True br = Some (Inr (Some p), br') \<and>
          reader.advanced br br' (length bs)))"
    if built: "built_from Ds la codes code" "Ds \<noteq> []" "\<forall>t \<in> set tokens. encodable_token Ds codes 0 t" for Ds la codes code window
  proof -
    obtain bs where bs: "writer.emits (\<lambda>w. (True, snd (WriteTokens tokens codes 0 w))) bs"
      "reader.parses (decode_stream code window 0 (context_map codes) (map tok_context tokens)) bs (map tok_value tokens, True)"
      using WriteTokens_stream [OF built, of window 0] by auto
    have "\<exists>br'. decode_permutation code window (context_map codes) skip ?n True br = Some (Inr (Some p), br') \<and>
        reader.advanced br br' (length bs)" if br: "br_ok br" "begins (upcoming br) bs" for br
      by (rule reader.parsesD [OF bs(2) br]) (use decode in blast)
    then show ?thesis using bs(1) by (intro exI [of _ bs]) simp
  qed
  note stream = this
  show ?thesis
  proof (intro exI [of _ tokens] conjI allI impI)
    show "TokenizePermutation p skip = Some (Inr tokens)" by (rule tok)
    show "\<forall>t \<in> set tokens. \<not> is_lz77_length t \<and> tok_context t < 8 \<and> tok_value t < 2 ^ 32" by (rule ctx)
  qed (rule decode, assumption, elim conjE, rule stream)
qed

theorem Permutation_roundtrip_witness:
  "\<exists>tokens codes code bs. TokenizePermutation [0, 3, 1, 2] 1 = Some (Inr tokens) \<and>
    writer.emits (\<lambda>w. (True, snd (WriteTokens tokens codes 0 w))) bs \<and>
    (\<forall>br. br_ok br \<and> begins (upcoming br) bs \<longrightarrow>
      (\<exists>br'. decode_permutation code (\<lambda>_. 0) (replicate 8 0) 1 4 True br = Some (Inr (Some [0, 3, 1, 2]), br')))"
proof -
  let ?p = "[0, 3, 1, 2] :: u32 list" and ?D = "[2000, 1000, 1096] :: int list" and ?cfg = "HybridUintConfig_new 4 2 0"
  have p: "is_permutation ?p" "0 < length ?p" "length ?p < 2 ^ 31" "1 \<le> length ?p" "fixes_prefix 1 ?p"
    by (simp_all add: is_permutation_def fixes_prefix_def)
  have t: "TokenizePermutation ?p 1 = Some (Inr [
    \<lparr> is_lz77_length = False, tok_context = 3, tok_value = 1 \<rparr>, \<lparr> is_lz77_length = False, tok_context = 0, tok_value = 2 \<rparr>])"
  proof -
    have l: "ComputeLehmerCode ?p = Some (Inr [0, 2, 0, 0])"
      using ComputeLehmerCode_permutation [OF p(1,3)] by (simp add: upt_rec)
    have c: "CoeffOrderContext 4 = 3" "CoeffOrderContext 0 = 0" by code_simp+
    show ?thesis unfolding TokenizePermutation_def l using c by (simp add: Let_def)
  qed
  have "dist_ok 5 ?D" "config_ok ?cfg" by (simp_all add: dist_ok_def trim_zeros_def config_ok_def HybridUintConfig_new_def)
  then obtain codes code where built: "built_from [?D] 5 codes code"
    and c: "context_map codes = replicate 8 0" "enc_uint_config codes = [?cfg]" by (rule single_histogram_codes)
  obtain tokens where T: "TokenizePermutation ?p 1 = Some (Inr tokens)"
    "\<forall>Ds la codes code window. built_from Ds la codes code \<and> Ds \<noteq> [] \<and> (\<forall>t \<in> set tokens. encodable_token Ds codes 0 t) \<longrightarrow>
      (\<exists>bs. writer.emits (\<lambda>w. (True, snd (WriteTokens tokens codes 0 w))) bs \<and>
        (\<forall>br. br_ok br \<and> begins (upcoming br) bs \<longrightarrow>
          (\<exists>br'. decode_permutation code window (context_map codes) 1 (length ?p) True br = Some (Inr (Some ?p), br') \<and>
            reader.advanced br br' (length bs))))"
    using Permutation_roundtrip [OF p] by blast
  have "\<forall>t \<in> set tokens. encodable_token [?D] codes 0 t"
    using T(1) t by (auto simp: encodable_token_def HybridUint_Encode_def HybridUintConfig_new_def c)
  then obtain bs where "writer.emits (\<lambda>w. (True, snd (WriteTokens tokens codes 0 w))) bs"
    "\<forall>br. br_ok br \<and> begins (upcoming br) bs \<longrightarrow>
      (\<exists>br'. decode_permutation code (\<lambda>_. 0) (context_map codes) 1 (length ?p) True br = Some (Inr (Some ?p), br') \<and>
        reader.advanced br br' (length bs))"
    using T(2) built by blast
  then show ?thesis unfolding c using T(1) by (intro exI [of _ tokens] exI [of _ codes] exI [of _ code] exI [of _ bs]) (auto simp: eval_nat_numeral)
qed

section \<open>The coefficient orders of a frame\<close>

definition order_bucket :: "AcStrategyType \<Rightarrow> nat" where "order_bucket acs = kStrategyOrder ! raw acs"

lemma order_bucket_shape:
  "rows acs = [1, 1, 2, 4, 1, 1, 2, 8, 4, 16, 8, 32, 16] ! order_bucket acs"
  "columns acs = [1, 1, 2, 4, 2, 4, 4, 8, 8, 16, 16, 32, 32] ! order_bucket acs" "order_bucket acs < 13"
  by (cases acs; simp add: order_bucket_def kStrategyOrder_def rows_def columns_def covered_blocks_x_def covered_blocks_y_def
    CoefficientLayout_def CoefficientRows_def CoefficientColumns_def)+

lemma num_coeffs_eq: "num_coeffs acs = kDCTBlockSize * (columns acs * rows acs)"
  by (simp add: num_coeffs_def kDCTBlockSize_def layout_facts(4))

lemma same_bucket:
  assumes "order_bucket a = order_bucket b"
  shows "num_coeffs a = num_coeffs b" "coeff_order_ok a order = coeff_order_ok b order"
  using order_bucket_shape(1,2) [of a] order_bucket_shape(1,2) [of b] assms by (simp_all add: num_coeffs_eq coeff_order_ok_def)

text \<open>The three orders of a bucket lie one after the other and fill the space up to the next bucket.\<close>

lemma CoeffOrderOffset_next:
  assumes "c < 3"
  shows "CoeffOrderOffset (order_bucket acs) c + num_coeffs acs = CoeffOrderOffset (order_bucket acs) (Suc c)"
proof -
  have "c = 0 \<or> c = 1 \<or> c = 2" using assms by auto
  moreover have "kCoeffOrderOffset ! (3 * order_bucket acs + c) + columns acs * rows acs = kCoeffOrderOffset ! (3 * order_bucket acs + Suc c)"
    if "c = 0 \<or> c = 1 \<or> c = 2"
    using that by (cases acs) (auto simp: order_bucket_def kStrategyOrder_def kCoeffOrderOffset_def rows_def columns_def kCoeffOrderLimit_def
        covered_blocks_x_def covered_blocks_y_def CoefficientLayout_def CoefficientRows_def CoefficientColumns_def)
  ultimately have "kCoeffOrderOffset ! (3 * order_bucket acs + c) + columns acs * rows acs = kCoeffOrderOffset ! (3 * order_bucket acs + Suc c)"
    by blast
  then show ?thesis unfolding CoeffOrderOffset_def num_coeffs_eq by (metis add_mult_distrib mult.commute)
qed

lemma CoeffOrderOffset_mono: "3 * a + c \<le> 3 * b + d \<Longrightarrow> 3 * b + d \<le> 39 \<Longrightarrow> CoeffOrderOffset a c \<le> CoeffOrderOffset b d"
proof -
  have "sorted kCoeffOrderOffset" "length kCoeffOrderOffset = 40" by (simp_all add: kCoeffOrderOffset_def kCoeffOrderLimit_def)
  moreover assume "3 * a + c \<le> 3 * b + d" "3 * b + d \<le> 39"
  ultimately show ?thesis unfolding CoeffOrderOffset_def by (intro mult_le_mono1 sorted_nth_mono) simp_all
qed

text \<open>What a step stores: regions of the memory.\<close>

definition order_region :: "nat \<Rightarrow> nat \<Rightarrow> u32 list \<Rightarrow> u32 list" where "order_region at n order = take n (drop at order)"

lemma store_order_region:
  assumes "at + length xs \<le> length order"
  shows "length (store_order at xs order) = length order" "order_region at (length xs) (store_order at xs order) = xs"
    "at' + n \<le> at \<or> at + length xs \<le> at' \<Longrightarrow> order_region at' n (store_order at xs order) = order_region at' n order"
proof -
  show "length (store_order at xs order) = length order" using assms by (simp add: store_order_def)
  show "order_region at (length xs) (store_order at xs order) = xs" using assms by (simp add: store_order_def order_region_def)
  assume "at' + n \<le> at \<or> at + length xs \<le> at'"
  then show "order_region at' n (store_order at xs order) = order_region at' n order"
  proof
    assume "at' + n \<le> at"
    then show ?thesis using assms by (simp add: store_order_def order_region_def take_drop add.commute)
  next
    assume a: "at + length xs \<le> at'"
    then obtain k where "at' = at + length xs + k" using le_Suc_ex by blast
    then show ?thesis using assms by (simp add: store_order_def order_region_def add.commute add.left_commute)
  qed
qed

definition orders_filled :: "AcStrategyType \<Rightarrow> nat list \<Rightarrow> u32 list \<Rightarrow> u32 list \<Rightarrow> bool" where
  "orders_filled acs cs order order' \<longleftrightarrow> length order' = length order \<and>
     (\<forall>c \<in> set cs. coeff_order_ok acs (order_region (CoeffOrderOffset (order_bucket acs) c) (num_coeffs acs) order')) \<and>
     (\<forall>at n. (\<forall>c \<in> set cs. at + n \<le> CoeffOrderOffset (order_bucket acs) c \<or> CoeffOrderOffset (order_bucket acs) (Suc c) \<le> at) \<longrightarrow>
        order_region at n order' = order_region at n order)"

lemma orders_filled_Nil: "orders_filled acs [] order order"
  by (simp add: orders_filled_def)

lemma orders_filled_Cons:
  assumes ok: "coeff_order_ok acs xs" and c: "c < 3" "c \<notin> set cs" "set cs \<subseteq> {..<3}"
    and room: "CoeffOrderOffset (order_bucket acs) 3 \<le> length order"
    and rest: "orders_filled acs cs (store_order (CoeffOrderOffset (order_bucket acs) c) xs order) order'"
  shows "orders_filled acs (c # cs) order order'"
proof -
  let ?at = "CoeffOrderOffset (order_bucket acs) c" and ?o = "order_bucket acs"
  have len: "length xs = num_coeffs acs" using ok by (simp add: coeff_order_ok_def)
  have b: "?o < 13" by (rule order_bucket_shape(3))
  have "CoeffOrderOffset ?o (Suc c) \<le> CoeffOrderOffset ?o 3" using c b by (intro CoeffOrderOffset_mono) simp_all
  then have "?at + length xs \<le> length order" using room len CoeffOrderOffset_next [OF c(1), of acs] by simp
  note S = store_order_region [OF this]
  have "order_region ?at (num_coeffs acs) order' = order_region ?at (num_coeffs acs) (store_order ?at xs order)"
  proof -
    have "?at + num_coeffs acs \<le> CoeffOrderOffset ?o d \<or> CoeffOrderOffset ?o (Suc d) \<le> ?at" if "d \<in> set cs" for d
    proof -
      have d: "d < 3" "d \<noteq> c" using that c by auto
      show ?thesis
      proof (cases "d < c")
        case True
        then have "CoeffOrderOffset ?o (Suc d) \<le> ?at" using c b by (intro CoeffOrderOffset_mono) simp_all
        then show ?thesis by simp
      next
        case False
        then have "CoeffOrderOffset ?o (Suc c) \<le> CoeffOrderOffset ?o d" using d b by (intro CoeffOrderOffset_mono) simp_all
        then show ?thesis using CoeffOrderOffset_next [OF c(1), of acs] by simp
      qed
    qed
    then show ?thesis using rest by (simp add: orders_filled_def)
  qed
  then have "coeff_order_ok acs (order_region ?at (num_coeffs acs) order')" using ok S(2) len by simp
  moreover have "order_region at n order' = order_region at n order"
    if "\<forall>d \<in> set (c # cs). at + n \<le> CoeffOrderOffset ?o d \<or> CoeffOrderOffset ?o (Suc d) \<le> at" for at n
  proof -
    have "order_region at n order' = order_region at n (store_order ?at xs order)"
      using rest that by (simp add: orders_filled_def)
    also have "\<dots> = order_region at n order"
      using that len CoeffOrderOffset_next [OF c(1), of acs] by (intro S(3)) auto
    finally show ?thesis .
  qed
  ultimately show ?thesis using rest S(1) by (simp add: orders_filled_def)
qed

lemma compose_permutation:
  assumes "is_permutation p" "is_permutation q" "length q = length p"
  shows "is_permutation (map (\<lambda>k. q ! unat k) p)"
proof -
  have b: "unat k < length q" if "k \<in> set p" for k using assms that by (simp add: is_permutation_def)
  have "distinct q" using assms(2) by (simp add: is_permutation_def)
  then have "inj_on (\<lambda>k. q ! unat k) (set p)"
    using b by (intro inj_onI) (metis nth_eq_iff_index_eq word_unat_eq_iff)
  moreover have "q ! unat k \<in> set q" if "k \<in> set p" for k using b [OF that] by (rule nth_mem)
  ultimately show ?thesis using assms by (auto simp: is_permutation_def distinct_map)
qed

lemma permuted_order_ok:
  assumes p: "is_permutation p" "length p = num_coeffs acs" "fixes_prefix (columns acs * rows acs) p"
    and natural: "coeff_order_ok acs (take (num_coeffs acs) nat_order)"
  shows "coeff_order_ok acs (map (\<lambda>k. nat_order ! unat k) p)"
proof -
  let ?n = "num_coeffs acs" and ?q = "take (num_coeffs acs) nat_order"
  have q: "is_permutation ?q" "length ?q = ?n"
    "\<forall>y < rows acs. \<forall>x < columns acs. unat (?q ! (y * columns acs + x)) = y * (columns acs * kBlockDim) + x"
    using natural unfolding coeff_order_ok_def by blast+
  have low: "unat k < ?n" if "k \<in> set p" for k using p(1,2) that by (simp add: is_permutation_def)
  have e: "map (\<lambda>k. nat_order ! unat k) p = map (\<lambda>k. ?q ! unat k) p" using low by simp
  have "unat (map (\<lambda>k. ?q ! unat k) p ! (y * columns acs + x)) = y * (columns acs * kBlockDim) + x"
    if xy: "y < rows acs" "x < columns acs" for x y
  proof -
    have "(x, y) \<in> {..<columns acs} \<times> {..<rows acs}" using xy by simp
    then have "y * columns acs + x \<in> (\<lambda>(x, y). y * columns acs + x) ` ({..<columns acs} \<times> {..<rows acs})"
      by (intro rev_image_eqI [of "(x, y)"]) simp_all
    then have i: "y * columns acs + x < columns acs * rows acs" unfolding grid_image by simp
    moreover have "columns acs * rows acs \<le> ?n" by (simp add: num_coeffs_eq kDCTBlockSize_def kBlockDim_def)
    ultimately have l: "y * columns acs + x < ?n" by simp
    then have "unat (p ! (y * columns acs + x)) = y * columns acs + x" using p(2,3) i by (simp add: fixes_prefix_def)
    moreover have "unat (?q ! (y * columns acs + x)) = y * (columns acs * kBlockDim) + x" using q(3) xy by blast
    ultimately show ?thesis using l p(2) by simp
  qed
  moreover have "is_permutation (map (\<lambda>k. ?q ! unat k) p)" using p q by (intro compose_permutation) simp_all
  ultimately show ?thesis unfolding coeff_order_ok_def e using p(2) by simp
qed

lemma DecodeCoeffOrder_ok:
  shows "DecodeCoeffOrder acs want br r nat_order cmap \<noteq> None"
    "DecodeCoeffOrder acs want br r nat_order cmap = Some (Inr dest, r', br') \<Longrightarrow>
       (want \<longrightarrow> coeff_order_ok acs (take (num_coeffs acs) nat_order)) \<Longrightarrow>
       if want then \<exists>xs. dest = Some xs \<and> coeff_order_ok acs xs else dest = None"
proof -
  have n: "kDCTBlockSize * (covered_blocks_x acs * covered_blocks_y acs) = num_coeffs acs"
    by (simp add: num_coeffs_def kDCTBlockSize_def)
  have "num_coeffs acs < 2 ^ 31" using num_coeffs_bound [of acs] by simp
  note P = ReadPermutation_ok [OF this, of "columns acs * rows acs" want br r cmap]
  have d: "DecodeCoeffOrder acs want br r nat_order cmap =
    (case ReadPermutation (columns acs * rows acs) (num_coeffs acs) want br r cmap of
        None \<Rightarrow> None
      | Some (Inl e, r, br) \<Rightarrow> Some (Inl e, r, br)
      | Some (Inr order, r, br) \<Rightarrow> Some (Inr (map_option (map (\<lambda>k. nat_order ! unat k)) order), r, br))"
    unfolding DecodeCoeffOrder_def Let_def layout_facts(4) n [unfolded layout_facts(4)] ..
  show "DecodeCoeffOrder acs want br r nat_order cmap \<noteq> None"
    unfolding d using P(1) by (auto split: option.splits sum.splits)
  assume "DecodeCoeffOrder acs want br r nat_order cmap = Some (Inr dest, r', br')"
    and nat: "want \<longrightarrow> coeff_order_ok acs (take (num_coeffs acs) nat_order)"
  then obtain order where o': "ReadPermutation (columns acs * rows acs) (num_coeffs acs) want br r cmap = Some (Inr order, r', br')"
    "dest = map_option (map (\<lambda>k. nat_order ! unat k)) order"
    unfolding d by (auto split: option.splits sum.splits)
  from P(2) [OF o'(1)] show "if want then \<exists>xs. dest = Some xs \<and> coeff_order_ok acs xs else dest = None"
    using permuted_order_ok nat o'(2) by (auto split: if_splits)
qed

lemma decode_channels_ok:
  assumes nat: "used \<longrightarrow> coeff_order_ok acs (take (num_coeffs acs) nat_order)"
    and room: "used \<longrightarrow> CoeffOrderOffset (order_bucket acs) 3 \<le> length order"
  shows "distinct cs \<Longrightarrow> set cs \<subseteq> {..<3} \<Longrightarrow> decode_channels acs used nat_order cmap cs order r br \<noteq> None \<and>
    (decode_channels acs used nat_order cmap cs order r br = Some (Inr order', r', br') \<longrightarrow>
       (if used then orders_filled acs cs order order' else order' = order))"
  using room
proof (induction cs arbitrary: order r br)
  case Nil
  then show ?case by (auto simp: orders_filled_Nil)
next
  case (Cons c cs)
  note D = DecodeCoeffOrder_ok [where acs = acs and want = used and br = br and r = r and nat_order = nat_order and cmap = cmap]
  obtain d r1 br1 where d: "DecodeCoeffOrder acs used br r nat_order cmap = Some (d, r1, br1)" using D(1) by auto
  show ?case
  proof (cases d)
    case (Inr dest)
    note X = D(2) [OF d [unfolded Inr] nat]
    show ?thesis
    proof (cases used)
      case False
      then have "dest = None" using X by simp
      then show ?thesis using d Inr False Cons.IH [of order r1 br1] Cons.prems by simp
    next
      case True
      then obtain xs where xs: "dest = Some xs" "coeff_order_ok acs xs" using X by auto
      let ?order = "store_order (CoeffOrderOffset (order_bucket acs) c) xs order"
      have c: "c < 3" "c \<notin> set cs" "set cs \<subseteq> {..<3}" "distinct cs" using Cons.prems by auto
      have room: "CoeffOrderOffset (order_bucket acs) 3 \<le> length order" using Cons.prems True by simp
      have "CoeffOrderOffset (order_bucket acs) (Suc c) \<le> CoeffOrderOffset (order_bucket acs) 3"
        using c order_bucket_shape(3) [of acs] by (intro CoeffOrderOffset_mono) simp_all
      then have "length ?order = length order"
        using room xs(2) CoeffOrderOffset_next [OF c(1), of acs] by (intro store_order_region) (simp add: coeff_order_ok_def)
      then have IH: "decode_channels acs used nat_order cmap cs ?order r1 br1 \<noteq> None \<and>
          (decode_channels acs used nat_order cmap cs ?order r1 br1 = Some (Inr order', r', br') \<longrightarrow> orders_filled acs cs ?order order')"
        using Cons.IH [of ?order r1 br1] c room True by simp
      have run: "decode_channels acs used nat_order cmap (c # cs) order r br = decode_channels acs used nat_order cmap cs ?order r1 br1"
        using d Inr xs(1) by (simp add: order_bucket_def)
      show ?thesis unfolding run using IH True orders_filled_Cons [OF xs(2) c(1-3) room] by simp
    qed
  qed (use d in simp)
qed

lemma default_orders_filled:
  assumes "coeff_order_ok acs xs" "CoeffOrderOffset (order_bucket acs) 3 \<le> length order"
  shows "distinct cs \<Longrightarrow> set cs \<subseteq> {..<3} \<Longrightarrow>
    orders_filled acs cs order (foldl (\<lambda>order c. store_order (CoeffOrderOffset (order_bucket acs) c) xs order) order cs)"
  using assms(2)
proof (induction cs arbitrary: order)
  case (Cons c cs)
  have c: "c < 3" "c \<notin> set cs" "set cs \<subseteq> {..<3}" "distinct cs" using Cons.prems by auto
  have "CoeffOrderOffset (order_bucket acs) (Suc c) \<le> CoeffOrderOffset (order_bucket acs) 3"
    using c order_bucket_shape(3) [of acs] by (intro CoeffOrderOffset_mono) simp_all
  then have "length (store_order (CoeffOrderOffset (order_bucket acs) c) xs order) = length order"
    using Cons.prems(3) assms(1) CoeffOrderOffset_next [OF c(1), of acs] by (intro store_order_region) (simp add: coeff_order_ok_def)
  then show ?case using Cons.IH Cons.prems(3) c by (auto intro!: orders_filled_Cons [OF assms(1)])
qed (simp add: orders_filled_Nil)

lemma and_push_bit_iff: "w AND push_bit n 1 \<noteq> 0 \<longleftrightarrow> bit (w :: 'a::len word) n"
  by (simp add: bit_iff_and_push_bit_not_eq_0)

lemma and_push_bit_eq: "w AND push_bit n 1 = 0 \<longleftrightarrow> \<not> bit (w :: 'a::len word) n"
  using and_push_bit_iff [of w n] by blast

lemma bit_or_push_bit:
  assumes "n < LENGTH('a)"
  shows "bit (w OR 2 ^ k :: 'a::len word) n \<longleftrightarrow> bit w n \<or> n = k" "bit (w OR push_bit k 1 :: 'a::len word) n \<longleftrightarrow> bit w n \<or> n = k"
  using assms by (auto simp: bit_or_iff bit_exp_iff)

definition bucket_ok :: "nat \<Rightarrow> u32 list \<Rightarrow> bool" where
  "bucket_ok ord order \<longleftrightarrow> (\<forall>acs c. order_bucket acs = ord \<and> c < 3 \<longrightarrow>
     coeff_order_ok acs (order_region (CoeffOrderOffset ord c) (num_coeffs acs) order))"

lemma orders_filled_bucket:
  assumes "orders_filled acs [0..<3] order order'"
  shows "bucket_ok (order_bucket acs) order'" "ord \<noteq> order_bucket acs \<Longrightarrow> bucket_ok ord order \<Longrightarrow> bucket_ok ord order'"
proof -
  have f: "\<forall>c < 3. coeff_order_ok acs (order_region (CoeffOrderOffset (order_bucket acs) c) (num_coeffs acs) order')"
    "\<And>at n. \<forall>c < 3. at + n \<le> CoeffOrderOffset (order_bucket acs) c \<or> CoeffOrderOffset (order_bucket acs) (Suc c) \<le> at \<Longrightarrow>
       order_region at n order' = order_region at n order"
    using assms by (auto simp: orders_filled_def)
  show "bucket_ok (order_bucket acs) order'"
    unfolding bucket_ok_def
  proof (intro allI impI)
    fix acs' and c :: nat assume a: "order_bucket acs' = order_bucket acs \<and> c < 3"
    note B = same_bucket [OF conjunct1 [OF a]]
    show "coeff_order_ok acs' (order_region (CoeffOrderOffset (order_bucket acs) c) (num_coeffs acs') order')"
      unfolding B using f(1) a by blast
  qed
  assume ne: "ord \<noteq> order_bucket acs" and old: "bucket_ok ord order"
  show "bucket_ok ord order'"
    unfolding bucket_ok_def
  proof (intro allI impI)
    fix acs' and c :: nat assume a: "order_bucket acs' = ord \<and> c < 3"
    have "order_region (CoeffOrderOffset ord c) (num_coeffs acs') order' = order_region (CoeffOrderOffset ord c) (num_coeffs acs') order"
    proof (rule f(2), intro allI impI)
      fix d :: nat assume d: "d < 3"
      have b: "order_bucket acs' < 13" "order_bucket acs < 13" by (rule order_bucket_shape(3))+
      have n: "CoeffOrderOffset ord c + num_coeffs acs' = CoeffOrderOffset ord (Suc c)" using CoeffOrderOffset_next [of c acs'] a by simp
      show "CoeffOrderOffset ord c + num_coeffs acs' \<le> CoeffOrderOffset (order_bucket acs) d \<or>
        CoeffOrderOffset (order_bucket acs) (Suc d) \<le> CoeffOrderOffset ord c"
      proof (cases "ord < order_bucket acs")
        case True
        then have "CoeffOrderOffset ord (Suc c) \<le> CoeffOrderOffset (order_bucket acs) d" using a b d by (intro CoeffOrderOffset_mono) auto
        then show ?thesis using n by simp
      next
        case False
        then have "CoeffOrderOffset (order_bucket acs) (Suc d) \<le> CoeffOrderOffset ord c" using a b d ne by (intro CoeffOrderOffset_mono) auto
        then show ?thesis by simp
      qed
    qed
    then show "coeff_order_ok acs' (order_region (CoeffOrderOffset ord c) (num_coeffs acs') order')"
      using old a by (simp add: bucket_ok_def)
  qed
qed

lemma decode_orders_ok:
  assumes os: "set os \<subseteq> {..<27}"
    and room: "\<forall>acs. bit am (order_bucket acs) \<longrightarrow> CoeffOrderOffset (order_bucket acs) 3 \<le> length order"
    and inv: "\<forall>ord < 13. bit computed ord \<and> bit am ord \<longrightarrow> bucket_ok ord order"
  shows "decode_orders used_orders am cmap os computed nat_order order reader' br \<noteq> None \<and>
    (\<forall>order' r' br'. decode_orders used_orders am cmap os computed nat_order order reader' br = Some (Inr (order', r'), br') \<longrightarrow>
       length order' = length order \<and>
       (\<forall>ord < 13. (bit computed ord \<or> (\<exists>o' \<in> set os. kStrategyOrder ! o' = ord)) \<and> bit am ord \<longrightarrow> bucket_ok ord order'))"
  using assms
proof (induction os arbitrary: computed nat_order order reader' br)
  case (Cons o' os)
  define acs where "acs = FromRawStrategy o'"
  have "o' < 27" using Cons.prems(1) by simp
  then have raw: "raw acs = o'" unfolding acs_def FromRawStrategy_def strategies_def
    by (auto simp: less_Suc_eq numeral_eq_Suc)
  then have ord: "kStrategyOrder ! o' = order_bucket acs" by (simp add: order_bucket_def)
  let ?ord = "order_bucket acs"
  have b: "?ord < 13" by (rule order_bucket_shape(3))
  show ?case
  proof (cases "bit computed ?ord")
    case True
    have run: "decode_orders used_orders am cmap (o' # os) computed nat_order order reader' br =
        decode_orders used_orders am cmap os computed nat_order order reader' br"
      unfolding decode_orders.simps Let_def ord and_push_bit_iff if_P [OF True] ..
    have os: "set os \<subseteq> {..<27}" using Cons.prems(1) by simp
    show ?thesis
      unfolding run using Cons.IH [OF os Cons.prems(2,3), of nat_order reader' br] True by (auto simp: ord)
  next
    case False
    let ?used = "bit am ?ord"
    define num where "num = num_coeffs acs"
    define nat' where "nat' = (if ?used \<or> bit used_orders ?ord
      then ComputeNaturalCoeffOrder acs (if length nat_order < num then vector_resize num 0 nat_order else nat_order) else nat_order)"
    have num: "kDCTBlockSize * (covered_blocks_x acs * covered_blocks_y acs) = num"
      by (simp add: num_def num_coeffs_def kDCTBlockSize_def)
    have natok: "?used \<or> bit used_orders ?ord \<longrightarrow> coeff_order_ok acs (take num nat')"
      unfolding nat'_def num_def by (auto intro!: natural_order_ok)
    have run: "decode_orders used_orders am cmap (o' # os) computed nat_order order reader' br =
       (if \<not> bit used_orders ?ord
        then decode_orders used_orders am cmap os (computed OR push_bit ?ord 1) nat'
               (if ?used then foldl (\<lambda>order c. store_order (CoeffOrderOffset ?ord c) (take num nat') order) order [0..<3] else order) reader' br
        else (case decode_channels acs ?used nat' cmap [0..<3] order (the reader') br of
                None \<Rightarrow> None
              | Some (Inl e, r, br) \<Rightarrow> Some (Inl e, br)
              | Some (Inr order, r, br) \<Rightarrow> decode_orders used_orders am cmap os (computed OR push_bit ?ord 1) nat' order (Some r) br))"
      unfolding decode_orders.simps Let_def ord acs_def [symmetric] num and_push_bit_eq not_not if_not_P [OF False] nat'_def .. 
    have next': "decode_orders used_orders am cmap os (computed OR push_bit ?ord 1) nat' order1 reader1 br1 \<noteq> None \<and>
      (\<forall>order' r' br'. decode_orders used_orders am cmap os (computed OR push_bit ?ord 1) nat' order1 reader1 br1 = Some (Inr (order', r'), br') \<longrightarrow>
         length order' = length order \<and>
         (\<forall>ord < 13. (bit computed ord \<or> (\<exists>o' \<in> set (o' # os). kStrategyOrder ! o' = ord)) \<and> bit am ord \<longrightarrow> bucket_ok ord order'))"
      if step: "if ?used then orders_filled acs [0..<3] order order1 else order1 = order" for order1 reader1 br1
    proof -
      have len: "length order1 = length order" using step by (auto simp: orders_filled_def split: if_splits)
      have c: "bit (computed OR push_bit ?ord 1) ord' \<longleftrightarrow> bit computed ord' \<or> ord' = ?ord" if "ord' < 13" for ord'
        using that by (intro bit_or_push_bit) simp
      have "\<forall>ord' < 13. bit (computed OR push_bit ?ord 1) ord' \<and> bit am ord' \<longrightarrow> bucket_ok ord' order1"
      proof (intro allI impI)
        fix ord' assume l: "ord' < 13" and m: "bit (computed OR push_bit ?ord 1) ord' \<and> bit am ord'"
        show "bucket_ok ord' order1"
        proof (cases "ord' = ?ord")
          case True
          then show ?thesis using step m orders_filled_bucket(1) by simp
        next
          case ne: False
          then have "bucket_ok ord' order" using Cons.prems(3) c [OF l] m l by blast
          then show ?thesis using step orders_filled_bucket(2) [OF _ ne] by (auto split: if_splits)
        qed
      qed
      note inv1 = this
      have os: "set os \<subseteq> {..<27}" using Cons.prems(1) by simp
      have room1: "\<forall>acs. bit am (order_bucket acs) \<longrightarrow> CoeffOrderOffset (order_bucket acs) 3 \<le> length order1"
        using Cons.prems(2) unfolding len .
      note I = Cons.IH [OF os room1 inv1, of nat' reader1 br1]
      show ?thesis
      proof (rule conjI [OF conjunct1 [OF I]], intro allI impI)
        fix order' r' br' assume e: "decode_orders used_orders am cmap os (computed OR push_bit ?ord 1) nat' order1 reader1 br1 = Some (Inr (order', r'), br')"
        have I': "length order' = length order1 \<and> (\<forall>ord < 13. (bit (computed OR push_bit ?ord 1) ord \<or>
            (\<exists>o' \<in> set os. kStrategyOrder ! o' = ord)) \<and> bit am ord \<longrightarrow> bucket_ok ord order')"
          using conjunct2 [OF I] e by blast
        have "bucket_ok ord' order'"
          if l: "ord' < 13" and m: "(bit computed ord' \<or> (\<exists>o' \<in> set (o' # os). kStrategyOrder ! o' = ord')) \<and> bit am ord'" for ord'
        proof -
          have "bit (computed OR push_bit ?ord 1) ord' \<or> (\<exists>o' \<in> set os. kStrategyOrder ! o' = ord')"
            unfolding c [OF l] using m by (auto simp: ord)
          then show ?thesis using I' l m by blast
        qed
        then show "length order' = length order \<and> (\<forall>ord < 13. (bit computed ord \<or>
            (\<exists>o' \<in> set (o' # os). kStrategyOrder ! o' = ord)) \<and> bit am ord \<longrightarrow> bucket_ok ord order')"
          using I' len by simp
      qed
    qed
    show ?thesis
    proof (cases "bit used_orders ?ord")
      case False
      have "if ?used then orders_filled acs [0..<3] order
          (if ?used then foldl (\<lambda>order c. store_order (CoeffOrderOffset ?ord c) (take num nat') order) order [0..<3] else order)
        else (if ?used then foldl (\<lambda>order c. store_order (CoeffOrderOffset ?ord c) (take num nat') order) order [0..<3] else order) = order"
        using natok Cons.prems(2) default_orders_filled [of acs "take num nat'" order "[0..<3]"] by (simp add: atLeast0LessThan)
      from next' [OF this] show ?thesis unfolding run using False by simp
    next
      case True
      have nat2: "?used \<longrightarrow> coeff_order_ok acs (take (num_coeffs acs) nat')" using natok by (simp add: num_def)
      have room: "?used \<longrightarrow> CoeffOrderOffset ?ord 3 \<le> length order" using Cons.prems(2) by blast
      note C = decode_channels_ok [OF nat2 room, of "[0..<3]", simplified distinct_upt set_upt atLeast0LessThan]
      obtain res r1 br1 where res: "decode_channels acs ?used nat' cmap [0..<3] order (the reader') br = Some (res, r1, br1)"
        using C by (metis not_None_eq prod_cases3 subset_refl)
      show ?thesis
      proof (cases res)
        case (Inr order1)
        have "if ?used then orders_filled acs [0..<3] order order1 else order1 = order"
          using C [of cmap "the reader'" br order1 r1 br1] res Inr by simp
        from next' [OF this] show ?thesis unfolding run using True res Inr by simp
      qed (use run True res in simp)
    qed
  qed
qed simp

lemma acs_mask_bits: "ord < 13 \<Longrightarrow> bit (acs_mask_of used_acs) ord \<longleftrightarrow> (\<exists>acs. bit used_acs (raw acs) \<and> order_bucket acs = ord)"
proof -
  assume l: "ord < 13"
  have "bit (foldl (\<lambda>m o'. if used_acs AND push_bit o' 1 = 0 then m else m OR push_bit (kStrategyOrder ! o') 1) m os) ord \<longleftrightarrow>
    bit m ord \<or> (\<exists>o' \<in> set os. bit used_acs o' \<and> kStrategyOrder ! o' = ord)" for m :: u32 and os
    using l and_push_bit_iff [of used_acs] by (induction os arbitrary: m) (auto simp: bit_or_push_bit)
  then have "bit (acs_mask_of used_acs) ord \<longleftrightarrow> (\<exists>o' < kNumValidStrategies. bit used_acs o' \<and> kStrategyOrder ! o' = ord)"
    by (auto simp: acs_mask_of_def)
  moreover have "\<exists>acs. raw acs = o'" if "o' < kNumValidStrategies" for o'
  proof -
    have "o' < length strategies" using that by (simp add: kNumValidStrategies_def strategies_def)
    then have "raw (strategies ! o') = o'" unfolding strategies_def by (auto simp: less_Suc_eq numeral_eq_Suc)
    then show ?thesis by blast
  qed
  moreover have "raw acs < kNumValidStrategies" for acs by (cases acs) (simp_all add: kNumValidStrategies_def)
  ultimately show ?thesis unfolding order_bucket_def by metis
qed

lemma coeff_order_size_bound:
  assumes "bit used_acs (raw acs)"
  shows "CoeffOrderOffset (order_bucket acs) 3 \<le> coeff_order_size used_acs"
proof -
  define f where "f = (\<lambda>n o'. if push_bit o' 1 AND used_acs = 0 then n
     else max (kCoeffOrderOffset ! (3 * (kStrategyOrder ! o' + 1)) * kDCTBlockSize) n)"
  have step: "n \<le> f n o'" for n o' by (simp add: f_def)
  have le: "n \<le> foldl f n os" for n os by (induction os arbitrary: n) (auto intro: order.trans [OF step])
  have "CoeffOrderOffset (order_bucket acs) 3 \<le> foldl f n os" if "raw acs \<in> set os" for n os
    using that
  proof (induction os arbitrary: n)
    case (Cons o' os)
    show ?case
    proof (cases "raw acs = o'")
      case True
      then have "push_bit o' 1 AND used_acs \<noteq> 0" using assms and_push_bit_iff [of used_acs o'] by (simp add: and.commute)
      then have "CoeffOrderOffset (order_bucket acs) 3 \<le> f n o'"
        using True by (simp add: f_def CoeffOrderOffset_def order_bucket_def add.commute)
      then show ?thesis using le [of "f n o'" os] by simp
    qed (use Cons in simp)
  qed simp
  moreover have "raw acs < kNumValidStrategies" by (cases acs) (simp_all add: kNumValidStrategies_def)
  ultimately show ?thesis unfolding coeff_order_size_def f_def by simp
qed

text \<open>C29: Decoding the coefficient orders of a pass ends on every input, and when it accepts, then in memory of the size that
  the decoder reserves, each of the three orders of every transform in use is a permutation of the coefficients of the
  transform that keeps the low frequencies where they belong, whether it was coded or is the default.\<close>

theorem DecodeCoeffOrders_accepted:
  assumes "coeff_order_size used_acs \<le> length order"
  shows "\<exists>result br'. DecodeCoeffOrders mem used_orders used_acs order br = Some (result, br') \<and>
    (\<forall>order'. result = Inr order' \<longrightarrow> length order' = length order \<and>
      (\<forall>acs c. bit used_acs (raw acs) \<and> c < 3 \<longrightarrow>
        coeff_order_ok acs (order_region (CoeffOrderOffset (order_bucket acs) c) (num_coeffs acs) order')))"
proof -
  let ?mask = "acs_mask_of used_acs"
  have mask: "bit ?mask (order_bucket acs) \<longleftrightarrow> (\<exists>acs'. bit used_acs (raw acs') \<and> order_bucket acs' = order_bucket acs)" for acs
    by (rule acs_mask_bits [OF order_bucket_shape(3)])
  have room: "\<forall>acs. bit ?mask (order_bucket acs) \<longrightarrow> CoeffOrderOffset (order_bucket acs) 3 \<le> length order"
    unfolding mask using coeff_order_size_bound assms order.trans by metis
  have os: "set [0..<kNumValidStrategies] \<subseteq> {..<27}" by (auto simp: kNumValidStrategies_def)
  have loop: "decode_orders used_orders ?mask cmap [0..<kNumValidStrategies] 0 [] order reader' br1 \<noteq> None \<and>
    (\<forall>order' r' br'. decode_orders used_orders ?mask cmap [0..<kNumValidStrategies] 0 [] order reader' br1 = Some (Inr (order', r'), br') \<longrightarrow>
       length order' = length order \<and>
       (\<forall>acs c. bit used_acs (raw acs) \<and> c < 3 \<longrightarrow>
        coeff_order_ok acs (order_region (CoeffOrderOffset (order_bucket acs) c) (num_coeffs acs) order')))" for cmap reader' br1
  proof -
    have "raw acs < kNumValidStrategies" for acs by (cases acs) (simp_all add: kNumValidStrategies_def)
    then have "\<exists>o' \<in> set [0..<kNumValidStrategies]. kStrategyOrder ! o' = order_bucket acs" for acs
      by (auto simp: order_bucket_def)
    then show ?thesis
      using decode_orders_ok [OF os room, of 0 used_orders cmap "[]" reader' br1] mask order_bucket_shape(3)
      unfolding bucket_ok_def by simp blast
  qed
  have "DecodeHistograms 3 mem (ANSCode_new False 0 0) (unat kPermutationContexts) False br \<noteq> None"
    using DecodeHistograms_three(3) [of 0] unfolding numeral_3_eq_3 .
  then obtain h br1 where h: "DecodeHistograms 3 mem (ANSCode_new False 0 0) (unat kPermutationContexts) False br = Some (h, br1)" by auto
  define head where "head = (if used_orders \<noteq> 0
    then (case h of Inl e \<Rightarrow> (Inl e, br1)
          | Inr (code, cmap) \<Rightarrow> (case ANSSymbolReader_new code (m_window (mem 3)) 0 br1 of (r, br) \<Rightarrow> (Inr (Some r, cmap), br)))
    else (Inr (None, []), br))"
  obtain x br2 where head: "head = (x, br2)" by fastforce
  have run: "DecodeCoeffOrders mem used_orders used_acs order br = (case x of Inl e \<Rightarrow> Some (Inl e, br2)
      | Inr (reader', cmap) \<Rightarrow>
          (case decode_orders used_orders ?mask cmap [0..<kNumValidStrategies] 0 [] order reader' br2 of
             None \<Rightarrow> None
           | Some (Inl e, br) \<Rightarrow> Some (Inl e, br)
           | Some (Inr (order, reader'), br) \<Rightarrow>
               if used_orders \<noteq> 0 \<and> \<not> CheckANSFinalState (the reader') then Some (Inl kGenericError, br)
               else Some (Inr order, br)))"
    using head h unfolding head_def DecodeCoeffOrders_def by (cases h) (auto split: prod.splits)
  show ?thesis
  proof (cases x)
    case (Inr y)
    obtain reader' cmap where y: "y = (reader', cmap)" by (cases y)
    note L = loop [of cmap reader' br2]
    obtain z br3 where z: "decode_orders used_orders ?mask cmap [0..<kNumValidStrategies] 0 [] order reader' br2 = Some (z, br3)"
      using L by auto
    show ?thesis
    proof (cases z)
      case (Inr w)
      obtain order' r' where w: "w = (order', r')" by (cases w)
      show ?thesis
        unfolding run using \<open>x = Inr y\<close> y z Inr w L by simp
    qed (use run \<open>x = Inr y\<close> y z in simp)
  qed (use run in simp)
qed

text \<open>Without coded orders nothing is read.\<close>

lemma default_orders_accepted:
  "\<exists>order'. DecodeCoeffOrders mem 0 used_acs order br = Some (Inr order', br)"
proof -
  have "\<exists>order'. decode_orders 0 am cmap os computed nat_order order reader' br = Some (Inr (order', reader'), br)"
    for am cmap os computed nat_order order reader'
    by (induction os arbitrary: computed nat_order order) (simp_all add: Let_def)
  from this [of "acs_mask_of used_acs" "[]" "[0..<kNumValidStrategies]" 0 "[]" order None]
  show ?thesis by (auto simp: DecodeCoeffOrders_def simp del: decode_orders.simps)
qed

theorem DecodeCoeffOrders_accepted_witness:
  "\<exists>order'. DecodeCoeffOrders (\<lambda>_. example_memory) 0 1 (replicate 192 0) (BitReader_new []) = Some (Inr order', BitReader_new []) \<and>
     coeff_order_ok DCT (order_region 128 64 order')"
proof -
  obtain order' where run: "DecodeCoeffOrders (\<lambda>_. example_memory) 0 1 (replicate 192 0) (BitReader_new []) = Some (Inr order', BitReader_new [])"
    using default_orders_accepted by blast
  have facts: "order_bucket DCT = 0" "num_coeffs DCT = 64" "CoeffOrderOffset 0 2 = 128" "raw DCT = 0" by code_simp+
  have "coeff_order_size 1 = 192" by code_simp
  then have "coeff_order_size 1 \<le> length (replicate 192 (0 :: u32))" by simp
  from DecodeCoeffOrders_accepted [OF this, of "\<lambda>_. example_memory" 0 "BitReader_new []"] run
  have "\<forall>acs c. bit (1 :: u32) (raw acs) \<and> c < 3 \<longrightarrow>
      coeff_order_ok acs (order_region (CoeffOrderOffset (order_bucket acs) c) (num_coeffs acs) order')" by auto
  from this [rule_format, of DCT 2] have "coeff_order_ok DCT (order_region 128 64 order')" by (simp add: facts)
  then show ?thesis using run by blast
qed

end
