(* ===== verification/Frame_Dimensions.thy ===== *)
theory Frame_Dimensions
  imports Frame_Header Coeff_Order
begin

text \<open>
  Rectangles (\<^verbatim>\<open>lib/jxl/base/rect.h\<close>), the dimensions of a frame and its division into groups
  (\<^verbatim>\<open>frame_dimensions.h\<close>, \<^verbatim>\<open>FrameHeader::ToFrameDimensions\<close>) and the mirroring of coordinates (\<^verbatim>\<open>image_ops.h\<close>).
  Rectangles are those of type \<^verbatim>\<open>size_t\<close>; sizes are natural numbers: a frame has at most \<open>2 ^ 32\<close> columns and rows, so that
  the arithmetic stays far below \<open>2 ^ 64\<close>.
\<close>

section \<open>Definitions\<close>

record Rect =
  rect_x0 :: nat
  rect_y0 :: nat
  rect_xsize :: nat
  rect_ysize :: nat

definition ClampedSize :: "nat \<Rightarrow> nat \<Rightarrow> nat \<Rightarrow> nat" where
  "ClampedSize start size_max stop =
     (if start + size_max \<le> stop then size_max else if stop > start then stop - start else 0)"

definition Rect_clamped :: "nat \<Rightarrow> nat \<Rightarrow> nat \<Rightarrow> nat \<Rightarrow> nat \<Rightarrow> nat \<Rightarrow> Rect" where
  "Rect_clamped xbegin ybegin xsize_max ysize_max xend yend =
     \<lparr> rect_x0 = xbegin, rect_y0 = ybegin, rect_xsize = ClampedSize xbegin xsize_max xend,
       rect_ysize = ClampedSize ybegin ysize_max yend \<rparr>"

definition rect_x1 :: "Rect \<Rightarrow> nat" where "rect_x1 r = rect_x0 r + rect_xsize r"

definition rect_y1 :: "Rect \<Rightarrow> nat" where "rect_y1 r = rect_y0 r + rect_ysize r"

definition Intersection :: "Rect \<Rightarrow> Rect \<Rightarrow> Rect" where
  "Intersection r other = Rect_clamped (max (rect_x0 r) (rect_x0 other)) (max (rect_y0 r) (rect_y0 other))
     (rect_xsize r) (rect_ysize r) (min (rect_x1 r) (rect_x1 other)) (min (rect_y1 r) (rect_y1 other))"

definition Crop :: "nat \<Rightarrow> nat \<Rightarrow> Rect \<Rightarrow> Rect" where
  "Crop area_xsize area_ysize r =
     Intersection r \<lparr> rect_x0 = 0, rect_y0 = 0, rect_xsize = area_xsize, rect_ysize = area_ysize \<rparr>"

definition IsInside :: "Rect \<Rightarrow> Rect \<Rightarrow> bool" where
  "IsInside r other \<longleftrightarrow> rect_x0 r \<ge> rect_x0 other \<and> rect_x1 r \<le> rect_x1 other \<and>
     rect_y0 r \<ge> rect_y0 other \<and> rect_y1 r \<le> rect_y1 other"

definition IsSame :: "Rect \<Rightarrow> Rect \<Rightarrow> bool" where
  "IsSame r other \<longleftrightarrow> rect_x0 r = rect_x0 other \<and> rect_xsize r = rect_xsize other \<and>
     rect_y0 r = rect_y0 other \<and> rect_ysize r \<le> rect_ysize other"

definition Rect_ShiftLeft :: "nat \<Rightarrow> nat \<Rightarrow> Rect \<Rightarrow> Rect" where
  "Rect_ShiftLeft shiftx shifty r = \<lparr> rect_x0 = rect_x0 r * 2 ^ shiftx, rect_y0 = rect_y0 r * 2 ^ shifty,
     rect_xsize = rect_xsize r * 2 ^ shiftx, rect_ysize = rect_ysize r * 2 ^ shifty \<rparr>"

definition CeilShiftRight :: "nat \<Rightarrow> nat \<Rightarrow> Rect \<Rightarrow> Rect outcome" where
  "CeilShiftRight shiftx shifty r =
     (if \<not> (rect_x0 r mod 2 ^ shiftx = 0 \<and> rect_y0 r mod 2 ^ shifty = 0) then Inl kGenericError
      else Inr \<lparr> rect_x0 = rect_x0 r div 2 ^ shiftx, rect_y0 = rect_y0 r div 2 ^ shifty,
                 rect_xsize = DivCeil (rect_xsize r) (2 ^ shiftx), rect_ysize = DivCeil (rect_ysize r) (2 ^ shifty) \<rparr>)"

definition Extend :: "nat \<Rightarrow> Rect \<Rightarrow> Rect \<Rightarrow> Rect" where
  "Extend border parent r =
     (let new_x0 = (if rect_x0 r > rect_x0 parent + border then rect_x0 r - border else rect_x0 parent);
          new_y0 = (if rect_y0 r > rect_y0 parent + border then rect_y0 r - border else rect_y0 parent);
          new_x1 = (if rect_x1 r + border > rect_x1 parent then rect_x1 parent else rect_x1 r + border);
          new_y1 = (if rect_y1 r + border > rect_y1 parent then rect_y1 parent else rect_y1 r + border)
      in \<lparr> rect_x0 = new_x0, rect_y0 = new_y0, rect_xsize = new_x1 - new_x0, rect_ysize = new_y1 - new_y0 \<rparr>)"

definition kGroupDim :: nat where "kGroupDim = 256"

record FrameDimensions =
  fd_xsize :: nat
  fd_ysize :: nat
  fd_xsize_upsampled :: nat
  fd_ysize_upsampled :: nat
  fd_xsize_upsampled_padded :: nat
  fd_ysize_upsampled_padded :: nat
  fd_xsize_padded :: nat
  fd_ysize_padded :: nat
  fd_xsize_blocks :: nat
  fd_ysize_blocks :: nat
  fd_xsize_groups :: nat
  fd_ysize_groups :: nat
  fd_xsize_dc_groups :: nat
  fd_ysize_dc_groups :: nat
  fd_num_groups :: nat
  fd_num_dc_groups :: nat
  fd_group_dim :: nat
  fd_dc_group_dim :: nat

definition FrameDimensions_Set :: "nat \<Rightarrow> nat \<Rightarrow> nat \<Rightarrow> nat \<Rightarrow> nat \<Rightarrow> bool \<Rightarrow> nat \<Rightarrow> FrameDimensions" where
  "FrameDimensions_Set xsize_px ysize_px group_shift max_hshift max_vshift modular_mode upsample =
     (let group_dim = kGroupDim div 2 * 2 ^ group_shift;
          xsize = DivCeil xsize_px upsample;
          ysize = DivCeil ysize_px upsample;
          xsize_blocks = DivCeil xsize (kBlockDim * 2 ^ max_hshift) * 2 ^ max_hshift;
          ysize_blocks = DivCeil ysize (kBlockDim * 2 ^ max_vshift) * 2 ^ max_vshift;
          xsize_padded = (if modular_mode then xsize else xsize_blocks * kBlockDim);
          ysize_padded = (if modular_mode then ysize else ysize_blocks * kBlockDim);
          xsize_groups = DivCeil xsize group_dim;
          ysize_groups = DivCeil ysize group_dim;
          xsize_dc_groups = DivCeil xsize_blocks group_dim;
          ysize_dc_groups = DivCeil ysize_blocks group_dim
      in \<lparr> fd_xsize = xsize, fd_ysize = ysize, fd_xsize_upsampled = xsize_px, fd_ysize_upsampled = ysize_px,
           fd_xsize_upsampled_padded = xsize_padded * upsample, fd_ysize_upsampled_padded = ysize_padded * upsample,
           fd_xsize_padded = xsize_padded, fd_ysize_padded = ysize_padded,
           fd_xsize_blocks = xsize_blocks, fd_ysize_blocks = ysize_blocks,
           fd_xsize_groups = xsize_groups, fd_ysize_groups = ysize_groups,
           fd_xsize_dc_groups = xsize_dc_groups, fd_ysize_dc_groups = ysize_dc_groups,
           fd_num_groups = xsize_groups * ysize_groups, fd_num_dc_groups = xsize_dc_groups * ysize_dc_groups,
           fd_group_dim = group_dim, fd_dc_group_dim = group_dim * kBlockDim \<rparr>)"

definition GroupRect :: "FrameDimensions \<Rightarrow> nat \<Rightarrow> Rect" where
  "GroupRect fd group_index =
     (let gx = group_index mod fd_xsize_groups fd; gy = group_index div fd_xsize_groups fd
      in Rect_clamped (gx * fd_group_dim fd) (gy * fd_group_dim fd) (fd_group_dim fd) (fd_group_dim fd) (fd_xsize fd) (fd_ysize fd))"

definition BlockGroupRect :: "FrameDimensions \<Rightarrow> nat \<Rightarrow> Rect" where
  "BlockGroupRect fd group_index =
     (let gx = group_index mod fd_xsize_groups fd; gy = group_index div fd_xsize_groups fd; dim = drop_bit 3 (fd_group_dim fd)
      in Rect_clamped (gx * dim) (gy * dim) dim dim (fd_xsize_blocks fd) (fd_ysize_blocks fd))"

definition DCGroupRect :: "FrameDimensions \<Rightarrow> nat \<Rightarrow> Rect" where
  "DCGroupRect fd group_index =
     (let gx = group_index mod fd_xsize_dc_groups fd; gy = group_index div fd_xsize_dc_groups fd
      in Rect_clamped (gx * fd_group_dim fd) (gy * fd_group_dim fd) (fd_group_dim fd) (fd_group_dim fd)
           (fd_xsize_blocks fd) (fd_ysize_blocks fd))"

definition ToFrameDimensions :: "'c FrameHeader \<Rightarrow> FrameDimensions" where
  "ToFrameDimensions h =
     (let xsize = default_xsize h; ysize = default_ysize h;
          xsize = (if fs_xsize (frame_size h) \<noteq> 0 then unat (fs_xsize (frame_size h)) else xsize);
          ysize = (if fs_ysize (frame_size h) \<noteq> 0 then unat (fs_ysize (frame_size h)) else ysize);
          (xsize, ysize) =
            (if dc_level h \<noteq> 0 then (DivCeil xsize (2 ^ (3 * unat (dc_level h))), DivCeil ysize (2 ^ (3 * unat (dc_level h))))
             else (xsize, ysize))
      in FrameDimensions_Set xsize ysize (unat (group_size_shift h)) (maxhs (chroma_subsampling h)) (maxvs (chroma_subsampling h))
           (frame_encoding h = kModular) (unat (upsampling h)))"

text \<open>The loop that mirrors a coordinate, on signed 64-bit integers.  A result that does not fit them is undefined in the source: the
  checked operations yield \<open>None\<close> then.  \<open>Mirror\<close> is \<open>None\<close> if an operation overflows or the loop does not end.\<close>

definition checked_int64 :: "int \<Rightarrow> int option" where
  "checked_int64 v = (if - (2 ^ 63) \<le> v \<and> v < 2 ^ 63 then Some v else None)"

definition sub_int64 :: "int option \<Rightarrow> int \<Rightarrow> int option" where
  "sub_int64 a b = (case a of None \<Rightarrow> None | Some a \<Rightarrow> checked_int64 (a - b))"

definition mirror_step :: "int \<Rightarrow> int \<Rightarrow> int option" where
  "mirror_step x xsize =
     (if x < 0 then sub_int64 (checked_int64 (- x)) 1
      else sub_int64 (sub_int64 (checked_int64 (2 * xsize)) 1) x)"

partial_function (option) Mirror :: "int \<Rightarrow> int \<Rightarrow> int option" where
  "Mirror x xsize =
     (if x < 0 \<or> x \<ge> xsize
      then (case mirror_step x xsize of None \<Rightarrow> None | Some x \<Rightarrow> Mirror x xsize)
      else Some x)"

declare Mirror.simps [code]

section \<open>Rectangles\<close>

definition in_rect :: "Rect \<Rightarrow> nat \<Rightarrow> nat \<Rightarrow> bool" where
  "in_rect r x y \<longleftrightarrow> rect_x0 r \<le> x \<and> x < rect_x1 r \<and> rect_y0 r \<le> y \<and> y < rect_y1 r"

lemma ClampedSize_bounds: "a \<le> x \<and> x < a + ClampedSize a n b \<longleftrightarrow> a \<le> x \<and> x < a + n \<and> x < b"
  by (auto simp: ClampedSize_def)

lemma in_rect_clamped:
  "in_rect (Rect_clamped x0 y0 xs ys xe ye) x y \<longleftrightarrow>
     x0 \<le> x \<and> x < x0 + xs \<and> x < xe \<and> y0 \<le> y \<and> y < y0 + ys \<and> y < ye"
  using ClampedSize_bounds [of x0 x xs xe] ClampedSize_bounds [of y0 y ys ye]
  by (auto simp: in_rect_def Rect_clamped_def rect_x1_def rect_y1_def)

text \<open>Rectangles behave as sets of pixels: the intersection and the crop contain exactly the common pixels, a rectangle
  inside another one has no pixels outside of it, shifting left is undone by shifting right, and extending by a border
  inside a parent contains exactly the pixels of the parent that are at most the border away in each direction.\<close>

theorem Rect_operations_correct:
  shows "(in_rect (Intersection r s) x y \<longleftrightarrow> in_rect r x y \<and> in_rect s x y) \<and>
    (in_rect (Crop w h r) x y \<longleftrightarrow> in_rect r x y \<and> x < w \<and> y < h) \<and>
    (IsInside r s \<longrightarrow> in_rect r x y \<longrightarrow> in_rect s x y) \<and>
    CeilShiftRight a b (Rect_ShiftLeft a b r) = Inr r \<and>
    (IsInside r s \<longrightarrow> (in_rect (Extend border s r) x y \<longleftrightarrow> in_rect s x y \<and>
       rect_x0 r \<le> x + border \<and> x < rect_x1 r + border \<and> rect_y0 r \<le> y + border \<and> y < rect_y1 r + border))"
proof (intro conjI impI)
  show i: "in_rect (Intersection r s) x y \<longleftrightarrow> in_rect r x y \<and> in_rect s x y" for r s x y
    unfolding Intersection_def in_rect_clamped by (auto simp: in_rect_def rect_x1_def rect_y1_def)
  show "in_rect (Crop w h r) x y \<longleftrightarrow> in_rect r x y \<and> x < w \<and> y < h"
    unfolding Crop_def i by (auto simp: in_rect_def rect_x1_def rect_y1_def)
  show "in_rect s x y" if "IsInside r s" "in_rect r x y" using that by (auto simp: IsInside_def in_rect_def)
  have "DivCeil (n * 2 ^ k) (2 ^ k) = n" for n k :: nat
    using div_mult_self3 [of "2 ^ k" n "2 ^ k - 1"] by (simp add: DivCeil_def add.commute)
  then show "CeilShiftRight a b (Rect_ShiftLeft a b r) = Inr r"
    by (cases r) (simp add: CeilShiftRight_def Rect_ShiftLeft_def)
  assume "IsInside r s"
  then show "in_rect (Extend border s r) x y \<longleftrightarrow> in_rect s x y \<and>
      rect_x0 r \<le> x + border \<and> x < rect_x1 r + border \<and> rect_y0 r \<le> y + border \<and> y < rect_y1 r + border"
    by (auto simp: Extend_def Let_def IsInside_def in_rect_def rect_x1_def rect_y1_def)
qed

text \<open>The rectangles used on arguments for which each hypothesis holds: the second is inside the first.\<close>

lemma Rect_operations_correct_witness:
  "in_rect (Intersection \<lparr> rect_x0 = 2, rect_y0 = 2, rect_xsize = 3, rect_ysize = 3 \<rparr>
      \<lparr> rect_x0 = 0, rect_y0 = 0, rect_xsize = 10, rect_ysize = 10 \<rparr>) 4 4 \<and>
   in_rect (Extend 2 \<lparr> rect_x0 = 0, rect_y0 = 0, rect_xsize = 10, rect_ysize = 10 \<rparr>
      \<lparr> rect_x0 = 2, rect_y0 = 2, rect_xsize = 3, rect_ysize = 3 \<rparr>) 6 0"
proof -
  let ?r = "\<lparr> rect_x0 = 2, rect_y0 = 2, rect_xsize = 3, rect_ysize = 3 \<rparr>"
  let ?s = "\<lparr> rect_x0 = 0, rect_y0 = 0, rect_xsize = 10, rect_ysize = 10 \<rparr>"
  have i: "IsInside ?r ?s" "in_rect ?r 4 4" "in_rect ?s 6 0" by (simp_all add: in_rect_def IsInside_def rect_x1_def rect_y1_def)
  have "in_rect ?s 4 4" "in_rect (Intersection ?r ?s) 4 4 \<longleftrightarrow> in_rect ?r 4 4 \<and> in_rect ?s 4 4"
    using Rect_operations_correct [of ?r ?s 4 4 0 0 0 0 0] i by blast+
  moreover have "in_rect (Extend 2 ?s ?r) 6 0 \<longleftrightarrow> in_rect ?s 6 0 \<and>
      rect_x0 ?r \<le> 6 + 2 \<and> 6 < rect_x1 ?r + 2 \<and> rect_y0 ?r \<le> 0 + 2 \<and> 0 < rect_y1 ?r + 2"
    by (rule Rect_operations_correct [THEN conjunct2, THEN conjunct2, THEN conjunct2, THEN conjunct2, THEN mp, OF i(1)])
  ultimately show ?thesis using i by (simp add: rect_x1_def rect_y1_def)
qed

section \<open>The groups of a frame\<close>

lemma strip_iff: "0 < d \<Longrightarrow> a * d \<le> x \<and> x < a * d + d \<longleftrightarrow> x div d = (a :: nat)"
  by (metis add.commute div_nat_eqI dividend_less_times_div mult.commute mult_Suc_right times_div_less_eq_dividend)

lemma grid_iff:
  fixes g nx ny :: nat
  assumes "a < nx" "b < ny"
  shows "g < nx * ny \<and> g mod nx = a \<and> g div nx = b \<longleftrightarrow> g = b * nx + a"
proof
  assume "g < nx * ny \<and> g mod nx = a \<and> g div nx = b"
  then show "g = b * nx + a" using div_mult_mod_eq [of g nx] by simp
next
  assume g: "g = b * nx + a"
  have "b * nx + a < Suc b * nx" using assms by simp
  also have "\<dots> \<le> ny * nx" using assms by (intro mult_right_mono) simp_all
  finally show "g < nx * ny \<and> g mod nx = a \<and> g div nx = b" using g assms by (simp add: mult.commute)
qed

lemma tile_iff:
  assumes d: "0 < d" and x: "x < w" "w \<le> d * nx" and y: "y < h" "h \<le> d * ny"
  shows "g < nx * ny \<and> in_rect (Rect_clamped (g mod nx * d) (g div nx * d) d d w h) x y \<longleftrightarrow>
    g = y div d * nx + x div d"
proof -
  have "x div d < nx" "y div d < ny" using x y by (simp_all add: less_mult_imp_div_less mult.commute)
  from grid_iff [OF this, of g] show ?thesis
    unfolding in_rect_clamped using strip_iff [OF d, of "g mod nx" x] strip_iff [OF d, of "g div nx" y] x y by metis
qed

lemma group_dim_pow: "kGroupDim div 2 * 2 ^ s = 8 * (2 ^ 4 * 2 ^ s)" by (simp add: kGroupDim_def)

lemma FrameDimensions_Set_blocks:
  assumes "m \<le> 4 + s"
  shows "DivCeil n (8 * 2 ^ m) * 2 ^ m \<le> 2 ^ (4 + s) * DivCeil n (8 * 2 ^ (4 + s))"
    "n \<le> 8 * (DivCeil n (8 * 2 ^ m) * 2 ^ m)"
proof -
  obtain k where k: "4 + s = m + k" using assms le_Suc_ex by blast
  have b: "n \<le> 8 * 2 ^ m * DivCeil n (8 * 2 ^ m)" "8 * 2 ^ m * DivCeil n (8 * 2 ^ m) < n + 8 * 2 ^ m"
    using DivCeil_bounds [of "8 * 2 ^ m" n] by simp_all
  then show "n \<le> 8 * (DivCeil n (8 * 2 ^ m) * 2 ^ m)" by (simp add: ac_simps)
  have c: "n \<le> 8 * 2 ^ (m + k) * DivCeil n (8 * 2 ^ (m + k))" using DivCeil_bounds [of "8 * 2 ^ (m + k)" n] by simp
  have "8 * 2 ^ m * DivCeil n (8 * 2 ^ m) < 8 * 2 ^ m * (2 ^ k * DivCeil n (8 * 2 ^ (m + k)) + 1)"
    using b(2) c by (simp add: power_add algebra_simps)
  then have "DivCeil n (8 * 2 ^ m) < 2 ^ k * DivCeil n (8 * 2 ^ (m + k)) + 1" unfolding mult_less_cancel1 by blast
  then have "DivCeil n (8 * 2 ^ m) \<le> 2 ^ k * DivCeil n (8 * 2 ^ (m + k))" by simp
  then have "DivCeil n (8 * 2 ^ m) * 2 ^ m \<le> 2 ^ k * DivCeil n (8 * 2 ^ (m + k)) * 2 ^ m" by (rule mult_right_mono) simp
  then show "DivCeil n (8 * 2 ^ m) * 2 ^ m \<le> 2 ^ (4 + s) * DivCeil n (8 * 2 ^ (4 + s))"
    unfolding k by (simp add: power_add algebra_simps)
qed

text \<open>C35: The groups of a frame partition it: every pixel of the frame is in the rectangle of exactly one group, every
  block in the block rectangle of exactly one group and in the rectangle of exactly one DC group, namely those of its
  row and column; the block that contains a pixel is in the group of the pixel; the padded sizes are multiples of the
  block size that cover the frame, and the upsampled frame is covered. The shift of the chroma channels must be at most the group's.\<close>

theorem FrameDimensions_groups_partition:
  assumes fd: "fd = FrameDimensions_Set xsize_px ysize_px shift hs vs modular upsample"
    and s: "hs \<le> 4 + shift" "vs \<le> 4 + shift" and up: "0 < upsample"
  shows "(x < fd_xsize fd \<and> y < fd_ysize fd \<longrightarrow>
      (\<forall>g. g < fd_num_groups fd \<and> in_rect (GroupRect fd g) x y \<longleftrightarrow>
         g = y div fd_group_dim fd * fd_xsize_groups fd + x div fd_group_dim fd) \<and>
      in_rect (BlockGroupRect fd (y div fd_group_dim fd * fd_xsize_groups fd + x div fd_group_dim fd)) (x div 8) (y div 8)) \<and>
    (x < fd_xsize_blocks fd \<and> y < fd_ysize_blocks fd \<longrightarrow>
      (\<exists>!g. g < fd_num_groups fd \<and> in_rect (BlockGroupRect fd g) x y) \<and>
      (\<exists>!g. g < fd_num_dc_groups fd \<and> in_rect (DCGroupRect fd g) x y)) \<and>
    fd_xsize fd \<le> 8 * fd_xsize_blocks fd \<and> fd_ysize fd \<le> 8 * fd_ysize_blocks fd \<and>
    xsize_px \<le> fd_xsize_upsampled_padded fd \<and> ysize_px \<le> fd_ysize_upsampled_padded fd"
proof -
  let ?d = "fd_group_dim fd" and ?b = "2 ^ (4 + shift) :: nat"
  have d: "?d = 8 * ?b" "drop_bit 3 ?d = ?b" "0 < ?d" "0 < ?b"
    unfolding fd by (simp_all add: FrameDimensions_Set_def Let_def group_dim_pow drop_bit_eq_div power_add kGroupDim_def)
  have n: "fd_num_groups fd = fd_xsize_groups fd * fd_ysize_groups fd"
    "fd_num_dc_groups fd = fd_xsize_dc_groups fd * fd_ysize_dc_groups fd"
    by (simp_all add: fd FrameDimensions_Set_def Let_def)
  have e: "fd_xsize_groups fd = DivCeil (fd_xsize fd) ?d" "fd_ysize_groups fd = DivCeil (fd_ysize fd) ?d"
    "fd_xsize_dc_groups fd = DivCeil (fd_xsize_blocks fd) ?d" "fd_ysize_dc_groups fd = DivCeil (fd_ysize_blocks fd) ?d"
    "fd_xsize_blocks fd = DivCeil (fd_xsize fd) (8 * 2 ^ hs) * 2 ^ hs"
    "fd_ysize_blocks fd = DivCeil (fd_ysize fd) (8 * 2 ^ vs) * 2 ^ vs"
    by (simp_all add: fd FrameDimensions_Set_def Let_def kBlockDim_def)
  have c: "fd_xsize fd \<le> ?d * fd_xsize_groups fd" "fd_ysize fd \<le> ?d * fd_ysize_groups fd"
    "fd_xsize_blocks fd \<le> ?d * fd_xsize_dc_groups fd" "fd_ysize_blocks fd \<le> ?d * fd_ysize_dc_groups fd"
    unfolding e(1-4) using DivCeil_bounds [OF d(3)] by blast+
  have b: "fd_xsize_blocks fd \<le> ?b * fd_xsize_groups fd" "fd_ysize_blocks fd \<le> ?b * fd_ysize_groups fd"
    "fd_xsize fd \<le> 8 * fd_xsize_blocks fd" "fd_ysize fd \<le> 8 * fd_ysize_blocks fd"
    using FrameDimensions_Set_blocks [OF s(1), of "fd_xsize fd"] FrameDimensions_Set_blocks [OF s(2), of "fd_ysize fd"]
    by (simp_all add: e d(1))
  have px: "(\<forall>g. g < fd_num_groups fd \<and> in_rect (GroupRect fd g) x y \<longleftrightarrow> g = y div ?d * fd_xsize_groups fd + x div ?d)"
    if "x < fd_xsize fd" "y < fd_ysize fd" for x y
    using tile_iff [OF d(3) that(1) c(1) that(2) c(2)] by (simp add: n GroupRect_def Let_def)
  have bl: "g < fd_num_groups fd \<and> in_rect (BlockGroupRect fd g) x y \<longleftrightarrow> g = y div ?b * fd_xsize_groups fd + x div ?b"
    if "x < fd_xsize_blocks fd" "y < fd_ysize_blocks fd" for g x y
    using tile_iff [OF d(4) that(1) b(1) that(2) b(2)] by (simp add: n BlockGroupRect_def Let_def d(2))
  have dc: "g < fd_num_dc_groups fd \<and> in_rect (DCGroupRect fd g) x y \<longleftrightarrow> g = y div ?d * fd_xsize_dc_groups fd + x div ?d"
    if "x < fd_xsize_blocks fd" "y < fd_ysize_blocks fd" for g x y
    using tile_iff [OF d(3) that(1) c(3) that(2) c(4)] by (simp add: n DCGroupRect_def Let_def)
  have pb: "in_rect (BlockGroupRect fd (y div ?d * fd_xsize_groups fd + x div ?d)) (x div 8) (y div 8)"
    if "x < fd_xsize fd" "y < fd_ysize fd" for x y
  proof -
    have "x div 8 < fd_xsize_blocks fd" "y div 8 < fd_ysize_blocks fd" using b(3,4) that by linarith+
    moreover have "n div ?d = n div 8 div ?b" for n :: nat unfolding d(1) by (rule div_mult2_eq)
    ultimately show ?thesis using bl [of "x div 8" "y div 8"] by metis
  qed
  have padded: "fd_xsize fd \<le> fd_xsize_padded fd" "fd_ysize fd \<le> fd_ysize_padded fd"
    using b(3,4) by (simp_all add: fd FrameDimensions_Set_def Let_def kBlockDim_def mult.commute)
  have "n \<le> DivCeil n upsample * upsample" for n using DivCeil_bounds [OF up, of n] by (simp add: mult.commute)
  then have upx: "xsize_px \<le> fd_xsize fd * upsample" "ysize_px \<le> fd_ysize fd * upsample"
    by (simp_all add: fd FrameDimensions_Set_def Let_def)
  have "xsize_px \<le> fd_xsize_padded fd * upsample" "ysize_px \<le> fd_ysize_padded fd * upsample"
    using upx padded by (meson le_trans mult_le_mono1)+
  then have cover: "xsize_px \<le> fd_xsize_upsampled_padded fd" "ysize_px \<le> fd_ysize_upsampled_padded fd"
    by (simp_all add: fd FrameDimensions_Set_def Let_def)
  have bu: "\<exists>!g. g < fd_num_groups fd \<and> in_rect (BlockGroupRect fd g) x y"
    if "x < fd_xsize_blocks fd" "y < fd_ysize_blocks fd" for x y unfolding bl [OF that] by (rule ex1_eq)
  have du: "\<exists>!g. g < fd_num_dc_groups fd \<and> in_rect (DCGroupRect fd g) x y"
    if "x < fd_xsize_blocks fd" "y < fd_ysize_blocks fd" for x y unfolding dc [OF that] by (rule ex1_eq)
  show ?thesis by (intro conjI impI; (elim conjE)?; rule px pb bu du b cover; assumption?)
qed

text \<open>A frame of 300 by 200 pixels with subsampled chroma and small groups: its pixel (290, 150) is in the group of index 5.\<close>

lemma FrameDimensions_groups_partition_witness:
  "let fd = FrameDimensions_Set 300 200 0 1 1 False 1
   in fd_num_groups fd = 6 \<and> (\<forall>g. g < fd_num_groups fd \<and> in_rect (GroupRect fd g) 290 150 \<longleftrightarrow> g = 5)"
  using FrameDimensions_groups_partition [OF refl, of 1 0 1 1 290 300 200 False 150]
  by (simp add: FrameDimensions_Set_def Let_def DivCeil_def kGroupDim_def kBlockDim_def)

section \<open>Mirrored coordinates\<close>

text \<open>What a step does where nothing overflows.\<close>

definition mirrorable :: "int \<Rightarrow> int \<Rightarrow> bool" where
  "mirrorable x xsize \<longleftrightarrow> 0 < xsize \<and> xsize < 2 ^ 62 \<and> - (2 ^ 63) < x \<and> x < 2 ^ 63"

lemma mirror_step_Some:
  assumes "mirrorable x xsize" "x < 0 \<or> xsize \<le> x"
  shows "mirror_step x xsize = Some (if x < 0 then - x - 1 else 2 * xsize - 1 - x)"
    "mirrorable (if x < 0 then - x - 1 else 2 * xsize - 1 - x) xsize"
proof -
  have n: "- (2 ^ 63) \<le> - x \<and> - x < 2 ^ 63 \<and> - (2 ^ 63) \<le> - x - 1 \<and> - x - 1 < 2 ^ 63" if "x < 0"
    using assms(1) that by (simp add: mirrorable_def)
  have p: "- (2 ^ 63) \<le> 2 * xsize \<and> 2 * xsize < 2 ^ 63 \<and> - (2 ^ 63) \<le> 2 * xsize - 1 \<and> 2 * xsize - 1 < 2 ^ 63 \<and>
      - (2 ^ 63) \<le> 2 * xsize - 1 - x \<and> 2 * xsize - 1 - x < 2 ^ 63" if "\<not> x < 0"
    using assms that by (simp add: mirrorable_def)
  show "mirror_step x xsize = Some (if x < 0 then - x - 1 else 2 * xsize - 1 - x)"
    using n p by (simp add: mirror_step_def sub_int64_def checked_int64_def)
  show "mirrorable (if x < 0 then - x - 1 else 2 * xsize - 1 - x) xsize"
    using assms by (auto simp: mirrorable_def)
qed

text \<open>The remainder that decides the result is reflected by a step.\<close>

lemma mirror_mod:
  assumes "(0 :: int) < xsize"
  shows "(if x < 0 then - x - 1 else 2 * xsize - 1 - x) mod (2 * xsize) = 2 * xsize - 1 - x mod (2 * xsize)"
proof -
  let ?p = "2 * xsize"
  have r: "0 \<le> x mod ?p" "x mod ?p < ?p" using assms by simp_all
  have "- x - 1 = ?p - 1 - x mod ?p + ?p * (- (x div ?p) - 1)" using mult_div_mod_eq [of ?p x] by (simp add: algebra_simps)
  then have "(- x - 1) mod ?p = (?p - 1 - x mod ?p) mod ?p" by (metis mod_mult_self2)
  then have neg: "(- x - 1) mod ?p = ?p - 1 - x mod ?p" using r by simp
  have "(?p - 1 - x) mod ?p = (- x - 1) mod ?p" using mod_add_self1 [of ?p "- x - 1"] by (simp add: algebra_simps)
  then show ?thesis using neg by simp
qed

text \<open>C36: For images of fewer than \<open>2 ^ 62\<close> columns and every 64-bit coordinate but the smallest, however far outside, the mirroring
  loop ends without any signed overflow (the comment in the source doubts that it ends) and returns the column of
  the reflection with period \<open>2 * xsize\<close>: a valid column, which for a valid coordinate is the coordinate itself.\<close>

theorem Mirror_ends:
  assumes "0 < xsize" "xsize < 2 ^ 62" "- (2 ^ 63) < x" "x < 2 ^ 63"
  shows "Mirror x xsize =
    Some (let r = x mod (2 * xsize) in if r < xsize then r else 2 * xsize - 1 - r)"
proof -
  have "mirrorable x xsize" using assms by (simp add: mirrorable_def)
  then show ?thesis
  proof (induction "nat (if x < 0 then - 2 * x else 2 * x)" arbitrary: x rule: less_induct)
    case less
    let ?x = "if x < 0 then - x - 1 else 2 * xsize - 1 - x"
    show ?case
    proof (cases "x < 0 \<or> xsize \<le> x")
      case True
      note S = mirror_step_Some [OF less.prems True]
      have "Mirror x xsize = Mirror ?x xsize" using True S(1) by (subst Mirror.simps) simp
      also have "\<dots> = Some (let r = ?x mod (2 * xsize) in if r < xsize then r else 2 * xsize - 1 - r)"
        using True assms(1) by (intro less.hyps S(2)) auto
      finally show ?thesis unfolding mirror_mod [OF assms(1)] Let_def by (auto split: if_splits)
    next
      case False
      then show ?thesis by (subst Mirror.simps) (simp add: Let_def)
    qed
  qed
qed

lemma Mirror_ends_witness: "Mirror 23 10 = Some 3"
  using Mirror_ends [of 10 23] by simp

text \<open>The smallest coordinate cannot be negated.\<close>

lemma Mirror_overflow: "Mirror (- (2 ^ 63)) xsize = None"
  by (subst Mirror.simps) (simp add: mirror_step_def sub_int64_def checked_int64_def)

end
