(* ===== verification/Toc.thy ===== *)
theory Toc
  imports Coeff_Order Frame_Dimensions
begin

text \<open>
  The table of contents of a frame (\<^verbatim>\<open>lib/jxl/toc.h\<close>, \<^verbatim>\<open>toc.cc\<close>, \<^verbatim>\<open>enc_toc.cc\<close>): the sizes of the sections, an optional
  permutation of them, and the offsets that follow from both.  The encoder of the permutation chooses histograms by
  heuristics that are not modelled; it is an argument of the writer.
\<close>

section \<open>Definitions\<close>

definition kTocDist :: U32Enc where
  "kTocDist = U32Enc (Bits 10) (BitsOffset 14 1024) (BitsOffset 22 17408) (BitsOffset 30 4211712)"

definition MaxBits :: "nat \<Rightarrow> nat" where
  "MaxBits num_sizes =
     (let entry_bits = U32Coder_MaxEncodedBits kTocDist * num_sizes
      in 1 + kBitsPerByte + entry_bits + kBitsPerByte)"

definition AcGroupIndex :: "nat \<Rightarrow> nat \<Rightarrow> nat \<Rightarrow> nat \<Rightarrow> nat" where
  "AcGroupIndex pass grp num_groups num_dc_groups = 2 + num_dc_groups + pass * num_groups + grp"

definition NumTocEntries :: "nat \<Rightarrow> nat \<Rightarrow> nat \<Rightarrow> nat" where
  "NumTocEntries num_groups num_dc_groups passes =
     (if num_groups = 1 \<and> passes = 1 then 1
      else AcGroupIndex 0 0 num_groups num_dc_groups + num_groups * passes)"

definition check_bit_budget :: "nat \<Rightarrow> BitReader \<Rightarrow> bool" where
  "check_bit_budget num_entries reader =
     (let minimal_bit_cost = num_entries * (2 + 10);
          bit_budget = BitReader_TotalBytes reader * 8;
          expenses = TotalBitsConsumed reader
      in expenses \<le> bit_budget \<and> minimal_bit_cost \<le> bit_budget - expenses)"

fun read_sizes :: "nat \<Rightarrow> BitReader \<Rightarrow> u32 list \<times> BitReader" where
  "read_sizes 0 reader = ([], reader)"
| "read_sizes (Suc n) reader =
     (case U32Coder_Read kTocDist reader of (entry, reader) \<Rightarrow>
      case read_sizes n reader of (sizes, reader) \<Rightarrow> (entry # sizes, reader))"

text \<open>The padding, the entries and the padding after them.\<close>

definition read_entries :: "nat \<Rightarrow> u32 list \<Rightarrow> BitReader \<Rightarrow> (u32 list \<times> u32 list) outcome \<times> BitReader" where
  "read_entries toc_entries permutation reader =
     (case JumpToByteBoundary reader of (s, reader) \<Rightarrow>
      if s \<noteq> kOk then (Inl s, reader)
      else if \<not> check_bit_budget toc_entries reader then (Inl kNotEnoughBytes, reader)
      else case read_sizes toc_entries reader of (sizes, reader) \<Rightarrow>
           case JumpToByteBoundary reader of (s, reader) \<Rightarrow>
           if s \<noteq> kOk then (Inl s, reader)
           else if \<not> check_bit_budget 0 reader then (Inl kNotEnoughBytes, reader)
           else (Inr (sizes, permutation), reader))"

definition ReadToc :: "(nat \<Rightarrow> memory) \<Rightarrow> nat \<Rightarrow> BitReader \<Rightarrow> (u32 list \<times> u32 list) decoded" where
  "ReadToc mem toc_entries reader =
     (if toc_entries > 65536 then Some (Inl kGenericError, reader)
      else if TotalBitsConsumed reader \<ge> BitReader_TotalBytes reader * kBitsPerByte then Some (Inl kNotEnoughBytes, reader)
      else if \<not> toc_entries > 0 then Some (Inl kGenericError, reader)
      else case ReadBits 1 reader of (flag, reader) \<Rightarrow>
        if flag = 1
        then (if \<not> check_bit_budget toc_entries reader then Some (Inl kNotEnoughBytes, reader)
              else case DecodePermutation mem 0 toc_entries True reader of
                     None \<Rightarrow> None
                   | Some (Inl e, reader) \<Rightarrow> Some (Inl e, reader)
                   | Some (Inr order, reader) \<Rightarrow> Some (read_entries toc_entries (the order) reader))
        else Some (read_entries toc_entries [] reader))"

text \<open>The prefix sums of the sizes and the total, in 64 bits.\<close>

fun group_offsets :: "u64 \<Rightarrow> u32 list \<Rightarrow> (u64 list \<times> u64) outcome" where
  "group_offsets offset [] = Inr ([], offset)"
| "group_offsets offset (entry # sizes) =
     (if offset + ucast entry < offset then Inl kGenericError
      else case group_offsets (offset + ucast entry) sizes of
             Inl e \<Rightarrow> Inl e
           | Inr (offsets, total_size) \<Rightarrow> Inr (offset # offsets, total_size))"

definition ReadGroupOffsets :: "(nat \<Rightarrow> memory) \<Rightarrow> nat \<Rightarrow> BitReader \<Rightarrow> (u64 list \<times> u32 list \<times> u64) decoded" where
  "ReadGroupOffsets mem toc_entries reader =
     (case ReadToc mem toc_entries reader of
        None \<Rightarrow> None
      | Some (Inl e, reader) \<Rightarrow> Some (Inl e, reader)
      | Some (Inr (sizes, permutation), reader) \<Rightarrow>
          (case group_offsets 0 sizes of
             Inl e \<Rightarrow> Some (Inl e, reader)
           | Inr (offsets, total_size) \<Rightarrow>
               if permutation \<noteq> []
               then Some (Inr (map (\<lambda>index. offsets ! unat index) permutation,
                               map (\<lambda>index. sizes ! unat index) permutation, total_size), reader)
               else Some (Inr (offsets, sizes, total_size), reader)))"

fun write_sizes :: "BitWriter list \<Rightarrow> BitWriter \<Rightarrow> StatusCode \<times> BitWriter" where
  "write_sizes [] writer = (kOk, writer)"
| "write_sizes (bw # group_codes) writer =
     (if \<not> bits_written bw mod kBitsPerByte = 0 then (kGenericError, writer)
      else let group_size = bits_written bw div kBitsPerByte
           in case U32Coder_Write kTocDist (of_nat group_size) writer of
                (ok, writer) \<Rightarrow> if \<not> ok then (kGenericError, writer) else write_sizes group_codes writer)"

definition WriteGroupOffsets ::
  "(u32 list \<Rightarrow> nat \<Rightarrow> nat \<Rightarrow> BitWriter \<times> 'l AuxOut \<Rightarrow> StatusCode \<times> BitWriter \<times> 'l AuxOut) \<Rightarrow> BitWriter list \<Rightarrow> u32 list \<Rightarrow>
    'l \<Rightarrow> bool \<Rightarrow> BitWriter \<times> 'l AuxOut \<Rightarrow> StatusCode \<times> BitWriter \<times> 'l AuxOut" where
  "WriteGroupOffsets EncodePermutation group_codes permutation layer has_aux_out =
     WithMaxBits (MaxBits (length group_codes)) layer has_aux_out (\<lambda>(writer, aux).
       case (if permutation \<noteq> [] \<and> group_codes \<noteq> []
             then if length permutation \<noteq> length group_codes then (kGenericError, Write 1 1 writer, aux)
                  else EncodePermutation permutation 0 (length permutation) (Write 1 1 writer, aux)
             else (kOk, Write 1 0 writer, aux)) of
         (s, writer, aux) \<Rightarrow>
           if s \<noteq> kOk then (s, writer, aux)
           else case write_sizes group_codes (ZeroPadToByte writer) of
                  (s, writer) \<Rightarrow> if s \<noteq> kOk then (s, writer, aux) else (kOk, ZeroPadToByte writer, aux)) False"

section \<open>The sections of a frame\<close>

text \<open>The sections are numbered without collisions: the global section, one for each DC group, the global AC section
  and one for each pass and AC group.\<close>

lemma AcGroupIndex_inj:
  assumes "g < n" "g' < n" "AcGroupIndex p g n d = AcGroupIndex p' g' n d"
  shows "p = p' \<and> g = g'"
proof -
  have e: "p * n + g = p' * n + g'" using assms(3) by (simp add: AcGroupIndex_def)
  have "(p * n + g) div n = p" "(p' * n + g') div n = p'" using assms(1,2) by simp_all
  then show ?thesis using e by simp
qed

lemma AcGroupIndex_bounds: "p < np \<Longrightarrow> g < n \<Longrightarrow> d + 1 < AcGroupIndex p g n d \<and> (n = 1 \<and> np = 1 \<or> AcGroupIndex p g n d < NumTocEntries n d np)"
proof -
  assume a: "p < np" "g < n"
  then have "p * n + g < Suc p * n" by simp
  also have "\<dots> \<le> np * n" using a by (intro mult_right_mono) simp_all
  finally show ?thesis by (auto simp: AcGroupIndex_def NumTocEntries_def mult.commute)
qed

section \<open>Reading\<close>

lemma read_sizes_length: "read_sizes n r = (sizes, r') \<Longrightarrow> length sizes = n"
  by (induction n arbitrary: r sizes r') (auto split: prod.splits)

lemma group_offsets_sums:
  "unat offset + sum_list (map unat sizes) < 2 ^ 64 \<Longrightarrow>
   \<exists>offsets total_size. group_offsets offset sizes = Inr (offsets, total_size) \<and> length offsets = length sizes \<and>
     unat total_size = unat offset + sum_list (map unat sizes) \<and>
     (\<forall>i < length sizes. unat (offsets ! i) = unat offset + sum_list (map unat (take i sizes)))"
proof (induction sizes arbitrary: offset)
  case (Cons s ss)
  have "unat (ucast s :: u64) = unat s" by simp
  then have o: "unat (offset + ucast s) = unat offset + unat s" using Cons.prems by (subst unat_add_lem [THEN iffD1]) simp_all
  then have "\<not> offset + ucast s < offset" by (simp add: word_less_nat_alt)
  moreover obtain offsets total_size where "group_offsets (offset + ucast s) ss = Inr (offsets, total_size)" "length offsets = length ss"
    "unat total_size = unat offset + unat s + sum_list (map unat ss)"
    "\<forall>i < length ss. unat (offsets ! i) = unat offset + unat s + sum_list (map unat (take i ss))"
    using Cons.IH [of "offset + ucast s"] Cons.prems o by (auto simp: add.assoc)
  ultimately show ?case by (auto simp: nth_Cons add.assoc split: nat.splits)
qed simp

lemma sum_sizes_bound: "sum_list (map unat (sizes :: u32 list)) \<le> length sizes * 2 ^ 32"
proof (induction sizes)
  case (Cons s ss)
  then show ?case using unsigned_less [of s, where 'a = nat] by simp
qed simp

text \<open>Sections that follow each other without gaps.\<close>

lemma consecutive_sections:
  "b < sum_list ss \<Longrightarrow> \<exists>!i. i < length ss \<and> sum_list (take i ss) \<le> b \<and> b < sum_list (take i ss) + (ss ! i :: nat)"
proof (induction ss arbitrary: b)
  case (Cons s ss)
  show ?case
  proof (cases "b < s")
    case True
    then show ?thesis by (intro ex1I [of _ 0]) (auto simp: take_Cons nth_Cons split: nat.splits)
  next
    case False
    then have "b - s < sum_list ss" using Cons.prems by simp
    from Cons.IH [OF this] obtain i where i: "i < length ss" "sum_list (take i ss) \<le> b - s" "b - s < sum_list (take i ss) + ss ! i"
      and u: "\<And>j. j < length ss \<and> sum_list (take j ss) \<le> b - s \<and> b - s < sum_list (take j ss) + ss ! j \<Longrightarrow> j = i" by blast
    show ?thesis
    proof (rule ex1I [of _ "Suc i"])
      show "Suc i < length (s # ss) \<and> sum_list (take (Suc i) (s # ss)) \<le> b \<and> b < sum_list (take (Suc i) (s # ss)) + (s # ss) ! Suc i"
        using i False by auto
      fix j assume j: "j < length (s # ss) \<and> sum_list (take j (s # ss)) \<le> b \<and> b < sum_list (take j (s # ss)) + (s # ss) ! j"
      obtain m where m: "j = Suc m" using j False by (cases j) auto
      then have "m < length ss" "sum_list (take m ss) \<le> b - s" "b - s < sum_list (take m ss) + ss ! m" using j False by auto
      then show "j = Suc i" using u [of m] m by blast
    qed
  qed
qed simp

text \<open>The positions of the entries of a permutation.\<close>

lemma permutation_unique:
  assumes p: "is_permutation p" "length p = n" and u: "\<exists>!i. i < n \<and> P i"
  shows "\<exists>!i. i < n \<and> P (unat (p ! i))"
proof -
  note b = is_permutation_unat [OF p(1)]
  from u obtain i where i: "i < n" "P i" "\<And>j. j < n \<Longrightarrow> P j \<Longrightarrow> j = i" by blast
  have "i \<in> set (map unat p)" unfolding b(2) using i(1) p(2) by simp
  then obtain k where k: "k < n" "unat (p ! k) = i" using p(2) by (fastforce simp: in_set_conv_nth)
  show ?thesis
  proof (rule ex1I [of _ k])
    show "k < n \<and> P (unat (p ! k))" using k i(2) by simp
    fix j assume j: "j < n \<and> P (unat (p ! j))"
    have "unat (p ! j) < n" using j b(2) p(2) by (metis lessThan_iff length_map nth_map nth_mem)
    then have "map unat p ! j = map unat p ! k" using i(3) j k p(2) by simp
    then show "j = k" using b(1) j k(1) p(2) nth_eq_iff_index_eq by (metis length_map)
  qed
qed

lemma permutation_sum:
  assumes p: "is_permutation p" "length p = length (xs :: nat list)"
  shows "sum_list (map (\<lambda>k. xs ! unat k) p) = sum_list xs"
proof -
  note b = is_permutation_unat [OF p(1)]
  have "sum_list (map (\<lambda>k. xs ! unat k) p) = sum_list (map (nth xs) (map unat p))" by (simp add: comp_def)
  also have "\<dots> = sum (nth xs) {..<length xs}" using b p(2) by (simp only: sum_list_distinct_conv_sum_set)
  also have "\<dots> = sum_list xs" by (simp add: sum_list_sum_nth atLeast0LessThan)
  finally show ?thesis .
qed

definition sections_ok :: "nat \<Rightarrow> u64 list \<Rightarrow> u32 list \<Rightarrow> u64 \<Rightarrow> bool" where
  "sections_ok n offsets sizes total_size \<longleftrightarrow> length offsets = n \<and> length sizes = n \<and> unat total_size = sum_list (map unat sizes) \<and>
     (\<forall>i < n. unat (offsets ! i) + unat (sizes ! i) \<le> unat total_size) \<and>
     (\<forall>b < unat total_size. \<exists>!i. i < n \<and> unat (offsets ! i) \<le> b \<and> b < unat (offsets ! i) + unat (sizes ! i))"

lemma group_offsets_ok:
  assumes "length sizes \<le> 65536"
  obtains offsets total_size where "group_offsets 0 sizes = Inr (offsets, total_size)" "sections_ok (length sizes) offsets sizes total_size"
    "\<forall>i < length sizes. unat (offsets ! i) = sum_list (map unat (take i sizes))"
proof -
  have "unat (0 :: u64) + sum_list (map unat sizes) < 2 ^ 64"
    using sum_sizes_bound [of sizes] assms mult_right_mono [OF assms, of "2 ^ 32"] by simp
  from group_offsets_sums [OF this] obtain offsets total_size where g: "group_offsets 0 sizes = Inr (offsets, total_size)"
    "length offsets = length sizes" "unat total_size = sum_list (map unat sizes)"
    "\<forall>i < length sizes. unat (offsets ! i) = sum_list (map unat (take i sizes))" by auto
  have "sum_list (map unat (take i sizes)) + unat (sizes ! i) \<le> sum_list (map unat sizes)" if "i < length sizes" for i
  proof -
    have "sum_list (map unat (take (Suc i) sizes)) + sum_list (map unat (drop (Suc i) sizes)) = sum_list (map unat sizes)"
      unfolding sum_list_append [symmetric] map_append [symmetric] append_take_drop_id ..
    then show ?thesis using that by (simp add: take_Suc_conv_app_nth)
  qed
  moreover have "\<exists>!i. i < length sizes \<and> unat (offsets ! i) \<le> b \<and> b < unat (offsets ! i) + unat (sizes ! i)" if "b < unat total_size" for b
  proof -
    have "b < sum_list (map unat sizes)" using that g(3) by simp
    from consecutive_sections [OF this] show ?thesis using g(4) by (simp add: take_map cong: conj_cong)
  qed
  ultimately have "sections_ok (length sizes) offsets sizes total_size" using g by (simp add: sections_ok_def)
  then show thesis using that g(1,4) by blast
qed

lemma sections_ok_permuted:
  assumes "sections_ok n offsets sizes total_size" and p: "is_permutation p" "length p = n"
  shows "sections_ok n (map (\<lambda>k. offsets ! unat k) p) (map (\<lambda>k. sizes ! unat k) p) total_size"
proof -
  note s = assms(1) [unfolded sections_ok_def]
  have "sum_list (map (\<lambda>k. map unat sizes ! unat k) p) = sum_list (map unat sizes)"
    using p s by (intro permutation_sum) simp_all
  moreover have in_range: "unat (p ! i) < n" if "i < n" for i
    using that is_permutation_unat(2) [OF p(1)] p(2) by (metis lessThan_iff length_map nth_map nth_mem)
  moreover have "map (\<lambda>k. map unat sizes ! unat k) p = map unat (map (\<lambda>k. sizes ! unat k) p)"
    using in_range s p(2) by (intro nth_equalityI) simp_all
  moreover have "\<exists>!i. i < n \<and> unat (map (\<lambda>k. offsets ! unat k) p ! i) \<le> b \<and>
      b < unat (map (\<lambda>k. offsets ! unat k) p ! i) + unat (map (\<lambda>k. sizes ! unat k) p ! i)" if "b < unat total_size" for b
    using permutation_unique [OF p, where P = "\<lambda>i. unat (offsets ! i) \<le> b \<and> b < unat (offsets ! i) + unat (sizes ! i)"]
      s that p(2) by (simp cong: conj_cong)
  moreover have "unat (offsets ! unat (p ! i)) + unat (sizes ! unat (p ! i)) \<le> unat total_size" if "i < n" for i
    using s in_range [OF that] by blast
  ultimately show ?thesis using s p(2) by (simp add: sections_ok_def)
qed

lemma read_entries_accepted:
  "read_entries n perm r = (Inr (sizes, perm'), r') \<Longrightarrow>
   length sizes = n \<and> perm' = perm \<and> TotalBitsConsumed r' \<le> 8 * BitReader_TotalBytes r'"
  by (auto simp: read_entries_def check_bit_budget_def Let_def dest: read_sizes_length split: prod.splits if_splits)

lemma ReadToc_accepted:
  "\<exists>result r'. ReadToc mem n r = Some (result, r') \<and>
     (\<forall>sizes perm. result = Inr (sizes, perm) \<longrightarrow> 0 < n \<and> n \<le> 65536 \<and> length sizes = n \<and>
        (perm = [] \<or> is_permutation perm \<and> length perm = n) \<and> TotalBitsConsumed r' \<le> 8 * BitReader_TotalBytes r')"
proof -
  obtain flag r1 where f: "ReadBits 1 r = (flag, r1)" by fastforce
  consider "n > 65536 \<or> TotalBitsConsumed r \<ge> BitReader_TotalBytes r * kBitsPerByte \<or> n = 0 \<or> flag = 1 \<and> \<not> check_bit_budget n r1"
    | "flag \<noteq> 1" "0 < n" "n \<le> 65536" "\<not> TotalBitsConsumed r \<ge> BitReader_TotalBytes r * kBitsPerByte"
    | "flag = 1" "check_bit_budget n r1" "0 < n" "n \<le> 65536" "\<not> TotalBitsConsumed r \<ge> BitReader_TotalBytes r * kBitsPerByte"
    by linarith
  then show ?thesis
  proof cases
    case 1
    then show ?thesis using f by (auto simp: ReadToc_def)
  next
    case 2
    obtain e r2 where e: "read_entries n [] r1 = (e, r2)" by fastforce
    then have "ReadToc mem n r = Some (e, r2)" using 2 f by (simp add: ReadToc_def)
    then show ?thesis using read_entries_accepted [of n "[]" r1 _ _ r2] e 2 by auto
  next
    case 3
    have "n < 2 ^ 31" using 3(4) by simp
    from DecodePermutation_accepted [OF this, of mem 0 True r1] obtain d r2 where d: "DecodePermutation mem 0 n True r1 = Some (d, r2)"
      "\<And>order. d = Inr order \<Longrightarrow> \<exists>p. order = Some p \<and> is_permutation p \<and> length p = n" by auto
    show ?thesis
    proof (cases d)
      case (Inl x)
      then show ?thesis using 3 f d(1) by (simp add: ReadToc_def)
    next
      case (Inr order)
      from d(2) [OF this] obtain p where p: "order = Some p" "is_permutation p" "length p = n" by blast
      obtain e r3 where e: "read_entries n p r2 = (e, r3)" by fastforce
      then have "ReadToc mem n r = Some (e, r3)" using 3 f d(1) Inr p(1) by (simp add: ReadToc_def)
      then show ?thesis using read_entries_accepted [of n p r2 _ _ r3] e 3 p by auto
    qed
  qed
qed

lemma accepted_intro:
  "R = Some (Inr (a, b, c), r') \<Longrightarrow> Q a b c r' \<Longrightarrow>
   \<exists>result r'. R = Some (result, r') \<and> (\<forall>a b c. result = Inr (a, b, c) \<longrightarrow> Q a b c r') \<and> (\<forall>e. result = Inl e \<longrightarrow> E e r')"
  by blast

text \<open>C33: Reading a table of contents ends on every input, and an accepted one describes the sections of the frame without
  gaps and overlaps: there are as many offsets and sizes as announced, at most 65536, every section ends within the
  total_size, every byte of the total belongs to exactly one section, in the stored order or a permuted one, and only bits of the
  input were read. The offsets never overflow: reading fails only where the table itself could not be read.\<close>

theorem ReadGroupOffsets_accepted:
  shows "\<exists>result r'. ReadGroupOffsets mem n r = Some (result, r') \<and>
    (\<forall>offsets sizes total_size. result = Inr (offsets, sizes, total_size) \<longrightarrow>
       0 < n \<and> n \<le> 65536 \<and> length offsets = n \<and> length sizes = n \<and> unat total_size = sum_list (map unat sizes) \<and>
       (\<forall>i < n. unat (offsets ! i) + unat (sizes ! i) \<le> unat total_size) \<and>
       (\<forall>b < unat total_size. \<exists>!i. i < n \<and> unat (offsets ! i) \<le> b \<and> b < unat (offsets ! i) + unat (sizes ! i)) \<and>
       TotalBitsConsumed r' \<le> 8 * BitReader_TotalBytes r') \<and>
    (\<forall>e. result = Inl e \<longrightarrow> ReadToc mem n r = Some (Inl e, r'))"
proof -
  from ReadToc_accepted [of mem n r] obtain t r' where t: "ReadToc mem n r = Some (t, r')"
    "\<And>sizes perm. t = Inr (sizes, perm) \<Longrightarrow> 0 < n \<and> n \<le> 65536 \<and> length sizes = n \<and>
       (perm = [] \<or> is_permutation perm \<and> length perm = n) \<and> TotalBitsConsumed r' \<le> 8 * BitReader_TotalBytes r'" by blast
  show ?thesis
  proof (cases t)
    case (Inl e)
    then show ?thesis using t(1) by (simp add: ReadGroupOffsets_def)
  next
    case (Inr x)
    then obtain sizes perm where x: "t = Inr (sizes, perm)" by (cases x) simp
    note T = t(2) [OF x]
    have "length sizes \<le> 65536" using T by simp
    from group_offsets_ok [OF this] obtain offsets total_size where g: "group_offsets 0 sizes = Inr (offsets, total_size)"
      "sections_ok n offsets sizes total_size" using T by metis
    show ?thesis
    proof (cases "perm = []")
      case True
      then have "ReadGroupOffsets mem n r = Some (Inr (offsets, sizes, total_size), r')" using t(1) x g(1) by (simp add: ReadGroupOffsets_def)
      moreover have "sections_ok n offsets sizes total_size \<and> 0 < n \<and> n \<le> 65536 \<and> TotalBitsConsumed r' \<le> 8 * BitReader_TotalBytes r'"
        using g(2) T by blast
      ultimately show ?thesis unfolding sections_ok_def by (intro accepted_intro) blast+
    next
      case False
      then have "ReadGroupOffsets mem n r = Some (Inr (map (\<lambda>k. offsets ! unat k) perm, map (\<lambda>k. sizes ! unat k) perm, total_size), r')"
        using t(1) x g(1) by (simp add: ReadGroupOffsets_def)
      moreover have "sections_ok n (map (\<lambda>k. offsets ! unat k) perm) (map (\<lambda>k. sizes ! unat k) perm) total_size \<and>
          0 < n \<and> n \<le> 65536 \<and> TotalBitsConsumed r' \<le> 8 * BitReader_TotalBytes r'"
        using sections_ok_permuted [OF g(2)] T False by blast
      ultimately show ?thesis unfolding sections_ok_def by (intro accepted_intro) blast+
    qed
  qed
qed

text \<open>Two sections of three and one bytes.\<close>

theorem ReadGroupOffsets_accepted_witness:
  "\<exists>offsets sizes total_size r'. ReadGroupOffsets (\<lambda>_. example_memory) 2 (BitReader_new [0, 12, 64, 0]) = Some (Inr (offsets, sizes, total_size), r') \<and>
     unat total_size = 4 \<and> length offsets = 2 \<and> unat total_size = sum_list (map unat sizes)"
proof -
  let ?r = "BitReader_new [0, 12, 64, 0]"
  have "fst (ReadBits 1 ?r) = 0 \<and> fst (read_entries 2 [] (snd (ReadBits 1 ?r))) = Inr ([3, 1], []) \<and>
      \<not> TotalBitsConsumed ?r \<ge> BitReader_TotalBytes ?r * kBitsPerByte" by code_simp
  moreover have "group_offsets 0 [3, 1] = Inr ([0, 3], 4)" by code_simp
  ultimately have "\<exists>r'. ReadGroupOffsets (\<lambda>_. example_memory) 2 ?r = Some (Inr ([0, 3], [3, 1], 4), r')"
    by (auto simp: ReadGroupOffsets_def ReadToc_def split_beta split: prod.splits)
  then show ?thesis using ReadGroupOffsets_accepted [of "\<lambda>_. example_memory" 2 ?r] by fastforce
qed

section \<open>Writing and reading back\<close>

definition pad :: "nat \<Rightarrow> bool list" where "pad k = replicate ((8 - k mod 8) mod 8) False"

lemma length_pad: "length (pad k) < 8" "(k + length (pad k)) mod 8 = 0" "RoundUpBitsToByteMultiple k - k = length (pad k)"
proof -
  show "length (pad k) < 8" by (simp add: pad_def)
  show "(k + length (pad k)) mod 8 = 0" unfolding pad_def length_replicate mod_add_right_eq
    by (metis add_diff_cancel_left' add_diff_inverse_nat mod_add_left_eq mod_less_divisor mod_self not_less_iff_gr_or_eq zero_less_numeral)
  show "RoundUpBitsToByteMultiple k - k = length (pad k)"
    using RoundUpBitsToByteMultiple_aligned [of k] RoundUpBitsToByteMultiple_unaligned [of k]
    by (cases "k mod 8 = 0") (simp_all add: pad_def)
qed

lemma pad_mod: "k mod 8 = j mod 8 \<Longrightarrow> pad k = pad j" by (simp add: pad_def)

lemma bits_of_zero: "bits_of n (0 :: u64) = replicate n False" by (rule nth_equalityI) simp_all

lemma Write_appended:
  assumes "writable w" "n \<le> 56" "n \<le> room w" "drop_bit n v = 0"
  shows "appended (bits_of n v) w (Write n v w)"
  using Write_ok [of w n v] assms by (simp add: appended_def writable_def)

lemma ZeroPad_appended:
  assumes w: "writable w" "length (pad (bits_written w)) \<le> room w"
  shows "appended (pad (bits_written w)) w (ZeroPadToByte w)"
proof -
  let ?n = "length (pad (bits_written w))"
  have n: "RoundUpBitsToByteMultiple (bits_written w) - bits_written w = ?n" by (rule length_pad(3))
  have p: "pad (bits_written w) = bits_of ?n (0 :: u64)" unfolding bits_of_zero by (simp add: pad_def)
  have "?n \<le> 56" using length_pad(1) [of "bits_written w"] by simp
  then have a: "appended (pad (bits_written w)) w (Write ?n 0 w)"
    using Write_appended [OF w(1) _ w(2), of 0] p by simp
  show ?thesis
  proof (cases "?n = 0")
    case True
    then show ?thesis using appended_0 [OF w(1)] by (simp add: ZeroPadToByte_def n)
  qed (use a in \<open>simp add: ZeroPadToByte_def n\<close>)
qed

text \<open>The entries.\<close>

definition fits_toc :: "nat \<Rightarrow> bool" where "fits_toc n \<longleftrightarrow> n < 4211712 + 2 ^ 30"

definition sizes_bits :: "u32 list \<Rightarrow> bool list" where "sizes_bits sizes = concat (map (U32_code kTocDist) sizes)"

lemma kTocDist_selected:
  assumes "fits_toc n"
  obtains c where "ChooseSelector kTocDist (of_nat n) = Inr c"
proof (cases "ChooseSelector kTocDist (of_nat n)")
  case (Inl e)
  have n: "unat (of_nat n :: u32) = n" using assms by (intro unat_of_nat_id) (simp add: fits_toc_def)
  have "\<forall>s \<in> {0, 1, 2, 3}. selector_cost kTocDist (of_nat n) s = None"
    using ChooseSelector_spec [of kTocDist "of_nat n"] Inl by simp
  then have "selector_cost kTocDist (of_nat n) 0 = None" "selector_cost kTocDist (of_nat n) 1 = None"
    "selector_cost kTocDist (of_nat n) 2 = None" "selector_cost kTocDist (of_nat n) 3 = None" by blast+
  then have False using assms n BitsOffset_fields [of 10 0] BitsOffset_fields [of 14 1024] BitsOffset_fields [of 22 17408]
      BitsOffset_fields [of 30 4211712]
    by (simp add: selector_cost_def Let_def kTocDist_def fits_toc_def Bits_def word_le_nat_alt split: if_splits)
  then show thesis ..
qed (use that in blast)

lemma U32_code_length: "ChooseSelector kTocDist v = Inr c \<Longrightarrow> 12 \<le> length (U32_code kTocDist v) \<and> length (U32_code kTocDist v) \<le> 32"
proof -
  assume a: "ChooseSelector kTocDist v = Inr c"
  obtain s n where c: "c = (s, n)" by (cases c)
  have s: "s \<in> {0, 1, 2, 3}" using ChooseSelector_spec [of kTocDist v] a c by simp
  then have d: "\<not> IsDirect (GetDistr kTocDist s) \<and> ExtraBits (GetDistr kTocDist s) \<in> {10, 14, 22, 30}"
    by (auto simp: kTocDist_def IsDirect_def ExtraBits_def Bits_def BitsOffset_def kDirect_def)
  have "n = 2 + ExtraBits (GetDistr kTocDist s)" using U32_selected(3) [of kTocDist v s n] a c d by simp
  then show ?thesis using a c d by (auto simp: U32_code_def)
qed

lemma sizes_bits_length:
  "\<forall>n \<in> set ns. fits_toc n \<Longrightarrow> 12 * length ns \<le> length (sizes_bits (map of_nat ns)) \<and> length (sizes_bits (map of_nat ns)) \<le> 32 * length ns"
proof (induction ns)
  case (Cons n ns)
  then obtain c where "ChooseSelector kTocDist (of_nat n) = Inr c" using kTocDist_selected by (metis list.set_intros(1))
  from U32_code_length [OF this] show ?case using Cons by (simp add: sizes_bits_def)
qed (simp add: sizes_bits_def)

lemma write_sizes_appended:
  assumes "\<forall>bw \<in> set bws. bits_written bw mod 8 = 0 \<and> fits_toc (bits_written bw div 8)"
    and "writable w" "length (sizes_bits (map (\<lambda>bw. of_nat (bits_written bw div 8)) bws)) \<le> room w"
  shows "\<exists>w'. write_sizes bws w = (kOk, w') \<and> appended (sizes_bits (map (\<lambda>bw. of_nat (bits_written bw div 8)) bws)) w w'"
  using assms
proof (induction bws arbitrary: w)
  case Nil
  then show ?case by (simp add: appended_0 sizes_bits_def)
next
  case (Cons bw bws)
  let ?v = "of_nat (bits_written bw div 8) :: u32"
  obtain c where c: "ChooseSelector kTocDist ?v = Inr c" using Cons.prems(1) kTocDist_selected by (metis list.set_intros(1))
  have r: "length (U32_code kTocDist ?v) \<le> room w" using Cons.prems(3) by (simp add: sizes_bits_def)
  then obtain w1 where w1: "U32Coder_Write kTocDist ?v w = (True, w1)" "appended (U32_code kTocDist ?v) w w1"
    using u32_code.wrt_emits [of kTocDist ?v] c Cons.prems(2) coder_write_frame(3,4) [of kTocDist ?v w]
    by (fastforce simp: writer.emits_def appended_def)
  have "writable w1" "length (sizes_bits (map (\<lambda>bw. of_nat (bits_written bw div 8)) bws)) \<le> room w1"
    using w1(2) Cons.prems(3) by (auto simp: appended_def sizes_bits_def)
  from Cons.IH [OF _ this] Cons.prems(1) obtain w' where "write_sizes bws w1 = (kOk, w')"
    "appended (sizes_bits (map (\<lambda>bw. of_nat (bits_written bw div 8)) bws)) w1 w'" by auto
  then show ?case using w1 Cons.prems(1) appended_trans [OF w1(2)] by (auto simp: Let_def sizes_bits_def)
qed

lemma read_sizes_parses:
  assumes "\<forall>n \<in> set ns. fits_toc n"
  shows "reader.parses (read_sizes (length ns)) (sizes_bits (map of_nat ns)) (map of_nat ns)"
  using assms
proof (induction ns)
  case Nil
  then show ?case using reader.parses_return [of "[]"] by (simp add: sizes_bits_def)
next
  case (Cons n ns)
  obtain c where c: "ChooseSelector kTocDist (of_nat n) = Inr c" using Cons.prems kTocDist_selected by (metis list.set_intros(1))
  define q where "q = (\<lambda>(v :: u32) r. case read_sizes (length ns) r of (sizes, r) \<Rightarrow> (v # sizes, r))"
  have "reader.parses (q (of_nat n)) (sizes_bits (map of_nat ns)) (of_nat n # map of_nat ns)"
    unfolding q_def using Cons by (intro reader.parses_bind_return) simp
  from reader.parses_bind [where q = q, OF u32_code.rdr_parses this] c show ?case by (simp add: sizes_bits_def q_def)
qed

lemma read_sizes_data: "read_sizes n r = (sizes, r') \<Longrightarrow> br_data r' = br_data r"
proof (induction n arbitrary: r sizes)
  case (Suc n)
  obtain v r1 where 1: "U32Coder_Read kTocDist r = (v, r1)" by fastforce
  obtain vs r2 where 2: "read_sizes n r1 = (vs, r2)" by fastforce
  show ?case using Suc 1 2 coder_read_data(2) [of kTocDist r] by auto
qed simp

lemma JumpToByteBoundary_pad:
  assumes r: "br_ok r" and b: "begins (upcoming r) (pad (TotalBitsConsumed r))"
  obtains r' where "JumpToByteBoundary r = (kOk, r')" "reader.advanced r r' (length (pad (TotalBitsConsumed r)))" "br_data r' = br_data r"
proof (cases "TotalBitsConsumed r mod 8 = 0")
  case True
  then have "pad (TotalBitsConsumed r) = []" by (simp add: pad_def)
  then show thesis using that [of r] True reader.advanced_0 [OF r] by (simp add: JumpToByteBoundary_def)
next
  case False
  let ?n = "8 - TotalBitsConsumed r mod 8"
  have p: "pad (TotalBitsConsumed r) = replicate ?n False" using False by (simp add: pad_def)
  have n: "?n \<le> 56" by simp
  have "map (upcoming r) [0..<?n] = replicate ?n False" using begins_map_upt [OF b] p by simp
  then have "fst (ReadBits ?n r) = 0" unfolding ReadBits_ok(1) [OF r n] word_of_bits_eq_0_iff by simp
  then have "JumpToByteBoundary r = (kOk, snd (ReadBits ?n r))" using False by (simp add: JumpToByteBoundary_def Let_def split_beta)
  then show thesis using that reader.advanced_rd [OF r n] ReadBits_ok(5) [OF r n] p by simp
qed

text \<open>The whole table without a permutation, at a position \<open>k\<close> of the stream.\<close>

definition toc_bits :: "nat \<Rightarrow> u32 list \<Rightarrow> bool list" where
  "toc_bits k sizes =
     (let bs = False # pad (k + 1) @ sizes_bits sizes in bs @ pad (k + length bs))"

lemma toc_bits_mod: "k mod 8 = j mod 8 \<Longrightarrow> toc_bits k sizes = toc_bits j sizes"
proof -
  assume "k mod 8 = j mod 8"
  then have e: "(k + n) mod 8 = (j + n) mod 8" for n by (metis mod_add_left_eq)
  show ?thesis unfolding toc_bits_def Let_def using pad_mod [OF e] by metis
qed

lemma toc_bits_length:
  assumes "\<forall>n \<in> set ns. fits_toc n"
  shows "(k + length (toc_bits k (map of_nat ns))) mod 8 = 0" "0 < length (toc_bits k (map of_nat ns))"
    "length (toc_bits k (map of_nat ns)) \<le> MaxBits (length ns)"
proof -
  let ?bs = "False # pad (k + 1) @ sizes_bits (map of_nat ns)"
  show "(k + length (toc_bits k (map of_nat ns))) mod 8 = 0"
    using length_pad(2) [of "k + length ?bs"] by (simp add: toc_bits_def Let_def add.assoc)
  show "0 < length (toc_bits k (map of_nat ns))" by (simp add: toc_bits_def Let_def)
  have "U32Coder_MaxEncodedBits kTocDist = 32"
    by (simp add: U32Coder_MaxEncodedBits_def kTocDist_def IsDirect_def ExtraBits_def Bits_def BitsOffset_def kDirect_def Let_def)
  then show "length (toc_bits k (map of_nat ns)) \<le> MaxBits (length ns)"
    using sizes_bits_length [OF assms] length_pad(1) [of "k + 1"] length_pad(1) [of "k + length ?bs"]
    by (simp add: toc_bits_def Let_def MaxBits_def)
qed

lemma WriteGroupOffsets_ran:
  assumes codes: "\<forall>bw \<in> set codes. bits_written bw mod 8 = 0 \<and> fits_toc (bits_written bw div 8)" and w: "bw_ok w"
  shows "ran (toc_bits (bits_written w) (map (\<lambda>bw. of_nat (bits_written bw div 8)) codes)) 0
    (if b then add_totals layer (length (toc_bits (bits_written w) (map (\<lambda>bw. of_nat (bits_written bw div 8)) codes))) 0 \<circ> id else id)
    (WriteGroupOffsets enc codes [] layer b) w aux"
proof -
  let ?ns = "map (\<lambda>bw. bits_written bw div 8) codes"
  let ?bs = "toc_bits (bits_written w) (map of_nat ?ns)"
  have ns: "\<forall>n \<in> set ?ns. fits_toc n" using codes by auto
  note L = toc_bits_length [OF ns, of "bits_written w"]
  define f where "f = (\<lambda>(writer, aux :: 'a AuxOut). case write_sizes codes (ZeroPadToByte (Write 1 0 writer)) of
    (s, writer) \<Rightarrow> if s \<noteq> kOk then (s, writer, aux) else (kOk, ZeroPadToByte writer, aux))"
  have f: "ran ?bs (length ?bs) id f w1 aux" if w1: "bw_ok w1" "pb_data (storage w1) \<noteq> None" "length ?bs \<le> room w1"
    "bits_written w1 = bits_written w" for w1
  proof -
    let ?k = "bits_written w" and ?s = "sizes_bits (map of_nat ?ns)"
    have bs: "?bs = [False] @ pad (?k + 1) @ ?s @ pad (?k + length ([False] @ pad (?k + 1) @ ?s))" by (simp add: toc_bits_def Let_def)
    have pos: "appended bs v v' \<Longrightarrow> bits_written v' = bits_written v + length bs \<and> writable v' \<and> room v' = room v - length bs" for bs v v'
      using length_content [of v'] length_content [of v] by (simp add: appended_def)
    have r: "writable w1" "1 \<le> room w1" using w1 bs by (simp_all add: writable_def)
    have a1: "appended [False] w1 (Write 1 0 w1)" using Write_appended [OF r(1) _ r(2), of 0] by (simp add: bits_of_zero)
    note p1 = pos [OF a1]
    have "length (pad (bits_written (Write 1 0 w1))) \<le> room (Write 1 0 w1)" using p1 w1(3,4) bs by simp
    with p1 have a2: "appended (pad (?k + 1)) (Write 1 0 w1) (ZeroPadToByte (Write 1 0 w1))" (is "appended _ _ ?w2")
      using ZeroPad_appended [of "Write 1 0 w1"] w1(4) by simp
    note p2 = pos [OF a2]
    have "length ?s \<le> room ?w2" using p2 p1 w1(3) bs by simp
    then obtain w3 where w3: "write_sizes codes ?w2 = (kOk, w3)" "appended ?s ?w2 w3"
      using write_sizes_appended [OF codes, of ?w2] p2 by (auto simp: comp_def)
    note p3 = pos [OF w3(2)]
    have e: "bits_written w3 = ?k + length ([False] @ pad (?k + 1) @ ?s)" using p1 p2 p3 w1(4) by simp
    have "length ?bs = 1 + length (pad (?k + 1)) + length ?s + length (pad (bits_written w3))"
      unfolding e by (subst bs) simp
    then have "length (pad (bits_written w3)) \<le> room w3" using p1 p2 p3 w1(3) by simp
    then have a4: "appended (pad (?k + length ([False] @ pad (?k + 1) @ ?s))) w3 (ZeroPadToByte w3)"
      using ZeroPad_appended [of w3] p3 unfolding e [symmetric] by blast
    have "appended ?bs w1 (ZeroPadToByte w3)" unfolding bs
      using appended_trans [OF a1 appended_trans [OF a2 appended_trans [OF w3(2) a4]]] .
    then show ?thesis using w3(1) by (auto simp: ran_def f_def appended_def writable_def)
  qed
  have W: "WriteGroupOffsets enc codes [] layer b = WithMaxBits (MaxBits (length codes)) layer b f False"
    by (simp add: WriteGroupOffsets_def f_def)
  have "ran ?bs 0 (if b then add_totals layer (length ?bs) (if False then length ?bs else 0) \<circ> id else id) (WriteGroupOffsets enc codes [] layer b) w aux"
    unfolding W
  proof (rule ran_Allot_at [OF w _ _ order_refl])
    show "length ?bs \<le> MaxBits (length codes)" using L(3) by simp
    show "0 < MaxBits (length codes)" by (simp add: MaxBits_def)
    fix w1 assume "bw_ok w1" "pb_data (storage w1) \<noteq> None" "length ?bs \<le> room w1" "content w1 = content w"
    then show "ran ?bs (length ?bs) id f w1 aux" using f length_content by metis
  qed
  then show ?thesis by (simp only: map_map comp_def if_False)
qed

lemma ReadToc_written:
  assumes ns: "\<forall>n \<in> set ns. fits_toc n" "0 < length ns" "length ns \<le> 65536"
    and r: "br_ok r" "begins (upcoming r) (toc_bits (TotalBitsConsumed r) (map of_nat ns))"
    and len: "TotalBitsConsumed r + length (toc_bits (TotalBitsConsumed r) (map of_nat ns)) \<le> 8 * length (br_data r)"
  shows "\<exists>r'. ReadToc mem (length ns) r = Some (Inr (map of_nat ns, []), r') \<and>
    reader.advanced r r' (length (toc_bits (TotalBitsConsumed r) (map of_nat ns)))"
proof -
  let ?k = "TotalBitsConsumed r" and ?s = "sizes_bits (map of_nat ns)" and ?n = "length ns"
  let ?p1 = "pad (?k + 1)" and ?p2 = "pad (?k + length ([False] @ pad (?k + 1) @ ?s))"
  have bs: "toc_bits ?k (map of_nat ns) = [False] @ ?p1 @ ?s @ ?p2" by (simp add: toc_bits_def Let_def)
  have b: "begins (upcoming r) ([False] @ ?p1 @ ?s @ ?p2)" using r(2) bs by simp
  have "reader.parses (ReadBits 1) (bits_of 1 (0 :: u64)) 0" by (rule reader.parses_rd) simp_all
  then obtain r1 where r1: "ReadBits 1 r = (0, r1)" "reader.advanced r r1 (length [False])"
    using r(1) b [unfolded begins_append [of _ "[False]"]] by (auto simp: bits_of_zero elim!: reader.parsesD)
  have d1: "br_data r1 = br_data r" using ReadBits_data [of 1 r] r1(1) by simp
  have b1: "begins (upcoming r1) (?p1 @ ?s @ ?p2)" by (rule reader.advanced_begins [OF r1(2) b])
  have o1: "br_ok r1" "TotalBitsConsumed r1 = ?k + 1" using r1(2) by (simp_all add: reader.advanced_def)
  obtain r2 where r2: "JumpToByteBoundary r1 = (kOk, r2)" "reader.advanced r1 r2 (length ?p1)" "br_data r2 = br_data r1"
    by (rule JumpToByteBoundary_pad [OF o1(1)]) (use b1 o1(2) in \<open>auto simp: begins_append\<close>)
  have b2: "begins (upcoming r2) (?s @ ?p2)" by (rule reader.advanced_begins [OF r2(2) b1])
  have o2: "br_ok r2" "TotalBitsConsumed r2 = ?k + 1 + length ?p1" using r2(2) o1(2) by (simp_all add: reader.advanced_def)
  obtain r3 where r3: "read_sizes ?n r2 = (map of_nat ns, r3)" "reader.advanced r2 r3 (length ?s)"
    using read_sizes_parses [OF ns(1)] o2(1) b2 by (auto simp: begins_append elim!: reader.parsesD)
  have d3: "br_data r3 = br_data r" using read_sizes_data [OF r3(1)] r2(3) d1 by simp
  have b3: "begins (upcoming r3) ?p2" by (rule reader.advanced_begins [OF r3(2) b2])
  have o3: "br_ok r3" "TotalBitsConsumed r3 = ?k + length ([False] @ ?p1 @ ?s)" using r3(2) o2(2) by (simp_all add: reader.advanced_def)
  obtain r4 where r4: "JumpToByteBoundary r3 = (kOk, r4)" "reader.advanced r3 r4 (length ?p2)" "br_data r4 = br_data r3"
    by (rule JumpToByteBoundary_pad [OF o3(1)]) (use b3 o3(2) in \<open>simp_all\<close>)
  have adv: "reader.advanced r r4 (length (toc_bits ?k (map of_nat ns)))" unfolding bs length_append
    by (intro reader.advanced_trans [OF r1(2)] reader.advanced_trans [OF r2(2)] reader.advanced_trans [OF r3(2)] r4(2) [unfolded length_append])
  have l: "?k + 1 + length ?p1 + length ?s + length ?p2 \<le> 8 * length (br_data r)" using len bs by simp
  have "length (br_data r2) = length (br_data r)" using d1 r2(3) by simp
  then have "12 * ?n + TotalBitsConsumed r2 \<le> 8 * length (br_data r2)"
    using o2(2) l sizes_bits_length [OF ns(1), THEN conjunct1] by linarith
  then have "check_bit_budget ?n r2" by (simp add: check_bit_budget_def BitReader_TotalBytes_def)
  moreover have "check_bit_budget 0 r4"
    using o3(2) l d3 r4 by (simp add: check_bit_budget_def BitReader_TotalBytes_def reader.advanced_def)
  ultimately have "read_entries ?n [] r1 = (Inr (map of_nat ns, []), r4)" using r2(1) r3(1) r4(1) by (simp add: read_entries_def)
  moreover have "?k < BitReader_TotalBytes r * kBitsPerByte" using l by (simp add: BitReader_TotalBytes_def)
  ultimately have "ReadToc mem ?n r = Some (Inr (map of_nat ns, []), r4)" using ns(2,3) r1(1) by (simp add: ReadToc_def)
  then show ?thesis using adv by blast
qed

text \<open>C34: A table of contents without permutation survives writing and reading, at any position in the stream: for sections of
  whole bytes of at most about one gibibyte, \<open>WriteGroupOffsets\<close> emits bits that end at a byte boundary and stay within
  its announced maximum (it succeeds whenever memory does not run out), and wherever a stream holds these bits at
  the same position within a byte, \<open>ReadGroupOffsets\<close> consumes exactly them and returns the size of each section, the sum
  of the sizes before it as its offset, and the total.\<close>

theorem GroupOffsets_roundtrip:
  assumes codes: "\<forall>bw \<in> set codes. bits_written bw mod 8 = 0 \<and> bits_written bw div 8 < 4211712 + 2 ^ 30"
    and n: "codes \<noteq> []" "length codes \<le> 65536"
  shows "\<exists>bs. (k + length bs) mod 8 = 0 \<and>
    (\<forall>w aux. bw_ok w \<longrightarrow> bits_written w mod 8 = k mod 8 \<longrightarrow>
       ran bs 0 (add_totals layer (length bs) 0) (WriteGroupOffsets enc codes [] layer True) w aux) \<and>
    (\<forall>r. br_ok r \<longrightarrow> TotalBitsConsumed r mod 8 = k mod 8 \<longrightarrow> begins (upcoming r) bs \<longrightarrow>
       TotalBitsConsumed r + length bs \<le> 8 * length (br_data r) \<longrightarrow>
       (\<exists>r' offsets total_size. ReadGroupOffsets mem (length codes) r =
            Some (Inr (offsets, map (\<lambda>bw. of_nat (bits_written bw div 8)) codes, total_size), r') \<and>
          reader.advanced r r' (length bs) \<and> length offsets = length codes \<and>
          unat total_size = sum_list (map (\<lambda>bw. bits_written bw div 8) codes) \<and>
          (\<forall>i < length codes. unat (offsets ! i) = sum_list (map (\<lambda>bw. bits_written bw div 8) (take i codes)))))"
proof -
  let ?ns = "map (\<lambda>bw. bits_written bw div 8) codes"
  let ?bs = "toc_bits k (map of_nat ?ns)"
  have ns: "\<forall>n \<in> set ?ns. fits_toc n" "0 < length ?ns" "length ?ns \<le> 65536" using codes n by (auto simp: fits_toc_def)
  have fits: "\<forall>bw \<in> set codes. bits_written bw mod 8 = 0 \<and> fits_toc (bits_written bw div 8)" using codes by (simp add: fits_toc_def)
  have u: "map unat (map of_nat ns :: u32 list) = ns" if "\<forall>n \<in> set ns. fits_toc n" for ns
    using that by (induction ns) (simp_all add: fits_toc_def unat_of_nat_id)
  have t: "map unat (map of_nat (take i ?ns) :: u32 list) = take i ?ns" for i
    by (rule u, rule ballI, rule ns(1) [THEN bspec], erule in_set_takeD)
  show ?thesis
  proof (rule exI [of _ ?bs], intro conjI allI impI)
    show "(k + length ?bs) mod 8 = 0" by (rule toc_bits_length(1) [OF ns(1)])
    show "ran ?bs 0 (add_totals layer (length ?bs) 0) (WriteGroupOffsets enc codes [] layer True) w aux"
      if "bw_ok w" "bits_written w mod 8 = k mod 8" for w aux
      using WriteGroupOffsets_ran [OF fits that(1), where b = True] unfolding toc_bits_mod [OF that(2)]
      by (simp only: map_map comp_def if_True id_def)
    show "\<exists>r' offsets total_size. ReadGroupOffsets mem (length codes) r =
            Some (Inr (offsets, map (\<lambda>bw. of_nat (bits_written bw div 8)) codes, total_size), r') \<and>
          reader.advanced r r' (length ?bs) \<and> length offsets = length codes \<and>
          unat total_size = sum_list ?ns \<and>
          (\<forall>i < length codes. unat (offsets ! i) = sum_list (map (\<lambda>bw. bits_written bw div 8) (take i codes)))"
      if r: "br_ok r" "TotalBitsConsumed r mod 8 = k mod 8" "begins (upcoming r) ?bs" "TotalBitsConsumed r + length ?bs \<le> 8 * length (br_data r)" for r
    proof -
      have e: "toc_bits (TotalBitsConsumed r) (map of_nat ?ns) = ?bs" by (rule toc_bits_mod [OF r(2)])
      from ReadToc_written [OF ns r(1), unfolded e, OF r(3,4), of mem] obtain r' where
        r': "ReadToc mem (length codes) r = Some (Inr (map of_nat ?ns, []), r')" "reader.advanced r r' (length ?bs)" by auto
      have "length (map of_nat ?ns :: u32 list) \<le> 65536" using n(2) by simp
      from group_offsets_ok [OF this] obtain offsets total_size where g: "group_offsets 0 (map of_nat ?ns) = Inr (offsets, total_size)"
        "sections_ok (length codes) offsets (map of_nat ?ns) total_size"
        "\<forall>i < length codes. unat (offsets ! i) = sum_list (map unat (take i (map of_nat ?ns :: u32 list)))" by auto
      have g3: "unat (offsets ! i) = sum_list (take i ?ns)" if "i < length codes" for i
        using g(3) that t [of i] unfolding take_map by metis
      have "ReadGroupOffsets mem (length codes) r = Some (Inr (offsets, map of_nat ?ns, total_size), r')"
        using r'(1) g(1) by (simp add: ReadGroupOffsets_def)
      moreover have "unat total_size = sum_list ?ns" "length offsets = length codes"
        using g(2) unfolding sections_ok_def u [OF ns(1)] by blast+
      moreover have "unat (offsets ! i) = sum_list (map (\<lambda>bw. bits_written bw div 8) (take i codes))" if "i < length codes" for i
        using g3 [OF that] by (simp add: take_map)
      ultimately show ?thesis using r'(2) by (auto simp: comp_def)
    qed
  qed
qed

text \<open>Two sections of three bytes and one byte, written after three other bits.\<close>

theorem GroupOffsets_roundtrip_witness:
  "\<exists>bs :: bool list. (3 + length bs) mod 8 = 0 \<and>
     ran bs 0 (add_totals () (length bs) 0) (WriteGroupOffsets (\<lambda>_ _ _ s. (kOk, s))
       [small_writer\<lparr>bits_written := 24\<rparr>, small_writer\<lparr>bits_written := 8\<rparr>] [] () True) small_writer (\<lambda>_. undefined)"
proof -
  let ?c = "[small_writer\<lparr>bits_written := 24\<rparr>, small_writer\<lparr>bits_written := 8\<rparr>]"
  have "\<forall>bw \<in> set ?c. bits_written bw mod 8 = 0 \<and> bits_written bw div 8 < 4211712 + 2 ^ 30" by simp
  moreover have "?c \<noteq> []" "length ?c \<le> 65536" by simp_all
  ultimately obtain bs where bs: "(3 + length bs) mod 8 = 0"
    "\<And>w aux. bw_ok w \<Longrightarrow> bits_written w mod 8 = 3 mod 8 \<Longrightarrow>
       ran bs 0 (add_totals () (length bs) 0) (WriteGroupOffsets (\<lambda>_ _ _ s. (kOk, s)) ?c [] () True) w aux"
    using GroupOffsets_roundtrip [of ?c 3 "()" "\<lambda>_ _ _ s. (kOk, s)" "\<lambda>_. example_memory"] by metis
  have "bits_written small_writer mod 8 = 3 mod 8" by (simp add: small_writer_def)
  show ?thesis by (rule exI [of _ bs], rule conjI [OF bs(1) bs(2) [OF small_writer_ok(1) \<open>bits_written small_writer mod 8 = 3 mod 8\<close>]])
qed
end
