(* ===== verification/Modular_Image.thy ===== *)
theory Modular_Image
  imports Toc
begin

text \<open>
  Images of the modular mode (\<^verbatim>\<open>lib/jxl/modular/modular_image.h\<close>) and the reversible colour transforms
  (\<^verbatim>\<open>transform/rct.cc\<close>, \<^verbatim>\<open>transform/enc_rct.cc\<close>).  Pixels are 32-bit words read as signed numbers.  The plane of a channel
  is the list of its rows, without the padding of the rows in memory.  The transforms work in place, but load
  all pixels of a column before they store any of them, so that they are functions of the old rows.
\<close>

section \<open>Channels and images\<close>

record Channel =
  plane :: "i32 list list"
  ch_w :: nat
  ch_h :: nat
  hshift :: int
  vshift :: int
  component :: int

record Image =
  channel :: "Channel list"
  img_w :: nat
  img_h :: nat
  bitdepth :: int
  nb_meta_channels :: nat
  img_error :: bool

text \<open>\<open>Channel::Create\<close> leaves the pixels uninitialised: \<open>mem\<close> holds what they are.\<close>

definition Channel_Create :: "(nat \<Rightarrow> nat \<Rightarrow> i32) \<Rightarrow> nat \<Rightarrow> nat \<Rightarrow> int \<Rightarrow> int \<Rightarrow> Channel" where
  "Channel_Create mem iw ih hsh vsh =
     \<lparr> plane = map (\<lambda>y. map (mem y) [0..<iw]) [0..<ih], ch_w = iw, ch_h = ih, hshift = hsh, vshift = vsh, component = - 1 \<rparr>"

definition CheckEqualChannels :: "Image \<Rightarrow> nat \<Rightarrow> nat \<Rightarrow> bool" where
  "CheckEqualChannels img c1 c2 =
     (if c1 > length (channel img) \<or> c2 \<ge> length (channel img) \<or> c2 < c1 then False
      else if c1 < nb_meta_channels img \<and> c2 \<ge> nb_meta_channels img then False
      else let ch1 = channel img ! c1
           in list_all (\<lambda>c. let ch2 = channel img ! c
                            in \<not> (ch_w ch1 \<noteq> ch_w ch2 \<or> ch_h ch1 \<noteq> ch_h ch2 \<or> hshift ch1 \<noteq> hshift ch2 \<or> vshift ch1 \<noteq> vshift ch2))
                [c1 + 1..<c2 + 1])"

definition PixelAdd :: "i32 \<Rightarrow> i32 \<Rightarrow> i32" where "PixelAdd a b = a + b"

section \<open>Colour transforms of a pixel\<close>

type_synonym pixel3 = "i32 \<times> i32 \<times> i32"

text \<open>One lane of the vector loop and one step of the scalar loop.\<close>

definition inv_rct_vector :: "nat \<Rightarrow> pixel3 \<Rightarrow> pixel3" where
  "inv_rct_vector transform_type = (\<lambda>(in0, in1, in2).
     let second = drop_bit 1 transform_type; third = transform_type AND 1
     in if transform_type = 6
        then let Y = in0; Co = in1; Cg = in2;
                 Y = Y - signed_drop_bit 1 Cg;
                 G = Cg + Y;
                 Y = Y - signed_drop_bit 1 Co;
                 R = Y + Co
             in (R, G, Y)
        else let First = in0; Second = in1;
                 Third = (if third \<noteq> 0 then in2 + First else in2);
                 Second = (if second = 1 then Second + First
                           else if second = 2 then Second + signed_drop_bit 1 (First + Third) else Second)
             in (First, Second, Third))"

definition inv_rct_scalar :: "nat \<Rightarrow> pixel3 \<Rightarrow> pixel3" where
  "inv_rct_scalar transform_type = (\<lambda>(in0, in1, in2).
     let second = drop_bit 1 transform_type; third = transform_type AND 1
     in if transform_type = 6
        then let Y = in0; Co = in1; Cg = in2;
                 tmp = PixelAdd Y (- signed_drop_bit 1 Cg);
                 G = PixelAdd Cg tmp;
                 B = PixelAdd tmp (- signed_drop_bit 1 Co);
                 R = PixelAdd B Co
             in (R, G, B)
        else let First = in0; Second = in1;
                 Third = (if third \<noteq> 0 then PixelAdd in2 First else in2);
                 Second = (if second = 1 then PixelAdd Second First
                           else if second = 2 then PixelAdd Second (signed_drop_bit 1 (PixelAdd First Third)) else Second)
             in (First, Second, Third))"

text \<open>The forward transform; both versions do the same steps.\<close>

definition fwd_rct_pixel :: "nat \<Rightarrow> pixel3 \<Rightarrow> pixel3" where
  "fwd_rct_pixel transform = (\<lambda>(in0, in1, in2).
     let second = drop_bit 1 transform; third = transform AND 1
     in if transform = 6
        then let R = in0; G = in1; B = in2;
                 o1 = R - B;
                 tmp = B + signed_drop_bit 1 o1;
                 o2 = G - tmp
             in (tmp + signed_drop_bit 1 o2, o1, o2)
        else let First = in0; Third = in2;
                 Second = (if second = 1 then in1 - First
                           else if second = 2 then in1 - signed_drop_bit 1 (First + Third) else in1);
                 Third = (if third \<noteq> 0 then Third - First else Third)
             in (First, Second, Third))"

section \<open>Rows and images\<close>

text \<open>Full vectors of \<open>N\<close> lanes, then single pixels.\<close>

function inv_rct_pixels :: "nat \<Rightarrow> nat \<Rightarrow> pixel3 list \<Rightarrow> pixel3 list" where
  "inv_rct_pixels transform_type N ps =
     (if 0 < N \<and> N \<le> length ps
      then map (inv_rct_vector transform_type) (take N ps) @ inv_rct_pixels transform_type N (drop N ps)
      else map (inv_rct_scalar transform_type) ps)"
  by pat_completeness auto
termination by (relation "measure (\<lambda>(t, N, ps). length ps)") auto

declare inv_rct_pixels.simps [simp del]

type_synonym row3 = "i32 list \<times> i32 list \<times> i32 list"

definition columns3 :: "nat \<Rightarrow> row3 \<Rightarrow> pixel3 list" where
  "columns3 w = (\<lambda>(in0, in1, in2). map (\<lambda>x. (in0 ! x, in1 ! x, in2 ! x)) [0..<w])"

definition rows3 :: "pixel3 list \<Rightarrow> row3" where
  "rows3 ps = (map fst ps, map (fst \<circ> snd) ps, map (snd \<circ> snd) ps)"

definition InvRCTRow :: "nat \<Rightarrow> nat \<Rightarrow> nat \<Rightarrow> row3 \<Rightarrow> row3" where
  "InvRCTRow N transform_type w ins = rows3 (inv_rct_pixels transform_type N (columns3 w ins))"

definition FwdRctRow :: "nat \<Rightarrow> nat \<Rightarrow> row3 \<Rightarrow> row3" where
  "FwdRctRow transform w ins = rows3 (map (fwd_rct_pixel transform) (columns3 w ins))"

text \<open>The three channels a permutation takes or stores.\<close>

definition rct_perm :: "nat \<Rightarrow> nat \<times> nat \<times> nat" where
  "rct_perm permutation = (permutation mod 3, (permutation + 1 + permutation div 3) mod 3, (permutation + 2 - permutation div 3) mod 3)"

text \<open>All rows of three channels.\<close>

definition map_rows :: "(row3 \<Rightarrow> row3) \<Rightarrow> nat \<Rightarrow> Channel \<Rightarrow> Channel \<Rightarrow> Channel \<Rightarrow> i32 list list \<times> i32 list list \<times> i32 list list" where
  "map_rows f h c0 c1 c2 =
     (let rows = map (\<lambda>y. f (plane c0 ! y, plane c1 ! y, plane c2 ! y)) [0..<h]
      in (map fst rows, map (fst \<circ> snd) rows, map (snd \<circ> snd) rows))"

definition set_plane :: "nat \<Rightarrow> i32 list list \<Rightarrow> Channel list \<Rightarrow> Channel list" where
  "set_plane k p chs = chs[k := (chs ! k)\<lparr> plane := p \<rparr>]"

definition InvRCT :: "nat \<Rightarrow> Image \<Rightarrow> nat \<Rightarrow> nat \<Rightarrow> Image outcome" where
  "InvRCT N input begin_c rct_type =
     (if \<not> CheckEqualChannels input begin_c (begin_c + 2) then Inl kGenericError
      else let m = begin_c; chs = channel input; w = ch_w (chs ! m); h = ch_h (chs ! m)
      in if rct_type = 0 then Inr input
      else let permutation = rct_type div 7
      in if \<not> permutation < 6 then Inl kGenericError
      else let custom = rct_type mod 7
      in case rct_perm permutation of (p0, p1, p2) \<Rightarrow>
         if custom = 0
         then Inr (input\<lparr> channel := chs[m + p0 := chs ! m, m + p1 := chs ! (m + 1), m + p2 := chs ! (m + 2)] \<rparr>)
         else (case map_rows (InvRCTRow N custom w) h (chs ! m) (chs ! (m + 1)) (chs ! (m + 2)) of (o0, o1, o2) \<Rightarrow>
               Inr (input\<lparr> channel := set_plane (m + p2) o2 (set_plane (m + p1) o1 (set_plane (m + p0) o0 chs)) \<rparr>)))"

definition FwdRct :: "Image \<Rightarrow> nat \<Rightarrow> nat \<Rightarrow> Image outcome" where
  "FwdRct input begin_c rct_type =
     (if \<not> CheckEqualChannels input begin_c (begin_c + 2) then Inl kGenericError
      else if rct_type = 0 then Inl kGenericError
      else let m = begin_c; chs = channel input; w = ch_w (chs ! m); h = ch_h (chs ! m);
               permutation = rct_type div 7; transform = rct_type mod 7
      in case rct_perm permutation of (p0, p1, p2) \<Rightarrow>
         case map_rows (FwdRctRow transform w) h (chs ! (m + p0)) (chs ! (m + p1)) (chs ! (m + p2)) of (o0, o1, o2) \<Rightarrow>
           Inr (input\<lparr> channel := set_plane (m + 2) o2 (set_plane (m + 1) o1 (set_plane m o0 chs)) \<rparr>))"

section \<open>The transforms are inverse to each other\<close>

lemma inv_rct_vector_scalar: "inv_rct_vector t = inv_rct_scalar t"
  by (rule ext) (simp add: inv_rct_vector_def inv_rct_scalar_def PixelAdd_def Let_def split_beta)

text \<open>The vector loop and the scalar loop of the inverse colour transform compute the same pixels, for every number of lanes, every
  transform and every row length: where one ends and the other begins does not matter.\<close>

theorem InvRCTRow_equivalence:
  shows "inv_rct_pixels t N ps = map (inv_rct_scalar t) ps"
proof (induction t N ps rule: inv_rct_pixels.induct)
  case (1 t N ps)
  then show ?case by (subst inv_rct_pixels.simps) (simp add: inv_rct_vector_scalar flip: map_append)
qed

lemma inv_fwd_pixel: "inv_rct_scalar t (fwd_rct_pixel t p) = p"
  by (auto simp: inv_rct_scalar_def fwd_rct_pixel_def PixelAdd_def Let_def split_beta)

lemma fwd_inv_pixel: "fwd_rct_pixel t (inv_rct_scalar t p) = p"
  by (auto simp: inv_rct_scalar_def fwd_rct_pixel_def PixelAdd_def Let_def split_beta)

lemma columns3_rows3: "length ps = w \<Longrightarrow> columns3 w (rows3 ps) = ps"
  by (rule nth_equalityI) (auto simp: columns3_def rows3_def)

definition row3_ok :: "nat \<Rightarrow> row3 \<Rightarrow> bool" where
  "row3_ok w = (\<lambda>(a, b, c). length a = w \<and> length b = w \<and> length c = w)"

lemma rows3_columns3: "row3_ok w r \<Longrightarrow> rows3 (columns3 w r) = r"
  by (cases r) (auto simp: row3_ok_def columns3_def rows3_def comp_def intro: nth_equalityI)

lemma length_columns3 [simp]: "length (columns3 w r) = w" by (cases r) (simp add: columns3_def)

lemma rows_inverse:
  assumes "row3_ok w r"
  shows "InvRCTRow N t w (FwdRctRow t w r) = r" "FwdRctRow t w (InvRCTRow N t w r) = r"
    "row3_ok w (FwdRctRow t w r)" "row3_ok w (InvRCTRow N t w r)"
proof -
  have v: "inv_rct_pixels t N ps = map (inv_rct_scalar t) ps" for ps
  proof (induction t N ps rule: inv_rct_pixels.induct)
    case (1 t N ps)
    then show ?case by (subst inv_rct_pixels.simps) (simp add: inv_rct_vector_scalar flip: map_append)
  qed
  show "InvRCTRow N t w (FwdRctRow t w r) = r" "FwdRctRow t w (InvRCTRow N t w r) = r"
    using rows3_columns3 [OF assms]
    by (simp_all add: InvRCTRow_def FwdRctRow_def columns3_rows3 v comp_def inv_fwd_pixel fwd_inv_pixel)
  show "row3_ok w (FwdRctRow t w r)" "row3_ok w (InvRCTRow N t w r)"
    by (simp_all add: InvRCTRow_def FwdRctRow_def row3_ok_def rows3_def v)
qed

definition channel_ok :: "Channel \<Rightarrow> bool" where
  "channel_ok c \<longleftrightarrow> length (plane c) = ch_h c \<and> (\<forall>r \<in> set (plane c). length r = ch_w c)"

definition shape :: "Channel \<Rightarrow> nat \<times> nat \<times> int \<times> int" where
  "shape c = (ch_w c, ch_h c, hshift c, vshift c)"

lemma CheckEqualChannels_iff:
  "CheckEqualChannels img c1 c2 \<longleftrightarrow> c1 \<le> c2 \<and> c2 < length (channel img) \<and>
     \<not> (c1 < nb_meta_channels img \<and> c2 \<ge> nb_meta_channels img) \<and>
     (\<forall>c \<in> set [c1 + 1..<c2 + 1]. shape (channel img ! c) = shape (channel img ! c1))"
proof -
  have "(\<not> (ch_w a \<noteq> ch_w b \<or> ch_h a \<noteq> ch_h b \<or> hshift a \<noteq> hshift b \<or> vshift a \<noteq> vshift b)) \<longleftrightarrow> shape b = shape a" for a b
    by (auto simp: shape_def)
  then show ?thesis unfolding CheckEqualChannels_def Let_def list_all_iff by auto
qed

lemma CheckEqualChannels_shape:
  assumes "map shape (channel a) = map shape (channel b)" "nb_meta_channels a = nb_meta_channels b"
  shows "CheckEqualChannels a c1 c2 = CheckEqualChannels b c1 c2"
proof -
  have l: "length (channel a) = length (channel b)" using assms(1) map_eq_imp_length_eq by blast
  have s: "shape (channel a ! c) = shape (channel b ! c)" if "c < length (channel b)" for c
    using assms(1) that l by (metis nth_map)
  show ?thesis
  proof (cases "c1 \<le> c2 \<and> c2 < length (channel b)")
    case True
    then have "(\<forall>c \<in> set [c1 + 1..<c2 + 1]. shape (channel a ! c) = shape (channel a ! c1)) \<longleftrightarrow>
        (\<forall>c \<in> set [c1 + 1..<c2 + 1]. shape (channel b ! c) = shape (channel b ! c1))"
      using s by (intro ball_cong refl) auto
    then show ?thesis unfolding CheckEqualChannels_iff using l assms(2) by simp
  next
    case False
    then show ?thesis unfolding CheckEqualChannels_iff using l by auto
  qed
qed

lemma CheckEqualChannels_3:
  assumes "CheckEqualChannels img m (m + 2)" "k < 3"
  shows "m + k < length (channel img)" "ch_w (channel img ! (m + k)) = ch_w (channel img ! m)"
    "ch_h (channel img ! (m + k)) = ch_h (channel img ! m)" "shape (channel img ! (m + k)) = shape (channel img ! m)"
proof -
  have c: "m + 2 < length (channel img)" "shape (channel img ! (m + 1)) = shape (channel img ! m)"
    "shape (channel img ! (m + 2)) = shape (channel img ! m)" using assms(1) unfolding CheckEqualChannels_iff by simp_all
  consider "k = 0" | "k = 1" | "k = 2" using assms(2) by linarith
  then show s: "shape (channel img ! (m + k)) = shape (channel img ! m)" using c by cases simp_all
  show "m + k < length (channel img)" using c(1) assms(2) by simp
  show "ch_w (channel img ! (m + k)) = ch_w (channel img ! m)" "ch_h (channel img ! (m + k)) = ch_h (channel img ! m)"
    using s by (simp_all add: shape_def)
qed

lemma map_shape_set_plane [simp]: "map shape (set_plane k p chs) = map shape chs"
proof (cases "k < length chs")
  case True
  have "shape ((chs ! k)\<lparr> plane := p \<rparr>) = map shape chs ! k" using True by (simp add: shape_def)
  then show ?thesis by (simp add: set_plane_def map_update list_update_id)
qed (simp add: set_plane_def list_update_beyond)

lemma length_set_plane [simp]: "length (set_plane k p chs) = length chs"
  by (simp add: set_plane_def)

lemma nth_set_plane: "k < length chs \<Longrightarrow> set_plane k p chs ! i = (if i = k then (chs ! k)\<lparr> plane := p \<rparr> else chs ! i)"
  by (simp add: set_plane_def)

text \<open>Applying inverse row functions to all rows of three channels.\<close>

lemma map_rows_inverse:
  assumes g: "\<And>r. row3_ok w r \<Longrightarrow> g (f r) = r"
    and ok: "\<And>c. c \<in> {a, b, c'} \<Longrightarrow> channel_ok c \<and> ch_w c = w \<and> ch_h c = h"
    and run: "map_rows f h a b c' = (o0, o1, o2)" and pl: "plane a' = o0" "plane b' = o1" "plane c'' = o2"
  shows "map_rows g h a' b' c'' = (plane a, plane b, plane c')"
proof -
  have r: "row3_ok w (plane a ! y, plane b ! y, plane c' ! y)" if "y < h" for y
  proof -
    have "length (plane c ! y) = w" if "c \<in> {a, b, c'}" for c
      using ok [OF that] \<open>y < h\<close> unfolding channel_ok_def by (metis nth_mem)
    then show ?thesis by (simp add: row3_ok_def)
  qed
  have rows: "map (\<lambda>y. g (plane a' ! y, plane b' ! y, plane c'' ! y)) [0..<h] = map (\<lambda>y. (plane a ! y, plane b ! y, plane c' ! y)) [0..<h]"
  proof (rule map_cong [OF refl])
    fix y assume "y \<in> set [0..<h]"
    then have y: "y < h" by simp
    then have "(o0 ! y, o1 ! y, o2 ! y) = f (plane a ! y, plane b ! y, plane c' ! y)"
      using run by (auto simp: map_rows_def Let_def)
    then show "g (plane a' ! y, plane b' ! y, plane c'' ! y) = (plane a ! y, plane b ! y, plane c' ! y)"
      using g [OF r [OF y]] by (simp add: pl)
  qed
  have "map ((!) (plane c)) [0..<h] = plane c" if "c \<in> {a, b, c'}" for c
    using ok [OF that] map_nth [of "plane c"] by (simp add: channel_ok_def)
  then show ?thesis unfolding map_rows_def Let_def rows by (simp add: comp_def)
qed

lemma rct_perm_cases:
  assumes "permutation < 6"
  shows "rct_perm permutation \<in> {(0, 1, 2), (1, 2, 0), (2, 0, 1), (0, 2, 1), (1, 0, 2), (2, 1, 0)}"
proof -
  have "permutation \<in> {0, 1, 2, 3, 4, 5}" using assms by auto
  then show ?thesis by (elim insertE emptyE) (simp_all add: rct_perm_def)
qed

text \<open>Channels that differ from those of \<open>chs\<close> only in the planes with index in \<open>K\<close>.\<close>

definition planes_changed :: "nat set \<Rightarrow> Channel list \<Rightarrow> Channel list \<Rightarrow> bool" where
  "planes_changed K chs cs \<longleftrightarrow> length cs = length chs \<and>
     (\<forall>i. (\<exists>x. cs ! i = (chs ! i)\<lparr> plane := x \<rparr>) \<and> (i \<notin> K \<longrightarrow> cs ! i = chs ! i))"

lemma planes_changed_rules:
  "planes_changed {} chs chs"
  "planes_changed K chs cs \<Longrightarrow> planes_changed (insert k K) chs (set_plane k p cs)"
  "planes_changed K chs cs \<Longrightarrow> k < length chs \<Longrightarrow> planes_changed (K - {k}) chs (set_plane k (plane (chs ! k)) cs)"
  "planes_changed {} chs cs \<Longrightarrow> cs = chs"
proof -
  show "planes_changed {} chs chs" unfolding planes_changed_def
  proof (intro conjI allI impI refl)
    show "\<exists>x. chs ! i = (chs ! i)\<lparr> plane := x \<rparr>" for i by (rule exI [of _ "plane (chs ! i)"]) simp
  qed
  have up: "\<exists>x. set_plane k p cs ! i = (chs ! i)\<lparr> plane := x \<rparr>" if "\<exists>x. cs ! i = (chs ! i)\<lparr> plane := x \<rparr>" for k p cs i
  proof (cases "k < length cs \<and> i = k")
    case True
    then have "set_plane k p cs ! i = (cs ! i)\<lparr> plane := p \<rparr>" by (simp add: set_plane_def)
    then show ?thesis using that by auto
  next
    case False
    then have "set_plane k p cs ! i = cs ! i" by (cases "k < length cs") (auto simp: set_plane_def list_update_beyond)
    then show ?thesis using that by simp
  qed
  show "planes_changed (insert k K) chs (set_plane k p cs)" if "planes_changed K chs cs"
    using that up by (auto simp: planes_changed_def set_plane_def)
  show "planes_changed (K - {k}) chs (set_plane k (plane (chs ! k)) cs)" if c: "planes_changed K chs cs" and "k < length chs"
  proof -
    obtain x where "cs ! k = (chs ! k)\<lparr> plane := x \<rparr>" using c by (auto simp: planes_changed_def)
    then have "set_plane k (plane (chs ! k)) cs ! k = chs ! k" using that by (simp add: set_plane_def planes_changed_def)
    moreover have "set_plane k (plane (chs ! k)) cs ! i = cs ! i" if "i \<noteq> k" for i using that by (simp add: set_plane_def)
    moreover have "\<exists>x. set_plane k (plane (chs ! k)) cs ! i = (chs ! i)\<lparr> plane := x \<rparr>" for i
      using up c unfolding planes_changed_def by blast
    ultimately show ?thesis using c unfolding planes_changed_def by (metis Diff_iff length_set_plane singletonI singletonD)
  qed
  show "cs = chs" if "planes_changed {} chs cs"
    using that by (intro nth_equalityI) (auto simp: planes_changed_def)
qed

lemma set_planes_restore:
  assumes "(p0, p1, p2) \<in> {(0, 1, 2), (1, 2, 0), (2, 0, 1), (0, 2, 1), (1, 0, 2), (2, 1, 0 :: nat)}" "m + 2 < length chs"
  shows "set_plane (m + p2) (plane (chs ! (m + p2))) (set_plane (m + p1) (plane (chs ! (m + p1))) (set_plane (m + p0) (plane (chs ! (m + p0)))
      (set_plane (m + 2) o2 (set_plane (m + 1) o1 (set_plane m o0 chs))))) = chs" (is "?cs = _")
proof -
  have p: "p0 < 3" "p1 < 3" "p2 < 3" "{m + 2, m + 1, m} - {m + p0} - {m + p1} - {m + p2} = {}" using assms(1) by auto
  have "planes_changed ({m + 2, m + 1, m} - {m + p0} - {m + p1} - {m + p2}) chs ?cs"
    using p(1-3) assms(2) by (intro planes_changed_rules) simp_all
  then show ?thesis unfolding p(4) by (rule planes_changed_rules(4))
qed

lemma restore_list:
  assumes "(p0, p1, p2) \<in> {(0, 1, 2), (1, 2, 0), (2, 0, 1), (0, 2, 1), (1, 0, 2), (2, 1, 0 :: nat)}"
    and "length xs = length ys" "m + 2 < length ys" "\<And>i. i < length ys \<Longrightarrow> i \<notin> {m, m + 1, m + 2} \<Longrightarrow> xs ! i = ys ! i"
  shows "xs[m + p0 := ys ! (m + p0), m + p1 := ys ! (m + p1), m + p2 := ys ! (m + p2)] = ys"
proof (rule nth_equalityI)
  fix i assume "i < length (xs[m + p0 := ys ! (m + p0), m + p1 := ys ! (m + p1), m + p2 := ys ! (m + p2)])"
  then have i: "i < length ys" using assms(2) by simp
  have d: "p0 \<noteq> p1" "p0 \<noteq> p2" "p1 \<noteq> p2" "p0 < 3" "p1 < 3" "p2 < 3" "{m + p0, m + p1, m + p2} = {m, m + 1, m + 2}" using assms(1) by auto
  show "xs[m + p0 := ys ! (m + p0), m + p1 := ys ! (m + p1), m + p2 := ys ! (m + p2)] ! i = ys ! i"
  proof (cases "i \<in> {m + p0, m + p1, m + p2}")
    case True
    then show ?thesis using d(1-6) assms(2,3) by (auto simp: nth_list_update)
  next
    case False
    then have "xs ! i = ys ! i" using assms(4) [OF i] d(7) by simp
    then show ?thesis using False by simp
  qed
qed (use assms(2) in simp)

text \<open>C37: The reversible colour transforms lose nothing: for each of the 41 proper types, at any position in an
  image whose planes have the announced sizes, if \<open>FwdRct\<close> accepts the three channels then \<open>InvRCT\<close> with any vector width
  restores all pixels, sizes and shifts of all channels, whatever the pixel values: all sums wrap around. Only the component
  indices of a pure permutation are not restored, because the decoder moves whole channels.\<close>

theorem RCT_roundtrip:
  assumes fwd: "FwdRct img m t = Inr img'" and t: "t < 42"
    and ok: "\<forall>c \<in> set (channel img). channel_ok c"
  shows "\<exists>img''. InvRCT N img' m t = Inr img'' \<and> map plane (channel img'') = map plane (channel img) \<and>
    map shape (channel img'') = map shape (channel img) \<and> (t mod 7 \<noteq> 0 \<longrightarrow> img'' = img)"
proof -
  let ?c = "channel img"
  have chk: "CheckEqualChannels img m (m + 2)" and t0: "t \<noteq> 0" using fwd by (auto simp: FwdRct_def split: if_splits)
  note E = CheckEqualChannels_3 [OF chk]
  obtain p0 p1 p2 where p: "rct_perm (t div 7) = (p0, p1, p2)" by (metis prod.exhaust)
  have perm: "t div 7 < 6" using t by simp
  have pc: "(p0, p1, p2) \<in> {(0, 1, 2), (1, 2, 0), (2, 0, 1), (0, 2, 1), (1, 0, 2), (2, 1, 0)}" using rct_perm_cases [OF perm] p by simp
  have m2: "m + 2 < length ?c" using E(1) [of 2] by simp
  have p3: "p0 < 3" "p1 < 3" "p2 < 3" using pc by auto
  let ?w = "ch_w (?c ! m)" and ?h = "ch_h (?c ! m)"
  obtain o0 o1 o2 where o': "map_rows (FwdRctRow (t mod 7) ?w) ?h (?c ! (m + p0)) (?c ! (m + p1)) (?c ! (m + p2)) = (o0, o1, o2)"
    by (metis prod.exhaust)
  let ?c' = "set_plane (m + 2) o2 (set_plane (m + 1) o1 (set_plane m o0 ?c))"
  have img': "img' = img\<lparr> channel := ?c' \<rparr>" using fwd chk t0 p o' by (simp add: FwdRct_def Let_def)
  have cok: "channel_ok c \<and> ch_w c = ?w \<and> ch_h c = ?h" if "c \<in> {?c ! (m + p0), ?c ! (m + p1), ?c ! (m + p2)}" for c
    using that ok E(1-3) p3 by auto
  have pl: "plane (?c' ! m) = o0" "plane (?c' ! (m + 1)) = o1" "plane (?c' ! (m + 2)) = o2"
    "ch_w (?c' ! m) = ?w" "ch_h (?c' ! m) = ?h"
    using m2 by (simp_all add: nth_set_plane)
  have restored: "map_rows (InvRCTRow N (t mod 7) ?w) ?h (?c' ! m) (?c' ! (m + 1)) (?c' ! (m + 2)) =
      (plane (?c ! (m + p0)), plane (?c ! (m + p1)), plane (?c ! (m + p2)))"
    by (rule map_rows_inverse [OF rows_inverse(1) cok o' pl(1-3)])
  have chk': "CheckEqualChannels img' m (m + 2)" using CheckEqualChannels_shape [of img' img m "m + 2"] chk by (simp add: img')
  show ?thesis
  proof (cases "t mod 7 = 0")
    case False
    have "InvRCT N img' m t = Inr (img'\<lparr> channel := set_plane (m + p2) (plane (?c ! (m + p2))) (set_plane (m + p1) (plane (?c ! (m + p1)))
        (set_plane (m + p0) (plane (?c ! (m + p0))) ?c')) \<rparr>)"
      using chk' t0 perm p False restored pl(4,5) by (simp add: InvRCT_def Let_def img')
    also have "\<dots> = Inr img" using set_planes_restore [OF pc m2, of o2 o1 o0] by (simp add: img')
    finally show ?thesis by simp
  next
    case True
    have id: "FwdRctRow (t mod 7) ?w r = r" if "row3_ok ?w r" for r
    proof -
      have "map (fwd_rct_pixel 0) qs = qs" for qs by (rule map_idI) (simp add: fwd_rct_pixel_def split_beta)
      then show ?thesis using True rows3_columns3 [OF that] by (simp add: FwdRctRow_def)
    qed
    define D where "D = \<lparr> plane = [], ch_w = 0, ch_h = 0, hshift = 0, vshift = 0, component = 0 \<rparr>"
    have "map_rows (\<lambda>r. r) ?h (D\<lparr> plane := o0 \<rparr>) (D\<lparr> plane := o1 \<rparr>) (D\<lparr> plane := o2 \<rparr>) =
        (plane (?c ! (m + p0)), plane (?c ! (m + p1)), plane (?c ! (m + p2)))"
      by (rule map_rows_inverse [where f = "FwdRctRow (t mod 7) ?w" and w = ?w and ?o0.0 = o0 and ?o1.0 = o1 and ?o2.0 = o2, OF id cok o']) simp_all
    moreover have "length o0 = ?h" "length o1 = ?h" "length o2 = ?h" using o' by (auto simp: map_rows_def Let_def)
    ultimately have ok: "o0 = plane (?c ! (m + p0))" "o1 = plane (?c ! (m + p1))" "o2 = plane (?c ! (m + p2))"
      using map_nth [of o0] map_nth [of o1] map_nth [of o2] by (auto simp: map_rows_def comp_def)
    let ?r = "?c'[m + p0 := ?c' ! m, m + p1 := ?c' ! (m + 1), m + p2 := ?c' ! (m + 2)]"
    have "InvRCT N img' m t = Inr (img'\<lparr> channel := ?r \<rparr>)" using chk' t0 perm p True by (simp add: InvRCT_def Let_def img')
    moreover have "map plane ?r = map plane ?c"
    proof -
      have "map plane ?r = (map plane ?c')[m + p0 := map plane ?c ! (m + p0), m + p1 := map plane ?c ! (m + p1), m + p2 := map plane ?c ! (m + p2)]"
        using pl(1-3) ok m2 p3 by (simp add: map_update)
      also have "\<dots> = map plane ?c" using m2 by (intro restore_list [OF pc]) (auto simp: nth_set_plane)
      finally show ?thesis .
    qed
    moreover have "map shape ?r = map shape ?c"
    proof -
      have s: "map shape ?c' ! (m + k) = map shape ?c ! m" if "k < 3" for k using E(4) [OF that] m2 that by (simp add: nth_set_plane)
      have "shape (?c' ! m) = map shape ?c ! m" "shape (?c' ! (m + 1)) = map shape ?c ! m" "shape (?c' ! (m + 2)) = map shape ?c ! m"
        using s [of 0] s [of 1] s [of 2] m2 by (simp_all del: map_shape_set_plane)
      moreover have "(map shape ?c)[m + k := map shape ?c ! m] = map shape ?c" if "k < 3" for k
        using E(4) [OF that] m2 that by (metis (no_types, lifting) E(1) add_lessD1 list_update_id nth_map)
      ultimately show ?thesis using p3 by (simp add: map_update)
    qed
    ultimately show ?thesis using True by simp
  qed
qed

text \<open>Three channels with extreme values, where the sums wrap around.\<close>

definition rct_example :: Image where
  "rct_example = \<lparr> channel = map (\<lambda>p. \<lparr> plane = [p], ch_w = 2, ch_h = 1, hshift = 0, vshift = 0, component = 0 \<rparr>)
     [[0x7FFFFFFF, 5], [0x80000000, 7], [0, 0xFFFFFFFF]], img_w = 2, img_h = 1, bitdepth = 8, nb_meta_channels = 0, img_error = False \<rparr>"

lemma RCT_roundtrip_witness:
  "\<exists>img'. FwdRct rct_example 0 13 = Inr img' \<and> InvRCT 4 img' 0 13 = Inr rct_example"
proof -
  have "case FwdRct rct_example 0 13 of Inl _ \<Rightarrow> False | Inr _ \<Rightarrow> True" by code_simp
  then obtain img' where f: "FwdRct rct_example 0 13 = Inr img'" by (auto split: sum.splits)
  moreover have "\<forall>c \<in> set (channel rct_example). channel_ok c" by (simp add: rct_example_def channel_ok_def)
  ultimately show ?thesis using RCT_roundtrip [OF f, of 4] by auto
qed
end
