(* ===== verification/Squeeze.thy ===== *)
theory Squeeze
  imports Modular_Image "HOL-Library.Signed_Division"
begin

text \<open>
  The squeeze transform of the modular mode (\<^verbatim>\<open>transform/squeeze.h\<close>, \<^verbatim>\<open>squeeze.cc\<close>, \<^verbatim>\<open>enc_squeeze.cc\<close>): pairs of pixels become their average and a residual
  against a predicted slope.  \<^verbatim>\<open>pixel_type_w\<close> has 64 bits; on 32-bit pixels its arithmetic is that of the integers.  The
  allocations of channels are taken to succeed.
\<close>

section \<open>Definitions\<close>

subsection \<open>The predicted slope\<close>

definition SmoothTendency :: "int \<Rightarrow> int \<Rightarrow> int \<Rightarrow> int" where
  "SmoothTendency B a n =
     (if B \<ge> a \<and> a \<ge> n
      then let diff = (4 * B - 3 * n - a + 6) sdiv 12;
               diff = (if diff - (diff AND 1) > 2 * (B - a) then 2 * (B - a) + 1 else diff);
               diff = (if diff + (diff AND 1) > 2 * (a - n) then 2 * (a - n) else diff)
           in diff
      else if B \<le> a \<and> a \<le> n
      then let diff = (4 * B - 3 * n - a - 6) sdiv 12;
               diff = (if diff + (diff AND 1) < 2 * (B - a) then 2 * (B - a) - 1 else diff);
               diff = (if diff - (diff AND 1) < 2 * (a - n) then 2 * (a - n) else diff)
           in diff
      else 0)"

subsection \<open>One pair of pixels\<close>

text \<open>The scalar step: two pixels from a residual, the average, the next average and the pixel before.\<close>

definition unsqueeze_scalar :: "i32 \<Rightarrow> i32 \<Rightarrow> i32 \<Rightarrow> i32 \<Rightarrow> i32 \<times> i32" where
  "unsqueeze_scalar residual avg next_avg upper =
     (let tendency = SmoothTendency (sint upper) (sint avg) (sint next_avg);
          diff = sint residual + tendency;
          out = sint avg + diff sdiv 2
      in (word_of_int out, word_of_int (out - diff)))"

text \<open>One lane of \<^verbatim>\<open>FastUnsqueeze\<close>.  The absolute value of the smallest number is itself; the multiplication keeps the upper
  half of the product.\<close>

definition vec_abs :: "i32 \<Rightarrow> i32" where "vec_abs v = (if sint v < 0 then - v else v)"

definition mul_high :: "i32 \<Rightarrow> i32 \<Rightarrow> i32" where "mul_high v w = word_of_int (drop_bit 32 (sint v * sint w))"

definition FastUnsqueeze :: "i32 \<Rightarrow> i32 \<Rightarrow> i32 \<Rightarrow> i32 \<Rightarrow> i32 \<times> i32" where
  "FastUnsqueeze residual avg next_avg upper =
     (let onethird = 0x55555556;
          Ba = upper - avg;
          an = avg - next_avg;
          nonmono = Ba XOR an;
          absBa = vec_abs Ba;
          absan = vec_abs an;
          absBn = vec_abs (upper - next_avg);
          a3 = mul_high absBa onethird;
          a3 = a3 + (absBn + 2);
          absdiff = signed_drop_bit 2 a3;
          skipdiff = (Ba \<noteq> 0 \<and> an \<noteq> 0 \<and> sint nonmono < 0);
          absBa2 = push_bit 1 absBa + (absdiff AND 1);
          absdiff = (if sint absdiff > sint absBa2 then push_bit 1 absBa + 1 else absdiff);
          absan2 = push_bit 1 absan;
          absdiff = (if sint (absdiff + (absdiff AND 1)) > sint absan2 then absan2 else absdiff);
          diff1 = (if sint upper < sint next_avg then - absdiff else absdiff);
          tendency = (if skipdiff then 0 else diff1);
          diff = residual + tendency;
          out = avg + signed_drop_bit 1 (diff + drop_bit 31 diff)
      in (out, out - diff))"

text \<open>The forward step, in the arithmetic of 32-bit integers.\<close>

definition AVERAGE :: "i32 \<Rightarrow> i32 \<Rightarrow> i32" where
  "AVERAGE X Y = signed_drop_bit 1 (X + Y + (if sint X > sint Y then 1 else 0))"

definition squeeze_residual :: "i32 \<Rightarrow> i32 \<Rightarrow> i32 \<Rightarrow> i32 \<Rightarrow> i32 \<Rightarrow> i32" where
  "squeeze_residual A B avg next_avg left =
     (let diff = A - B; tendency = word_of_int (SmoothTendency (sint left) (sint avg) (sint next_avg)) in diff - tendency)"

subsection \<open>Rows and columns\<close>

text \<open>\<open>xs\<close> is the number of pairs that the vector code handles before the scalar loop; \<open>left\<close> is the last pixel written.\<close>

definition unsqueeze_step :: "bool \<Rightarrow> i32 \<Rightarrow> i32 \<Rightarrow> i32 \<Rightarrow> i32 \<Rightarrow> i32 \<times> i32" where
  "unsqueeze_step fast = (if fast then FastUnsqueeze else unsqueeze_scalar)"

fun unsqueeze_row :: "nat \<Rightarrow> nat \<Rightarrow> i32 \<Rightarrow> i32 list \<Rightarrow> i32 list \<Rightarrow> i32 list" where
  "unsqueeze_row xs x done_px (r # residuals) (avg # avgs) =
     (let next_avg = (case avgs of [] \<Rightarrow> avg | n # _ \<Rightarrow> n);
          left = (if x = 0 then avg else done_px)
      in case unsqueeze_step (x < xs) r avg next_avg left of
           (A, B) \<Rightarrow> A # B # unsqueeze_row xs (x + 1) B residuals avgs)"
| "unsqueeze_row xs x done_px residuals avgs = avgs"

fun squeeze_row :: "nat \<Rightarrow> i32 \<Rightarrow> i32 list \<Rightarrow> i32 list \<times> i32 list" where
  "squeeze_row x done_px (A # B # ps) =
     (let avg = AVERAGE A B;
          next_avg = (case ps of [] \<Rightarrow> avg | [C] \<Rightarrow> C | C # D # _ \<Rightarrow> AVERAGE C D);
          left = (if x > 0 then done_px else avg)
      in case squeeze_row (x + 1) B ps of
           (avgs, residuals) \<Rightarrow> (avg # avgs, squeeze_residual A B avg next_avg left # residuals))"
| "squeeze_row x done_px ps = (ps, [])"

text \<open>The same for all columns of a plane at once; \<open>fast\<close> tells which columns the vector code handles.\<close>

fun unsqueeze_rows :: "(nat \<Rightarrow> bool) \<Rightarrow> nat \<Rightarrow> nat \<Rightarrow> i32 list \<Rightarrow> i32 list list \<Rightarrow> i32 list list \<Rightarrow> i32 list list" where
  "unsqueeze_rows fast w y p_prev (p_residual # residuals) (p_avg # avgs) =
     (let p_navg = (case avgs of [] \<Rightarrow> p_avg | n # _ \<Rightarrow> n);
          p_pout = (if y > 0 then p_prev else p_avg);
          outs = map (\<lambda>x. unsqueeze_step (fast x) (p_residual ! x) (p_avg ! x) (p_navg ! x) (p_pout ! x)) [0..<w]
      in map fst outs # map snd outs # unsqueeze_rows fast w (y + 1) (map snd outs) residuals avgs)"
| "unsqueeze_rows fast w y p_prev residuals avgs = avgs"

fun squeeze_rows :: "nat \<Rightarrow> nat \<Rightarrow> i32 list \<Rightarrow> i32 list list \<Rightarrow> i32 list list \<times> i32 list list" where
  "squeeze_rows w y p_prev (p_A # p_B # ps) =
     (let avg = map (\<lambda>x. AVERAGE (p_A ! x) (p_B ! x)) [0..<w];
          next_avg = (case ps of [] \<Rightarrow> avg | [C] \<Rightarrow> C | C # D # _ \<Rightarrow> map (\<lambda>x. AVERAGE (C ! x) (D ! x)) [0..<w]);
          upper = (if y > 0 then p_prev else avg);
          res = map (\<lambda>x. squeeze_residual (p_A ! x) (p_B ! x) (avg ! x) (next_avg ! x) (upper ! x)) [0..<w]
      in case squeeze_rows w (y + 1) p_B ps of (avgs, residuals) \<Rightarrow> (avg # avgs, res # residuals))"
| "squeeze_rows w y p_prev ps = (ps, [])"

subsection \<open>Channels\<close>

text \<open>The number of pairs in a row that the vector code handles: blocks of eight while more than nine pairs are left.\<close>

definition vector_pairs :: "bool \<Rightarrow> nat \<Rightarrow> nat \<Rightarrow> nat" where
  "vector_pairs simd px_rows w = (if simd \<and> w > 16 \<and> px_rows = 8 then 8 * DivCeil (w - 9) 8 else 0)"

text \<open>Columns are handled in slices of 64, of which the vector code takes the multiples of eight.\<close>

definition vector_column :: "bool \<Rightarrow> nat \<Rightarrow> nat \<Rightarrow> bool" where
  "vector_column simd w x =
     (let x0 = 64 * (x div 64); slice = min (x0 + 64) w - x0 in simd \<and> x - x0 < 8 * (slice div 8))"

definition InvHSqueeze :: "bool \<Rightarrow> (nat \<Rightarrow> nat \<Rightarrow> i32) \<Rightarrow> Image \<Rightarrow> nat \<Rightarrow> nat \<Rightarrow> Image outcome" where
  "InvHSqueeze simd mem input c rc =
     (if \<not> c < length (channel input) \<or> \<not> rc < length (channel input) then Inl kGenericError
      else let chin = channel input ! c; chin_residual = channel input ! rc
      in if \<not> ch_w chin = DivCeil (ch_w chin + ch_w chin_residual) 2 \<or> \<not> ch_h chin = ch_h chin_residual then Inl kGenericError
      else if ch_w chin_residual = 0 then Inr (input\<lparr> channel := (channel input)[c := chin\<lparr> hshift := hshift chin - 1 \<rparr>] \<rparr>)
      else let chout = Channel_Create mem (ch_w chin + ch_w chin_residual) (ch_h chin) (hshift chin - 1) (vshift chin)
      in if ch_h chin_residual = 0 then Inr (input\<lparr> channel := (channel input)[c := chout] \<rparr>)
      else let px_rows = map (\<lambda>y. unsqueeze_row (vector_pairs simd (min 8 (ch_h chin - 8 * (y div 8))) (ch_w chin_residual)) 0 0
                                 (plane chin_residual ! y) (plane chin ! y)) [0..<ch_h chin]
      in Inr (input\<lparr> channel := (channel input)[c := chout\<lparr> plane := px_rows \<rparr>] \<rparr>))"

definition InvVSqueeze :: "bool \<Rightarrow> (nat \<Rightarrow> nat \<Rightarrow> i32) \<Rightarrow> Image \<Rightarrow> nat \<Rightarrow> nat \<Rightarrow> Image outcome" where
  "InvVSqueeze simd mem input c rc =
     (if \<not> c < length (channel input) \<or> \<not> rc < length (channel input) then Inl kGenericError
      else let chin = channel input ! c; chin_residual = channel input ! rc
      in if \<not> ch_h chin = DivCeil (ch_h chin + ch_h chin_residual) 2 \<or> \<not> ch_w chin = ch_w chin_residual then Inl kGenericError
      else if ch_h chin_residual = 0 then Inr (input\<lparr> channel := (channel input)[c := chin\<lparr> vshift := vshift chin - 1 \<rparr>] \<rparr>)
      else let chout = Channel_Create mem (ch_w chin) (ch_h chin + ch_h chin_residual) (hshift chin) (vshift chin - 1)
      in if ch_w chin_residual = 0 then Inr (input\<lparr> channel := (channel input)[c := chout] \<rparr>)
      else let px_rows = unsqueeze_rows (vector_column simd (ch_w chin)) (ch_w chin) 0 [] (plane chin_residual) (plane chin)
      in Inr (input\<lparr> channel := (channel input)[c := chout\<lparr> plane := px_rows \<rparr>] \<rparr>))"

definition list_insert :: "nat \<Rightarrow> 'a \<Rightarrow> 'a list \<Rightarrow> 'a list" where
  "list_insert k v l = take k l @ v # drop k l"

definition FwdHSqueeze :: "Image \<Rightarrow> nat \<Rightarrow> nat \<Rightarrow> Image" where
  "FwdHSqueeze input c rc =
     (let chin = channel input ! c; w = (ch_w chin + 1) div 2; px_rows = map (squeeze_row 0 0) (plane chin);
          chout = \<lparr> plane = map fst px_rows, ch_w = w, ch_h = ch_h chin, hshift = hshift chin + 1, vshift = vshift chin,
                    component = component chin \<rparr>;
          chout_residual = \<lparr> plane = map snd px_rows, ch_w = ch_w chin - w, ch_h = ch_h chin, hshift = hshift chin + 1,
                             vshift = vshift chin, component = component chin \<rparr>
      in input\<lparr> channel := list_insert rc chout_residual ((channel input)[c := chout]) \<rparr>)"

definition FwdVSqueeze :: "Image \<Rightarrow> nat \<Rightarrow> nat \<Rightarrow> Image" where
  "FwdVSqueeze input c rc =
     (let chin = channel input ! c; h = (ch_h chin + 1) div 2; px_rows = squeeze_rows (ch_w chin) 0 [] (plane chin);
          chout = \<lparr> plane = fst px_rows, ch_w = ch_w chin, ch_h = h, hshift = hshift chin, vshift = vshift chin + 1,
                    component = component chin \<rparr>;
          chout_residual = \<lparr> plane = snd px_rows, ch_w = ch_w chin, ch_h = ch_h chin - h, hshift = hshift chin,
                             vshift = vshift chin + 1, component = component chin \<rparr>
      in input\<lparr> channel := list_insert rc chout_residual ((channel input)[c := chout]) \<rparr>)"

subsection \<open>Whole images\<close>

record SqueezeParams =
  horizontal :: bool
  in_place :: bool
  sq_begin_c :: u32
  sq_num_c :: u32

text \<open>Channel indices stay far below \<open>2 ^ 31\<close>, so that their sums do not overflow.\<close>

definition CheckMetaSqueezeParams :: "SqueezeParams \<Rightarrow> nat \<Rightarrow> bool" where
  "CheckMetaSqueezeParams p num_channels =
     (let c1 = int (unat (sq_begin_c p)); c2 = int (unat (sq_begin_c p)) + int (unat (sq_num_c p)) - 1
      in \<not> (c1 < 0 \<or> c1 \<ge> int num_channels \<or> c2 < 0 \<or> c2 \<ge> int num_channels \<or> c2 < c1))"

definition endc :: "SqueezeParams \<Rightarrow> nat" where
  "endc p = unat (sq_begin_c p) + unat (sq_num_c p) - 1"

definition kMaxFirstPreviewSize :: nat where "kMaxFirstPreviewSize = 8"

function default_squeezes :: "u32 \<Rightarrow> u32 \<Rightarrow> nat \<Rightarrow> nat \<Rightarrow> SqueezeParams list" where
  "default_squeezes begin_c num_c w h =
     (if w > kMaxFirstPreviewSize \<or> h > kMaxFirstPreviewSize
      then (if w > kMaxFirstPreviewSize
            then [\<lparr> horizontal = True, in_place = True, sq_begin_c = begin_c, sq_num_c = num_c \<rparr>] else []) @
           (if h > kMaxFirstPreviewSize
            then [\<lparr> horizontal = False, in_place = True, sq_begin_c = begin_c, sq_num_c = num_c \<rparr>] else []) @
           default_squeezes begin_c num_c (if w > kMaxFirstPreviewSize then (w + 1) div 2 else w)
             (if h > kMaxFirstPreviewSize then (h + 1) div 2 else h)
      else [])"
  by pat_completeness auto
termination by (relation "measure (\<lambda>(b, n, w, h). w + h)") (auto simp: kMaxFirstPreviewSize_def)

declare default_squeezes.simps [simp del]

definition DefaultSqueezeParameters :: "Image \<Rightarrow> SqueezeParams list" where
  "DefaultSqueezeParameters img =
     (let nb_channels = length (channel img) - nb_meta_channels img; nb = nb_meta_channels img;
          w = ch_w (channel img ! nb); h = ch_h (channel img ! nb); wide = w > h;
          chroma = (if nb_channels > 2 \<and> ch_w (channel img ! (nb + 1)) = w \<and> ch_h (channel img ! (nb + 1)) = h
                    then [\<lparr> horizontal = True, in_place = False, sq_begin_c = of_nat (nb + 1), sq_num_c = 2 \<rparr>,
                          \<lparr> horizontal = False, in_place = False, sq_begin_c = of_nat (nb + 1), sq_num_c = 2 \<rparr>] else []);
          vertical_first = \<not> wide \<and> h > kMaxFirstPreviewSize
      in chroma @
         (if vertical_first
          then [\<lparr> horizontal = False, in_place = True, sq_begin_c = of_nat nb, sq_num_c = of_nat nb_channels \<rparr>] else []) @
         default_squeezes (of_nat nb) (of_nat nb_channels) w (if vertical_first then (h + 1) div 2 else h))"

definition fwd_squeeze_step :: "SqueezeParams \<Rightarrow> Image \<Rightarrow> Image" where
  "fwd_squeeze_step p input =
     (let beginc = unat (sq_begin_c p); offset = (if in_place p then endc p + 1 else length (channel input))
      in foldl (\<lambda>input c. (if horizontal p then FwdHSqueeze else FwdVSqueeze) input c (offset + c - beginc))
           input [beginc..<endc p + 1])"

fun fwd_squeezes :: "SqueezeParams list \<Rightarrow> Image \<Rightarrow> Image outcome" where
  "fwd_squeezes [] input = Inr input"
| "fwd_squeezes (p # ps) input =
     (if \<not> CheckMetaSqueezeParams p (length (channel input)) then Inl kGenericError
      else fwd_squeezes ps (fwd_squeeze_step p input))"

definition FwdSqueeze :: "Image \<Rightarrow> SqueezeParams list \<Rightarrow> Image outcome" where
  "FwdSqueeze input parameters =
     (let parameters = (if parameters = [] then DefaultSqueezeParameters input else parameters)
      in if parameters = [] then Inl kGenericError else fwd_squeezes parameters input)"

fun inv_channels :: "bool \<Rightarrow> (nat \<Rightarrow> nat \<Rightarrow> i32) \<Rightarrow> bool \<Rightarrow> nat \<Rightarrow> nat \<Rightarrow> nat list \<Rightarrow> Image \<Rightarrow> Image outcome" where
  "inv_channels simd mem hor beginc offset [] input = Inr input"
| "inv_channels simd mem hor beginc offset (c # cs) input =
     (let rc = offset + c - beginc
      in if \<not> rc < length (channel input) then Inl kGenericError
      else if ch_w (channel input ! c) < ch_w (channel input ! rc) \<or> ch_h (channel input ! c) < ch_h (channel input ! rc)
      then Inl kGenericError
      else case (if hor then InvHSqueeze else InvVSqueeze) simd mem input c rc of
             Inl e \<Rightarrow> Inl e
           | Inr input \<Rightarrow> inv_channels simd mem hor beginc offset cs input)"

definition inv_squeeze_step :: "bool \<Rightarrow> (nat \<Rightarrow> nat \<Rightarrow> i32) \<Rightarrow> SqueezeParams \<Rightarrow> Image \<Rightarrow> Image outcome" where
  "inv_squeeze_step simd mem p input =
     (if \<not> CheckMetaSqueezeParams p (length (channel input)) then Inl kGenericError
      else let beginc = unat (sq_begin_c p);
               offset = (if in_place p then endc p + 1 else length (channel input) + beginc - endc p - 1)
      in if beginc < nb_meta_channels input \<and> \<not> nb_meta_channels input > unat (sq_num_c p) then Inl kGenericError
      else let input = (if beginc < nb_meta_channels input
                        then input\<lparr> nb_meta_channels := nb_meta_channels input - unat (sq_num_c p) \<rparr> else input)
      in case inv_channels simd mem (horizontal p) beginc offset [beginc..<endc p + 1] input of
           Inl e \<Rightarrow> Inl e
         | Inr input \<Rightarrow> Inr (input\<lparr> channel := take offset (channel input) @ drop (offset + (endc p - beginc + 1)) (channel input) \<rparr>))"

fun inv_squeezes :: "bool \<Rightarrow> (nat \<Rightarrow> nat \<Rightarrow> i32) \<Rightarrow> SqueezeParams list \<Rightarrow> Image \<Rightarrow> Image outcome" where
  "inv_squeezes simd mem [] input = Inr input"
| "inv_squeezes simd mem (p # ps) input =
     (case inv_squeeze_step simd mem p input of Inl e \<Rightarrow> Inl e | Inr input \<Rightarrow> inv_squeezes simd mem ps input)"

definition InvSqueeze :: "bool \<Rightarrow> (nat \<Rightarrow> nat \<Rightarrow> i32) \<Rightarrow> Image \<Rightarrow> SqueezeParams list \<Rightarrow> Image outcome" where
  "InvSqueeze simd mem input parameters = inv_squeezes simd mem (rev parameters) input"

text \<open>The layout of the channels, as the decoder computes it before it reads any pixel.\<close>

definition meta_channel :: "bool \<Rightarrow> (nat \<Rightarrow> nat \<Rightarrow> i32) \<Rightarrow> nat \<Rightarrow> nat \<Rightarrow> Image \<Rightarrow> Image outcome" where
  "meta_channel hor mem c rc img =
     (let ch = channel img ! c; w = ch_w ch; h = ch_h ch
      in if hshift ch > 30 \<or> vshift ch > 30 then Inl kGenericError
      else if w = 0 \<or> h = 0 then Inl kGenericError
      else let nw = (if hor then (w + 1) div 2 else w); nh = (if hor then h else (h + 1) div 2);
               ch' = ch\<lparr> ch_w := nw, ch_h := nh,
                         hshift := (if hor \<and> hshift ch \<ge> 0 then hshift ch + 1 else hshift ch),
                         vshift := (if \<not> hor \<and> vshift ch \<ge> 0 then vshift ch + 1 else vshift ch) \<rparr>;
               ch' = (if nw = w \<and> nh = h then ch' else ch'\<lparr> plane := plane (Channel_Create mem nw nh 0 0) \<rparr>);
               placeholder = (Channel_Create mem (if hor then w - nw else w) (if hor then h else h - nh) 0 0)
                 \<lparr> hshift := hshift ch', vshift := vshift ch', component := component ch' \<rparr>
      in Inr (img\<lparr> channel := list_insert rc placeholder ((channel img)[c := ch']) \<rparr>))"

fun meta_channels :: "bool \<Rightarrow> (nat \<Rightarrow> nat \<Rightarrow> i32) \<Rightarrow> nat \<Rightarrow> nat \<Rightarrow> nat list \<Rightarrow> Image \<Rightarrow> Image outcome" where
  "meta_channels hor mem beginc offset [] img = Inr img"
| "meta_channels hor mem beginc offset (c # cs) img =
     (case meta_channel hor mem c (offset + (c - beginc)) img of
        Inl e \<Rightarrow> Inl e
      | Inr img \<Rightarrow> meta_channels hor mem beginc offset cs img)"

fun meta_squeezes :: "(nat \<Rightarrow> nat \<Rightarrow> i32) \<Rightarrow> SqueezeParams list \<Rightarrow> Image \<Rightarrow> Image outcome" where
  "meta_squeezes mem [] img = Inr img"
| "meta_squeezes mem (p # ps) img =
     (if \<not> CheckMetaSqueezeParams p (length (channel img)) then Inl kGenericError
      else let beginc = unat (sq_begin_c p)
      in if beginc < nb_meta_channels img \<and> (endc p \<ge> nb_meta_channels img \<or> \<not> in_place p) then Inl kGenericError
      else let img = (if beginc < nb_meta_channels img
                      then img\<lparr> nb_meta_channels := nb_meta_channels img + unat (sq_num_c p) \<rparr> else img);
               offset = (if in_place p then endc p + 1 else length (channel img))
      in case meta_channels (horizontal p) mem beginc offset [beginc..<endc p + 1] img of
           Inl e \<Rightarrow> Inl e
         | Inr img \<Rightarrow> meta_squeezes mem ps img)"

text \<open>It returns the parameters it used, because it replaces an empty list by the default.\<close>

definition MetaSqueeze :: "(nat \<Rightarrow> nat \<Rightarrow> i32) \<Rightarrow> Image \<Rightarrow> SqueezeParams list \<Rightarrow> (SqueezeParams list \<times> Image) outcome" where
  "MetaSqueeze mem img parameters =
     (let parameters = (if parameters = [] then DefaultSqueezeParameters img else parameters)
      in case meta_squeezes mem parameters img of Inl e \<Rightarrow> Inl e | Inr img \<Rightarrow> Inr (parameters, img))"

section \<open>The vector step computes the scalar step\<close>

lemma sint_W: "- (2 ^ 31) \<le> k \<Longrightarrow> k < 2 ^ 31 \<Longrightarrow> sint (word_of_int k :: i32) = k"
  by (simp add: signed_of_int signed_take_bit_int_eq_self)

lemma sint_nonneg: "0 \<le> k \<Longrightarrow> k < 2 ^ 31 \<Longrightarrow> sint (word_of_int k :: i32) = k"
  by (rule sint_W) simp_all

lemma W_sint: "word_of_int (sint (w :: i32)) = w" by simp

lemma sdrop_W: "- (2 ^ 31) \<le> k \<Longrightarrow> k < 2 ^ 31 \<Longrightarrow> signed_drop_bit n (word_of_int k :: i32) = word_of_int (k div 2 ^ n)"
proof -
  assume k: "- (2 ^ 31) \<le> k" "k < 2 ^ 31"
  have "sint (signed_drop_bit n (word_of_int k :: i32)) = k div 2 ^ n"
    using k by (simp add: sint_signed_drop_bit_eq drop_bit_eq_div sint_W)
  then show ?thesis by (metis W_sint)
qed

lemma int_and_1: "(k :: int) AND 1 = k mod 2" by (simp add: and_one_eq mod2_eq_if)

lemma and_1_W: "(word_of_int k :: i32) AND 1 = word_of_int (k mod 2)"
  unfolding int_and_1 [symmetric] of_int_and_eq of_int_1 ..

lemma push_W: "push_bit 1 (word_of_int k :: i32) = word_of_int (2 * k)"
  by (simp add: push_bit_eq_mult)

lemma vec_abs_W: "\<bar>k\<bar> < 2 ^ 31 \<Longrightarrow> vec_abs (word_of_int k) = word_of_int \<bar>k\<bar>"
proof -
  assume k: "\<bar>k\<bar> < 2 ^ 31"
  then have "sint (word_of_int k :: i32) = k" by (intro sint_W) simp_all
  then show ?thesis by (simp add: vec_abs_def abs_if)
qed

lemma mul_high_third: "0 \<le> k \<Longrightarrow> k < 2 ^ 31 \<Longrightarrow> mul_high (word_of_int k) 0x55555556 = word_of_int (k div 3)"
proof -
  assume k: "0 \<le> k" "k < 2 ^ 31"
  have "sint (0x55555556 :: i32) = 0x55555556" by simp
  moreover have "sint (word_of_int k :: i32) = k" using k by (intro sint_W) simp_all
  moreover have "k * 0x55555556 div 2 ^ 32 = k div 3"
  proof (rule int_div_pos_eq)
    define q r where qr: "q = k div 3" "r = k mod 3"
    then have e: "k = 3 * q + r" "0 \<le> r" "r < 3" by simp_all
    show "k * 0x55555556 = 2 ^ 32 * (k div 3) + (2 * q + r * 0x55555556)" unfolding qr(1) [symmetric] by (simp add: e(1))
    show "0 \<le> 2 * q + r * 0x55555556" using e k by (simp add: qr)
    show "2 * q + r * 0x55555556 < 2 ^ 32" using e k by (cases "r = 0"; cases "r = 1"; cases "r = 2") auto
  qed
  ultimately show ?thesis by (simp add: mul_high_def drop_bit_eq_div)
qed

text \<open>The branch-free slope on integers.\<close>

definition fast_tendency :: "int \<Rightarrow> int \<Rightarrow> int \<Rightarrow> int" where
  "fast_tendency b a n =
     (let d = (\<bar>b - a\<bar> div 3 + (\<bar>b - n\<bar> + 2)) div 4;
          d = (if d > 2 * \<bar>b - a\<bar> + d mod 2 then 2 * \<bar>b - a\<bar> + 1 else d);
          d = (if d + d mod 2 > 2 * \<bar>a - n\<bar> then 2 * \<bar>a - n\<bar> else d)
      in if b - a \<noteq> 0 \<and> a - n \<noteq> 0 \<and> (b < a) \<noteq> (a < n) then 0 else if b < n then - d else d)"

lemma sdiv_12: "(k :: int) sdiv 12 = (if k < 0 then - (- k div 12) else k div 12)"
  by (simp add: signed_divide_int_def sgn_if)

lemma div_12: "(3 * x + y + 6) div 12 = (y div 3 + (x + 2)) div (4 :: int)"
proof -
  have "(3 * x + y + 6) div (3 * 4) = (3 * x + y + 6) div 3 div 4" by (rule zdiv_zmult2_eq) simp
  moreover have "(3 * x + y + 6) div 3 = y div 3 + (x + 2)" using div_mult_self2 [of 3 y "x + 2"] by (simp add: algebra_simps)
  ultimately show ?thesis by simp
qed

lemma fast_tendency_eq: "fast_tendency b a n = SmoothTendency b a n"
proof -
  consider "b \<ge> a" "a \<ge> n" | "b \<le> a" "a \<le> n" "\<not> (b \<ge> a \<and> a \<ge> n)" | "\<not> (b \<ge> a \<and> a \<ge> n)" "\<not> (b \<le> a \<and> a \<le> n)" by blast
  then show ?thesis
  proof cases
    case 1
    have d: "(4 * b - 3 * n - a + 6) sdiv 12 = (\<bar>b - a\<bar> div 3 + (\<bar>b - n\<bar> + 2)) div 4"
    proof -
      have e: "4 * b - 3 * n - a + 6 = 3 * (b - n) + (b - a) + 6" "\<not> 3 * (b - n) + (b - a) + 6 < 0" "\<bar>b - a\<bar> = b - a" "\<bar>b - n\<bar> = b - n"
        using 1 by simp_all
      show ?thesis unfolding e(1,3,4) sdiv_12 if_not_P [OF e(2)] by (rule div_12)
    qed
    define D where "D = (\<bar>b - a\<bar> div 3 + (\<bar>b - n\<bar> + 2)) div 4"
    define D' where "D' = (if D > 2 * (b - a) + D mod 2 then 2 * (b - a) + 1 else D)"
    have abs: "\<bar>b - a\<bar> = b - a" "\<bar>a - n\<bar> = a - n" "\<not> b < n" "\<not> (b - a \<noteq> 0 \<and> a - n \<noteq> 0 \<and> (b < a) \<noteq> (a < n))"
      using 1 by auto
    have c: "D - D mod 2 > 2 * (b - a) \<longleftrightarrow> D > 2 * (b - a) + D mod 2" by linarith
    have "SmoothTendency b a n = (if D' + D' mod 2 > 2 * (a - n) then 2 * (a - n) else D')"
      unfolding SmoothTendency_def if_P [OF conjI [OF 1]] d int_and_1 Let_def D_def [symmetric] c D'_def [symmetric] ..
    moreover have "fast_tendency b a n = (if D' + D' mod 2 > 2 * (a - n) then 2 * (a - n) else D')"
      unfolding fast_tendency_def Let_def unfolding D_def [symmetric] unfolding abs(1,2) unfolding D'_def [symmetric] if_not_P [OF abs(4)] if_not_P [OF abs(3)] ..
    ultimately show ?thesis by simp
  next
    case 2
    have d: "(4 * b - 3 * n - a - 6) sdiv 12 = - ((\<bar>b - a\<bar> div 3 + (\<bar>b - n\<bar> + 2)) div 4)"
    proof -
      have e: "4 * b - 3 * n - a - 6 = - (3 * (n - b) + (a - b) + 6)" "- (3 * (n - b) + (a - b) + 6) < 0" "\<bar>b - a\<bar> = a - b" "\<bar>b - n\<bar> = n - b"
        using 2 by simp_all
      show ?thesis unfolding e(1,3,4) sdiv_12 if_P [OF e(2)] minus_minus div_12 ..
    qed
    define D where "D = (\<bar>b - a\<bar> div 3 + (\<bar>b - n\<bar> + 2)) div 4"
    define D' where "D' = (if D > 2 * (a - b) + D mod 2 then 2 * (a - b) + 1 else D)"
    have abs: "\<bar>b - a\<bar> = a - b" "\<bar>a - n\<bar> = n - a" "b < n" "\<not> (b - a \<noteq> 0 \<and> a - n \<noteq> 0 \<and> (b < a) \<noteq> (a < n))"
      using 2 by auto
    have m: "(- k) mod 2 = k mod (2 :: int)" for k by (simp add: mod2_eq_if)
    have c: "- D + D mod 2 < 2 * (b - a) \<longleftrightarrow> D > 2 * (a - b) + D mod 2" by auto
    have e: "(if D > 2 * (a - b) + D mod 2 then 2 * (b - a) - 1 else - D) = - D'" by (simp add: D'_def)
    have c': "- D' - D' mod 2 < 2 * (a - n) \<longleftrightarrow> D' + D' mod 2 > 2 * (n - a)" by auto
    have "SmoothTendency b a n = (if D' + D' mod 2 > 2 * (n - a) then 2 * (a - n) else - D')"
      unfolding SmoothTendency_def if_not_P [OF 2(3)] if_P [OF conjI [OF 2(1,2)]] d int_and_1 Let_def D_def [symmetric] m c e c' ..
    moreover have "fast_tendency b a n = (if D' + D' mod 2 > 2 * (n - a) then - (2 * (n - a)) else - D')"
      unfolding fast_tendency_def Let_def unfolding D_def [symmetric] unfolding abs(1,2) unfolding D'_def [symmetric] if_not_P [OF abs(4)] if_P [OF abs(3)] by simp
    ultimately show ?thesis by simp
  next
    case 3
    then have c: "b - a \<noteq> 0 \<and> a - n \<noteq> 0 \<and> (b < a) \<noteq> (a < n)" by auto
    show ?thesis unfolding SmoothTendency_def fast_tendency_def Let_def if_not_P [OF 3(1)] if_not_P [OF 3(2)] if_P [OF c] ..
  qed
qed

lemma tendency_bound:
  assumes "\<bar>b\<bar> < 2 ^ 29" "\<bar>a\<bar> < 2 ^ 29" "\<bar>n\<bar> < 2 ^ 29"
  shows "\<bar>SmoothTendency b a n\<bar> \<le> 2 ^ 29"
proof -
  define D where "D = (\<bar>b - a\<bar> div 3 + (\<bar>b - n\<bar> + 2)) div 4"
  define D' where "D' = (if D > 2 * \<bar>b - a\<bar> + D mod 2 then 2 * \<bar>b - a\<bar> + 1 else D)"
  define D'' where "D'' = (if D' + D' mod 2 > 2 * \<bar>a - n\<bar> then 2 * \<bar>a - n\<bar> else D')"
  have "\<bar>b - a\<bar> div 3 \<le> \<bar>b - a\<bar>" by simp
  then have "\<bar>b - a\<bar> div 3 + (\<bar>b - n\<bar> + 2) \<le> 4 * 2 ^ 29" "0 \<le> \<bar>b - a\<bar> div 3 + (\<bar>b - n\<bar> + 2)" using assms by auto
  then have D: "0 \<le> D" "D \<le> 2 ^ 29" unfolding D_def by simp_all
  have m: "0 \<le> x mod 2" "x mod 2 \<le> 1" for x :: int by simp_all
  have "0 \<le> D'" "D' \<le> D" unfolding D'_def using D m [of D] by auto
  then have "0 \<le> D''" "D'' \<le> 2 ^ 29" unfolding D''_def using D(2) m [of D'] by auto
  moreover have "fast_tendency b a n \<in> {0, D'', - D''}"
    unfolding fast_tendency_def Let_def D_def [symmetric] D'_def [symmetric] D''_def [symmetric] by simp
  ultimately show ?thesis by (auto simp: fast_tendency_eq)
qed

lemma sign_bit: "drop_bit 31 (w :: i32) = (if sint w < 0 then 1 else 0)"
proof (rule bit_word_eqI)
  fix i assume "i < LENGTH(32)"
  moreover have "bit w 31 \<longleftrightarrow> sint w < 0" using bit_last_iff [of w] by simp
  ultimately show "bit (drop_bit 31 w) i \<longleftrightarrow> bit (if sint w < 0 then 1 else 0 :: i32) i"
    by (cases i) (auto simp: bit_drop_bit_eq bit_1_iff dest: bit_imp_le_length)
qed

text \<open>The intermediate results are the words of the integer results as long as nothing leaves 32 bits.\<close>

lemma FastUnsqueeze_eq:
  assumes "\<bar>sint upper\<bar> < 2 ^ 29" "\<bar>sint avg\<bar> < 2 ^ 29" "\<bar>sint next_avg\<bar> < 2 ^ 29" "\<bar>sint residual\<bar> < 2 ^ 31 - 2 ^ 29"
  shows "FastUnsqueeze residual avg next_avg upper = unsqueeze_scalar residual avg next_avg upper"
proof -
  define b a n r where v: "b = sint upper" "a = sint avg" "n = sint next_avg" "r = sint residual"
  let ?W = "word_of_int :: int \<Rightarrow> i32"
  have w: "upper = ?W b" "avg = ?W a" "next_avg = ?W n" "residual = ?W r" by (simp_all add: v)
  have R: "\<bar>b\<bar> < 2 ^ 29" "\<bar>a\<bar> < 2 ^ 29" "\<bar>n\<bar> < 2 ^ 29" "\<bar>r\<bar> < 2 ^ 31 - 2 ^ 29" using assms by (simp_all add: v)
  have x: "\<bar>b - a\<bar> < 2 ^ 30" "\<bar>a - n\<bar> < 2 ^ 30" "\<bar>b - n\<bar> < 2 ^ 30" using R by auto
  have sub: "upper - avg = ?W (b - a)" "avg - next_avg = ?W (a - n)" "upper - next_avg = ?W (b - n)" by (simp_all add: w)
  have va: "vec_abs (?W (b - a)) = ?W \<bar>b - a\<bar>" "vec_abs (?W (a - n)) = ?W \<bar>a - n\<bar>" "vec_abs (?W (b - n)) = ?W \<bar>b - n\<bar>"
    using x by (intro vec_abs_W; simp)+
  have mh: "mul_high (?W \<bar>b - a\<bar>) 0x55555556 = ?W (\<bar>b - a\<bar> div 3)" using x by (intro mul_high_third) simp_all
  define A where "A = \<bar>b - a\<bar> div 3 + (\<bar>b - n\<bar> + 2)"
  have "0 \<le> y \<Longrightarrow> 2 * (y div 3) \<le> y" "0 \<le> y \<Longrightarrow> 0 \<le> y div 3" for y :: int by presburger+
  then have "2 * (\<bar>b - a\<bar> div 3) \<le> \<bar>b - a\<bar>" "0 \<le> \<bar>b - a\<bar> div 3" by simp_all
  then have A: "0 \<le> A" "A < 2 ^ 31" using x unfolding A_def by simp_all
  have a3: "?W (\<bar>b - a\<bar> div 3) + (?W \<bar>b - n\<bar> + 2) = ?W A" by (simp add: A_def)
  define D where "D = A div 4"
  have D: "0 \<le> D" "D < 2 ^ 29" using A unfolding D_def by simp_all
  have sd: "signed_drop_bit 2 (?W A) = ?W D" using sdrop_W [of A 2] A by (simp add: D_def)
  have m: "0 \<le> x mod 2" "x mod 2 \<le> 1" for x :: int by simp_all
  have p2: "?W (2 * \<bar>b - a\<bar>) + (?W D AND 1) = ?W (2 * \<bar>b - a\<bar> + D mod 2)" unfolding and_1_W by simp
  have p2': "?W (2 * \<bar>b - a\<bar>) + 1 = ?W (2 * \<bar>b - a\<bar> + 1)" by simp
  have s1: "sint (?W D) = D" "sint (?W (2 * \<bar>b - a\<bar> + D mod 2)) = 2 * \<bar>b - a\<bar> + D mod 2"
  proof -
    have "0 \<le> 2 * \<bar>b - a\<bar> + D mod 2" by (intro add_nonneg_nonneg) simp_all
    moreover have "2 * \<bar>b - a\<bar> + D mod 2 < 2 ^ 31" using x(1) m(2) [of D] by simp
    ultimately show "sint (?W (2 * \<bar>b - a\<bar> + D mod 2)) = 2 * \<bar>b - a\<bar> + D mod 2" by (rule sint_nonneg)
    show "sint (?W D) = D" using D by (simp add: sint_W)
  qed
  define D' where "D' = (if D > 2 * \<bar>b - a\<bar> + D mod 2 then 2 * \<bar>b - a\<bar> + 1 else D)"
  have D': "0 \<le> D'" "D' < 2 ^ 29" unfolding D'_def using D m [of D] by auto
  have i1: "(if D > 2 * \<bar>b - a\<bar> + D mod 2 then ?W (2 * \<bar>b - a\<bar> + 1) else ?W D) = ?W D'" by (simp add: D'_def)
  have p3: "?W D' + (?W D' AND 1) = ?W (D' + D' mod 2)" unfolding and_1_W by simp
  have s2: "sint (?W (D' + D' mod 2)) = D' + D' mod 2" "sint (?W (2 * \<bar>a - n\<bar>)) = 2 * \<bar>a - n\<bar>"
  proof -
    have "0 \<le> D' + D' mod 2" using D'(1) by (intro add_nonneg_nonneg) simp_all
    moreover have "D' + D' mod 2 < 2 ^ 31" using D'(2) m(2) [of D'] by simp
    ultimately show "sint (?W (D' + D' mod 2)) = D' + D' mod 2" by (rule sint_nonneg)
    have "0 \<le> 2 * \<bar>a - n\<bar>" by simp
    moreover have "2 * \<bar>a - n\<bar> < 2 ^ 31" using x(2) by simp
    ultimately show "sint (?W (2 * \<bar>a - n\<bar>)) = 2 * \<bar>a - n\<bar>" by (rule sint_nonneg)
  qed
  define D'' where "D'' = (if D' + D' mod 2 > 2 * \<bar>a - n\<bar> then 2 * \<bar>a - n\<bar> else D')"
  have i2: "(if D' + D' mod 2 > 2 * \<bar>a - n\<bar> then ?W (2 * \<bar>a - n\<bar>) else ?W D') = ?W D''" by (simp add: D''_def)
  have sx: "sint (?W (b - a)) = b - a" "sint (?W (a - n)) = a - n" using x by (intro sint_W; simp)+
  have sk: "?W (b - a) \<noteq> 0 \<and> ?W (a - n) \<noteq> 0 \<and> sint (?W (b - a) XOR ?W (a - n)) < 0 \<longleftrightarrow>
      b - a \<noteq> 0 \<and> a - n \<noteq> 0 \<and> (b < a) \<noteq> (a < n)"
  proof -
    have "?W k = 0 \<longleftrightarrow> k = 0" if "sint (?W k) = k" for k
    proof
      assume "?W k = 0"
      then show "k = 0" using that by simp
    qed simp
    then have "?W (b - a) = 0 \<longleftrightarrow> b - a = 0" "?W (a - n) = 0 \<longleftrightarrow> a - n = 0" using sx by blast+
    moreover have "sint (?W (b - a) XOR ?W (a - n)) < 0 \<longleftrightarrow> (b - a < 0) \<noteq> (a - n < 0)" unfolding signed_xor_eq sx by simp
    ultimately show ?thesis by auto
  qed
  let ?t = "fast_tendency b a n"
  have t: "?t = (if b - a \<noteq> 0 \<and> a - n \<noteq> 0 \<and> (b < a) \<noteq> (a < n) then 0 else if b < n then - D'' else D'')"
    unfolding fast_tendency_def Let_def A_def [symmetric] D_def [symmetric] D'_def [symmetric] D''_def [symmetric] ..
  have tw: "(if b - a \<noteq> 0 \<and> a - n \<noteq> 0 \<and> (b < a) \<noteq> (a < n) then 0 else if b < n then - ?W D'' else ?W D'') = ?W ?t"
    unfolding t by simp
  have tb: "\<bar>?t\<bar> \<le> 2 ^ 29" using tendency_bound [OF R(1-3)] by (simp add: fast_tendency_eq)
  define d where "d = r + ?t"
  have d: "- (2 ^ 31) < d" "d < 2 ^ 31" unfolding d_def using tb R(4) by auto
  have dw: "?W r + ?W ?t = ?W d" by (simp add: d_def)
  have half: "?W a + signed_drop_bit 1 (?W d + drop_bit 31 (?W d)) = ?W (a + d sdiv 2)"
  proof -
    have "sint (?W d) = d" using d by (intro sint_W) simp_all
    then have "drop_bit 31 (?W d) = (if d < 0 then 1 else 0)" by (simp add: sign_bit)
    then have "?W d + drop_bit 31 (?W d) = ?W (if d < 0 then d + 1 else d)" by simp
    moreover have "signed_drop_bit 1 (?W (if d < 0 then d + 1 else d)) = ?W ((if d < 0 then d + 1 else d) div 2)"
      using sdrop_W [of "if d < 0 then d + 1 else d" 1] d by simp
    moreover have "(if d < 0 then d + 1 else d) div 2 = d sdiv 2"
      by (simp add: signed_divide_int_def sgn_if) presburger
    ultimately show ?thesis by simp
  qed
  have F: "FastUnsqueeze residual avg next_avg upper = (?W (a + d sdiv 2), ?W (a + d sdiv 2) - ?W d)"
    unfolding FastUnsqueeze_def Let_def sub va mh a3 sd push_W p2 p2' s1 i1 p3 s2 i2 sk v(1) [symmetric] v(3) [symmetric] tw
    unfolding w(4) dw unfolding w(2) half ..
  show ?thesis unfolding F unsqueeze_scalar_def Let_def v [symmetric] fast_tendency_eq [symmetric] d_def [symmetric] by simp
qed

section \<open>Squeezing and unsqueezing rows and planes\<close>

definition in_range :: "i32 \<Rightarrow> bool" where "in_range p \<longleftrightarrow> \<bar>sint p\<bar> < 2 ^ 29"

lemma AVERAGE_value:
  assumes "in_range A" "in_range B"
  shows "sint (AVERAGE A B) = (sint A + sint B + (if sint A > sint B then 1 else 0)) div 2" "in_range (AVERAGE A B)"
proof -
  let ?k = "sint A + sint B + (if sint A > sint B then 1 else 0)"
  have k: "- (2 ^ 30) < ?k" "?k < 2 ^ 30 + 1" using assms unfolding in_range_def by auto
  have "A + B + (if sint A > sint B then 1 else 0) = word_of_int ?k" by simp
  then have "AVERAGE A B = word_of_int (?k div 2)" using sdrop_W [of ?k 1] k by (simp add: AVERAGE_def)
  moreover have r: "\<bar>?k div 2\<bar> < 2 ^ 29" using assms unfolding in_range_def by auto
  ultimately show "sint (AVERAGE A B) = ?k div 2" using sint_W [of "?k div 2"] by simp
  then show "in_range (AVERAGE A B)" using r unfolding in_range_def by simp
qed

text \<open>One pair of pixels is restored, by both versions of the step.\<close>

lemma unsqueeze_step_inverse:
  assumes "in_range A" "in_range B" "in_range next_avg" "in_range left"
  shows "unsqueeze_step fast (squeeze_residual A B (AVERAGE A B) next_avg left) (AVERAGE A B) next_avg left = (A, B)"
proof -
  define a b t where v: "a = sint A" "b = sint B" "t = SmoothTendency (sint left) (sint (AVERAGE A B)) (sint next_avg)"
  note avg = AVERAGE_value [OF assms(1,2)]
  have R: "\<bar>a\<bar> < 2 ^ 29" "\<bar>b\<bar> < 2 ^ 29" using assms(1,2) by (simp_all add: in_range_def v)
  have t: "\<bar>t\<bar> \<le> 2 ^ 29" using tendency_bound assms(3,4) avg(2) unfolding v in_range_def by blast
  let ?r = "squeeze_residual A B (AVERAGE A B) next_avg left"
  have w: "word_of_int (a - b - t) = (A - B - word_of_int t :: i32)" by (simp add: v(1,2))
  have "?r = word_of_int (a - b - t)" unfolding w by (simp add: squeeze_residual_def v)
  moreover have rr: "\<bar>a - b - t\<bar> < 2 ^ 31 - 2 ^ 29" using R t by auto
  ultimately have r: "sint ?r = a - b - t" using sint_W [of "a - b - t"] by simp
  have fast: "unsqueeze_step fast ?r (AVERAGE A B) next_avg left = unsqueeze_scalar ?r (AVERAGE A B) next_avg left"
    using FastUnsqueeze_eq [of left "AVERAGE A B" next_avg ?r] assms(3,4) avg(2) r rr
    unfolding in_range_def unsqueeze_step_def by simp
  have half: "(a + b + (if a > b then 1 else 0)) div 2 + (a - b) sdiv 2 = a"
    by (simp add: signed_divide_int_def sgn_if) presburger
  have half': "sint (AVERAGE A B) + (a - b) sdiv 2 = a" using half avg(1) by (simp add: v(1,2))
  have d: "a - b - t + t = a - b" "a - (a - b) = b" by simp_all
  show ?thesis unfolding fast unsqueeze_scalar_def Let_def r v(3) [symmetric] d half' by (simp add: v(1,2))
qed

lemma squeeze_row_length: "squeeze_row x p ps = (avgs, res) \<Longrightarrow> length avgs = (length ps + 1) div 2 \<and> length res = length ps div 2"
proof (induction x p ps arbitrary: avgs res rule: squeeze_row.induct)
  case (1 x p A B ps)
  obtain as rs where s: "squeeze_row (x + 1) B ps = (as, rs)" by fastforce
  from "1.IH" [OF refl refl refl s] "1.prems" s show ?case by (auto simp: Let_def)
qed auto

lemma squeeze_row_first:
  "(case fst (squeeze_row x p ps) of [] \<Rightarrow> d | n # _ \<Rightarrow> n) = (case ps of [] \<Rightarrow> d | [C] \<Rightarrow> C | C # D # _ \<Rightarrow> AVERAGE C D)"
  by (cases "(x, p, ps)" rule: squeeze_row.cases) (auto simp: Let_def split: prod.splits)

lemma row_inverse:
  assumes "\<forall>p \<in> set ps. in_range p" "0 < x \<longrightarrow> in_range prv"
  shows "unsqueeze_row xs x prv (snd (squeeze_row x prv ps)) (fst (squeeze_row x prv ps)) = ps"
  using assms
proof (induction x prv ps rule: squeeze_row.induct)
  case (1 x prv A B ps)
  obtain as rs where s: "squeeze_row (x + 1) B ps = (as, rs)" by fastforce
  have AB: "in_range A" "in_range B" using "1.prems" by simp_all
  note avg = AVERAGE_value(2) [OF AB]
  define nx where "nx = (case ps of [] \<Rightarrow> AVERAGE A B | [C] \<Rightarrow> C | C # D # _ \<Rightarrow> AVERAGE C D)"
  have nx: "(case as of [] \<Rightarrow> AVERAGE A B | n # _ \<Rightarrow> n) = nx" using squeeze_row_first [of "AVERAGE A B" "x + 1" B ps] s by (simp add: nx_def)
  have "in_range nx" using "1.prems"(1) avg AVERAGE_value(2) by (auto simp: nx_def split: list.splits)
  moreover have "in_range (if x > 0 then prv else AVERAGE A B)" using avg "1.prems"(2) by simp
  ultimately have step: "unsqueeze_step f (squeeze_residual A B (AVERAGE A B) nx (if x > 0 then prv else AVERAGE A B)) (AVERAGE A B) nx
      (if x > 0 then prv else AVERAGE A B) = (A, B)" for f by (rule unsqueeze_step_inverse [OF AB])
  have "unsqueeze_row xs (x + 1) B rs as = ps" using "1.IH" [OF refl refl refl] s "1.prems"(1) by simp
  moreover have "(if x = 0 then AVERAGE A B else prv) = (if x > 0 then prv else AVERAGE A B)" by simp
  ultimately show ?case using step s nx by (simp add: Let_def nx_def [symmetric] del: less_Suc_eq_0_disj neq0_conv)
qed simp_all

text \<open>Planes, column by column.\<close>

lemma squeeze_rows_first:
  "(case fst (squeeze_rows w y p ps) of [] \<Rightarrow> d | n # _ \<Rightarrow> n) =
   (case ps of [] \<Rightarrow> d | [C] \<Rightarrow> C | C # D # _ \<Rightarrow> map (\<lambda>x. AVERAGE (C ! x) (D ! x)) [0..<w])"
  by (cases "(w, y, p, ps)" rule: squeeze_rows.cases) (auto simp: Let_def split: prod.splits)

definition row_in_range :: "nat \<Rightarrow> i32 list \<Rightarrow> bool" where
  "row_in_range w r \<longleftrightarrow> length r = w \<and> (\<forall>p \<in> set r. in_range p)"

lemma column_inverse:
  assumes "\<forall>r \<in> set ps. row_in_range w r" "0 < y \<longrightarrow> row_in_range w prv"
  shows "unsqueeze_rows fast w y prv (snd (squeeze_rows w y prv ps)) (fst (squeeze_rows w y prv ps)) = ps"
  using assms
proof (induction w y prv ps rule: squeeze_rows.induct)
  case (1 w y prv A B ps)
  obtain as rs where s: "squeeze_rows w (y + 1) B ps = (as, rs)" by fastforce
  have AB: "row_in_range w A" "row_in_range w B" using "1.prems" by simp_all
  have av: "row_in_range w (map (\<lambda>x. AVERAGE (C ! x) (D ! x)) [0..<w])" if "row_in_range w C" "row_in_range w D" for C D
    using that AVERAGE_value(2) by (auto simp: row_in_range_def)
  define av' where "av' = map (\<lambda>x. AVERAGE (A ! x) (B ! x)) [0..<w]"
  have av': "row_in_range w av'" "x < w \<Longrightarrow> av' ! x = AVERAGE (A ! x) (B ! x)" for x using av [OF AB] by (simp_all add: av'_def)
  define nx where "nx = (case ps of [] \<Rightarrow> av' | [C] \<Rightarrow> C | C # D # _ \<Rightarrow> map (\<lambda>x. AVERAGE (C ! x) (D ! x)) [0..<w])"
  have nx: "(case as of [] \<Rightarrow> av' | n # _ \<Rightarrow> n) = nx" using squeeze_rows_first [of av' w "y + 1" B ps] s by (simp add: nx_def)
  have nr: "row_in_range w nx" using "1.prems"(1) av' av by (auto simp: nx_def split: list.splits)
  define tp where "tp = (if y > 0 then prv else av')"
  have tr: "row_in_range w tp" using av' "1.prems"(2) by (simp add: tp_def)
  define re where "re = map (\<lambda>x. squeeze_residual (A ! x) (B ! x) (av' ! x) (nx ! x) (tp ! x)) [0..<w]"
  have "unsqueeze_step (fast x) (re ! x) (av' ! x) (nx ! x) (tp ! x) = (A ! x, B ! x)" if "x < w" for x
    using that AB nr tr by (simp add: re_def av'(2) row_in_range_def unsqueeze_step_inverse)
  then have outs: "map (\<lambda>x. unsqueeze_step (fast x) (re ! x) (av' ! x) (nx ! x) (tp ! x)) [0..<w] = map (\<lambda>x. (A ! x, B ! x)) [0..<w]" by simp
  have "map ((!) A) [0..<w] = A" "map ((!) B) [0..<w] = B" using AB map_nth [of A] map_nth [of B] by (simp_all add: row_in_range_def)
  then have AB': "map fst (map (\<lambda>x. (A ! x, B ! x)) [0..<w]) = A" "map snd (map (\<lambda>x. (A ! x, B ! x)) [0..<w]) = B" by (simp_all add: comp_def)
  have rest: "unsqueeze_rows fast w (y + 1) B rs as = ps" using "1.IH" [OF refl refl refl refl] s "1.prems"(1) AB(2) by simp
  have sq: "squeeze_rows w y prv (A # B # ps) = (av' # as, re # rs)"
    unfolding squeeze_rows.simps Let_def av'_def [symmetric] nx_def [symmetric] tp_def [symmetric] re_def [symmetric] s by simp
  show ?case unfolding sq fst_conv snd_conv unsqueeze_rows.simps Let_def nx tp_def [symmetric] outs AB' rest ..
qed simp_all

lemma squeeze_rows_shape:
  "\<forall>r \<in> set ps. length r = w \<Longrightarrow> squeeze_rows w y p ps = (avgs, res) \<Longrightarrow>
   length avgs = (length ps + 1) div 2 \<and> length res = length ps div 2 \<and> (\<forall>r \<in> set avgs \<union> set res. length r = w)"
proof (induction w y p ps arbitrary: avgs res rule: squeeze_rows.induct)
  case (1 w y p A B ps)
  obtain as rs where s: "squeeze_rows w (y + 1) B ps = (as, rs)" by fastforce
  have ps: "\<forall>r \<in> set ps. length r = w" using "1.prems"(1) by simp
  from "1.IH" [OF refl refl refl refl ps s] "1.prems"(2) s show ?case by (auto simp: Let_def)
qed auto

section \<open>Channels\<close>

text \<open>What the transforms restore of a channel: all but its component index.\<close>

definition view :: "Channel \<Rightarrow> i32 list list \<times> nat \<times> nat \<times> int \<times> int" where
  "view c = (plane c, ch_w c, ch_h c, hshift c, vshift c)"

definition squeeze_ok :: "Channel \<Rightarrow> bool" where
  "squeeze_ok c \<longleftrightarrow> length (plane c) = ch_h c \<and> (\<forall>r \<in> set (plane c). row_in_range (ch_w c) r)"

text \<open>The average and the residual of a channel.\<close>

definition halves :: "bool \<Rightarrow> Channel \<Rightarrow> Channel \<times> Channel" where
  "halves hor c =
     (if hor
      then (let w = (ch_w c + 1) div 2; px = map (squeeze_row 0 0) (plane c)
            in (\<lparr> plane = map fst px, ch_w = w, ch_h = ch_h c, hshift = hshift c + 1, vshift = vshift c, component = component c \<rparr>,
                \<lparr> plane = map snd px, ch_w = ch_w c - w, ch_h = ch_h c, hshift = hshift c + 1, vshift = vshift c, component = component c \<rparr>))
      else (let h = (ch_h c + 1) div 2; px = squeeze_rows (ch_w c) 0 [] (plane c)
            in (\<lparr> plane = fst px, ch_w = ch_w c, ch_h = h, hshift = hshift c, vshift = vshift c + 1, component = component c \<rparr>,
                \<lparr> plane = snd px, ch_w = ch_w c, ch_h = ch_h c - h, hshift = hshift c, vshift = vshift c + 1, component = component c \<rparr>)))"

lemma fwd_halves:
  "(if hor then FwdHSqueeze else FwdVSqueeze) input c rc =
     input\<lparr> channel := list_insert rc (snd (halves hor (channel input ! c))) ((channel input)[c := fst (halves hor (channel input ! c))]) \<rparr>"
  by (simp add: halves_def FwdHSqueeze_def FwdVSqueeze_def Let_def)

lemma DivCeil_halves: "(n + 1) div 2 = DivCeil ((n + 1) div 2 + (n - (n + 1) div 2)) 2"
  by (simp add: DivCeil_def)

lemma map_nth_length: "length xs = n \<Longrightarrow> map ((!) xs) [0..<n] = xs"
  using map_nth [of xs] by simp

lemma InvHSqueeze_halves:
  assumes ok: "squeeze_ok ch" and c: "c < length (channel x)" "rc < length (channel x)"
    and v: "view (channel x ! c) = view (fst (halves True ch))" "view (channel x ! rc) = view (snd (halves True ch))"
  shows "\<exists>ch'. InvHSqueeze simd mem x c rc = Inr (x\<lparr> channel := (channel x)[c := ch'] \<rparr>) \<and> view ch' = view ch"
proof -
  let ?a = "channel x ! c" and ?r = "channel x ! rc" and ?n = "ch_w ch"
  have len: "length (plane ch) = ch_h ch" "\<And>row. row \<in> set (plane ch) \<Longrightarrow> length row = ?n \<and> (\<forall>p \<in> set row. in_range p)"
    using ok by (auto simp: squeeze_ok_def row_in_range_def)
  have a: "plane ?a = map (\<lambda>row. fst (squeeze_row 0 0 row)) (plane ch)" "ch_w ?a = (?n + 1) div 2" "ch_h ?a = ch_h ch"
    "hshift ?a = hshift ch + 1" "vshift ?a = vshift ch"
    and r: "plane ?r = map (\<lambda>row. snd (squeeze_row 0 0 row)) (plane ch)" "ch_w ?r = ?n - (?n + 1) div 2" "ch_h ?r = ch_h ch"
    using v by (simp_all add: view_def halves_def Let_def comp_def)
  have chk: "ch_w ?a = DivCeil (ch_w ?a + ch_w ?r) 2" "ch_h ?a = ch_h ?r" using DivCeil_halves [of ?n] a r by simp_all
  have w: "ch_w ?a + ch_w ?r = ?n" using a(2) r(2) by simp
  consider "ch_w ?r = 0" | "ch_w ?r \<noteq> 0" "ch_h ?r = 0" | "ch_w ?r \<noteq> 0" "ch_h ?r \<noteq> 0" by blast
  then show ?thesis
  proof cases
    case 1
    then have n: "?n \<le> 1" using r(2) by auto
    have "fst (squeeze_row 0 0 row) = row" if "row \<in> set (plane ch)" for row
    proof -
      have "length row \<le> 1" using len(2) [OF that] n by simp
      then show ?thesis by (cases "(0 :: nat, 0 :: i32, row)" rule: squeeze_row.cases) auto
    qed
    then have "view (?a\<lparr> hshift := hshift ?a - 1 \<rparr>) = view ch" using a w 1 by (simp add: view_def map_idI)
    moreover have "InvHSqueeze simd mem x c rc = Inr (x\<lparr> channel := (channel x)[c := ?a\<lparr> hshift := hshift ?a - 1 \<rparr>] \<rparr>)"
      using 1 chk c unfolding InvHSqueeze_def Let_def by simp
    ultimately show ?thesis by blast
  next
    case 2
    let ?o = "Channel_Create mem (ch_w ?a + ch_w ?r) (ch_h ?a) (hshift ?a - 1) (vshift ?a)"
    have "view ?o = view ch" using 2 a w len(1) r(3) by (simp add: view_def Channel_Create_def)
    moreover have "InvHSqueeze simd mem x c rc = Inr (x\<lparr> channel := (channel x)[c := ?o] \<rparr>)"
      using 2 chk c unfolding InvHSqueeze_def Let_def by simp
    ultimately show ?thesis by blast
  next
    case 3
    let ?xs = "\<lambda>y. vector_pairs simd (min 8 (ch_h ?a - 8 * (y div 8))) (ch_w ?r)"
    let ?rows = "map (\<lambda>y. unsqueeze_row (?xs y) 0 0 (plane ?r ! y) (plane ?a ! y)) [0..<ch_h ?a]"
    let ?o = "(Channel_Create mem (ch_w ?a + ch_w ?r) (ch_h ?a) (hshift ?a - 1) (vshift ?a))\<lparr> plane := ?rows \<rparr>"
    have "unsqueeze_row (?xs y) 0 0 (plane ?r ! y) (plane ?a ! y) = plane ch ! y" if "y < ch_h ch" for y
    proof -
      have "plane ch ! y \<in> set (plane ch)" using that len(1) by simp
      then have "\<forall>p \<in> set (plane ch ! y). in_range p" using len(2) by blast
      from row_inverse [OF this, of 0 0 "?xs y"] show ?thesis using that len(1) by (simp add: a(1) r(1))
    qed
    then have "?rows = map ((!) (plane ch)) [0..<ch_h ch]" by (simp add: a(3))
    then have "?rows = plane ch" using map_nth_length [OF len(1)] by simp
    then have "view ?o = view ch" using a w by (simp add: view_def Channel_Create_def)
    moreover have "InvHSqueeze simd mem x c rc = Inr (x\<lparr> channel := (channel x)[c := ?o] \<rparr>)"
      using 3 chk c unfolding InvHSqueeze_def Let_def by simp
    ultimately show ?thesis by blast
  qed
qed

lemma InvVSqueeze_halves:
  assumes ok: "squeeze_ok ch" and c: "c < length (channel x)" "rc < length (channel x)"
    and v: "view (channel x ! c) = view (fst (halves False ch))" "view (channel x ! rc) = view (snd (halves False ch))"
  shows "\<exists>ch'. InvVSqueeze simd mem x c rc = Inr (x\<lparr> channel := (channel x)[c := ch'] \<rparr>) \<and> view ch' = view ch"
proof -
  let ?a = "channel x ! c" and ?r = "channel x ! rc" and ?n = "ch_h ch" and ?s = "squeeze_rows (ch_w ch) 0 [] (plane ch)"
  have len: "length (plane ch) = ch_h ch" "\<forall>row \<in> set (plane ch). row_in_range (ch_w ch) row"
    using ok by (auto simp: squeeze_ok_def)
  have a: "plane ?a = fst ?s" "ch_h ?a = (?n + 1) div 2" "ch_w ?a = ch_w ch" "hshift ?a = hshift ch" "vshift ?a = vshift ch + 1"
    and r: "plane ?r = snd ?s" "ch_h ?r = ?n - (?n + 1) div 2" "ch_w ?r = ch_w ch"
    using v by (simp_all add: view_def halves_def Let_def)
  have chk: "ch_h ?a = DivCeil (ch_h ?a + ch_h ?r) 2" "ch_w ?a = ch_w ?r" using DivCeil_halves [of ?n] a r by simp_all
  have h: "ch_h ?a + ch_h ?r = ?n" using a(2) r(2) by simp
  consider "ch_h ?r = 0" | "ch_h ?r \<noteq> 0" "ch_w ?r = 0" | "ch_h ?r \<noteq> 0" "ch_w ?r \<noteq> 0" by blast
  then show ?thesis
  proof cases
    case 1
    then have "length (plane ch) \<le> 1" using r(2) len(1) by auto
    then have "fst ?s = plane ch" by (cases "(ch_w ch, 0 :: nat, [] :: i32 list, plane ch)" rule: squeeze_rows.cases) auto
    then have "view (?a\<lparr> vshift := vshift ?a - 1 \<rparr>) = view ch" using a h 1 by (simp add: view_def)
    moreover have "InvVSqueeze simd mem x c rc = Inr (x\<lparr> channel := (channel x)[c := ?a\<lparr> vshift := vshift ?a - 1 \<rparr>] \<rparr>)"
      using 1 chk c unfolding InvVSqueeze_def Let_def by simp
    ultimately show ?thesis by blast
  next
    case 2
    let ?o = "Channel_Create mem (ch_w ?a) (ch_h ?a + ch_h ?r) (hshift ?a) (vshift ?a - 1)"
    have "plane ch = map (\<lambda>y. []) [0..<?n]"
      using len 2 r(3) by (intro nth_equalityI) (auto simp: row_in_range_def)
    then have "view ?o = view ch" using 2 a h r(3) by (simp add: view_def Channel_Create_def)
    moreover have "InvVSqueeze simd mem x c rc = Inr (x\<lparr> channel := (channel x)[c := ?o] \<rparr>)"
      using 2 chk c unfolding InvVSqueeze_def Let_def by simp
    ultimately show ?thesis by blast
  next
    case 3
    let ?rows = "unsqueeze_rows (vector_column simd (ch_w ?a)) (ch_w ?a) 0 [] (plane ?r) (plane ?a)"
    let ?o = "(Channel_Create mem (ch_w ?a) (ch_h ?a + ch_h ?r) (hshift ?a) (vshift ?a - 1))\<lparr> plane := ?rows \<rparr>"
    have "?rows = plane ch" unfolding a(1,3) r(1) using column_inverse [OF len(2), of 0 "[]"] by simp
    then have "view ?o = view ch" using a h by (simp add: view_def Channel_Create_def)
    moreover have "InvVSqueeze simd mem x c rc = Inr (x\<lparr> channel := (channel x)[c := ?o] \<rparr>)"
      using 3 chk c unfolding InvVSqueeze_def Let_def by simp
    ultimately show ?thesis by blast
  qed
qed

lemma inv_halves:
  assumes "squeeze_ok ch" "c < length (channel x)" "rc < length (channel x)"
    "view (channel x ! c) = view (fst (halves hor ch))" "view (channel x ! rc) = view (snd (halves hor ch))"
  shows "\<exists>ch'. (if hor then InvHSqueeze else InvVSqueeze) simd mem x c rc = Inr (x\<lparr> channel := (channel x)[c := ch'] \<rparr>) \<and> view ch' = view ch"
    "\<not> (ch_w (channel x ! c) < ch_w (channel x ! rc) \<or> ch_h (channel x ! c) < ch_h (channel x ! rc))"
proof -
  show "\<exists>ch'. (if hor then InvHSqueeze else InvVSqueeze) simd mem x c rc = Inr (x\<lparr> channel := (channel x)[c := ch'] \<rparr>) \<and> view ch' = view ch"
    using InvHSqueeze_halves [OF assms(1-3)] InvVSqueeze_halves [OF assms(1-3)] assms(4,5) by (cases hor) auto
  have "ch_w (fst (halves hor ch)) \<ge> ch_w (snd (halves hor ch)) \<and> ch_h (fst (halves hor ch)) \<ge> ch_h (snd (halves hor ch))"
    by (auto simp: halves_def Let_def)
  then show "\<not> (ch_w (channel x ! c) < ch_w (channel x ! rc) \<or> ch_h (channel x ! c) < ch_h (channel x ! rc))"
    using assms(4,5) by (simp add: view_def)
qed

section \<open>Images\<close>

text \<open>The channels after the first \<open>k\<close> steps of a forward pass over \<open>beginc..endc\<close>: some channels are halved, and their residuals
  stand at \<open>offset\<close>.  \<open>avgs\<close> are the channels with their current content.\<close>

definition with_residuals :: "nat \<Rightarrow> 'c list \<Rightarrow> 'c list \<Rightarrow> 'c list" where
  "with_residuals offset res avgs = take offset avgs @ res @ drop offset avgs"

lemma with_residuals_nth:
  "c < offset \<Longrightarrow> offset \<le> length avgs \<Longrightarrow> with_residuals offset res avgs ! c = avgs ! c"
  "k < length res \<Longrightarrow> offset \<le> length avgs \<Longrightarrow> with_residuals offset res avgs ! (offset + k) = res ! k"
  by (simp_all add: with_residuals_def nth_append)

lemma with_residuals_update:
  "c < offset \<Longrightarrow> offset \<le> length avgs \<Longrightarrow> (with_residuals offset res avgs)[c := v] = with_residuals offset res (avgs[c := v])"
  by (simp add: with_residuals_def list_update_append take_update_swap)

lemma with_residuals_insert:
  "offset \<le> length avgs \<Longrightarrow> list_insert (offset + length res) r (with_residuals offset res avgs) = with_residuals offset (res @ [r]) avgs"
  by (simp add: with_residuals_def list_insert_def)

lemma map_with_residuals: "map f (with_residuals offset res avgs) = with_residuals offset (map f res) (map f avgs)"
  by (simp add: with_residuals_def take_map drop_map)

definition halved :: "bool \<Rightarrow> nat \<Rightarrow> nat \<Rightarrow> Channel list \<Rightarrow> Channel list" where
  "halved hor beginc k chs = map (\<lambda>i. if beginc \<le> i \<and> i < k then fst (halves hor (chs ! i)) else chs ! i) [0..<length chs]"

definition residuals :: "bool \<Rightarrow> nat \<Rightarrow> nat \<Rightarrow> Channel list \<Rightarrow> Channel list" where
  "residuals hor beginc k chs = map (\<lambda>i. snd (halves hor (chs ! i))) [beginc..<k]"

lemma halved_simps:
  "length (halved hor beginc k chs) = length chs"
  "i < length chs \<Longrightarrow> halved hor beginc k chs ! i = (if beginc \<le> i \<and> i < k then fst (halves hor (chs ! i)) else chs ! i)"
  "beginc \<le> k \<Longrightarrow> k < length chs \<Longrightarrow> (halved hor beginc k chs)[k := fst (halves hor (chs ! k))] = halved hor beginc (Suc k) chs"
  "halved hor beginc beginc chs = chs"
  by (auto simp: halved_def nth_list_update intro!: nth_equalityI)

lemma fwd_channels_eq:
  assumes "beginc \<le> k" "k \<le> endc'" "endc' < offset" "offset \<le> length chs"
  shows "foldl (\<lambda>input c. (if hor then FwdHSqueeze else FwdVSqueeze) input c (offset + c - beginc))
      (img\<lparr> channel := with_residuals offset (residuals hor beginc k chs) (halved hor beginc k chs) \<rparr>) [k..<endc' + 1] =
    img\<lparr> channel := with_residuals offset (residuals hor beginc (endc' + 1) chs) (halved hor beginc (endc' + 1) chs) \<rparr>"
  using assms
proof (induction "endc' + 1 - k" arbitrary: k)
  case (Suc n)
  let ?x = "with_residuals offset (residuals hor beginc k chs) (halved hor beginc k chs)"
  have k: "k < offset" "k < length chs" using Suc.prems by simp_all
  have x: "?x ! k = chs ! k" using k Suc.prems by (simp add: with_residuals_nth halved_simps)
  have "list_insert (offset + k - beginc) (snd (halves hor (chs ! k))) (?x[k := fst (halves hor (chs ! k))]) =
      with_residuals offset (residuals hor beginc (Suc k) chs) (halved hor beginc (Suc k) chs)"
  proof -
    have "offset + k - beginc = offset + length (residuals hor beginc k chs)" using Suc.prems by (simp add: residuals_def)
    moreover have "residuals hor beginc (Suc k) chs = residuals hor beginc k chs @ [snd (halves hor (chs ! k))]"
      using Suc.prems by (simp add: residuals_def)
    ultimately show ?thesis using k Suc.prems
      by (simp add: with_residuals_update with_residuals_insert halved_simps)
  qed
  then have step: "(if hor then FwdHSqueeze else FwdVSqueeze) (img\<lparr> channel := ?x \<rparr>) k (offset + k - beginc) =
      img\<lparr> channel := with_residuals offset (residuals hor beginc (Suc k) chs) (halved hor beginc (Suc k) chs) \<rparr>"
    unfolding fwd_halves using x by simp
  show ?case
  proof (cases "k = endc'")
    case True
    then show ?thesis using step by simp
  next
    case False
    have "[k..<endc' + 1] = k # [Suc k..<endc' + 1]" using Suc.prems by (simp add: upt_conv_Cons)
    then show ?thesis using step Suc.hyps(1) [of "Suc k"] Suc.hyps(2) Suc.prems False by simp
  qed
qed simp

text \<open>The inverse loop, up to \<open>view\<close>.\<close>

lemma inv_channels_ok:
  assumes "beginc \<le> k" "k \<le> Suc endc'" "endc' < offset" "offset \<le> length chs"
    and ok: "\<forall>c. beginc \<le> c \<and> c \<le> endc' \<longrightarrow> squeeze_ok (chs ! c)"
    and x: "map view (channel x) = with_residuals offset (map view (residuals hor beginc (endc' + 1) chs))
      (map (\<lambda>i. view (if k \<le> i \<and> i \<le> endc' then fst (halves hor (chs ! i)) else chs ! i)) [0..<length chs])"
  shows "\<exists>chs'. inv_channels simd mem hor beginc offset [k..<endc' + 1] x = Inr (x\<lparr> channel := chs' \<rparr>) \<and>
    map view chs' = with_residuals offset (map view (residuals hor beginc (endc' + 1) chs)) (map view chs)"
  using assms(1,2) x
proof (induction "endc' + 1 - k" arbitrary: k x)
  case 0
  then have "map (\<lambda>i. view (if k \<le> i \<and> i \<le> endc' then fst (halves hor (chs ! i)) else chs ! i)) [0..<length chs] = map view chs"
    by (intro nth_equalityI) auto
  then show ?case using 0 by (intro exI [of _ "channel x"]) simp
next
  case (Suc n)
  let ?res = "residuals hor beginc (endc' + 1) chs"
  let ?cur = "\<lambda>k. map (\<lambda>i. view (if k \<le> i \<and> i \<le> endc' then fst (halves hor (chs ! i)) else chs ! i)) [0..<length chs]"
  let ?rc = "offset + k - beginc"
  have k: "k \<le> endc'" "k < offset" "k < length chs" using Suc.hyps(2) assms(3,4) by simp_all
  have lr: "length ?res = endc' + 1 - beginc" unfolding residuals_def length_map length_upt ..
  have lx: "length (channel x) = length chs + length ?res"
    using arg_cong [OF Suc.prems(3), of length] assms(4) by (simp add: with_residuals_def)
  have rc: "?rc = offset + (k - beginc)" "k - beginc < length ?res" "?rc < length (channel x)" "k < length (channel x)"
    using Suc.prems(1) k lr lx assms(4) by simp_all
  have "view (channel x ! k) = map view (channel x) ! k" using rc(4) by simp
  also have "\<dots> = view (fst (halves hor (chs ! k)))" unfolding Suc.prems(3) using k assms(4) by (simp add: with_residuals_nth)
  finally have vk: "view (channel x ! k) = view (fst (halves hor (chs ! k)))" .
  have "view (channel x ! ?rc) = map view (channel x) ! ?rc" using rc(3) by simp
  also have "\<dots> = map view ?res ! (k - beginc)" unfolding Suc.prems(3) rc(1) using rc(2) assms(4) by (simp add: with_residuals_nth)
  also have "\<dots> = view (snd (halves hor (chs ! k)))" using rc(2) Suc.prems(1) lr by (simp add: residuals_def del: upt_Suc)
  finally have vr: "view (channel x ! ?rc) = view (snd (halves hor (chs ! k)))" .
  have sq: "squeeze_ok (chs ! k)" using ok Suc.prems(1) k by blast
  note I = inv_halves [OF sq rc(4,3) vk vr]
  from I(1) [of simd mem] obtain ch' where ch': "(if hor then InvHSqueeze else InvVSqueeze) simd mem x k ?rc = Inr (x\<lparr> channel := (channel x)[k := ch'] \<rparr>)"
    "view ch' = view (chs ! k)" by blast
  let ?x = "x\<lparr> channel := (channel x)[k := ch'] \<rparr>"
  have "map view (channel ?x) = with_residuals offset (map view ?res) ((?cur k)[k := view (chs ! k)])"
    using Suc.prems(3) ch'(2) k assms(4) by (simp add: map_update with_residuals_update)
  also have "(?cur k)[k := view (chs ! k)] = ?cur (Suc k)"
    using k(3) by (intro nth_equalityI) (auto simp: nth_list_update)
  finally have vx: "map view (channel ?x) = with_residuals offset (map view ?res) (?cur (Suc k))" .
  have "n = endc' + 1 - Suc k" "beginc \<le> Suc k" "Suc k \<le> Suc endc'" using Suc.hyps(2) Suc.prems(1) k by simp_all
  from Suc.hyps(1) [OF this vx] obtain chs' where chs': "inv_channels simd mem hor beginc offset [Suc k..<endc' + 1] ?x = Inr (?x\<lparr> channel := chs' \<rparr>)"
    "map view chs' = with_residuals offset (map view ?res) (map view chs)" by blast
  have l: "[k..<endc' + 1] = k # [Suc k..<endc' + 1]" using k by (simp add: upt_conv_Cons)
  have "inv_channels simd mem hor beginc offset [k..<endc' + 1] x = Inr (x\<lparr> channel := chs' \<rparr>)"
    unfolding l inv_channels.simps Let_def using rc(3) I(2) ch'(1) chs'(1) by simp
  then show ?case using chs'(2) by blast
qed

text \<open>What a squeeze needs: channels after the meta channels, with rows of the announced size, and pixels of at most 30
  bits, so that no sum or difference overflows.\<close>

fun squeezable :: "SqueezeParams list \<Rightarrow> Image \<Rightarrow> bool" where
  "squeezable [] img = True"
| "squeezable (p # ps) img =
     (nb_meta_channels img \<le> unat (sq_begin_c p) \<and>
      list_all (\<lambda>c. squeeze_ok (channel img ! c)) [unat (sq_begin_c p)..<endc p + 1] \<and>
      squeezable ps (fwd_squeeze_step p img))"

lemma CheckMeta_bounds:
  assumes "CheckMetaSqueezeParams p n"
  shows "unat (sq_begin_c p) \<le> endc p" "endc p < n"
  using assms unfolding CheckMetaSqueezeParams_def endc_def Let_def by linarith+

definition sq_offset :: "SqueezeParams \<Rightarrow> Image \<Rightarrow> nat" where
  "sq_offset p img = (if in_place p then endc p + 1 else length (channel img))"

lemma fwd_squeeze_step_eq:
  assumes "CheckMetaSqueezeParams p (length (channel img))"
  shows "fwd_squeeze_step p img = img\<lparr> channel := with_residuals (sq_offset p img)
    (residuals (horizontal p) (unat (sq_begin_c p)) (endc p + 1) (channel img))
    (halved (horizontal p) (unat (sq_begin_c p)) (endc p + 1) (channel img)) \<rparr>"
proof -
  note C = CheckMeta_bounds [OF assms]
  have o: "endc p < sq_offset p img" "sq_offset p img \<le> length (channel img)" using C by (simp_all add: sq_offset_def)
  have start: "img\<lparr> channel := with_residuals (sq_offset p img) (residuals (horizontal p) (unat (sq_begin_c p)) (unat (sq_begin_c p)) (channel img))
      (halved (horizontal p) (unat (sq_begin_c p)) (unat (sq_begin_c p)) (channel img)) \<rparr> = img"
    by (simp add: with_residuals_def residuals_def halved_simps)
  from fwd_channels_eq [OF order_refl C(1) o, of "horizontal p" img, unfolded start]
  show ?thesis by (simp add: fwd_squeeze_step_def sq_offset_def Let_def)
qed

lemma inv_squeeze_step_ok:
  assumes chk: "CheckMetaSqueezeParams p (length (channel img))" and sq: "squeezable (p # ps) img"
    and x: "map view (channel x) = map view (channel (fwd_squeeze_step p img))" "nb_meta_channels x = nb_meta_channels img"
  shows "\<exists>y. inv_squeeze_step simd mem p x = Inr y \<and> map view (channel y) = map view (channel img) \<and> y = x\<lparr> channel := channel y \<rparr>"
proof -
  let ?b = "unat (sq_begin_c p)" and ?o = "sq_offset p img" and ?chs = "channel img"
  let ?res = "residuals (horizontal p) ?b (endc p + 1) ?chs"
  note C = CheckMeta_bounds [OF chk]
  have o: "endc p < ?o" "?o \<le> length ?chs" using C by (simp_all add: sq_offset_def)
  have lr: "length ?res = endc p + 1 - ?b" unfolding residuals_def length_map length_upt ..
  have vx: "map view (channel x) = with_residuals ?o (map view ?res) (map view (halved (horizontal p) ?b (endc p + 1) ?chs))"
    using x(1) unfolding fwd_squeeze_step_eq [OF chk] by (simp add: map_with_residuals)
  have "map view (halved (horizontal p) ?b (endc p + 1) ?chs) =
      map (\<lambda>i. view (if ?b \<le> i \<and> i \<le> endc p then fst (halves (horizontal p) (?chs ! i)) else ?chs ! i)) [0..<length ?chs]"
    by (intro nth_equalityI) (auto simp: halved_simps less_Suc_eq_le)
  note vx' = vx [unfolded this]
  have ok: "\<forall>c. ?b \<le> c \<and> c \<le> endc p \<longrightarrow> squeeze_ok (?chs ! c)" using sq by (auto simp: list_all_iff)
  have lx: "length (channel x) = length ?chs + (endc p + 1 - ?b)"
    using arg_cong [OF vx, of length] o(2) lr by (simp add: with_residuals_def halved_simps)
  have off: "(if in_place p then endc p + 1 else length (channel x) + ?b - endc p - 1) = ?o"
    using C lx by (auto simp: sq_offset_def)
  have chk': "CheckMetaSqueezeParams p (length (channel x))" using chk lx by (auto simp: CheckMetaSqueezeParams_def Let_def)
  have nm: "\<not> ?b < nb_meta_channels x" using sq x(2) by simp
  from inv_channels_ok [OF order_refl _ o ok vx', of simd mem] C(1) obtain chs' where
    i: "inv_channels simd mem (horizontal p) ?b ?o [?b..<endc p + 1] x = Inr (x\<lparr> channel := chs' \<rparr>)"
    "map view chs' = with_residuals ?o (map view ?res) (map view ?chs)" by auto
  let ?y = "x\<lparr> channel := take ?o chs' @ drop (?o + (endc p - ?b + 1)) chs' \<rparr>"
  have "inv_squeeze_step simd mem p x = Inr ?y"
    using chk' nm i(1) by (simp only: inv_squeeze_step_def off Let_def if_False simp_thms not_False_eq_True not_not sum.case) simp
  moreover have "map view (channel ?y) = map view ?chs"
  proof -
    have "map view (channel ?y) = take ?o (map view chs') @ drop (?o + length (map view ?res)) (map view chs')"
      using C(1) lr by (simp add: take_map drop_map Suc_diff_le)
    then show ?thesis unfolding i(2) using o(2) by (simp add: with_residuals_def)
  qed
  ultimately show ?thesis by (intro exI [of _ ?y]) simp
qed

lemma inv_squeezes_append:
  "inv_squeezes simd mem (ps @ qs) x = (case inv_squeezes simd mem ps x of Inl e \<Rightarrow> Inl e | Inr y \<Rightarrow> inv_squeezes simd mem qs y)"
  by (induction ps arbitrary: x) (auto split: sum.splits)

lemma fwd_squeeze_step_meta: "CheckMetaSqueezeParams p (length (channel img)) \<Longrightarrow> nb_meta_channels (fwd_squeeze_step p img) = nb_meta_channels img"
  by (simp add: fwd_squeeze_step_eq)

lemma inv_squeezes_ok:
  "fwd_squeezes ps img = Inr img' \<Longrightarrow> squeezable ps img \<Longrightarrow> map view (channel x) = map view (channel img') \<Longrightarrow>
   nb_meta_channels x = nb_meta_channels img' \<Longrightarrow>
   nb_meta_channels img' = nb_meta_channels img \<and>
   (\<exists>y. inv_squeezes simd mem (rev ps) x = Inr y \<and> map view (channel y) = map view (channel img) \<and> y = x\<lparr> channel := channel y \<rparr>)"
proof (induction ps arbitrary: img)
  case Nil
  then show ?case by auto
next
  case (Cons p ps)
  have chk: "CheckMetaSqueezeParams p (length (channel img))" and f: "fwd_squeezes ps (fwd_squeeze_step p img) = Inr img'"
    using Cons.prems(1) by (auto split: if_splits)
  have "squeezable ps (fwd_squeeze_step p img)" using Cons.prems(2) by simp
  from Cons.IH [OF f this Cons.prems(3,4)] obtain y where y: "nb_meta_channels img' = nb_meta_channels (fwd_squeeze_step p img)"
    "inv_squeezes simd mem (rev ps) x = Inr y" "map view (channel y) = map view (channel (fwd_squeeze_step p img))" "y = x\<lparr> channel := channel y \<rparr>" by blast
  have m: "nb_meta_channels img' = nb_meta_channels img" using y(1) fwd_squeeze_step_meta [OF chk] by simp
  have "nb_meta_channels y = nb_meta_channels x" by (subst y(4)) simp
  then have "nb_meta_channels y = nb_meta_channels img" using Cons.prems(4) m by simp
  from inv_squeeze_step_ok [OF chk Cons.prems(2) y(3) this, of simd mem] obtain z where z: "inv_squeeze_step simd mem p y = Inr z"
    "map view (channel z) = map view (channel img)" "z = y\<lparr> channel := channel z \<rparr>" by blast
  have "z = x\<lparr> channel := channel z \<rparr>"
  proof -
    have "y\<lparr> channel := channel z \<rparr> = x\<lparr> channel := channel z \<rparr>" by (subst y(4)) simp
    then show ?thesis using z(3) by (rule trans [rotated])
  qed
  moreover have "inv_squeezes simd mem (rev (p # ps)) x = Inr z" using y(2) z(1) by (simp add: inv_squeezes_append)
  ultimately show ?case using z(2) m by blast
qed

text \<open>C38: The squeeze transform is lossless: for any list of squeezes (the default one is chosen for the empty list), of any channels after
  the meta channels, in place or not, whose channels have pixels of at most 30 bits at each step, undoing the squeezes in reverse
  order restores the pixels, sizes and shifts of all channels, whether the decoder uses its vector code or not and whatever
  fresh memory contains.\<close>

theorem Squeeze_roundtrip:
  assumes fwd: "FwdSqueeze img ps = Inr img'" and qs: "qs = (if ps = [] then DefaultSqueezeParameters img else ps)"
    and ok: "squeezable qs img"
  shows "\<exists>img''. InvSqueeze simd mem img' qs = Inr img'' \<and> map view (channel img'') = map view (channel img) \<and>
    img'' = img'\<lparr> channel := channel img'' \<rparr>"
proof -
  have "fwd_squeezes qs img = Inr img'" using fwd unfolding FwdSqueeze_def Let_def qs [symmetric] by (simp split: if_splits)
  from inv_squeezes_ok [OF this ok refl refl, of simd mem] show ?thesis by (simp add: InvSqueeze_def)
qed

text \<open>C39: The branch-free vector step of the decoder computes the scalar step, for pixels and averages below \<open>2 ^ 29\<close> in absolute value and
  residuals below \<open>2 ^ 31 - 2 ^ 29\<close>: the division by multiplication, the selection of the slope and the rounding of negative
  numbers agree.  The bounds matter: on larger pixels the two steps can differ, as \<open>FastUnsqueeze_differs\<close> shows.\<close>

theorem FastUnsqueeze_equivalence:
  assumes "\<bar>sint upper\<bar> < 2 ^ 29" "\<bar>sint avg\<bar> < 2 ^ 29" "\<bar>sint next_avg\<bar> < 2 ^ 29" "\<bar>sint residual\<bar> < 2 ^ 31 - 2 ^ 29"
  shows "FastUnsqueeze residual avg next_avg upper = unsqueeze_scalar residual avg next_avg upper"
  by (rule FastUnsqueeze_eq [OF assms])

section \<open>The layout of the channels\<close>

text \<open>The channels have the same shapes, and those behind the \<open>nb\<close> meta channels have no negative shifts (the palettes have).\<close>

definition same_layout :: "nat \<Rightarrow> Channel list \<Rightarrow> Channel list \<Rightarrow> bool" where
  "same_layout nb xs chs \<longleftrightarrow> map shape xs = map shape chs \<and> (\<forall>c \<in> set (drop nb chs). hshift c \<ge> 0 \<and> vshift c \<ge> 0)"

lemma same_layoutD:
  assumes "same_layout nb xs chs"
  shows "length xs = length chs" "c < length chs \<Longrightarrow> shape (xs ! c) = shape (chs ! c)"
    "c < length chs \<Longrightarrow> nb \<le> c \<Longrightarrow> hshift (chs ! c) \<ge> 0 \<and> vshift (chs ! c) \<ge> 0"
proof -
  show l: "length xs = length chs" using assms map_eq_imp_length_eq unfolding same_layout_def by blast
  show "shape (xs ! c) = shape (chs ! c)" if c: "c < length chs"
  proof -
    have "map shape xs ! c = map shape chs ! c" using assms by (simp add: same_layout_def)
    then show ?thesis using c l by simp
  qed
  show "hshift (chs ! c) \<ge> 0 \<and> vshift (chs ! c) \<ge> 0" if c: "c < length chs" "nb \<le> c"
  proof -
    have "chs ! c \<in> set (drop nb chs)" unfolding in_set_conv_nth using c by (intro exI [of _ "c - nb"]) simp
    then show ?thesis using assms by (simp add: same_layout_def)
  qed
qed

lemma map_list_insert: "map f (list_insert k v l) = list_insert k (f v) (map f l)"
  by (simp add: list_insert_def take_map drop_map)

lemma set_drop_insert:
  assumes "n \<le> c" "c < length l" "n \<le> k"
  shows "set (drop n (list_insert k v (l[c := b]))) \<subseteq> insert v (insert b (set (drop n l)))"
proof -
  let ?l = "l[c := b]"
  have "set (drop n (list_insert k v ?l)) = set (drop n (take k ?l)) \<union> insert v (set (drop k ?l))"
    using assms by (simp add: list_insert_def)
  moreover have "set (drop k ?l) \<subseteq> set (drop n ?l)" by (rule set_drop_subset_set_drop [OF assms(3)])
  moreover have "set (drop n (take k ?l)) \<subseteq> set (drop n ?l)" unfolding drop_take by (rule set_take_subset)
  moreover have "set (drop n ?l) \<subseteq> insert b (set (drop n l))"
    unfolding drop_update_swap [OF assms(1)] by (rule set_update_subset_insert)
  ultimately show ?thesis by blast
qed

lemma same_layout_insert:
  assumes "same_layout nb xs chs" "shape a = shape b" "hshift b \<ge> 0" "vshift b \<ge> 0" "shape r = shape s" "hshift s \<ge> 0" "vshift s \<ge> 0"
    and "nb \<le> c" "c < length chs" "nb \<le> k"
  shows "same_layout nb (list_insert k r (xs[c := a])) (list_insert k s (chs[c := b]))"
proof -
  have "\<forall>d \<in> set (drop nb (list_insert k s (chs[c := b]))). hshift d \<ge> 0 \<and> vshift d \<ge> 0"
    using assms(1,3,4,6,7) set_drop_insert [OF assms(8-10), of s b] unfolding same_layout_def by blast
  then show ?thesis using assms(1,2,5) by (simp add: same_layout_def map_list_insert map_update)
qed

lemma meta_channel_layout:
  assumes "same_layout nb (channel x) (channel img)" "c < length (channel img)" "meta_channel hor mem c rc x = Inr x'" "nb \<le> c" "nb \<le> rc"
  shows "same_layout nb (channel x') (list_insert rc (snd (halves hor (channel img ! c))) ((channel img)[c := fst (halves hor (channel img ! c))]))"
    "nb_meta_channels x' = nb_meta_channels x"
proof -
  let ?x = "channel x ! c" and ?g = "channel img ! c"
  have s: "ch_w ?x = ch_w ?g" "ch_h ?x = ch_h ?g" "hshift ?x = hshift ?g" "vshift ?x = vshift ?g" "hshift ?g \<ge> 0" "vshift ?g \<ge> 0"
    using same_layoutD(2) [OF assms(1,2)] same_layoutD(3) [OF assms(1,2,4)] by (simp_all add: shape_def)
  obtain a r where x': "x' = x\<lparr> channel := list_insert rc r ((channel x)[c := a]) \<rparr>"
    and a: "shape a = (if hor then (ch_w ?x + 1) div 2 else ch_w ?x, if hor then ch_h ?x else (ch_h ?x + 1) div 2,
      if hor then hshift ?x + 1 else hshift ?x, if hor then vshift ?x else vshift ?x + 1)"
    and r: "shape r = (if hor then ch_w ?x - (ch_w ?x + 1) div 2 else ch_w ?x, if hor then ch_h ?x else ch_h ?x - (ch_h ?x + 1) div 2,
      if hor then hshift ?x + 1 else hshift ?x, if hor then vshift ?x else vshift ?x + 1)"
    using assms(3) s(3-6) by (auto simp: meta_channel_def Let_def shape_def Channel_Create_def split: if_splits)
  have "shape a = shape (fst (halves hor ?g))" "shape r = shape (snd (halves hor ?g))"
    unfolding a r by (simp_all add: shape_def halves_def Let_def s(1-4))
  moreover have "hshift (fst (halves hor ?g)) \<ge> 0" "vshift (fst (halves hor ?g)) \<ge> 0" "hshift (snd (halves hor ?g)) \<ge> 0"
    "vshift (snd (halves hor ?g)) \<ge> 0" using s(5,6) by (simp_all add: halves_def Let_def)
  ultimately show "same_layout nb (channel x') (list_insert rc (snd (halves hor ?g)) ((channel img)[c := fst (halves hor ?g)]))"
    using same_layout_insert [OF assms(1)] assms(2,4,5) x' by simp
  show "nb_meta_channels x' = nb_meta_channels x" using x' by simp
qed

lemma meta_channels_layout:
  "same_layout nb (channel x) (channel img) \<Longrightarrow> \<forall>c \<in> set cs. beginc \<le> c \<and> c < length (channel img) \<Longrightarrow>
   meta_channels hor mem beginc offset cs x = Inr x' \<Longrightarrow> nb \<le> beginc \<Longrightarrow> nb \<le> offset \<Longrightarrow>
   same_layout nb (channel x') (channel (foldl (\<lambda>input c. (if hor then FwdHSqueeze else FwdVSqueeze) input c (offset + c - beginc)) img cs)) \<and>
   nb_meta_channels x' = nb_meta_channels x"
proof (induction cs arbitrary: x img)
  case (Cons c cs)
  obtain x1 where x1: "meta_channel hor mem c (offset + (c - beginc)) x = Inr x1" "meta_channels hor mem beginc offset cs x1 = Inr x'"
    using Cons.prems(3) by (auto split: sum.splits)
  let ?img = "(if hor then FwdHSqueeze else FwdVSqueeze) img c (offset + c - beginc)"
  have rc: "offset + (c - beginc) = offset + c - beginc" "c < length (channel img)" "nb \<le> c"
    using Cons.prems(2,4) by simp_all
  have off: "nb \<le> offset + (c - beginc)" using Cons.prems(5) by (rule trans_le_add1)
  have l: "same_layout nb (channel x1) (channel ?img)" "nb_meta_channels x1 = nb_meta_channels x"
    using meta_channel_layout [OF Cons.prems(1) rc(2) x1(1) rc(3) off] unfolding fwd_halves rc(1) by simp_all
  have "length (channel ?img) = length (channel img) + 1" unfolding fwd_halves by (simp add: list_insert_def)
  then have "\<forall>c \<in> set cs. beginc \<le> c \<and> c < length (channel ?img)" using Cons.prems(2) by auto
  from Cons.IH [OF l(1) this x1(2) Cons.prems(4,5)] l(2) show ?case by simp
qed simp

lemma meta_squeezes_layout:
  "same_layout (nb_meta_channels img) (channel x) (channel img) \<Longrightarrow> nb_meta_channels x = nb_meta_channels img \<Longrightarrow>
   \<forall>p \<in> set ps. nb_meta_channels img \<le> unat (sq_begin_c p) \<Longrightarrow> meta_squeezes mem ps x = Inr x' \<Longrightarrow>
   \<exists>img'. fwd_squeezes ps img = Inr img' \<and> map shape (channel x') = map shape (channel img') \<and> nb_meta_channels x' = nb_meta_channels img'"
proof (induction ps arbitrary: x img)
  case (Cons p ps)
  let ?b = "unat (sq_begin_c p)"
  have len: "length (channel x) = length (channel img)" by (rule same_layoutD(1) [OF Cons.prems(1)])
  have b: "\<not> ?b < nb_meta_channels x" using Cons.prems(2,3) by simp
  have chk: "CheckMetaSqueezeParams p (length (channel img))" using Cons.prems(4) len by (auto split: if_splits)
  have "(case meta_channels (horizontal p) mem ?b (sq_offset p img) [?b..<endc p + 1] x of Inl e \<Rightarrow> Inl e | Inr x1 \<Rightarrow> meta_squeezes mem ps x1) = Inr x'"
    using Cons.prems(4) b chk len by (auto simp: Let_def sq_offset_def split: if_splits sum.splits simp del: upt_Suc)
  then obtain x1 where x1: "meta_channels (horizontal p) mem ?b (sq_offset p img) [?b..<endc p + 1] x = Inr x1" "meta_squeezes mem ps x1 = Inr x'"
    by (cases "meta_channels (horizontal p) mem ?b (sq_offset p img) [?b..<endc p + 1] x") (simp_all del: upt_Suc)
  have "\<forall>c \<in> set [?b..<endc p + 1]. ?b \<le> c \<and> c < length (channel img)" using CheckMeta_bounds [OF chk] by auto
  note cs = this
  have nb: "nb_meta_channels img \<le> ?b" "nb_meta_channels img \<le> sq_offset p img"
    using Cons.prems(3) CheckMeta_bounds [OF chk] by (auto simp: sq_offset_def)
  from meta_channels_layout [OF Cons.prems(1) cs x1(1) nb]
  have l: "same_layout (nb_meta_channels img) (channel x1) (channel (fwd_squeeze_step p img))" "nb_meta_channels x1 = nb_meta_channels x"
    by (simp_all add: fwd_squeeze_step_def sq_offset_def Let_def)
  have m: "nb_meta_channels (fwd_squeeze_step p img) = nb_meta_channels img" by (rule fwd_squeeze_step_meta [OF chk])
  show ?case using Cons.IH [OF l(1) [folded m] _ _ x1(2)] l(2) m Cons.prems(2,3) chk by simp
qed (auto simp: same_layout_def)

lemma DefaultSqueezeParameters_layout:
  assumes "same_layout nb (channel x) (channel img)" "nb_meta_channels x = nb_meta_channels img" "nb_meta_channels img < length (channel img)"
  shows "DefaultSqueezeParameters x = DefaultSqueezeParameters img"
proof -
  have l: "length (channel x) = length (channel img)" by (rule same_layoutD(1) [OF assms(1)])
  have wh: "ch_w (channel x ! c) = ch_w (channel img ! c)" "ch_h (channel x ! c) = ch_h (channel img ! c)" if "c < length (channel img)" for c
    using same_layoutD(2) [OF assms(1) that] by (simp_all add: shape_def)
  let ?nb = "nb_meta_channels img"
  have c: "length (channel img) - ?nb > 2 \<and> ch_w (channel x ! (?nb + 1)) = w \<and> ch_h (channel x ! (?nb + 1)) = h \<longleftrightarrow>
      length (channel img) - ?nb > 2 \<and> ch_w (channel img ! (?nb + 1)) = w \<and> ch_h (channel img ! (?nb + 1)) = h" for w h
    using wh [of "?nb + 1"] by auto
  show ?thesis unfolding DefaultSqueezeParameters_def Let_def assms(2) l wh [OF assms(3)] c ..
qed

text \<open>C40: The decoder knows the layout before it has any pixel: if \<open>MetaSqueeze\<close> accepts an image whose channels have the sizes and
  shifts of the encoder's image, then it uses the same squeezes, also the default ones, the encoder's transform succeeds, and the
  channels end up with the same sizes and shifts in the same order.  There may be meta channels, with negative shifts as palettes have, but the
  squeezes must not touch them, as the default ones do not, and the other channels must have no negative shifts: a squeezed
  channel of shift \<open>- 1\<close> has shift 0 for the encoder and \<open>- 1\<close> for the decoder.\<close>

theorem MetaSqueeze_layout:
  assumes meta: "MetaSqueeze mem x ps = Inr (qs, x')"
    and x: "map shape (channel x) = map shape (channel img)" "nb_meta_channels x = nb_meta_channels img"
    and img: "nb_meta_channels img < length (channel img)" "\<forall>c \<in> set (drop (nb_meta_channels img) (channel img)). hshift c \<ge> 0 \<and> vshift c \<ge> 0"
    and ps: "\<forall>p \<in> set qs. nb_meta_channels img \<le> unat (sq_begin_c p)"
  shows "qs = (if ps = [] then DefaultSqueezeParameters img else ps) \<and>
    (qs \<noteq> [] \<longrightarrow> (\<exists>img'. FwdSqueeze img ps = Inr img' \<and> map shape (channel x') = map shape (channel img') \<and>
       nb_meta_channels x' = nb_meta_channels img'))"
proof -
  have s: "same_layout (nb_meta_channels img) (channel x) (channel img)" using x(1) img(2) by (simp add: same_layout_def)
  have q: "qs = (if ps = [] then DefaultSqueezeParameters img else ps)"
    using meta DefaultSqueezeParameters_layout [OF s x(2) img(1)] by (auto simp: MetaSqueeze_def Let_def split: sum.splits if_splits)
  have "meta_squeezes mem qs x = Inr x'"
    using meta DefaultSqueezeParameters_layout [OF s x(2) img(1)] q by (auto simp: MetaSqueeze_def Let_def split: sum.splits if_splits)
  from meta_squeezes_layout [OF s x(2) ps this] obtain img' where "fwd_squeezes qs img = Inr img'"
    "map shape (channel x') = map shape (channel img')" "nb_meta_channels x' = nb_meta_channels img'" by blast
  moreover have "FwdSqueeze img ps = fwd_squeezes qs img" if "qs \<noteq> []" using that unfolding FwdSqueeze_def Let_def q [symmetric] by simp
  ultimately show ?thesis using q by auto
qed

text \<open>An image of one channel with three columns and two rows.\<close>

definition squeeze_example :: Image where
  "squeeze_example = \<lparr> channel = [\<lparr> plane = [[10, 20, 0xFFFFFFF0], [1, 2, 3]], ch_w = 3, ch_h = 2, hshift = 0, vshift = 0, component = 0 \<rparr>],
     img_w = 3, img_h = 2, bitdepth = 8, nb_meta_channels = 0, img_error = False \<rparr>"

definition squeeze_both :: "SqueezeParams list" where
  "squeeze_both = [\<lparr> horizontal = True, in_place = True, sq_begin_c = 0, sq_num_c = 1 \<rparr>,
     \<lparr> horizontal = False, in_place = False, sq_begin_c = 0, sq_num_c = 2 \<rparr>]"

lemma Squeeze_roundtrip_witness:
  "\<exists>img' img''. FwdSqueeze squeeze_example squeeze_both = Inr img' \<and>
     InvSqueeze True (\<lambda>_ _. 0) img' squeeze_both = Inr img'' \<and> map view (channel img'') = map view (channel squeeze_example)"
proof -
  have "case FwdSqueeze squeeze_example squeeze_both of Inl _ \<Rightarrow> False | Inr _ \<Rightarrow> True" by code_simp
  then obtain img' where f: "FwdSqueeze squeeze_example squeeze_both = Inr img'" by (auto split: sum.splits)
  have q: "squeeze_both = (if squeeze_both = [] then DefaultSqueezeParameters squeeze_example else squeeze_both)" by (simp add: squeeze_both_def)
  have "squeezable squeeze_both squeeze_example" by code_simp
  from Squeeze_roundtrip [OF f q this] f show ?thesis by blast
qed

lemma FastUnsqueeze_equivalence_witness:
  "FastUnsqueeze 0xFFFFFFFD 100 60 135 = unsqueeze_scalar 0xFFFFFFFD 100 60 135"
  using FastUnsqueeze_equivalence [of 135 100 60 "0xFFFFFFFD"] by simp

text \<open>The same image behind a palette.\<close>

definition palette_example :: Image where
  "palette_example = squeeze_example\<lparr>
     channel := \<lparr> plane = [[7, 8]], ch_w = 2, ch_h = 1, hshift = - 1, vshift = - 1, component = 0 \<rparr> # channel squeeze_example,
     nb_meta_channels := 1 \<rparr>"

definition palette_squeezes :: "SqueezeParams list" where
  "palette_squeezes = [\<lparr> horizontal = True, in_place = True, sq_begin_c = 1, sq_num_c = 1 \<rparr>,
     \<lparr> horizontal = False, in_place = False, sq_begin_c = 1, sq_num_c = 2 \<rparr>]"

lemma MetaSqueeze_layout_witness:
  "\<exists>x' img'. MetaSqueeze (\<lambda>_ _. 0) palette_example palette_squeezes = Inr (palette_squeezes, x') \<and>
     FwdSqueeze palette_example palette_squeezes = Inr img' \<and> map shape (channel x') = map shape (channel img')"
proof -
  have "case MetaSqueeze (\<lambda>_ _. 0) palette_example palette_squeezes of Inl _ \<Rightarrow> False | Inr (qs, _) \<Rightarrow> qs = palette_squeezes" by code_simp
  then obtain x' where m: "MetaSqueeze (\<lambda>_ _. 0) palette_example palette_squeezes = Inr (palette_squeezes, x')" by (auto split: sum.splits)
  have "nb_meta_channels palette_example < length (channel palette_example)"
    "\<forall>c \<in> set (drop (nb_meta_channels palette_example) (channel palette_example)). hshift c \<ge> 0 \<and> vshift c \<ge> 0"
    "\<forall>p \<in> set palette_squeezes. nb_meta_channels palette_example \<le> unat (sq_begin_c p)" "palette_squeezes \<noteq> []"
    by (simp_all add: palette_example_def squeeze_example_def palette_squeezes_def)
  then show ?thesis using MetaSqueeze_layout [OF m refl refl] m by blast
qed

text \<open>Beyond these bounds on the pixels the vector step and the scalar step differ.\<close>

lemma FastUnsqueeze_differs:
  "FastUnsqueeze 0 0 0xC0000000 0x40000000 \<noteq> unsqueeze_scalar 0 0 0xC0000000 0x40000000"
  by code_simp

end
