(* ===== verification/Spec2Isabelle.thy ===== *)
theory Spec2Isabelle
  imports Prelude Bit_Reader Bit_Writer Field_Coders Hybrid_Uint Alias_Table Huffman Ans_Coder Ans_Tokens Ans_Histogram Move_To_Front Bundle Headers Bundle_Reading Metadata Frame_Header Lehmer Ans_Codes Ac_Strategy Coeff_Order Frame_Dimensions Toc Modular_Image Squeeze
begin

text \<open>
  The codestream core of libjxl, the C++ library under \<^verbatim>\<open>lib/jxl\<close>.  A JPEG XL codestream is a string of bits, the least
  significant bit of a byte first.  It starts with bundles of header fields; then each frame has a header, a table of contents and
  sections of entropy coded integers, from which the images of the frame are rebuilt.  The development follows this path: bits, fields,
  entropy coding, headers, and the parts of a frame that are exact (integers and permutations, not floating point).

  \<^bold>\<open>Bits.\<close>  \<open>Prelude\<close> has the machine integers, status codes and bit strings.  \<open>Bit_Reader\<close> models \<^verbatim>\<open>BitReader\<close>
  (\<^verbatim>\<open>dec_bit_reader.h\<close>) with its 64-bit buffer; it refines an infinite stream of the bits of the input followed by zeros.
  \<open>Bit_Writer\<close> models \<^verbatim>\<open>BitWriter\<close> with its padded buffer and its allotments (\<^verbatim>\<open>enc_bit_writer.cc\<close>, \<^verbatim>\<open>padded_bytes.h\<close>)
  over memory whose fresh part is arbitrary.  Both state their contracts as locales (\<open>reader\<close>, \<open>writer\<close>), interpreted on
  the code: \<open>parses p bs v\<close> says that a decoder takes the bits \<open>bs\<close> off the stream and returns \<open>v\<close>, \<open>emits\<close> that an
  encoder appends exactly these bits.  The round trips below rest on these two.

  \<^bold>\<open>Fields.\<close>  \<open>Field_Coders\<close> has the codes of single fields (\<^verbatim>\<open>field_encodings.h\<close>, \<^verbatim>\<open>fields.cc\<close>, \<^verbatim>\<open>enc_fields.cc\<close>).
  \<open>Bundle\<close> turns a \<^verbatim>\<open>VisitFields\<close> function into the calls it makes on a visitor and runs them with the visitors that size,
  write, read and reset a bundle; \<open>Bundle_Reading\<close> computes what can come out of reading one.  On top of them are the image headers
  (\<open>Headers\<close>), the image metadata (\<open>Metadata\<close>) and the frame header (\<open>Frame_Header\<close>), each with what an accepted
  header satisfies, and the dimensions derived from them with the grids of groups (\<open>Frame_Dimensions\<close>).

  \<^bold>\<open>Entropy coding.\<close>  \<open>Hybrid_Uint\<close> splits integers into tokens and bits.  \<open>Alias_Table\<close> builds the decoding tables of
  ANS, \<open>Ans_Coder\<close> encodes and decodes symbols with them, \<open>Ans_Tokens\<close> streams of integers with the LZ77 window of the
  reader, \<open>Ans_Histogram\<close> reads and writes histograms, \<open>Huffman\<close> prefix codes, and \<open>Move_To_Front\<close> is the transform of
  context maps.  \<open>Ans_Codes\<close> reads the description of a set of codes, in which histograms and context maps call each other:
  the recursion has fuel, and 3 is shown to be enough for every input, because a context map has a code with a single context,
  and where the map has at most two entries this code may not use LZ77, so that it needs no context map itself.

  \<^bold>\<open>Frames.\<close>  \<open>Lehmer\<close> has the codes of permutations with their Fenwick trees, \<open>Ac_Strategy\<close> the block transforms, their
  zigzag orders and the image that places them, \<open>Coeff_Order\<close> permutations and coefficient orders in the bit stream, and \<open>Toc\<close>
  the table of contents.  \<open>Modular_Image\<close> and \<open>Squeeze\<close> are the reversible transforms of the modular mode: the colour transforms
  and the squeeze, both with their vector code next to the scalar one.

  \<^bold>\<open>Kinds of results.\<close>  Round trips compose a model of the encoder with a separate model of the decoder.  Safety results
  start from arbitrary bits and say what an accepted value satisfies.  Equivalences relate optimised code (vectors, trees, shortcuts)
  to the plain version; refinements relate it to an abstract description (a stream, a set of placed transforms, a layout).
  The properties of the manifest carry the ids of their text blocks.

  \<^bold>\<open>Conventions and bounds.\<close>  Errors are \<open>Inl\<close> of a status code.  \<open>None\<close> is a loop that does not end, fuel that runs out
  or, in \<open>Mirror\<close>, a signed overflow.  Integers have their width where it matters; sizes of type \<^verbatim>\<open>size_t\<close> and indices
  that the code keeps far below their limits are natural numbers.  Memory that is not initialised, the number of vector lanes and
  code outside of the model (the color encoding, the encoder of permutations) are parameters.  Allocations succeed.

  \<^bold>\<open>What the hypotheses leave out.\<close>  The ANS round trips need a coder state of at least \<open>2 ^ 16\<close>, which the encoder guarantees,
  and streams written without LZ77; prefix codes are read but their writer is not shown to be inverse to the reader.  The squeeze is
  treated for pixels of at most 30 bits and squeezes that leave meta channels alone.  Headers are read into new objects, or
  into valid ones with a single pass.

  \<^bold>\<open>Not modelled.\<close>  Floating-point code: transforms, colour conversion, quantisation, filters, noise, splines, the render
  pipeline, and the heuristics of the encoder, among them the choice of histograms and of LZ77 matches.  The decision trees, predictors and
  palettes of the modular mode and the coefficients of blocks, which would come next.  The public interface
  (\<^verbatim>\<open>decode.cc\<close>, \<^verbatim>\<open>encode.cc\<close>) with its event loop, containers and ICC profiles, JPEG reconstruction, the fast lossless
  encoder, threads, the other libraries, tools, tests, and the Zig port under \<^verbatim>\<open>src/\<close>.
\<close>

end
